(* ===== verification/Prelude.thy ===== *)
theory Prelude
  imports Main "HOL-Library.Sublist"
begin

text \<open>
  What every component theory shares: the result type of a C function that may run into
  undefined behaviour, the sequencing of such functions, the collections of rewrite rules, and
  the interface (a locale) of an array of records that is searched by name from the front, which
  the program uses in several places.
\<close>

section \<open>Undefined behaviour as a value\<close>

text \<open>
  A C function of the program either returns or commits one of the errors below, after which the
  standard says nothing of the execution. Every model of a function that could do so returns
  \<open>Ok\<close> of its result or \<open>UB\<close> of the first error it commits. \<open>Endless_Loop\<close> marks a loop that
  never stops.
\<close>

datatype ub =
    Buffer_Overflow     \<comment> \<open>a write outside an array\<close>
  | Buffer_Overread     \<comment> \<open>a read outside an array\<close>
  | Unterminated        \<comment> \<open>a C string whose terminator does not fit its array\<close>
  | Null_Deref          \<comment> \<open>a write or read through NULL\<close>
  | Use_After_Free      \<comment> \<open>a write or read through a pointer to freed memory, or a second free\<close>
  | Uninit_Read         \<comment> \<open>a read of memory that was never written\<close>
  | Format_Args         \<comment> \<open>a printf whose arguments do not fit its conversions\<close>
  | Signed_Overflow     \<comment> \<open>an operation on a signed type whose result the type cannot hold\<close>
  | Float_Cast          \<comment> \<open>a conversion to int of a number that int cannot hold\<close>
  | Endless_Loop        \<comment> \<open>a loop that does not stop\<close>

datatype 'a outcome = Ok 'a | UB ub

fun obind :: "'a outcome \<Rightarrow> ('a \<Rightarrow> 'b outcome) \<Rightarrow> 'b outcome" where
  "obind (Ok x) f = f x"
| "obind (UB e) f = UB e"

definition is_ok :: "'a outcome \<Rightarrow> bool" where
  "is_ok r = (case r of Ok _ \<Rightarrow> True | UB _ \<Rightarrow> False)"

named_theorems wf_intros \<open>preservation of the well-formedness invariants\<close>
named_theorems frame_simps \<open>fields an operation leaves alone\<close>

lemma is_ok_simps [simp]: "is_ok (Ok x)" "\<not> is_ok (UB e)"
  by (simp_all add: is_ok_def)

lemma is_ok_iff: "is_ok r \<longleftrightarrow> (\<exists>x. r = Ok x)"
  by (cases r) simp_all

lemma obind_Ok_iff: "obind m f = Ok y \<longleftrightarrow> (\<exists>x. m = Ok x \<and> f x = Ok y)"
  by (cases m) simp_all

lemma obind_UB_iff: "obind m f = UB e \<longleftrightarrow> m = UB e \<or> (\<exists>x. m = Ok x \<and> f x = UB e)"
  by (cases m) simp_all

lemma is_ok_obind: "is_ok (obind m f) \<longleftrightarrow> (\<exists>x. m = Ok x \<and> is_ok (f x))"
  by (cases m) simp_all

lemma obind_assoc: "obind (obind m f) g = obind m (\<lambda>x. obind (f x) g)"
  by (cases m) simp_all

text \<open>A list of steps run one after the other, stopping at the first error.\<close>

fun run_steps :: "('e \<Rightarrow> 's \<Rightarrow> 's outcome) \<Rightarrow> 'e list \<Rightarrow> 's \<Rightarrow> 's outcome" where
  "run_steps f [] s = Ok s"
| "run_steps f (e # es) s = obind (f e s) (run_steps f es)"

lemma run_steps_append:
  "run_steps f (es @ fs) s = obind (run_steps f es s) (run_steps f fs)"
proof (induction es arbitrary: s)
  case (Cons e es)
  then show ?case by (cases "f e s") simp_all
qed simp

lemma run_steps_invariant:
  assumes "\<And>e s s'. P s \<Longrightarrow> f e s = Ok s' \<Longrightarrow> P s'"
    and "P s" and "run_steps f es s = Ok s'"
  shows "P s'"
  using assms(2,3) by (induction es arbitrary: s) (auto simp: obind_Ok_iff intro: assms(1))

text \<open>Progress: a step that never fails on good states makes a run that never fails.\<close>

lemma run_steps_total:
  assumes "\<And>e s. P s \<Longrightarrow> e \<in> E \<Longrightarrow> \<exists>s'. f e s = Ok s' \<and> P s'"
    and "P s" and "set es \<subseteq> E"
  shows "\<exists>s'. run_steps f es s = Ok s' \<and> P s'"
  using assms(2,3)
proof (induction es arbitrary: s)
  case Nil
  then show ?case by simp
next
  case (Cons e es)
  from assms(1) [OF Cons.prems(1), of e] Cons.prems(2)
  obtain s1 where "f e s = Ok s1" "P s1" by auto
  with Cons.IH [of s1] Cons.prems(2) show ?case by simp
qed

section \<open>Runs that follow an abstract description\<close>

text \<open>
  The interface of a component whose operations each follow an abstract effect, from every state
  that satisfies an invariant and for every legal operation: then whole runs do so. The components
  provide it for their own operations.
\<close>

locale simulation =
  fixes step :: "'e \<Rightarrow> 's \<Rightarrow> 's outcome"
    and invar :: "'s \<Rightarrow> bool"
    and legal :: "'e \<Rightarrow> bool"
    and abstract :: "'s \<Rightarrow> 'a"
    and effect :: "'e \<Rightarrow> 'a \<Rightarrow> 'a"
  assumes step_simulates:
    "invar s \<Longrightarrow> legal e \<Longrightarrow> \<exists>s'. step e s = Ok s' \<and> invar s' \<and> abstract s' = effect e (abstract s)"
begin

lemma run_simulates:
  "invar s \<Longrightarrow> \<forall>e \<in> set es. legal e \<Longrightarrow>
   \<exists>s'. run_steps step es s = Ok s' \<and> invar s' \<and> abstract s' = fold effect es (abstract s)"
proof (induction es arbitrary: s)
  case (Cons e es)
  obtain s1 where "step e s = Ok s1" "invar s1" "abstract s1 = effect e (abstract s)"
    using step_simulates [of s e] Cons.prems by auto
  with Cons.IH [of s1] Cons.prems(2) show ?case by simp
qed simp

end

section \<open>Arrays of named records\<close>

text \<open>
  \<open>get_callback\<close>, \<open>get_registered_pointer\<close> and \<open>get_named_clock\<close> all walk an array from its
  first element and return the first record whose name compares equal. The interface states
  what such a search returns on the empty array and on an array with an element in front; the
  lemmas derived from it are what the clients use.
\<close>

locale named_array =
  fixes name_of :: "'a \<Rightarrow> string"
    and find_named :: "string \<Rightarrow> 'a list \<Rightarrow> 'a option"
  assumes find_Nil: "find_named k [] = None"
    and find_Cons: "find_named k (x # xs) = (if k = name_of x then Some x else find_named k xs)"
begin

lemma find_None_iff: "find_named k xs = None \<longleftrightarrow> k \<notin> name_of ` set xs"
  by (induction xs) (auto simp: find_Nil find_Cons)

lemma find_name: "find_named k xs = Some x \<Longrightarrow> name_of x = k \<and> x \<in> set xs"
  by (induction xs) (auto simp: find_Nil find_Cons split: if_splits)

lemma find_append:
  "find_named k (xs @ ys) = (case find_named k xs of None \<Rightarrow> find_named k ys | Some x \<Rightarrow> Some x)"
  by (induction xs) (auto simp: find_Nil find_Cons)

lemma find_is_Some: "k \<in> name_of ` set xs \<Longrightarrow> \<exists>x. find_named k xs = Some x \<and> name_of x = k"
  using find_None_iff [of k xs] find_name by (cases "find_named k xs") auto

lemma find_snoc_new:
  "k \<notin> name_of ` set xs \<Longrightarrow> name_of x = k \<Longrightarrow> find_named k (xs @ [x]) = Some x"
  by (simp add: find_append find_Cons flip: find_None_iff)

lemma find_snoc_old:
  "k \<in> name_of ` set xs \<Longrightarrow> find_named k (xs @ [x]) = find_named k xs"
  using find_is_Some [of k xs] by (auto simp: find_append)

lemma find_distinct:
  "distinct (map name_of xs) \<Longrightarrow> x \<in> set xs \<Longrightarrow> find_named (name_of x) xs = Some x"
proof (induction xs)
  case (Cons a xs)
  then show ?case by (auto simp: find_Cons image_iff)
qed simp

end

end
