(* ===== verification/CString.thy ===== *)
theory CString
  imports Prelude "HOL-Library.Char_ord"
begin

text \<open>
  The part of the C standard library the program uses on strings. A C string is held as the list
  of its bytes in front of the terminating zero byte; an array of \<open>n\<close> bytes as a list whose
  length is at most \<open>n\<close>. The functions that write into an array take its size and return
  \<open>UB\<close> when the bytes do not fit, so a model that uses them has to prove that they do.
\<close>

abbreviation NUL :: char where "NUL \<equiv> CHR 0x00"
abbreviation LF :: char where "LF \<equiv> CHR 0x0A"

section \<open>Reading strings\<close>

text \<open>The C string at the start of an array: what stands in front of the first zero byte.\<close>

definition cstr :: "char list \<Rightarrow> string" where
  "cstr bs = takeWhile (\<lambda>c. c \<noteq> NUL) bs"

definition no_nul :: "char list \<Rightarrow> bool" where
  "no_nul s \<longleftrightarrow> NUL \<notin> set s"

text \<open>\<open>strchr\<close> and \<open>strrchr\<close>, as the offset of the first and the last occurrence.\<close>

fun strchr :: "string \<Rightarrow> char \<Rightarrow> nat option" where
  "strchr [] c = None"
| "strchr (x # xs) c = (if x = c then Some 0 else map_option Suc (strchr xs c))"

fun strrchr :: "string \<Rightarrow> char \<Rightarrow> nat option" where
  "strrchr [] c = None"
| "strrchr (x # xs) c =
     (case strrchr xs c of Some i \<Rightarrow> Some (Suc i) | None \<Rightarrow> if x = c then Some 0 else None)"

lemma cstr_id [simp]: "no_nul s \<Longrightarrow> cstr s = s"
  by (simp add: cstr_def no_nul_def takeWhile_eq_all_conv) (metis)

lemma no_nul_cstr [simp]: "no_nul (cstr bs)"
  by (auto simp: cstr_def no_nul_def dest: set_takeWhileD)

lemma length_cstr: "length (cstr bs) \<le> length bs"
  by (simp add: cstr_def length_takeWhile_le)

lemma no_nul_simps [simp]:
  "no_nul []" "no_nul (c # s) \<longleftrightarrow> c \<noteq> NUL \<and> no_nul s" "no_nul (s @ t) \<longleftrightarrow> no_nul s \<and> no_nul t"
  by (auto simp: no_nul_def)

lemma no_nul_take_drop [simp]: "no_nul s \<Longrightarrow> no_nul (take n s)" "no_nul s \<Longrightarrow> no_nul (drop n s)"
  by (auto simp: no_nul_def dest: in_set_takeD in_set_dropD)

lemma strchr_None_iff: "strchr s c = None \<longleftrightarrow> c \<notin> set s"
  by (induction s) auto

lemma strchr_Some_iff:
  "strchr s c = Some i \<longleftrightarrow> i < length s \<and> s ! i = c \<and> c \<notin> set (take i s)"
proof (induction s arbitrary: i)
  case Nil
  then show ?case by simp
next
  case (Cons x xs)
  then show ?case by (cases i) auto
qed

lemma strchr_bound: "strchr s c = Some i \<Longrightarrow> i < length s"
  by (simp add: strchr_Some_iff)

lemma strchr_append_hit: "c \<notin> set s \<Longrightarrow> strchr (s @ c # t) c = Some (length s)"
  by (simp add: strchr_Some_iff nth_append)

lemma strchr_append: "c \<notin> set s \<Longrightarrow> strchr (s @ t) c = map_option ((+) (length s)) (strchr t c)"
  by (cases "strchr t c"; induction s) auto

lemma strrchr_None_iff: "strrchr s c = None \<longleftrightarrow> c \<notin> set s"
  by (induction s) (auto split: option.splits)

lemma strrchr_bound: "strrchr s c = Some i \<Longrightarrow> i < length s \<and> s ! i = c"
  by (induction s arbitrary: i) (auto split: option.splits if_splits)

lemma strrchr_append_hit: "c \<notin> set t \<Longrightarrow> strrchr (s @ c # t) c = Some (length s)"
  by (induction s) (auto simp: strrchr_None_iff split: option.splits)

lemma strchr_le_strrchr: "strchr s c = Some i \<Longrightarrow> strrchr s c = Some j \<Longrightarrow> i \<le> j"
  by (induction s arbitrary: i j) (auto split: if_splits option.splits)

section \<open>Copies into arrays\<close>

text \<open>A difference of pointers that is passed as a \<open>size_t\<close> wraps modulo \<open>2 ^ 64\<close>.\<close>

definition size_t :: "int \<Rightarrow> nat" where
  "size_t n = nat (n mod 2 ^ 64)"

text \<open>
  \<open>strcpy\<close> into an array of \<open>sz\<close> bytes needs room for the terminator. \<open>strncpy\<close> writes exactly
  \<open>n\<close> bytes (it pads with zeros), so it overruns the array whenever \<open>n > sz\<close>, however short the
  source is; when it fills the array without a zero the array holds no C string.
\<close>

definition strcpy_into :: "nat \<Rightarrow> string \<Rightarrow> string outcome" where
  "strcpy_into sz src = (if length src < sz then Ok src else UB Buffer_Overflow)"

definition strncpy_into :: "nat \<Rightarrow> string \<Rightarrow> int \<Rightarrow> string outcome" where
  "strncpy_into sz src n =
     (if size_t n > sz then UB Buffer_Overflow
      else if size_t n = sz \<and> sz \<le> length src then UB Unterminated
      else Ok (take (size_t n) src))"

text \<open>\<open>snprintf\<close> keeps the first \<open>sz - 1\<close> bytes of what it formats.\<close>

definition snprintf_into :: "nat \<Rightarrow> string \<Rightarrow> string" where
  "snprintf_into sz s = take (sz - 1) s"

lemma size_t_of_nat: "0 \<le> n \<Longrightarrow> n < 2 ^ 64 \<Longrightarrow> size_t n = nat n"
  by (simp add: size_t_def)

lemma size_t_negative: "- (2 ^ 63) \<le> n \<Longrightarrow> n < 0 \<Longrightarrow> 2 ^ 63 \<le> size_t n"
proof -
  assume n: "- (2 ^ 63) \<le> n" "n < 0"
  then have "n mod 2 ^ 64 = (n + 2 ^ 64) mod 2 ^ 64" by simp
  also have "\<dots> = n + 2 ^ 64" using n by (intro mod_pos_pos_trivial) auto
  finally show ?thesis using n by (simp add: size_t_def)
qed

lemma strcpy_into_Ok [simp]: "length src < sz \<Longrightarrow> strcpy_into sz src = Ok src"
  by (simp add: strcpy_into_def)

lemma strncpy_into_Ok:
  assumes "0 \<le> n" and "n < int sz" and "sz < 2 ^ 64"
  shows "strncpy_into sz src n = Ok (take (nat n) src)"
proof -
  have "n < 2 ^ 64"
    using assms(2,3) by (metis of_nat_less_iff of_nat_numeral of_nat_power order.strict_trans)
  then have "size_t n = nat n" using assms(1) by (simp add: size_t_of_nat)
  moreover have "nat n < sz" using assms(1,2) by simp
  ultimately show ?thesis by (simp add: strncpy_into_def)
qed

lemma strncpy_into_negative:
  "- (2 ^ 63) \<le> n \<Longrightarrow> n < 0 \<Longrightarrow> sz < 2 ^ 63 \<Longrightarrow> strncpy_into sz src n = UB Buffer_Overflow"
  using size_t_negative [of n] by (simp add: strncpy_into_def)

lemma length_snprintf_into: "0 < sz \<Longrightarrow> length (snprintf_into sz s) < sz"
  by (simp add: snprintf_into_def)

lemma snprintf_into_fits [simp]: "length s < sz \<Longrightarrow> snprintf_into sz s = s"
  by (simp add: snprintf_into_def)

section \<open>Decimal numbers\<close>

definition digit_char :: "nat \<Rightarrow> char" where
  "digit_char d = char_of (48 + d)"

definition char_digit :: "char \<Rightarrow> nat" where
  "char_digit c = of_char c - 48"

definition is_digit :: "char \<Rightarrow> bool" where
  "is_digit c \<longleftrightarrow> 48 \<le> (of_char c :: nat) \<and> (of_char c :: nat) \<le> 57"

text \<open>What \<open>%d\<close> prints.\<close>

fun show_nat :: "nat \<Rightarrow> string" where
  "show_nat n = (if n < 10 then [digit_char n] else show_nat (n div 10) @ [digit_char (n mod 10)])"

declare show_nat.simps [simp del]

definition show_int :: "int \<Rightarrow> string" where
  "show_int i = (if i < 0 then CHR ''-'' # show_nat (nat (- i)) else show_nat (nat i))"

text \<open>
  \<open>atoi\<close>: white space, an optional sign and digits, up to the first other byte. It is
  \<open>strtol\<close> converted to \<open>int\<close>: the value saturates at the 64 bits of \<open>long\<close> and is then cut to
  its low 32 bits (the conversion to \<open>int\<close> of the platforms the program is built for).
\<close>

definition isspace :: "char \<Rightarrow> bool" where
  "isspace c \<longleftrightarrow> c = CHR '' '' \<or> (9 \<le> (of_char c :: nat) \<and> (of_char c :: nat) \<le> 13)"

definition digits_val :: "string \<Rightarrow> nat" where
  "digits_val s = foldl (\<lambda>a c. 10 * a + char_digit c) 0 s"

definition long_max :: int where "long_max = 2 ^ 63 - 1"
definition long_min :: int where "long_min = - (2 ^ 63)"

definition wrap32 :: "int \<Rightarrow> int" where
  "wrap32 i = (i + 2 ^ 31) mod 2 ^ 32 - 2 ^ 31"

fun strtol_body :: "string \<Rightarrow> int" where
  "strtol_body [] = 0"
| "strtol_body (c # s) =
     (if c = CHR ''-'' then - int (digits_val (takeWhile is_digit s))
      else if c = CHR ''+'' then int (digits_val (takeWhile is_digit s))
      else int (digits_val (takeWhile is_digit (c # s))))"

definition strtol :: "string \<Rightarrow> int" where
  "strtol s = max long_min (min long_max (strtol_body (dropWhile isspace s)))"

definition atoi :: "string \<Rightarrow> int" where
  "atoi s = wrap32 (strtol s)"

definition int32 :: "int \<Rightarrow> bool" where
  "int32 i \<longleftrightarrow> - (2 ^ 31) \<le> i \<and> i < 2 ^ 31"

lemma char_digit_digit_char [simp]: "d < 10 \<Longrightarrow> char_digit (digit_char d) = d"
  by (simp add: char_digit_def digit_char_def)

lemma is_digit_digit_char [simp]: "d < 10 \<Longrightarrow> is_digit (digit_char d)"
  by (simp add: is_digit_def digit_char_def)

lemma digits_val_simps [simp]:
  "digits_val [] = 0" "digits_val (s @ [c]) = 10 * digits_val s + char_digit c"
  by (simp_all add: digits_val_def)

lemma digits_val_show_nat [simp]: "digits_val (show_nat n) = n"
proof (induction n rule: show_nat.induct)
  case (1 n)
  then show ?case
    by (cases "n < 10") (simp_all add: show_nat.simps [of n] digits_val_def)
qed

lemma show_nat_digits: "\<forall>c \<in> set (show_nat n). is_digit c"
proof (induction n rule: show_nat.induct)
  case (1 n)
  then show ?case by (cases "n < 10") (auto simp: show_nat.simps [of n])
qed

lemma show_nat_nonempty [simp]: "show_nat n \<noteq> []"
  by (simp add: show_nat.simps [of n])

lemma is_digit_distinct:
  "is_digit c \<Longrightarrow> \<not> isspace c \<and> c \<noteq> CHR ''-'' \<and> c \<noteq> CHR ''+'' \<and> c \<noteq> NUL"
  by (auto simp: is_digit_def isspace_def)

lemma no_nul_show_nat [simp]: "no_nul (show_nat n)"
  using show_nat_digits [of n] is_digit_distinct by (fastforce simp: no_nul_def)

lemma no_nul_show_int [simp]: "no_nul (show_int i)"
  by (simp add: show_int_def)

lemma takeWhile_show_nat [simp]: "takeWhile is_digit (show_nat n) = show_nat n"
  using show_nat_digits by (simp add: takeWhile_eq_all_conv)

lemma strtol_body_show_int: "strtol_body (show_int i) = i"
proof (cases "i < 0")
  case True
  then show ?thesis by (simp add: show_int_def)
next
  case False
  obtain c s where cs: "show_nat (nat i) = c # s" by (cases "show_nat (nat i)") simp_all
  then have "is_digit c" "\<forall>d \<in> set s. is_digit d"
    using show_nat_digits [of "nat i"] by simp_all
  with False cs show ?thesis
    using takeWhile_show_nat [of "nat i"] digits_val_show_nat [of "nat i"] is_digit_distinct [of c]
    by (simp add: show_int_def takeWhile_eq_all_conv [THEN iffD2])
qed

lemma dropWhile_isspace_show_int [simp]: "dropWhile isspace (show_int i) = show_int i"
proof (cases "show_int i")
  case (Cons c s)
  have "\<not> isspace c"
  proof (cases "i < 0")
    case True
    with Cons show ?thesis by (auto simp: show_int_def isspace_def)
  next
    case False
    with Cons have "is_digit c" using show_nat_digits [of "nat i"] by (simp add: show_int_def)
    then show ?thesis by (simp add: is_digit_distinct)
  qed
  with Cons show ?thesis by simp
qed simp

lemma wrap32_id [simp]: "int32 i \<Longrightarrow> wrap32 i = i"
  by (simp add: wrap32_def int32_def)

lemma int32_wrap32 [simp]: "int32 (wrap32 i)"
  using pos_mod_sign [of "2 ^ 32" "i + 2 ^ 31"] pos_mod_bound [of "2 ^ 32" "i + 2 ^ 31"]
  by (simp add: wrap32_def int32_def)

lemma atoi_show_int: "int32 i \<Longrightarrow> atoi (show_int i) = i"
  by (simp add: atoi_def strtol_def strtol_body_show_int long_min_def long_max_def int32_def
      max_def min_def wrap32_def)

lemma int32_atoi [simp]: "int32 (atoi s)"
  by (simp add: atoi_def)

end
