(* ===== verification/Beat.thy ===== *)
theory Beat
  imports CString
begin

text \<open>
  src/src/beat.c: the daemon. It answers every TCP connection with \<open>bip\<close> and closes it, and
  every UDP datagram with a \<open>bip\<close> datagram. The state holds the globals of the file, the table
  of open descriptors, the pid file and the log of what the process did; the results of system
  calls are inputs. A signal may arrive between two calls of a turn as well as between two turns. Not modelled are a signal that
  arrives inside a call of the C library or during the start-up, and a second one while the handler runs.
\<close>

section \<open>Data\<close>

definition pidfilename :: string where "pidfilename = ''/var/hearthbeat/pid''"
definition message :: string where "message = ''bip''"

record arguments =
  port :: int
  fork :: bool

datatype effect =
    Out string              \<comment> \<open>printed on standard output\<close>
  | Err string              \<comment> \<open>printed on standard error\<close>
  | Tcp_Send int string     \<comment> \<open>a \<open>send\<close> on a descriptor that was accepted\<close>
  | Udp_Send string string  \<comment> \<open>a \<open>sendto\<close> an address that was accepted\<close>
  | Close int               \<comment> \<open>\<open>close\<close> of a descriptor\<close>
  | Unlink string           \<comment> \<open>removal of a file\<close>

text \<open>A process ends by \<open>exit\<close> or by a signal whose action is the default.\<close>

datatype ending = Exit int | Killed int

record beat =
  fork_pid :: int
  tcp_server_socket :: int
  tcp_sock :: int
  udp_server_socket :: int
  open_fds :: "int set"
  pid_file :: "string option"
  exited :: "ending option"
  log :: "effect list"

text \<open>Static storage starts as zero.\<close>

definition beat_start :: beat where
  "beat_start = \<lparr>fork_pid = 0, tcp_server_socket = 0, tcp_sock = 0, udp_server_socket = 0,
     open_fds = {}, pid_file = None, exited = None, log = []\<rparr>"

section \<open>Options\<close>

definition argp_err_unknown :: int where "argp_err_unknown = 7"

definition parse_opt :: "char \<Rightarrow> string \<Rightarrow> arguments \<Rightarrow> int \<times> arguments" where
  "parse_opt key arg args =
     (if key = CHR ''p'' then (0, args\<lparr>port := atoi arg\<rparr>)
      else if key = CHR ''n'' then (0, args\<lparr>fork := False\<rparr>)
      else (argp_err_unknown, args))"

text \<open>The defaults of \<open>main\<close>, then the options in the order \<open>argp_parse\<close> delivers them.\<close>

definition parse_options :: "(char \<times> string) list \<Rightarrow> arguments" where
  "parse_options opts =
     fold (\<lambda>(key, arg) args. snd (parse_opt key arg args)) opts \<lparr>port = 48807, fork = True\<rparr>"

text \<open>\<open>htons (arguments.port)\<close>: the low 16 bits.\<close>

definition bound_port :: "arguments \<Rightarrow> int" where
  "bound_port args = port args mod 2 ^ 16"

section \<open>Exits\<close>

definition emit :: "effect \<Rightarrow> beat \<Rightarrow> beat" where
  "emit e s = s\<lparr>log := log s @ [e]\<rparr>"

definition close_fd :: "int \<Rightarrow> beat \<Rightarrow> int \<times> beat" where
  "close_fd fd s =
     (if fd \<in> open_fds s then 0 else - 1, emit (Close fd) (s\<lparr>open_fds := open_fds s - {fd}\<rparr>))"

definition removepidfile :: "beat \<Rightarrow> beat" where
  "removepidfile s =
     (if fork_pid s \<noteq> 0 then emit (Unlink pidfilename) (s\<lparr>pid_file := None\<rparr>) else s)"

text \<open>
  \<open>die\<close> hands its uninitialised \<open>va_list\<close> itself to \<open>fprintf\<close> as the only argument: a format with
  a conversion reads an argument of the wrong type.
\<close>

definition die :: "int \<Rightarrow> string \<Rightarrow> beat \<Rightarrow> beat outcome" where
  "die code fmt s =
     (if CHR ''%'' \<in> set fmt then UB Format_Args
      else Ok ((removepidfile (emit (Err fmt) s))\<lparr>exited := Some (Exit code)\<rparr>))"

definition sigint :: int where "sigint = 2"
definition sigterm :: int where "sigterm = 15"
definition sigpipe :: int where "sigpipe = 13"

definition signal_handler :: "int \<Rightarrow> beat \<Rightarrow> beat" where
  "signal_handler signo s =
     (if signo = sigint \<or> signo = sigterm then
        (let s1 = emit (Out (''Received stop signal'' @ [LF])) s;
             s2 = (if tcp_server_socket s1 \<noteq> 0 then snd (close_fd (tcp_server_socket s1) s1) else s1);
             s3 = (if tcp_sock s2 \<noteq> 0 then snd (close_fd (tcp_sock s2) s2) else s2);
             s4 = (if udp_server_socket s3 \<noteq> 0 then snd (close_fd (udp_server_socket s3) s3) else s3)
         in (removepidfile s4)\<lparr>exited := Some (Exit 0)\<rparr>)
      else s)"

section \<open>Start-up\<close>

text \<open>
  The results of the calls \<open>main\<close> makes before its loop. \<open>sys_error\<close> is what \<open>errno\<close> would be.
\<close>

record startup =
  su_fork :: int
  su_fopen :: bool
  su_pid :: int
  su_fprintf :: int
  su_fclose :: int
  su_tcp_socket :: int
  su_tcp_bind :: int
  su_tcp_listen :: int
  su_udp_socket :: int
  su_udp_bind :: int
  sys_error :: int

definition write_pid :: "startup \<Rightarrow> beat \<Rightarrow> beat outcome" where
  "write_pid e s =
     (if \<not> su_fopen e then die (sys_error e) (''Error creating file: %d'' @ [LF]) s
      else
        (let s1 = s\<lparr>pid_file := Some []\<rparr> in
         if su_fprintf e < 0 then die (- 1) (''Error trying to write pid to file'' @ [LF]) s1
         else
           (let s2 = s1\<lparr>pid_file := Some (show_int (su_pid e))\<rparr> in
            if su_fclose e \<noteq> 0 then die (sys_error e) (''Error closing pidfile: %d'' @ [LF]) s2
            else Ok s2)))"

definition open_tcp :: "startup \<Rightarrow> beat \<Rightarrow> beat outcome" where
  "open_tcp e s =
     (let s1 = s\<lparr>tcp_server_socket := su_tcp_socket e\<rparr> in
      if su_tcp_socket e < 0 then die (- 1) (''Error creating TCP socket'' @ [LF]) s1
      else
        (let s2 = s1\<lparr>open_fds := insert (su_tcp_socket e) (open_fds s1)\<rparr> in
         if su_tcp_bind e < 0 then die (sys_error e) (''Cannot bind TCP socket, error: %d'' @ [LF]) s2
         else if su_tcp_listen e < 0 then die (sys_error e) (''Cannot listen to TCP socket, error: %d'' @ [LF]) s2
         else Ok s2))"

definition open_udp :: "startup \<Rightarrow> beat \<Rightarrow> beat outcome" where
  "open_udp e s =
     (let s1 = s\<lparr>udp_server_socket := su_udp_socket e\<rparr> in
      if su_udp_socket e < 0 then die (- 1) (''Error creating UDP socket'' @ [LF]) s1
      else
        (let s2 = s1\<lparr>open_fds := insert (su_udp_socket e) (open_fds s1)\<rparr> in
         if su_udp_bind e < 0 then die (sys_error e) (''Cannot bind UDP socket, error: %d'' @ [LF]) s2
         else Ok s2))"

text \<open>Sequencing that stops once the process has exited.\<close>

definition andthen :: "beat outcome \<Rightarrow> (beat \<Rightarrow> beat outcome) \<Rightarrow> beat outcome" where
  "andthen m f = obind m (\<lambda>s. if exited s = None then f s else Ok s)"

definition beat_setup :: "arguments \<Rightarrow> startup \<Rightarrow> beat \<Rightarrow> beat outcome" where
  "beat_setup args e s0 =
     (let s = s0\<lparr>fork_pid := (if fork args then su_fork e else 0)\<rparr> in
      if fork_pid s = 0 then
        andthen
          (andthen
             (andthen (if fork args then write_pid e s else Ok s) (open_tcp e))
             (open_udp e))
          (\<lambda>s. Ok (emit (Out (''Listening now on port '' @ show_int (port args) @ [LF])) s))
      else
        Ok ((emit (Out (''Spawned child with pid '' @ show_int (fork_pid s) @ '', parent now dying'' @ [LF])) s)
              \<lparr>exited := Some (Exit 0)\<rparr>))"

section \<open>The service loop\<close>

text \<open>
  What one turn of the loop gets from the system: which of the two sockets \<open>poll\<close> reports
  readable (its return value is not looked at); for a connection, the result of \<open>accept\<close> and the length it stores, in terms of
  the length that is passed to it, which is that of an uninitialised variable, and what comes of the \<open>send\<close>; for a
  datagram, the result of \<open>recvfrom\<close> with the sender's address and its length, and whether the \<open>sendto\<close> succeeds; and what
  \<open>getnameinfo\<close> makes of the address (\<open>Inl\<close> an error code and its text, \<open>Inr\<close> the host).
\<close>

text \<open>
  \<open>send\<close> takes some of the bytes or fails. If the client has closed the connection it fails with \<open>EPIPE\<close>, and raises
  \<open>SIGPIPE\<close>, which the program neither handles nor ignores (a process that inherits it ignored gets \<open>Not_Sent\<close>).
\<close>

datatype sending = Sent nat | Broken_Pipe | Not_Sent

record turn =
  tcp_ready :: bool
  udp_ready :: bool
  stack_len :: int
  accept_call :: "int \<Rightarrow> int \<times> int"
  send_result :: sending
  recv_count :: int
  peer :: string
  peer_len :: int
  peer_name :: "(int \<times> string) + string"
  sendto_ok :: bool
  turn_errno :: int

definition accept_fd :: "turn \<Rightarrow> int" where
  "accept_fd t = fst (accept_call t (stack_len t))"

definition report_name :: "turn \<Rightarrow> int \<Rightarrow> string \<Rightarrow> beat \<Rightarrow> beat" where
  "report_name t len lead s =
     (case peer_name t of
        Inl (err, txt) \<Rightarrow>
          emit (Err (''Error: '' @ txt @ [LF]))
            (emit (Err (''Error decoding: '' @ show_int err @ '' '' @ show_int (turn_errno t) @ '' '' @
                        show_int len @ [LF])) s)
      | Inr host \<Rightarrow> emit (Out (lead @ host @ [LF])) s)"

text \<open>
  The TCP branch: \<open>accept\<close>, the reports, the \<open>send\<close>, which is tried even when \<open>accept\<close> failed
  (it fails on a descriptor that is not open, which is then closed), and the final \<open>close\<close>.
\<close>

definition accept_tcp :: "turn \<Rightarrow> beat \<Rightarrow> beat" where
  "accept_tcp t s =
     (let fd = accept_fd t
      in s\<lparr>tcp_sock := fd, open_fds := (if fd < 0 then open_fds s else insert fd (open_fds s))\<rparr>)"

definition report_tcp :: "turn \<Rightarrow> beat \<Rightarrow> beat" where
  "report_tcp t s =
     (let s1 = report_name t (snd (accept_call t (stack_len t))) ''Sending TCP bip to: '' s
      in if tcp_sock s < 0 then emit (Err (''Cannot accept TCP socket, error: '' @ show_int (turn_errno t) @ [LF])) s1
         else s1)"

definition send_tcp :: "turn \<Rightarrow> beat \<Rightarrow> beat" where
  "send_tcp t s =
     (let failed = snd (close_fd (tcp_sock s)
             (emit (Err (''Cannot send message to TCP socket, error: '' @ show_int (turn_errno t) @ [LF])) s))
      in if tcp_sock s \<notin> open_fds s then failed
         else case send_result t of
             Sent n \<Rightarrow> emit (Tcp_Send (tcp_sock s) (take n message)) s
           | Broken_Pipe \<Rightarrow> s\<lparr>exited := Some (Killed sigpipe)\<rparr>
           | Not_Sent \<Rightarrow> failed)"

definition close_tcp :: "turn \<Rightarrow> beat \<Rightarrow> beat" where
  "close_tcp t s =
     (let (r, s1) = close_fd (tcp_sock s) s in
      if r < 0 then emit (Err (''Cannot close TCP socket, error: '' @ show_int (turn_errno t) @ [LF])) s1
      else s1)"

text \<open>The UDP branch. The buffer has 128 bytes, and \<open>buffer[count]\<close> is written whatever \<open>count\<close> is.\<close>

definition recv_udp :: "turn \<Rightarrow> beat \<Rightarrow> beat outcome" where
  "recv_udp t s = (if recv_count t < 0 \<or> 128 \<le> recv_count t then UB Buffer_Overflow else Ok s)"

definition send_udp :: "turn \<Rightarrow> beat \<Rightarrow> beat" where
  "send_udp t s =
     (if sendto_ok t then emit (Udp_Send (peer t) message) s
      else emit (Err (''Error sending: '' @ show_int (turn_errno t) @ [LF])) s)"

text \<open>The calls of a turn, one after the other as long as the process lives.\<close>

type_synonym beat_call = "beat \<Rightarrow> beat outcome"

definition run_calls :: "beat_call list \<Rightarrow> beat \<Rightarrow> beat outcome" where
  "run_calls = run_steps (\<lambda>c s. if exited s = None then c s else Ok s)"

definition serve_tcp :: "turn \<Rightarrow> beat_call list" where
  "serve_tcp t = [\<lambda>s. Ok (accept_tcp t s), \<lambda>s. Ok (report_tcp t s), \<lambda>s. Ok (send_tcp t s), \<lambda>s. Ok (close_tcp t s)]"

definition serve_udp :: "turn \<Rightarrow> beat_call list" where
  "serve_udp t =
     [recv_udp t, \<lambda>s. Ok (report_name t (peer_len t) ''Received UDP message from '' s), \<lambda>s. Ok (send_udp t s)]"

definition turn_calls :: "turn \<Rightarrow> beat_call list" where
  "turn_calls t = (if tcp_ready t then serve_tcp t else if udp_ready t then serve_udp t else [])"

definition beat_turn :: "turn \<Rightarrow> beat \<Rightarrow> beat outcome" where
  "beat_turn t s = run_calls (turn_calls t) s"

text \<open>
  The process is a sequence of turns and signals, which arrive while it waits in \<open>poll\<close> (\<open>Signal\<close>) or after the first \<open>k\<close>
  calls of a turn (\<open>Cut\<close>), which goes on if the signal does not end the process; nothing happens after it has exited.
\<close>

datatype beat_event = Turn turn | Signal int | Cut turn nat int

fun beat_step :: "beat_event \<Rightarrow> beat \<Rightarrow> beat outcome" where
  "beat_step (Turn t) s = (if exited s = None then beat_turn t s else Ok s)"
| "beat_step (Signal n) s = Ok (if exited s = None then signal_handler n s else s)"
| "beat_step (Cut t k n) s =
     run_calls (take k (turn_calls t) @ (\<lambda>s. Ok (signal_handler n s)) # drop k (turn_calls t)) s"

definition beat_run :: "(char \<times> string) list \<Rightarrow> startup \<Rightarrow> beat_event list \<Rightarrow> beat outcome" where
  "beat_run opts e evs = obind (beat_setup (parse_options opts) e beat_start) (run_steps beat_step evs)"

section \<open>Frame lemmas\<close>

text \<open>Printing and the like only appends to the log.\<close>

lemma emit_fields [simp]:
  "fork_pid (emit e s) = fork_pid s" "tcp_server_socket (emit e s) = tcp_server_socket s"
  "tcp_sock (emit e s) = tcp_sock s" "udp_server_socket (emit e s) = udp_server_socket s"
  "open_fds (emit e s) = open_fds s" "pid_file (emit e s) = pid_file s" "exited (emit e s) = exited s"
  "log (emit e s) = log s @ [e]"
  by (simp_all add: emit_def)

lemma report_name_fields [simp]:
  "fork_pid (report_name t n p s) = fork_pid s" "tcp_server_socket (report_name t n p s) = tcp_server_socket s"
  "tcp_sock (report_name t n p s) = tcp_sock s" "udp_server_socket (report_name t n p s) = udp_server_socket s"
  "open_fds (report_name t n p s) = open_fds s" "pid_file (report_name t n p s) = pid_file s"
  "exited (report_name t n p s) = exited s"
  by (simp_all add: report_name_def split: sum.splits prod.splits)

lemma close_fd_fields [simp]:
  "fork_pid (snd (close_fd fd s)) = fork_pid s" "tcp_server_socket (snd (close_fd fd s)) = tcp_server_socket s"
  "tcp_sock (snd (close_fd fd s)) = tcp_sock s" "udp_server_socket (snd (close_fd fd s)) = udp_server_socket s"
  "open_fds (snd (close_fd fd s)) = open_fds s - {fd}" "pid_file (snd (close_fd fd s)) = pid_file s"
  "exited (snd (close_fd fd s)) = exited s" "log (snd (close_fd fd s)) = log s @ [Close fd]"
  by (simp_all add: close_fd_def)

section \<open>Sequences of calls\<close>

lemma run_calls_simps [simp]:
  "run_calls [] s = Ok s" "run_calls (c # cs) s = obind (if exited s = None then c s else Ok s) (run_calls cs)"
  by (simp_all add: run_calls_def)

lemma run_calls_append: "run_calls (cs @ ds) s = obind (run_calls cs s) (run_calls ds)"
  by (simp add: run_calls_def run_steps_append)

lemma run_calls_exited [simp]: "exited s \<noteq> None \<Longrightarrow> run_calls cs s = Ok s"
  by (induction cs) auto

lemma run_calls_invariant:
  assumes "\<And>c s s'. c \<in> set cs \<Longrightarrow> P s \<Longrightarrow> c s = Ok s' \<Longrightarrow> P s'" and "P s" and "run_calls cs s = Ok s'"
  shows "P s'"
  using assms
proof (induction cs arbitrary: s)
  case (Cons c cs)
  obtain s1 where "(if exited s = None then c s else Ok s) = Ok s1" "run_calls cs s1 = Ok s'"
    using Cons.prems(3) by (auto simp: obind_Ok_iff)
  then show ?case using Cons.IH [of s1] Cons.prems(1,2) by (auto split: if_splits)
qed simp

section \<open>The answers in the log\<close>

text \<open>What the system accepted from the program, for a connection or for an address.\<close>

definition is_answer :: "effect \<Rightarrow> bool" where
  "is_answer e = (case e of Tcp_Send _ _ \<Rightarrow> True | Udp_Send _ _ \<Rightarrow> True | _ \<Rightarrow> False)"

definition answers :: "beat \<Rightarrow> effect list" where
  "answers s = filter is_answer (log s)"

lemma answers_emit [simp]: "answers (emit e s) = answers s @ (if is_answer e then [e] else [])"
  by (simp add: answers_def)

lemma answers_report [simp]: "answers (report_name t n p s) = answers s"
  by (simp add: report_name_def is_answer_def split: sum.splits prod.splits)

lemma answers_close [simp]: "answers (snd (close_fd fd s)) = answers s"
  by (simp add: answers_def is_answer_def)

lemma answers_upd [simp]:
  "answers (s\<lparr>tcp_sock := x\<rparr>) = answers s" "answers (s\<lparr>open_fds := y\<rparr>) = answers s" "answers (s\<lparr>exited := z\<rparr>) = answers s"
  by (simp_all add: answers_def)

text \<open>
  What a turn sends: \<open>bip\<close> (or the bytes of it that are taken) to the connection that is waiting, if it can be
  accepted and written to, else \<open>bip\<close> to the datagram's sender, if the system sends it.
\<close>

definition answer_to :: "turn \<Rightarrow> effect list" where
  "answer_to t =
     (if tcp_ready t then
        (case send_result t of Sent n \<Rightarrow> if accept_fd t < 0 then [] else [Tcp_Send (accept_fd t) (take n message)] | _ \<Rightarrow> [])
      else if udp_ready t \<and> sendto_ok t then [Udp_Send (peer t) message] else [])"

text \<open>A turn with a client that has closed its connection before the answer kills the process.\<close>

definition kills :: "turn \<Rightarrow> bool" where
  "kills t \<longleftrightarrow> tcp_ready t \<and> 0 \<le> accept_fd t \<and> send_result t = Broken_Pipe"

lemma kills_silently: "kills t \<Longrightarrow> answer_to t = []"
  by (simp add: kills_def answer_to_def)

section \<open>The invariant of the loop\<close>

text \<open>
  Running, with exactly the two listening sockets open, in a child (or without fork), whose log
  never removed the pid file.
\<close>

definition serving :: "beat \<Rightarrow> bool" where
  "serving s \<longleftrightarrow>
     exited s = None \<and> fork_pid s = 0 \<and> tcp_server_socket s \<noteq> udp_server_socket s \<and>
     0 \<le> tcp_server_socket s \<and> 0 \<le> udp_server_socket s \<and> open_fds s = {tcp_server_socket s, udp_server_socket s}"

text \<open>\<open>accept\<close> fails with a negative number or returns a descriptor that is not in use.\<close>

definition fresh_accept :: "turn \<Rightarrow> beat \<Rightarrow> bool" where
  "fresh_accept t s \<longleftrightarrow>
     0 \<le> accept_fd t \<longrightarrow> accept_fd t \<noteq> tcp_server_socket s \<and> accept_fd t \<noteq> udp_server_socket s"

text \<open>A datagram that leaves room for the terminator in the 128-byte buffer.\<close>

definition short_datagram :: "turn \<Rightarrow> bool" where
  "short_datagram t \<longleftrightarrow> 0 \<le> recv_count t \<and> recv_count t < 128"

lemma accept_tcp_fields [simp]:
  "fork_pid (accept_tcp t s) = fork_pid s" "tcp_server_socket (accept_tcp t s) = tcp_server_socket s"
  "udp_server_socket (accept_tcp t s) = udp_server_socket s" "pid_file (accept_tcp t s) = pid_file s"
  "exited (accept_tcp t s) = exited s" "tcp_sock (accept_tcp t s) = accept_fd t"
  "open_fds (accept_tcp t s) = (if accept_fd t < 0 then open_fds s else insert (accept_fd t) (open_fds s))"
  "log (accept_tcp t s) = log s" "answers (accept_tcp t s) = answers s"
  by (simp_all add: accept_tcp_def Let_def answers_def)

lemma report_tcp_fields [simp]:
  "fork_pid (report_tcp t s) = fork_pid s" "tcp_server_socket (report_tcp t s) = tcp_server_socket s"
  "udp_server_socket (report_tcp t s) = udp_server_socket s" "pid_file (report_tcp t s) = pid_file s"
  "exited (report_tcp t s) = exited s" "tcp_sock (report_tcp t s) = tcp_sock s"
  "open_fds (report_tcp t s) = open_fds s" "answers (report_tcp t s) = answers s"
  by (simp_all add: report_tcp_def Let_def is_answer_def)

lemma send_tcp_fields [simp]:
  "fork_pid (send_tcp t s) = fork_pid s" "tcp_server_socket (send_tcp t s) = tcp_server_socket s"
  "udp_server_socket (send_tcp t s) = udp_server_socket s" "pid_file (send_tcp t s) = pid_file s"
  "tcp_sock (send_tcp t s) = tcp_sock s"
  "exited (send_tcp t s) = (if tcp_sock s \<in> open_fds s \<and> send_result t = Broken_Pipe then Some (Killed sigpipe) else exited s)"
  "open_fds (send_tcp t s) = (if send_result t = Not_Sent then open_fds s - {tcp_sock s} else open_fds s)"
  "answers (send_tcp t s) = answers s @ (if tcp_sock s \<in> open_fds s then
     case send_result t of Sent n \<Rightarrow> [Tcp_Send (tcp_sock s) (take n message)] | _ \<Rightarrow> [] else [])"
  by (auto simp: send_tcp_def is_answer_def Let_def split: sending.splits)

lemma close_tcp_fields [simp]:
  "fork_pid (close_tcp t s) = fork_pid s" "tcp_server_socket (close_tcp t s) = tcp_server_socket s"
  "udp_server_socket (close_tcp t s) = udp_server_socket s" "pid_file (close_tcp t s) = pid_file s"
  "exited (close_tcp t s) = exited s" "tcp_sock (close_tcp t s) = tcp_sock s"
  "open_fds (close_tcp t s) = open_fds s - {tcp_sock s}" "answers (close_tcp t s) = answers s"
  by (simp_all add: close_tcp_def split_beta is_answer_def)

lemma send_udp_fields [simp]:
  "fork_pid (send_udp t s) = fork_pid s" "tcp_server_socket (send_udp t s) = tcp_server_socket s"
  "udp_server_socket (send_udp t s) = udp_server_socket s" "pid_file (send_udp t s) = pid_file s"
  "exited (send_udp t s) = exited s" "tcp_sock (send_udp t s) = tcp_sock s" "open_fds (send_udp t s) = open_fds s"
  "answers (send_udp t s) = answers s @ (if sendto_ok t then [Udp_Send (peer t) message] else [])"
  by (simp_all add: send_udp_def is_answer_def)

lemma recv_udp_cases [simp]: "recv_udp t s = (if short_datagram t then Ok s else UB Buffer_Overflow)"
  by (auto simp: recv_udp_def short_datagram_def)

lemma beat_turn_UB:
  "exited s = None \<Longrightarrow> beat_turn t s = UB e \<longleftrightarrow> \<not> tcp_ready t \<and> udp_ready t \<and> \<not> short_datagram t \<and> e = Buffer_Overflow"
  by (auto simp: beat_turn_def turn_calls_def serve_tcp_def serve_udp_def)

text \<open>A turn of a serving daemon: it goes on serving, or is killed; it sent what the turn allows.\<close>

lemma beat_turn_serving [wf_intros]:
  assumes "serving s" and "fresh_accept t s" and "beat_turn t s = Ok s'"
  shows "(if kills t then exited s' = Some (Killed sigpipe) \<and> fork_pid s' = 0 else serving s') \<and>
    tcp_server_socket s' = tcp_server_socket s \<and> udp_server_socket s' = udp_server_socket s \<and> pid_file s' = pid_file s \<and>
    answers s' = answers s @ answer_to t"
proof (cases "tcp_ready t")
  case True
  have ex: "exited s = None" and op: "\<And>fd. fd < 0 \<Longrightarrow> fd \<notin> open_fds s" using assms(1) by (auto simp: serving_def)
  have new: "0 \<le> accept_fd t \<Longrightarrow> accept_fd t \<notin> open_fds s"
    using assms(1,2) by (auto simp: serving_def fresh_accept_def)
  show ?thesis
  proof (cases "kills t")
    case k: True
    then have "s' = send_tcp t (report_tcp t (accept_tcp t s))"
      using True assms(3) ex by (simp add: beat_turn_def turn_calls_def serve_tcp_def kills_def)
    then show ?thesis using k assms(1) by (simp add: kills_def answer_to_def serving_def)
  next
    case k: False
    have "exited (send_tcp t (report_tcp t (accept_tcp t s))) = None"
      using k True ex op [of "accept_fd t"] by (auto simp: kills_def)
    then have s': "s' = close_tcp t (send_tcp t (report_tcp t (accept_tcp t s)))"
      using True assms(3) ex by (simp add: beat_turn_def turn_calls_def serve_tcp_def split: if_splits)
    then have "open_fds s' = open_fds s"
      using new op [of "accept_fd t"] by (cases "accept_fd t < 0") auto
    moreover have "answers s' = answers s @ answer_to t"
      using s' True op [of "accept_fd t"] by (auto simp: answer_to_def split: sending.split)
    moreover have "exited s' = None"
      using \<open>exited (send_tcp t (report_tcp t (accept_tcp t s))) = None\<close> unfolding s' by (simp only: close_tcp_fields)
    ultimately show ?thesis using k s' assms(1) by (simp add: serving_def)
  qed
next
  case False
  then show ?thesis
    using assms by (cases "udp_ready t")
      (auto simp: beat_turn_def turn_calls_def serve_udp_def serving_def kills_def answer_to_def split: if_splits)
qed

lemma udp_turn_serving:
  assumes "serving s" and "\<not> tcp_ready t" and "beat_turn t s = Ok s'"
  shows "serving s' \<and> answers s' = answers s @ answer_to t"
  using assms
  by (cases "udp_ready t") (auto simp: beat_turn_def turn_calls_def serve_udp_def serving_def answer_to_def split: if_splits)

section \<open>Runs of the loop\<close>

lemma run_exited: "exited s \<noteq> None \<Longrightarrow> run_steps beat_step evs s = Ok s"
proof (induction evs)
  case (Cons ev evs)
  then show ?case by (cases ev) auto
qed simp

text \<open>The turns that are served: those up to the first one that kills the process.\<close>

abbreviation served :: "turn list \<Rightarrow> turn list" where
  "served ts \<equiv> takeWhile (\<lambda>t. \<not> kills t) ts"

lemma beat_turns_run:
  assumes "serving s" and "\<forall>t \<in> set ts. fresh_accept t s"
    and "\<forall>t \<in> set ts. \<not> tcp_ready t \<and> udp_ready t \<longrightarrow> short_datagram t"
  shows "\<exists>s'. run_steps beat_step (map Turn ts) s = Ok s' \<and>
    (if \<exists>t \<in> set ts. kills t then exited s' = Some (Killed sigpipe) else serving s') \<and>
    tcp_server_socket s' = tcp_server_socket s \<and> udp_server_socket s' = udp_server_socket s \<and>
    pid_file s' = pid_file s \<and> answers s' = answers s @ concat (map answer_to (served ts))"
  using assms
proof (induction ts arbitrary: s)
  case Nil
  then show ?case by simp
next
  case (Cons t ts)
  have ex: "exited s = None" using Cons.prems(1) by (simp add: serving_def)
  have "\<exists>s1. beat_turn t s = Ok s1"
    using beat_turn_UB [OF ex, of t] Cons.prems(3) by (cases "beat_turn t s") auto
  then obtain s1 where s1: "beat_turn t s = Ok s1" ..
  have t: "(if kills t then exited s1 = Some (Killed sigpipe) \<and> fork_pid s1 = 0 else serving s1) \<and>
      tcp_server_socket s1 = tcp_server_socket s \<and> udp_server_socket s1 = udp_server_socket s \<and> pid_file s1 = pid_file s \<and>
      answers s1 = answers s @ answer_to t"
    by (rule beat_turn_serving [OF Cons.prems(1) _ s1]) (use Cons.prems(2) in simp)
  show ?case
  proof (cases "kills t")
    case True
    then show ?thesis using t ex s1 run_exited [of s1 "map Turn ts"] kills_silently [OF True] by auto
  next
    case False
    then have "\<forall>t \<in> set ts. fresh_accept t s1" using t Cons.prems(2) by (simp add: fresh_accept_def)
    with Cons.IH [of s1] t False Cons.prems(3) obtain s' where
      "run_steps beat_step (map Turn ts) s1 = Ok s'" "if \<exists>t \<in> set ts. kills t then exited s' = Some (Killed sigpipe) else serving s'"
      "tcp_server_socket s' = tcp_server_socket s" "udp_server_socket s' = udp_server_socket s"
      "pid_file s' = pid_file s" "answers s' = answers s @ answer_to t @ concat (map answer_to (served ts))"
      by auto
    then show ?thesis using s1 ex False by auto
  qed
qed

text \<open>
  A turn that a signal interrupts: a stop signal ends the process, before or after its answer; any other leaves the
  turn as it is.
\<close>

definition stops :: "int \<Rightarrow> bool" where
  "stops n \<longleftrightarrow> n = sigint \<or> n = sigterm"

lemma removepidfile_fields [simp]:
  "answers (removepidfile s) = answers s" "exited (removepidfile s) = exited s" "open_fds (removepidfile s) = open_fds s"
  by (simp_all add: removepidfile_def answers_def is_answer_def)

lemma signal_answers [simp]: "answers (signal_handler n s) = answers s"
  by (auto simp: signal_handler_def Let_def is_answer_def)

lemma signal_stops_process: "stops n \<Longrightarrow> exited (signal_handler n s) = Some (Exit 0)"
  by (simp add: stops_def signal_handler_def Let_def)

lemma signal_ignored [simp]: "\<not> stops n \<Longrightarrow> signal_handler n s = s"
  by (simp add: stops_def signal_handler_def)

lemma cut_ignored: "\<not> stops n \<Longrightarrow> beat_step (Cut t k n) s = beat_turn t s"
proof -
  assume n: "\<not> stops n"
  have "run_calls (Ok # cs) = run_calls cs" for cs by (rule ext) simp
  then have "beat_step (Cut t k n) s = obind (run_calls (take k (turn_calls t)) s) (run_calls (drop k (turn_calls t)))"
    using n by (simp add: run_calls_append del: run_calls_simps)
  then show ?thesis by (simp add: beat_turn_def run_calls_append [symmetric])
qed

lemma cut_prefix:
  assumes "serving s" and "run_calls (take k (turn_calls t)) s = Ok s1"
  shows "(answers s1 = answers s \<or> answers s1 = answers s @ answer_to t) \<and>
    (exited s1 = None \<or> kills t \<and> exited s1 = Some (Killed sigpipe))"
proof (cases "tcp_ready t")
  case True
  have op: "\<And>fd. fd < 0 \<Longrightarrow> fd \<notin> open_fds s" and ex: "exited s = None" using assms(1) by (auto simp: serving_def)
  let ?sent = "send_tcp t (report_tcp t (accept_tcp t s))"
  have a: "answers ?sent = answers s @ answer_to t"
    using True op [of "accept_fd t"] by (auto simp: answer_to_def split: sending.split)
  have x: "exited ?sent = None \<or> kills t \<and> exited ?sent = Some (Killed sigpipe)"
    using True ex op [of "accept_fd t"] by (auto simp: kills_def)
  consider "k = 0" | "k = 1" | "k = 2" | "k = 3" | "4 \<le> k" by linarith
  then show ?thesis
  proof cases
    case 4
    then have "s1 = ?sent" using assms(2) True ex by (simp add: turn_calls_def serve_tcp_def take_Cons')
    then show ?thesis using a x by simp
  next
    case 5
    then have "s1 = ?sent \<or> s1 = close_tcp t ?sent"
      using assms(2) True ex by (auto simp: turn_calls_def serve_tcp_def simp del: send_tcp_fields split: if_splits)
    then show ?thesis using a x by (elim disjE) (simp_all del: send_tcp_fields)
  qed (use assms(2) True ex in \<open>auto simp: turn_calls_def serve_tcp_def take_Cons'\<close>)
next
  case False
  have ex: "exited s = None" using assms(1) by (simp add: serving_def)
  consider "k = 0" | "k = 1" | "k = 2" | "3 \<le> k" by linarith
  then show ?thesis
    using assms(2) False ex
    by cases (auto simp: turn_calls_def serve_udp_def take_Cons' answer_to_def split: if_splits)
qed

lemma cut_cases:
  assumes "serving s" and "tcp_ready t \<longrightarrow> fresh_accept t s" and "beat_step (Cut t k n) s = Ok s'"
  shows "(serving s' \<or> exited s' \<noteq> None) \<and> (answers s' = answers s \<or> answers s' = answers s @ answer_to t) \<and>
    (stops n \<longrightarrow> exited s' = Some (if exited s' = Some (Killed sigpipe) \<and> kills t then Killed sigpipe else Exit 0))"
proof (cases "stops n")
  case False
  then have t: "beat_turn t s = Ok s'" using assms(3) cut_ignored by simp
  show ?thesis
  proof (cases "tcp_ready t")
    case True
    then show ?thesis using beat_turn_serving [OF assms(1) _ t] assms(2) False by (auto split: if_splits)
  next
    case udp: False
    then show ?thesis using udp_turn_serving [OF assms(1) udp t] False by simp
  qed
next
  case True
  obtain s1 where s1: "run_calls (take k (turn_calls t)) s = Ok s1"
    "run_calls ((\<lambda>s. Ok (signal_handler n s)) # drop k (turn_calls t)) s1 = Ok s'"
    using assms(3) by (auto simp: run_calls_append obind_Ok_iff simp del: run_calls_simps)
  have "s' = (if exited s1 = None then signal_handler n s1 else s1)"
    using s1(2) signal_stops_process [OF True, of s1] by (cases "exited s1 = None") auto
  then show ?thesis using cut_prefix [OF assms(1) s1(1)] signal_stops_process [OF True, of s1] True by auto
qed

section \<open>The pid file\<close>

definition no_unlink :: "beat \<Rightarrow> bool" where
  "no_unlink s \<longleftrightarrow> (\<forall>f. Unlink f \<notin> set (log s))"

text \<open>Only a process that was not forked off could remove the file, and that one exits at once.\<close>

definition pid_safe :: "beat \<Rightarrow> bool" where
  "pid_safe s \<longleftrightarrow> no_unlink s \<and> (fork_pid s = 0 \<or> exited s \<noteq> None)"

lemma no_unlink_simps [simp]:
  "no_unlink (emit e s) \<longleftrightarrow> no_unlink s \<and> (\<forall>f. e \<noteq> Unlink f)"
  "no_unlink (report_name t n p s) \<longleftrightarrow> no_unlink s"
  "no_unlink (snd (close_fd fd s)) \<longleftrightarrow> no_unlink s"
  by (auto simp: no_unlink_def report_name_def split: sum.splits prod.splits)

lemma no_unlink_upd [simp]:
  "no_unlink (s\<lparr>tcp_sock := a\<rparr>) = no_unlink s" "no_unlink (s\<lparr>open_fds := b\<rparr>) = no_unlink s"
  "no_unlink (s\<lparr>exited := c\<rparr>) = no_unlink s" "no_unlink (s\<lparr>pid_file := d\<rparr>) = no_unlink s"
  "no_unlink (s\<lparr>tcp_server_socket := a\<rparr>) = no_unlink s" "no_unlink (s\<lparr>udp_server_socket := a\<rparr>) = no_unlink s"
  "no_unlink (s\<lparr>fork_pid := a\<rparr>) = no_unlink s"
  by (simp_all add: no_unlink_def)

lemma removepidfile_child [simp]: "fork_pid s = 0 \<Longrightarrow> removepidfile s = s"
  by (simp add: removepidfile_def)

text \<open>In the child no call touches the pid file.\<close>

definition keeps :: "string option \<Rightarrow> beat \<Rightarrow> bool" where
  "keeps p s \<longleftrightarrow> fork_pid s = 0 \<and> no_unlink s \<and> pid_file s = p"

lemma signal_handler_keeps: "keeps p s \<Longrightarrow> keeps p (signal_handler n s)"
  by (simp add: keeps_def signal_handler_def Let_def)

lemma turn_calls_keep: "c \<in> set (turn_calls t) \<Longrightarrow> keeps p s \<Longrightarrow> c s = Ok s' \<Longrightarrow> keeps p s'"
  by (auto simp: turn_calls_def serve_tcp_def serve_udp_def keeps_def accept_tcp_def report_tcp_def send_tcp_def close_tcp_def
      send_udp_def Let_def split_beta split: if_splits sending.splits)

lemma beat_step_keeps:
  assumes "keeps p s" and "beat_step ev s = Ok s'"
  shows "keeps p s'"
proof (cases ev)
  case (Signal n)
  then show ?thesis using assms signal_handler_keeps by (auto split: if_splits)
next
  case (Turn t)
  have "keeps p s'" if "beat_turn t s = Ok s'"
    by (rule run_calls_invariant [where P = "keeps p" and cs = "turn_calls t", OF turn_calls_keep assms(1) that [unfolded beat_turn_def]])
  then show ?thesis using Turn assms by (auto split: if_splits)
next
  case (Cut t k n)
  let ?cs = "take k (turn_calls t) @ (\<lambda>s. Ok (signal_handler n s)) # drop k (turn_calls t)"
  have "keeps p u'" if "c \<in> set ?cs" "keeps p u" "c u = Ok u'" for c u u'
  proof (cases "c \<in> set (turn_calls t)")
    case True
    then show ?thesis using turn_calls_keep that(2,3) by blast
  next
    case False
    then have "c = (\<lambda>s. Ok (signal_handler n s))" using that(1) by (auto dest: in_set_takeD in_set_dropD)
    then show ?thesis using signal_handler_keeps that(2,3) by auto
  qed
  moreover have "run_calls ?cs s = Ok s'" using Cut assms(2) by (simp only: beat_step.simps)
  ultimately show ?thesis using run_calls_invariant [of ?cs "keeps p", OF _ assms(1)] by blast
qed

lemma beat_step_child:
  assumes "pid_safe s" and "beat_step ev s = Ok s'"
  shows "pid_safe s'"
proof (cases "exited s = None")
  case True
  then have "keeps (pid_file s) s" using assms(1) by (simp add: pid_safe_def keeps_def)
  from beat_step_keeps [OF this assms(2)] show ?thesis by (simp add: keeps_def pid_safe_def)
next
  case False
  then have "s' = s" using assms(2) run_exited [of s "[ev]"] by simp
  with assms(1) show ?thesis by simp
qed

lemma run_child:
  assumes "pid_safe s" and "run_steps beat_step evs s = Ok s'"
  shows "pid_safe s'"
  by (rule run_steps_invariant [of pid_safe, OF _ assms]) (rule beat_step_child)

section \<open>Start-up\<close>

text \<open>Every call of the start-up succeeds, in the child.\<close>

definition startup_ok :: "arguments \<Rightarrow> startup \<Rightarrow> bool" where
  "startup_ok args e \<longleftrightarrow>
     (fork args \<longrightarrow> su_fork e = 0 \<and> su_fopen e \<and> 0 \<le> su_fprintf e \<and> su_fclose e = 0) \<and>
     0 \<le> su_tcp_socket e \<and> 0 \<le> su_tcp_bind e \<and> 0 \<le> su_tcp_listen e \<and>
     0 \<le> su_udp_socket e \<and> 0 \<le> su_udp_bind e \<and> su_tcp_socket e \<noteq> su_udp_socket e"

lemma beat_setup_ok:
  assumes "startup_ok args e"
  shows "\<exists>s. beat_setup args e beat_start = Ok s \<and> serving s \<and> pid_safe s \<and> answers s = [] \<and>
    tcp_server_socket s = su_tcp_socket e \<and> udp_server_socket s = su_udp_socket e \<and>
    pid_file s = (if fork args then Some (show_int (su_pid e)) else None)"
  using assms
  by (cases "fork args")
    (auto simp: beat_setup_def startup_ok_def andthen_def write_pid_def open_tcp_def open_udp_def
      beat_start_def serving_def pid_safe_def no_unlink_def answers_def is_answer_def Let_def)

lemma die_child:
  "fork_pid s = 0 \<Longrightarrow> die code fmt s = Ok s' \<Longrightarrow>
     exited s' = Some (Exit code) \<and> fork_pid s' = 0 \<and> no_unlink s' = no_unlink s \<and> pid_file s' = pid_file s"
  by (auto simp: die_def split: if_splits)

definition child_ok :: "beat \<Rightarrow> bool" where
  "child_ok s \<longleftrightarrow> fork_pid s = 0 \<and> no_unlink s"

lemma die_child_ok [wf_intros]: "child_ok s \<Longrightarrow> die code fmt s = Ok s' \<Longrightarrow> child_ok s'"
  using die_child [of s code fmt s'] by (auto simp: child_ok_def)

lemma write_pid_child [wf_intros]: "child_ok s \<Longrightarrow> write_pid e s = Ok s' \<Longrightarrow> child_ok s'"
  by (auto simp: write_pid_def Let_def split: if_splits elim!: die_child_ok [rotated])
    (simp_all add: child_ok_def)

lemma open_tcp_child [wf_intros]: "child_ok s \<Longrightarrow> open_tcp e s = Ok s' \<Longrightarrow> child_ok s'"
  by (auto simp: open_tcp_def Let_def split: if_splits elim!: die_child_ok [rotated])
    (simp_all add: child_ok_def)

lemma open_udp_child [wf_intros]: "child_ok s \<Longrightarrow> open_udp e s = Ok s' \<Longrightarrow> child_ok s'"
  by (auto simp: open_udp_def Let_def split: if_splits elim!: die_child_ok [rotated])
    (simp_all add: child_ok_def)

lemma andthen_child:
  "(\<And>s. m = Ok s \<Longrightarrow> child_ok s) \<Longrightarrow> (\<And>s s'. child_ok s \<Longrightarrow> f s = Ok s' \<Longrightarrow> child_ok s') \<Longrightarrow>
   andthen m f = Ok s' \<Longrightarrow> child_ok s'"
  by (auto simp: andthen_def obind_Ok_iff split: if_splits)

lemma beat_setup_safe:
  assumes "beat_setup args e beat_start = Ok s"
  shows "pid_safe s"
proof (cases "(if fork args then su_fork e else 0) = 0")
  case True
  let ?s = "beat_start\<lparr>fork_pid := 0\<rparr>"
  have c: "child_ok ?s" by (simp add: child_ok_def beat_start_def no_unlink_def)
  have "andthen
          (andthen (andthen (if fork args then write_pid e ?s else Ok ?s) (open_tcp e)) (open_udp e))
          (\<lambda>s. Ok (emit (Out (''Listening now on port '' @ show_int (port args) @ [LF])) s)) = Ok s"
    using assms True by (simp add: beat_setup_def Let_def)
  then have "child_ok s"
  proof (rule andthen_child [rotated 2])
    fix s1 assume "andthen (andthen (if fork args then write_pid e ?s else Ok ?s) (open_tcp e)) (open_udp e) = Ok s1"
    then show "child_ok s1"
    proof (rule andthen_child [rotated 2])
      fix s2 assume "andthen (if fork args then write_pid e ?s else Ok ?s) (open_tcp e) = Ok s2"
      then show "child_ok s2"
        by (rule andthen_child [rotated 2]) (use c in \<open>auto intro: wf_intros split: if_splits\<close>)
    qed (auto intro: wf_intros)
  qed (auto simp: child_ok_def)
  then show ?thesis by (simp add: child_ok_def pid_safe_def)
next
  case False
  with assms have "no_unlink s \<and> exited s \<noteq> None"
    by (auto simp: beat_setup_def Let_def beat_start_def no_unlink_def split: if_splits)
  then show ?thesis by (simp add: pid_safe_def)
qed

section \<open>Properties of the daemon\<close>

text \<open>A start-up and a pair of turns for the witnesses.\<close>

definition demo_startup :: startup where
  "demo_startup = \<lparr>su_fork = 0, su_fopen = True, su_pid = 4242, su_fprintf = 4, su_fclose = 0,
     su_tcp_socket = 3, su_tcp_bind = 0, su_tcp_listen = 0, su_udp_socket = 4, su_udp_bind = 0, sys_error = 0\<rparr>"

text \<open>The stack holds the length 16 by chance; the client takes all bytes.\<close>

definition demo_turn :: turn where
  "demo_turn = \<lparr>tcp_ready = True, udp_ready = True, stack_len = 16, accept_call = (\<lambda>n. if n < 0 then (- 1, n) else (5, 16)),
     send_result = Sent 3, recv_count = 4,
     peer = ''10.0.0.2:999'', peer_len = 16, peer_name = Inr ''10.0.0.2'', sendto_ok = True, turn_errno = 32\<rparr>"

lemma demo_startup_pid: "su_pid demo_startup = 4242"
  by (simp add: demo_startup_def)

lemma demo_fields: "fork (parse_options [])"
  by (simp add: parse_options_def)

lemma demo_startup_ok: "startup_ok (parse_options []) demo_startup"
  by (simp add: startup_ok_def demo_startup_def parse_options_def)

text \<open>
  C9. What the daemon answers, in order, and that it leaks no descriptor: after a successful start and any sequence of turns
  whose datagrams fit the buffer, it has sent one \<open>bip\<close> for each turn in which the system accepted one (as many bytes of it as it took), to the connection
  that was waiting (which goes first when both sockets are ready) or else to the sender of the datagram, and nothing for a turn whose
  \<open>accept\<close>, \<open>send\<close> or \<open>sendto\<close> failed. It still runs, with exactly the two listening sockets open, unless a client had closed its
  connection before the answer: then \<open>SIGPIPE\<close> has ended it at that turn, and no later turn was served. A stop signal
  at any call of a further turn ends it with code 0, before or after the answer of that turn. The pid file holds the daemon's pid.
\<close>

theorem daemon_serves_until_killed:
  assumes "startup_ok (parse_options opts) e"
    and "\<forall>t \<in> set ts. 0 \<le> accept_fd t \<longrightarrow> accept_fd t \<noteq> su_tcp_socket e \<and> accept_fd t \<noteq> su_udp_socket e"
    and "\<forall>t \<in> set ts. \<not> tcp_ready t \<and> udp_ready t \<longrightarrow> short_datagram t"
  shows "\<exists>s. beat_run opts e (map Turn ts) = Ok s \<and> answers s = concat (map answer_to (served ts)) \<and>
    pid_file s = (if fork (parse_options opts) then Some (show_int (su_pid e)) else None) \<and>
    (if \<exists>t \<in> set ts. kills t then exited s = Some (Killed sigpipe)
     else exited s = None \<and> open_fds s = {su_tcp_socket e, su_udp_socket e} \<and>
       (\<forall>t k n s'. stops n \<and> \<not> kills t \<and> fresh_accept t s \<and> beat_step (Cut t k n) s = Ok s' \<longrightarrow>
          exited s' = Some (Exit 0) \<and> answers s' \<in> {answers s, answers s @ answer_to t}))"
proof -
  obtain s0 where s0: "beat_setup (parse_options opts) e beat_start = Ok s0" "serving s0" "answers s0 = []"
    "tcp_server_socket s0 = su_tcp_socket e" "udp_server_socket s0 = su_udp_socket e"
    "pid_file s0 = (if fork (parse_options opts) then Some (show_int (su_pid e)) else None)"
    using beat_setup_ok [OF assms(1)] by blast
  have "\<forall>t \<in> set ts. fresh_accept t s0" using assms(2) s0 by (simp add: fresh_accept_def)
  from beat_turns_run [OF s0(2) this assms(3)] obtain s where
    s: "run_steps beat_step (map Turn ts) s0 = Ok s" "if \<exists>t \<in> set ts. kills t then exited s = Some (Killed sigpipe) else serving s"
    "tcp_server_socket s = su_tcp_socket e" "udp_server_socket s = su_udp_socket e"
    "pid_file s = pid_file s0" "answers s = concat (map answer_to (served ts))"
    using s0 by auto
  have "exited s' = Some (Exit 0) \<and> answers s' \<in> {answers s, answers s @ answer_to t}"
    if "serving s" "stops n" "\<not> kills t" "fresh_accept t s" "beat_step (Cut t k n) s = Ok s'" for t k n s'
    using cut_cases [OF that(1) _ that(5)] that(2-4) by auto
  then have cut: "serving s \<Longrightarrow> \<forall>t k n s'. stops n \<and> \<not> kills t \<and> fresh_accept t s \<and> beat_step (Cut t k n) s = Ok s' \<longrightarrow>
      exited s' = Some (Exit 0) \<and> answers s' \<in> {answers s, answers s @ answer_to t}" by blast
  have "beat_run opts e (map Turn ts) = Ok s" using s(1) s0(1) by (simp add: beat_run_def)
  moreover have "serving s \<Longrightarrow> exited s = None \<and> open_fds s = {su_tcp_socket e, su_udp_socket e}" using s(3,4) by (simp add: serving_def)
  ultimately show ?thesis using s(2,5,6) s0(6) cut
    by (intro exI [of _ s]) (cases "\<exists>t \<in> set ts. kills t", simp only: if_True simp_thms, simp only: if_False simp_thms, blast)
qed

lemma daemon_serves_until_killed_witness:
  "\<exists>s. beat_run [] demo_startup (map Turn [demo_turn, demo_turn\<lparr>tcp_ready := False\<rparr>]) = Ok s \<and>
     answers s = [Tcp_Send 5 ''bip'', Udp_Send ''10.0.0.2:999'' ''bip''] \<and> open_fds s = {3, 4} \<and>
   (\<exists>s2. beat_run [] demo_startup (map Turn [demo_turn\<lparr>send_result := Broken_Pipe\<rparr>, demo_turn]) = Ok s2 \<and>
     exited s2 = Some (Killed sigpipe) \<and> answers s2 = [])"
  using daemon_serves_until_killed [OF demo_startup_ok, of "[demo_turn, demo_turn\<lparr>tcp_ready := False\<rparr>]"]
    daemon_serves_until_killed [OF demo_startup_ok, of "[demo_turn\<lparr>send_result := Broken_Pipe\<rparr>, demo_turn]"]
  by (auto simp: demo_turn_def demo_startup_def short_datagram_def answer_to_def message_def accept_fd_def kills_def)

text \<open>
  The one memory error of the loop, and exactly when it happens: a datagram of 128 bytes or
  more (anyone can send one) makes the terminator land behind the buffer, and a failed \<open>recvfrom\<close>
  makes it land in front; every other turn is free of undefined behaviour.
\<close>

lemma turn_overflow_iff:
  "exited s = None \<Longrightarrow> beat_turn t s = UB err \<longleftrightarrow>
     \<not> tcp_ready t \<and> udp_ready t \<and> (recv_count t < 0 \<or> 128 \<le> recv_count t) \<and> err = Buffer_Overflow"
  by (auto simp: beat_turn_UB short_datagram_def)

text \<open>
  Two ways for a client to get no answer, or for the daemon to go away. The variable for the length of the client's address is never
  set before \<open>accept\<close>: where the system refuses a negative length, a negative value on the stack loses the connection. And a client that
  is gone before the answer ends the daemon, for everybody.
\<close>

lemma unset_length_loses_connection:
  assumes "serving s" and "tcp_ready t" and "stack_len t < 0" and "\<And>n. n < 0 \<Longrightarrow> fst (accept_call t n) = - 1"
  shows "\<exists>s'. beat_step (Turn t) s = Ok s' \<and> answers s' = answers s \<and> exited s' = None"
proof -
  have fd: "accept_fd t = - 1" using assms(3,4) by (simp add: accept_fd_def)
  have ex: "exited s = None" using assms(1) by (simp add: serving_def)
  then obtain s' where s': "beat_turn t s = Ok s'" using beat_turn_UB [OF ex, of t] assms(2) by (cases "beat_turn t s") auto
  have "fresh_accept t s" using fd by (simp add: fresh_accept_def)
  from beat_turn_serving [OF assms(1) this s'] show ?thesis
    using s' ex assms(2) fd by (auto simp: kills_def answer_to_def serving_def split: sending.splits)
qed

lemma broken_pipe_kills:
  assumes "serving s" and "kills t"
  shows "\<exists>s'. beat_step (Turn t) s = Ok s' \<and> exited s' = Some (Killed sigpipe)"
proof -
  have ex: "exited s = None" using assms(1) by (simp add: serving_def)
  then show ?thesis using assms(2) by (auto simp: kills_def beat_turn_def turn_calls_def serve_tcp_def)
qed

text \<open>
  The pid file is never removed: whatever the options, the results of the system calls and the
  events (stop signals included), no run ever unlinks it, because \<open>removepidfile\<close> tests
  \<open>fork_pid\<close>, which is zero in the daemon itself; a daemon stopped by a signal after a successful
  start exits with status 0 and leaves its pid behind.
\<close>

lemma pid_file_never_removed:
  "(beat_run opts e evs = Ok s \<longrightarrow> (\<forall>f. Unlink f \<notin> set (log s))) \<and>
   (startup_ok (parse_options opts) e \<and> fork (parse_options opts) \<longrightarrow>
      (\<exists>s. beat_run opts e [Signal sigterm] = Ok s \<and> exited s = Some (Exit 0) \<and>
         pid_file s = Some (show_int (su_pid e))))"
proof (intro conjI impI)
  assume "beat_run opts e evs = Ok s"
  then obtain s0 where s0: "beat_setup (parse_options opts) e beat_start = Ok s0" "run_steps beat_step evs s0 = Ok s"
    by (auto simp: beat_run_def obind_Ok_iff)
  from run_child [OF beat_setup_safe [OF s0(1)] s0(2)] show "\<forall>f. Unlink f \<notin> set (log s)"
    by (simp add: pid_safe_def no_unlink_def)
next
  assume a: "startup_ok (parse_options opts) e \<and> fork (parse_options opts)"
  then obtain s0 where s0: "beat_setup (parse_options opts) e beat_start = Ok s0" "serving s0"
    "pid_file s0 = Some (show_int (su_pid e))"
    using beat_setup_ok [of "parse_options opts" e] by auto
  have "exited (signal_handler sigterm s0) = Some (Exit 0)" by (simp add: signal_handler_def Let_def)
  moreover have "pid_file (signal_handler sigterm s0) = pid_file s0"
    using s0(2) by (simp add: serving_def signal_handler_def Let_def)
  ultimately show "\<exists>s. beat_run opts e [Signal sigterm] = Ok s \<and> exited s = Some (Exit 0) \<and>
      pid_file s = Some (show_int (su_pid e))"
    using s0 by (simp add: beat_run_def serving_def)
qed

lemma pid_file_never_removed_witness:
  "\<exists>s. beat_run [] demo_startup [Signal sigterm] = Ok s \<and> exited s = Some (Exit 0) \<and> pid_file s = Some (show_int 4242)"
  using conjunct2 [OF pid_file_never_removed [of "[]" demo_startup "[]" beat_start]] demo_startup_ok demo_fields
  by (simp add: demo_startup_pid)

text \<open>The failing calls of the start-up in order, with whether their message prints \<open>errno\<close>.\<close>

definition failures :: "arguments \<Rightarrow> startup \<Rightarrow> (bool \<times> bool) list" where
  "failures args e =
     [(fork args \<and> \<not> su_fopen e, True), (fork args \<and> su_fprintf e < 0, False), (fork args \<and> su_fclose e \<noteq> 0, True),
      (su_tcp_socket e < 0, False), (su_tcp_bind e < 0, True), (su_tcp_listen e < 0, True),
      (su_udp_socket e < 0, False), (su_udp_bind e < 0, True)]"

lemma die_format: "CHR ''%'' \<in> set fmt \<Longrightarrow> die code fmt s = UB Format_Args"
  by (simp add: die_def)

lemma die_plain:
  "CHR ''%'' \<notin> set fmt \<Longrightarrow> \<exists>s'. die code fmt s = Ok s' \<and> exited s' = Some (Exit code)"
  by (simp add: die_def)

lemma start_exit_zero: "fork args \<Longrightarrow> su_fork e \<noteq> 0 \<Longrightarrow>
    \<exists>s. beat_setup args e beat_start = Ok s \<and> exited s = Some (Exit 0) \<and> open_fds s = {} \<and> answers s = []"
  by (simp add: beat_setup_def Let_def beat_start_def answers_def is_answer_def emit_def)

text \<open>
  C40. How a start-up ends. With a failed or successful \<open>fork\<close> in the parent it exits with status 0
  (so a fork that failed looks like a success and nothing serves). In the child the first call that
  fails decides: none, and the daemon is running; the pid could not be written or a socket not be
  created, and the process exits with status -1; any of the calls whose message prints \<open>errno\<close>
  (opening and closing the pid file, the two binds, the listen), and \<open>die\<close> formats its
  uninitialised \<open>va_list\<close>, which is undefined behaviour instead of the exit.
\<close>

theorem startup_outcome:
  "(if fork args \<and> su_fork e \<noteq> 0
    then \<exists>s. beat_setup args e beat_start = Ok s \<and> exited s = Some (Exit 0) \<and> open_fds s = {}
    else case find fst (failures args e) of
      None \<Rightarrow> \<exists>s. beat_setup args e beat_start = Ok s \<and> exited s = None \<and>
                open_fds s = {su_tcp_socket e, su_udp_socket e}
    | Some (_, prints_errno) \<Rightarrow>
        if prints_errno then beat_setup args e beat_start = UB Format_Args
        else \<exists>s. beat_setup args e beat_start = Ok s \<and> exited s = Some (Exit (- 1)))"
proof (cases "fork args \<and> su_fork e \<noteq> 0")
  case True
  then show ?thesis using start_exit_zero [of args e] by auto
next
  case False
  then show ?thesis
    by (cases "fork args")
      (auto simp: failures_def beat_setup_def andthen_def write_pid_def open_tcp_def open_udp_def die_def
        beat_start_def Let_def)
qed

lemma last_arg_snoc: "parse_options (opts @ [(k, a)]) = snd (parse_opt k a (parse_options opts))"
  by (simp add: parse_options_def)

text \<open>The argument of the last option with a key.\<close>

definition last_arg :: "char \<Rightarrow> (char \<times> string) list \<Rightarrow> string option" where
  "last_arg k opts = map_of (rev opts) k"

text \<open>
  The options: the port is the number in the last \<open>-p\<close>, read by \<open>atoi\<close>, and 48807
  (\<open>0xBEA7\<close>) without one; the daemon forks unless \<open>-n\<close> occurs; and a decimal port below 65536
  is the one the sockets are bound to.
\<close>

lemma options_meaning:
  "port (parse_options opts) = (case last_arg (CHR ''p'') opts of None \<Rightarrow> 48807 | Some a \<Rightarrow> atoi a) \<and>
   fork (parse_options opts) = (last_arg (CHR ''n'') opts = None) \<and>
   (n < 65536 \<longrightarrow> bound_port (parse_options (opts @ [(CHR ''p'', show_nat n)])) = int n)"
proof -
  have "port (parse_options opts) = (case last_arg (CHR ''p'') opts of None \<Rightarrow> 48807 | Some a \<Rightarrow> atoi a) \<and>
      fork (parse_options opts) = (last_arg (CHR ''n'') opts = None)"
  proof (induction opts rule: rev_induct)
    case Nil
    then show ?case by (simp add: parse_options_def last_arg_def)
  next
    case (snoc o1 opts)
    obtain k a where "o1 = (k, a)" by (cases o1)
    with snoc show ?case by (auto simp: last_arg_snoc parse_opt_def last_arg_def)
  qed
  moreover have "n < 65536 \<Longrightarrow> bound_port (parse_options (opts @ [(CHR ''p'', show_nat n)])) = int n"
    using atoi_show_int [of "int n"]
    by (simp add: last_arg_snoc parse_opt_def bound_port_def show_int_def int32_def)
  ultimately show ?thesis by blast
qed

lemma options_meaning_witness:
  "bound_port (parse_options ([(CHR ''p'', ''1''), (CHR ''n'', [])] @ [(CHR ''p'', show_nat 8080)])) = 8080"
  using options_meaning [of "[(CHR ''p'', ''1''), (CHR ''n'', [])]" 8080] by simp

text \<open>
  A stop signal that arrives after a TCP connection was served closes descriptors that are not
  open: \<open>tcp_sock\<close> keeps the number of the connection that was closed at the end of its turn, and
  the handler closes it again, on top of the two listening sockets; after a turn whose \<open>send\<close> failed
  the same number is closed twice in the turn already.
\<close>

lemma stale_connection_closed_again:
  assumes "serving s" and "tcp_ready t" and "\<not> kills t" and "0 < accept_fd t" and "fresh_accept t s"
    and "0 < tcp_server_socket s" and "0 < udp_server_socket s"
  shows "\<exists>s1 s2. beat_step (Turn t) s = Ok s1 \<and> beat_step (Signal sigterm) s1 = Ok s2 \<and>
    accept_fd t \<notin> open_fds s1 \<and> exited s2 = Some (Exit 0) \<and> open_fds s2 = {} \<and>
    log s2 = log s1 @ [Out (''Received stop signal'' @ [LF]), Close (tcp_server_socket s),
                       Close (accept_fd t), Close (udp_server_socket s)] \<and>
    length (filter (\<lambda>e. e = Close (accept_fd t)) (log s1)) =
      length (filter (\<lambda>e. e = Close (accept_fd t)) (log s)) + (if send_result t = Not_Sent then 2 else 1)"
proof -
  let ?sent = "send_tcp t (report_tcp t (accept_tcp t s))"
  let ?s1 = "close_tcp t ?sent"
  have nb: "send_result t \<noteq> Broken_Pipe" using assms(2-4) by (auto simp: kills_def)
  have ex: "exited s = None" using assms(1) by (simp add: serving_def)
  have s1: "beat_step (Turn t) s = Ok ?s1" using assms(2) nb ex by (simp add: beat_turn_def turn_calls_def serve_tcp_def)
  have op: "open_fds ?s1 = {tcp_server_socket s, udp_server_socket s}"
    using assms(1,4,5) by (auto simp: serving_def fresh_accept_def)
  have "length (filter (\<lambda>e. e = Close (accept_fd t)) (log ?s1)) =
      length (filter (\<lambda>e. e = Close (accept_fd t)) (log s)) + (if send_result t = Not_Sent then 2 else 1)"
    using assms(4) nb
    by (cases "send_result t") (simp_all add: close_tcp_def send_tcp_def report_tcp_def report_name_def Let_def split_beta split: sum.splits)
  moreover define u where "u = ?s1"
  ultimately have l: "length (filter (\<lambda>e. e = Close (accept_fd t)) (log u)) =
      length (filter (\<lambda>e. e = Close (accept_fd t)) (log s)) + (if send_result t = Not_Sent then 2 else 1)" by simp
  have f: "tcp_server_socket u = tcp_server_socket s" "udp_server_socket u = udp_server_socket s"
    "tcp_sock u = accept_fd t" "fork_pid u = 0" "exited u = None"
    using assms(1) nb ex by (simp_all add: serving_def u_def)
  have o: "open_fds u = {tcp_server_socket s, udp_server_socket s}" using op by (simp only: u_def)
  then have "accept_fd t \<notin> open_fds u" using assms(4,5) by (simp add: fresh_accept_def)
  moreover have "beat_step (Signal sigterm) u = Ok (signal_handler sigterm u)" using f(5) by simp
  moreover have "exited (signal_handler sigterm u) = Some (Exit 0) \<and> open_fds (signal_handler sigterm u) = {} \<and>
      log (signal_handler sigterm u) = log u @ [Out (''Received stop signal'' @ [LF]), Close (tcp_server_socket s),
        Close (accept_fd t), Close (udp_server_socket s)]"
    using f o assms(4,6,7) by (simp add: signal_handler_def Let_def sigterm_def) auto
  ultimately show ?thesis using s1 l unfolding u_def [symmetric] by blast
qed

lemma stale_connection_closed_again_witness:
  "\<exists>s s1 s2. beat_step (Turn demo_turn) s = Ok s1 \<and> beat_step (Signal sigterm) s1 = Ok s2 \<and>
     5 \<notin> open_fds s1 \<and> exited s2 = Some (Exit 0)"
proof -
  obtain s where s: "serving s" "tcp_server_socket s = 3" "udp_server_socket s = 4"
    using beat_setup_ok [OF demo_startup_ok] by (auto simp: demo_startup_def)
  have t: "tcp_ready demo_turn" "accept_fd demo_turn = 5" "\<not> kills demo_turn" by (simp_all add: demo_turn_def accept_fd_def kills_def)
  have "fresh_accept demo_turn s" using s t by (simp add: fresh_accept_def)
  from stale_connection_closed_again [OF s(1) t(1,3) _ this] s t show ?thesis
    unfolding t(2) by fastforce
qed

end
