(* ===== verification/Argparse.thy ===== *)
theory Argparse
  imports CString
begin

text \<open>
  src/src/argparse.c and src/src/argparse.h: the reader of the configuration files. A client
  registers a key with a callback, or with a pointer that the generic callback stores into, and
  \<open>argparse_read_properties\<close> walks the file line by line and calls the first callback
  registered under the key of each \<open>key=value\<close> line.

  The memory the clients' pointers designate is a store: one address space for each of the
  three pointer types, the cells of the linked lists, and the count of allocations made so far
  (\<open>brk\<close>), which is also the next fresh address. Whether the \<open>n\<close>-th allocation succeeds is the
  parameter \<open>mem\<close> of the store.
\<close>

section \<open>Data\<close>

datatype ptr_type = T_INT | T_STR | T_LST

record registered_pointer =
  rp_key :: string
  rp_type :: ptr_type
  rp_ptr :: nat

text \<open>
  The callbacks are function pointers. The library only ever registers its own
  \<open>generic_callback\<close>; a client may register functions of its own, which are numbered.
\<close>

datatype args_callback = Generic_Callback | Client_Callback nat

record callback =
  cb_key :: string
  cb_fun :: args_callback

record list_cell =
  cell_next :: "nat option"
  cell_value :: string

type_synonym cell_heap = "nat \<Rightarrow> list_cell option"

record argparse =
  callbacks :: "callback list"
  registered_pointers :: "registered_pointer list"
  ints :: "nat \<Rightarrow> int"
  strs :: "nat \<Rightarrow> string option"
  heads :: "nat \<Rightarrow> nat option"
  cells :: cell_heap
  brk :: nat
  mem :: "nat \<Rightarrow> bool"
  stderr :: "string list"

type_synonym client = "nat \<Rightarrow> string \<Rightarrow> string \<Rightarrow> argparse \<Rightarrow> argparse outcome"

section \<open>Operations\<close>

text \<open>An allocation: a fresh address, or NULL where the allocator refuses.\<close>

definition alloc :: "argparse \<Rightarrow> nat option \<times> argparse" where
  "alloc s = (if mem s (brk s) then Some (brk s) else None, s\<lparr>brk := Suc (brk s)\<rparr>)"

text \<open>
  \<open>free_list_cell\<close>: reads the link of a cell, frees it and goes on with the link. The fuel is
  the number of cells that were ever allocated, more than the loop can free.
\<close>

fun free_list_cell :: "nat \<Rightarrow> nat option \<Rightarrow> cell_heap \<Rightarrow> cell_heap outcome" where
  "free_list_cell fuel None h = Ok h"
| "free_list_cell 0 (Some a) h = UB Endless_Loop"
| "free_list_cell (Suc fuel) (Some a) h =
     (case h a of
        None \<Rightarrow> UB Use_After_Free
      | Some c \<Rightarrow> free_list_cell fuel (cell_next c) (h(a := None)))"

text \<open>
  A failed \<open>realloc\<close> is reported and then written through, which is the NULL dereference here.
\<close>

definition argparse_register_argument :: "string \<Rightarrow> args_callback \<Rightarrow> argparse \<Rightarrow> argparse outcome" where
  "argparse_register_argument key f s =
     (case alloc s of
        (None, s1) \<Rightarrow> UB Null_Deref
      | (Some _, s1) \<Rightarrow>
          obind (strcpy_into 256 key)
            (\<lambda>k. Ok (s1\<lparr>callbacks := callbacks s1 @ [\<lparr>cb_key = k, cb_fun = f\<rparr>]\<rparr>)))"

fun get_callback :: "string \<Rightarrow> callback list \<Rightarrow> callback option" where
  "get_callback key [] = None"
| "get_callback key (cb # cbs) = (if key = cb_key cb then Some cb else get_callback key cbs)"

fun get_registered_pointer :: "string \<Rightarrow> registered_pointer list \<Rightarrow> registered_pointer option" where
  "get_registered_pointer key [] = None"
| "get_registered_pointer key (p # ps) =
     (if key = rp_key p then Some p else get_registered_pointer key ps)"

text \<open>The walk to the last cell of a list; it does not stop on a cyclic one.\<close>

fun last_cell :: "nat \<Rightarrow> cell_heap \<Rightarrow> nat \<Rightarrow> nat outcome" where
  "last_cell fuel h a =
     (case h a of
        None \<Rightarrow> UB Use_After_Free
      | Some c \<Rightarrow>
          (case cell_next c of
             None \<Rightarrow> Ok a
           | Some b \<Rightarrow>
               (case fuel of 0 \<Rightarrow> UB Endless_Loop | Suc fuel' \<Rightarrow> last_cell fuel' h b)))"

declare last_cell.simps [simp del]

text \<open>The \<open>LST\<close> branch of the generic callback: a new cell at the end of the list.\<close>

definition list_append :: "nat \<Rightarrow> string \<Rightarrow> argparse \<Rightarrow> argparse outcome" where
  "list_append p v s =
     (case heads s p of
        None \<Rightarrow>
          (case alloc s of
             (None, s1) \<Rightarrow> UB Null_Deref
           | (Some a, s1) \<Rightarrow>
               obind (strcpy_into 256 v)
                 (\<lambda>v'. Ok (s1\<lparr>heads := (heads s1)(p := Some a),
                             cells := (cells s1)(a \<mapsto> \<lparr>cell_next = None, cell_value = v'\<rparr>)\<rparr>)))
      | Some first \<Rightarrow>
          obind (last_cell (brk s) (cells s) first)
            (\<lambda>l. case alloc s of
                (None, s1) \<Rightarrow> UB Null_Deref
              | (Some a, s1) \<Rightarrow>
                  obind (strcpy_into 256 v)
                    (\<lambda>v'. Ok (s1\<lparr>cells := (cells s1)(l \<mapsto> (the (cells s1 l))\<lparr>cell_next := Some a\<rparr>,
                                                  a \<mapsto> \<lparr>cell_next = None, cell_value = v'\<rparr>)\<rparr>))))"

definition generic_callback :: "string \<Rightarrow> string \<Rightarrow> argparse \<Rightarrow> argparse outcome" where
  "generic_callback key value s =
     (case get_registered_pointer key (registered_pointers s) of
        None \<Rightarrow> Ok s
      | Some p \<Rightarrow>
          (case rp_type p of
             T_INT \<Rightarrow> Ok (s\<lparr>ints := (ints s)(rp_ptr p := atoi value)\<rparr>)
           | T_STR \<Rightarrow>
               (case alloc s of
                  (None, s1) \<Rightarrow> UB Null_Deref
                | (Some _, s1) \<Rightarrow> Ok (s1\<lparr>strs := (strs s1)(rp_ptr p \<mapsto> value)\<rparr>))
           | T_LST \<Rightarrow> list_append (rp_ptr p) value s))"

definition register_pointer :: "string \<Rightarrow> ptr_type \<Rightarrow> nat \<Rightarrow> argparse \<Rightarrow> argparse outcome" where
  "register_pointer key t p s =
     (case alloc s of
        (None, s1) \<Rightarrow> UB Null_Deref
      | (Some _, s1) \<Rightarrow>
          obind (strcpy_into 256 key)
            (\<lambda>k. argparse_register_argument key Generic_Callback
                   (s1\<lparr>registered_pointers :=
                         registered_pointers s1 @ [\<lparr>rp_key = k, rp_type = t, rp_ptr = p\<rparr>]\<rparr>)))"

definition argparse_register_argument_int :: "string \<Rightarrow> nat \<Rightarrow> argparse \<Rightarrow> argparse outcome" where
  "argparse_register_argument_int key p = register_pointer key T_INT p"

definition argparse_register_argument_str :: "string \<Rightarrow> nat \<Rightarrow> argparse \<Rightarrow> argparse outcome" where
  "argparse_register_argument_str key p = register_pointer key T_STR p"

definition argparse_register_argument_strlst :: "string \<Rightarrow> nat \<Rightarrow> argparse \<Rightarrow> argparse outcome" where
  "argparse_register_argument_strlst key p = register_pointer key T_LST p"

definition argparse_register_argument_int_def ::
    "string \<Rightarrow> nat \<Rightarrow> int \<Rightarrow> argparse \<Rightarrow> argparse outcome" where
  "argparse_register_argument_int_def key p def s =
     argparse_register_argument_int key p (s\<lparr>ints := (ints s)(p := def)\<rparr>)"

definition argparse_register_argument_str_def ::
    "string \<Rightarrow> nat \<Rightarrow> string \<Rightarrow> argparse \<Rightarrow> argparse outcome" where
  "argparse_register_argument_str_def key p def s =
     argparse_register_argument_str key p (s\<lparr>strs := (strs s)(p \<mapsto> def)\<rparr>)"

text \<open>
  \<open>fgets (line, n + 1, f)\<close>: at most \<open>n\<close> bytes, up to and including a newline, and what is left of
  the file. The loop stops when it reads nothing.
\<close>

fun fgets :: "nat \<Rightarrow> char list \<Rightarrow> char list \<times> char list" where
  "fgets 0 bs = ([], bs)"
| "fgets (Suc n) [] = ([], [])"
| "fgets (Suc n) (c # bs) =
     (if c = LF then ([c], bs) else (let (l, rest) = fgets n bs in (c # l, rest)))"

lemma fgets_split: "fgets n bs = (l, rest) \<Longrightarrow> bs = l @ rest"
proof (induction n bs arbitrary: l rest rule: fgets.induct)
  case (3 n c bs)
  then show ?case by (cases "fgets n bs") (auto split: if_splits)
qed simp_all

definition line_max :: nat where
  "line_max = 255"

function file_lines :: "char list \<Rightarrow> char list list" where
  "file_lines bs =
     (case fgets line_max bs of (l, rest) \<Rightarrow> if l = [] then [] else l # file_lines rest)"
  by pat_completeness auto
termination
proof (relation "measure length")
  fix bs l rest
  assume fg: "(l, rest) = fgets line_max bs" and "l \<noteq> []"
  from fgets_split [OF fg [symmetric]] have "length bs = length l + length rest" by simp
  with \<open>l \<noteq> []\<close> show "(rest, bs) \<in> measure length" by simp
qed simp

declare file_lines.simps [simp del]

fun run_callback :: "client \<Rightarrow> args_callback \<Rightarrow> string \<Rightarrow> string \<Rightarrow> argparse \<Rightarrow> argparse outcome" where
  "run_callback client Generic_Callback key value s = generic_callback key value s"
| "run_callback client (Client_Callback n) key value s = client n key value s"

text \<open>
  The body of the loop. \<open>line\<close> is the C string in the buffer: a zero byte in the file ends it.
\<close>

definition process_line :: "client \<Rightarrow> char list \<Rightarrow> argparse \<Rightarrow> argparse outcome" where
  "process_line client l s =
     (case l of
        [] \<Rightarrow> Ok s
      | c # _ \<Rightarrow>
          if c \<noteq> LF \<and> c \<noteq> CHR ''#'' then
            (let line = cstr l in
             case (strchr line (CHR ''=''), strchr line LF) of
               (Some eq, Some nl) \<Rightarrow>
                 obind (strncpy_into 256 line (int eq))
                   (\<lambda>key. obind (strncpy_into 256 (drop (eq + 1) line) (int nl - int eq - 1))
                      (\<lambda>value. case get_callback key (callbacks s) of
                           None \<Rightarrow> Ok s
                         | Some cb \<Rightarrow> run_callback client (cb_fun cb) key value s))
             | _ \<Rightarrow> Ok s)
          else Ok s)"

text \<open>\<open>Inl\<close> is a file that cannot be opened, with its \<open>errno\<close>; \<open>Inr\<close> the bytes of the file.\<close>

definition argparse_read_properties ::
    "client \<Rightarrow> int + char list \<Rightarrow> argparse \<Rightarrow> argparse outcome" where
  "argparse_read_properties client file s =
     (case file of
        Inl errno \<Rightarrow>
          Ok (s\<lparr>stderr := stderr s @ [''Cannot open config file, error: '' @ show_int errno @ [LF]]\<rparr>)
      | Inr bs \<Rightarrow>
          obind (run_steps (process_line client) (file_lines bs) s)
            (\<lambda>s'. Ok (s'\<lparr>callbacks := [], registered_pointers := []\<rparr>)))"

section \<open>The two arrays\<close>

interpretation cb: named_array cb_key get_callback
  by unfold_locales simp_all

interpretation rp: named_array rp_key get_registered_pointer
  by unfold_locales simp_all

section \<open>Linked lists of cells\<close>

text \<open>\<open>chain h p as\<close>: following the links from \<open>p\<close> visits the cells \<open>as\<close> and ends in NULL.\<close>

fun chain :: "cell_heap \<Rightarrow> nat option \<Rightarrow> nat list \<Rightarrow> bool" where
  "chain h p [] \<longleftrightarrow> p = None"
| "chain h p (a # as) \<longleftrightarrow>
     p = Some a \<and> (case h a of None \<Rightarrow> False | Some c \<Rightarrow> chain h (cell_next c) as)"

definition values_of :: "cell_heap \<Rightarrow> nat list \<Rightarrow> string list" where
  "values_of h as = map (\<lambda>a. case h a of None \<Rightarrow> [] | Some c \<Rightarrow> cell_value c) as"

text \<open>The values met on the way, for at most \<open>fuel\<close> cells: what a client's loop over the list sees.\<close>

fun walk_values :: "nat \<Rightarrow> cell_heap \<Rightarrow> nat option \<Rightarrow> string list" where
  "walk_values 0 h p = []"
| "walk_values (Suc fuel) h p =
     (case p of
        None \<Rightarrow> []
      | Some a \<Rightarrow> (case h a of None \<Rightarrow> [] | Some c \<Rightarrow> cell_value c # walk_values fuel h (cell_next c)))"

lemma chain_None [simp]: "chain h None as \<longleftrightarrow> as = []"
  by (cases as) simp_all

lemma chain_unique: "chain h p as \<Longrightarrow> chain h p bs \<Longrightarrow> as = bs"
proof (induction as arbitrary: p bs)
  case (Cons a as)
  then show ?case by (cases bs) (auto split: option.splits)
qed simp

lemma chain_suffix: "chain h p (as @ b # bs) \<Longrightarrow> chain h (Some b) (b # bs)"
proof (induction as arbitrary: p)
  case Nil
  then show ?case by (auto split: option.splits)
next
  case (Cons a as)
  then show ?case by (cases "h a") auto
qed

lemma chain_distinct: "chain h p as \<Longrightarrow> distinct as"
proof (induction as arbitrary: p)
  case (Cons a as)
  then obtain c where c: "h a = Some c" "chain h (cell_next c) as" "distinct as"
    by (auto split: option.splits)
  have "a \<notin> set as"
  proof
    assume "a \<in> set as"
    then obtain xs ys where "as = xs @ a # ys" by (auto dest: split_list)
    then have "chain h (Some a) (a # ys)" using c(2) chain_suffix by blast
    moreover have "chain h (Some a) (a # as)" using c(1,2) by simp
    ultimately have "ys = as" using chain_unique by blast
    with \<open>as = xs @ a # ys\<close> show False by simp
  qed
  with c show ?case by simp
qed simp

lemma chain_dom: "chain h p as \<Longrightarrow> a \<in> set as \<Longrightarrow> \<exists>c. h a = Some c"
  by (induction as arbitrary: p) (auto split: option.splits)

lemma chain_upd [simp]: "a \<notin> set as \<Longrightarrow> chain (h(a := x)) p as = chain h p as"
  by (induction as arbitrary: p) (auto split: option.splits)

lemma values_of_upd [simp]: "a \<notin> set as \<Longrightarrow> values_of (h(a := x)) as = values_of h as"
  by (auto simp: values_of_def)

lemma walk_values_chain:
  "chain h p as \<Longrightarrow> length as \<le> fuel \<Longrightarrow> walk_values fuel h p = values_of h as"
proof (induction as arbitrary: p fuel)
  case Nil
  then show ?case by (cases fuel) (simp_all add: values_of_def)
next
  case (Cons a as)
  then show ?case by (cases fuel) (auto simp: values_of_def split: option.splits)
qed

lemma last_cell_chain:
  "chain h (Some a) as \<Longrightarrow> length as \<le> Suc fuel \<Longrightarrow> last_cell fuel h a = Ok (last as)"
proof (induction as arbitrary: a fuel)
  case (Cons b bs)
  then obtain c where c: "a = b" "h b = Some c" "chain h (cell_next c) bs"
    by (auto split: option.splits)
  show ?case
  proof (cases bs)
    case Nil
    with c show ?thesis by (simp add: last_cell.simps [of fuel])
  next
    case (Cons d ds)
    with Cons.prems(2) obtain f where f: "fuel = Suc f" by (cases fuel) simp_all
    from Cons c have n: "cell_next c = Some d" by simp
    have "last_cell f h d = Ok (last bs)" using Cons.IH [of d f] Cons.prems(2) c(3) n f by simp
    with c n f Cons show ?thesis by (simp add: last_cell.simps [of "Suc f"])
  qed
qed simp

lemma chain_snoc:
  assumes "chain h p as" and "as \<noteq> []" and "b \<notin> set as" and "h (last as) = Some c"
  shows "chain (h(last as \<mapsto> c\<lparr>cell_next := Some b\<rparr>, b \<mapsto> \<lparr>cell_next = None, cell_value = v\<rparr>)) p (as @ [b])"
  using assms
proof (induction as arbitrary: p)
  case (Cons a as)
  show ?case
  proof (cases "as = []")
    case True
    with Cons.prems show ?thesis by auto
  next
    case False
    have "a \<notin> set as" using chain_distinct [OF Cons.prems(1)] by simp
    with False have "a \<noteq> last as" by auto
    with False Cons show ?thesis by (auto split: option.splits)
  qed
qed simp

lemma values_of_snoc:
  assumes "chain h p as" and "as \<noteq> []" and "b \<notin> set as" and "h (last as) = Some c"
  shows "values_of (h(last as \<mapsto> c\<lparr>cell_next := Some b\<rparr>, b \<mapsto> \<lparr>cell_next = None, cell_value = v\<rparr>)) (as @ [b])
    = values_of h as @ [v]"
  using assms by (auto simp: values_of_def)

lemma free_list_cell_chain:
  "chain h p as \<Longrightarrow> length as \<le> fuel \<Longrightarrow> free_list_cell fuel p h = Ok (h |` (- set as))"
proof (induction as arbitrary: p h fuel)
  case (Cons a as)
  then obtain c f where c: "p = Some a" "h a = Some c" "chain h (cell_next c) as" "fuel = Suc f"
    by (cases fuel) (auto split: option.splits)
  moreover have "a \<notin> set as" using chain_distinct [OF Cons.prems(1)] by simp
  ultimately have "free_list_cell f (cell_next c) (h(a := None)) = Ok ((h(a := None)) |` (- set as))"
    using Cons.IH [of "h(a := None)" "cell_next c" f] Cons.prems(2) by (simp del: fun_upd_apply)
  moreover have "(h(a := None)) |` (- set as) = h |` (- set (a # as))"
    by (auto simp: restrict_map_def)
  ultimately show ?case using c by simp
qed (cases fuel; simp add: restrict_map_def)

section \<open>Well-formed stores and what they mean to a client\<close>

text \<open>
  \<open>owns s L\<close>: the cells reachable from list variable \<open>p\<close> are \<open>L p\<close>, no two variables share a
  cell, and every live cell was allocated.
\<close>

definition owns :: "argparse \<Rightarrow> (nat \<Rightarrow> nat list) \<Rightarrow> bool" where
  "owns s L \<longleftrightarrow>
     (\<forall>p. chain (cells s) (heads s p) (L p)) \<and>
     (\<forall>p q. p \<noteq> q \<longrightarrow> set (L p) \<inter> set (L q) = {}) \<and>
     (\<forall>a. cells s a \<noteq> None \<longrightarrow> a < brk s)"

definition wf_store :: "argparse \<Rightarrow> bool" where
  "wf_store s \<longleftrightarrow> (\<exists>L. owns s L)"

text \<open>The store as the clients see it: an integer, a string and a list of strings per variable.\<close>

record config =
  c_int :: "nat \<Rightarrow> int"
  c_str :: "nat \<Rightarrow> string option"
  c_lst :: "nat \<Rightarrow> string list"

definition abs_store :: "argparse \<Rightarrow> config" where
  "abs_store s = \<lparr>c_int = ints s, c_str = strs s, c_lst = (\<lambda>p. walk_values (brk s) (cells s) (heads s p))\<rparr>"

lemma owns_length:
  assumes "owns s L"
  shows "length (L p) \<le> brk s"
proof -
  have ch: "chain (cells s) (heads s p) (L p)" using assms by (simp add: owns_def)
  then have "set (L p) \<subseteq> {..<brk s}"
    using assms chain_dom [OF ch] by (fastforce simp: owns_def)
  then have "card (set (L p)) \<le> brk s" using card_mono [of "{..<brk s}"] by fastforce
  then show ?thesis using distinct_card [OF chain_distinct [OF ch]] by simp
qed

lemma owns_walk: "owns s L \<Longrightarrow> walk_values (brk s) (cells s) (heads s p) = values_of (cells s) (L p)"
  using walk_values_chain [of "cells s" "heads s p" "L p" "brk s"] owns_length [of s L p]
  by (simp add: owns_def)

lemma abs_store_owns:
  "owns s L \<Longrightarrow> abs_store s = \<lparr>c_int = ints s, c_str = strs s, c_lst = (\<lambda>p. values_of (cells s) (L p))\<rparr>"
  by (simp add: abs_store_def owns_walk)

lemma owns_cong:
  "owns s L \<Longrightarrow> cells s' = cells s \<Longrightarrow> heads s' = heads s \<Longrightarrow> brk s \<le> brk s' \<Longrightarrow> owns s' L"
  by (auto simp: owns_def intro: order.strict_trans2)

lemma alloc_ok: "mem s (brk s) \<Longrightarrow> alloc s = (Some (brk s), s\<lparr>brk := Suc (brk s)\<rparr>)"
  by (simp add: alloc_def)

text \<open>Appending to one list: the other lists keep their cells and their values.\<close>

lemma list_append_correct:
  assumes o: "owns s L" and m: "mem s (brk s)" and v: "length v < 256"
  shows "\<exists>s' L'. list_append p v s = Ok s' \<and> owns s' L' \<and>
    s' = s\<lparr>cells := cells s', heads := heads s', brk := Suc (brk s)\<rparr> \<and>
    (\<forall>q. values_of (cells s') (L' q) = values_of (cells s) (L q) @ (if q = p then [v] else []))"
proof -
  let ?a = "brk s"
  have "cells s ?a = None" using o unfolding owns_def by (metis less_irrefl)
  then have fresh: "?a \<notin> set (L q)" for q
    using o chain_dom [of "cells s" "heads s q" "L q" ?a] by (auto simp: owns_def)
  have ch: "chain (cells s) (heads s q) (L q)" for q using o by (simp add: owns_def)
  have dis: "p \<noteq> q \<Longrightarrow> set (L p) \<inter> set (L q) = {}" for q using o by (simp add: owns_def)
  let ?L = "L(p := L p @ [?a])"
  show ?thesis
  proof (cases "heads s p")
    case None
    then have Lp: "L p = []" using ch [of p] by simp
    let ?s = "s\<lparr>brk := Suc ?a, heads := (heads s)(p := Some ?a),
                cells := (cells s)(?a \<mapsto> \<lparr>cell_next = None, cell_value = v\<rparr>)\<rparr>"
    have "list_append p v s = Ok ?s"
      using None m v by (simp add: list_append_def alloc_ok)
    moreover have "owns ?s ?L"
      using o fresh Lp by (auto simp: owns_def less_Suc_eq)
    moreover have "values_of (cells ?s) (?L q) = values_of (cells s) (L q) @ (if q = p then [v] else [])" for q
      using fresh Lp by (auto simp: values_of_def)
    ultimately show ?thesis by (intro exI [of _ ?s] exI [of _ ?L]) simp
  next
    case (Some h0)
    with ch [of p] have ne: "L p \<noteq> []" by (cases "L p") simp_all
    let ?l = "last (L p)"
    from ne chain_dom [OF ch, of ?l p] obtain c where c: "cells s ?l = Some c" by auto
    have l: "last_cell (brk s) (cells s) h0 = Ok ?l"
      using last_cell_chain [of "cells s" h0 "L p" "brk s"] ch [of p] Some owns_length [OF o, of p] by simp
    let ?h = "(cells s)(?l \<mapsto> c\<lparr>cell_next := Some ?a\<rparr>, ?a \<mapsto> \<lparr>cell_next = None, cell_value = v\<rparr>)"
    let ?s = "s\<lparr>brk := Suc ?a, cells := ?h\<rparr>"
    have "list_append p v s = Ok ?s"
      using Some l m v c by (simp add: list_append_def alloc_ok)
    moreover have "owns ?s ?L"
    proof -
      have "chain ?h (heads s p) (L p @ [?a])" by (rule chain_snoc [OF ch ne fresh c])
      moreover have "chain ?h (heads s q) (L q)" if "q \<noteq> p" for q
        using ch [of q] fresh [of q] dis [of q] ne that by (simp add: disjoint_iff)
      moreover have "a < Suc ?a" if "?h a \<noteq> None" for a
      proof (cases "cells s a")
        case None
        with that c show ?thesis by (auto split: if_splits)
      next
        case (Some d)
        with o show ?thesis by (simp add: owns_def less_Suc_eq)
      qed
      ultimately show ?thesis using o fresh by (auto simp: owns_def)
    qed
    moreover have "values_of ?h (?L q) = values_of (cells s) (L q) @ (if q = p then [v] else [])" for q
      using values_of_snoc [OF ch [of p] ne fresh c, of v] fresh [of q] dis [of q] ne
      by (cases "q = p") (simp_all add: disjoint_iff)
    ultimately show ?thesis by (intro exI [of _ ?s] exI [of _ ?L]) simp
  qed
qed

section \<open>What a configuration file means\<close>

text \<open>The effect of one entry on a client's variables.\<close>

definition assign :: "registered_pointer \<Rightarrow> string \<Rightarrow> config \<Rightarrow> config" where
  "assign p v c =
     (case rp_type p of
        T_INT \<Rightarrow> c\<lparr>c_int := (c_int c)(rp_ptr p := atoi v)\<rparr>
      | T_STR \<Rightarrow> c\<lparr>c_str := (c_str c)(rp_ptr p \<mapsto> v)\<rparr>
      | T_LST \<Rightarrow> c\<lparr>c_lst := (c_lst c)(rp_ptr p := c_lst c (rp_ptr p) @ [v])\<rparr>)"

definition apply_entry :: "registered_pointer list \<Rightarrow> string \<times> string \<Rightarrow> config \<Rightarrow> config" where
  "apply_entry regs e c =
     (case get_registered_pointer (fst e) regs of None \<Rightarrow> c | Some p \<Rightarrow> assign p (snd e) c)"

text \<open>
  The entry a line declares: none for an empty line, a comment, a line without \<open>=\<close> and a line
  without newline (the last one of a file that does not end in a newline, or a piece of a line
  that is too long for the buffer).
\<close>

definition line_entry :: "char list \<Rightarrow> (string \<times> string) option" where
  "line_entry l =
     (let line = cstr l in
      if l = [] \<or> hd l = LF \<or> hd l = CHR ''#'' \<or> LF \<notin> set line \<or> CHR ''='' \<notin> set line then None
      else Some (takeWhile (\<lambda>c. c \<noteq> CHR ''='') line,
                 takeWhile (\<lambda>c. c \<noteq> LF) (tl (dropWhile (\<lambda>c. c \<noteq> CHR ''='') line))))"

definition config_entries :: "char list \<Rightarrow> (string \<times> string) list" where
  "config_entries bs = List.map_filter line_entry (file_lines bs)"

text \<open>What \<open>fgets\<close> leaves in the buffer: no newline but at the end.\<close>

definition buffer_line :: "char list \<Rightarrow> bool" where
  "buffer_line l \<longleftrightarrow> length l \<le> line_max \<and> LF \<notin> set (butlast l)"

lemma fgets_length: "length (fst (fgets n bs)) \<le> n"
  by (induction n bs rule: fgets.induct) (auto split: prod.splits)

lemma fgets_no_inner_newline: "LF \<notin> set (butlast (fst (fgets n bs)))"
proof (induction n bs rule: fgets.induct)
  case (3 n c bs)
  then show ?case by (cases "fgets n bs") auto
qed simp_all

lemma file_lines_buffer: "l \<in> set (file_lines bs) \<Longrightarrow> buffer_line l"
proof (induction bs rule: file_lines.induct)
  case (1 bs)
  obtain l0 rest where f: "fgets line_max bs = (l0, rest)" by (cases "fgets line_max bs")
  then have "buffer_line l0"
    using fgets_length [of line_max bs] fgets_no_inner_newline [of line_max bs]
    by (simp add: buffer_line_def)
  with "1.IH" [OF f [symmetric]] "1.prems" f show ?case
    by (auto simp: file_lines.simps [of bs] split: if_splits)
qed

lemma strchr_takeWhile: "strchr s c = Some i \<Longrightarrow> take i s = takeWhile (\<lambda>x. x \<noteq> c) s"
  by (induction s arbitrary: i) (auto split: if_splits)

lemma strchr_dropWhile: "strchr s c = Some i \<Longrightarrow> drop (Suc i) s = tl (dropWhile (\<lambda>x. x \<noteq> c) s)"
  by (induction s arbitrary: i) (auto split: if_splits)

lemma buffer_line_newline:
  assumes "buffer_line l" and "LF \<in> set (cstr l)"
  shows "\<exists>w. cstr l = w @ [LF] \<and> LF \<notin> set w \<and> length w < line_max"
proof -
  obtain t where t: "l = cstr l @ t"
    by (metis cstr_def takeWhile_dropWhile_id)
  obtain u v where u: "cstr l = u @ LF # v" using split_list [OF assms(2)] by auto
  with t have l: "l = u @ LF # (v @ t)" by simp
  then have "v @ t = []" using assms(1)
    by (cases "v @ t" rule: rev_cases) (auto simp: buffer_line_def butlast_append)
  with l u assms(1) show ?thesis by (auto simp: buffer_line_def butlast_append)
qed

lemma process_line_entry:
  assumes "buffer_line l"
  shows "process_line client l s =
    (case line_entry l of
       None \<Rightarrow> Ok s
     | Some (key, value) \<Rightarrow>
         (case get_callback key (callbacks s) of
            None \<Rightarrow> Ok s
          | Some cb \<Rightarrow> run_callback client (cb_fun cb) key value s))"
    and "line_entry l = Some (key, value) \<Longrightarrow> length key < line_max \<and> length value < line_max"
proof -
  let ?l = "cstr l"
  let ?sk = "\<lambda>c. c \<noteq> CHR ''=''"
  have "process_line client l s = (case line_entry l of
       None \<Rightarrow> Ok s
     | Some (key, value) \<Rightarrow>
         (case get_callback key (callbacks s) of
            None \<Rightarrow> Ok s
          | Some cb \<Rightarrow> run_callback client (cb_fun cb) key value s)) \<and>
    (\<forall>key value. line_entry l = Some (key, value) \<longrightarrow> length key < line_max \<and> length value < line_max)"
  proof (cases "l = [] \<or> hd l = LF \<or> hd l = CHR ''#'' \<or> LF \<notin> set ?l \<or> CHR ''='' \<notin> set ?l")
    case True
    then have n: "line_entry l = None" by (auto simp: line_entry_def Let_def)
    have "process_line client l s = Ok s"
      using True by (cases l) (auto simp: process_line_def Let_def strchr_None_iff [THEN iffD2] split: option.splits)
    with n show ?thesis by simp
  next
    case False
    then obtain w where w: "?l = w @ [LF]" "LF \<notin> set w" "length w < line_max"
      using buffer_line_newline [OF assms] by blast
    from w False have "CHR ''='' \<in> set w" by auto
    then obtain k v where kv: "w = k @ CHR ''='' # v" "CHR ''='' \<notin> set k"
      by (meson split_list_first)
    have e: "strchr ?l (CHR ''='') = Some (length k)" using w kv by (simp add: strchr_append_hit)
    have n: "strchr ?l LF = Some (length w)" using w by (simp add: strchr_append_hit)
    have tk: "take (length k) ?l = k" "take (length v) (drop (Suc (length k)) ?l) = v" using w kv by simp_all
    have le: "line_entry l = Some (k, v)"
      using False w kv by (simp add: line_entry_def Let_def)
        (auto simp: takeWhile_append dropWhile_append takeWhile_eq_all_conv)
    have s1: "strncpy_into 256 ?l (int (length k)) = Ok k"
      using strncpy_into_Ok [of "int (length k)" 256 ?l] tk w kv by (simp add: line_max_def)
    have "int (length w) - int (length k) - 1 = int (length v)" using kv by simp
    then have s2: "strncpy_into 256 (drop (length k + 1) ?l) (int (length w) - int (length k) - 1) = Ok v"
      using strncpy_into_Ok [of "int (length v)" 256 "drop (length k + 1) ?l"] tk w kv by (simp add: line_max_def)
    have "process_line client l s = (case get_callback k (callbacks s) of
            None \<Rightarrow> Ok s | Some cb \<Rightarrow> run_callback client (cb_fun cb) k v s)"
      using False e n s1 s2 by (cases l) (simp_all add: process_line_def Let_def)
    with le w kv show ?thesis by simp
  qed
  then show "process_line client l s = (case line_entry l of
       None \<Rightarrow> Ok s
     | Some (key, value) \<Rightarrow>
         (case get_callback key (callbacks s) of
            None \<Rightarrow> Ok s
          | Some cb \<Rightarrow> run_callback client (cb_fun cb) key value s))"
    and "line_entry l = Some (key, value) \<Longrightarrow> length key < line_max \<and> length value < line_max"
    by simp_all
qed

section \<open>Reading a file refines the entries' effect\<close>

text \<open>
  The two arrays in step: the same keys in the same order, and only the generic callback. This is
  what the registration helpers leave behind.
\<close>

definition synced :: "argparse \<Rightarrow> bool" where
  "synced s \<longleftrightarrow>
     map cb_key (callbacks s) = map rp_key (registered_pointers s) \<and>
     (\<forall>cb \<in> set (callbacks s). cb_fun cb = Generic_Callback)"

definition memory_ok :: "argparse \<Rightarrow> bool" where
  "memory_ok s \<longleftrightarrow> mem s = (\<lambda>_. True)"

definition ready :: "argparse \<Rightarrow> bool" where
  "ready s \<longleftrightarrow> wf_store s \<and> synced s \<and> memory_ok s"

lemma synced_get_callback:
  assumes "synced s"
  shows "get_callback k (callbacks s) = None \<longleftrightarrow> get_registered_pointer k (registered_pointers s) = None"
    and "get_callback k (callbacks s) = Some cb \<Longrightarrow> cb_fun cb = Generic_Callback"
proof -
  have "cb_key ` set (callbacks s) = rp_key ` set (registered_pointers s)"
    using assms unfolding synced_def by (metis list.set_map)
  then show "get_callback k (callbacks s) = None \<longleftrightarrow> get_registered_pointer k (registered_pointers s) = None"
    by (simp add: cb.find_None_iff rp.find_None_iff)
  show "get_callback k (callbacks s) = Some cb \<Longrightarrow> cb_fun cb = Generic_Callback"
    using assms cb.find_name [of k "callbacks s" cb] by (simp add: synced_def)
qed

lemma generic_callback_correct:
  assumes "ready s" and "length value < 256"
  shows "\<exists>s'. generic_callback key value s = Ok s' \<and> ready s' \<and>
    callbacks s' = callbacks s \<and> registered_pointers s' = registered_pointers s \<and> stderr s' = stderr s \<and>
    abs_store s' = apply_entry (registered_pointers s) (key, value) (abs_store s)"
proof -
  from assms(1) obtain L where o: "owns s L" and sy: "synced s" and m: "mem s = (\<lambda>_. True)"
    by (auto simp: ready_def wf_store_def memory_ok_def)
  show ?thesis
  proof (cases "get_registered_pointer key (registered_pointers s)")
    case None
    with assms(1) show ?thesis by (simp add: generic_callback_def apply_entry_def)
  next
    case (Some p)
    show ?thesis
    proof (cases "rp_type p")
      case T_INT
      let ?s = "s\<lparr>ints := (ints s)(rp_ptr p := atoi value)\<rparr>"
      have "owns ?s L" using owns_cong [OF o, of ?s] by simp
      with Some T_INT sy m o show ?thesis
        by (auto simp: generic_callback_def apply_entry_def assign_def ready_def wf_store_def
            synced_def memory_ok_def abs_store_owns)
    next
      case T_STR
      let ?s = "s\<lparr>brk := Suc (brk s), strs := (strs s)(rp_ptr p \<mapsto> value)\<rparr>"
      have "owns ?s L" using owns_cong [OF o, of ?s] by simp
      with Some T_STR sy m o show ?thesis
        by (auto simp: generic_callback_def apply_entry_def assign_def ready_def wf_store_def alloc_ok
            synced_def memory_ok_def abs_store_owns)
    next
      case T_LST
      obtain s' L' where l: "list_append (rp_ptr p) value s = Ok s'" "owns s' L'"
        "s' = s\<lparr>cells := cells s', heads := heads s', brk := Suc (brk s)\<rparr>"
        "\<forall>q. values_of (cells s') (L' q) = values_of (cells s) (L q) @ (if q = rp_ptr p then [value] else [])"
        using list_append_correct [OF o, of "value" "rp_ptr p"] m assms(2) by auto
      have fr: "ints s' = ints s" "strs s' = strs s" "mem s' = mem s" "callbacks s' = callbacks s"
        "registered_pointers s' = registered_pointers s" "stderr s' = stderr s"
        by ((subst l(3), simp)+)
      have "ready s'" using l(2) fr sy m by (auto simp: ready_def wf_store_def synced_def memory_ok_def)
      moreover have "abs_store s' = apply_entry (registered_pointers s) (key, value) (abs_store s)"
        using Some T_LST l(4) fr
        by (simp add: abs_store_owns [OF o] abs_store_owns [OF l(2)] apply_entry_def assign_def fun_eq_iff)
      ultimately show ?thesis using Some T_LST l(1) fr by (simp add: generic_callback_def)
    qed
  qed
qed

lemma process_line_correct:
  assumes "ready s" and "buffer_line l"
  shows "\<exists>s'. process_line client l s = Ok s' \<and> ready s' \<and>
    callbacks s' = callbacks s \<and> registered_pointers s' = registered_pointers s \<and> stderr s' = stderr s \<and>
    abs_store s' = (case line_entry l of None \<Rightarrow> abs_store s
                    | Some e \<Rightarrow> apply_entry (registered_pointers s) e (abs_store s))"
proof (cases "line_entry l")
  case None
  with assms show ?thesis by (simp add: process_line_entry(1))
next
  case (Some e)
  obtain k v where e: "e = (k, v)" by (cases e)
  have v: "length v < 256" using process_line_entry(2) [OF assms(2)] Some e by (simp add: line_max_def)
  have sy: "synced s" using assms(1) by (simp add: ready_def)
  show ?thesis
  proof (cases "get_callback k (callbacks s)")
    case None
    then have "get_registered_pointer k (registered_pointers s) = None"
      using synced_get_callback(1) [OF sy] by simp
    with None Some e assms show ?thesis by (simp add: process_line_entry(1) apply_entry_def)
  next
    case (Some cb)
    have "process_line client l s = generic_callback k v s"
      using \<open>line_entry l = Some e\<close> Some e synced_get_callback(2) [OF sy Some]
      by (simp add: process_line_entry(1) [OF assms(2)])
    with generic_callback_correct [OF assms(1) v, of k] \<open>line_entry l = Some e\<close> e
    show ?thesis by simp
  qed
qed

lemma run_lines_correct:
  assumes "ready s" and "\<forall>l \<in> set ls. buffer_line l"
  shows "\<exists>s'. run_steps (process_line client) ls s = Ok s' \<and> ready s' \<and>
    callbacks s' = callbacks s \<and> registered_pointers s' = registered_pointers s \<and> stderr s' = stderr s \<and>
    abs_store s' = fold (apply_entry (registered_pointers s)) (List.map_filter line_entry ls) (abs_store s)"
  using assms
proof (induction ls arbitrary: s)
  case Nil
  then show ?case by simp
next
  case (Cons l ls)
  obtain s1 where s1: "process_line client l s = Ok s1" "ready s1" "callbacks s1 = callbacks s"
    "registered_pointers s1 = registered_pointers s" "stderr s1 = stderr s"
    "abs_store s1 = (case line_entry l of None \<Rightarrow> abs_store s
       | Some e \<Rightarrow> apply_entry (registered_pointers s) e (abs_store s))"
    using process_line_correct [of s l client] Cons.prems by auto
  with Cons.IH [OF s1(2)] Cons.prems(2) show ?case
    by (cases "line_entry l") (auto simp: map_filter_simps)
qed

lemma read_properties_refines:
  assumes "ready s"
  shows "\<exists>s'. argparse_read_properties client (Inr bs) s = Ok s' \<and> ready s' \<and>
    callbacks s' = [] \<and> registered_pointers s' = [] \<and> stderr s' = stderr s \<and>
    abs_store s' = fold (apply_entry (registered_pointers s)) (config_entries bs) (abs_store s)"
proof -
  obtain s1 where s1: "run_steps (process_line client) (file_lines bs) s = Ok s1" "ready s1" "stderr s1 = stderr s"
    "abs_store s1 = fold (apply_entry (registered_pointers s)) (config_entries bs) (abs_store s)"
    using run_lines_correct [OF assms, of "file_lines bs" client] file_lines_buffer [of _ bs]
    by (auto simp: config_entries_def)
  let ?s = "s1\<lparr>callbacks := [], registered_pointers := []\<rparr>"
  from s1(2) obtain L where L: "owns s1 L" by (auto simp: ready_def wf_store_def)
  then have "owns ?s L" by (rule owns_cong) simp_all
  then have "ready ?s" using s1(2) by (auto simp: ready_def synced_def memory_ok_def wf_store_def)
  moreover have "abs_store ?s = abs_store s1" by (simp add: abs_store_def)
  ultimately show ?thesis using s1 by (simp add: argparse_read_properties_def)
qed

section \<open>Registration\<close>

lemma register_pointer_correct:
  assumes "ready s" and "length key < 256"
  shows "\<exists>s'. register_pointer key t p s = Ok s' \<and> ready s' \<and> abs_store s' = abs_store s \<and>
    registered_pointers s' = registered_pointers s @ [\<lparr>rp_key = key, rp_type = t, rp_ptr = p\<rparr>] \<and>
    callbacks s' = callbacks s @ [\<lparr>cb_key = key, cb_fun = Generic_Callback\<rparr>] \<and> stderr s' = stderr s"
proof -
  from assms(1) obtain L where o: "owns s L" and sy: "synced s" and m: "mem s = (\<lambda>_. True)"
    by (auto simp: ready_def wf_store_def memory_ok_def)
  let ?s = "s\<lparr>brk := Suc (Suc (brk s)),
      registered_pointers := registered_pointers s @ [\<lparr>rp_key = key, rp_type = t, rp_ptr = p\<rparr>],
      callbacks := callbacks s @ [\<lparr>cb_key = key, cb_fun = Generic_Callback\<rparr>]\<rparr>"
  have r: "register_pointer key t p s = Ok ?s"
    using m assms(2) by (simp add: register_pointer_def argparse_register_argument_def alloc_ok)
  have o': "owns ?s L" using owns_cong [OF o, of ?s] by simp
  then have "ready ?s" using sy m by (auto simp: ready_def wf_store_def synced_def memory_ok_def)
  moreover have "abs_store ?s = abs_store s" using abs_store_owns [OF o] abs_store_owns [OF o'] by simp
  ultimately show ?thesis using r by simp
qed

lemma register_pointer_long_key:
  "memory_ok s \<Longrightarrow> 256 \<le> length key \<Longrightarrow> register_pointer key t p s = UB Buffer_Overflow"
  by (simp add: register_pointer_def alloc_ok memory_ok_def strcpy_into_def)

lemma ready_set_var:
  assumes "ready s"
  shows "ready (s\<lparr>ints := f\<rparr>)" and "ready (s\<lparr>strs := g\<rparr>)"
proof -
  from assms obtain L where o: "owns s L" by (auto simp: ready_def wf_store_def)
  have "owns (s\<lparr>ints := f\<rparr>) L" "owns (s\<lparr>strs := g\<rparr>) L" using owns_cong [OF o] by simp_all
  with assms show "ready (s\<lparr>ints := f\<rparr>)" "ready (s\<lparr>strs := g\<rparr>)"
    by (auto simp: ready_def wf_store_def synced_def memory_ok_def)
qed

section \<open>The state at program start\<close>

text \<open>
  The arrays are empty and every variable of the clients holds zero or NULL, as static storage
  does; \<open>m\<close> says which allocations succeed.
\<close>

definition start_state :: "(nat \<Rightarrow> bool) \<Rightarrow> argparse" where
  "start_state m = \<lparr>callbacks = [], registered_pointers = [], ints = (\<lambda>_. 0), strs = (\<lambda>_. None),
     heads = (\<lambda>_. None), cells = (\<lambda>_. None), brk = 0, mem = m, stderr = []\<rparr>"

lemma ready_start: "ready (start_state (\<lambda>_. True))"
  by (simp add: ready_def wf_store_def owns_def start_state_def synced_def memory_ok_def)
    (rule exI [of _ "\<lambda>_. []"], simp)

lemma abs_start: "abs_store (start_state m) = \<lparr>c_int = (\<lambda>_. 0), c_str = (\<lambda>_. None), c_lst = (\<lambda>_. [])\<rparr>"
  by (simp add: abs_store_def start_state_def)

section \<open>Writing and reading back a file\<close>

definition render_entry :: "string \<times> string \<Rightarrow> char list" where
  "render_entry e = fst e @ CHR ''='' # snd e @ [LF]"

text \<open>An entry that the format can express: see the rules of the README.\<close>

definition plain_entry :: "string \<times> string \<Rightarrow> bool" where
  "plain_entry e \<longleftrightarrow>
     no_nul (fst e) \<and> no_nul (snd e) \<and> LF \<notin> set (fst e) \<and> LF \<notin> set (snd e) \<and>
     CHR ''='' \<notin> set (fst e) \<and> (fst e \<noteq> [] \<longrightarrow> hd (fst e) \<noteq> CHR ''#'') \<and>
     length (fst e) + length (snd e) + 2 \<le> line_max"

lemma fgets_line: "LF \<notin> set w \<Longrightarrow> length w < n \<Longrightarrow> fgets n (w @ LF # rest) = (w @ [LF], rest)"
proof (induction w arbitrary: n)
  case Nil
  then show ?case by (cases n) simp_all
next
  case (Cons c w)
  then show ?case by (cases n) auto
qed

lemma file_lines_line:
  "LF \<notin> set w \<Longrightarrow> length w < line_max \<Longrightarrow> file_lines (w @ LF # rest) = (w @ [LF]) # file_lines rest"
  by (simp add: file_lines.simps [of "w @ LF # rest"] fgets_line)

lemma file_lines_Nil [simp]: "file_lines [] = []"
  by (simp add: file_lines.simps line_max_def numeral_eq_Suc)

lemma file_lines_step:
  "fgets line_max bs = (l, rest) \<Longrightarrow> l \<noteq> [] \<Longrightarrow> file_lines bs = l # file_lines rest"
  by (simp add: file_lines.simps [of bs])

lemma config_entries_Nil [simp]: "config_entries [] = []"
  by (simp add: config_entries_def map_filter_simps)

lemma config_entries_line:
  "LF \<notin> set w \<Longrightarrow> length w < line_max \<Longrightarrow>
   config_entries (w @ LF # rest) =
     (case line_entry (w @ [LF]) of None \<Rightarrow> config_entries rest | Some e \<Rightarrow> e # config_entries rest)"
  by (simp add: config_entries_def file_lines_line map_filter_simps split: option.split)

lemma line_entry_render:
  assumes "plain_entry e"
  shows "line_entry (render_entry e) = Some e"
proof -
  obtain k v where e: "e = (k, v)" by (cases e)
  have "no_nul (render_entry e)" using assms e by (simp add: render_entry_def plain_entry_def)
  moreover have "hd (render_entry e) \<noteq> LF \<and> hd (render_entry e) \<noteq> CHR ''#''"
    using assms e by (cases k) (auto simp: render_entry_def plain_entry_def)
  moreover have "takeWhile (\<lambda>c. c \<noteq> CHR ''='') (k @ CHR ''='' # v @ [LF]) = k"
    "dropWhile (\<lambda>c. c \<noteq> CHR ''='') (k @ CHR ''='' # v @ [LF]) = CHR ''='' # v @ [LF]"
    using assms e by (auto simp: plain_entry_def takeWhile_append dropWhile_append)
  moreover have "takeWhile (\<lambda>c. c \<noteq> LF) (v @ [LF]) = v"
    using assms e by (auto simp: plain_entry_def takeWhile_append)
  ultimately show ?thesis using e by (simp add: line_entry_def Let_def) (simp add: render_entry_def)
qed

lemma config_entries_render:
  "plain_entry e \<Longrightarrow> config_entries (render_entry e @ rest) = e # config_entries rest"
  using config_entries_line [of "fst e @ CHR ''='' # snd e" rest] line_entry_render [of e]
  by (simp add: render_entry_def plain_entry_def)

lemma file_lines_subset: "l \<in> set (file_lines bs) \<Longrightarrow> set l \<subseteq> set bs"
proof (induction bs rule: file_lines.induct)
  case (1 bs)
  obtain l0 r where f: "fgets line_max bs = (l0, r)" by (cases "fgets line_max bs")
  then have "set bs = set l0 \<union> set r" using fgets_split [OF f] by (metis set_append)
  with "1.IH" [OF f [symmetric]] "1.prems" f show ?case
    by (auto simp: file_lines.simps [of bs] split: if_splits)
qed

text \<open>
  A last line that does not end in a newline is not read: the entries of the file are those
  of the part up to its last newline, whatever key and value the rest spells.
\<close>

lemma unterminated_last_line_ignored:
  assumes "\<forall>e \<in> set es. plain_entry e" and "LF \<notin> set t"
  shows "config_entries (concat (map render_entry es) @ t) = es"
  using assms(1)
proof (induction es)
  case Nil
  have "line_entry l = None" if "l \<in> set (file_lines t)" for l
  proof -
    from file_lines_subset [OF that] have "LF \<notin> set (cstr l)" using assms(2) by (auto simp: cstr_def dest: set_takeWhileD)
    then show ?thesis by (simp add: line_entry_def Let_def)
  qed
  then show ?case by (auto simp: config_entries_def List.map_filter_def)
next
  case (Cons e es)
  then show ?case by (simp add: config_entries_render)
qed

lemma long_comment_entries:
  assumes "length c = line_max" and "hd c = CHR ''#''" and "LF \<notin> set c" and "plain_entry e"
  shows "config_entries (c @ render_entry e) = [e]"
proof -
  have f: "fgets n (w @ r) = (w, r)" if "LF \<notin> set w" "length w = n" for n w and r :: "char list"
    using that by (induction n "w @ r" arbitrary: w rule: fgets.induct) (auto simp: Cons_eq_append_conv)
  have "c \<noteq> []" using assms(1) by (auto simp: line_max_def)
  then have "file_lines (c @ render_entry e) = c # file_lines (render_entry e)"
    using f [OF assms(3,1)] by (simp add: file_lines_step)
  moreover have "line_entry c = None" using assms(2) by (simp add: line_entry_def Let_def)
  ultimately show ?thesis using config_entries_render [OF assms(4), of "[]"]
    by (simp add: config_entries_def map_filter_simps)
qed

text \<open>
  What the reader does for an entry, and the whole reader in these terms: the calls of the
  callbacks for the entries of the file one after the other, in any state and for any callbacks.
\<close>

definition call_entry :: "client \<Rightarrow> string \<times> string \<Rightarrow> argparse \<Rightarrow> argparse outcome" where
  "call_entry client e s =
     (case get_callback (fst e) (callbacks s) of
        None \<Rightarrow> Ok s
      | Some cb \<Rightarrow> run_callback client (cb_fun cb) (fst e) (snd e) s)"

definition forget_registrations :: "argparse \<Rightarrow> argparse" where
  "forget_registrations s = s\<lparr>callbacks := [], registered_pointers := []\<rparr>"

lemma run_lines_entries:
  "\<forall>l \<in> set ls. buffer_line l \<Longrightarrow>
   run_steps (process_line client) ls s = run_steps (call_entry client) (List.map_filter line_entry ls) s"
proof (induction ls arbitrary: s)
  case (Cons l ls)
  then have "process_line client l s = (case line_entry l of None \<Rightarrow> Ok s | Some e \<Rightarrow> call_entry client e s)"
    by (simp add: process_line_entry(1) call_entry_def split: option.split prod.split)
  moreover have "run_steps (process_line client) ls = run_steps (call_entry client) (List.map_filter line_entry ls)"
    using Cons by auto
  ultimately show ?case by (cases "line_entry l") (simp_all add: map_filter_simps)
qed (simp add: map_filter_simps)

lemma read_properties_entries:
  "argparse_read_properties client (Inr bs) s =
     obind (run_steps (call_entry client) (config_entries bs) s) (\<lambda>s'. Ok (forget_registrations s'))"
  using run_lines_entries [of "file_lines bs" client s] file_lines_buffer [of _ bs]
  by (simp add: argparse_read_properties_def config_entries_def forget_registrations_def)

text \<open>A client that prints what it is called with, for the witnesses.\<close>

definition printing_client :: client where
  "printing_client n key value s = Ok (s\<lparr>stderr := stderr s @ [key @ '' is '' @ value]\<rparr>)"

definition printing_state :: "string list \<Rightarrow> argparse" where
  "printing_state keys = (start_state (\<lambda>_. True))\<lparr>callbacks := map (\<lambda>k. \<lparr>cb_key = k, cb_fun = Client_Callback 0\<rparr>) keys\<rparr>"

lemmas printing_defs = printing_state_def printing_client_def start_state_def call_entry_def forget_registrations_def

text \<open>
  C23. Round trip: of a file written as one \<open>key=value\<close> line per entry the reader calls the callbacks for
  exactly those entries, in order, as long as the entries keep the README's rules and fit the line
  buffer; whatever follows the last newline is not read. This holds in any state and for any callbacks.
\<close>

theorem config_roundtrip:
  assumes "\<forall>e \<in> set es. plain_entry e" and "LF \<notin> set t"
  shows "argparse_read_properties client (Inr (concat (map render_entry es) @ t)) s =
    obind (run_steps (call_entry client) es s) (\<lambda>s'. Ok (forget_registrations s'))"
  unfolding read_properties_entries unterminated_last_line_ignored [OF assms] ..

lemma config_roundtrip_witness:
  "\<exists>s'. argparse_read_properties printing_client (Inr ''target=a:b:1\<newline>myname=x=y\<newline>target=c'') (printing_state [''target'', ''myname'']) =
     Ok s' \<and> stderr s' = [''target is a:b:1'', ''myname is x=y''] \<and> callbacks s' = []"
  using config_roundtrip [of "[(''target'', ''a:b:1''), (''myname'', ''x=y'')]" "''target=c''" printing_client
      "printing_state [''target'', ''myname'']"]
  by (simp add: plain_entry_def render_entry_def line_max_def printing_defs)

text \<open>
  A line longer than the 255 bytes of the buffer is not one line to the reader: what follows
  the first 255 bytes is read as a line of its own. The tail of a long comment is so taken as a
  declaration, although the README makes the whole line a comment.
\<close>

lemma long_comment_declares:
  assumes "length c = line_max" and "hd c = CHR ''#''" and "LF \<notin> set c"
    and "plain_entry e"
  shows "argparse_read_properties client (Inr (c @ render_entry e)) s =
    obind (call_entry client e s) (\<lambda>s'. Ok (forget_registrations s'))"
  unfolding read_properties_entries long_comment_entries [OF assms]
  by (cases "call_entry client e s") simp_all

lemma long_comment_declares_witness:
  "\<exists>s'. argparse_read_properties printing_client
       (Inr ((CHR ''#'' # replicate 254 (CHR ''-'')) @ render_entry (''poll_interval'', ''0''))) (printing_state [''poll_interval'']) =
     Ok s' \<and> stderr s' = [''poll_interval is 0'']"
  by (subst long_comment_declares) (simp_all add: line_max_def plain_entry_def printing_defs)

section \<open>What reading a file does to each variable\<close>

text \<open>The values a file gives to a key, in the file's order.\<close>

definition values_for :: "string \<Rightarrow> (string \<times> string) list \<Rightarrow> string list" where
  "values_for k es = map snd (filter (\<lambda>e. fst e = k) es)"

lemma values_for_simps [simp]:
  "values_for k [] = []"
  "values_for k (e # es) = (if fst e = k then snd e # values_for k es else values_for k es)"
  by (simp_all add: values_for_def)

text \<open>No two registrations share a key or a variable.\<close>

definition separate :: "registered_pointer list \<Rightarrow> bool" where
  "separate regs \<longleftrightarrow> distinct (map rp_key regs) \<and> distinct (map (\<lambda>p. (rp_type p, rp_ptr p)) regs)"

lemma separate_found:
  assumes "separate regs" and "p \<in> set regs" and "get_registered_pointer k regs = Some q"
    and "rp_type q = rp_type p" and "rp_ptr q = rp_ptr p"
  shows "q = p \<and> k = rp_key p"
proof -
  have "q \<in> set regs" "rp_key q = k" using rp.find_name [OF assms(3)] by auto
  moreover from this have "q = p"
    using assms(1,2,4,5) by (auto simp: separate_def distinct_map inj_on_def)
  ultimately show ?thesis by simp
qed

lemma assign_other:
  assumes "rp_type q \<noteq> rp_type p \<or> rp_ptr q \<noteq> rp_ptr p"
  shows "rp_type p = T_LST \<Longrightarrow> c_lst (assign q v c) (rp_ptr p) = c_lst c (rp_ptr p)"
    and "rp_type p = T_INT \<Longrightarrow> c_int (assign q v c) (rp_ptr p) = c_int c (rp_ptr p)"
    and "rp_type p = T_STR \<Longrightarrow> c_str (assign q v c) (rp_ptr p) = c_str c (rp_ptr p)"
  using assms by (cases "rp_type q"; simp add: assign_def; fail)+

lemma apply_entry_var:
  assumes "separate regs" and "p \<in> set regs"
  shows "rp_type p = T_LST \<Longrightarrow> c_lst (apply_entry regs e c) (rp_ptr p) =
           c_lst c (rp_ptr p) @ (if fst e = rp_key p then [snd e] else [])"
    and "rp_type p = T_INT \<Longrightarrow> c_int (apply_entry regs e c) (rp_ptr p) =
           (if fst e = rp_key p then atoi (snd e) else c_int c (rp_ptr p))"
    and "rp_type p = T_STR \<Longrightarrow> c_str (apply_entry regs e c) (rp_ptr p) =
           (if fst e = rp_key p then Some (snd e) else c_str c (rp_ptr p))"
proof -
  have hit: "get_registered_pointer (rp_key p) regs = Some p"
    using rp.find_distinct assms by (simp add: separate_def)
  have hit: "apply_entry regs e c = assign p (snd e) c" if "fst e = rp_key p"
    using hit that by (simp add: apply_entry_def)
  have miss: "apply_entry regs e c = c \<or>
      (\<exists>q. apply_entry regs e c = assign q (snd e) c \<and> (rp_type q \<noteq> rp_type p \<or> rp_ptr q \<noteq> rp_ptr p))"
    if "fst e \<noteq> rp_key p"
    using separate_found [OF assms, of "fst e"] that
    by (cases "get_registered_pointer (fst e) regs") (auto simp: apply_entry_def)
  show "rp_type p = T_LST \<Longrightarrow> c_lst (apply_entry regs e c) (rp_ptr p) =
           c_lst c (rp_ptr p) @ (if fst e = rp_key p then [snd e] else [])"
    using hit miss by (cases "fst e = rp_key p") (auto simp: assign_other, simp add: assign_def)
  show "rp_type p = T_INT \<Longrightarrow> c_int (apply_entry regs e c) (rp_ptr p) =
           (if fst e = rp_key p then atoi (snd e) else c_int c (rp_ptr p))"
    using hit miss by (cases "fst e = rp_key p") (auto simp: assign_other, simp add: assign_def)
  show "rp_type p = T_STR \<Longrightarrow> c_str (apply_entry regs e c) (rp_ptr p) =
           (if fst e = rp_key p then Some (snd e) else c_str c (rp_ptr p))"
    using hit miss by (cases "fst e = rp_key p") (auto simp: assign_other, simp add: assign_def)
qed

lemma fold_apply_var:
  assumes "separate regs" and "p \<in> set regs"
  shows "rp_type p = T_LST \<Longrightarrow> c_lst (fold (apply_entry regs) es c) (rp_ptr p) =
           c_lst c (rp_ptr p) @ values_for (rp_key p) es"
    and "rp_type p = T_INT \<Longrightarrow> c_int (fold (apply_entry regs) es c) (rp_ptr p) =
           (if values_for (rp_key p) es = [] then c_int c (rp_ptr p) else atoi (last (values_for (rp_key p) es)))"
    and "rp_type p = T_STR \<Longrightarrow> c_str (fold (apply_entry regs) es c) (rp_ptr p) =
           (if values_for (rp_key p) es = [] then c_str c (rp_ptr p) else Some (last (values_for (rp_key p) es)))"
  by (induction es arbitrary: c) (simp_all add: apply_entry_var [OF assms])

section \<open>Properties of the reader\<close>

text \<open>The registrations of one list, one integer and one string variable, for the witnesses.\<close>

definition no_client :: client where
  "no_client n k v s = Ok s"

definition demo_state :: argparse where
  "demo_state = (start_state (\<lambda>_. True))
     \<lparr>callbacks := [\<lparr>cb_key = ''target'', cb_fun = Generic_Callback\<rparr>,
                    \<lparr>cb_key = ''poll_interval'', cb_fun = Generic_Callback\<rparr>,
                    \<lparr>cb_key = ''myname'', cb_fun = Generic_Callback\<rparr>],
      registered_pointers := [\<lparr>rp_key = ''target'', rp_type = T_LST, rp_ptr = 0\<rparr>,
                              \<lparr>rp_key = ''poll_interval'', rp_type = T_INT, rp_ptr = 0\<rparr>,
                              \<lparr>rp_key = ''myname'', rp_type = T_STR, rp_ptr = 0\<rparr>]\<rparr>"

lemma ready_demo: "ready demo_state"
proof -
  have "owns demo_state (\<lambda>_. [])" by (simp add: owns_def demo_state_def start_state_def)
  then show ?thesis
    by (auto simp: ready_def wf_store_def synced_def memory_ok_def demo_state_def start_state_def)
qed

lemma demo_simps:
  "abs_store demo_state = \<lparr>c_int = (\<lambda>_. 0), c_str = (\<lambda>_. None), c_lst = (\<lambda>_. [])\<rparr>"
  "registered_pointers demo_state =
     [\<lparr>rp_key = ''target'', rp_type = T_LST, rp_ptr = 0\<rparr>,
      \<lparr>rp_key = ''poll_interval'', rp_type = T_INT, rp_ptr = 0\<rparr>,
      \<lparr>rp_key = ''myname'', rp_type = T_STR, rp_ptr = 0\<rparr>]"
  by (simp_all add: demo_state_def abs_store_def start_state_def)

lemma separate_demo: "separate (registered_pointers demo_state)"
  by (simp add: separate_def demo_state_def)

definition demo_file :: "char list" where
  "demo_file = ''target=a:b:1\<newline>poll_interval=5\<newline>target=c:d:2\<newline>''"

lemma demo_entries:
  "config_entries demo_file =
     [(''target'', ''a:b:1''), (''poll_interval'', ''5''), (''target'', ''c:d:2'')]"
  using config_entries_render [of "(''target'', ''a:b:1'')" "''poll_interval=5\<newline>target=c:d:2\<newline>''"]
    config_entries_render [of "(''poll_interval'', ''5'')" "''target=c:d:2\<newline>''"]
    config_entries_render [of "(''target'', ''c:d:2'')" "[]"]
  by (simp add: demo_file_def plain_entry_def render_entry_def line_max_def)

text \<open>
  C8. Whatever bytes the configuration file holds, reading it commits no buffer overflow, no
  invalid memory access and no endless loop; it forgets the registrations, and the clients'
  variables end up as if the entries of the file had been assigned one after the other
  (refinement of the heap-level loop by a fold over the entries).
\<close>

theorem read_properties_safe_and_correct:
  assumes "ready s"
  shows "\<exists>s'. argparse_read_properties client (Inr bs) s = Ok s' \<and> ready s' \<and>
    callbacks s' = [] \<and> registered_pointers s' = [] \<and> stderr s' = stderr s \<and>
    abs_store s' = fold (apply_entry (registered_pointers s)) (config_entries bs) (abs_store s)"
  by (rule read_properties_refines [OF assms])

lemma read_properties_safe_and_correct_witness:
  "\<exists>s'. argparse_read_properties no_client (Inr demo_file) demo_state = Ok s' \<and>
     callbacks s' = [] \<and> c_lst (abs_store s') 0 = [''a:b:1'', ''c:d:2'']"
  using read_properties_safe_and_correct
    [OF ready_demo, of no_client demo_file]
  unfolding demo_entries demo_simps by (auto simp: apply_entry_def assign_def)

text \<open>
  C33. What each registered variable holds after a file is read: a list variable its old elements
  followed by every value of its key in file order, an integer variable the \<open>atoi\<close> of the last
  value of its key, a string variable that last value; a variable whose key the file does not
  mention keeps its (default) value.
\<close>

theorem read_properties_variables:
  assumes "ready s" and "separate (registered_pointers s)" and "p \<in> set (registered_pointers s)"
  shows "\<exists>s'. argparse_read_properties client (Inr bs) s = Ok s' \<and>
    (let vs = values_for (rp_key p) (config_entries bs); old = abs_store s; new = abs_store s' in
     (case rp_type p of
        T_LST \<Rightarrow> c_lst new (rp_ptr p) = c_lst old (rp_ptr p) @ vs
      | T_INT \<Rightarrow> c_int new (rp_ptr p) = (if vs = [] then c_int old (rp_ptr p) else atoi (last vs))
      | T_STR \<Rightarrow> c_str new (rp_ptr p) = (if vs = [] then c_str old (rp_ptr p) else Some (last vs))))"
  using read_properties_refines [OF assms(1), of client bs] fold_apply_var [OF assms(2,3)]
  by (cases "rp_type p") (auto simp: Let_def)

lemma read_properties_variables_witness:
  "\<exists>s'. argparse_read_properties no_client (Inr demo_file) demo_state = Ok s' \<and>
     c_int (abs_store s') 0 = 5"
proof -
  have p: "\<lparr>rp_key = ''poll_interval'', rp_type = T_INT, rp_ptr = 0\<rparr> \<in> set (registered_pointers demo_state)"
    by (simp add: demo_state_def)
  have "atoi ''5'' = 5"
    by (simp add: atoi_def strtol_def isspace_def is_digit_def digits_val_def char_digit_def
        wrap32_def long_max_def long_min_def)
  then show ?thesis
    using read_properties_variables
      [OF ready_demo separate_demo p, of no_client demo_file]
    unfolding demo_entries by (simp add: Let_def)
qed

text \<open>
  When the file cannot be opened, the reader only reports it and keeps every registration
  (the header promises that it frees them), so the next file that is read still assigns to the
  variables registered for the missing one, whoever they belong to.
\<close>

lemma failed_open_keeps_registrations:
  assumes "ready s" and "length key < 256"
    and "argparse_read_properties client (Inl e) s = Ok s1"
  shows "\<exists>s2 s3. register_pointer key t p s1 = Ok s2 \<and> argparse_read_properties client (Inr bs) s2 = Ok s3 \<and>
    abs_store s3 = fold (apply_entry (registered_pointers s @ [\<lparr>rp_key = key, rp_type = t, rp_ptr = p\<rparr>]))
                     (config_entries bs) (abs_store s)"
proof -
  from assms(3) obtain x where s1: "s1 = s\<lparr>stderr := x\<rparr>"
    by (auto simp: argparse_read_properties_def)
  have "owns s L \<Longrightarrow> owns (s\<lparr>stderr := x\<rparr>) L" for L by (rule owns_cong [of s]) simp_all
  then have "ready s1 \<and> abs_store s1 = abs_store s \<and> registered_pointers s1 = registered_pointers s"
    using assms(1) s1 by (auto simp: ready_def wf_store_def synced_def memory_ok_def abs_store_def)
  with register_pointer_correct [of s1 key t p] assms(2) read_properties_refines [of _ client bs]
  show ?thesis by metis
qed

lemma failed_open_keeps_registrations_witness:
  "\<exists>s1 s2 s3. argparse_read_properties no_client (Inl 2) demo_state = Ok s1 \<and>
     register_pointer ''token'' T_STR 1 s1 = Ok s2 \<and>
     argparse_read_properties no_client (Inr demo_file) s2 = Ok s3 \<and>
     c_lst (abs_store s3) 0 = [''a:b:1'', ''c:d:2'']"
proof -
  obtain s1 where s1: "argparse_read_properties no_client (Inl 2) demo_state = Ok s1"
    by (simp add: argparse_read_properties_def)
  from failed_open_keeps_registrations [OF ready_demo _ s1, of "''token''" T_STR 1
      demo_file]
  show ?thesis unfolding demo_entries demo_simps using s1
    by (auto simp: apply_entry_def assign_def)
qed

text \<open>
  \<open>free_list_cell\<close> frees every cell of the list of a variable exactly once and no other cell,
  and stops; so no list is left behind and no other list is touched.
\<close>

lemma free_list_cell_exact:
  assumes "owns s L"
  shows "free_list_cell (brk s) (heads s p) (cells s) = Ok (cells s |` (- set (L p))) \<and>
    (\<forall>q. q \<noteq> p \<longrightarrow> chain (cells s |` (- set (L p))) (heads s q) (L q))"
proof -
  have ch: "chain (cells s) (heads s q) (L q)" for q using assms by (simp add: owns_def)
  have other: "chain (h |` (- A)) x as" if "set as \<inter> A = {}" "chain h x as" for h x as and A :: "nat set"
    using that by (induction as arbitrary: x) (auto simp: restrict_map_def split: option.splits)
  have "chain (cells s |` (- set (L p))) (heads s q) (L q)" if "q \<noteq> p" for q
    using assms that ch by (intro other) (simp_all add: owns_def)
  moreover have "free_list_cell (brk s) (heads s p) (cells s) = Ok (cells s |` (- set (L p)))"
    by (rule free_list_cell_chain [OF ch owns_length [OF assms]])
  ultimately show ?thesis by simp
qed

lemma free_list_cell_exact_witness:
  "let s = demo_state\<lparr>heads := (\<lambda>_. None)(0 := Some 0), brk := 2,
             cells := (\<lambda>_. None)(0 \<mapsto> \<lparr>cell_next = Some 1, cell_value = ''a:b:1''\<rparr>,
                                1 \<mapsto> \<lparr>cell_next = None, cell_value = ''c:d:2''\<rparr>)\<rparr>
   in free_list_cell (brk s) (heads s 0) (cells s) = Ok (cells s |` (- {0, 1}))"
proof -
  let ?s = "demo_state\<lparr>heads := (\<lambda>_. None)(0 := Some 0), brk := 2,
             cells := (\<lambda>_. None)(0 \<mapsto> \<lparr>cell_next = Some 1, cell_value = ''a:b:1''\<rparr>,
                                1 \<mapsto> \<lparr>cell_next = None, cell_value = ''c:d:2''\<rparr>)\<rparr>"
  have "owns ?s ((\<lambda>_. [])(0 := [0, 1]))" by (auto simp: owns_def)
  from free_list_cell_exact [OF this, of 0] show ?thesis by (simp add: Let_def)
qed

end
