(* ===== verification/CDouble.thy ===== *)
theory CDouble
  imports CString Complex_Main
begin

text \<open>
  The C type \<open>double\<close> (IEEE 754 binary64) as far as the program uses it: comparison, truncation to
  \<open>int\<close>, \<open>strtod\<close> and \<open>sscanf\<close> on decimal numerals, and \<open>%g\<close> of \<open>printf\<close> with a precision. The
  definitions compute with integers only, so they can be evaluated.
\<close>

section \<open>Numbers\<close>

text \<open>\<open>Fin s m e\<close> is \<open>m * 2 ^ e\<close>, negative when \<open>s\<close> is set; zero has both signs.\<close>

datatype double = Fin bool nat int | Inf bool | NaN

text \<open>The significand fills its 53 bits unless the exponent is the least one.\<close>

fun wf_double :: "double \<Rightarrow> bool" where
  "wf_double (Fin s m e) \<longleftrightarrow> m < 2 ^ 53 \<and> - 1074 \<le> e \<and> e \<le> 971 \<and> (2 ^ 52 \<le> m \<or> e = - 1074)"
| "wf_double (Inf s) \<longleftrightarrow> True"
| "wf_double NaN \<longleftrightarrow> True"

fun is_finite :: "double \<Rightarrow> bool" where
  "is_finite (Fin s m e) \<longleftrightarrow> True"
| "is_finite _ \<longleftrightarrow> False"

text \<open>
  \<open>m * 2 ^ e\<close> as a fraction: \<open>nat\<close> is zero on negative numbers, so exactly one of the two powers
  counts.
\<close>

abbreviation (input) num2 :: "nat \<Rightarrow> int \<Rightarrow> nat" where "num2 m e \<equiv> m * 2 ^ nat e"
abbreviation (input) den2 :: "int \<Rightarrow> nat" where "den2 e \<equiv> 2 ^ nat (- e)"

text \<open>The fraction \<open>p / q\<close> to the nearest integer, ties to even.\<close>

definition round_div :: "nat \<Rightarrow> nat \<Rightarrow> nat" where
  "round_div p q =
     (let n = p div q; r = p mod q in
      if 2 * r < q \<or> (2 * r = q \<and> even n) then n else Suc n)"

fun bit_len :: "nat \<Rightarrow> nat" where
  "bit_len n = (if n = 0 then 0 else Suc (bit_len (n div 2)))"

declare bit_len.simps [simp del]

text \<open>The exponent of the result: the significand of \<open>p / q\<close> then lies below \<open>2 ^ 53\<close>.\<close>

definition result_exp :: "nat \<Rightarrow> nat \<Rightarrow> int" where
  "result_exp p q =
     (let e0 = max (- 1074) (int (bit_len p) - int (bit_len q) - 53) in
      if q * 2 ^ nat e0 * 2 ^ 53 \<le> p * 2 ^ nat (- e0) then e0 + 1 else e0)"

text \<open>The fraction \<open>p / q\<close> to the nearest \<open>double\<close>, ties to even, infinity beyond the range.\<close>

definition round_double :: "bool \<Rightarrow> nat \<Rightarrow> nat \<Rightarrow> double" where
  "round_double s p q =
     (let e = result_exp p q;
          m = round_div (p * 2 ^ nat (- e)) (q * 2 ^ nat e);
          (m', e') = (if m = 2 ^ 53 then (2 ^ 52, e + 1) else (m, e))
      in if p = 0 then Fin s 0 (- 1074) else if 971 < e' then Inf s else Fin s m' e')"

definition double_of_int :: "int \<Rightarrow> double" where
  "double_of_int i = round_double (i < 0) (nat \<bar>i\<bar>) 1"

text \<open>The comparisons \<open>a == b\<close>, \<open>a >= n\<close> and \<open>a <= n\<close> for an integer \<open>n\<close>.\<close>

fun double_eq :: "double \<Rightarrow> double \<Rightarrow> bool" where
  "double_eq (Fin s m e) (Fin t n f) \<longleftrightarrow> (m = 0 \<and> n = 0) \<or> (s = t \<and> m = n \<and> e = f)"
| "double_eq (Inf s) (Inf t) \<longleftrightarrow> s = t"
| "double_eq _ _ \<longleftrightarrow> False"

fun double_ge_int :: "double \<Rightarrow> int \<Rightarrow> bool" where
  "double_ge_int (Fin s m e) n \<longleftrightarrow> n * int (den2 e) \<le> (if s then -1 else 1) * int (num2 m e)"
| "double_ge_int (Inf s) n \<longleftrightarrow> \<not> s"
| "double_ge_int NaN n \<longleftrightarrow> False"

fun double_le_int :: "double \<Rightarrow> int \<Rightarrow> bool" where
  "double_le_int (Fin s m e) n \<longleftrightarrow> (if s then -1 else 1) * int (num2 m e) \<le> n * int (den2 e)"
| "double_le_int (Inf s) n \<longleftrightarrow> s"
| "double_le_int NaN n \<longleftrightarrow> False"

text \<open>The cast \<open>(int) d\<close>; it is undefined for what \<open>int\<close> cannot hold.\<close>

fun truncate_double :: "double \<Rightarrow> int outcome" where
  "truncate_double (Fin s m e) =
     (let t = (if s then -1 else 1) * int (num2 m e div den2 e) in
      if int32 t then Ok t else UB Float_Cast)"
| "truncate_double _ = UB Float_Cast"

section \<open>Reading\<close>

definition strip_sign :: "string \<Rightarrow> bool \<times> string" where
  "strip_sign s =
     (case s of
        [] \<Rightarrow> (False, s)
      | c # t \<Rightarrow> if c = CHR ''-'' then (True, t) else if c = CHR ''+'' then (False, t) else (False, s))"

text \<open>The exponent part, when there is one with at least a digit, and what follows it.\<close>

definition strip_exponent :: "string \<Rightarrow> int \<times> string" where
  "strip_exponent s =
     (case s of
        [] \<Rightarrow> (0, s)
      | c # t \<Rightarrow>
          if c = CHR ''e'' \<or> c = CHR ''E'' then
            (let (neg, u) = strip_sign t; ds = takeWhile is_digit u in
             if ds = [] then (0, s)
             else ((if neg then -1 else 1) * int (digits_val ds), drop (length ds) u))
          else (0, s))"

text \<open>
  \<open>strtod\<close> on a string of digits, signs, points and exponent letters: the number and the rest of
  the string, \<open>None\<close> when no number stands at its start.
\<close>

definition strtod :: "string \<Rightarrow> (double \<times> string) option" where
  "strtod s =
     (let (neg, s1) = strip_sign s;
          ip = takeWhile is_digit s1;
          s2 = dropWhile is_digit s1;
          (fp, s3) = (case s2 of
                        [] \<Rightarrow> ([], s2)
                      | c # t \<Rightarrow> if c = CHR ''.'' then (takeWhile is_digit t, dropWhile is_digit t) else ([], s2))
      in if ip = [] \<and> fp = [] then None
         else
           (let (x, s4) = strip_exponent s3;
                k = x - int (length fp)
            in Some (round_double neg (digits_val (ip @ fp) * 10 ^ nat k) (10 ^ nat (- k)), s4)))"

section \<open>Printing\<close>

text \<open>The decimal exponent of a fraction: \<open>10 ^ X <= p / q < 10 ^ (X + 1)\<close>.\<close>

function dec_up :: "nat \<Rightarrow> nat \<Rightarrow> nat" where
  "dec_up p q = (if q = 0 \<or> p < 10 * q then 0 else Suc (dec_up p (10 * q)))"
  by pat_completeness auto
termination by (relation "measure (\<lambda>(p, q). p - q)") auto

function dec_down :: "nat \<Rightarrow> nat \<Rightarrow> nat" where
  "dec_down p q = (if p = 0 \<or> q \<le> p then 0 else Suc (dec_down (10 * p) q))"
  by pat_completeness auto
termination by (relation "measure (\<lambda>(p, q). q - p)") auto

declare dec_up.simps [simp del] dec_down.simps [simp del]

definition dec_exp :: "nat \<Rightarrow> nat \<Rightarrow> int" where
  "dec_exp p q = (if q \<le> p then int (dec_up p q) else - int (dec_down p q))"

text \<open>The fraction rounded to \<open>P\<close> significant digits: the digits as a number, and the exponent.\<close>

definition significant :: "nat \<Rightarrow> nat \<Rightarrow> nat \<Rightarrow> nat \<times> int" where
  "significant P p q =
     (let x = dec_exp p q;
          k = int P - 1 - x;
          n = round_div (p * 10 ^ nat k) (q * 10 ^ nat (- k))
      in if n = 10 ^ P then (10 ^ (P - 1), x + 1) else (n, x))"

definition strip_zeros :: "string \<Rightarrow> string" where
  "strip_zeros s = rev (dropWhile (\<lambda>c. c = CHR ''0'') (rev s))"

definition with_fraction :: "string \<Rightarrow> string \<Rightarrow> string" where
  "with_fraction ip fp = (let f = strip_zeros fp in if f = [] then ip else ip @ CHR ''.'' # f)"

definition show_exponent :: "int \<Rightarrow> string" where
  "show_exponent x =
     (let ds = show_nat (nat \<bar>x\<bar>) in
      CHR ''e'' # (if x < 0 then CHR ''-'' else CHR ''+'') # (if length ds < 2 then CHR ''0'' # ds else ds))"

text \<open>\<open>%1.Pg\<close>: the fixed notation for exponents from -4 below the precision, else the scientific one.\<close>

definition format_digits :: "nat \<Rightarrow> nat \<Rightarrow> int \<Rightarrow> string" where
  "format_digits P n x =
     (let ds = show_nat n in
      if - 4 \<le> x \<and> x < int P then
        (if 0 \<le> x then with_fraction (take (nat x + 1) ds) (drop (nat x + 1) ds)
         else with_fraction ''0'' (replicate (nat (- x) - 1) (CHR ''0'') @ ds))
      else with_fraction (take 1 ds) (drop 1 ds) @ show_exponent x)"

fun format_g :: "nat \<Rightarrow> double \<Rightarrow> string" where
  "format_g P (Fin s m e) =
     (if s then ''-'' else []) @
     (if m = 0 then ''0'' else (case significant P (num2 m e) (den2 e) of (n, x) \<Rightarrow> format_digits P n x))"
| "format_g P (Inf s) = (if s then ''-'' else []) @ ''inf''"
| "format_g P NaN = ''nan''"

section \<open>Fractions as real numbers\<close>

lemma powi_split: "(a::real) > 0 \<Longrightarrow> a powi e = a ^ nat e / a ^ nat (- e)"
  by (cases "0 \<le> e") (simp_all add: power_int_def divide_inverse power_inverse)

lemma powi_half: "(2::real) powi e = 2 * 2 powi (e - 1)"
  by (simp add: power_int_diff)

lemma powi_less_iff: "(1::real) < a \<Longrightarrow> a powi x < a powi y \<longleftrightarrow> x < y"
  by (metis linorder_not_le power_int_increasing power_int_strict_increasing less_imp_le order.strict_iff_order)

definition frac_val :: "nat \<Rightarrow> nat \<Rightarrow> real" where
  "frac_val p q = real p / real q"

lemma scaled_frac: "frac_val (p * 2 ^ nat (- e)) (q * 2 ^ nat e) = frac_val p q / 2 powi e"
  by (simp add: frac_val_def powi_split field_simps)

lemma scaled_frac10: "frac_val (p * 10 ^ nat k) (q * 10 ^ nat (- k)) = frac_val p q * 10 powi k"
  by (simp add: frac_val_def powi_split field_simps)

lemma frac_pos [simp]: "0 < p \<Longrightarrow> 0 < q \<Longrightarrow> 0 < frac_val p q"
  by (simp add: frac_val_def)

lemma num2_val: "frac_val (num2 m e) (den2 e) = real m * 2 powi e"
  by (simp add: frac_val_def powi_split)

subsection \<open>Rounding to the nearest integer\<close>

lemma round_div_near:
  assumes "0 < q"
  shows "\<bar>real (round_div p q) - frac_val p q\<bar> \<le> 1 / 2"
proof -
  have "real p = real (p div q) * real q + real (p mod q)"
    by (metis div_mult_mod_eq of_nat_add of_nat_mult)
  then have f: "frac_val p q = real (p div q) + real (p mod q) / real q"
    using assms by (simp add: frac_val_def field_simps)
  show ?thesis
  proof (cases "2 * (p mod q) \<le> q")
    case True
    then have "2 * real (p mod q) \<le> real q" by linarith
    then have "real (p mod q) / real q \<le> 1 / 2" using assms by (simp add: field_simps)
    moreover have "real (p mod q) / real q = 1 / 2" if "2 * (p mod q) = q"
    proof -
      have "2 * real (p mod q) = real q" using that by linarith
      then show ?thesis using assms by (simp add: field_simps)
    qed
    ultimately show ?thesis using f True assms by (auto simp: round_div_def Let_def)
  next
    case False
    then have "real q < 2 * real (p mod q)" by linarith
    then have "1 / 2 < real (p mod q) / real q" using assms by (simp add: field_simps)
    moreover have "real (p mod q) / real q < 1" using assms by simp
    ultimately show ?thesis using f False by (auto simp: round_div_def Let_def)
  qed
qed

lemma round_div_unique:
  assumes "0 < q" and "\<bar>real m - frac_val p q\<bar> < 1 / 2"
  shows "round_div p q = m"
proof -
  have "\<bar>real (round_div p q) - real m\<bar> < 1" using round_div_near [OF assms(1), of p] assms(2) by linarith
  then show ?thesis by linarith
qed

lemma round_div_ge:
  assumes "0 < q" and "real m \<le> frac_val p q"
  shows "m \<le> round_div p q"
  using round_div_near [OF assms(1), of p] assms(2) by linarith

lemma round_div_le:
  assumes "0 < q" and "frac_val p q \<le> real m"
  shows "round_div p q \<le> m"
  using round_div_near [OF assms(1), of p] assms(2) by linarith

subsection \<open>The exponent of the result\<close>

lemma bit_len_bounds: "0 < n \<Longrightarrow> 2 ^ (bit_len n - 1) \<le> n \<and> n < 2 ^ bit_len n \<and> 0 < bit_len n"
proof (induction n rule: bit_len.induct)
  case (1 n)
  show ?case
  proof (cases "n div 2 = 0")
    case True
    with 1(2) have "n = 1" by linarith
    then show ?thesis by (simp add: bit_len.simps)
  next
    case False
    with 1 have ih: "2 ^ (bit_len (n div 2) - 1) \<le> n div 2" "n div 2 < 2 ^ bit_len (n div 2)"
        "0 < bit_len (n div 2)"
      by (simp_all del: div_eq_0_iff)
    have b: "bit_len n = Suc (bit_len (n div 2))" using 1(2) by (simp add: bit_len.simps [of n])
    have "2 * 2 ^ (bit_len (n div 2) - 1) \<le> n" using ih(1) by linarith
    moreover have "(2::nat) ^ bit_len (n div 2) = 2 * 2 ^ (bit_len (n div 2) - 1)"
      using ih(3) by (metis power_minus_mult mult.commute)
    moreover have "n < 2 * 2 ^ bit_len (n div 2)" using ih(2) by linarith
    ultimately show ?thesis using b by simp
  qed
qed

lemma bit_len_real:
  assumes "0 < n"
  shows "2 powi (int (bit_len n) - 1) \<le> real n" and "real n < 2 powi int (bit_len n)"
proof -
  have *: "int (bit_len n) - 1 = int (bit_len n - 1)" using bit_len_bounds [OF assms] by linarith
  have "real (2 ^ (bit_len n - 1)) \<le> real n" using bit_len_bounds [OF assms] by (metis of_nat_le_iff)
  then show "2 powi (int (bit_len n) - 1) \<le> real n" unfolding * by simp
  have "real n < real (2 ^ bit_len n)" using bit_len_bounds [OF assms] by (metis of_nat_less_iff)
  then show "real n < 2 powi int (bit_len n)" by simp
qed

lemma frac_binade:
  assumes "0 < p" and "0 < q"
  shows "2 powi (int (bit_len p) - int (bit_len q) - 1) < frac_val p q"
    and "frac_val p q < 2 powi (int (bit_len p) - int (bit_len q) + 1)"
proof -
  let ?P = "int (bit_len p)" and ?Q = "int (bit_len q)"
  have "2 powi (?P - 1) / 2 powi ?Q < frac_val p q"
    unfolding frac_val_def using bit_len_real [OF assms(1)] bit_len_real [OF assms(2)] assms
    by (intro frac_less2) auto
  moreover have "(2::real) powi (?P - 1) / 2 powi ?Q = 2 powi (?P - 1 - ?Q)"
    by (subst power_int_diff) simp_all
  ultimately show "2 powi (?P - ?Q - 1) < frac_val p q"
    by (simp add: diff_diff_eq add.commute)
  have "frac_val p q < 2 powi ?P / 2 powi (?Q - 1)"
    unfolding frac_val_def using bit_len_real [OF assms(1)] bit_len_real [OF assms(2)] assms
    by (intro frac_less) auto
  moreover have "(2::real) powi ?P / 2 powi (?Q - 1) = 2 powi (?P - (?Q - 1))"
    by (subst power_int_diff) simp_all
  ultimately show "frac_val p q < 2 powi (?P - ?Q + 1)"
    by (simp add: algebra_simps)
qed

lemma result_exp_bounds:
  assumes "0 < p" and "0 < q" and "e = result_exp p q"
  shows "- 1074 \<le> e" and "frac_val p q < 2 ^ 53 * 2 powi e" and "e = - 1074 \<or> 2 ^ 52 * 2 powi e \<le> frac_val p q"
proof -
  define k where "k = int (bit_len p) - int (bit_len q)"
  define e0 where "e0 = max (- 1074) (k - 53)"
  have c: "q * 2 ^ nat e0 * 2 ^ 53 \<le> p * 2 ^ nat (- e0) \<longleftrightarrow> 2 ^ 53 * 2 powi e0 \<le> frac_val p q"
  proof -
    have "q * 2 ^ nat e0 * 2 ^ 53 \<le> p * 2 ^ nat (- e0) \<longleftrightarrow>
        real q * 2 ^ nat e0 * 2 ^ 53 \<le> real p * 2 ^ nat (- e0)"
      by (metis (mono_tags, lifting) of_nat_le_iff of_nat_mult of_nat_numeral of_nat_power)
    also have "\<dots> \<longleftrightarrow> 2 ^ 53 \<le> frac_val (p * 2 ^ nat (- e0)) (q * 2 ^ nat e0)"
      using assms(2) by (simp add: frac_val_def field_simps)
    also have "\<dots> \<longleftrightarrow> 2 ^ 53 * 2 powi e0 \<le> frac_val p q"
      unfolding scaled_frac by (simp add: field_simps)
    finally show ?thesis .
  qed
  have e: "e = (if 2 ^ 53 * 2 powi e0 \<le> frac_val p q then e0 + 1 else e0)"
    unfolding assms(3) result_exp_def Let_def k_def [symmetric] e0_def [symmetric] c by simp
  have b: "2 powi (k - 1) < frac_val p q" "frac_val p q < 2 powi (k + 1)"
    using frac_binade [OF assms(1,2)] by (simp_all add: k_def)
  have p53: "2 powi (x + 53) = 2 ^ 53 * (2::real) powi x" for x by (simp add: power_int_add)
  have p52: "2 powi (x + 52) = 2 ^ 52 * (2::real) powi x" for x by (simp add: power_int_add)
  show "- 1074 \<le> e" using e by (auto simp: e0_def)
  show "frac_val p q < 2 ^ 53 * 2 powi e"
  proof (cases "2 ^ 53 * 2 powi e0 \<le> frac_val p q")
    case True
    then have "e = e0 + 1" using e by simp
    moreover have "(2::real) powi (k + 1) \<le> 2 powi (e0 + 1 + 53)"
      by (intro power_int_increasing) (auto simp: e0_def)
    ultimately show ?thesis using b(2) p53 [of "e0 + 1"] by simp
  qed (use e in auto)
  show "e = - 1074 \<or> 2 ^ 52 * 2 powi e \<le> frac_val p q"
  proof (cases "2 ^ 53 * 2 powi e0 \<le> frac_val p q")
    case True
    then have "e = e0 + 1" using e by simp
    then show ?thesis using True by (simp add: power_int_add)
  next
    case False
    then have e': "e = e0" using e by simp
    show ?thesis
    proof (cases "e0 = - 1074")
      case False
      then have "(2::real) powi (e0 + 52) = 2 powi (k - 1)" by (simp add: e0_def)
      then show ?thesis using b(1) p52 [of e0] e' by simp
    qed (use e' in simp)
  qed
qed

lemma result_exp_unique:
  assumes "0 < p" and "0 < q" and "- 1074 \<le> e" and "frac_val p q < 2 ^ 53 * 2 powi e"
    and "e = - 1074 \<or> 2 ^ 52 * 2 powi e \<le> frac_val p q"
  shows "result_exp p q = e"
proof -
  define f where "f = result_exp p q"
  note f = result_exp_bounds [OF assms(1,2) f_def]
  have p53: "2 ^ 53 * (2::real) powi x = 2 powi (x + 53)" for x by (simp add: power_int_add)
  have p52: "2 ^ 52 * (2::real) powi x = 2 powi (x + 52)" for x by (simp add: power_int_add)
  have "e \<le> f"
  proof (cases "e = - 1074")
    case False
    then have "(2::real) powi (e + 52) < 2 powi (f + 53)" using assms(5) f(2) unfolding p52 p53 by linarith
    then show ?thesis by (simp add: powi_less_iff)
  qed (use f in simp)
  moreover have "f \<le> e"
  proof (cases "f = - 1074")
    case False
    then have "(2::real) powi (f + 52) < 2 powi (e + 53)" using assms(4) f(3) unfolding p52 p53 by linarith
    then show ?thesis by (simp add: powi_less_iff)
  qed (use assms in simp)
  ultimately show ?thesis by (simp add: f_def)
qed

subsection \<open>Rounding to the nearest double\<close>

text \<open>
  A fraction closer to a double than half a unit of its last place (a quarter below a power of
  two, where the doubles are twice as dense) rounds to that double.
\<close>

lemma round_double_near:
  assumes "0 < p" and "0 < q" and wf: "wf_double (Fin s m e)" and "0 < m"
    and near: "\<bar>frac_val p q - real m * 2 powi e\<bar> < 2 powi e / 2"
    and low: "m = 2 ^ 52 \<Longrightarrow> real m * 2 powi e - frac_val p q < 2 powi e / 4"
  shows "round_double s p q = Fin s m e"
proof -
  have m: "m < 2 ^ 53" "- 1074 \<le> e" "e \<le> 971" "2 ^ 52 \<le> m \<or> e = - 1074" using wf by auto
  have pos: "(0::real) < 2 powi e" by simp
  define v where "v = frac_val p q / 2 powi e"
  have v: "frac_val p q = v * 2 powi e" by (simp add: v_def)
  have "\<bar>v - real m\<bar> * 2 powi e = \<bar>frac_val p q - real m * 2 powi e\<bar>"
    unfolding v by (metis abs_mult abs_of_pos left_diff_distrib pos)
  then have "\<bar>v - real m\<bar> * 2 powi e < (1 / 2) * 2 powi e" using near by simp
  then have n: "\<bar>v - real m\<bar> < 1 / 2" using pos by (simp add: mult_less_cancel_right)
  have m53: "real m \<le> 2 ^ 53 - 1"
  proof -
    have "m \<le> 2 ^ 53 - 1" using m(1) by linarith
    then have "real m \<le> real (2 ^ 53 - 1)" by (simp only: of_nat_le_iff)
    then show ?thesis by simp
  qed
  have "v < 2 ^ 53" using n m53 by linarith
  then have lt: "frac_val p q < 2 ^ 53 * 2 powi e" by (simp add: v)
  show ?thesis
  proof (cases "e = - 1074 \<or> 2 ^ 52 \<le> v")
    case True
    then have "e = - 1074 \<or> 2 ^ 52 * 2 powi e \<le> frac_val p q" by (simp add: v)
    from result_exp_unique [OF assms(1,2) m(2) lt this] have e: "result_exp p q = e" .
    have "round_div (p * 2 ^ nat (- e)) (q * 2 ^ nat e) = m"
      by (rule round_div_unique) (use assms(2) n in \<open>auto simp: scaled_frac v_def abs_minus_commute\<close>)
    with m assms(1) e show ?thesis by (simp add: round_double_def Let_def)
  next
    case False
    then have ne: "e \<noteq> - 1074" and v52: "v < 2 ^ 52" by auto
    from ne m have "2 ^ 52 \<le> m" by simp
    moreover have "m \<le> 2 ^ 52"
    proof -
      have "real m < 2 ^ 52 + 1" using n v52 by linarith
      also have "\<dots> = real (2 ^ 52 + 1)" by simp
      finally have "m < 2 ^ 52 + 1" by (simp only: of_nat_less_iff)
      then show ?thesis by simp
    qed
    ultimately have meq: "m = 2 ^ 52" by simp
    have "(real m - v) * 2 powi e < (1 / 4) * 2 powi e"
      using low [OF meq] unfolding v by (simp add: left_diff_distrib)
    then have q4: "real m - v < 1 / 4" using pos by (simp add: mult_less_cancel_right)
    let ?f = "e - 1"
    have half: "(2::real) powi e = 2 * 2 powi ?f" by (rule powi_half)
    have a: "frac_val p q < 2 ^ 53 * 2 powi ?f" using v52 by (simp add: v half)
    have "2 ^ 51 \<le> v" using q4 meq by simp
    then have b: "2 ^ 52 * 2 powi ?f \<le> frac_val p q" by (simp add: v half)
    have "- 1074 \<le> ?f" using ne m(2) by linarith
    from result_exp_unique [OF assms(1,2) this a] b have e: "result_exp p q = ?f" by simp
    have "frac_val p q / 2 powi ?f = 2 * v" by (simp add: v half)
    moreover have "\<bar>real (2 ^ 53) - 2 * v\<bar> < 1 / 2" using q4 meq v52 by simp
    ultimately have "\<bar>real (2 ^ 53) - frac_val (p * 2 ^ nat (- ?f)) (q * 2 ^ nat ?f)\<bar> < 1 / 2"
      unfolding scaled_frac by (simp only:)
    then have "round_div (p * 2 ^ nat (- ?f)) (q * 2 ^ nat ?f) = 2 ^ 53"
      by (intro round_div_unique) (use assms(2) in simp_all)
    with m(3) e assms(1) meq show ?thesis unfolding round_double_def Let_def by simp
  qed
qed

lemma round_double_exact:
  assumes "0 < p" and "0 < q" and "wf_double (Fin s m e)" and "0 < m" and "frac_val p q = real m * 2 powi e"
  shows "round_double s p q = Fin s m e"
  by (rule round_double_near [OF assms(1-4)]) (use assms(5) in simp_all)

lemma round_double_wf:
  assumes "0 < q"
  shows "wf_double (round_double s p q)"
proof (cases "p = 0")
  case True
  then show ?thesis by (simp add: round_double_def Let_def)
next
  case False
  then have p: "0 < p" by simp
  define e where "e = result_exp p q"
  define m where "m = round_div (p * 2 ^ nat (- e)) (q * 2 ^ nat e)"
  note b = result_exp_bounds [OF p assms e_def]
  have q': "0 < q * 2 ^ nat e" using assms by simp
  have "frac_val (p * 2 ^ nat (- e)) (q * 2 ^ nat e) < 2 ^ 53"
    using b(2) by (simp add: scaled_frac field_simps)
  then have m: "m \<le> 2 ^ 53" unfolding m_def by (intro round_div_le [OF q']) simp
  have "e = - 1074 \<or> 2 ^ 52 \<le> m"
  proof -
    have "2 ^ 52 \<le> m" if "2 ^ 52 * 2 powi e \<le> frac_val p q"
      unfolding m_def by (intro round_div_ge [OF q']) (use that in \<open>simp add: scaled_frac field_simps\<close>)
    then show ?thesis using b(3) by blast
  qed
  with m b(1) False show ?thesis
    unfolding round_double_def Let_def e_def [symmetric] m_def [symmetric] by auto
qed

text \<open>Two fractions of the same value round alike.\<close>

lemma round_double_cong:
  assumes "0 < q" and "0 < q'" and "frac_val p q = frac_val p' q'"
  shows "round_double s p q = round_double s p' q'"
proof (cases "p = 0")
  case True
  then have "p' = 0" using assms by (auto simp: frac_val_def)
  with True show ?thesis by (simp add: round_double_def Let_def)
next
  case False
  then have "0 < frac_val p' q'" using assms(1) by (simp flip: assms(3))
  then have p: "0 < p" "0 < p'" using False by (auto simp: frac_val_def intro: gr0I)
  define e where "e = result_exp p q"
  note b = result_exp_bounds [OF p(1) assms(1) e_def]
  have e': "result_exp p' q' = e"
    using b assms(3) by (intro result_exp_unique) (use p assms in auto)
  have "round_div (p * 2 ^ nat (- e)) (q * 2 ^ nat e) = round_div (p' * 2 ^ nat (- e)) (q' * 2 ^ nat e)"
  proof -
    let ?a = "p * 2 ^ nat (- e)" and ?b = "q * 2 ^ nat e" and ?c = "p' * 2 ^ nat (- e)" and ?d = "q' * 2 ^ nat e"
    have "real p * real q' = real p' * real q"
      using assms by (simp add: frac_val_def field_simps)
    then have pq: "p * q' = p' * q" by (metis of_nat_eq_iff of_nat_mult)
    have "?a * q' = (p * q') * 2 ^ nat (- e)" "?c * q = (p' * q) * 2 ^ nat (- e)" by (simp_all add: ac_simps)
    then have cross: "?a * q' = ?c * q" using pq by simp
    have r: "round_div (a * k) (b * k) = round_div a b" if "0 < k" for a b k :: nat
    proof -
      have "a * k mod (b * k) = a mod b * k" by (simp add: mod_mult_mult2)
      moreover have "a * k div (b * k) = a div b" using that by simp
      moreover have "2 * (a mod b * k) < b * k \<longleftrightarrow> 2 * (a mod b) < b"
        using that by (metis mult.assoc mult_less_cancel2)
      moreover have "2 * (a mod b * k) = b * k \<longleftrightarrow> 2 * (a mod b) = b"
        using that by (metis mult.assoc mult_right_cancel neq0_conv)
      ultimately show ?thesis by (simp add: round_div_def Let_def)
    qed
    have "round_div ?a ?b = round_div (?a * q') (?b * q')" using r [OF assms(2)] by simp
    also have "\<dots> = round_div (?c * q) (?b * q')" by (simp only: cross)
    also have "?b * q' = ?d * q" by (simp add: ac_simps)
    also have "round_div (?c * q) (?d * q) = round_div ?c ?d" using r [OF assms(1)] by simp
    finally show ?thesis .
  qed
  with e' p show ?thesis unfolding round_double_def Let_def e_def by simp
qed

lemma round_double_sign: "(\<exists>m e. round_double s p q = Fin s m e) \<or> round_double s p q = Inf s"
  by (simp add: round_double_def Let_def split_beta)

section \<open>Significant decimal digits\<close>

lemma dec_up_bounds:
  assumes "0 < q" and "q \<le> p"
  shows "q * 10 ^ dec_up p q \<le> p \<and> p < q * 10 ^ Suc (dec_up p q)"
  using assms
proof (induction p q rule: dec_up.induct)
  case (1 p q)
  show ?case
  proof (cases "p < 10 * q")
    case True
    with 1 show ?thesis by (simp add: dec_up.simps [of p q])
  next
    case False
    with 1 have "10 * q * 10 ^ dec_up p (10 * q) \<le> p \<and> p < 10 * q * 10 ^ Suc (dec_up p (10 * q))" by simp
    with False 1(2) show ?thesis by (simp add: dec_up.simps [of p q] ac_simps)
  qed
qed

lemma dec_down_bounds:
  assumes "0 < p" and "p < q"
  shows "q \<le> p * 10 ^ dec_down p q \<and> p * 10 ^ dec_down p q < 10 * q"
  using assms
proof (induction p q rule: dec_down.induct)
  case (1 p q)
  have u: "dec_down p q = Suc (dec_down (10 * p) q)" using 1(2,3) by (simp add: dec_down.simps [of p q])
  show ?case
  proof (cases "10 * p < q")
    case True
    with 1 have "q \<le> 10 * p * 10 ^ dec_down (10 * p) q \<and> 10 * p * 10 ^ dec_down (10 * p) q < 10 * q" by simp
    with u show ?thesis by (simp add: ac_simps)
  next
    case False
    with u 1(3) show ?thesis by (simp add: dec_down.simps [of "10 * p" q])
  qed
qed

lemma dec_exp_bounds:
  assumes "0 < p" and "0 < q"
  shows "10 powi dec_exp p q \<le> frac_val p q" and "frac_val p q < 10 * 10 powi dec_exp p q"
proof -
  have "10 powi dec_exp p q \<le> frac_val p q \<and> frac_val p q < 10 * 10 powi dec_exp p q"
  proof (cases "q \<le> p")
    case True
    from dec_up_bounds [OF assms(2) True]
    have "real (q * 10 ^ dec_up p q) \<le> real p \<and> real p < real (q * 10 ^ Suc (dec_up p q))"
      by (simp only: of_nat_le_iff of_nat_less_iff)
    with True assms show ?thesis by (simp add: dec_exp_def frac_val_def field_simps)
  next
    case False
    from dec_down_bounds [OF assms(1)] False
    have "real q \<le> real (p * 10 ^ dec_down p q) \<and> real (p * 10 ^ dec_down p q) < real (10 * q)"
      by (simp only: of_nat_le_iff of_nat_less_iff)
    with False assms show ?thesis
      by (simp add: dec_exp_def frac_val_def power_int_minus field_simps)
  qed
  then show "10 powi dec_exp p q \<le> frac_val p q" "frac_val p q < 10 * 10 powi dec_exp p q" by auto
qed

text \<open>
  \<open>significant P\<close> yields exactly \<open>P\<close> digits and misses the value by at most half a unit of the
  last of them.
\<close>

lemma significant_bounds:
  assumes "0 < p" and "0 < q" and "0 < P" and "significant P p q = (n, x)"
  shows "10 ^ (P - 1) \<le> n" and "n < 10 ^ P"
    and "\<bar>real n * 10 powi (x - int P + 1) - frac_val p q\<bar> \<le> 10 powi (dec_exp p q - int P + 1) / 2"
    and "x = dec_exp p q \<or> x = dec_exp p q + 1"
proof -
  define X where "X = dec_exp p q"
  define k where "k = int P - 1 - X"
  define a where "a = p * 10 ^ nat k"
  define b where "b = q * 10 ^ nat (- k)"
  define r where "r = round_div a b"
  have b: "0 < b" using assms(2) by (simp add: b_def)
  have ab: "frac_val a b = frac_val p q * 10 powi k" unfolding a_def b_def by (rule scaled_frac10)
  have pk: "(10::real) powi k * 10 powi X = 10 ^ (P - 1)"
  proof -
    have "(10::real) powi k * 10 powi X = 10 powi (k + X)" by (simp add: power_int_add)
    also have "k + X = int (P - 1)" using assms(3) by (simp add: k_def of_nat_diff)
    finally show ?thesis by simp
  qed
  have pos: "(0::real) < 10 powi k" by simp
  have "10 powi X * 10 powi k \<le> frac_val p q * 10 powi k"
    using dec_exp_bounds(1) [OF assms(1,2)] by (intro mult_right_mono) (simp_all add: X_def)
  then have lo: "real (10 ^ (P - 1)) \<le> frac_val a b" using pk by (simp add: ab mult.commute [of "10 powi X"])
  have "frac_val p q * 10 powi k < 10 * 10 powi X * 10 powi k"
    using dec_exp_bounds(2) [OF assms(1,2)] by (intro mult_strict_right_mono) (simp_all add: X_def)
  also have "\<dots> = 10 * 10 ^ (P - 1)" using pk by (simp add: mult.commute)
  also have "\<dots> = 10 ^ P" using assms(3) by (metis power_minus_mult mult.commute)
  finally have hi: "frac_val a b \<le> real (10 ^ P)" by (simp add: ab)
  have r: "10 ^ (P - 1) \<le> r" "r \<le> 10 ^ P"
    unfolding r_def by (rule round_div_ge [OF b lo], rule round_div_le [OF b hi])
  have nx: "(n, x) = (if r = 10 ^ P then (10 ^ (P - 1), X + 1) else (r, X))"
    using assms(4) unfolding significant_def Let_def r_def a_def b_def k_def X_def by simp
  have t: "(10::nat) ^ P = 10 * 10 ^ (P - 1)" using assms(3) by (metis power_minus_mult mult.commute)
  show "10 ^ (P - 1) \<le> n" using nx r by (auto split: if_splits)
  show "n < 10 ^ P" using nx r t by (auto split: if_splits)
  show "x = dec_exp p q \<or> x = dec_exp p q + 1" using nx by (auto simp: X_def split: if_splits)
  have val: "real n * 10 powi (x - int P + 1) = real r * 10 powi (- k)"
  proof (cases "r = 10 ^ P")
    case True
    then have "n = 10 ^ (P - 1)" "x = X + 1" using nx by simp_all
    moreover have e1: "x - int P + 1 = 1 + (- k)" using \<open>x = X + 1\<close> by (simp add: k_def)
    have "(10::real) powi (x - int P + 1) = 10 * 10 powi (- k)"
      unfolding e1 by (subst power_int_add) simp_all
    ultimately show ?thesis using True t by simp
  next
    case False
    then have "n = r" "x = X" using nx by simp_all
    then show ?thesis by (simp add: k_def algebra_simps)
  qed
  have kk: "(10::real) powi k * 10 powi (- k) = 1" by (simp add: power_int_minus)
  have "\<bar>real r - frac_val a b\<bar> \<le> 1 / 2" unfolding r_def by (rule round_div_near [OF b])
  then have "\<bar>real r - frac_val a b\<bar> * 10 powi (- k) \<le> 1 / 2 * 10 powi (- k)"
    by (intro mult_right_mono) simp_all
  moreover have "\<bar>real r - frac_val a b\<bar> * 10 powi (- k) = \<bar>real r * 10 powi (- k) - frac_val p q\<bar>"
  proof -
    have "real r * 10 powi (- k) - frac_val p q = (real r - frac_val a b) * 10 powi (- k)"
      unfolding ab left_diff_distrib using kk by (simp add: mult.assoc)
    then show ?thesis by (simp add: abs_mult)
  qed
  moreover have e2: "dec_exp p q - int P + 1 = - k" by (simp add: k_def X_def)
  ultimately show "\<bar>real n * 10 powi (x - int P + 1) - frac_val p q\<bar> \<le> 10 powi (dec_exp p q - int P + 1) / 2"
    unfolding val e2 by linarith
qed

text \<open>
  17 digits identify a double: reading back the rounded decimal yields the double it was made of,
  because \<open>2 ^ 53 < 10 ^ 16\<close>.
\<close>

lemma seventeen_digits_suffice:
  assumes wf: "wf_double (Fin s m e)" and m: "0 < m"
    and sig: "significant 17 (num2 m e) (den2 e) = (n, x)"
    and pq: "0 < q" "frac_val p q = real n * 10 powi (x - 16)"
  shows "round_double s p q = Fin s m e"
proof -
  let ?v = "real m * 2 powi e"
  have v: "frac_val (num2 m e) (den2 e) = ?v" by (rule num2_val)
  have pos: "0 < num2 m e" "0 < den2 e" using m by simp_all
  define X where "X = dec_exp (num2 m e) (den2 e)"
  have xb: "10 powi X \<le> ?v" using dec_exp_bounds(1) [OF pos] by (simp add: v X_def)
  note sb = significant_bounds [OF pos _ sig, unfolded v X_def [symmetric]]
  have d0: "\<bar>frac_val p q - ?v\<bar> \<le> 10 powi (X - 16) / 2" using sb(3) pq(2) by simp
  have "10 powi X = 10 powi (X - 16) * (10::real) ^ 16"
  proof -
    have "(10::real) powi X = 10 powi ((X - 16) + 16)" by simp
    also have "\<dots> = 10 powi (X - 16) * 10 powi 16" by (subst power_int_add) simp_all
    finally show ?thesis by simp
  qed
  then have d: "\<bar>frac_val p q - ?v\<bar> * 20000000000000000 \<le> ?v" using d0 xb by (simp add: field_simps)
  have wpos: "(0::real) < 2 powi e" by simp
  have near: "\<bar>frac_val p q - ?v\<bar> < 2 powi e / 2"
  proof -
    have "real m < 2 ^ 53" using wf by (metis of_nat_less_iff of_nat_numeral of_nat_power wf_double.simps(1))
    then have "?v < 2 ^ 53 * 2 powi e" using wpos by (intro mult_strict_right_mono)
    then have "?v < 9007199254740992 * 2 powi e" by simp
    with d wpos show ?thesis by argo
  qed
  have low: "?v - frac_val p q < 2 powi e / 4" if "m = 2 ^ 52"
  proof -
    have "\<bar>frac_val p q - ?v\<bar> * 20000000000000000 \<le> 2 ^ 52 * 2 powi e" using d that by simp
    then have "152587890625 * \<bar>frac_val p q - ?v\<bar> \<le> 34359738368 * 2 powi e" by simp
    moreover have "?v - frac_val p q \<le> \<bar>frac_val p q - ?v\<bar>" by linarith
    moreover have "152587890625 * t \<le> 34359738368 * w \<Longrightarrow> y \<le> t \<Longrightarrow> 0 < w \<Longrightarrow> y < w / 4" for t w y :: real
      by linarith
    ultimately show ?thesis using wpos by blast
  qed
  have "0 < n" using sb(1) by (simp add: less_le_trans [OF zero_less_power])
  then have "0 < frac_val p q" using pq(2) by simp
  then have "0 < p" by (auto simp: frac_val_def intro: gr0I)
  from round_double_near [OF this pq(1) wf m near low] show ?thesis .
qed

section \<open>The text of a number\<close>

definition digits :: "string \<Rightarrow> bool" where
  "digits s \<longleftrightarrow> list_all is_digit s"

lemma digits_simps [simp]:
  "digits []" "digits (c # s) \<longleftrightarrow> is_digit c \<and> digits s" "digits (s @ t) \<longleftrightarrow> digits s \<and> digits t"
  "digits (rev s) = digits s"
  by (auto simp: digits_def)

lemma digits_show_nat [simp]: "digits (show_nat n)"
  using show_nat_digits by (simp add: digits_def list_all_iff)

lemma digits_take_drop: "digits s \<Longrightarrow> digits (take k s) \<and> digits (drop k s)"
  by (metis append_take_drop_id digits_simps(3))

lemma digits_val_append: "digits_val (s @ t) = digits_val s * 10 ^ length t + digits_val t"
proof (induction t rule: rev_induct)
  case (snoc c t)
  then show ?case
    by (simp flip: append_assoc add: algebra_simps)
qed simp

lemma char_digit_zero [simp]: "char_digit (CHR ''0'') = 0"
  by (simp add: char_digit_def)

lemma is_digit_zero [simp]: "is_digit (CHR ''0'')"
  by (simp add: is_digit_def)

lemma digits_val_zeros: "digits_val (replicate k (CHR ''0'')) = 0"
  by (induction k) (simp_all add: digits_val_def)

lemma digits_replicate: "digits (replicate k (CHR ''0''))"
  by (induction k) simp_all

lemma length_show_nat:
  assumes "10 ^ (P - 1) \<le> n" and "n < 10 ^ P" and "0 < P"
  shows "length (show_nat n) = P"
  using assms
proof (induction n arbitrary: P rule: show_nat.induct)
  case (1 n)
  show ?case
  proof (cases "n < 10")
    case True
    have "P = 1"
    proof (rule ccontr)
      assume "P \<noteq> 1"
      then have "(10::nat) ^ 1 \<le> 10 ^ (P - 1)" using 1(4) by (intro power_increasing) simp_all
      with True 1(2) show False by simp
    qed
    with True show ?thesis by (simp add: show_nat.simps [of n])
  next
    case False
    have "1 < P"
    proof (rule ccontr)
      assume "\<not> 1 < P"
      then have "P = 1" using 1(4) by simp
      with 1(3) False show False by simp
    qed
    then obtain Q where Q: "P = Suc Q" "0 < Q" by (cases P) auto
    have "10 ^ (Q - 1) \<le> n div 10"
    proof -
      have "10 ^ Q \<le> n" using 1(2) Q by simp
      moreover have "(10::nat) ^ Q = 10 * 10 ^ (Q - 1)" using Q(2) by (metis power_minus_mult mult.commute)
      ultimately show ?thesis by simp
    qed
    moreover have "n div 10 < 10 ^ Q" using 1(3) Q by (simp add: less_mult_imp_div_less)
    ultimately have "length (show_nat (n div 10)) = Q" using 1(1) [OF False, of Q] Q(2) by blast
    with False Q show ?thesis by (simp add: show_nat.simps [of n])
  qed
qed

text \<open>Trailing zeros of a fraction do not count.\<close>

lemma strip_zeros_split: "\<exists>k. s = strip_zeros s @ replicate k (CHR ''0'')"
proof -
  let ?z = "\<lambda>c. c = CHR ''0''"
  have t: "takeWhile ?z (rev s) = replicate (length (takeWhile ?z (rev s))) (CHR ''0'')"
    by (rule replicate_length_same [symmetric]) (auto dest: set_takeWhileD)
  have "rev (rev s) = rev (dropWhile ?z (rev s)) @ rev (takeWhile ?z (rev s))"
    by (simp flip: rev_append)
  then have "s = strip_zeros s @ replicate (length (takeWhile ?z (rev s))) (CHR ''0'')"
    unfolding strip_zeros_def by (subst (asm) t) simp
  then show ?thesis ..
qed

lemma strip_zeros_value:
  "real (digits_val (ip @ strip_zeros fp)) * 10 powi (y - int (length (strip_zeros fp))) =
   real (digits_val (ip @ fp)) * 10 powi (y - int (length fp))"
proof -
  obtain k where k: "fp = strip_zeros fp @ replicate k (CHR ''0'')" using strip_zeros_split by blast
  define g where "g = strip_zeros fp"
  have fp: "fp = g @ replicate k (CHR ''0'')" using k by (simp add: g_def)
  have "(10::real) powi (y - int (length fp)) * 10 ^ k = 10 powi (y - int (length g))"
  proof -
    have "(10::real) powi (y - int (length fp)) * 10 ^ k = 10 powi (y - int (length fp)) * 10 powi int k" by simp
    also have "\<dots> = 10 powi ((y - int (length fp)) + int k)" by (subst power_int_add) simp_all
    finally show ?thesis by (simp add: fp)
  qed
  moreover have "digits_val (ip @ fp) = digits_val (ip @ g) * 10 ^ k"
    using digits_val_append [of "ip @ g" "replicate k (CHR ''0'')"] by (simp add: fp digits_val_zeros)
  ultimately show ?thesis unfolding g_def [symmetric] by (simp add: mult.assoc) (simp add: mult.commute)
qed

lemma strip_zeros_digits [simp]: "digits s \<Longrightarrow> digits (strip_zeros s)"
  using strip_zeros_split [of s] by (metis digits_simps(3))

lemma length_strip_zeros: "length (strip_zeros s) \<le> length s"
  by (simp add: strip_zeros_def) (metis length_dropWhile_le length_rev)

definition exp_text :: "int option \<Rightarrow> string" where
  "exp_text x = (case x of None \<Rightarrow> [] | Some y \<Rightarrow> show_exponent y)"

definition exp_val :: "int option \<Rightarrow> int" where
  "exp_val x = (case x of None \<Rightarrow> 0 | Some y \<Rightarrow> y)"

definition numeral_text :: "bool \<Rightarrow> string \<Rightarrow> string \<Rightarrow> int option \<Rightarrow> string" where
  "numeral_text neg ip fp x =
     (if neg then ''-'' else []) @ ip @ (if fp = [] then [] else CHR ''.'' # fp) @ exp_text x"

text \<open>What can follow a numeral without being read as a part of it.\<close>

definition stops :: "string \<Rightarrow> bool" where
  "stops s \<longleftrightarrow> (case s of [] \<Rightarrow> True | c # _ \<Rightarrow> \<not> is_digit c \<and> c \<notin> {CHR ''.'', CHR ''e'', CHR ''E''})"

lemma take_drop_digits:
  assumes "digits ds" and "\<not> is_digit (hd t) \<or> t = []"
  shows "takeWhile is_digit (ds @ t) = ds" and "dropWhile is_digit (ds @ t) = t"
  using assms by (induction ds) (cases t; simp)+

lemma stops_hd: "stops s \<Longrightarrow> \<not> is_digit (hd s) \<or> s = []"
  by (cases s) (auto simp: stops_def)

lemma not_digit [simp]: "\<not> is_digit (CHR ''.'')" "\<not> is_digit (CHR ''e'')" "\<not> is_digit (CHR ''E'')"
    "\<not> is_digit (CHR ''-'')" "\<not> is_digit (CHR ''+'')"
  by (simp_all add: is_digit_def)

lemma show_exponent_shape:
  "\<exists>ds. show_exponent y = CHR ''e'' # (if y < 0 then CHR ''-'' else CHR ''+'') # ds \<and> digits ds \<and> ds \<noteq> [] \<and>
        digits_val ds = nat \<bar>y\<bar>"
proof -
  have "digits_val (CHR ''0'' # s) = digits_val s" for s
    using digits_val_append [of "''0''" s] by (simp add: digits_val_def)
  then show ?thesis by (auto simp: show_exponent_def Let_def)
qed

lemma strip_exponent_text:
  assumes "stops rest"
  shows "strip_exponent (exp_text x @ rest) = (exp_val x, rest)"
proof (cases x)
  case None
  with assms show ?thesis
    by (cases rest) (auto simp: exp_text_def exp_val_def strip_exponent_def stops_def)
next
  case (Some y)
  obtain ds where ds: "show_exponent y = CHR ''e'' # (if y < 0 then CHR ''-'' else CHR ''+'') # ds"
      "digits ds" "ds \<noteq> []" "digits_val ds = nat \<bar>y\<bar>"
    using show_exponent_shape by blast
  have "takeWhile is_digit (ds @ rest) = ds" by (rule take_drop_digits [OF ds(2) stops_hd [OF assms]])
  with ds Some show ?thesis
    by (auto simp: exp_text_def exp_val_def strip_exponent_def strip_sign_def Let_def)
qed

lemma exp_text_stop: "stops rest \<Longrightarrow> \<not> is_digit (hd (exp_text x @ rest)) \<or> exp_text x @ rest = []"
  using stops_hd [of rest] by (auto simp: exp_text_def show_exponent_def Let_def split: option.split)

lemma exp_text_no_point: "stops rest \<Longrightarrow> exp_text x @ rest = c # t \<Longrightarrow> c \<noteq> CHR ''.''"
  by (auto simp: exp_text_def show_exponent_def Let_def stops_def split: option.splits)

text \<open>\<open>strtod\<close> reads a numeral up to its end.\<close>

lemma strtod_text:
  assumes "digits ip" and "ip \<noteq> []" and "digits fp" and "stops rest"
  shows "strtod (numeral_text neg ip fp x @ rest) =
    Some (round_double neg (digits_val (ip @ fp) * 10 ^ nat (exp_val x - int (length fp)))
            (10 ^ nat (- (exp_val x - int (length fp)))), rest)"
proof -
  have sgn: "strip_sign (numeral_text neg ip fp x @ rest) =
      (neg, ip @ (if fp = [] then [] else CHR ''.'' # fp) @ exp_text x @ rest)"
    using assms(1,2) by (cases ip) (auto simp: numeral_text_def strip_sign_def)
  let ?t = "(if fp = [] then [] else CHR ''.'' # fp) @ exp_text x @ rest"
  have t: "\<not> is_digit (hd ?t) \<or> ?t = []" using exp_text_stop [OF assms(4)] by auto
  note ip = take_drop_digits [OF assms(1) t]
  note fp = take_drop_digits [OF assms(3) exp_text_stop [OF assms(4)]]
  have s3: "(case ?t of [] \<Rightarrow> ([], ?t)
      | c # u \<Rightarrow> if c = CHR ''.'' then (takeWhile is_digit u, dropWhile is_digit u) else ([], ?t)) =
      (fp, exp_text x @ rest)"
  proof (cases "fp = []")
    case True
    then show ?thesis using exp_text_no_point [OF assms(4), of x]
      by (cases "exp_text x @ rest") auto
  next
    case False
    then show ?thesis using fp by simp
  qed
  have "strtod (numeral_text neg ip fp x @ rest) =
     (let (y, s4) = strip_exponent (exp_text x @ rest); k = y - int (length fp)
      in Some (round_double neg (digits_val (ip @ fp) * 10 ^ nat k) (10 ^ nat (- k)), s4))"
    using assms(2) unfolding strtod_def sgn Let_def prod.case ip s3 by simp
  then show ?thesis by (simp add: strip_exponent_text [OF assms(4)] Let_def)
qed

section \<open>What \<open>%g\<close> prints\<close>

lemma with_fraction_text:
  "with_fraction ip fp @ exp_text x = numeral_text False ip (strip_zeros fp) x"
  by (simp add: with_fraction_def numeral_text_def Let_def)

lemma text_sign: "(if s then ''-'' else []) @ numeral_text False ip fp x = numeral_text s ip fp x"
  by (simp add: numeral_text_def)

text \<open>
  The digits of a fixed or scientific rendering denote the rounded number, whichever notation is
  chosen, and the rendering has at most \<open>P + 5\<close> characters in fixed notation.
\<close>

lemma format_digits_text:
  assumes "10 ^ (P - 1) \<le> n" and "n < 10 ^ P" and "0 < P"
  shows "\<exists>ip fp xo. format_digits P n x = numeral_text False ip fp xo \<and> digits ip \<and> digits fp \<and> ip \<noteq> [] \<and>
     real (digits_val (ip @ fp)) * 10 powi (exp_val xo - int (length fp)) = real n * 10 powi (x - int P + 1) \<and>
     length ip + length fp \<le> P + (if xo = None then 4 else 0) \<and> (xo = None \<or> xo = Some x)"
proof -
  define ds where "ds = show_nat n"
  have ds: "length ds = P" "digits ds" "digits_val ds = n"
    using length_show_nat [OF assms] by (simp_all add: ds_def)
  have td: "digits (take k ds)" "digits (drop k ds)" for k using digits_take_drop ds(2) by blast+
  have lz: "length (strip_zeros fp) \<le> length fp" for fp by (rule length_strip_zeros)
  show ?thesis
  proof (cases "- 4 \<le> x \<and> x < int P")
    case fixed: True
    show ?thesis
    proof (cases "0 \<le> x")
      case True
      let ?ip = "take (nat x + 1) ds" and ?fp = "drop (nat x + 1) ds"
      have k: "nat x + 1 \<le> P" using True fixed by linarith
      have "format_digits P n x = numeral_text False ?ip (strip_zeros ?fp) None"
        using fixed True with_fraction_text [of ?ip ?fp None]
        by (simp add: format_digits_def Let_def ds_def exp_text_def)
      moreover have "real (digits_val (?ip @ strip_zeros ?fp)) * 10 powi (0 - int (length (strip_zeros ?fp))) =
          real n * 10 powi (x - int P + 1)"
      proof -
        have "- int (length ?fp) = x - int P + 1" using True k ds(1) by simp
        then show ?thesis unfolding strip_zeros_value by (simp add: ds(3))
      qed
      moreover have "?ip \<noteq> []" using ds(1) assms(3) by auto
      moreover have "length ?ip + length (strip_zeros ?fp) \<le> P + 4" using lz [of ?fp] ds(1) k by simp
      ultimately show ?thesis using td by (intro exI [of _ ?ip] exI [of _ "strip_zeros ?fp"] exI [of _ None])
        (simp add: exp_val_def)
    next
      case False
      let ?fp = "replicate (nat (- x) - 1) (CHR ''0'') @ ds"
      have "format_digits P n x = numeral_text False ''0'' (strip_zeros ?fp) None"
        using fixed False with_fraction_text [of "''0''" ?fp None]
        by (simp add: format_digits_def Let_def ds_def exp_text_def)
      moreover have "real (digits_val (''0'' @ strip_zeros ?fp)) * 10 powi (0 - int (length (strip_zeros ?fp))) =
          real n * 10 powi (x - int P + 1)"
      proof -
        have "int (length ?fp) = - x - 1 + int P" using False ds(1) by simp
        then have l: "0 - int (length ?fp) = x - int P + 1" by linarith
        have "''0'' @ ?fp = replicate (Suc (nat (- x) - 1)) (CHR ''0'') @ ds" by simp
        then have "digits_val (''0'' @ ?fp) = n"
          by (simp only: digits_val_append digits_val_zeros ds(3))
        then show ?thesis unfolding strip_zeros_value l by simp
      qed
      moreover have "1 + length (strip_zeros ?fp) \<le> P + 4" using lz [of ?fp] ds(1) fixed False by simp
      moreover have "digits (strip_zeros ?fp)" using ds(2) digits_replicate by simp
      ultimately show ?thesis by (intro exI [of _ "''0''"] exI [of _ "strip_zeros ?fp"] exI [of _ None])
        (simp add: exp_val_def)
    qed
  next
    case False
    let ?ip = "take 1 ds" and ?fp = "drop 1 ds"
    have "format_digits P n x = numeral_text False ?ip (strip_zeros ?fp) (Some x)"
      using False with_fraction_text [of ?ip ?fp "Some x"]
      by (auto simp: format_digits_def Let_def ds_def exp_text_def)
    moreover have "real (digits_val (?ip @ strip_zeros ?fp)) * 10 powi (x - int (length (strip_zeros ?fp))) =
        real n * 10 powi (x - int P + 1)"
    proof -
      have l: "x - int (length ?fp) = x - int P + 1" using assms(3) ds(1) by simp
      show ?thesis unfolding strip_zeros_value l append_take_drop_id ds(3) ..
    qed
    moreover have "?ip \<noteq> []" using ds(1) assms(3) by auto
    moreover have "length ?ip + length (strip_zeros ?fp) \<le> P" using lz [of ?fp] ds(1) assms(3) by simp
    ultimately show ?thesis using td by (intro exI [of _ ?ip] exI [of _ "strip_zeros ?fp"] exI [of _ "Some x"])
      (simp add: exp_val_def)
  qed
qed

text \<open>The decimal exponents of the doubles.\<close>

lemma dec_exp_range:
  assumes "wf_double (Fin s m e)" and "0 < m"
  shows "- 324 \<le> dec_exp (num2 m e) (den2 e)" and "dec_exp (num2 m e) (den2 e) \<le> 308"
proof -
  define X where "X = dec_exp (num2 m e) (den2 e)"
  have b: "10 powi X \<le> real m * 2 powi e" "real m * 2 powi e < 10 * 10 powi X"
    using dec_exp_bounds [of "num2 m e" "den2 e"] assms(2) by (simp_all add: num2_val X_def)
  have m: "real m < 2 ^ 53" using assms(1) by (metis of_nat_less_iff of_nat_numeral of_nat_power wf_double.simps(1))
  have "real m * 2 powi e < 2 ^ 53 * 2 powi 971"
    using m assms(1) by (intro mult_less_le_imp_less power_int_increasing) auto
  also have "\<dots> = (2::real) ^ 1024" by (simp add: power_int_def flip: power_add)
  also have "\<dots> < 10 ^ 309" by simp
  finally have "10 powi X < (10::real) powi 309" using b(1) by (simp only: power_int_numeral)
  then have "X < 309" using powi_less_iff [of 10 X 309] by (simp del: power_int_numeral)
  then show "dec_exp (num2 m e) (den2 e) \<le> 308" by (simp add: X_def)
  have "(10::real) powi (- 324) < 2 powi (- 1074)" by (simp add: power_int_minus power_int_def field_simps)
  also have "\<dots> \<le> 2 powi e" using assms(1) by (intro power_int_increasing) simp_all
  also have "\<dots> \<le> real m * 2 powi e" using assms(2) mult_right_mono [of 1 "real m" "2 powi e"] by simp
  finally have "(10::real) powi (- 324) < 10 * 10 powi X" using b(2) by linarith
  also have "\<dots> = 10 powi (X + 1)" by (simp add: power_int_add)
  finally have "(10::real) powi (- 324) < 10 powi (X + 1)" .
  then have "- 324 < X + 1" by (subst (asm) powi_less_iff) simp_all
  then show "- 324 \<le> dec_exp (num2 m e) (den2 e)" by (simp add: X_def)
qed

lemma length_show_exponent:
  assumes "- 999 \<le> y" and "y \<le> 999"
  shows "length (show_exponent y) \<le> 5"
proof -
  have "length (show_nat n) \<le> 3" if "n < 1000" for n
  proof -
    consider "n < 10" | "10 \<le> n" "n < 100" | "100 \<le> n" by linarith
    then show ?thesis
    proof cases
      case 1
      then show ?thesis by (simp add: show_nat.simps [of n])
    next
      case 2
      then show ?thesis using length_show_nat [of 2 n] by simp
    next
      case 3
      then show ?thesis using length_show_nat [of 3 n] that by simp
    qed
  qed
  from this [of "nat \<bar>y\<bar>"] assms show ?thesis by (simp add: show_exponent_def Let_def)
qed

text \<open>A finite double prints as a numeral of at most \<open>P + 7\<close> characters.\<close>

lemma format_g_text:
  assumes "wf_double (Fin s m e)" and "1 < P"
  shows "\<exists>ip fp xo. format_g P (Fin s m e) = numeral_text s ip fp xo \<and> digits ip \<and> digits fp \<and> ip \<noteq> [] \<and>
     (0 < m \<longrightarrow> (\<exists>n x. significant P (num2 m e) (den2 e) = (n, x) \<and>
        real (digits_val (ip @ fp)) * 10 powi (exp_val xo - int (length fp)) = real n * 10 powi (x - int P + 1))) \<and>
     (m = 0 \<longrightarrow> digits_val (ip @ fp) = 0) \<and> length (format_g P (Fin s m e)) \<le> P + 7"
proof (cases "m = 0")
  case True
  then have "format_g P (Fin s m e) = numeral_text s ''0'' [] None"
    by (simp add: numeral_text_def exp_text_def)
  moreover have "digits_val (''0'' @ []) = 0" by (simp add: digits_val_def)
  moreover have "length (numeral_text s ''0'' [] None) \<le> P + 7" by (simp add: numeral_text_def exp_text_def)
  ultimately show ?thesis using True
    by (intro exI [of _ "''0''"] exI [of _ "[]"] exI [of _ None]) simp
next
  case False
  then have m: "0 < m" by simp
  obtain n x where sig: "significant P (num2 m e) (den2 e) = (n, x)" by force
  have pos: "0 < num2 m e" "0 < den2 e" using m by simp_all
  have P: "0 < P" using assms(2) by simp
  note sb = significant_bounds [OF pos P sig]
  obtain ip fp xo where t: "format_digits P n x = numeral_text False ip fp xo" "digits ip" "digits fp" "ip \<noteq> []"
    "real (digits_val (ip @ fp)) * 10 powi (exp_val xo - int (length fp)) = real n * 10 powi (x - int P + 1)"
    "length ip + length fp \<le> P + (if xo = None then 4 else 0)" "xo = None \<or> xo = Some x"
    using format_digits_text [OF sb(1,2) P, of x] by blast
  have g: "format_g P (Fin s m e) = numeral_text s ip fp xo"
    using m sig t(1) text_sign [of s ip fp xo] by simp
  have "- 999 \<le> x \<and> x \<le> 999" using sb(4) dec_exp_range [OF assms(1) m] by linarith
  then have "length (exp_text xo) \<le> (if xo = None then 0 else 5)"
    using t(7) length_show_exponent [of x] by (auto simp: exp_text_def)
  then have "length (format_g P (Fin s m e)) \<le> P + 7"
    unfolding g using t(6) by (simp add: numeral_text_def split: if_splits)
  with g t sig m show ?thesis by blast
qed

lemma strtod_round_trip_zero: "round_double s 0 q = Fin s 0 (- 1074)"
  by (simp add: round_double_def Let_def)

text \<open>Reading the 17-digit text of a finite double yields the double, with its sign.\<close>

lemma strtod_format_17:
  assumes "wf_double (Fin s m e)" and "stops rest"
  shows "strtod (format_g 17 (Fin s m e) @ rest) = Some (Fin s m e, rest) \<or>
    (m = 0 \<and> strtod (format_g 17 (Fin s m e) @ rest) = Some (Fin s 0 (- 1074), rest))"
proof -
  obtain ip fp xo where t: "format_g 17 (Fin s m e) = numeral_text s ip fp xo" "digits ip" "digits fp" "ip \<noteq> []"
    "0 < m \<longrightarrow> (\<exists>n x. significant 17 (num2 m e) (den2 e) = (n, x) \<and>
       real (digits_val (ip @ fp)) * 10 powi (exp_val xo - int (length fp)) = real n * 10 powi (x - int 17 + 1))"
    "m = 0 \<longrightarrow> digits_val (ip @ fp) = 0"
    using format_g_text [OF assms(1), of 17] by auto
  define k where "k = exp_val xo - int (length fp)"
  define D where "D = digits_val (ip @ fp)"
  have r: "strtod (format_g 17 (Fin s m e) @ rest) = Some (round_double s (D * 10 ^ nat k) (10 ^ nat (- k)), rest)"
    unfolding t(1) k_def D_def by (rule strtod_text [OF t(2,4,3) assms(2)])
  show ?thesis
  proof (cases "m = 0")
    case True
    then show ?thesis using t(6) unfolding r D_def by (simp add: strtod_round_trip_zero)
  next
    case False
    then obtain n x where sig: "significant 17 (num2 m e) (den2 e) = (n, x)"
      and v: "real D * 10 powi k = real n * 10 powi (x - 16)"
      using t(5) by (auto simp: D_def k_def)
    have "frac_val (D * 10 ^ nat k) (10 ^ nat (- k)) = real n * 10 powi (x - 16)"
      using scaled_frac10 [of D k 1] v by (simp add: frac_val_def)
    from seventeen_digits_suffice [OF assms(1) _ sig _ this] False show ?thesis unfolding r by simp
  qed
qed

lemma strtod_format_any:
  assumes "wf_double (Fin s m e)" and "1 < P" and "stops rest"
  shows "\<exists>d. strtod (format_g P (Fin s m e)) = Some (d, []) \<and>
    strtod (format_g P (Fin s m e) @ rest) = Some (d, rest)"
proof -
  obtain ip fp xo where t: "format_g P (Fin s m e) = numeral_text s ip fp xo" "digits ip" "digits fp" "ip \<noteq> []"
    using format_g_text [OF assms(1,2)] by blast
  show ?thesis
    using strtod_text [OF t(2,4,3), of "[]" s xo] strtod_text [OF t(2,4,3) assms(3), of s xo]
    unfolding t(1) by (simp add: stops_def)
qed

end
