(* ===== verification/Json_Data.thy ===== *)
theory Json_Data
  imports CDouble
begin

text \<open>
  src/libs/cJSON.c and cJSON.h, the data: items, the allocation hooks, construction and deletion
  of items, the type tests, the accessors and the additions to objects and arrays. An item is its
  own fields with the list of its children (\<open>next\<close> and \<open>prev\<close> are the order of that list; the
  operations that rewire the links are modelled on an explicit heap elsewhere). Every allocation asks the
  hooks, which may refuse, and the hooks count the live blocks, so a leak shows as a difference
  of the count.
\<close>

unbundle bit_operations_syntax

section \<open>Types of items\<close>

definition cJSON_Invalid :: int where "cJSON_Invalid = 0"
definition cJSON_False :: int where "cJSON_False = 1"
definition cJSON_True :: int where "cJSON_True = 2"
definition cJSON_NULL :: int where "cJSON_NULL = 4"
definition cJSON_Number :: int where "cJSON_Number = 8"
definition cJSON_String :: int where "cJSON_String = 16"
definition cJSON_Array :: int where "cJSON_Array = 32"
definition cJSON_Object :: int where "cJSON_Object = 64"
definition cJSON_Raw :: int where "cJSON_Raw = 128"
definition cJSON_IsReference :: int where "cJSON_IsReference = 256"
definition cJSON_StringIsConst :: int where "cJSON_StringIsConst = 512"

lemmas cJSON_types = cJSON_Invalid_def cJSON_False_def cJSON_True_def cJSON_NULL_def cJSON_Number_def
  cJSON_String_def cJSON_Array_def cJSON_Object_def cJSON_Raw_def cJSON_IsReference_def cJSON_StringIsConst_def

text \<open>\<open>item_name\<close> is the field \<open>string\<close>: the key of an item that stands in an object.\<close>

datatype cJSON = Item (type: int) (valuestring: "string option") (valueint: int) (valuedouble: double)
  (item_name: "string option") (child: "cJSON list")

fun set_type :: "int \<Rightarrow> cJSON \<Rightarrow> cJSON" where
  "set_type t (Item _ s i d k c) = Item t s i d k c"

fun set_valuestring :: "string option \<Rightarrow> cJSON \<Rightarrow> cJSON" where
  "set_valuestring s (Item t _ i d k c) = Item t s i d k c"

fun set_valueint :: "int \<Rightarrow> cJSON \<Rightarrow> cJSON" where
  "set_valueint i (Item t s _ d k c) = Item t s i d k c"

fun set_valuedouble :: "double \<Rightarrow> cJSON \<Rightarrow> cJSON" where
  "set_valuedouble d (Item t s i _ k c) = Item t s i d k c"

fun set_name :: "string option \<Rightarrow> cJSON \<Rightarrow> cJSON" where
  "set_name k (Item t s i d _ c) = Item t s i d k c"

fun set_child :: "cJSON list \<Rightarrow> cJSON \<Rightarrow> cJSON" where
  "set_child c (Item t s i d k _) = Item t s i d k c"

definition is_reference :: "cJSON \<Rightarrow> bool" where
  "is_reference item \<longleftrightarrow> type item AND cJSON_IsReference \<noteq> 0"

definition string_is_const :: "cJSON \<Rightarrow> bool" where
  "string_is_const item \<longleftrightarrow> type item AND cJSON_StringIsConst \<noteq> 0"

section \<open>Allocation\<close>

text \<open>
  The hooks: \<open>grants n\<close> tells whether the \<open>n\<close>-th allocation succeeds; \<open>asked\<close> counts the
  allocations made, \<open>live\<close> the blocks that were handed out and not given back;
  \<open>can_realloc\<close> whether the pointer \<open>reallocate\<close> is set.
\<close>

record hooks =
  grants :: "nat \<Rightarrow> bool"
  asked :: nat
  live :: int
  can_realloc :: bool

definition allocate :: "hooks \<Rightarrow> bool \<times> hooks" where
  "allocate h =
     (if grants h (asked h) then (True, h\<lparr>asked := Suc (asked h), live := live h + 1\<rparr>)
      else (False, h\<lparr>asked := Suc (asked h)\<rparr>))"

definition deallocate :: "hooks \<Rightarrow> hooks" where
  "deallocate h = h\<lparr>live := live h - 1\<rparr>"

definition cJSON_strdup :: "string option \<Rightarrow> hooks \<Rightarrow> string option \<times> hooks" where
  "cJSON_strdup str h =
     (case str of
        None \<Rightarrow> (None, h)
      | Some s \<Rightarrow> (case allocate h of (ok, h1) \<Rightarrow> (if ok then Some s else None, h1)))"

text \<open>
  \<open>cJSON_InitHooks\<close>: the functions in the three pointers, the C library's or the client's;
  \<open>reallocate\<close> is NULL (None) unless both others are the library's, also where the client
  itself names those.
\<close>

datatype hook = Libc | Client_Hook nat

record hook_table =
  allocate_fn :: hook
  deallocate_fn :: hook
  reallocate_fn :: "hook option"

definition cJSON_InitHooks :: "(hook option \<times> hook option) option \<Rightarrow> hook_table" where
  "cJSON_InitHooks new_hooks =
     (case new_hooks of
        None \<Rightarrow> \<lparr>allocate_fn = Libc, deallocate_fn = Libc, reallocate_fn = Some Libc\<rparr>
      | Some (malloc_fn, free_fn) \<Rightarrow>
          (let a = (case malloc_fn of None \<Rightarrow> Libc | Some f \<Rightarrow> f);
               d = (case free_fn of None \<Rightarrow> Libc | Some f \<Rightarrow> f)
           in \<lparr>allocate_fn = a, deallocate_fn = d,
               reallocate_fn = (if a = Libc \<and> d = Libc then Some Libc else None)\<rparr>))"

text \<open>The fresh item is all zeros.\<close>

definition cJSON_New_Item :: "hooks \<Rightarrow> cJSON option \<times> hooks" where
  "cJSON_New_Item h =
     (case allocate h of
        (ok, h1) \<Rightarrow> (if ok then Some (Item cJSON_Invalid None 0 (Fin False 0 (- 1074)) None []) else None, h1))"

text \<open>Deletes an item and its successors: here the list of them.\<close>

fun cJSON_Delete :: "cJSON list \<Rightarrow> hooks \<Rightarrow> hooks" where
  "cJSON_Delete [] h = h"
| "cJSON_Delete (Item t s i d k c # next) h =
     (let item = Item t s i d k c;
          h1 = (if \<not> is_reference item \<and> c \<noteq> [] then cJSON_Delete c h else h);
          h2 = (if \<not> is_reference item \<and> s \<noteq> None then deallocate h1 else h1);
          h3 = (if \<not> string_is_const item \<and> k \<noteq> None then deallocate h2 else h2)
      in cJSON_Delete next (deallocate h3))"

section \<open>Type tests\<close>

text \<open>A NULL item is None.\<close>

definition has_type :: "int \<Rightarrow> cJSON option \<Rightarrow> bool" where
  "has_type t item = (case item of None \<Rightarrow> False | Some i \<Rightarrow> type i AND 0xFF = t)"

definition cJSON_IsInvalid :: "cJSON option \<Rightarrow> bool" where "cJSON_IsInvalid = has_type cJSON_Invalid"
definition cJSON_IsFalse :: "cJSON option \<Rightarrow> bool" where "cJSON_IsFalse = has_type cJSON_False"
definition cJSON_IsTrue :: "cJSON option \<Rightarrow> bool" where "cJSON_IsTrue = has_type cJSON_True"
definition cJSON_IsNull :: "cJSON option \<Rightarrow> bool" where "cJSON_IsNull = has_type cJSON_NULL"
definition cJSON_IsNumber :: "cJSON option \<Rightarrow> bool" where "cJSON_IsNumber = has_type cJSON_Number"
definition cJSON_IsString :: "cJSON option \<Rightarrow> bool" where "cJSON_IsString = has_type cJSON_String"
definition cJSON_IsArray :: "cJSON option \<Rightarrow> bool" where "cJSON_IsArray = has_type cJSON_Array"
definition cJSON_IsObject :: "cJSON option \<Rightarrow> bool" where "cJSON_IsObject = has_type cJSON_Object"
definition cJSON_IsRaw :: "cJSON option \<Rightarrow> bool" where "cJSON_IsRaw = has_type cJSON_Raw"

definition cJSON_IsBool :: "cJSON option \<Rightarrow> bool" where
  "cJSON_IsBool item =
     (case item of None \<Rightarrow> False | Some i \<Rightarrow> type i AND (cJSON_True OR cJSON_False) \<noteq> 0)"

definition cJSON_GetStringValue :: "cJSON option \<Rightarrow> string option" where
  "cJSON_GetStringValue item =
     (if \<not> cJSON_IsString item then None else (case item of None \<Rightarrow> None | Some i \<Rightarrow> valuestring i))"

section \<open>Access\<close>

text \<open>The size is counted in a \<open>size_t\<close> and returned as an \<open>int\<close>.\<close>

definition cJSON_GetArraySize :: "cJSON option \<Rightarrow> int" where
  "cJSON_GetArraySize array =
     (case array of None \<Rightarrow> 0 | Some a \<Rightarrow> wrap32 (int (length (child a))))"

fun nth_child :: "cJSON list \<Rightarrow> nat \<Rightarrow> cJSON option" where
  "nth_child [] index = None"
| "nth_child (c # cs) 0 = Some c"
| "nth_child (c # cs) (Suc index) = nth_child cs index"

definition get_array_item :: "cJSON option \<Rightarrow> nat \<Rightarrow> cJSON option" where
  "get_array_item array index =
     (case array of None \<Rightarrow> None | Some a \<Rightarrow> nth_child (child a) index)"

definition cJSON_GetArrayItem :: "cJSON option \<Rightarrow> int \<Rightarrow> cJSON option" where
  "cJSON_GetArrayItem array index = (if index < 0 then None else get_array_item array (nat index))"

definition tolower :: "char \<Rightarrow> nat" where
  "tolower c = (let n = of_char c in if 65 \<le> n \<and> n \<le> (90::nat) then n + 32 else n)"

text \<open>
  The result of the comparison; a NULL argument makes it 1. Both strings end with a zero byte,
  which \<open>tolower\<close> keeps.
\<close>

fun casecmp :: "string \<Rightarrow> string \<Rightarrow> int" where
  "casecmp [] [] = 0"
| "casecmp [] (d # ds) = - int (tolower d)"
| "casecmp (c # cs) [] = int (tolower c)"
| "casecmp (c # cs) (d # ds) =
     (if tolower c = tolower d then casecmp cs ds else int (tolower c) - int (tolower d))"

definition case_insensitive_strcmp :: "string option \<Rightarrow> string option \<Rightarrow> int" where
  "case_insensitive_strcmp s1 s2 =
     (case (s1, s2) of (Some a, Some b) \<Rightarrow> casecmp a b | _ \<Rightarrow> 1)"

text \<open>
  The case-sensitive search compares with \<open>strcmp\<close>, which reads the name of every child it
  passes: a child without a name (an element of an array) is a NULL dereference.
\<close>

fun find_child :: "string \<Rightarrow> cJSON list \<Rightarrow> cJSON option outcome" where
  "find_child n [] = Ok None"
| "find_child n (c # cs) =
     (case item_name c of
        None \<Rightarrow> UB Null_Deref
      | Some k \<Rightarrow> if n = k then Ok (Some c) else find_child n cs)"

fun find_child_nocase :: "string \<Rightarrow> cJSON list \<Rightarrow> cJSON option" where
  "find_child_nocase n [] = None"
| "find_child_nocase n (c # cs) =
     (if case_insensitive_strcmp (Some n) (item_name c) = 0 then Some c else find_child_nocase n cs)"

definition get_object_item :: "cJSON option \<Rightarrow> string option \<Rightarrow> bool \<Rightarrow> cJSON option outcome" where
  "get_object_item object n case_sensitive =
     (case (object, n) of
        (Some ob, Some k) \<Rightarrow>
          if case_sensitive then find_child k (child ob) else Ok (find_child_nocase k (child ob))
      | _ \<Rightarrow> Ok None)"

definition cJSON_GetObjectItem :: "cJSON option \<Rightarrow> string option \<Rightarrow> cJSON option outcome" where
  "cJSON_GetObjectItem object n = get_object_item object n False"

definition cJSON_GetObjectItemCaseSensitive :: "cJSON option \<Rightarrow> string option \<Rightarrow> cJSON option outcome" where
  "cJSON_GetObjectItemCaseSensitive object n = get_object_item object n True"

definition cJSON_HasObjectItem :: "cJSON option \<Rightarrow> string option \<Rightarrow> bool outcome" where
  "cJSON_HasObjectItem object n =
     obind (cJSON_GetObjectItem object n) (\<lambda>r. Ok (r \<noteq> None))"

section \<open>Creation\<close>

text \<open>\<open>valueint\<close> saturates at the bounds of \<open>int\<close>; the cast of a NaN is undefined.\<close>

definition saturated_int :: "double \<Rightarrow> int outcome" where
  "saturated_int d =
     (if double_ge_int d 2147483647 then Ok 2147483647
      else if double_le_int d (- 2147483648) then Ok (- 2147483648)
      else truncate_double d)"

definition cJSON_SetNumberHelper :: "cJSON \<Rightarrow> double \<Rightarrow> cJSON outcome" where
  "cJSON_SetNumberHelper item d =
     obind (saturated_int d) (\<lambda>i. Ok (set_valuedouble d (set_valueint i item)))"

definition create_typed :: "int \<Rightarrow> hooks \<Rightarrow> cJSON option \<times> hooks" where
  "create_typed t h = (case cJSON_New_Item h of (item, h1) \<Rightarrow> (map_option (set_type t) item, h1))"

definition cJSON_CreateNull :: "hooks \<Rightarrow> cJSON option \<times> hooks" where "cJSON_CreateNull = create_typed cJSON_NULL"
definition cJSON_CreateTrue :: "hooks \<Rightarrow> cJSON option \<times> hooks" where "cJSON_CreateTrue = create_typed cJSON_True"
definition cJSON_CreateFalse :: "hooks \<Rightarrow> cJSON option \<times> hooks" where "cJSON_CreateFalse = create_typed cJSON_False"
definition cJSON_CreateArray :: "hooks \<Rightarrow> cJSON option \<times> hooks" where "cJSON_CreateArray = create_typed cJSON_Array"
definition cJSON_CreateObject :: "hooks \<Rightarrow> cJSON option \<times> hooks" where "cJSON_CreateObject = create_typed cJSON_Object"

definition cJSON_CreateBool :: "bool \<Rightarrow> hooks \<Rightarrow> cJSON option \<times> hooks" where
  "cJSON_CreateBool b = create_typed (if b then cJSON_True else cJSON_False)"

definition cJSON_CreateNumber :: "double \<Rightarrow> hooks \<Rightarrow> (cJSON option \<times> hooks) outcome" where
  "cJSON_CreateNumber num h =
     (case cJSON_New_Item h of
        (None, h1) \<Rightarrow> Ok (None, h1)
      | (Some item, h1) \<Rightarrow>
          obind (saturated_int num)
            (\<lambda>i. Ok (Some (set_valueint i (set_valuedouble num (set_type cJSON_Number item))), h1)))"

text \<open>\<open>cJSON_CreateString\<close> and \<open>cJSON_CreateRaw\<close> differ in the type only.\<close>

definition create_text :: "int \<Rightarrow> string option \<Rightarrow> hooks \<Rightarrow> cJSON option \<times> hooks" where
  "create_text t str h =
     (case cJSON_New_Item h of
        (None, h1) \<Rightarrow> (None, h1)
      | (Some item, h1) \<Rightarrow>
          (case cJSON_strdup str h1 of
             (None, h2) \<Rightarrow> (None, cJSON_Delete [set_type t item] h2)
           | (Some s, h2) \<Rightarrow> (Some (set_valuestring (Some s) (set_type t item)), h2)))"

definition cJSON_CreateString :: "string option \<Rightarrow> hooks \<Rightarrow> cJSON option \<times> hooks" where
  "cJSON_CreateString = create_text cJSON_String"

definition cJSON_CreateRaw :: "string option \<Rightarrow> hooks \<Rightarrow> cJSON option \<times> hooks" where
  "cJSON_CreateRaw = create_text cJSON_Raw"

definition cJSON_CreateStringReference :: "string option \<Rightarrow> hooks \<Rightarrow> cJSON option \<times> hooks" where
  "cJSON_CreateStringReference str h =
     (case create_typed (cJSON_String OR cJSON_IsReference) h of
        (item, h1) \<Rightarrow> (map_option (set_valuestring str) item, h1))"

definition cJSON_CreateObjectReference :: "cJSON list \<Rightarrow> hooks \<Rightarrow> cJSON option \<times> hooks" where
  "cJSON_CreateObjectReference c h =
     (case create_typed (cJSON_Object OR cJSON_IsReference) h of
        (item, h1) \<Rightarrow> (map_option (set_child c) item, h1))"

definition cJSON_CreateArrayReference :: "cJSON list \<Rightarrow> hooks \<Rightarrow> cJSON option \<times> hooks" where
  "cJSON_CreateArrayReference c h =
     (case create_typed (cJSON_Array OR cJSON_IsReference) h of
        (item, h1) \<Rightarrow> (map_option (set_child c) item, h1))"

text \<open>
  The four array constructors are one loop over the elements: each creates its item, the first
  failure deletes the array, and the items are linked in the order of the elements.
\<close>

fun create_elements ::
    "('a \<Rightarrow> hooks \<Rightarrow> (cJSON option \<times> hooks) outcome) \<Rightarrow> 'a list \<Rightarrow> cJSON list \<Rightarrow> cJSON \<Rightarrow> hooks \<Rightarrow>
     (cJSON option \<times> hooks) outcome" where
  "create_elements create [] items a h = Ok (Some (set_child items a), h)"
| "create_elements create (x # xs) items a h =
     obind (create x h)
       (\<lambda>(n, h1). case n of
           None \<Rightarrow> Ok (None, cJSON_Delete [set_child items a] h1)
         | Some item \<Rightarrow> create_elements create xs (items @ [item]) a h1)"

definition create_array_of ::
    "('a \<Rightarrow> hooks \<Rightarrow> (cJSON option \<times> hooks) outcome) \<Rightarrow> 'a list option \<Rightarrow> int \<Rightarrow> hooks \<Rightarrow>
     (cJSON option \<times> hooks) outcome" where
  "create_array_of create elements count h =
     (case elements of
        None \<Rightarrow> Ok (None, h)
      | Some xs \<Rightarrow>
          if count < 0 then Ok (None, h)
          else if length xs < nat count then UB Buffer_Overread
          else (case cJSON_CreateArray h of
                  (None, h1) \<Rightarrow> Ok (None, h1)
                | (Some a, h1) \<Rightarrow> create_elements create (take (nat count) xs) [] a h1))"

definition cJSON_CreateIntArray :: "int list option \<Rightarrow> int \<Rightarrow> hooks \<Rightarrow> (cJSON option \<times> hooks) outcome" where
  "cJSON_CreateIntArray = create_array_of (\<lambda>i. cJSON_CreateNumber (double_of_int i))"

text \<open>A \<open>float\<close> is held as the \<open>double\<close> of the same value, to which it converts exactly.\<close>

definition cJSON_CreateFloatArray :: "double list option \<Rightarrow> int \<Rightarrow> hooks \<Rightarrow> (cJSON option \<times> hooks) outcome" where
  "cJSON_CreateFloatArray = create_array_of cJSON_CreateNumber"

definition cJSON_CreateDoubleArray :: "double list option \<Rightarrow> int \<Rightarrow> hooks \<Rightarrow> (cJSON option \<times> hooks) outcome" where
  "cJSON_CreateDoubleArray = create_array_of cJSON_CreateNumber"

definition cJSON_CreateStringArray ::
    "string option list option \<Rightarrow> int \<Rightarrow> hooks \<Rightarrow> (cJSON option \<times> hooks) outcome" where
  "cJSON_CreateStringArray = create_array_of (\<lambda>s h. Ok (cJSON_CreateString s h))"

section \<open>Additions\<close>

text \<open>The item goes behind the last child.\<close>

definition add_item_to_array :: "cJSON option \<Rightarrow> cJSON option \<Rightarrow> cJSON option \<times> bool" where
  "add_item_to_array array item =
     (case (array, item) of
        (Some a, Some i) \<Rightarrow> (Some (set_child (child a @ [i]) a), True)
      | _ \<Rightarrow> (array, False))"

definition cJSON_AddItemToArray :: "cJSON option \<Rightarrow> cJSON option \<Rightarrow> cJSON option" where
  "cJSON_AddItemToArray array item = fst (add_item_to_array array item)"

definition add_item_to_object ::
    "cJSON option \<Rightarrow> string option \<Rightarrow> cJSON option \<Rightarrow> hooks \<Rightarrow> bool \<Rightarrow> cJSON option \<times> bool \<times> hooks" where
  "add_item_to_object object str item h constant_key =
     (case (object, str, item) of
        (Some ob, Some k, Some i) \<Rightarrow>
          (case (if constant_key then (Some k, h) else cJSON_strdup (Some k) h) of
             (None, h1) \<Rightarrow> (object, False, h1)
           | (Some new_key, h1) \<Rightarrow>
               (let new_type = (if constant_key then type i OR cJSON_StringIsConst
                                else type i AND NOT cJSON_StringIsConst);
                    h2 = (if \<not> string_is_const i \<and> item_name i \<noteq> None then deallocate h1 else h1);
                    (object', ok) = add_item_to_array object (Some (set_type new_type (set_name (Some new_key) i)))
                in (object', ok, h2)))
      | _ \<Rightarrow> (object, False, h))"

definition cJSON_AddItemToObject :: "cJSON option \<Rightarrow> string option \<Rightarrow> cJSON option \<Rightarrow> hooks \<Rightarrow> cJSON option \<times> hooks" where
  "cJSON_AddItemToObject object str item h =
     (case add_item_to_object object str item h False of (object', _, h1) \<Rightarrow> (object', h1))"

definition cJSON_AddItemToObjectCS :: "cJSON option \<Rightarrow> string option \<Rightarrow> cJSON option \<Rightarrow> hooks \<Rightarrow> cJSON option \<times> hooks" where
  "cJSON_AddItemToObjectCS object str item h =
     (case add_item_to_object object str item h True of (object', _, h1) \<Rightarrow> (object', h1))"

text \<open>A reference has the fields of its item, the children included, and owns none of them.\<close>

definition create_reference :: "cJSON option \<Rightarrow> hooks \<Rightarrow> cJSON option \<times> hooks" where
  "create_reference item h =
     (case item of
        None \<Rightarrow> (None, h)
      | Some i \<Rightarrow>
          (case cJSON_New_Item h of
             (None, h1) \<Rightarrow> (None, h1)
           | (Some _, h1) \<Rightarrow> (Some (set_type (type i OR cJSON_IsReference) (set_name None i)), h1)))"

definition cJSON_AddItemReferenceToArray :: "cJSON option \<Rightarrow> cJSON option \<Rightarrow> hooks \<Rightarrow> cJSON option \<times> hooks" where
  "cJSON_AddItemReferenceToArray array item h =
     (case array of
        None \<Rightarrow> (array, h)
      | Some _ \<Rightarrow> (case create_reference item h of (r, h1) \<Rightarrow> (fst (add_item_to_array array r), h1)))"

definition cJSON_AddItemReferenceToObject ::
    "cJSON option \<Rightarrow> string option \<Rightarrow> cJSON option \<Rightarrow> hooks \<Rightarrow> cJSON option \<times> hooks" where
  "cJSON_AddItemReferenceToObject object str item h =
     (if object = None \<or> str = None then (object, h)
      else (case create_reference item h of
              (r, h1) \<Rightarrow> (case add_item_to_object object str r h1 False of (object', _, h2) \<Rightarrow> (object', h2))))"

text \<open>
  The nine \<open>cJSON_Add...ToObject\<close> functions create an item, add it, and delete it again when it
  could not be added; they return whether it is in the object.
\<close>

definition add_created ::
    "(hooks \<Rightarrow> (cJSON option \<times> hooks) outcome) \<Rightarrow> cJSON option \<Rightarrow> string option \<Rightarrow> hooks \<Rightarrow>
     (cJSON option \<times> bool \<times> hooks) outcome" where
  "add_created create object n h =
     obind (create h)
       (\<lambda>(item, h1). case add_item_to_object object n item h1 False of
           (object', True, h2) \<Rightarrow> Ok (object', True, h2)
         | (object', False, h2) \<Rightarrow>
             Ok (object', False, cJSON_Delete (case item of None \<Rightarrow> [] | Some i \<Rightarrow> [i]) h2))"

definition cJSON_AddNullToObject :: "cJSON option \<Rightarrow> string option \<Rightarrow> hooks \<Rightarrow> (cJSON option \<times> bool \<times> hooks) outcome" where
  "cJSON_AddNullToObject = add_created (\<lambda>h. Ok (cJSON_CreateNull h))"

definition cJSON_AddTrueToObject :: "cJSON option \<Rightarrow> string option \<Rightarrow> hooks \<Rightarrow> (cJSON option \<times> bool \<times> hooks) outcome" where
  "cJSON_AddTrueToObject = add_created (\<lambda>h. Ok (cJSON_CreateTrue h))"

definition cJSON_AddFalseToObject :: "cJSON option \<Rightarrow> string option \<Rightarrow> hooks \<Rightarrow> (cJSON option \<times> bool \<times> hooks) outcome" where
  "cJSON_AddFalseToObject = add_created (\<lambda>h. Ok (cJSON_CreateFalse h))"

definition cJSON_AddBoolToObject ::
    "cJSON option \<Rightarrow> string option \<Rightarrow> bool \<Rightarrow> hooks \<Rightarrow> (cJSON option \<times> bool \<times> hooks) outcome" where
  "cJSON_AddBoolToObject object n b = add_created (\<lambda>h. Ok (cJSON_CreateBool b h)) object n"

definition cJSON_AddNumberToObject ::
    "cJSON option \<Rightarrow> string option \<Rightarrow> double \<Rightarrow> hooks \<Rightarrow> (cJSON option \<times> bool \<times> hooks) outcome" where
  "cJSON_AddNumberToObject object n num = add_created (cJSON_CreateNumber num) object n"

definition cJSON_AddStringToObject ::
    "cJSON option \<Rightarrow> string option \<Rightarrow> string option \<Rightarrow> hooks \<Rightarrow> (cJSON option \<times> bool \<times> hooks) outcome" where
  "cJSON_AddStringToObject object n str = add_created (\<lambda>h. Ok (cJSON_CreateString str h)) object n"

definition cJSON_AddRawToObject ::
    "cJSON option \<Rightarrow> string option \<Rightarrow> string option \<Rightarrow> hooks \<Rightarrow> (cJSON option \<times> bool \<times> hooks) outcome" where
  "cJSON_AddRawToObject object n raw = add_created (\<lambda>h. Ok (cJSON_CreateRaw raw h)) object n"

definition cJSON_AddObjectToObject :: "cJSON option \<Rightarrow> string option \<Rightarrow> hooks \<Rightarrow> (cJSON option \<times> bool \<times> hooks) outcome" where
  "cJSON_AddObjectToObject = add_created (\<lambda>h. Ok (cJSON_CreateObject h))"

definition cJSON_AddArrayToObject :: "cJSON option \<Rightarrow> string option \<Rightarrow> hooks \<Rightarrow> (cJSON option \<times> bool \<times> hooks) outcome" where
  "cJSON_AddArrayToObject = add_created (\<lambda>h. Ok (cJSON_CreateArray h))"

section \<open>Blocks\<close>

text \<open>The heap blocks that belong to an item: the node, its own strings, and its children's.\<close>

fun blocks :: "cJSON \<Rightarrow> int" where
  "blocks (Item t s i d k c) =
     1 + (if t AND cJSON_IsReference = 0 then (if s = None then 0 else 1) + sum_list (map blocks c) else 0) +
     (if t AND cJSON_StringIsConst = 0 \<and> k \<noteq> None then 1 else 0)"

definition all_blocks :: "cJSON list \<Rightarrow> int" where
  "all_blocks items = sum_list (map blocks items)"

lemma all_blocks_simps [simp]:
  "all_blocks [] = 0" "all_blocks (i # is) = blocks i + all_blocks is" "all_blocks (is @ js) = all_blocks is + all_blocks js"
  by (simp_all add: all_blocks_def)

lemma flags_simps [simp]:
  "is_reference (Item t s i d k c) \<longleftrightarrow> t AND cJSON_IsReference \<noteq> 0"
  "string_is_const (Item t s i d k c) \<longleftrightarrow> t AND cJSON_StringIsConst \<noteq> 0"
  by (simp_all add: is_reference_def string_is_const_def)

text \<open>\<open>cJSON_Delete\<close> gives back every block of the items it gets, and no other.\<close>

definition refund :: "int \<Rightarrow> hooks \<Rightarrow> hooks" where
  "refund n h = h\<lparr>live := live h - n\<rparr>"

lemma refund_simps [simp]:
  "refund a (refund b h) = refund (a + b) h" "refund 0 h = h" "deallocate h = refund 1 h"
  "live (refund n h) = live h - n" "grants (refund n h) = grants h" "asked (refund n h) = asked h"
  by (simp_all add: refund_def deallocate_def algebra_simps)

lemma cJSON_Delete_blocks [simp]: "cJSON_Delete items h = refund (all_blocks items) h"
proof (induction items h rule: cJSON_Delete.induct)
  case (2 t s i d k c ns h)
  define item where "item = Item t s i d k c"
  define h1 where "h1 = (if \<not> is_reference item \<and> c \<noteq> [] then cJSON_Delete c h else h)"
  define h2 where "h2 = (if \<not> is_reference item \<and> s \<noteq> None then deallocate h1 else h1)"
  define h3 where "h3 = (if \<not> string_is_const item \<and> k \<noteq> None then deallocate h2 else h2)"
  have "h1 = refund (if is_reference item then 0 else all_blocks c) h"
    using 2(1) [OF item_def] by (auto simp: h1_def)
  then have r: "deallocate h3 = refund (blocks item) h"
    by (cases k; cases s) (simp_all add: h3_def h2_def item_def all_blocks_def algebra_simps)
  have "cJSON_Delete (item # ns) h = cJSON_Delete ns (deallocate h3)"
    by (simp only: cJSON_Delete.simps Let_def item_def h1_def h2_def h3_def)
  also have "\<dots> = refund (all_blocks ns) (deallocate h3)"
    by (rule 2(2) [OF item_def h1_def h2_def h3_def])
  finally show ?case unfolding r item_def [symmetric] by (simp add: add.commute)
qed simp

end
