(* ===== verification/Json_Parse.thy ===== *)
theory Json_Parse
  imports Json_Data
begin

text \<open>
  src/libs/cJSON.c, the parser: \<open>cJSON_ParseWithOpts\<close> and the functions below it. The parser works
  on a buffer that holds the text with its terminating zero byte; reads at a position outside it
  and writes past the memory allocated for a string are \<open>UB\<close>. The recursion takes fuel, one unit
  for each call and each turn of a loop.
\<close>

section \<open>The buffer\<close>

text \<open>\<open>length\<close> of the C struct is the number of bytes of \<open>content\<close>, the terminator included.\<close>

record parse_buffer =
  content :: "char list"
  offset :: nat
  depth :: nat
  pool :: hooks

definition can_read :: "parse_buffer \<Rightarrow> nat \<Rightarrow> bool" where
  "can_read p n \<longleftrightarrow> offset p + n \<le> length (content p)"

definition can_access_at_index :: "parse_buffer \<Rightarrow> nat \<Rightarrow> bool" where
  "can_access_at_index p index \<longleftrightarrow> offset p + index < length (content p)"

text \<open>\<open>buffer_at_offset (p)[index]\<close>, checked against the end of the array only here.\<close>

definition byte_at :: "parse_buffer \<Rightarrow> nat \<Rightarrow> char outcome" where
  "byte_at p index =
     (if offset p + index < length (content p) then Ok (content p ! (offset p + index)) else UB Buffer_Overread)"

text \<open>\<open>can_access_at_index (p, 0) && (buffer_at_offset (p)[0] == c)\<close>\<close>

definition at_char :: "parse_buffer \<Rightarrow> char \<Rightarrow> bool outcome" where
  "at_char p c = (if can_access_at_index p 0 then obind (byte_at p 0) (\<lambda>d. Ok (d = c)) else Ok False)"

text \<open>\<open>can_read (p, n) && (strncmp (buffer_at_offset (p), word, n) == 0)\<close>\<close>

definition at_word :: "parse_buffer \<Rightarrow> string \<Rightarrow> bool" where
  "at_word p word \<longleftrightarrow> can_read p (length word) \<and> take (length word) (drop (offset p) (content p)) = word"

definition advance :: "nat \<Rightarrow> parse_buffer \<Rightarrow> parse_buffer" where
  "advance n p = p\<lparr>offset := offset p + n\<rparr>"

definition white :: "char \<Rightarrow> bool" where
  "white c \<longleftrightarrow> of_char c \<le> (32 :: nat)"

text \<open>
  The terminator counts as white space, so the skip may run to the end of the buffer, and then
  takes one step back.
\<close>

definition buffer_skip_whitespace :: "parse_buffer \<Rightarrow> parse_buffer" where
  "buffer_skip_whitespace p =
     (let q = advance (length (takeWhile white (drop (offset p) (content p)))) p
      in if offset q = length (content q) then q\<lparr>offset := offset q - 1\<rparr> else q)"

definition utf8_bom :: string where "utf8_bom = [CHR 0xEF, CHR 0xBB, CHR 0xBF]"

definition skip_utf8_bom :: "parse_buffer \<Rightarrow> parse_buffer option" where
  "skip_utf8_bom p =
     (if offset p \<noteq> 0 then None
      else if can_access_at_index p 4 \<and> take 3 (content p) = utf8_bom then Some (advance 3 p)
      else Some p)"

section \<open>Numbers\<close>

definition number_char :: "char \<Rightarrow> bool" where
  "number_char c \<longleftrightarrow> is_digit c \<or> c \<in> {CHR ''+'', CHR ''-'', CHR ''e'', CHR ''E'', CHR ''.''}"

text \<open>At most 63 characters are copied; the number ends where \<open>strtod\<close> ends.\<close>

definition parse_number :: "cJSON \<Rightarrow> parse_buffer \<Rightarrow> (bool \<times> cJSON \<times> parse_buffer) outcome" where
  "parse_number item p =
     (let number_c_string = takeWhile number_char (take 63 (drop (offset p) (content p))) in
      case strtod number_c_string of
        None \<Rightarrow> Ok (False, item, p)
      | Some (number, after_end) \<Rightarrow>
          obind (saturated_int number)
            (\<lambda>i. Ok (True, set_type cJSON_Number (set_valueint i (set_valuedouble number item)),
                     advance (length number_c_string - length after_end) p)))"

section \<open>Strings\<close>

definition hex_digit :: "char \<Rightarrow> nat option" where
  "hex_digit c =
     (let n = of_char c in
      if 48 \<le> n \<and> n \<le> 57 then Some (n - 48)
      else if 65 \<le> n \<and> n \<le> 70 then Some (10 + n - 65)
      else if 97 \<le> n \<and> n \<le> 102 then Some (10 + n - 97)
      else None)"

text \<open>The loop over the four digits: \<open>left\<close> are still to come; an invalid digit makes the result 0.\<close>

fun hex_loop :: "nat \<Rightarrow> nat \<Rightarrow> char list \<Rightarrow> nat outcome" where
  "hex_loop 0 h cs = Ok h"
| "hex_loop (Suc left) h input =
     (case input of
        [] \<Rightarrow> UB Buffer_Overread
      | c # cs \<Rightarrow>
          (case hex_digit c of
             None \<Rightarrow> Ok 0
           | Some d \<Rightarrow> hex_loop left (if 0 < left then push_bit 4 (h + d) else h + d) cs))"

definition parse_hex4 :: "char list \<Rightarrow> nat outcome" where
  "parse_hex4 input = hex_loop 4 0 input"

text \<open>
  The bytes of a code point: the continuation bytes from the last one on, six bits each, and the
  first byte with its mark; None above \<open>0x10FFFF\<close>.
\<close>

fun utf8_tail :: "nat \<Rightarrow> nat \<Rightarrow> char list \<Rightarrow> nat \<times> char list" where
  "utf8_tail 0 codepoint bytes = (codepoint, bytes)"
| "utf8_tail (Suc n) codepoint bytes =
     utf8_tail n (drop_bit 6 codepoint) (char_of ((codepoint OR 0x80) AND 0xBF) # bytes)"

definition utf8_bytes :: "nat \<Rightarrow> char list option" where
  "utf8_bytes codepoint =
     (if codepoint < 0x80 then Some [char_of (codepoint AND 0x7F)]
      else
        (case (if codepoint < 0x800 then Some (1, 0xC0)
               else if codepoint < 0x10000 then Some (2, 0xE0)
               else if codepoint \<le> 0x10FFFF then Some (3, 0xF0)
               else None) of
           None \<Rightarrow> None
         | Some (n, first_byte_mark) \<Rightarrow>
             (case utf8_tail n codepoint [] of
                (c, rest) \<Rightarrow> Some (char_of ((c OR first_byte_mark) AND 0xFF) # rest))))"

text \<open>
  \<open>input\<close> are the bytes from the backslash to the end of the literal: the number of bytes consumed
  (0 for a failure) and the bytes produced.
\<close>

definition utf16_literal_to_utf8 :: "char list \<Rightarrow> (nat \<times> char list) outcome" where
  "utf16_literal_to_utf8 input =
     (if length input < 6 then Ok (0, [])
      else
        obind (parse_hex4 (drop 2 input))
          (\<lambda>first_code.
             let emit = (\<lambda>n codepoint. case utf8_bytes codepoint of None \<Rightarrow> (0, []) | Some bs \<Rightarrow> (n, bs)) in
             if 0xDC00 \<le> first_code \<and> first_code \<le> 0xDFFF then Ok (0, [])
             else if 0xD800 \<le> first_code \<and> first_code \<le> 0xDBFF then
               (let second_sequence = drop 6 input in
                if length second_sequence < 6 then Ok (0, [])
                else if second_sequence ! 0 \<noteq> CHR 0x5C \<or> second_sequence ! 1 \<noteq> CHR ''u'' then Ok (0, [])
                else
                  obind (parse_hex4 (drop 2 second_sequence))
                    (\<lambda>second_code.
                       if second_code < 0xDC00 \<or> 0xDFFF < second_code then Ok (0, [])
                       else Ok (emit 12 (0x10000 +
                                  (push_bit 10 (first_code AND 0x3FF) OR (second_code AND 0x3FF))))))
             else Ok (emit 6 first_code)))"

text \<open>
  The first pass over a literal: from \<open>pos\<close> to the closing quote, counting the backslashes; None
  when the text ends first.
\<close>

function scan_string :: "char list \<Rightarrow> nat \<Rightarrow> nat \<Rightarrow> (nat \<times> nat) option" where
  "scan_string bs pos skipped =
     (if length bs \<le> pos then None
      else if bs ! pos = CHR 0x22 then Some (pos, skipped)
      else if bs ! pos = CHR 0x5C then
        (if length bs \<le> pos + 1 then None else scan_string bs (pos + 2) (skipped + 1))
      else scan_string bs (pos + 1) skipped)"
  by pat_completeness auto
termination by (relation "measure (\<lambda>(bs, pos, _). length bs - pos)") auto

declare scan_string.simps [simp del]

text \<open>A write of \<open>bs\<close> behind \<open>out\<close> in an allocation of \<open>cap\<close> bytes.\<close>

definition put :: "nat \<Rightarrow> char list \<Rightarrow> char list \<Rightarrow> char list outcome" where
  "put cap out bs = (if length out + length bs \<le> cap then Ok (out @ bs) else UB Buffer_Overflow)"

definition simple_escape :: "char \<Rightarrow> char option" where
  "simple_escape c =
     (if c = CHR ''b'' then Some (CHR 0x08) else if c = CHR ''f'' then Some (CHR 0x0C)
      else if c = CHR ''n'' then Some (CHR 0x0A) else if c = CHR ''r'' then Some (CHR 0x0D)
      else if c = CHR ''t'' then Some (CHR 0x09)
      else if c = CHR 0x22 \<or> c = CHR 0x5C \<or> c = CHR ''/'' then Some c else None)"

text \<open>The second pass: \<open>Inl\<close> the position of a failure, \<open>Inr\<close> the bytes written.\<close>

function string_loop :: "char list \<Rightarrow> nat \<Rightarrow> nat \<Rightarrow> nat \<Rightarrow> char list \<Rightarrow> (nat + char list) outcome" where
  "string_loop bs input_end cap pos out =
     (if input_end \<le> pos then Ok (Inr out)
      else if length bs \<le> pos then UB Buffer_Overread
      else if bs ! pos \<noteq> CHR 0x5C then
        obind (put cap out [bs ! pos]) (\<lambda>out1. string_loop bs input_end cap (pos + 1) out1)
      else if length bs \<le> pos + 1 then UB Buffer_Overread
      else
        (case simple_escape (bs ! (pos + 1)) of
           Some c \<Rightarrow> obind (put cap out [c]) (\<lambda>out1. string_loop bs input_end cap (pos + 2) out1)
         | None \<Rightarrow>
             if bs ! (pos + 1) = CHR ''u'' then
               obind (utf16_literal_to_utf8 (take (input_end - pos) (drop pos bs)))
                 (\<lambda>(sequence_length, utf8).
                    if sequence_length = 0 then Ok (Inl pos)
                    else obind (put cap out utf8)
                           (\<lambda>out1. string_loop bs input_end cap (pos + sequence_length) out1))
             else Ok (Inl pos)))"
  by pat_completeness auto
termination by (relation "measure (\<lambda>(bs, e, cap, pos, _). e - pos)") auto

declare string_loop.simps [simp del]

text \<open>
  A failure leaves the offset at the byte that could not be read; before the second pass that is
  the byte behind the opening quote. The stored string is what C reads of the bytes written: it
  ends at a zero byte produced by \<open>\u0000\<close>.
\<close>

definition parse_string :: "cJSON \<Rightarrow> parse_buffer \<Rightarrow> (bool \<times> cJSON \<times> parse_buffer) outcome" where
  "parse_string item p =
     (let start = offset p + 1; fail = (\<lambda>pos h. Ok (False, item, p\<lparr>offset := pos, pool := h\<rparr>)) in
      obind (byte_at p 0)
        (\<lambda>c. if c \<noteq> CHR 0x22 then fail start (pool p)
          else
            (case scan_string (content p) start 0 of
               None \<Rightarrow> fail start (pool p)
             | Some (input_end, skipped_bytes) \<Rightarrow>
                 (let cap = input_end - offset p - skipped_bytes + 1 in
                  case allocate (pool p) of
                    (False, h1) \<Rightarrow> fail start h1
                  | (True, h1) \<Rightarrow>
                      obind (string_loop (content p) input_end cap start [])
                        (\<lambda>r. case r of
                            Inl pos \<Rightarrow> fail pos (deallocate h1)
                          | Inr out \<Rightarrow>
                              obind (put cap out [NUL])
                                (\<lambda>output. Ok (True, set_valuestring (Some (cstr output)) (set_type cJSON_String item),
                                              p\<lparr>offset := input_end + 1, pool := h1\<rparr>)))))))"

section \<open>Values\<close>

definition nesting_limit :: nat where "nesting_limit = 1000"

definition set_pool :: "hooks \<Rightarrow> parse_buffer \<Rightarrow> parse_buffer" where
  "set_pool h p = p\<lparr>pool := h\<rparr>"

text \<open>
  \<open>parse_array_loop\<close> and \<open>parse_object_loop\<close> are one turn of the \<open>do\<close> loops and the turns after it,
  \<open>items\<close> the children so far; they return the children, or None after they deleted them.
\<close>

function (sequential) parse_value :: "nat \<Rightarrow> cJSON \<Rightarrow> parse_buffer \<Rightarrow> (bool \<times> cJSON \<times> parse_buffer) outcome"
  and parse_array :: "nat \<Rightarrow> cJSON \<Rightarrow> parse_buffer \<Rightarrow> (bool \<times> cJSON \<times> parse_buffer) outcome"
  and parse_array_loop :: "nat \<Rightarrow> cJSON list \<Rightarrow> parse_buffer \<Rightarrow> (cJSON list option \<times> parse_buffer) outcome"
  and parse_object :: "nat \<Rightarrow> cJSON \<Rightarrow> parse_buffer \<Rightarrow> (bool \<times> cJSON \<times> parse_buffer) outcome"
  and parse_object_loop :: "nat \<Rightarrow> cJSON list \<Rightarrow> parse_buffer \<Rightarrow> (cJSON list option \<times> parse_buffer) outcome"
where
  "parse_value 0 item p = UB Endless_Loop"
| "parse_value (Suc fuel) item p =
     (if at_word p ''null'' then Ok (True, set_type cJSON_NULL item, advance 4 p)
      else if at_word p ''false'' then Ok (True, set_type cJSON_False item, advance 5 p)
      else if at_word p ''true'' then Ok (True, set_valueint 1 (set_type cJSON_True item), advance 4 p)
      else if \<not> can_access_at_index p 0 then Ok (False, item, p)
      else
        obind (byte_at p 0)
          (\<lambda>c. if c = CHR 0x22 then parse_string item p
            else if c = CHR ''-'' \<or> is_digit c then parse_number item p
            else if c = CHR ''['' then parse_array fuel item p
            else if c = CHR ''{'' then parse_object fuel item p
            else Ok (False, item, p)))"
| "parse_array 0 item p = UB Endless_Loop"
| "parse_array (Suc fuel) item p =
     (if nesting_limit \<le> depth p then Ok (False, item, p)
      else
        (let p1 = p\<lparr>depth := depth p + 1\<rparr> in
         obind (byte_at p1 0)
           (\<lambda>c. if c \<noteq> CHR ''['' then Ok (False, item, p1)
             else
               (let p2 = buffer_skip_whitespace (advance 1 p1) in
                obind (at_char p2 (CHR '']''))
                  (\<lambda>empty.
                     if empty then Ok (True, set_child [] (set_type cJSON_Array item),
                                       p2\<lparr>depth := depth p2 - 1, offset := offset p2 + 1\<rparr>)
                     else if \<not> can_access_at_index p2 0 then Ok (False, item, p2\<lparr>offset := offset p2 - 1\<rparr>)
                     else
                       obind (parse_array_loop fuel [] (p2\<lparr>offset := offset p2 - 1\<rparr>))
                         (\<lambda>(items, p3). case items of
                             None \<Rightarrow> Ok (False, item, p3)
                           | Some cs \<Rightarrow> Ok (True, set_child cs (set_type cJSON_Array item),
                                            p3\<lparr>depth := depth p3 - 1, offset := offset p3 + 1\<rparr>)))))))"
| "parse_array_loop 0 items p = UB Endless_Loop"
| "parse_array_loop (Suc fuel) items p =
     (case cJSON_New_Item (pool p) of
        (None, h1) \<Rightarrow> Ok (None, set_pool (cJSON_Delete items h1) p)
      | (Some new_item, h1) \<Rightarrow>
          obind (parse_value fuel new_item (buffer_skip_whitespace (advance 1 (set_pool h1 p))))
            (\<lambda>(ok, item, p1).
               if \<not> ok then Ok (None, set_pool (cJSON_Delete (items @ [item]) (pool p1)) p1)
               else
                 (let p2 = buffer_skip_whitespace p1 in
                  obind (at_char p2 (CHR '',''))
                    (\<lambda>comma.
                       if comma then parse_array_loop fuel (items @ [item]) p2
                       else
                         obind (at_char p2 (CHR '']''))
                           (\<lambda>closing.
                              if closing then Ok (Some (items @ [item]), p2)
                              else Ok (None, set_pool (cJSON_Delete (items @ [item]) (pool p2)) p2))))))"
| "parse_object 0 item p = UB Endless_Loop"
| "parse_object (Suc fuel) item p =
     (if nesting_limit \<le> depth p then Ok (False, item, p)
      else
        (let p1 = p\<lparr>depth := depth p + 1\<rparr> in
         obind (at_char p1 (CHR ''{''))
           (\<lambda>opening. if \<not> opening then Ok (False, item, p1)
             else
               (let p2 = buffer_skip_whitespace (advance 1 p1) in
                obind (at_char p2 (CHR ''}''))
                  (\<lambda>empty.
                     if empty then Ok (True, set_child [] (set_type cJSON_Object item),
                                       p2\<lparr>depth := depth p2 - 1, offset := offset p2 + 1\<rparr>)
                     else if \<not> can_access_at_index p2 0 then Ok (False, item, p2\<lparr>offset := offset p2 - 1\<rparr>)
                     else
                       obind (parse_object_loop fuel [] (p2\<lparr>offset := offset p2 - 1\<rparr>))
                         (\<lambda>(items, p3). case items of
                             None \<Rightarrow> Ok (False, item, p3)
                           | Some cs \<Rightarrow> Ok (True, set_child cs (set_type cJSON_Object item),
                                            p3\<lparr>depth := depth p3 - 1, offset := offset p3 + 1\<rparr>)))))))"
| "parse_object_loop 0 items p = UB Endless_Loop"
| "parse_object_loop (Suc fuel) items p =
     (case cJSON_New_Item (pool p) of
        (None, h1) \<Rightarrow> Ok (None, set_pool (cJSON_Delete items h1) p)
      | (Some new_item, h1) \<Rightarrow>
          obind (parse_string new_item (buffer_skip_whitespace (advance 1 (set_pool h1 p))))
            (\<lambda>(ok1, item1, p1).
               if \<not> ok1 then Ok (None, set_pool (cJSON_Delete (items @ [item1]) (pool p1)) p1)
               else
                 (let p2 = buffer_skip_whitespace p1;
                      item2 = set_valuestring None (set_name (valuestring item1) item1)
                  in obind (at_char p2 (CHR '':''))
                    (\<lambda>colon.
                       if \<not> colon then Ok (None, set_pool (cJSON_Delete (items @ [item2]) (pool p2)) p2)
                       else
                         obind (parse_value fuel item2 (buffer_skip_whitespace (advance 1 p2)))
                           (\<lambda>(ok, item, p3).
                              if \<not> ok then Ok (None, set_pool (cJSON_Delete (items @ [item]) (pool p3)) p3)
                              else
                                (let p4 = buffer_skip_whitespace p3 in
                                 obind (at_char p4 (CHR '',''))
                                   (\<lambda>comma.
                                      if comma then parse_object_loop fuel (items @ [item]) p4
                                      else
                                        obind (at_char p4 (CHR ''}''))
                                          (\<lambda>closing.
                                             if closing then Ok (Some (items @ [item]), p4)
                                             else Ok (None, set_pool (cJSON_Delete (items @ [item]) (pool p4)) p4)))))))))"
  by pat_completeness auto
termination
  by (relation "measure (\<lambda>x. case x of
      Inl (Inl (fuel, _)) \<Rightarrow> fuel
    | Inl (Inr (fuel, _)) \<Rightarrow> fuel
    | Inr (Inl (fuel, _)) \<Rightarrow> fuel
    | Inr (Inr (Inl (fuel, _))) \<Rightarrow> fuel
    | Inr (Inr (Inr (fuel, _))) \<Rightarrow> fuel)") auto

section \<open>Entry points\<close>

text \<open>
  The result of a parse: the item, the position stored in \<open>*return_parse_end\<close>, and the position
  of the global error (None where the pointer is NULL).
\<close>

record parsed =
  parsed_item :: "cJSON option"
  parse_end :: "nat option"
  error_position :: "nat option"
  parsed_pool :: hooks

text \<open>Three units of fuel for each byte, and some for the last call.\<close>

definition parse_fuel :: "string \<Rightarrow> nat" where
  "parse_fuel s = 3 * length s + 10"

definition parse_failed :: "cJSON list \<Rightarrow> parse_buffer \<Rightarrow> parsed" where
  "parse_failed items p =
     (let pos = (if offset p < length (content p) then offset p else length (content p) - 1)
      in \<lparr>parsed_item = None, parse_end = Some pos, error_position = Some pos,
          parsed_pool = cJSON_Delete items (pool p)\<rparr>)"

definition cJSON_ParseWithOpts :: "string option \<Rightarrow> bool \<Rightarrow> hooks \<Rightarrow> parsed outcome" where
  "cJSON_ParseWithOpts text_arg require_null_terminated h =
     (case text_arg of
        None \<Rightarrow> Ok \<lparr>parsed_item = None, parse_end = None, error_position = None, parsed_pool = h\<rparr>
      | Some s \<Rightarrow>
          (let buffer = \<lparr>content = s @ [NUL], offset = 0, depth = 0, pool = h\<rparr> in
           case cJSON_New_Item h of
             (None, h1) \<Rightarrow> Ok (parse_failed [] (set_pool h1 buffer))
           | (Some new_item, h1) \<Rightarrow>
               (case skip_utf8_bom (set_pool h1 buffer) of
                  None \<Rightarrow> Ok (parse_failed [new_item] (set_pool h1 buffer))
                | Some p0 \<Rightarrow>
                    obind (parse_value (parse_fuel s) new_item (buffer_skip_whitespace p0))
                      (\<lambda>(ok, item, p).
                         if \<not> ok then Ok (parse_failed [item] p)
                         else if require_null_terminated then
                           (let p1 = buffer_skip_whitespace p in
                            if \<not> can_access_at_index p1 0 then Ok (parse_failed [item] p1)
                            else
                              obind (byte_at p1 0)
                                (\<lambda>c. if c \<noteq> NUL then Ok (parse_failed [item] p1)
                                  else Ok \<lparr>parsed_item = Some item, parse_end = Some (offset p1),
                                           error_position = None, parsed_pool = pool p1\<rparr>))
                         else Ok \<lparr>parsed_item = Some item, parse_end = Some (offset p),
                                  error_position = None, parsed_pool = pool p\<rparr>))))"

definition cJSON_Parse :: "string option \<Rightarrow> hooks \<Rightarrow> (cJSON option \<times> hooks) outcome" where
  "cJSON_Parse text_arg h =
     obind (cJSON_ParseWithOpts text_arg False h) (\<lambda>r. Ok (parsed_item r, parsed_pool r))"

section \<open>String literals stay inside their memory\<close>

lemma scan_string_end:
  "scan_string bs p k = Some (e, sk) \<Longrightarrow>
     p \<le> e \<and> e < length bs \<and> bs ! e = CHR 0x22 \<and> k \<le> sk \<and> 2 * (sk - k) \<le> e - p"
proof (induction bs p k rule: scan_string.induct)
  case (1 bs p k)
  show ?case
  proof (cases "p < length bs \<and> bs ! p \<noteq> CHR 0x22")
    case False
    with 1(3) show ?thesis by (auto simp: scan_string.simps [of bs p k] split: if_splits)
  next
    case t: True
    show ?thesis
    proof (cases "bs ! p = CHR 0x5C")
      case True
      with t 1(3) have "p + 1 < length bs" "scan_string bs (p + 2) (k + 1) = Some (e, sk)"
        by (simp_all add: scan_string.simps [of bs p k] split: if_splits)
      with t True 1(1) have "p + 2 \<le> e \<and> e < length bs \<and> bs ! e = CHR 0x22 \<and> k + 1 \<le> sk \<and> 2 * (sk - (k + 1)) \<le> e - (p + 2)"
        by simp
      then show ?thesis by auto
    next
      case False
      with t 1(3) have "scan_string bs (p + 1) k = Some (e, sk)"
        by (simp add: scan_string.simps [of bs p k])
      with t False 1(2) have "p + 1 \<le> e \<and> e < length bs \<and> bs ! e = CHR 0x22 \<and> k \<le> sk \<and> 2 * (sk - k) \<le> e - (p + 1)"
        by simp
      then show ?thesis by auto
    qed
  qed
qed

text \<open>
  The second pass may jump into the middle of what the first pass took for an escape (after a
  \<open>\u\<close> with invalid digits). From any position it jumps to, the first pass continues there or one
  byte later, and it has counted at most one backslash for two bytes.
\<close>

lemma scan_string_split:
  assumes "scan_string bs p k = Some (e, sk)" and "p \<le> q" and "q \<le> e"
  shows "\<exists>a j. a \<le> 1 \<and> scan_string bs (q + a) (k + j) = Some (e, sk) \<and> 2 * j \<le> q - p + 1"
  using assms
proof (induction bs p k rule: scan_string.induct)
  case (1 bs p k)
  show ?case
  proof (cases "q = p")
    case True
    with 1(3) show ?thesis by (intro exI [of _ 0]) simp
  next
    case False
    with 1(4,5) have pq: "p + 1 \<le> q" "p < e" by linarith+
    note b = scan_string_end [OF 1(3)]
    have p: "p < length bs" using b pq by linarith
    have nq: "bs ! p \<noteq> CHR 0x22" using 1(3) p pq by (auto simp: scan_string.simps [of bs p k])
    show ?thesis
    proof (cases "bs ! p = CHR 0x5C")
      case True
      then have s: "p + 1 < length bs" "scan_string bs (p + 2) (k + 1) = Some (e, sk)"
        using 1(3) p by (simp_all add: scan_string.simps [of bs p k] split: if_splits)
      show ?thesis
      proof (cases "q = p + 1")
        case True
        with s show ?thesis by (intro exI [of _ 1]) simp
      next
        case False
        then have "p + 2 \<le> q" using pq by linarith
        with 1(1) p nq True s 1(5) obtain a j where
          "a \<le> 1" "scan_string bs (q + a) (k + 1 + j) = Some (e, sk)" "2 * j \<le> q - (p + 2) + 1"
          by fastforce
        with \<open>p + 2 \<le> q\<close> show ?thesis by (intro exI [of _ a] exI [of _ "1 + j"]) simp
      qed
    next
      case False
      then have "scan_string bs (p + 1) k = Some (e, sk)"
        using 1(3) p nq by (simp add: scan_string.simps [of bs p k])
      with 1(2) p nq False pq 1(5) obtain a j where
        "a \<le> 1" "scan_string bs (q + a) (k + j) = Some (e, sk)" "2 * j \<le> q - (p + 1) + 1"
        by fastforce
      with pq show ?thesis by (intro exI [of _ a] exI [of _ j]) simp
    qed
  qed
qed

lemma hex_loop_Ok: "n \<le> length cs \<Longrightarrow> \<exists>h'. hex_loop n h cs = Ok h'"
proof (induction n arbitrary: h cs)
  case (Suc n)
  then obtain c ds where "cs = c # ds" by (cases cs) auto
  with Suc show ?case by (auto split: option.split)
qed simp

lemma length_utf8_tail: "length (snd (utf8_tail n c bs)) = n + length bs"
  by (induction n arbitrary: c bs) simp_all

lemma utf8_bytes_length:
  "utf8_bytes c = Some bs \<Longrightarrow> length bs \<le> 4 \<and> (c < 0x10000 \<longrightarrow> length bs \<le> 3) \<and> bs \<noteq> []"
  using length_utf8_tail [of 1 c "[]"] length_utf8_tail [of 2 c "[]"] length_utf8_tail [of 3 c "[]"]
  by (auto simp: utf8_bytes_def split: if_splits prod.splits)

lemma hex_digit_bound: "hex_digit c = Some d \<Longrightarrow> d < 16"
  by (auto simp: hex_digit_def Let_def split: if_splits)

lemma hex_loop_bound:
  "hex_loop (Suc n) h cs = Ok r \<Longrightarrow> r = 0 \<or> r < (h + 16) * 16 ^ n"
proof (induction n arbitrary: h cs)
  case 0
  then show ?case using hex_digit_bound by (fastforce split: list.splits option.splits)
next
  case (Suc n)
  then obtain c ds where cs: "cs = c # ds" by (cases cs) auto
  show ?case
  proof (cases "hex_digit c")
    case None
    with Suc.prems cs show ?thesis by simp
  next
    case (Some d)
    then have "hex_loop (Suc n) (push_bit 4 (h + d)) ds = Ok r" using Suc.prems cs by simp
    from Suc.IH [OF this] have "r = 0 \<or> r < (16 * (h + d) + 16) * 16 ^ n" by (simp add: push_bit_eq_mult mult.commute)
    moreover have "(16 * (h + d) + 16) * 16 ^ n \<le> (16 * (h + 16)) * 16 ^ n"
      using hex_digit_bound [OF Some] by (intro mult_right_mono) simp_all
    ultimately have "r = 0 \<or> r < (16 * (h + 16)) * 16 ^ n" by linarith
    then have "r = 0 \<or> r < 16 * ((h + 16) * 16 ^ n)" by (simp only: mult.assoc)
    then show ?thesis by (simp add: mult.left_commute)
  qed
qed

lemma parse_hex4_Ok: "4 \<le> length cs \<Longrightarrow> \<exists>h. parse_hex4 cs = Ok h \<and> h < 0x10000"
  using hex_loop_Ok [of 4 cs 0] hex_loop_bound [of 3 0 cs] by (auto simp: parse_hex4_def)

lemma utf16_literal_Ok:
  "\<exists>n bs. utf16_literal_to_utf8 input = Ok (n, bs) \<and>
     (n = 0 \<or> n = 6 \<and> length bs \<le> 3 \<and> 6 \<le> length input \<or> n = 12 \<and> length bs \<le> 4 \<and> 12 \<le> length input)"
proof (cases "length input < 6")
  case False
  then have "4 \<le> length (drop 2 input)" by simp
  from parse_hex4_Ok [OF this] obtain f where f: "parse_hex4 (drop 2 input) = Ok f" "f < 0x10000" by blast
  show ?thesis
  proof (cases "0xD800 \<le> f \<and> f \<le> 0xDBFF \<and> \<not> length (drop 6 input) < 6")
    case True
    then have "4 \<le> length (drop 2 (drop 6 input))" by (simp add: not_less) linarith
    from parse_hex4_Ok [OF this] obtain g where "parse_hex4 (drop 2 (drop 6 input)) = Ok g" by blast
    with True f False show ?thesis
      using utf8_bytes_length [of "0x10000 + (push_bit 10 (f AND 0x3FF) OR (g AND 0x3FF))"]
      by (auto simp: utf16_literal_to_utf8_def Let_def split: option.splits)
  next
    case c: False
    with f False show ?thesis
      using utf8_bytes_length [of f]
      by (auto simp: utf16_literal_to_utf8_def Let_def split: option.splits)
  qed
qed (simp add: utf16_literal_to_utf8_def)

text \<open>
  The second pass from a position where the rest of the literal still fits: it stays in the text
  and in the allocation, and a failure is reported at a byte of the literal.
\<close>

lemma string_loop_safe:
  assumes "scan_string bs (pos + a) k = Some (e, sk)" and "a \<le> 1" and "pos \<le> e" and "B \<le> cap"
    and "length out + (e - pos) \<le> B + (sk - k)"
  shows "\<exists>r. string_loop bs e cap pos out = Ok r \<and>
    (case r of Inl q \<Rightarrow> pos \<le> q \<and> q < e | Inr res \<Rightarrow> length res \<le> B)"
  using assms
proof (induction bs e cap pos out arbitrary: a k rule: string_loop.induct)
  case (1 bs e cap pos out)
  note sc = 1(4) and a1 = 1(5) and pe = 1(6) and Bc = 1(7) and room = 1(8)
  note b = scan_string_end [OF sc]
  text \<open>A step of \<open>n\<close> bytes that writes \<open>m\<close> of them leaves enough room, and fits itself.\<close>
  have step: "\<exists>a' k'. scan_string bs (pos + n + a') k' = Some (e, sk) \<and> a' \<le> 1 \<and>
      length out + m + (e - (pos + n)) \<le> B + (sk - k')"
    if pn: "pos + n \<le> e" and mn: "m \<le> n - (n + 1) div 2" and n0: "0 < n" for n m
  proof -
    obtain a' j where s: "a' \<le> 1" "scan_string bs (pos + n + a') (k + j) = Some (e, sk)" "2 * j \<le> n + 1"
    proof -
      have "pos + a \<le> pos + n" using a1 n0 by linarith
      from scan_string_split [OF sc this pn] obtain a' j where
        "a' \<le> 1" "scan_string bs (pos + n + a') (k + j) = Some (e, sk)" "2 * j \<le> pos + n - (pos + a) + 1" by blast
      then show ?thesis by (intro that [of a' j]) auto
    qed
    have "k + j \<le> sk" using scan_string_end [OF s(2)] by simp
    moreover have "j \<le> (n + 1) div 2" using s(3) by linarith
    ultimately have "length out + m + (e - (pos + n)) \<le> B + (sk - (k + j))"
      using room pn mn n0 by linarith
    with s show ?thesis by blast
  qed
  show ?case
  proof (cases "pos = e")
    case True
    then have "sk = k" using b by simp
    with True show ?thesis using room by (simp add: string_loop.simps)
  next
    case False
    then have lt: "pos < e" using pe by simp
    then have len: "pos < length bs" "pos + 1 < length bs" using b by linarith+
    show ?thesis
    proof (cases "bs ! pos = CHR 0x5C")
      case plain: False
      have "\<exists>a' k'. scan_string bs (pos + 1 + a') k' = Some (e, sk) \<and> a' \<le> 1 \<and>
          length (out @ [bs ! pos]) + (e - (pos + 1)) \<le> B + (sk - k')"
      proof (cases "a = 0")
        case True
        with sc lt len plain b have "scan_string bs (pos + 1) k = Some (e, sk)"
          by (auto simp: scan_string.simps [of bs pos k] split: if_splits)
        then show ?thesis using room lt by (intro exI [of _ "0::nat"] exI [where x = k]) simp
      next
        case False
        then have "a = 1" using a1 by simp
        then have "scan_string bs (pos + 1 + 0) k = Some (e, sk)" using sc by simp
        then show ?thesis using room lt by (intro exI [of _ "0::nat"] exI [where x = k]) simp
      qed
      then obtain a' k' where n: "scan_string bs (pos + 1 + a') k' = Some (e, sk)" "a' \<le> 1"
        "length (out @ [bs ! pos]) + (e - (pos + 1)) \<le> B + (sk - k')" by blast
      have "2 * (sk - k') \<le> e - (pos + 1 + a')" using scan_string_end [OF n(1)] by simp
      with n(3) lt Bc have "length out + 1 \<le> cap" by simp
      then have "put cap out [bs ! pos] = Ok (out @ [bs ! pos])" by (simp add: put_def)
      with 1(1) [where x = "out @ [bs ! pos]", OF _ _ _ n(1,2) _ Bc n(3)] lt len plain show ?thesis
        by (simp add: string_loop.simps [of bs e cap pos out]) (fastforce split: sum.splits)
    next
      case esc: True
      let ?c = "bs ! (pos + 1)"
      show ?thesis
      proof (cases "simple_escape ?c")
        case (Some c)
        show ?thesis
        proof (cases "pos + 2 \<le> e")
          case True
          from step [of 2 1] True obtain a' k' where n: "scan_string bs (pos + 2 + a') k' = Some (e, sk)" "a' \<le> 1"
            "length (out @ [c]) + (e - (pos + 2)) \<le> B + (sk - k')" by auto
          have "2 * (sk - k') \<le> e - (pos + 2 + a')" using scan_string_end [OF n(1)] by simp
          with n(3) True Bc have "length out + 1 \<le> cap" by simp
          then have "put cap out [c] = Ok (out @ [c])" by (simp add: put_def)
          with 1(3) [where x = "out @ [c]", OF _ _ _ _ Some n(1,2) True Bc n(3)] lt len esc Some show ?thesis
            by (simp add: string_loop.simps [of bs e cap pos out]) (fastforce split: sum.splits)
        next
          case False
          then have e: "e = pos + 1" using lt by linarith
          then have "a = 1" using sc esc len lt a1 scan_string_end [of bs "pos + 2" "k + 1" e sk]
            by (cases "a = 0") (auto simp: scan_string.simps [of bs pos k] split: if_splits)
          then have "sk = k" using sc b e by (auto simp: scan_string.simps split: if_splits)
          then have "put cap out [c] = Ok (out @ [c])" "length (out @ [c]) \<le> B"
            using room e Bc by (simp_all add: put_def)
          moreover have "string_loop bs e cap (pos + 2) (out @ [c]) = Ok (Inr (out @ [c]))"
            by (subst string_loop.simps) (simp add: e)
          ultimately show ?thesis using lt len esc Some
            by (simp add: string_loop.simps [of bs e cap pos out])
        qed
      next
        case None
        show ?thesis
        proof (cases "?c = CHR ''u''")
          case False
          with None lt len esc show ?thesis by (simp add: string_loop.simps [of bs e cap pos out])
        next
          case u: True
          obtain n u8 where l: "utf16_literal_to_utf8 (take (e - pos) (drop pos bs)) = Ok (n, u8)"
            "n = 0 \<or> n = 6 \<and> length u8 \<le> 3 \<and> 6 \<le> length (take (e - pos) (drop pos bs)) \<or>
             n = 12 \<and> length u8 \<le> 4 \<and> 12 \<le> length (take (e - pos) (drop pos bs))"
            using utf16_literal_Ok by blast
          show ?thesis
          proof (cases "n = 0")
            case True
            with l None u lt len esc show ?thesis by (simp add: string_loop.simps [of bs e cap pos out])
          next
            case False
            then have n: "pos + n \<le> e" "length u8 \<le> n - (n + 1) div 2" "0 < n" using l(2) b lt by auto
            from step [OF n] obtain a' k' where m: "scan_string bs (pos + n + a') k' = Some (e, sk)" "a' \<le> 1"
              "length (out @ u8) + (e - (pos + n)) \<le> B + (sk - k')" by auto
            have "2 * (sk - k') \<le> e - (pos + n + a')" using scan_string_end [OF m(1)] by simp
            with m(3) n Bc have "length out + length u8 \<le> cap" by simp
            then have "put cap out u8 = Ok (out @ u8)" by (simp add: put_def)
            with 1(2) [where x = n and xaa = "out @ u8", OF _ _ _ _ None u False m(1,2) n(1) Bc m(3)] l(1) lt len esc None u False
            show ?thesis
              by (simp add: string_loop.simps [of bs e cap pos out]) (fastforce split: sum.splits)
          qed
        qed
      qed
    qed
  qed
qed

section \<open>Every parse ends, in bounds, and leaks nothing\<close>

text \<open>A buffer that ends with the terminator, at a position inside it.\<close>

definition inside :: "parse_buffer \<Rightarrow> bool" where
  "inside p \<longleftrightarrow> offset p < length (content p) \<and> last (content p) = NUL"

text \<open>A new item, perhaps with a name: nothing of it but the name is on the heap.\<close>

definition fresh_item :: "cJSON \<Rightarrow> bool" where
  "fresh_item item \<longleftrightarrow> valuestring item = None \<and> child item = [] \<and>
     type item AND cJSON_IsReference = 0 \<and> type item AND cJSON_StringIsConst = 0"

text \<open>
  What every function that parses into an item keeps: the text, the hooks, and the balance of the
  blocks; on success it has moved on, inside the buffer and on the same level.
\<close>

definition parsed_to :: "cJSON \<Rightarrow> parse_buffer \<Rightarrow> bool \<Rightarrow> cJSON \<Rightarrow> parse_buffer \<Rightarrow> bool" where
  "parsed_to item p ok item' p' \<longleftrightarrow>
     content p' = content p \<and> grants (pool p') = grants (pool p) \<and> item_name item' = item_name item \<and>
     live (pool p') - live (pool p) = blocks item' - blocks item \<and>
     (if ok then offset p < offset p' \<and> offset p' < length (content p) \<and> depth p' = depth p
      else item' = item)"

lemma set_simps [simp]:
  "type (set_type t i) = t" "valuestring (set_type t i) = valuestring i" "valueint (set_type t i) = valueint i"
  "valuedouble (set_type t i) = valuedouble i" "item_name (set_type t i) = item_name i" "child (set_type t i) = child i"
  "type (set_valuestring s i) = type i" "valuestring (set_valuestring s i) = s" "item_name (set_valuestring s i) = item_name i"
  "child (set_valuestring s i) = child i" "type (set_valueint n i) = type i" "valuestring (set_valueint n i) = valuestring i"
  "item_name (set_valueint n i) = item_name i" "child (set_valueint n i) = child i" "valueint (set_valueint n i) = n"
  "type (set_valuedouble d i) = type i" "valuestring (set_valuedouble d i) = valuestring i"
  "item_name (set_valuedouble d i) = item_name i" "child (set_valuedouble d i) = child i" "valuedouble (set_valuedouble d i) = d"
  "type (set_name k i) = type i" "valuestring (set_name k i) = valuestring i" "item_name (set_name k i) = k"
  "child (set_name k i) = child i" "type (set_child c i) = type i" "valuestring (set_child c i) = valuestring i"
  "item_name (set_child c i) = item_name i" "child (set_child c i) = c" "valueint (set_valuedouble d i) = valueint i"
  "valuedouble (set_valueint n i) = valuedouble i"
  by (cases i; simp)+

lemma blocks_eq:
  "blocks i = 1 + (if type i AND cJSON_IsReference = 0
                   then (if valuestring i = None then 0 else 1) + all_blocks (child i) else 0) +
     (if type i AND cJSON_StringIsConst = 0 \<and> item_name i \<noteq> None then 1 else 0)"
  by (cases i) (simp add: all_blocks_def)

declare blocks.simps [simp del]

text \<open>The plain types carry neither flag.\<close>

definition plain_type :: "int \<Rightarrow> bool" where
  "plain_type t \<longleftrightarrow> t AND cJSON_IsReference = 0 \<and> t AND cJSON_StringIsConst = 0"

lemma plain_types [simp]:
  "plain_type cJSON_Invalid" "plain_type cJSON_False" "plain_type cJSON_True" "plain_type cJSON_NULL"
  "plain_type cJSON_Number" "plain_type cJSON_String" "plain_type cJSON_Array" "plain_type cJSON_Object"
  "plain_type cJSON_Raw"
  by (simp_all add: plain_type_def cJSON_types)

lemma blocks_plain:
  "plain_type (type i) \<Longrightarrow>
     blocks i = 1 + (if valuestring i = None then 0 else 1) + all_blocks (child i) + (if item_name i = None then 0 else 1)"
  by (simp add: blocks_eq plain_type_def)

lemma fresh_item_iff: "fresh_item i \<longleftrightarrow> valuestring i = None \<and> child i = [] \<and> plain_type (type i)"
  by (auto simp: fresh_item_def plain_type_def)

lemma New_Item_cases:
  "(\<exists>h1. cJSON_New_Item h = (None, h1) \<and> live h1 = live h \<and> grants h1 = grants h) \<or>
   (\<exists>i h1. cJSON_New_Item h = (Some i, h1) \<and> live h1 = live h + 1 \<and> grants h1 = grants h \<and>
      fresh_item i \<and> item_name i = None \<and> blocks i = 1)"
  by (simp add: cJSON_New_Item_def allocate_def fresh_item_iff blocks_eq)

lemma white_NUL [simp]: "white NUL"
  by (simp add: white_def)

lemma not_last:
  assumes "inside p" and "k < length (content p)" and "content p ! k \<noteq> NUL"
  shows "k + 1 < length (content p)"
proof (rule ccontr)
  assume "\<not> k + 1 < length (content p)"
  with assms(2) have k: "k = length (content p) - 1" and ne: "content p \<noteq> []" by auto
  then have "content p ! k = NUL" using assms(1) by (simp add: inside_def last_conv_nth)
  with assms(3) show False by simp
qed

lemma skip_whitespace:
  assumes "inside p"
  shows "inside (buffer_skip_whitespace p)" and "offset p \<le> offset (buffer_skip_whitespace p)"
    and "content (buffer_skip_whitespace p) = content p" and "pool (buffer_skip_whitespace p) = pool p"
    and "depth (buffer_skip_whitespace p) = depth p"
proof -
  have "length (takeWhile white (drop (offset p) (content p))) \<le> length (content p) - offset p"
    by (metis length_drop length_takeWhile_le)
  with assms show "inside (buffer_skip_whitespace p)" "offset p \<le> offset (buffer_skip_whitespace p)"
    "content (buffer_skip_whitespace p) = content p" "pool (buffer_skip_whitespace p) = pool p"
    "depth (buffer_skip_whitespace p) = depth p"
    by (auto simp: buffer_skip_whitespace_def advance_def inside_def Let_def)
qed

lemma advance_simps [simp]:
  "offset (advance n p) = offset p + n" "content (advance n p) = content p" "depth (advance n p) = depth p"
  "pool (advance n p) = pool p" "offset (set_pool h p) = offset p" "content (set_pool h p) = content p"
  "depth (set_pool h p) = depth p" "pool (set_pool h p) = h"
  by (simp_all add: advance_def set_pool_def)

lemma at_char_Ok:
  "at_char p c = Ok (offset p < length (content p) \<and> content p ! offset p = c)"
  by (simp add: at_char_def can_access_at_index_def byte_at_def)

lemma at_word_advance:
  assumes "inside p" and "at_word p w" and "w \<noteq> []" and "last w \<noteq> NUL"
  shows "offset p + length w < length (content p)"
proof -
  let ?k = "offset p + (length w - 1)"
  have le: "offset p + length w \<le> length (content p)" and w: "take (length w) (drop (offset p) (content p)) = w"
    using assms(2) by (simp_all add: at_word_def can_read_def)
  have k: "?k < length (content p)" using le assms(3) by (cases w) auto
  have lw: "length w - 1 < length w" using assms(3) by (cases w) auto
  then have "w ! (length w - 1) = content p ! ?k"
    using arg_cong [OF w, of "\<lambda>xs. xs ! (length w - 1)"] k by simp
  then have "content p ! ?k \<noteq> NUL" using assms(3,4) by (simp add: last_conv_nth)
  from not_last [OF assms(1) k this] lw show ?thesis by linarith
qed

subsection \<open>Strings and numbers\<close>

lemma parse_string_safe:
  assumes "inside p" and "fresh_item item"
  shows "\<exists>ok item' p'. parse_string item p = Ok (ok, item', p') \<and> parsed_to item p ok item' p' \<and>
    (ok \<longrightarrow> plain_type (type item') \<and> valuestring item' \<noteq> None \<and> child item' = [])"
proof -
  let ?s = "offset p + 1"
  have b: "byte_at p 0 = Ok (content p ! offset p)" using assms(1) by (simp add: byte_at_def inside_def)
  obtain ok h1 where al0: "allocate (pool p) = (ok, h1)" by force
  have al: "allocate (pool p) = (ok, h1)" "grants h1 = grants (pool p)"
    "live h1 = live (pool p) + (if ok then 1 else 0)" using al0 by (auto simp: allocate_def split: if_splits)
  show ?thesis
  proof (cases "content p ! offset p = CHR 0x22 \<and> scan_string (content p) ?s 0 \<noteq> None \<and> ok")
    case False
    then show ?thesis using b al
      by (auto simp: parse_string_def Let_def parsed_to_def split: option.splits)
  next
    case True
    then obtain e sk where sc: "scan_string (content p) ?s 0 = Some (e, sk)" by auto
    note se = scan_string_end [OF sc]
    define cap where "cap = e - offset p - sk + 1"
    have "scan_string (content p) (?s + 0) 0 = Some (e, sk)" using sc by simp
    moreover have "length ([]::char list) + (e - ?s) \<le> (cap - 1) + (sk - 0)" by (simp add: cap_def)
    ultimately obtain r where r: "string_loop (content p) e cap ?s [] = Ok r"
      "case r of Inl q \<Rightarrow> ?s \<le> q \<and> q < e | Inr res \<Rightarrow> length res \<le> cap - 1"
      using string_loop_safe [of "content p" ?s 0 0 e sk "cap - 1" cap "[]"] se by auto
    have cap: "Suc (e - (offset p + sk)) = cap" by (simp add: cap_def)
    show ?thesis
    proof (cases r)
      case (Inl q)
      then have "parse_string item p = Ok (False, item, p\<lparr>offset := q, pool := deallocate h1\<rparr>)"
        using b al True sc r(1) by (simp add: parse_string_def Let_def cap)
      then show ?thesis using al True by (auto simp: parsed_to_def)
    next
      case (Inr res)
      then have "put cap res [NUL] = Ok (res @ [NUL])" using r(2) by (simp add: put_def cap_def)
      then have "parse_string item p = Ok (True, set_valuestring (Some (cstr (res @ [NUL]))) (set_type cJSON_String item),
          p\<lparr>offset := e + 1, pool := h1\<rparr>)"
        using b al True sc r(1) Inr by (simp add: parse_string_def Let_def cap)
      moreover have "e + 1 < length (content p)" using not_last [OF assms(1)] se by simp
      ultimately show ?thesis using al True se assms(2)
        by (auto simp: parsed_to_def blocks_plain fresh_item_iff)
    qed
  qed
qed

lemma strip_sign_length: "strip_sign s = (n, t) \<Longrightarrow> length t \<le> length s"
  by (auto simp: strip_sign_def split: list.splits if_splits)

lemma length_dropWhile_plus: "length (takeWhile P s) + length (dropWhile P s) = length s"
  by (metis length_append takeWhile_dropWhile_id)

lemma strip_exponent_length: "strip_exponent s = (x, t) \<Longrightarrow> length t \<le> length s"
proof -
  assume a: "strip_exponent s = (x, t)"
  have "length (drop n (snd (strip_sign u))) \<le> Suc (length u)" for n u
    using strip_sign_length [of u "fst (strip_sign u)" "snd (strip_sign u)"] by simp
  with a show ?thesis
    by (auto simp: strip_exponent_def Let_def split_beta split: list.splits if_splits)
qed

lemma strtod_consumes:
  assumes "strtod s = Some (d, t)"
  shows "length t < length s" and "d \<noteq> NaN" and "wf_double d"
proof -
  obtain neg s1 where s1: "strip_sign s = (neg, s1)" by force
  define ip where "ip = takeWhile is_digit s1"
  define s2 where "s2 = dropWhile is_digit s1"
  obtain fp s3 where f: "(case s2 of [] \<Rightarrow> ([], s2)
      | c # u \<Rightarrow> if c = CHR ''.'' then (takeWhile is_digit u, dropWhile is_digit u) else ([], s2)) = (fp, s3)"
    by force
  have l3: "length fp + length s3 \<le> length s2"
    using f by (auto simp: length_dropWhile_plus split: list.splits if_splits)
  have l2: "length ip + length s2 = length s1" unfolding ip_def s2_def by (rule length_dropWhile_plus)
  obtain x s4 where e: "strip_exponent s3 = (x, s4)" by force
  have st: "\<not> (ip = [] \<and> fp = [])" "d = round_double neg (digits_val (ip @ fp) * 10 ^ nat (x - int (length fp)))
      (10 ^ nat (- (x - int (length fp))))" "t = s4"
    using assms unfolding strtod_def s1 Let_def prod.case ip_def [symmetric] s2_def [symmetric] f e
    by (auto split: if_splits)
  have "0 < length ip + length fp" using st(1) by auto
  with l2 l3 strip_exponent_length [OF e] strip_sign_length [OF s1]
  show "length t < length s" unfolding st(3) by linarith
  show "d \<noteq> NaN" using round_double_sign [of neg] st(2) by (metis double.distinct(3,5))
  show "wf_double d" unfolding st(2) by (rule round_double_wf) simp
qed

lemma int_div_le: "int (a div b) * int b \<le> int a"
  using of_nat_mono [OF div_times_less_eq_dividend [of a b], where 'a = int] by (simp only: of_nat_mult)

lemma saturated_int_Ok: "d \<noteq> NaN \<Longrightarrow> \<exists>i. saturated_int d = Ok i \<and> int32 i"
proof (cases d)
  case (Fin s m e)
  let ?n = "num2 m e" and ?d = "den2 e"
  have q: "int (?n div ?d) * int ?d \<le> int ?n" by (rule int_div_le)
  have pos: "0 < int ?d" by simp
  show ?thesis
  proof (cases "double_ge_int d 2147483647 \<or> double_le_int d (- 2147483648)")
    case True
    then show ?thesis by (auto simp: saturated_int_def int32_def)
  next
    case False
    show ?thesis
    proof (cases s)
      case True
      then have "int ?n < 2147483648 * int ?d" using False Fin by simp
      then have "int (?n div ?d) * int ?d < 2147483648 * int ?d" using q by linarith
      then have "int (?n div ?d) < 2147483648" using pos by (simp only: mult_less_cancel_right_pos)
      then have "int32 (- int (?n div ?d))" by (simp add: int32_def)
      with True Fin False show ?thesis by (simp add: saturated_int_def Let_def)
    next
      case f: False
      then have "int ?n < 2147483647 * int ?d" using False Fin by simp
      then have "int (?n div ?d) * int ?d < 2147483647 * int ?d" using q by linarith
      then have "int (?n div ?d) < 2147483647" using pos by (simp only: mult_less_cancel_right_pos)
      then have "int32 (int (?n div ?d))" by (simp add: int32_def)
      with f Fin False show ?thesis by (simp add: saturated_int_def Let_def)
    qed
  qed
next
  case (Inf s)
  then show ?thesis by (cases s) (simp_all add: saturated_int_def int32_def)
qed simp

lemma parse_number_safe:
  assumes "inside p" and "fresh_item item"
  shows "\<exists>ok item' p'. parse_number item p = Ok (ok, item', p') \<and> parsed_to item p ok item' p' \<and>
    (ok \<longrightarrow> plain_type (type item') \<and> valuestring item' = None \<and> child item' = [])"
proof -
  define ncs where "ncs = takeWhile number_char (take 63 (drop (offset p) (content p)))"
  have nl: "offset p + length ncs < length (content p)"
  proof -
    let ?D = "drop (offset p) (content p)"
    obtain zs where zs: "?D = ncs @ zs"
      unfolding ncs_def by (metis append.assoc append_take_drop_id takeWhile_dropWhile_id)
    have "last ?D = NUL" "?D \<noteq> []" using assms(1) by (simp_all add: inside_def)
    moreover have "NUL \<notin> set ncs"
    proof
      assume "NUL \<in> set ncs"
      then have "number_char NUL" unfolding ncs_def by (rule set_takeWhileD [THEN conjunct2])
      then show False by (simp add: number_char_def is_digit_def)
    qed
    ultimately have "zs \<noteq> []" using zs by (auto dest: last_in_set)
    then have "length ncs < length ?D" using zs by simp
    then show ?thesis by simp
  qed
  show ?thesis
  proof (cases "strtod ncs")
    case None
    then show ?thesis
      by (intro exI [of _ False] exI [of _ item] exI [of _ p])
        (simp add: parse_number_def ncs_def [symmetric] parsed_to_def)
  next
    case (Some dr)
    obtain d r where dr: "dr = (d, r)" by force
    note c = strtod_consumes [OF Some [unfolded dr]]
    obtain i where "saturated_int d = Ok i" using saturated_int_Ok [OF c(2)] by blast
    then have "parse_number item p = Ok (True, set_type cJSON_Number (set_valueint i (set_valuedouble d item)),
        advance (length ncs - length r) p)"
      using Some dr by (simp add: parse_number_def ncs_def [symmetric])
    moreover have "offset p < offset p + (length ncs - length r)" "offset p + (length ncs - length r) < length (content p)"
      using c(1) nl by linarith+
    moreover have "parsed_to item p True (set_type cJSON_Number (set_valueint i (set_valuedouble d item)))
        (advance (length ncs - length r) p)"
      using calculation(2,3) assms(2) by (simp add: parsed_to_def blocks_plain fresh_item_iff)
    ultimately show ?thesis using assms(2)
      by (intro exI [of _ True] exI [of _ "set_type cJSON_Number (set_valueint i (set_valuedouble d item))"]
          exI [of _ "advance (length ncs - length r) p"]) (simp add: fresh_item_iff)
  qed
qed

subsection \<open>The recursion\<close>

text \<open>
  What the four recursive functions owe each other. The fuel covers three calls for each byte
  that is left.
\<close>

definition value_ok ::
    "nat \<Rightarrow> (nat \<Rightarrow> cJSON \<Rightarrow> parse_buffer \<Rightarrow> (bool \<times> cJSON \<times> parse_buffer) outcome) \<Rightarrow> nat \<Rightarrow> bool" where
  "value_ok c f fuel \<longleftrightarrow> (\<forall>item p. inside p \<and> fresh_item item \<and> 3 * length (content p) + c \<le> fuel + 3 * offset p \<longrightarrow>
     (\<exists>ok item' p'. f fuel item p = Ok (ok, item', p') \<and> parsed_to item p ok item' p'))"

definition looped :: "cJSON list \<Rightarrow> parse_buffer \<Rightarrow> cJSON list option \<Rightarrow> parse_buffer \<Rightarrow> bool" where
  "looped items p r p' \<longleftrightarrow>
     content p' = content p \<and> grants (pool p') = grants (pool p) \<and>
     live (pool p') - live (pool p) = all_blocks (case r of None \<Rightarrow> [] | Some cs \<Rightarrow> cs) - all_blocks items \<and>
     (r \<noteq> None \<longrightarrow> offset p < offset p' \<and> offset p' + 1 < length (content p) \<and> depth p' = depth p)"

definition loop_ok ::
    "(nat \<Rightarrow> cJSON list \<Rightarrow> parse_buffer \<Rightarrow> (cJSON list option \<times> parse_buffer) outcome) \<Rightarrow> nat \<Rightarrow> bool" where
  "loop_ok f fuel \<longleftrightarrow> (\<forall>items p. offset p + 1 < length (content p) \<and> last (content p) = NUL \<and>
       3 * length (content p) \<le> fuel + 3 * offset p + 1 \<longrightarrow>
     (\<exists>r p'. f fuel items p = Ok (r, p') \<and> looped items p r p'))"

lemma value_okD:
  "value_ok c f fuel \<Longrightarrow> inside p \<Longrightarrow> fresh_item item \<Longrightarrow> 3 * length (content p) + c \<le> fuel + 3 * offset p \<Longrightarrow>
   \<exists>ok item' p'. f fuel item p = Ok (ok, item', p') \<and> parsed_to item p ok item' p'"
  by (simp add: value_ok_def)

lemma loop_okD:
  "loop_ok f fuel \<Longrightarrow> offset p + 1 < length (content p) \<Longrightarrow> last (content p) = NUL \<Longrightarrow>
   3 * length (content p) \<le> fuel + 3 * offset p + 1 \<Longrightarrow> \<exists>r p'. f fuel items p = Ok (r, p') \<and> looped items p r p'"
  by (simp add: loop_ok_def)

lemma parsed_word:
  "inside p \<Longrightarrow> fresh_item item \<Longrightarrow> at_word p w \<Longrightarrow> n = length w \<Longrightarrow> w \<noteq> [] \<Longrightarrow> last w \<noteq> NUL \<Longrightarrow>
   plain_type (type item') \<Longrightarrow> valuestring item' = None \<Longrightarrow> child item' = [] \<Longrightarrow> item_name item' = item_name item \<Longrightarrow>
   parsed_to item p True item' (advance n p)"
  using at_word_advance [of p w] by (simp add: parsed_to_def blocks_plain fresh_item_iff)

lemma value_step:
  assumes "value_ok 0 parse_array fuel" and "value_ok 0 parse_object fuel"
  shows "value_ok 1 parse_value (Suc fuel)"
  unfolding value_ok_def
proof (intro allI impI)
  fix item p
  assume a: "inside p \<and> fresh_item item \<and> 3 * length (content p) + 1 \<le> Suc fuel + 3 * offset p"
  then have p: "inside p" and f: "fresh_item item" and fuel: "3 * length (content p) + 0 \<le> fuel + 3 * offset p" by auto
  have b: "byte_at p 0 = Ok (content p ! offset p)" "can_access_at_index p 0"
    using p by (simp_all add: byte_at_def inside_def can_access_at_index_def)
  let ?c = "content p ! offset p"
  show "\<exists>ok item' p'. parse_value (Suc fuel) item p = Ok (ok, item', p') \<and> parsed_to item p ok item' p'"
  proof (cases "at_word p ''null'' \<or> at_word p ''false'' \<or> at_word p ''true''")
    case True
    have "parsed_to item p True (set_type cJSON_NULL item) (advance 4 p)" if "at_word p ''null''"
      using parsed_word [OF p f that, of 4] f by (simp add: fresh_item_iff)
    moreover have "parsed_to item p True (set_type cJSON_False item) (advance 5 p)" if "at_word p ''false''"
      using parsed_word [OF p f that, of 5] f by (simp add: fresh_item_iff)
    moreover have "parsed_to item p True (set_valueint 1 (set_type cJSON_True item)) (advance 4 p)" if "at_word p ''true''"
      using parsed_word [OF p f that, of 4] f by (simp add: fresh_item_iff)
    ultimately show ?thesis using True by auto
  next
    case False
    then have v: "parse_value (Suc fuel) item p =
        (if ?c = CHR 0x22 then parse_string item p
         else if ?c = CHR ''-'' \<or> is_digit ?c then parse_number item p
         else if ?c = CHR ''['' then parse_array fuel item p
         else if ?c = CHR ''{'' then parse_object fuel item p
         else Ok (False, item, p))"
      using b by simp
    have "parsed_to item p False item p" by (simp add: parsed_to_def)
    then show ?thesis
      unfolding v using parse_string_safe [OF p f] parse_number_safe [OF p f]
        value_okD [OF assms(1) p f fuel] value_okD [OF assms(2) p f fuel]
      by (auto split: if_splits)
  qed
qed

text \<open>The opening bracket, the white space and the closing bracket are shared by both containers.\<close>

lemma opened:
  assumes "inside p" and "content p ! offset p \<noteq> NUL"
  defines "p2 \<equiv> buffer_skip_whitespace (advance 1 (p\<lparr>depth := depth p + 1\<rparr>))"
  shows "inside p2" and "offset p + 1 \<le> offset p2" and "content p2 = content p" and "pool p2 = pool p"
    and "depth p2 = depth p + 1" and "offset p2 < length (content p)"
proof -
  have "offset p + 1 < length (content p)" using not_last [OF assms(1) _ assms(2)] assms(1) by (simp add: inside_def)
  then have "inside (advance 1 (p\<lparr>depth := depth p + 1\<rparr>))" using assms(1) by (simp add: inside_def)
  note s = skip_whitespace [OF this]
  show "inside p2" "offset p + 1 \<le> offset p2" "content p2 = content p" "pool p2 = pool p" "depth p2 = depth p + 1"
    using s by (simp_all add: p2_def)
  then show "offset p2 < length (content p)" by (simp add: inside_def)
qed

lemma closed:
  assumes "inside p" and "fresh_item item" and "offset p + 1 \<le> offset p3 + 1" and "offset p3 + 1 < length (content p)"
    and "content p3 = content p" and "grants (pool p3) = grants (pool p)" and "depth p3 = depth p + 1"
    and "live (pool p3) - live (pool p) = all_blocks cs" and "plain_type t"
  shows "parsed_to item p True (set_child cs (set_type t item))
    (p3\<lparr>depth := depth p3 - 1, offset := offset p3 + 1\<rparr>)"
  using assms by (auto simp: parsed_to_def blocks_plain fresh_item_iff)

lemma array_step:
  assumes "loop_ok parse_array_loop fuel"
  shows "value_ok 0 parse_array (Suc fuel)"
  unfolding value_ok_def
proof (intro allI impI)
  fix item p
  assume a: "inside p \<and> fresh_item item \<and> 3 * length (content p) + 0 \<le> Suc fuel + 3 * offset p"
  then have p: "inside p" and f: "fresh_item item" and fuel: "3 * length (content p) \<le> fuel + 3 * offset p + 1" by auto
  let ?p1 = "p\<lparr>depth := depth p + 1\<rparr>"
  have b: "byte_at ?p1 0 = Ok (content p ! offset p)" using p by (simp add: byte_at_def inside_def)
  show "\<exists>ok item' p'. parse_array (Suc fuel) item p = Ok (ok, item', p') \<and> parsed_to item p ok item' p'"
  proof (cases "depth p < nesting_limit \<and> content p ! offset p = CHR ''[''")
    case False
    then show ?thesis using b by (auto simp: parsed_to_def)
  next
    case True
    then have nn: "content p ! offset p \<noteq> NUL" by simp
    define p2 where "p2 = buffer_skip_whitespace (advance 1 ?p1)"
    note o = opened [OF p nn, folded p2_def]
    have p2: "buffer_skip_whitespace (advance (Suc 0) (p\<lparr>depth := Suc (depth p)\<rparr>)) = p2" by (simp add: p2_def)
    show ?thesis
    proof (cases "content p2 ! offset p2 = CHR '']''")
      case c: True
      have "parse_array (Suc fuel) item p = Ok (True, set_child [] (set_type cJSON_Array item),
          p2\<lparr>depth := depth p2 - 1, offset := offset p2 + 1\<rparr>)"
        using True b c o by (simp add: p2 at_char_Ok can_access_at_index_def Let_def inside_def)
      moreover have "offset p2 + 1 < length (content p)"
        using not_last [OF o(1), of "offset p2"] c o by simp
      ultimately show ?thesis using closed [OF p f, of p2 "[]" cJSON_Array] o by fastforce
    next
      case nc: False
      let ?q = "p2\<lparr>offset := offset p2 - 1\<rparr>"
      have q: "offset ?q + 1 < length (content ?q)" "last (content ?q) = NUL"
        "3 * length (content ?q) \<le> fuel + 3 * offset ?q + 1"
        using o fuel by (auto simp: inside_def)
      obtain r p3 where l: "parse_array_loop fuel [] ?q = Ok (r, p3)" "looped [] ?q r p3"
        using loop_okD [OF assms q] by blast
      have v: "parse_array (Suc fuel) item p =
        (case r of None \<Rightarrow> Ok (False, item, p3)
         | Some cs \<Rightarrow> Ok (True, set_child cs (set_type cJSON_Array item),
             p3\<lparr>depth := depth p3 - 1, offset := offset p3 + 1\<rparr>))"
        using True b nc o l(1) by (simp add: p2 at_char_Ok can_access_at_index_def Let_def inside_def)
      show ?thesis
      proof (cases r)
        case None
        then show ?thesis using l(2) o v by (auto simp: looped_def parsed_to_def)
      next
        case (Some cs)
        then have "parsed_to item p True (set_child cs (set_type cJSON_Array item))
            (p3\<lparr>depth := depth p3 - 1, offset := offset p3 + 1\<rparr>)"
          using l(2) o by (intro closed [OF p f]) (auto simp: looped_def)
        with v Some show ?thesis by auto
      qed
    qed
  qed
qed

lemma object_step:
  assumes "loop_ok parse_object_loop fuel"
  shows "value_ok 0 parse_object (Suc fuel)"
  unfolding value_ok_def
proof (intro allI impI)
  fix item p
  assume a: "inside p \<and> fresh_item item \<and> 3 * length (content p) + 0 \<le> Suc fuel + 3 * offset p"
  then have p: "inside p" and f: "fresh_item item" and fuel: "3 * length (content p) \<le> fuel + 3 * offset p + 1" by auto
  let ?p1 = "p\<lparr>depth := depth p + 1\<rparr>"
  have b: "at_char ?p1 (CHR ''{'') = Ok (content p ! offset p = CHR ''{'')" using p by (simp add: at_char_Ok inside_def)
  show "\<exists>ok item' p'. parse_object (Suc fuel) item p = Ok (ok, item', p') \<and> parsed_to item p ok item' p'"
  proof (cases "depth p < nesting_limit \<and> content p ! offset p = CHR ''{''")
    case False
    then show ?thesis using b by (auto simp: parsed_to_def)
  next
    case True
    then have nn: "content p ! offset p \<noteq> NUL" by simp
    define p2 where "p2 = buffer_skip_whitespace (advance 1 ?p1)"
    note o = opened [OF p nn, folded p2_def]
    have p2: "buffer_skip_whitespace (advance (Suc 0) (p\<lparr>depth := Suc (depth p)\<rparr>)) = p2" by (simp add: p2_def)
    show ?thesis
    proof (cases "content p2 ! offset p2 = CHR ''}''")
      case c: True
      have "parse_object (Suc fuel) item p = Ok (True, set_child [] (set_type cJSON_Object item),
          p2\<lparr>depth := depth p2 - 1, offset := offset p2 + 1\<rparr>)"
        using True b c o by (simp add: p2 at_char_Ok can_access_at_index_def Let_def inside_def)
      moreover have "offset p2 + 1 < length (content p)"
        using not_last [OF o(1), of "offset p2"] c o by simp
      ultimately show ?thesis using closed [OF p f, of p2 "[]" cJSON_Object] o by fastforce
    next
      case nc: False
      let ?q = "p2\<lparr>offset := offset p2 - 1\<rparr>"
      have q: "offset ?q + 1 < length (content ?q)" "last (content ?q) = NUL"
        "3 * length (content ?q) \<le> fuel + 3 * offset ?q + 1"
        using o fuel by (auto simp: inside_def)
      obtain r p3 where l: "parse_object_loop fuel [] ?q = Ok (r, p3)" "looped [] ?q r p3"
        using loop_okD [OF assms q] by blast
      have v: "parse_object (Suc fuel) item p =
        (case r of None \<Rightarrow> Ok (False, item, p3)
         | Some cs \<Rightarrow> Ok (True, set_child cs (set_type cJSON_Object item),
             p3\<lparr>depth := depth p3 - 1, offset := offset p3 + 1\<rparr>))"
        using True b nc o l(1) by (simp add: p2 at_char_Ok can_access_at_index_def Let_def inside_def)
      show ?thesis
      proof (cases r)
        case None
        then show ?thesis using l(2) o v by (auto simp: looped_def parsed_to_def)
      next
        case (Some cs)
        then have "parsed_to item p True (set_child cs (set_type cJSON_Object item))
            (p3\<lparr>depth := depth p3 - 1, offset := offset p3 + 1\<rparr>)"
          using l(2) o by (intro closed [OF p f]) (auto simp: looped_def)
        with v Some show ?thesis by auto
      qed
    qed
  qed
qed

text \<open>One turn of a loop after its value: the comma, the closing bracket, or the clean-up.\<close>

lemma after_element:
  assumes "inside p1" and "loop_ok f fuel" and "3 * length (content p1) \<le> fuel + 3 * offset p1 + 1"
    and "c \<noteq> NUL" and "d \<noteq> NUL"
  shows "\<exists>r p'. (let p2 = buffer_skip_whitespace p1
      in obind (at_char p2 c)
          (\<lambda>comma. if comma then f fuel items p2
             else obind (at_char p2 d)
               (\<lambda>closing. if closing then Ok (Some items, p2)
                  else Ok (None, set_pool (cJSON_Delete items (pool p2)) p2)))) = Ok (r, p') \<and>
     content p' = content p1 \<and> grants (pool p') = grants (pool p1) \<and>
     live (pool p') - live (pool p1) = all_blocks (case r of None \<Rightarrow> [] | Some cs \<Rightarrow> cs) - all_blocks items \<and>
     (r \<noteq> None \<longrightarrow> offset p1 \<le> offset p' \<and> offset p' + 1 < length (content p1) \<and> depth p' = depth p1)"
proof -
  define p2 where "p2 = buffer_skip_whitespace p1"
  note s = skip_whitespace [OF assms(1), folded p2_def]
  have nl: "offset p2 + 1 < length (content p2)" if "content p2 ! offset p2 \<noteq> NUL"
    using not_last [OF s(1) _ that] s(1) by (simp add: inside_def)
  have lt: "offset p2 < length (content p2)" "last (content p2) = NUL" using s(1) by (simp_all add: inside_def)
  have ch: "at_char p2 c = Ok (content p2 ! offset p2 = c)" "at_char p2 d = Ok (content p2 ! offset p2 = d)"
    using lt by (simp_all add: at_char_Ok)
  show ?thesis
  proof (cases "content p2 ! offset p2 = c")
    case True
    then have n: "offset p2 + 1 < length (content p2)" using nl assms(4) by simp
    have "3 * length (content p2) \<le> fuel + 3 * offset p2 + 1" using assms(3) s(2,3) by simp
    from loop_okD [OF assms(2) n lt(2) this] obtain r p' where
      "f fuel items p2 = Ok (r, p')" "looped items p2 r p'" by blast
    with True ch s n show ?thesis
      unfolding p2_def [symmetric] by (auto simp: looped_def)
  next
    case False
    then show ?thesis
      using ch s nl assms(5) unfolding p2_def [symmetric] by (cases "content p2 ! offset p2 = d") auto
  qed
qed

lemma array_loop_step:
  assumes "value_ok 1 parse_value fuel" and "loop_ok parse_array_loop fuel"
  shows "loop_ok parse_array_loop (Suc fuel)"
  unfolding loop_ok_def
proof (intro allI impI)
  fix items and p :: parse_buffer
  assume a: "offset p + 1 < length (content p) \<and> last (content p) = NUL \<and> 3 * length (content p) \<le> Suc fuel + 3 * offset p + 1"
  show "\<exists>r p'. parse_array_loop (Suc fuel) items p = Ok (r, p') \<and> looped items p r p'"
    using New_Item_cases [of "pool p"]
  proof (elim disjE exE conjE)
    fix h1
    assume "cJSON_New_Item (pool p) = (None, h1)" "live h1 = live (pool p)" "grants h1 = grants (pool p)"
    then show ?thesis by (simp add: looped_def)
  next
    fix i h1
    assume n: "cJSON_New_Item (pool p) = (Some i, h1)" "live h1 = live (pool p) + 1" "grants h1 = grants (pool p)"
      "fresh_item i" "blocks i = 1"
    define q where "q = buffer_skip_whitespace (advance 1 (set_pool h1 p))"
    have "inside (advance 1 (set_pool h1 p))" using a by (simp add: inside_def)
    note s = skip_whitespace [OF this, folded q_def]
    have q: "buffer_skip_whitespace (advance (Suc 0) (set_pool h1 p)) = q" by (simp add: q_def)
    have "3 * length (content q) + 1 \<le> fuel + 3 * offset q" using a s by simp
    from value_okD [OF assms(1) s(1) n(4) this] obtain ok item p1 where
      v: "parse_value fuel i q = Ok (ok, item, p1)" "parsed_to i q ok item p1" by blast
    have u: "parse_array_loop (Suc fuel) items p =
        (if \<not> ok then Ok (None, set_pool (cJSON_Delete (items @ [item]) (pool p1)) p1)
         else (let p2 = buffer_skip_whitespace p1
               in obind (at_char p2 (CHR '',''))
                 (\<lambda>comma. if comma then parse_array_loop fuel (items @ [item]) p2
                    else obind (at_char p2 (CHR '']''))
                      (\<lambda>closing. if closing then Ok (Some (items @ [item]), p2)
                         else Ok (None, set_pool (cJSON_Delete (items @ [item]) (pool p2)) p2)))))"
      using n(1) v(1) by (simp add: q)
    have bal: "content p1 = content p" "grants (pool p1) = grants (pool p)" "live (pool p1) - live (pool p) = blocks item"
      using n v s by (auto simp: parsed_to_def)
    show ?thesis
    proof (cases ok)
      case False
      then show ?thesis using u bal by (simp add: looped_def)
    next
      case True
      have "inside p1" "3 * length (content p1) \<le> fuel + 3 * offset p1 + 1"
        using v(2) True s a by (auto simp: parsed_to_def inside_def)
      from after_element [OF this(1) assms(2) this(2), of "CHR '',''" "CHR '']''" "items @ [item]"]
      moreover have "offset p < offset p1" "depth p1 = depth p" using v(2) True s by (auto simp: parsed_to_def)
      ultimately show ?thesis unfolding u using True bal by (auto simp: looped_def)
    qed
  qed
qed

lemma object_loop_step:
  assumes "value_ok 1 parse_value fuel" and "loop_ok parse_object_loop fuel"
  shows "loop_ok parse_object_loop (Suc fuel)"
  unfolding loop_ok_def
proof (intro allI impI)
  fix items and p :: parse_buffer
  assume a: "offset p + 1 < length (content p) \<and> last (content p) = NUL \<and> 3 * length (content p) \<le> Suc fuel + 3 * offset p + 1"
  show "\<exists>r p'. parse_object_loop (Suc fuel) items p = Ok (r, p') \<and> looped items p r p'"
    using New_Item_cases [of "pool p"]
  proof (elim disjE exE conjE)
    fix h1
    assume "cJSON_New_Item (pool p) = (None, h1)" "live h1 = live (pool p)" "grants h1 = grants (pool p)"
    then show ?thesis by (simp add: looped_def)
  next
    fix i h1
    assume n: "cJSON_New_Item (pool p) = (Some i, h1)" "live h1 = live (pool p) + 1" "grants h1 = grants (pool p)"
      "fresh_item i" "blocks i = 1" "item_name i = None"
    define q where "q = buffer_skip_whitespace (advance 1 (set_pool h1 p))"
    have "inside (advance 1 (set_pool h1 p))" using a by (simp add: inside_def)
    note s = skip_whitespace [OF this, folded q_def]
    have q: "buffer_skip_whitespace (advance (Suc 0) (set_pool h1 p)) = q" by (simp add: q_def)
    obtain ok1 item1 p1 where st: "parse_string i q = Ok (ok1, item1, p1)" "parsed_to i q ok1 item1 p1"
      "ok1 \<longrightarrow> plain_type (type item1) \<and> valuestring item1 \<noteq> None \<and> child item1 = []"
      using parse_string_safe [OF s(1) n(4)] by blast
    show ?thesis
    proof (cases ok1)
      case False
      then have "parse_object_loop (Suc fuel) items p = Ok (None, set_pool (cJSON_Delete (items @ [item1]) (pool p1)) p1)"
        using n(1) st(1) by (simp add: q)
      then show ?thesis using n st s False by (auto simp: parsed_to_def looped_def)
    next
      case ok1: True
      have i1: "inside p1" using st(2) ok1 s by (auto simp: parsed_to_def inside_def)
      define p2 where "p2 = buffer_skip_whitespace p1"
      note s2 = skip_whitespace [OF i1, folded p2_def]
      define item2 where "item2 = set_valuestring None (set_name (valuestring item1) item1)"
      have i2: "fresh_item item2" "blocks item2 = blocks item1"
        using st ok1 n(6) by (auto simp: item2_def fresh_item_iff blocks_plain parsed_to_def)
      have ch: "at_char p2 (CHR '':'') = Ok (content p2 ! offset p2 = CHR '':'')"
        using s2(1) by (simp add: at_char_Ok inside_def)
      show ?thesis
      proof (cases "content p2 ! offset p2 = CHR '':''")
        case False
        then have "parse_object_loop (Suc fuel) items p = Ok (None, set_pool (cJSON_Delete (items @ [item2]) (pool p2)) p2)"
          using n(1) st(1) ok1 ch by (simp add: q p2_def [symmetric] item2_def [symmetric] Let_def)
        then show ?thesis using n st s ok1 s2 i2 by (auto simp: parsed_to_def looped_def)
      next
        case colon: True
        define q2 where "q2 = buffer_skip_whitespace (advance 1 p2)"
        have "offset p2 + 1 < length (content p2)" using not_last [OF s2(1), of "offset p2"] s2(1) colon by (simp add: inside_def)
        then have "inside (advance 1 p2)" using s2(1) by (simp add: inside_def)
        note s3 = skip_whitespace [OF this, folded q2_def]
        have q2: "buffer_skip_whitespace (advance (Suc 0) p2) = q2" by (simp add: q2_def)
        have "3 * length (content q2) + 1 \<le> fuel + 3 * offset q2"
          using a s s2 s3 st(2) ok1 by (auto simp: parsed_to_def)
        from value_okD [OF assms(1) s3(1) i2(1) this] obtain ok item p3 where
          v: "parse_value fuel item2 q2 = Ok (ok, item, p3)" "parsed_to item2 q2 ok item p3" by blast
        have u: "parse_object_loop (Suc fuel) items p =
            (if \<not> ok then Ok (None, set_pool (cJSON_Delete (items @ [item]) (pool p3)) p3)
             else (let p4 = buffer_skip_whitespace p3
                   in obind (at_char p4 (CHR '',''))
                     (\<lambda>comma. if comma then parse_object_loop fuel (items @ [item]) p4
                        else obind (at_char p4 (CHR ''}''))
                          (\<lambda>closing. if closing then Ok (Some (items @ [item]), p4)
                             else Ok (None, set_pool (cJSON_Delete (items @ [item]) (pool p4)) p4)))))"
          using n(1) st(1) ok1 ch colon v(1)
          by (simp add: q p2_def [symmetric] item2_def [symmetric] q2 Let_def)
        have bal: "content p3 = content p" "grants (pool p3) = grants (pool p)"
          "live (pool p3) - live (pool p) = blocks item"
          using n st v s s2 s3 i2 by (auto simp: parsed_to_def)
        show ?thesis
        proof (cases ok)
          case False
          then show ?thesis using u bal by (simp add: looped_def)
        next
          case True
          have o: "inside p3" "3 * length (content p3) \<le> fuel + 3 * offset p3 + 1"
            "offset p < offset p3" "depth p3 = depth p"
            using v(2) True s s2 s3 st(2) ok1 a by (auto simp: parsed_to_def inside_def)
          from after_element [OF o(1) assms(2) o(2), of "CHR '',''" "CHR ''}''" "items @ [item]"]
          show ?thesis unfolding u using True bal o by (auto simp: looped_def)
        qed
      qed
    qed
  qed
qed

lemma parser_ok:
  "value_ok 1 parse_value fuel \<and> value_ok 0 parse_array fuel \<and> value_ok 0 parse_object fuel \<and>
   loop_ok parse_array_loop fuel \<and> loop_ok parse_object_loop fuel"
proof (induction fuel)
  case 0
  show ?case by (auto simp: value_ok_def loop_ok_def inside_def)
next
  case (Suc fuel)
  then show ?case
    using value_step array_step object_step array_loop_step object_loop_step by blast
qed

lemma skip_bom_inside:
  assumes "inside p" and "offset p = 0"
  shows "\<exists>q. skip_utf8_bom p = Some q \<and> inside q \<and> content q = content p \<and> pool q = pool p"
  using assms by (auto simp: skip_utf8_bom_def inside_def can_access_at_index_def)

lemma failed_fields:
  "parsed_item (parse_failed items p) = None"
  "live (parsed_pool (parse_failed items p)) = live (pool p) - all_blocks items"
  "grants (parsed_pool (parse_failed items p)) = grants (pool p)"
  "content p \<noteq> [] \<Longrightarrow> \<exists>e. parse_end (parse_failed items p) = Some e \<and> error_position (parse_failed items p) = Some e \<and>
     e < length (content p)"
  by (auto simp: parse_failed_def Let_def)

lemma parse_result:
  "\<exists>r. cJSON_ParseWithOpts t require_null_terminated h = Ok r \<and>
     live (parsed_pool r) = live h + (case parsed_item r of None \<Rightarrow> 0 | Some i \<Rightarrow> blocks i) \<and>
     grants (parsed_pool r) = grants h \<and>
     (case t of
        None \<Rightarrow> parsed_item r = None
      | Some s \<Rightarrow> \<exists>e \<le> length s. parse_end r = Some e \<and>
                   error_position r = (if parsed_item r = None then Some e else None))"
proof (cases t)
  case None
  then show ?thesis by (simp add: cJSON_ParseWithOpts_def)
next
  case (Some s)
  define b where "b = \<lparr>content = s @ [NUL], offset = 0, depth = 0, pool = h\<rparr>"
  have cb: "content b = s @ [NUL]" "offset b = 0" "pool b = h" by (simp_all add: b_def)
  have failed: "content p = s @ [NUL] \<Longrightarrow> live (pool p) = live h + all_blocks items \<Longrightarrow>
      live (parsed_pool (parse_failed items p)) = live h \<and>
      grants (parsed_pool (parse_failed items p)) = grants (pool p) \<and> parsed_item (parse_failed items p) = None \<and>
      (\<exists>e \<le> length s. parse_end (parse_failed items p) = Some e \<and> error_position (parse_failed items p) = Some e)" for items p
    using failed_fields(4) [of p items] by (auto simp: failed_fields less_Suc_eq_le)
  from New_Item_cases [of h] show ?thesis
  proof (elim disjE exE conjE)
    fix h1
    assume "cJSON_New_Item h = (None, h1)" "live h1 = live h" "grants h1 = grants h"
    then show ?thesis using Some failed [of "set_pool h1 b" "[]"]
      by (simp add: cJSON_ParseWithOpts_def b_def [symmetric] cb)
  next
    fix i h1
    assume n: "cJSON_New_Item h = (Some i, h1)" "live h1 = live h + 1" "grants h1 = grants h" "fresh_item i" "blocks i = 1"
    have "inside (set_pool h1 b)" by (simp add: inside_def cb)
    from skip_bom_inside [OF this] obtain p0 where p0: "skip_utf8_bom (set_pool h1 b) = Some p0" "inside p0"
      "content p0 = s @ [NUL]" "pool p0 = h1" by (auto simp: cb)
    define q where "q = buffer_skip_whitespace p0"
    note k = skip_whitespace [OF p0(2), folded q_def]
    have "3 * length (content q) + 1 \<le> parse_fuel s + 3 * offset q" using k p0 by (simp add: parse_fuel_def)
    from value_okD [OF parser_ok [THEN conjunct1] k(1) n(4) this] obtain ok item p where
      v: "parse_value (parse_fuel s) i q = Ok (ok, item, p)" "parsed_to i q ok item p" by blast
    have cp: "content p = s @ [NUL]" and lp: "live (pool p) = live h + blocks item" and gp: "grants (pool p) = grants h"
      using v(2) k p0 n by (auto simp: parsed_to_def)
    have u: "cJSON_ParseWithOpts t require_null_terminated h =
       (if \<not> ok then Ok (parse_failed [item] p)
        else if require_null_terminated then
          (let p1 = buffer_skip_whitespace p in
           if \<not> can_access_at_index p1 0 then Ok (parse_failed [item] p1)
           else obind (byte_at p1 0)
             (\<lambda>c. if c \<noteq> NUL then Ok (parse_failed [item] p1)
               else Ok \<lparr>parsed_item = Some item, parse_end = Some (offset p1),
                        error_position = None, parsed_pool = pool p1\<rparr>))
        else Ok \<lparr>parsed_item = Some item, parse_end = Some (offset p),
                 error_position = None, parsed_pool = pool p\<rparr>)"
      using Some n(1) p0(1) v(1) by (simp add: cJSON_ParseWithOpts_def b_def [symmetric] q_def [symmetric])
    show ?thesis
    proof (cases ok)
      case False
      then show ?thesis using u Some failed [of p "[item]"] cp gp lp by auto
    next
      case True
      then have ip: "inside p" using v(2) k p0 by (auto simp: parsed_to_def inside_def)
      define p1 where "p1 = buffer_skip_whitespace p"
      note k1 = skip_whitespace [OF ip, folded p1_def]
      have o: "offset p \<le> length s" "offset p1 \<le> length s" using ip k1 cp by (simp_all add: inside_def)
      have b1: "byte_at p1 0 = Ok (content p1 ! offset p1)" "can_access_at_index p1 0"
        using k1(1) by (simp_all add: byte_at_def inside_def can_access_at_index_def)
      show ?thesis
        using u True Some failed [of p1 "[item]"] cp gp lp o k1 b1
        by (auto simp: p1_def [symmetric] Let_def)
    qed
  qed
qed

text \<open>
  C6. Whatever the text, whichever allocations the hooks refuse and whether or not trailing bytes
  are allowed, the parser returns: it reads no byte behind the terminator, writes no byte outside
  an allocation, its recursion and loops end, and the blocks that are live afterwards are those
  from before and the blocks of the item it returns (none when it fails). The end it reports
  lies in the text, and it reports an error exactly when it returns no item.
\<close>

theorem parse_safe_and_leak_free:
  "\<exists>r. cJSON_ParseWithOpts t require_null_terminated h = Ok r \<and>
     live (parsed_pool r) = live h + (case parsed_item r of None \<Rightarrow> 0 | Some i \<Rightarrow> blocks i) \<and>
     (case t of
        None \<Rightarrow> parsed_item r = None
      | Some s \<Rightarrow> \<exists>e \<le> length s. parse_end r = Some e \<and>
                   error_position r = (if parsed_item r = None then Some e else None))"
  using parse_result [of t require_null_terminated h] by blast

end
