(* ===== verification/Json_Print.thy ===== *)
theory Json_Print
  imports Json_Data
begin

text \<open>
  src/libs/cJSON.c, the printer: the growing buffer (\<open>ensure\<close>), the functions that write each kind
  of value into it, and the four entry points. The buffer is its memory, byte by byte, None where
  nothing was written yet; a write outside it, a read outside it and a \<open>strlen\<close> over unwritten
  memory are \<open>UB\<close>.
\<close>

section \<open>The buffer\<close>

text \<open>\<open>memory\<close> is None where the pointer is NULL.\<close>

record printbuffer =
  memory :: "char option list option"
  buf_length :: nat
  buf_offset :: nat
  buf_depth :: nat
  noalloc :: bool
  format :: bool
  buf_hooks :: hooks

definition int_max :: nat where "int_max = 2147483647"

text \<open>\<open>realloc\<close> keeps the old block when it fails; otherwise the count of live blocks is the same.\<close>

definition reallocate :: "hooks \<Rightarrow> bool \<times> hooks" where
  "reallocate h =
     (if grants h (asked h) then (True, h\<lparr>asked := Suc (asked h)\<rparr>) else (False, h\<lparr>asked := Suc (asked h)\<rparr>))"

definition grown :: "nat \<Rightarrow> char option list \<Rightarrow> char option list" where
  "grown newsize m = take newsize m @ replicate (newsize - length m) None"

text \<open>
  The result is whether there is room behind the offset; a failed growth loses the buffer. Without
  \<open>realloc\<close> the bytes before the offset and one more are copied, whether the old buffer has that one or not.
\<close>

definition ensure :: "printbuffer \<Rightarrow> nat \<Rightarrow> (bool \<times> printbuffer) outcome" where
  "ensure p needed =
     (case memory p of
        None \<Rightarrow> Ok (False, p)
      | Some m \<Rightarrow>
          if 0 < buf_length p \<and> buf_length p \<le> buf_offset p then Ok (False, p)
          else if int_max < needed then Ok (False, p)
          else
            (let needed1 = needed + buf_offset p + 1 in
             if needed1 \<le> buf_length p then Ok (True, p)
             else if noalloc p then Ok (False, p)
             else if int_max < needed1 then Ok (False, p)
             else
               (let newsize = (if int_max div 2 < needed1 then int_max else needed1 * 2);
                    lost = (\<lambda>h. Ok (False, p\<lparr>memory := None, buf_length := 0, buf_hooks := deallocate h\<rparr>))
                in if can_realloc (buf_hooks p) then
                     (case reallocate (buf_hooks p) of
                        (False, h) \<Rightarrow> lost h
                      | (True, h) \<Rightarrow>
                          Ok (True, p\<lparr>memory := Some (grown newsize m), buf_length := newsize, buf_hooks := h\<rparr>))
                   else
                     (case allocate (buf_hooks p) of
                        (False, h) \<Rightarrow> lost h
                      | (True, h) \<Rightarrow>
                          if length m < buf_offset p + 1 then UB Buffer_Overread
                          else
                            Ok (True, p\<lparr>memory := Some (grown newsize (take (buf_offset p + 1) m)),
                                        buf_length := newsize, buf_hooks := deallocate h\<rparr>)))))"

text \<open>Bytes stored from a position on.\<close>

definition overwrite :: "nat \<Rightarrow> char list \<Rightarrow> char option list \<Rightarrow> char option list" where
  "overwrite pos bs m = take pos m @ map Some bs @ drop (pos + length bs) m"

definition store :: "nat \<Rightarrow> char list \<Rightarrow> char option list \<Rightarrow> char option list outcome" where
  "store pos bs m =
     (if pos + length bs \<le> length m then Ok (overwrite pos bs m) else UB Buffer_Overflow)"

text \<open>Bytes stored at the offset, which then moves by \<open>n\<close>.\<close>

definition emit_bytes :: "char list \<Rightarrow> nat \<Rightarrow> printbuffer \<Rightarrow> printbuffer outcome" where
  "emit_bytes bs n p =
     (case memory p of
        None \<Rightarrow> UB Null_Deref
      | Some m \<Rightarrow>
          obind (store (buf_offset p) bs m)
            (\<lambda>m'. Ok (p\<lparr>memory := Some m', buf_offset := buf_offset p + n\<rparr>)))"

fun strlen :: "char option list \<Rightarrow> nat outcome" where
  "strlen [] = UB Buffer_Overread"
| "strlen (None # m) = UB Uninit_Read"
| "strlen (Some c # m) = (if c = NUL then Ok 0 else obind (strlen m) (\<lambda>n. Ok (Suc n)))"

definition update_offset :: "printbuffer \<Rightarrow> printbuffer outcome" where
  "update_offset p =
     (case memory p of
        None \<Rightarrow> Ok p
      | Some m \<Rightarrow>
          obind (strlen (drop (buf_offset p) m)) (\<lambda>n. Ok (p\<lparr>buf_offset := buf_offset p + n\<rparr>)))"

text \<open>The calls \<open>ensure\<close> and then store, with \<open>false\<close> when there is no room.\<close>

definition ensure_emit :: "nat \<Rightarrow> char list \<Rightarrow> nat \<Rightarrow> printbuffer \<Rightarrow> (bool \<times> printbuffer) outcome" where
  "ensure_emit needed bs n p =
     obind (ensure p needed)
       (\<lambda>(ok, p1). if \<not> ok then Ok (False, p1) else obind (emit_bytes bs n p1) (\<lambda>p2. Ok (True, p2)))"

section \<open>Numbers and strings\<close>

text \<open>
  \<open>(d * 0) != 0\<close> holds for infinities and NaN. \<open>sscanf\<close> reads the text as \<open>strtod\<close> does; the buffer
  of the text has 26 bytes.
\<close>

definition number_text :: "double \<Rightarrow> string" where
  "number_text d =
     (if \<not> is_finite d then ''null''
      else
        (let t15 = format_g 15 d in
         case strtod t15 of
           None \<Rightarrow> format_g 17 d
         | Some (test, _) \<Rightarrow> if double_eq test d then t15 else format_g 17 d))"

definition print_number :: "cJSON \<Rightarrow> printbuffer \<Rightarrow> (bool \<times> printbuffer) outcome" where
  "print_number item p =
     (let number_buffer = number_text (valuedouble item) in
      if 26 < length number_buffer + 1 then UB Buffer_Overflow
      else if 25 < length number_buffer then Ok (False, p)
      else ensure_emit (length number_buffer + 1) (number_buffer @ [NUL]) (length number_buffer) p)"

definition hex_char :: "nat \<Rightarrow> char" where
  "hex_char d = (if d < 10 then char_of (48 + d) else char_of (87 + d))"

text \<open>\<open>u%04x\<close> of a byte\<close>

definition unicode_escape :: "char \<Rightarrow> string" where
  "unicode_escape c = [CHR ''u'', CHR ''0'', CHR ''0'', hex_char (of_char c div 16), hex_char (of_char c mod 16)]"

definition short_escape :: "char \<Rightarrow> char option" where
  "short_escape c =
     (if c = CHR 0x5C then Some (CHR 0x5C) else if c = CHR 0x22 then Some (CHR 0x22)
      else if c = CHR 0x08 then Some (CHR ''b'') else if c = CHR 0x0C then Some (CHR ''f'')
      else if c = CHR 0x0A then Some (CHR ''n'') else if c = CHR 0x0D then Some (CHR ''r'')
      else if c = CHR 0x09 then Some (CHR ''t'') else None)"

text \<open>The first pass counts the bytes the escapes add.\<close>

fun escape_characters :: "string \<Rightarrow> nat" where
  "escape_characters [] = 0"
| "escape_characters (c # s) =
     (if short_escape c \<noteq> None then 1 else if of_char c < (32 :: nat) then 5 else 0) + escape_characters s"

text \<open>The second pass; \<open>sprintf\<close> also stores a terminator, which the next byte overwrites.\<close>

fun store_escaped :: "nat \<Rightarrow> string \<Rightarrow> char option list \<Rightarrow> char option list outcome" where
  "store_escaped pos [] m = Ok m"
| "store_escaped pos (c # s) m =
     (if 31 < (of_char c :: nat) \<and> c \<noteq> CHR 0x22 \<and> c \<noteq> CHR 0x5C then
        obind (store pos [c] m) (store_escaped (pos + 1) s)
      else
        (case short_escape c of
           Some e \<Rightarrow> obind (store pos [CHR 0x5C, e] m) (store_escaped (pos + 2) s)
         | None \<Rightarrow> obind (store pos (CHR 0x5C # unicode_escape c @ [NUL]) m) (store_escaped (pos + 6) s)))"

definition print_string_ptr :: "string option \<Rightarrow> printbuffer \<Rightarrow> (bool \<times> printbuffer) outcome" where
  "print_string_ptr input p =
     (case input of
        None \<Rightarrow> ensure_emit 3 [CHR 0x22, CHR 0x22, NUL] 0 p
      | Some s \<Rightarrow>
          (let escapes = escape_characters s; output_length = length s + escapes in
           if escapes = 0 then
             ensure_emit (output_length + 3) (CHR 0x22 # s @ [CHR 0x22, NUL]) 0 p
           else
             obind (ensure p (output_length + 3))
               (\<lambda>(ok, p1).
                  if \<not> ok then Ok (False, p1)
                  else
                  (case memory p1 of
                     None \<Rightarrow> UB Null_Deref
                   | Some m \<Rightarrow>
                       obind (store (buf_offset p1) [CHR 0x22] m)
                         (\<lambda>m1. obind (store_escaped (buf_offset p1 + 1) s m1)
                            (\<lambda>m2. obind (store (buf_offset p1 + output_length + 1) [CHR 0x22, NUL] m2)
                               (\<lambda>m3. Ok (True, p1\<lparr>memory := Some m3\<rparr>))))))))"

section \<open>Values\<close>

definition deeper :: "printbuffer \<Rightarrow> printbuffer" where
  "deeper p = p\<lparr>buf_depth := buf_depth p + 1\<rparr>"

definition shallower :: "printbuffer \<Rightarrow> printbuffer" where
  "shallower p = p\<lparr>buf_depth := buf_depth p - 1\<rparr>"

definition tabs :: "nat \<Rightarrow> string" where
  "tabs n = replicate n (CHR 0x09)"

text \<open>\<open>if (!f) return false;\<close> and on with the buffer.\<close>

definition and_then ::
    "(bool \<times> printbuffer) outcome \<Rightarrow> (printbuffer \<Rightarrow> (bool \<times> printbuffer) outcome) \<Rightarrow> (bool \<times> printbuffer) outcome" where
  "and_then r f = obind r (\<lambda>(ok, p). if ok then f p else Ok (False, p))"

fun print_value :: "cJSON \<Rightarrow> printbuffer \<Rightarrow> (bool \<times> printbuffer) outcome"
  and print_elements :: "cJSON list \<Rightarrow> printbuffer \<Rightarrow> (bool \<times> printbuffer) outcome"
  and print_members :: "cJSON list \<Rightarrow> printbuffer \<Rightarrow> (bool \<times> printbuffer) outcome"
where
  "print_value (Item t s i d k c) p =
     (let kind = t AND 0xFF in
      if kind = cJSON_NULL then ensure_emit 5 (''null'' @ [NUL]) 0 p
      else if kind = cJSON_False then ensure_emit 6 (''false'' @ [NUL]) 0 p
      else if kind = cJSON_True then ensure_emit 5 (''true'' @ [NUL]) 0 p
      else if kind = cJSON_Number then print_number (Item t s i d k c) p
      else if kind = cJSON_Raw then
        (case s of
           None \<Rightarrow> Ok (False, p)
         | Some raw \<Rightarrow> ensure_emit (length raw + 1) (raw @ [NUL]) 0 p)
      else if kind = cJSON_String then print_string_ptr s p
      else if kind = cJSON_Array then
        and_then (ensure_emit 1 ''['' 1 p)
          (\<lambda>p1. and_then (print_elements c (deeper p1))
             (\<lambda>p2. and_then (ensure_emit 2 ('']'' @ [NUL]) 0 p2) (\<lambda>p3. Ok (True, shallower p3))))
      else if kind = cJSON_Object then
        (let opening = (if format p then [CHR ''{'', LF] else ''{'') in
         and_then (ensure_emit (length opening + 1) opening (length opening) p)
           (\<lambda>p1. and_then (print_members c (deeper p1))
              (\<lambda>p2. let closing = (if format p2 then tabs (buf_depth p2 - 1) else []) @ ''}'' @ [NUL] in
                 and_then (ensure_emit (if format p2 then buf_depth p2 + 1 else 2) closing 0 p2)
                   (\<lambda>p3. Ok (True, shallower p3)))))
      else Ok (False, p))"
| "print_elements [] p = Ok (True, p)"
| "print_elements (e # es) p =
     and_then (print_value e p)
       (\<lambda>p1. obind (update_offset p1)
          (\<lambda>p2. if es = [] then print_elements es p2
             else
               (let sep = (if format p2 then '', '' else '','') in
                and_then (ensure_emit (length sep + 1) (sep @ [NUL]) (length sep) p2) (print_elements es))))"
| "print_members [] p = Ok (True, p)"
| "print_members (e # es) p =
     and_then (if format p then ensure_emit (buf_depth p) (tabs (buf_depth p)) (buf_depth p) p else Ok (True, p))
       (\<lambda>p1. and_then (print_string_ptr (item_name e) p1)
          (\<lambda>p2. obind (update_offset p2)
             (\<lambda>p3. let colon = (if format p3 then [CHR '':'', CHR 0x09] else '':'') in
                and_then (ensure_emit (length colon) colon (length colon) p3)
                  (\<lambda>p4. and_then (print_value e p4)
                     (\<lambda>p5. obind (update_offset p5)
                        (\<lambda>p6. let sep = (if es = [] then [] else '','') @ (if format p6 then [LF] else []) in
                           and_then (ensure_emit (length sep + 1) (sep @ [NUL]) (length sep) p6)
                             (print_members es)))))))"

section \<open>Entry points\<close>

text \<open>The text up to its terminator, as the caller reads it.\<close>

definition c_text :: "char option list \<Rightarrow> string outcome" where
  "c_text m = obind (strlen m) (\<lambda>n. Ok (map the (take n m)))"

definition print_item :: "cJSON option \<Rightarrow> printbuffer \<Rightarrow> (bool \<times> printbuffer) outcome" where
  "print_item item p = (case item of None \<Rightarrow> Ok (False, p) | Some i \<Rightarrow> print_value i p)"

text \<open>\<open>print\<close>: the printed text, None for NULL, and the hooks.\<close>

definition free_buffer :: "printbuffer \<Rightarrow> hooks" where
  "free_buffer p = (if memory p \<noteq> None then deallocate (buf_hooks p) else buf_hooks p)"

definition print :: "cJSON option \<Rightarrow> bool \<Rightarrow> hooks \<Rightarrow> (char option list option \<times> hooks) outcome" where
  "print item fmt h =
     (case allocate h of
        (False, h1) \<Rightarrow> Ok (None, h1)
      | (True, h1) \<Rightarrow>
          obind (print_item item
                  \<lparr>memory = Some (replicate 256 None), buf_length = 256, buf_offset = 0, buf_depth = 0,
                   noalloc = False, format = fmt, buf_hooks = h1\<rparr>)
            (\<lambda>(ok, p). if \<not> ok then Ok (None, free_buffer p)
               else
                 obind (update_offset p)
                   (\<lambda>p1. case memory p1 of
                       None \<Rightarrow> UB Null_Deref
                     | Some m \<Rightarrow>
                         if can_realloc (buf_hooks p1) then
                           (case reallocate (buf_hooks p1) of
                              (False, h2) \<Rightarrow> Ok (None, deallocate h2)
                            | (True, h2) \<Rightarrow> Ok (Some (grown (buf_offset p1 + 1) m), h2))
                         else
                           (case allocate (buf_hooks p1) of
                              (False, h2) \<Rightarrow> Ok (None, deallocate h2)
                            | (True, h2) \<Rightarrow>
                                obind (store (buf_offset p1) [NUL]
                                        (grown (buf_offset p1 + 1) (take (min (buf_length p1) (buf_offset p1 + 1)) m)))
                                  (\<lambda>printed. Ok (Some printed, deallocate h2))))))"

definition cJSON_Print :: "cJSON option \<Rightarrow> hooks \<Rightarrow> (char option list option \<times> hooks) outcome" where
  "cJSON_Print item h = print item True h"

definition cJSON_PrintUnformatted :: "cJSON option \<Rightarrow> hooks \<Rightarrow> (char option list option \<times> hooks) outcome" where
  "cJSON_PrintUnformatted item h = print item False h"

text \<open>\<open>cJSON_PrintBuffered\<close> frees \<open>p.buffer\<close> when the print fails, also when it is NULL by then.\<close>

definition cJSON_PrintBuffered ::
    "cJSON option \<Rightarrow> int \<Rightarrow> bool \<Rightarrow> hooks \<Rightarrow> (char option list option \<times> hooks) outcome" where
  "cJSON_PrintBuffered item prebuffer fmt h =
     (if prebuffer < 0 then Ok (None, h)
      else
        (case allocate h of
           (False, h1) \<Rightarrow> Ok (None, h1)
         | (True, h1) \<Rightarrow>
             obind (print_item item
                     \<lparr>memory = Some (replicate (nat prebuffer) None), buf_length = nat prebuffer, buf_offset = 0,
                      buf_depth = 0, noalloc = False, format = fmt, buf_hooks = h1\<rparr>)
               (\<lambda>(ok, p). if \<not> ok then Ok (None, free_buffer p) else Ok (memory p, buf_hooks p))))"

text \<open>The caller's buffer of \<open>len\<close> bytes; the result is whether the text is in it.\<close>

definition cJSON_PrintPreallocated ::
    "cJSON option \<Rightarrow> char option list option \<Rightarrow> int \<Rightarrow> bool \<Rightarrow> hooks \<Rightarrow> (bool \<times> char option list option) outcome" where
  "cJSON_PrintPreallocated item buf len fmt h =
     (if len < 0 \<or> buf = None then Ok (False, buf)
      else
        obind (print_item item
                \<lparr>memory = buf, buf_length = nat len, buf_offset = 0, buf_depth = 0, noalloc = True,
                 format = fmt, buf_hooks = h\<rparr>)
          (\<lambda>(ok, p). Ok (ok, memory p)))"

section \<open>The text of an item\<close>

text \<open>
  What an item prints as: the abstract counterpart of the printer, on strings. None where an item has an
  invalid type or a raw item no text.
\<close>

fun escape :: "string \<Rightarrow> string" where
  "escape [] = []"
| "escape (c # s) =
     (if 31 < (of_char c :: nat) \<and> c \<noteq> CHR 0x22 \<and> c \<noteq> CHR 0x5C then [c]
      else CHR 0x5C # (case short_escape c of Some e \<Rightarrow> [e] | None \<Rightarrow> unicode_escape c)) @ escape s"

definition quote :: "string option \<Rightarrow> string" where
  "quote s = CHR 0x22 # escape (case s of None \<Rightarrow> [] | Some u \<Rightarrow> u) @ [CHR 0x22]"

definition oappend :: "string option \<Rightarrow> string option \<Rightarrow> string option" where
  "oappend a b = (case (a, b) of (Some s, Some t) \<Rightarrow> Some (s @ t) | _ \<Rightarrow> None)"

fun render :: "bool \<Rightarrow> nat \<Rightarrow> cJSON \<Rightarrow> string option"
  and render_elements :: "bool \<Rightarrow> nat \<Rightarrow> cJSON list \<Rightarrow> string option"
  and render_members :: "bool \<Rightarrow> nat \<Rightarrow> cJSON list \<Rightarrow> string option"
where
  "render fmt d (Item t s i x k c) =
     (let kind = t AND 0xFF in
      if kind = cJSON_NULL then Some ''null''
      else if kind = cJSON_False then Some ''false''
      else if kind = cJSON_True then Some ''true''
      else if kind = cJSON_Number then Some (number_text x)
      else if kind = cJSON_Raw then s
      else if kind = cJSON_String then Some (quote s)
      else if kind = cJSON_Array then oappend (Some ''['') (oappend (render_elements fmt (d + 1) c) (Some '']''))
      else if kind = cJSON_Object then
        oappend (Some (if fmt then [CHR ''{'', LF] else ''{''))
          (oappend (render_members fmt (d + 1) c) (Some ((if fmt then tabs d else []) @ ''}'')))
      else None)"
| "render_elements fmt d [] = Some []"
| "render_elements fmt d (e # es) =
     oappend (render fmt d e)
       (oappend (Some (if es = [] then [] else if fmt then '', '' else '','')) (render_elements fmt d es))"
| "render_members fmt d [] = Some []"
| "render_members fmt d (e # es) =
     oappend (Some (if fmt then tabs d else []))
       (oappend (Some (quote (item_name e)))
         (oappend (Some (if fmt then [CHR '':'', CHR 0x09] else '':''))
           (oappend (render fmt d e)
             (oappend (Some ((if es = [] then [] else '','') @ (if fmt then [LF] else [])))
               (render_members fmt d es)))))"

text \<open>The strings of an item are C strings, and its numbers doubles.\<close>

fun clean :: "cJSON \<Rightarrow> bool" where
  "clean (Item t s i d k c) \<longleftrightarrow>
     (case s of None \<Rightarrow> True | Some u \<Rightarrow> no_nul u) \<and> (case k of None \<Rightarrow> True | Some u \<Rightarrow> no_nul u) \<and> wf_double d \<and> list_all clean c"

lemma oappend_simps [simp]:
  "oappend (Some s) (Some t) = Some (s @ t)" "oappend None b = None" "oappend a None = None"
  "oappend a (Some []) = a" "oappend (Some []) b = b"
  by (simp_all add: oappend_def split: option.split)

lemma oappend_assoc: "oappend (oappend a b) c = oappend a (oappend b c)"
  by (simp add: oappend_def split: option.split)

lemma oappend_Some: "oappend a b = Some t \<longleftrightarrow> (\<exists>u v. a = Some u \<and> b = Some v \<and> t = u @ v)"
  by (auto simp: oappend_def split: option.split)

section \<open>Writing into the buffer\<close>

text \<open>The bytes of the memory from a position on.\<close>

definition text_at :: "char option list \<Rightarrow> nat \<Rightarrow> char list \<Rightarrow> bool" where
  "text_at m pos t \<longleftrightarrow> pos + length t \<le> length m \<and> take (length t) (drop pos m) = map Some t"

lemma text_at_nth: "text_at m pos t \<longleftrightarrow> pos + length t \<le> length m \<and> (\<forall>i < length t. m ! (pos + i) = Some (t ! i))"
  by (auto simp: text_at_def list_eq_iff_nth_eq)

lemma text_at_append: "text_at m pos (s @ t) \<longleftrightarrow> text_at m pos s \<and> text_at m (pos + length s) t"
proof -
  have "(\<forall>i < length s + length t. m ! (pos + i) = Some ((s @ t) ! i)) \<longleftrightarrow>
      (\<forall>i < length s. m ! (pos + i) = Some (s ! i)) \<and> (\<forall>i < length t. m ! (pos + length s + i) = Some (t ! i))"
    (is "?L \<longleftrightarrow> ?R")
  proof
    assume l: ?L
    show ?R
    proof (intro conjI allI impI)
      fix i assume "i < length s"
      then show "m ! (pos + i) = Some (s ! i)" using l [rule_format, of i] by (simp add: nth_append)
    next
      fix i assume "i < length t"
      then show "m ! (pos + length s + i) = Some (t ! i)"
        using l [rule_format, of "length s + i"] by (simp add: nth_append add.assoc)
    qed
  next
    assume r: ?R
    show ?L
    proof (intro allI impI)
      fix i assume i: "i < length s + length t"
      show "m ! (pos + i) = Some ((s @ t) ! i)"
      proof (cases "i < length s")
        case True
        then show ?thesis using r by (simp add: nth_append)
      next
        case False
        then show ?thesis using r [THEN conjunct2, rule_format, of "i - length s"] i by (simp add: nth_append)
      qed
    qed
  qed
  then show ?thesis by (auto simp: text_at_nth)
qed

lemma text_at_Nil [simp]: "text_at m pos [] \<longleftrightarrow> pos \<le> length m"
  by (simp add: text_at_def)

lemma length_overwrite [simp]: "pos + length bs \<le> length m \<Longrightarrow> length (overwrite pos bs m) = length m"
  by (simp add: overwrite_def)

lemma overwrite_text: "pos + length bs \<le> length m \<Longrightarrow> text_at (overwrite pos bs m) pos bs"
  by (simp add: overwrite_def text_at_def)

lemma overwrite_before:
  "pos + length bs \<le> length m \<Longrightarrow> n \<le> pos \<Longrightarrow> take n (overwrite pos bs m) = take n m"
  by (simp add: overwrite_def min_def)

text \<open>A text in front of a position depends on the bytes in front of it only.\<close>

lemma text_at_before:
  assumes "take n m' = take n m" and "pos + length t \<le> n" and "text_at m pos t" and "n \<le> length m'"
  shows "text_at m' pos t"
proof -
  have "m' ! (pos + i) = m ! (pos + i)" if "i < length t" for i
    using assms(1,2) that by (metis add_less_le_mono add_strict_left_mono le_trans less_le_trans nth_take)
  with assms show ?thesis by (simp add: text_at_nth)
qed

lemma strlen_text: "text_at m pos (t @ [NUL]) \<Longrightarrow> no_nul t \<Longrightarrow> strlen (drop pos m) = Ok (length t)"
proof (induction t arbitrary: pos)
  case Nil
  then have "drop pos m \<noteq> []" "m ! pos = Some NUL" by (auto simp: text_at_nth)
  then show ?case by (cases "drop pos m") (auto simp: nth_via_drop hd_drop_conv_nth)
next
  case (Cons c t)
  then have l: "pos < length m" and h: "m ! pos = Some c" by (auto simp: text_at_nth)
  have "text_at m (Suc pos) (t @ [NUL])" using Cons.prems(1) text_at_append [of m pos "[c]" "t @ [NUL]"] by simp
  with Cons l h show ?case by (simp add: Cons_nth_drop_Suc [symmetric])
qed

subsection \<open>States of the buffer\<close>

text \<open>
  The buffer has its memory, and the offset lies in it, or it is empty and never copied without \<open>realloc\<close>.
\<close>

definition ready_buffer :: "printbuffer \<Rightarrow> bool" where
  "ready_buffer p \<longleftrightarrow> (\<exists>m. memory p = Some m \<and> length m = buf_length p) \<and> buf_length p \<le> int_max \<and>
     (buf_offset p < buf_length p \<or> buf_length p = 0 \<and> buf_offset p = 0 \<and> (noalloc p \<or> can_realloc (buf_hooks p)))"

definition own :: "printbuffer \<Rightarrow> int" where
  "own p = (if memory p = None then 0 else 1)"

text \<open>What no print changes: the mode, the hooks and the balance of the blocks.\<close>

definition steady :: "printbuffer \<Rightarrow> printbuffer \<Rightarrow> bool" where
  "steady p p' \<longleftrightarrow> format p' = format p \<and> noalloc p' = noalloc p \<and> grants (buf_hooks p') = grants (buf_hooks p) \<and>
     can_realloc (buf_hooks p') = can_realloc (buf_hooks p) \<and>
     live (buf_hooks p') - own p' = live (buf_hooks p) - own p \<and> (noalloc p \<longrightarrow> buf_length p' = buf_length p \<and> memory p' \<noteq> None)"

text \<open>The largest size the buffer can take.\<close>

definition limit :: "printbuffer \<Rightarrow> nat" where
  "limit p = (if noalloc p then buf_length p else int_max)"

definition refusing :: "printbuffer \<Rightarrow> bool" where
  "refusing p \<longleftrightarrow> \<not> noalloc p \<and> (\<exists>n. \<not> grants (buf_hooks p) n)"

text \<open>The text \<open>t\<close> was written from the offset of \<open>p\<close> on, and the offset moved behind it.\<close>

definition written :: "printbuffer \<Rightarrow> string \<Rightarrow> printbuffer \<Rightarrow> bool" where
  "written p t p' \<longleftrightarrow> steady p p' \<and> ready_buffer p' \<and> buf_offset p' = buf_offset p + length t \<and>
     take (buf_offset p) (the (memory p')) = take (buf_offset p) (the (memory p)) \<and>
     text_at (the (memory p')) (buf_offset p) t \<and> buf_offset p + length t < buf_length p'"

text \<open>The text and a terminator were written, and the offset stands somewhere in the text.\<close>

definition terminated :: "printbuffer \<Rightarrow> string \<Rightarrow> printbuffer \<Rightarrow> bool" where
  "terminated p t p' \<longleftrightarrow> steady p p' \<and> ready_buffer p' \<and>
     buf_offset p \<le> buf_offset p' \<and> buf_offset p' \<le> buf_offset p + length t \<and>
     take (buf_offset p) (the (memory p')) = take (buf_offset p) (the (memory p)) \<and>
     text_at (the (memory p')) (buf_offset p) (t @ [NUL]) \<and> buf_offset p + length t + 2 \<le> limit p"

text \<open>Why a print of a text fails.\<close>

definition fails :: "printbuffer \<Rightarrow> string option \<Rightarrow> bool" where
  "fails p t \<longleftrightarrow> refusing p \<or> (case t of None \<Rightarrow> True | Some u \<Rightarrow> limit p < buf_offset p + length u + 2)"

definition prints :: "bool \<Rightarrow> printbuffer \<Rightarrow> string option \<Rightarrow> nat \<Rightarrow> (bool \<times> printbuffer) outcome \<Rightarrow> bool" where
  "prints final p t d r \<longleftrightarrow>
     (\<exists>ok p'. r = Ok (ok, p') \<and> steady p p' \<and>
        (if ok then \<exists>u. t = Some u \<and> buf_depth p' = d \<and> (if final then terminated p u p' else written p u p')
         else fails p t))"

lemma steady_refl [simp]: "noalloc p \<longrightarrow> memory p \<noteq> None \<Longrightarrow> steady p p"
  by (simp add: steady_def)

lemma steady_trans: "steady p q \<Longrightarrow> steady q r \<Longrightarrow> steady p r"
  by (auto simp: steady_def)

lemma steady_limit: "steady p q \<Longrightarrow> limit q = limit p \<and> refusing q = refusing p"
  by (auto simp: steady_def limit_def refusing_def)

lemma written_append:
  assumes "written p t p1" and "written p1 u p2"
  shows "written p (t @ u) p2"
proof -
  obtain m2 where m2: "memory p2 = Some m2" "length m2 = buf_length p2"
    using assms(2) by (auto simp: written_def ready_buffer_def)
  have b: "take (buf_offset p1) m2 = take (buf_offset p1) (the (memory p1))"
    using assms(2) m2 by (simp add: written_def)
  have o: "buf_offset p1 = buf_offset p + length t" using assms(1) by (simp add: written_def)
  have "text_at m2 (buf_offset p) t"
    using text_at_before [OF b _ _ , of "buf_offset p" t] assms m2 o by (simp add: written_def)
  moreover have "take (buf_offset p) m2 = take (buf_offset p) (the (memory p))"
    using b assms(1) o by (simp add: written_def) (metis le_add1 min.absorb2 min.commute take_take)
  ultimately show ?thesis
    using assms m2 o steady_trans [of p p1 p2] by (auto simp: written_def text_at_append)
qed

lemma written_terminated:
  assumes "written p t p1" and "terminated p1 u p2"
  shows "terminated p (t @ u) p2"
proof -
  obtain m2 where m2: "memory p2 = Some m2" "length m2 = buf_length p2"
    using assms(2) by (auto simp: terminated_def ready_buffer_def)
  have b: "take (buf_offset p1) m2 = take (buf_offset p1) (the (memory p1))"
    using assms(2) m2 by (simp add: terminated_def)
  have o: "buf_offset p1 = buf_offset p + length t" using assms(1) by (simp add: written_def)
  have l: "buf_offset p1 \<le> length m2" using assms(2) m2 by (auto simp: terminated_def text_at_def)
  have "text_at m2 (buf_offset p) t"
    using text_at_before [OF b _ _ l, of "buf_offset p" t] assms(1) o by (simp add: written_def)
  moreover have "take (buf_offset p) m2 = take (buf_offset p) (the (memory p))"
    using b assms(1) o by (simp add: written_def) (metis le_add1 min.absorb2 min.commute take_take)
  moreover have "limit p1 = limit p" using assms(1) steady_limit by (simp add: written_def)
  ultimately show ?thesis
    using assms m2 o steady_trans [of p p1 p2]
      text_at_append [of m2 "buf_offset p" t "u @ [NUL]"]
    by (auto simp: written_def terminated_def)
qed

lemma fails_append:
  "written p t p1 \<Longrightarrow> fails p1 u \<Longrightarrow> fails p (oappend (Some t) u)"
  using steady_limit [of p p1] by (auto simp: fails_def written_def oappend_def split: option.splits)

lemma fails_prefix: "fails p t \<Longrightarrow> fails p (oappend t u)"
  by (auto simp: fails_def oappend_def split: option.splits)

text \<open>Sequencing.\<close>

lemma prints_and_then:
  assumes "prints False p t d r" and "\<And>p1 u. written p u p1 \<Longrightarrow> t = Some u \<Longrightarrow> buf_depth p1 = d \<Longrightarrow> prints final p1 t2 d2 (f p1)"
  shows "prints final p (oappend t t2) d2 (and_then r f)"
proof -
  obtain ok p1 where r: "r = Ok (ok, p1)" "steady p p1"
    "if ok then \<exists>u. t = Some u \<and> buf_depth p1 = d \<and> written p u p1 else fails p t"
    using assms(1) unfolding prints_def if_False by blast
  show ?thesis
  proof (cases ok)
    case False
    with r show ?thesis using fails_prefix by (auto simp: prints_def and_then_def)
  next
    case True
    with r obtain u where u: "t = Some u" "buf_depth p1 = d" "written p u p1" by auto
    from assms(2) [OF u(3,1,2)] obtain ok2 p2 where s: "f p1 = Ok (ok2, p2)" "steady p1 p2"
      "if ok2 then \<exists>v. t2 = Some v \<and> buf_depth p2 = d2 \<and> (if final then terminated p1 v p2 else written p1 v p2)
       else fails p1 t2"
      by (auto simp: prints_def)
    show ?thesis
      using r s u True written_append [OF u(3)] written_terminated [OF u(3)] fails_append [OF u(3)] steady_trans [of p p1 p2]
      by (auto simp: prints_def and_then_def split: if_splits)
  qed
qed

lemma update_offset_terminated:
  assumes "terminated p t p1" and "no_nul t"
  shows "\<exists>p2. update_offset p1 = Ok p2 \<and> written p t p2 \<and> buf_depth p2 = buf_depth p1"
proof -
  obtain m where m: "memory p1 = Some m" "length m = buf_length p1"
    using assms(1) by (auto simp: terminated_def ready_buffer_def)
  define k where "k = buf_offset p1 - buf_offset p"
  have k: "buf_offset p1 = buf_offset p + k" "k \<le> length t" using assms(1) by (auto simp: terminated_def k_def)
  have t: "text_at m (buf_offset p) (take k t @ drop k t @ [NUL])"
    using assms(1) m by (simp add: terminated_def flip: append_assoc)
  then have "text_at m (buf_offset p1) (drop k t @ [NUL])" using k text_at_append [of m "buf_offset p" "take k t"] by simp
  from strlen_text [OF this] have "strlen (drop (buf_offset p1) m) = Ok (length t - k)" using assms(2) by simp
  then have u: "update_offset p1 = Ok (p1\<lparr>buf_offset := buf_offset p + length t\<rparr>)"
    using m k by (simp add: update_offset_def)
  have "buf_offset p + length t < length m" using t k by (simp add: text_at_nth)
  moreover have "text_at m (buf_offset p) t" using assms(1) m text_at_append by (auto simp: terminated_def)
  ultimately show ?thesis using u assms(1) m
    by (auto simp: terminated_def written_def ready_buffer_def steady_def own_def)
qed

lemma prints_update:
  assumes "prints True p t d r" and "\<And>u. t = Some u \<Longrightarrow> no_nul u"
    and "\<And>p1 u. written p u p1 \<Longrightarrow> t = Some u \<Longrightarrow> buf_depth p1 = d \<Longrightarrow> prints final p1 t2 d2 (f p1)"
  shows "prints final p (oappend t t2) d2 (and_then r (\<lambda>p1. obind (update_offset p1) f))"
proof -
  obtain ok p1 where r: "r = Ok (ok, p1)" "steady p p1"
    "if ok then \<exists>u. t = Some u \<and> buf_depth p1 = d \<and> terminated p u p1 else fails p t"
    using assms(1) unfolding prints_def if_True by blast
  show ?thesis
  proof (cases ok)
    case False
    with r show ?thesis using fails_prefix by (auto simp: prints_def and_then_def)
  next
    case True
    with r obtain u where u: "t = Some u" "buf_depth p1 = d" "terminated p u p1" by auto
    from update_offset_terminated [OF u(3)] assms(2) [OF u(1)] obtain p2 where
      p2: "update_offset p1 = Ok p2" "written p u p2" "buf_depth p2 = d" using u(2) by auto
    have "prints False p t d (Ok (True, p2))" unfolding prints_def
      by (rule exI [of _ True], rule exI [of _ p2]) (use p2 u(1) in \<open>simp add: written_def\<close>)
    from prints_and_then [OF this assms(3)] show ?thesis using r True p2 by (simp add: and_then_def)
  qed
qed

subsection \<open>Growing\<close>

lemma grown_simps: "length m \<le> n \<Longrightarrow> length (grown n m) = n" "length m \<le> n \<Longrightarrow> take (length m) (grown n m) = m"
  by (simp_all add: grown_def)

text \<open>
  \<open>ensure\<close> succeeds exactly when the bytes, the text before them and one more byte fit the limit,
  unless the hooks refuse; then there is room for one byte more than was asked for.
\<close>

lemma ensure_spec:
  assumes "ready_buffer p" and "needed \<le> int_max"
  shows "\<exists>ok p1. ensure p needed = Ok (ok, p1) \<and> steady p p1 \<and>
    (if ok then ready_buffer p1 \<and> buf_offset p1 = buf_offset p \<and> buf_depth p1 = buf_depth p \<and>
       take (buf_offset p) (the (memory p1)) = take (buf_offset p) (the (memory p)) \<and>
       buf_offset p + needed + 1 \<le> buf_length p1 \<and> buf_offset p + needed + 1 \<le> limit p
     else refusing p \<or> limit p < buf_offset p + needed + 1)"
proof -
  obtain m where m: "memory p = Some m" "length m = buf_length p" "buf_length p \<le> int_max"
    and o: "buf_offset p < buf_length p \<or> buf_length p = 0 \<and> buf_offset p = 0 \<and> (noalloc p \<or> can_realloc (buf_hooks p))"
    using assms(1) by (auto simp: ready_buffer_def)
  let ?n = "needed + buf_offset p + 1"
  have g: "(0 < buf_length p \<and> buf_length p \<le> buf_offset p) = False" "(int_max < needed) = False"
    using o assms(2) by auto
  have e: "ensure p needed = (if ?n \<le> buf_length p then Ok (True, p) else if noalloc p then Ok (False, p)
     else if int_max < ?n then Ok (False, p)
     else (let newsize = (if int_max div 2 < ?n then int_max else ?n * 2);
               lost = (\<lambda>h. Ok (False, p\<lparr>memory := None, buf_length := 0, buf_hooks := deallocate h\<rparr>))
           in if can_realloc (buf_hooks p) then
                (case reallocate (buf_hooks p) of
                   (False, h) \<Rightarrow> lost h
                 | (True, h) \<Rightarrow> Ok (True, p\<lparr>memory := Some (grown newsize m), buf_length := newsize, buf_hooks := h\<rparr>))
              else
                (case allocate (buf_hooks p) of
                   (False, h) \<Rightarrow> lost h
                 | (True, h) \<Rightarrow>
                     if length m < buf_offset p + 1 then UB Buffer_Overread
                     else Ok (True, p\<lparr>memory := Some (grown newsize (take (buf_offset p + 1) m)),
                              buf_length := newsize, buf_hooks := deallocate h\<rparr>))))"
    by (simp only: ensure_def m(1) option.case g if_False Let_def)
  show ?thesis
  proof (cases "?n \<le> buf_length p")
    case True
    then show ?thesis using assms(1) m by (auto simp: e limit_def)
  next
    case big: False
    show ?thesis
    proof (cases "noalloc p \<or> int_max < ?n")
      case True
      then show ?thesis using big m by (auto simp: e limit_def)
    next
      case False
      define newsize where "newsize = (if int_max div 2 < ?n then int_max else ?n * 2)"
      have ns: "?n \<le> newsize" "newsize \<le> int_max" "buf_length p \<le> newsize"
        using False big by (auto simp: newsize_def int_max_def)
      have lim: "limit p = int_max" using False by (simp add: limit_def)
      have "grown newsize m = m @ replicate (newsize - length m) None"
        using ns m by (simp add: grown_def)
      then have g1: "length (grown newsize m) = newsize" "take (buf_offset p) (grown newsize m) = take (buf_offset p) m"
        using ns m o by auto
      let ?c = "take (buf_offset p + 1) m"
      have "grown newsize ?c = ?c @ replicate (newsize - length ?c) None"
        using ns m by (simp add: grown_def min_def)
      then have g2: "length (grown newsize ?c) = newsize" "take (buf_offset p) (grown newsize ?c) = take (buf_offset p) m"
        using ns m o by (auto simp: min_def)
      show ?thesis
      proof (cases "grants (buf_hooks p) (asked (buf_hooks p))")
        case True
        text \<open>Whichever way the memory was moved, the new state is of this form.\<close>
        have fin: "steady p p1 \<and> ready_buffer p1 \<and> buf_offset p1 = buf_offset p \<and> buf_depth p1 = buf_depth p \<and>
            take (buf_offset p) (the (memory p1)) = take (buf_offset p) (the (memory p)) \<and>
            buf_offset p + needed + 1 \<le> buf_length p1 \<and> buf_offset p + needed + 1 \<le> limit p"
          if "p1 = p\<lparr>memory := Some g, buf_length := newsize, buf_hooks := h\<rparr>" and "length g = newsize"
            and "take (buf_offset p) g = take (buf_offset p) m" and "grants h = grants (buf_hooks p)"
            and "can_realloc h = can_realloc (buf_hooks p)" and "live h = live (buf_hooks p)" for p1 g h
          unfolding that(1) steady_def ready_buffer_def own_def using that False m ns lim by simp
        have d: "deallocate h = h\<lparr>live := live h - 1\<rparr>" for h by (rule deallocate_def)
        show ?thesis
        proof (cases "can_realloc (buf_hooks p)")
          case r: True
          let ?h = "(buf_hooks p)\<lparr>asked := Suc (asked (buf_hooks p))\<rparr>"
          have "ensure p needed = Ok (True, p\<lparr>memory := Some (grown newsize m), buf_length := newsize, buf_hooks := ?h\<rparr>)"
            unfolding e newsize_def [symmetric] Let_def using big False r True by (simp add: reallocate_def)
          with fin [OF refl g1, of ?h] show ?thesis by (intro exI [of _ True]) simp
        next
          case r: False
          let ?h = "(buf_hooks p)\<lparr>asked := Suc (asked (buf_hooks p)), live := live (buf_hooks p) + 1 - 1\<rparr>"
          have "ensure p needed = Ok (True, p\<lparr>memory := Some (grown newsize ?c), buf_length := newsize, buf_hooks := ?h\<rparr>)"
            unfolding e newsize_def [symmetric] Let_def using big False r True o m(2)
            by (auto simp add: allocate_def d simp del: refund_simps)
          with fin [OF refl g2, of ?h] show ?thesis by (intro exI [of _ True]) simp
        qed
      next
        case no: False
        then have "refusing p" using False by (auto simp: refusing_def)
        moreover have "ensure p needed = Ok (False, p\<lparr>memory := None, buf_length := 0,
            buf_hooks := deallocate ((buf_hooks p)\<lparr>asked := Suc (asked (buf_hooks p))\<rparr>)\<rparr>)"
          unfolding e Let_def using big False no
          by (cases "can_realloc (buf_hooks p)") (simp_all add: reallocate_def allocate_def del: refund_simps)
        ultimately show ?thesis using False m by (auto simp: steady_def own_def deallocate_def simp del: refund_simps)
      qed
    qed
  qed
qed

lemma ensure_large: "ready_buffer p \<Longrightarrow> int_max < needed \<Longrightarrow> ensure p needed = Ok (False, p)"
  by (auto simp: ensure_def ready_buffer_def)

lemma ready_steady [simp]: "ready_buffer p \<Longrightarrow> steady p p"
  by (auto simp: ready_buffer_def)

text \<open>A text after \<open>ensure\<close>, without or with its terminator.\<close>

lemma prints_emit:
  assumes "ready_buffer p" and "length t \<le> needed" and "needed \<le> length t + 1"
    and "z = [] \<or> z = [NUL]" and "length (t @ z) \<le> needed + 1"
  shows "prints False p (Some t) (buf_depth p) (ensure_emit needed (t @ z) (length t) p)"
proof (cases "int_max < needed")
  case True
  have "limit p \<le> int_max" using assms(1) by (auto simp: limit_def ready_buffer_def)
  then have "fails p (Some t)" using True assms by (simp add: fails_def)
  then show ?thesis using ensure_large [OF assms(1) True] assms(1) by (auto simp: prints_def ensure_emit_def)
next
  case False
  then have n: "needed \<le> int_max" by simp
  obtain ok p1 where e: "ensure p needed = Ok (ok, p1)" "steady p p1"
    "if ok then ready_buffer p1 \<and> buf_offset p1 = buf_offset p \<and> buf_depth p1 = buf_depth p \<and>
       take (buf_offset p) (the (memory p1)) = take (buf_offset p) (the (memory p)) \<and>
       buf_offset p + needed + 1 \<le> buf_length p1 \<and> buf_offset p + needed + 1 \<le> limit p
     else refusing p \<or> limit p < buf_offset p + needed + 1"
    using ensure_spec [OF assms(1) n] by blast
  show ?thesis
  proof (cases ok)
    case False
    with e have "refusing p \<or> limit p < buf_offset p + needed + 1" by simp
    then have "fails p (Some t)" using assms(3) by (auto simp: fails_def)
    with False e show ?thesis by (auto simp: prints_def ensure_emit_def)
  next
    case True
    with e obtain m where m: "memory p1 = Some m" "length m = buf_length p1" by (auto simp: ready_buffer_def)
    let ?m = "overwrite (buf_offset p) (t @ z) m"
    have fit: "buf_offset p + length (t @ z) \<le> length m" using e True m assms(5) by simp
    have tx: "text_at ?m (buf_offset p) t" using overwrite_text [OF fit] text_at_append by blast
    have "emit_bytes (t @ z) (length t) p1 = Ok (p1\<lparr>memory := Some ?m, buf_offset := buf_offset p + length t\<rparr>)"
      using e True m fit by (simp add: emit_bytes_def store_def)
    moreover have "written p t (p1\<lparr>memory := Some ?m, buf_offset := buf_offset p + length t\<rparr>)"
      using e True m fit tx overwrite_before [OF fit, of "buf_offset p"] assms(2)
      by (auto simp: written_def steady_def own_def ready_buffer_def)
    ultimately show ?thesis using e True
      by (auto simp: prints_def ensure_emit_def written_def)
  qed
qed

lemma prints_emit_final:
  assumes "ready_buffer p" and "needed = length t + 1" and "n \<le> length t"
  shows "prints True p (Some t) (buf_depth p) (ensure_emit needed (t @ [NUL]) n p)"
proof (cases "int_max < needed")
  case True
  have "limit p \<le> int_max" using assms(1) by (auto simp: limit_def ready_buffer_def)
  then have "fails p (Some t)" using True assms by (simp add: fails_def)
  then show ?thesis using ensure_large [OF assms(1) True] assms(1) by (auto simp: prints_def ensure_emit_def)
next
  case False
  then have n: "needed \<le> int_max" by simp
  obtain ok p1 where e: "ensure p needed = Ok (ok, p1)" "steady p p1"
    "if ok then ready_buffer p1 \<and> buf_offset p1 = buf_offset p \<and> buf_depth p1 = buf_depth p \<and>
       take (buf_offset p) (the (memory p1)) = take (buf_offset p) (the (memory p)) \<and>
       buf_offset p + needed + 1 \<le> buf_length p1 \<and> buf_offset p + needed + 1 \<le> limit p
     else refusing p \<or> limit p < buf_offset p + needed + 1"
    using ensure_spec [OF assms(1) n] by blast
  show ?thesis
  proof (cases ok)
    case False
    with e have "refusing p \<or> limit p < buf_offset p + needed + 1" by simp
    then have "fails p (Some t)" using assms(2) by (auto simp: fails_def)
    with False e show ?thesis by (auto simp: prints_def ensure_emit_def)
  next
    case True
    with e obtain m where m: "memory p1 = Some m" "length m = buf_length p1" by (auto simp: ready_buffer_def)
    let ?m = "overwrite (buf_offset p) (t @ [NUL]) m"
    have fit: "buf_offset p + length (t @ [NUL]) \<le> length m" using e True m assms(2) by simp
    have "emit_bytes (t @ [NUL]) n p1 = Ok (p1\<lparr>memory := Some ?m, buf_offset := buf_offset p + n\<rparr>)"
      using e True m fit by (simp add: emit_bytes_def store_def)
    moreover have "terminated p t (p1\<lparr>memory := Some ?m, buf_offset := buf_offset p + n\<rparr>)"
      using e True m fit overwrite_text [OF fit] overwrite_before [OF fit, of "buf_offset p"] assms(2,3)
      by (auto simp: terminated_def steady_def own_def ready_buffer_def)
    ultimately show ?thesis using e True
      by (auto simp: prints_def ensure_emit_def terminated_def)
  qed
qed

subsection \<open>Strings\<close>

lemma escape_length: "length (escape s) = length s + escape_characters s"
proof (induction s)
  case (Cons c s)
  have "short_escape c = None" if "31 < (of_char c :: nat)" "c \<noteq> CHR 0x22" "c \<noteq> CHR 0x5C"
    using that by (auto simp: short_escape_def)
  moreover have "short_escape c \<noteq> None" if "c = CHR 0x22 \<or> c = CHR 0x5C"
    using that by (auto simp: short_escape_def)
  ultimately show ?case using Cons by (auto simp: unicode_escape_def)
qed simp

lemma escape_none: "escape_characters s = 0 \<Longrightarrow> escape s = s"
proof (induction s)
  case (Cons c s)
  then have "short_escape c = None" "\<not> of_char c < (32 :: nat)" "escape s = s" by (auto split: if_splits)
  moreover have "c \<noteq> CHR 0x22" "c \<noteq> CHR 0x5C" using calculation(1) by (auto simp: short_escape_def)
  ultimately show ?case by auto
qed simp

text \<open>The second pass writes the escaped text and at most one byte behind it.\<close>

lemma store_escaped_text:
  assumes "pos + length (escape s) + 1 \<le> length m"
  shows "\<exists>m'. store_escaped pos s m = Ok m' \<and> length m' = length m \<and> take pos m' = take pos m \<and>
    text_at m' pos (escape s)"
  using assms
proof (induction s arbitrary: pos m)
  case (Cons c s)
  text \<open>One character stored as \<open>bs\<close>, perhaps with a terminator.\<close>
  have step: "\<exists>m'. obind (store pos (bs @ z) m) (store_escaped (pos + length bs) s) = Ok m' \<and>
      length m' = length m \<and> take pos m' = take pos m \<and> text_at m' pos (bs @ escape s)"
    if "pos + length bs + length (escape s) + 1 \<le> length m" and "length z \<le> 1" for bs z
  proof -
    let ?m1 = "overwrite pos (bs @ z) m"
    have fit: "pos + length (bs @ z) \<le> length m" using that by simp
    then have st: "store pos (bs @ z) m = Ok ?m1" by (simp add: store_def)
    have "pos + length bs + length (escape s) + 1 \<le> length ?m1" using that fit by simp
    from Cons.IH [OF this] obtain m' where m': "store_escaped (pos + length bs) s ?m1 = Ok m'"
      "length m' = length ?m1" "take (pos + length bs) m' = take (pos + length bs) ?m1" "text_at m' (pos + length bs) (escape s)"
      by blast
    have "text_at ?m1 pos bs" using overwrite_text [OF fit] text_at_append by blast
    then have "text_at m' pos bs" using text_at_before [OF m'(3)] m'(2) fit by simp
    moreover have "take pos m' = take pos m"
      using arg_cong [OF m'(3), of "take pos"] overwrite_before [OF fit, of pos] by (simp add: min_def)
    ultimately show ?thesis using st m' fit by (auto simp: text_at_append)
  qed
  show ?case
  proof (cases "31 < (of_char c :: nat) \<and> c \<noteq> CHR 0x22 \<and> c \<noteq> CHR 0x5C")
    case True
    then show ?thesis using step [of "[c]" "[]"] Cons.prems by simp
  next
    case False
    show ?thesis
    proof (cases "short_escape c")
      case None
      let ?bs = "CHR 0x5C # unicode_escape c"
      have l: "length ?bs = 6" by (simp add: unicode_escape_def)
      have "escape (c # s) = ?bs @ escape s"
        "store_escaped pos (c # s) m = obind (store pos (?bs @ [NUL]) m) (store_escaped (pos + 6) s)"
        by (simp_all only: store_escaped.simps escape.simps if_not_P [OF False] None option.case append_Cons append_Nil)
      then show ?thesis using step [of ?bs "[NUL]"] Cons.prems l by (simp add: add.commute)
    next
      case (Some e)
      have "escape (c # s) = [CHR 0x5C, e] @ escape s"
        "store_escaped pos (c # s) m = obind (store pos [CHR 0x5C, e] m) (store_escaped (pos + 2) s)"
        by (simp_all only: store_escaped.simps escape.simps if_not_P [OF False] Some option.case append_Cons append_Nil)
      then show ?thesis using step [of "[CHR 0x5C, e]" "[]"] Cons.prems by simp
    qed
  qed
qed simp

lemma prints_string:
  assumes "ready_buffer p"
  shows "prints True p (Some (quote s)) (buf_depth p) (print_string_ptr s p)"
proof (cases s)
  case None
  have "ensure_emit 3 [CHR 0x22, CHR 0x22, NUL] 0 p = ensure_emit (length (quote s) + 1) (quote s @ [NUL]) 0 p"
    by (simp add: quote_def None numeral_3_eq_3)
  then show ?thesis using prints_emit_final [OF assms, of "length (quote s) + 1" "quote s" 0] None
    by (simp add: print_string_ptr_def)
next
  case (Some u)
  let ?n = "length u + escape_characters u + 3"
  have q: "quote s = CHR 0x22 # escape u @ [CHR 0x22]" "length (quote s) + 1 = ?n"
    by (simp_all add: quote_def Some escape_length)
  show ?thesis
  proof (cases "escape_characters u = 0")
    case True
    then have "ensure_emit (length u + 3) (CHR 0x22 # u @ [CHR 0x22, NUL]) 0 p = ensure_emit ?n (quote s @ [NUL]) 0 p"
      using escape_none by (simp add: q(1))
    then show ?thesis using prints_emit_final [OF assms, of ?n "quote s" 0] q True Some
      by (simp add: print_string_ptr_def)
  next
    case esc: False
    show ?thesis
    proof (cases "int_max < ?n")
      case True
      have "limit p \<le> int_max" using assms by (auto simp: limit_def ready_buffer_def)
      then have "fails p (Some (quote s))" using True q(2) by (simp add: fails_def)
      then show ?thesis using ensure_large [OF assms True] assms esc Some
        by (auto simp: prints_def print_string_ptr_def Let_def)
    next
      case False
      then have n: "?n \<le> int_max" by simp
      obtain ok p1 where e: "ensure p ?n = Ok (ok, p1)" "steady p p1"
        "if ok then ready_buffer p1 \<and> buf_offset p1 = buf_offset p \<and> buf_depth p1 = buf_depth p \<and>
           take (buf_offset p) (the (memory p1)) = take (buf_offset p) (the (memory p)) \<and>
           buf_offset p + ?n + 1 \<le> buf_length p1 \<and> buf_offset p + ?n + 1 \<le> limit p
         else refusing p \<or> limit p < buf_offset p + ?n + 1"
        using ensure_spec [OF assms n] by blast
      show ?thesis
      proof (cases ok)
        case False
        with e have "refusing p \<or> limit p < buf_offset p + ?n + 1" by simp
        then have "fails p (Some (quote s))" using q(2) by (auto simp: fails_def)
        with False e esc Some show ?thesis by (auto simp: prints_def print_string_ptr_def Let_def)
      next
        case True
        with e obtain m where m: "memory p1 = Some m" "length m = buf_length p1" by (auto simp: ready_buffer_def)
        let ?o = "buf_offset p"
        have room: "?o + length (escape u) + 4 \<le> length m" using e True m by (simp add: escape_length)
        define m1 where "m1 = overwrite ?o [CHR 0x22] m"
        have m1: "store ?o [CHR 0x22] m = Ok m1" "length m1 = length m" "take ?o m1 = take ?o m" "text_at m1 ?o [CHR 0x22]"
          using room overwrite_text [of ?o "[CHR 0x22]" m] overwrite_before [of ?o "[CHR 0x22]" m ?o]
          by (simp_all add: store_def m1_def)
        have "?o + 1 + length (escape u) + 1 \<le> length m1" using room m1(2) by simp
        from store_escaped_text [OF this] obtain m2 where m2: "store_escaped (?o + 1) u m1 = Ok m2"
          "length m2 = length m1" "take (?o + 1) m2 = take (?o + 1) m1" "text_at m2 (?o + 1) (escape u)" by blast
        let ?q = "?o + (length u + escape_characters u) + 1"
        have eo: "?q = ?o + 1 + length (escape u)" by (simp add: escape_length)
        define m3 where "m3 = overwrite ?q [CHR 0x22, NUL] m2"
        have fit3: "?q + length [CHR 0x22, NUL] \<le> length m2" using room m1(2) m2(2) unfolding eo by simp
        have m3: "store ?q [CHR 0x22, NUL] m2 = Ok m3" "length m3 = length m2" "take ?q m3 = take ?q m2"
          "text_at m3 ?q [CHR 0x22, NUL]"
          using fit3 overwrite_text [OF fit3] overwrite_before [OF fit3, of ?q] by (simp_all add: store_def m3_def)
        have q23: "?q \<le> length m3" using fit3 m3(2) by simp
        have "text_at m2 ?o [CHR 0x22]"
          using text_at_before [OF m2(3) _ m1(4)] m2(2) m1(2) room by simp
        then have "text_at m3 ?o [CHR 0x22]" "text_at m3 (?o + 1) (escape u)"
          using text_at_before [OF m3(3) _ _ q23] m2(4) eo by simp_all
        moreover have "text_at m3 (?o + 1 + length (escape u)) [CHR 0x22, NUL]" using m3(4) unfolding eo .
        ultimately have tx: "text_at m3 ?o (quote s @ [NUL])"
          using text_at_append [of m3 ?o "[CHR 0x22]" "escape u @ [CHR 0x22, NUL]"]
            text_at_append [of m3 "?o + 1" "escape u" "[CHR 0x22, NUL]"]
          by (simp add: q(1))
        have "take ?o m2 = take ?o m1" using arg_cong [OF m2(3), of "take ?o"] by (simp add: min_def)
        moreover have "take ?o m3 = take ?o m2" using arg_cong [OF m3(3), of "take ?o"] by (simp add: min_def)
        ultimately have tk: "take ?o m3 = take ?o (the (memory p))" using m1(3) e True m by simp
        have "print_string_ptr s p = Ok (True, p1\<lparr>memory := Some m3\<rparr>)"
          using e True m esc Some m1(1) m2(1) m3(1) by (simp add: print_string_ptr_def Let_def)
        moreover have "terminated p (quote s) (p1\<lparr>memory := Some m3\<rparr>)"
          using e True m tx tk q(2) m1(2) m2(2) m3(2)
          by (auto simp: terminated_def steady_def own_def ready_buffer_def)
        ultimately show ?thesis using e True by (auto simp: prints_def terminated_def)
      qed
    qed
  qed
qed

subsection \<open>Numbers\<close>

lemma digits_no_nul: "digits s \<Longrightarrow> no_nul s"
  by (auto simp: digits_def list_all_iff no_nul_def dest: is_digit_distinct)

lemma exp_text_no_nul: "no_nul (exp_text x)"
  using digits_no_nul by (auto simp: exp_text_def show_exponent_def Let_def split: option.split)

lemma format_g_no_nul: "wf_double (Fin s m e) \<Longrightarrow> 1 < P \<Longrightarrow> no_nul (format_g P (Fin s m e))"
proof -
  assume "wf_double (Fin s m e)" "1 < P"
  from format_g_text [OF this] obtain ip fp xo where
    "format_g P (Fin s m e) = numeral_text s ip fp xo" "digits ip" "digits fp" by blast
  then show ?thesis using digits_no_nul exp_text_no_nul by (simp add: numeral_text_def)
qed

lemma number_text_bounds:
  assumes "wf_double d"
  shows "length (number_text d) \<le> 24" and "no_nul (number_text d)"
proof -
  have "length (number_text d) \<le> 24 \<and> no_nul (number_text d)"
  proof (cases d)
    case (Fin s m e)
    note w = assms [unfolded Fin]
    have "number_text d = format_g 15 d \<or> number_text d = format_g 17 d"
      by (simp add: number_text_def Fin Let_def split: option.split)
    moreover have "length (format_g 15 d) \<le> 24" "length (format_g 17 d) \<le> 24"
      using format_g_text [OF w, of 15] format_g_text [OF w, of 17] by (auto simp: Fin)
    moreover have "no_nul (format_g 15 d)" "no_nul (format_g 17 d)"
      using format_g_no_nul [OF w] unfolding Fin by simp_all
    ultimately show ?thesis by metis
  qed (simp_all add: number_text_def)
  then show "length (number_text d) \<le> 24" "no_nul (number_text d)" by auto
qed

lemma prints_number:
  assumes "ready_buffer p" and "wf_double (valuedouble item)"
  shows "prints True p (Some (number_text (valuedouble item))) (buf_depth p) (print_number item p)"
proof -
  have "length (number_text (valuedouble item)) \<le> 24" using number_text_bounds(1) [OF assms(2)] .
  then have "print_number item p = ensure_emit (length (number_text (valuedouble item)) + 1)
      (number_text (valuedouble item) @ [NUL]) (length (number_text (valuedouble item))) p"
    by (simp add: print_number_def Let_def)
  then show ?thesis using prints_emit_final [OF assms(1)] by simp
qed

subsection \<open>The printer implements the text\<close>

lemma hex_char_not_nul: "d < 16 \<Longrightarrow> hex_char d \<noteq> NUL"
proof -
  assume "d < 16"
  then have "(of_char (hex_char d) :: nat) \<noteq> 0" by (simp add: hex_char_def)
  moreover have "(of_char NUL :: nat) = 0" by simp
  ultimately show ?thesis by metis
qed

lemma of_char_hex: "of_char c div 16 < (16 :: nat)" "of_char c mod 16 < (16 :: nat)"
proof -
  have "of_char c < (256 :: nat)" by simp
  then show "of_char c div 16 < (16 :: nat)" by (simp add: div_less_iff_less_mult)
qed simp

lemma unicode_escape_no_nul: "no_nul (unicode_escape c)"
  using hex_char_not_nul [OF of_char_hex(1) [of c]] hex_char_not_nul [OF of_char_hex(2) [of c]]
  by (simp add: unicode_escape_def)

lemma short_escape_not_nul: "short_escape c = Some e \<Longrightarrow> e \<noteq> NUL"
  by (auto simp: short_escape_def split: if_splits)

lemma escape_no_nul: "no_nul (escape s)"
proof (induction s)
  case (Cons c s)
  have "c \<noteq> NUL" if "31 < (of_char c :: nat)" using that by auto
  with Cons show ?case
    using unicode_escape_no_nul short_escape_not_nul by (auto split: option.split)
qed simp

lemma quote_no_nul: "no_nul (quote s)"
  using escape_no_nul by (simp add: quote_def)

lemma no_nul_oappend: "oappend a b = Some t \<Longrightarrow> (\<And>u. a = Some u \<Longrightarrow> no_nul u) \<Longrightarrow> (\<And>u. b = Some u \<Longrightarrow> no_nul u) \<Longrightarrow> no_nul t"
  by (auto simp: oappend_Some)

lemma tabs_no_nul [simp]: "no_nul (tabs n)"
  by (auto simp: tabs_def no_nul_def)

lemma render_elements_no_nul:
  assumes "\<forall>e \<in> set es. \<forall>d t. render fmt d e = Some t \<longrightarrow> no_nul t"
  shows "render_elements fmt d es = Some t \<Longrightarrow> no_nul t"
  using assms by (induction es arbitrary: t) (auto simp: oappend_Some split: if_splits)

lemma render_members_no_nul:
  assumes "\<forall>e \<in> set es. \<forall>d t. render fmt d e = Some t \<longrightarrow> no_nul t"
  shows "render_members fmt d es = Some t \<Longrightarrow> no_nul t"
  using assms
proof (induction es arbitrary: t)
  case (Cons e es)
  then show ?case using quote_no_nul [of "item_name e"] by (cases fmt) (auto simp: oappend_Some split: if_splits)
qed simp

lemma render_no_nul: "clean i \<Longrightarrow> render fmt d i = Some t \<Longrightarrow> no_nul t"
proof (induction i arbitrary: d t)
  case (Item ty s n x k c)
  have ih: "\<forall>e \<in> set c. \<forall>d t. render fmt d e = Some t \<longrightarrow> no_nul t"
    using Item by (auto simp: list_all_iff)
  consider (scalar) "render fmt d (Item ty s n x k c) \<in> {Some ''null'', Some ''false'', Some ''true'', Some (number_text x), s, Some (quote s)}"
    | (array) "render fmt d (Item ty s n x k c) = oappend (Some ''['') (oappend (render_elements fmt (d + 1) c) (Some '']''))"
    | (object) "render fmt d (Item ty s n x k c) = oappend (Some (if fmt then [CHR ''{'', LF] else ''{''))
          (oappend (render_members fmt (d + 1) c) (Some ((if fmt then tabs d else []) @ ''}'')))"
    using Item.prems(2) by (auto simp: Let_def split: if_splits)
  then show ?case
  proof cases
    case scalar
    then show ?thesis using Item.prems number_text_bounds(2) [of x] quote_no_nul [of s] by (auto split: option.splits)
  next
    case array
    then show ?thesis using Item.prems(2) render_elements_no_nul [OF ih] by (auto simp: oappend_Some)
  next
    case object
    then show ?thesis using Item.prems(2) render_members_no_nul [OF ih] by (auto simp: oappend_Some split: if_splits)
  qed
qed

lemma prints_steady:
  "written p u p1 \<Longrightarrow> ready_buffer p1 \<and> format p1 = format p"
  by (simp add: written_def steady_def)

lemma deeper_simps [simp]:
  "memory (deeper p) = memory p" "buf_offset (deeper p) = buf_offset p" "buf_length (deeper p) = buf_length p"
  "buf_depth (deeper p) = buf_depth p + 1" "noalloc (deeper p) = noalloc p" "format (deeper p) = format p"
  "buf_hooks (deeper p) = buf_hooks p" "memory (shallower p) = memory p" "buf_offset (shallower p) = buf_offset p"
  "buf_length (shallower p) = buf_length p" "buf_depth (shallower p) = buf_depth p - 1"
  "noalloc (shallower p) = noalloc p" "format (shallower p) = format p" "buf_hooks (shallower p) = buf_hooks p"
  by (simp_all add: deeper_def shallower_def)

text \<open>The depth is a matter of the state only.\<close>

lemma depth_irrelevant:
  "steady (deeper p) q = steady p q" "limit (deeper p) = limit p" "refusing (deeper p) = refusing p"
  "steady p (shallower q) = steady p q" "ready_buffer (shallower q) = ready_buffer q"
  "ready_buffer (deeper q) = ready_buffer q"
  by (simp_all add: steady_def limit_def refusing_def own_def ready_buffer_def)

lemma deeper_states:
  "written (deeper p) u q = written p u q" "terminated (deeper p) u q = terminated p u q" "fails (deeper p) t = fails p t"
  by (simp_all add: written_def terminated_def fails_def depth_irrelevant split: option.split)

lemma prints_deeper: "prints final (deeper p) t d r = prints final p t d r"
  by (simp only: prints_def deeper_states depth_irrelevant)

lemma prints_shallower:
  assumes "prints True p t (Suc d) r"
  shows "prints True p t d (and_then r (\<lambda>q. Ok (True, shallower q)))"
proof -
  obtain ok q where r: "r = Ok (ok, q)" "steady p q"
    "if ok then \<exists>u. t = Some u \<and> buf_depth q = Suc d \<and> terminated p u q else fails p t"
    using assms unfolding prints_def if_True by blast
  have "terminated p u q \<Longrightarrow> terminated p u (shallower q)" for u
    by (simp add: terminated_def depth_irrelevant)
  with r have "if ok then \<exists>u. t = Some u \<and> buf_depth (shallower q) = d \<and> terminated p u (shallower q) else fails p t"
    by (cases ok) auto
  moreover have "and_then r (\<lambda>q. Ok (True, shallower q)) = Ok (ok, if ok then shallower q else q)"
    using r(1) by (simp add: and_then_def)
  ultimately show ?thesis
    unfolding prints_def if_True using r(2) depth_irrelevant(4) by (cases ok) auto
qed

text \<open>What one value owes to the containers around it.\<close>

definition value_spec :: "cJSON \<Rightarrow> bool" where
  "value_spec i \<longleftrightarrow> (\<forall>p. ready_buffer p \<longrightarrow>
     prints True p (render (format p) (buf_depth p) i) (buf_depth p) (print_value i p))"

lemma value_specD:
  "value_spec i \<Longrightarrow> ready_buffer p \<Longrightarrow> format p = fmt \<Longrightarrow> buf_depth p = d \<Longrightarrow>
     prints True p (render fmt d i) d (print_value i p)"
  by (auto simp: value_spec_def)

lemma prints_nothing: "ready_buffer p \<Longrightarrow> buf_offset p < buf_length p \<Longrightarrow> prints False p (Some []) (buf_depth p) (Ok (True, p))"
  unfolding prints_def if_False
  by (rule exI [of _ True], rule exI [of _ p]) (auto simp: written_def ready_buffer_def steady_def)

lemma written_room: "written p u q \<Longrightarrow> buf_offset q < buf_length q"
  by (auto simp: written_def)

lemma written_ready: "written p u q \<Longrightarrow> ready_buffer q"
  by (simp add: written_def)

lemma written_format: "written p u q \<Longrightarrow> format q = format p"
  by (simp add: written_def steady_def)

lemma elements_spec:
  assumes "\<And>e. e \<in> set es \<Longrightarrow> value_spec e \<and> clean e"
    and "ready_buffer p" and "buf_offset p < buf_length p"
  shows "prints False p (render_elements (format p) (buf_depth p) es) (buf_depth p) (print_elements es p)"
  using assms
proof (induction es arbitrary: p)
  case Nil
  then show ?case by (simp add: prints_nothing)
next
  case (Cons e es)
  let ?f = "format p" and ?d = "buf_depth p"
  have e: "value_spec e" "clean e" using Cons.prems(1) by auto
  have rest: "prints False q (oappend (Some (if es = [] then [] else if ?f then '', '' else '','')) (render_elements ?f ?d es)) ?d
      (if es = [] then print_elements es q
       else (let sep = (if format q then '', '' else '','') in
             and_then (ensure_emit (length sep + 1) (sep @ [NUL]) (length sep) q) (print_elements es)))"
    if q: "written p u q" "buf_depth q = ?d" for q u
  proof (cases "es = []")
    case True
    then show ?thesis using prints_nothing [OF written_ready [OF q(1)] written_room [OF q(1)]] q(2) by simp
  next
    case False
    define sep where "sep = (if ?f then '', '' else '','')"
    have "prints False q (Some sep) ?d (ensure_emit (length sep + 1) (sep @ [NUL]) (length sep) q)"
      using prints_emit [OF written_ready [OF q(1)], of sep "length sep + 1" "[NUL]"] q(2) by simp
    moreover have "prints False r (render_elements ?f ?d es) ?d (print_elements es r)"
      if "written q v r" "buf_depth r = ?d" for r v
      using Cons.IH [of r] Cons.prems(1) written_ready [OF that(1)] written_room [OF that(1)] that(2)
        written_format [OF that(1)] written_format [OF q(1)] by simp
    ultimately have "prints False q (oappend (Some sep) (render_elements ?f ?d es)) ?d
        (and_then (ensure_emit (length sep + 1) (sep @ [NUL]) (length sep) q) (print_elements es))"
      by (rule prints_and_then)
    then show ?thesis using False written_format [OF q(1)] by (simp add: sep_def Let_def)
  qed
  have "prints True p (render ?f ?d e) ?d (print_value e p)"
    using value_specD [OF e(1) Cons.prems(2)] by simp
  then have "prints False p (oappend (render ?f ?d e)
      (oappend (Some (if es = [] then [] else if ?f then '', '' else '','')) (render_elements ?f ?d es))) ?d
      (and_then (print_value e p) (\<lambda>p1. obind (update_offset p1)
        (\<lambda>q. if es = [] then print_elements es q
           else (let sep = (if format q then '', '' else '','') in
                 and_then (ensure_emit (length sep + 1) (sep @ [NUL]) (length sep) q) (print_elements es)))))"
    by (rule prints_update) (use render_no_nul [OF e(2)] rest in auto)
  then show ?case by simp
qed

lemma members_spec:
  assumes "\<And>e. e \<in> set es \<Longrightarrow> value_spec e \<and> clean e"
    and "ready_buffer p" and "buf_offset p < buf_length p"
  shows "prints False p (render_members (format p) (buf_depth p) es) (buf_depth p) (print_members es p)"
  using assms
proof (induction es arbitrary: p)
  case Nil
  then show ?case by (simp add: prints_nothing)
next
  case (Cons e es)
  let ?f = "format p" and ?d = "buf_depth p"
  have e: "value_spec e" "clean e" using Cons.prems(1) by auto
  define colon where "colon = (if ?f then [CHR '':'', CHR 0x09] else '':'')"
  define sep where "sep = (if es = [] then [] else '','') @ (if ?f then [LF] else [])"
  have s6: "prints False q (oappend (Some sep) (render_members ?f ?d es)) ?d
      (let sep = (if es = [] then [] else '','') @ (if format q then [LF] else [])
       in and_then (ensure_emit (length sep + 1) (sep @ [NUL]) (length sep) q) (print_members es))"
    if q: "ready_buffer q" "format q = ?f" "buf_depth q = ?d" for q
  proof -
    have "prints False q (Some sep) ?d (ensure_emit (length sep + 1) (sep @ [NUL]) (length sep) q)"
      using prints_emit [OF q(1), of sep "length sep + 1" "[NUL]"] q(3) by simp
    moreover have "prints False r (render_members ?f ?d es) ?d (print_members es r)"
      if "written q v r" "buf_depth r = ?d" for r v
      using Cons.IH [of r] Cons.prems(1) written_ready [OF that(1)] written_room [OF that(1)] that(2)
        written_format [OF that(1)] q(2) by simp
    ultimately show ?thesis
      unfolding q(2) sep_def [symmetric] Let_def by (rule prints_and_then)
  qed
  have s4: "prints False q (oappend (render ?f ?d e) (oappend (Some sep) (render_members ?f ?d es))) ?d
      (and_then (print_value e q) (\<lambda>p5. obind (update_offset p5)
        (\<lambda>p6. let sep = (if es = [] then [] else '','') @ (if format p6 then [LF] else [])
           in and_then (ensure_emit (length sep + 1) (sep @ [NUL]) (length sep) p6) (print_members es))))"
    if q: "ready_buffer q" "format q = ?f" "buf_depth q = ?d" for q
    by (rule prints_update [OF value_specD [OF e(1) q]])
      (use render_no_nul [OF e(2)] s6 written_ready written_format q in auto)
  have s3: "prints False q (oappend (Some colon) (oappend (render ?f ?d e) (oappend (Some sep) (render_members ?f ?d es)))) ?d
      (let colon = (if format q then [CHR '':'', CHR 0x09] else '':'')
       in and_then (ensure_emit (length colon) colon (length colon) q)
          (\<lambda>p4. and_then (print_value e p4) (\<lambda>p5. obind (update_offset p5)
            (\<lambda>p6. let sep = (if es = [] then [] else '','') @ (if format p6 then [LF] else [])
               in and_then (ensure_emit (length sep + 1) (sep @ [NUL]) (length sep) p6) (print_members es)))))"
    if q: "ready_buffer q" "format q = ?f" "buf_depth q = ?d" for q
  proof -
    have "prints False q (Some colon) ?d (ensure_emit (length colon) colon (length colon) q)"
      using prints_emit [OF q(1), of colon "length colon" "[]"] q(3) by simp
    then show ?thesis
      unfolding q(2) colon_def [symmetric] Let_def
      by (rule prints_and_then) (use s4 [unfolded Let_def] written_ready written_format q in auto)
  qed
  have s2: "prints False q (oappend (Some (quote (item_name e)))
        (oappend (Some colon) (oappend (render ?f ?d e) (oappend (Some sep) (render_members ?f ?d es))))) ?d
      (and_then (print_string_ptr (item_name e) q)
        (\<lambda>p2. obind (update_offset p2)
          (\<lambda>p3. let colon = (if format p3 then [CHR '':'', CHR 0x09] else '':'')
             in and_then (ensure_emit (length colon) colon (length colon) p3)
              (\<lambda>p4. and_then (print_value e p4) (\<lambda>p5. obind (update_offset p5)
                (\<lambda>p6. let sep = (if es = [] then [] else '','') @ (if format p6 then [LF] else [])
                   in and_then (ensure_emit (length sep + 1) (sep @ [NUL]) (length sep) p6) (print_members es)))))))"
    if q: "ready_buffer q" "format q = ?f" "buf_depth q = ?d" for q
    by (rule prints_update [OF prints_string [OF q(1), of "item_name e", unfolded q(3)]])
      (use quote_no_nul s3 written_ready written_format q in auto)
  have s1: "prints False p (Some (if ?f then tabs ?d else [])) ?d
      (if ?f then ensure_emit ?d (tabs ?d) ?d p else Ok (True, p))"
    using prints_emit [OF Cons.prems(2), of "tabs ?d" ?d "[]"] prints_nothing [OF Cons.prems(2,3)]
    by (simp add: tabs_def)
  show ?case
    unfolding print_members.simps render_members.simps colon_def [symmetric] sep_def [symmetric]
    by (rule prints_and_then [OF s1]) (use s2 written_ready written_format in auto)
qed

lemma print_value_spec: "clean i \<Longrightarrow> value_spec i"
proof (induction i)
  case (Item ty s n x k c)
  have sub: "e \<in> set c \<Longrightarrow> value_spec e \<and> clean e" for e
    using Item by (auto simp: list_all_iff)
  have c: "wf_double x" "\<And>u. s = Some u \<Longrightarrow> no_nul u" using Item.prems by auto
  let ?i = "Item ty s n x k c"
  show ?case
    unfolding value_spec_def
  proof (intro allI impI)
    fix p assume r: "ready_buffer p"
    let ?f = "format p" and ?d = "buf_depth p" and ?k = "ty AND 0xFF"
    consider "?k = cJSON_NULL" | "?k = cJSON_False" | "?k = cJSON_True" | "?k = cJSON_Number" | "?k = cJSON_Raw"
      | "?k = cJSON_String" | "?k = cJSON_Array" | "?k = cJSON_Object"
      | "?k \<notin> {cJSON_NULL, cJSON_False, cJSON_True, cJSON_Number, cJSON_Raw, cJSON_String, cJSON_Array, cJSON_Object}"
      by blast
    then show "prints True p (render ?f ?d ?i) ?d (print_value ?i p)"
    proof cases
      case 1
      then show ?thesis using prints_emit_final [OF r, of 5 "''null''" 0] by (simp add: cJSON_types)
    next
      case 2
      then show ?thesis using prints_emit_final [OF r, of 6 "''false''" 0] by (simp add: cJSON_types)
    next
      case 3
      then show ?thesis using prints_emit_final [OF r, of 5 "''true''" 0] by (simp add: cJSON_types)
    next
      case 4
      then show ?thesis using prints_number [OF r, of ?i] c(1) by (simp add: cJSON_types)
    next
      case 5
      show ?thesis
      proof (cases s)
        case None
        with 5 show ?thesis using r by (auto simp: cJSON_types prints_def fails_def)
      next
        case (Some raw)
        then show ?thesis using 5 prints_emit_final [OF r, of "length raw + 1" raw 0] by (simp add: cJSON_types)
      qed
    next
      case 6
      then show ?thesis using prints_string [OF r, of s] by (simp add: cJSON_types)
    next
      case 7
      have a: "prints False p (Some ''['') ?d (ensure_emit 1 ''['' 1 p)"
        using prints_emit [OF r, of "''[''" 1 "[]"] by simp
      have b: "prints True q (oappend (render_elements ?f (?d + 1) c) (Some '']'')) ?d
          (and_then (print_elements c (deeper q))
             (\<lambda>p2. and_then (ensure_emit 2 ('']'' @ [NUL]) 0 p2) (\<lambda>p3. Ok (True, shallower p3))))"
        if q: "written p u q" "buf_depth q = ?d" for q u
      proof -
        have "prints False q (render_elements ?f (?d + 1) c) (?d + 1) (print_elements c (deeper q))"
          using elements_spec [of c "deeper q", OF sub] written_ready [OF q(1)] written_room [OF q(1)] written_format [OF q(1)] q(2)
          by (simp add: depth_irrelevant prints_deeper)
        moreover have "prints True t (Some '']'') ?d
            (and_then (ensure_emit 2 ('']'' @ [NUL]) 0 t) (\<lambda>p3. Ok (True, shallower p3)))"
          if "written q v t" "buf_depth t = ?d + 1" for t v
          using prints_shallower [of t "Some '']''" ?d] prints_emit_final [OF written_ready [OF that(1)], of 2 "'']''" 0] that(2)
          by simp
        ultimately show ?thesis by (rule prints_and_then)
      qed
      from prints_and_then [OF a b] show ?thesis using 7 by (simp add: cJSON_types)
    next
      case 8
      define opener where "opener = (if ?f then [CHR ''{'', LF] else ''{'')"
      define closing where "closing = (if ?f then tabs ?d else []) @ ''}''"
      have a: "prints False p (Some opener) ?d (ensure_emit (length opener + 1) opener (length opener) p)"
        using prints_emit [OF r, of opener "length opener + 1" "[]"] by simp
      have b: "prints True q (oappend (render_members ?f (?d + 1) c) (Some closing)) ?d
          (and_then (print_members c (deeper q))
             (\<lambda>p2. let closing = (if format p2 then tabs (buf_depth p2 - 1) else []) @ ''}'' @ [NUL] in
                and_then (ensure_emit (if format p2 then buf_depth p2 + 1 else 2) closing 0 p2)
                  (\<lambda>p3. Ok (True, shallower p3))))"
        if q: "written p u q" "buf_depth q = ?d" for q u
      proof -
        have "prints False q (render_members ?f (?d + 1) c) (?d + 1) (print_members c (deeper q))"
          using members_spec [of c "deeper q", OF sub] written_ready [OF q(1)] written_room [OF q(1)] written_format [OF q(1)] q(2)
          by (simp add: depth_irrelevant prints_deeper)
        moreover have "prints True t (Some closing) ?d
            (let closing = (if format t then tabs (buf_depth t - 1) else []) @ ''}'' @ [NUL] in
             and_then (ensure_emit (if format t then buf_depth t + 1 else 2) closing 0 t) (\<lambda>p3. Ok (True, shallower p3)))"
          if t: "written q v t" "buf_depth t = ?d + 1" for t v
        proof -
          have f: "format t = ?f" using written_format [OF t(1)] written_format [OF q(1)] by simp
          have c1: "(if format t then tabs (buf_depth t - 1) else []) @ ''}'' @ [NUL] = closing @ [NUL]"
            and c2: "(if format t then buf_depth t + 1 else 2) = length closing + 1"
            using f t(2) by (simp_all add: closing_def tabs_def)
          have "prints True t (Some closing) (Suc ?d) (ensure_emit (length closing + 1) (closing @ [NUL]) 0 t)"
            using prints_emit_final [OF written_ready [OF t(1)], of "length closing + 1" closing 0] t(2) by simp
          then show ?thesis unfolding Let_def c1 c2 by (rule prints_shallower)
        qed
        ultimately show ?thesis by (rule prints_and_then)
      qed
      from prints_and_then [OF a b] show ?thesis
        using 8 by (simp add: cJSON_types opener_def closing_def Let_def)
    next
      case 9
      then show ?thesis using r by (auto simp: prints_def fails_def)
    qed
  qed
qed

section \<open>Properties of the printer\<close>

lemma print_from_ready:
  assumes "clean i" and "ready_buffer p"
  obtains ok p' where "print_item (Some i) p = Ok (ok, p')" and "steady p p'"
    and "ok \<Longrightarrow> \<exists>t. render (format p) (buf_depth p) i = Some t \<and> terminated p t p' \<and> no_nul t"
    and "\<not> ok \<Longrightarrow> fails p (render (format p) (buf_depth p) i)"
proof -
  have "prints True p (render (format p) (buf_depth p) i) (buf_depth p) (print_value i p)"
    using value_specD [OF print_value_spec [OF assms(1)] assms(2)] by simp
  then obtain ok p' where r: "print_value i p = Ok (ok, p')" "steady p p'"
    "if ok then \<exists>u. render (format p) (buf_depth p) i = Some u \<and> buf_depth p' = buf_depth p \<and> terminated p u p'
     else fails p (render (format p) (buf_depth p) i)"
    unfolding prints_def if_True by blast
  show ?thesis
  proof (rule that [of ok p'])
    show "ok \<Longrightarrow> \<exists>t. render (format p) (buf_depth p) i = Some t \<and> terminated p t p' \<and> no_nul t"
      using r(3) render_no_nul [OF assms(1)] by auto
  qed (use r in \<open>simp_all add: print_item_def\<close>)
qed

lemma text_take: "text_at m 0 (t @ [NUL]) \<Longrightarrow> grown (length t + 1) m = map Some (t @ [NUL])"
  by (simp add: text_at_def grown_def)

lemma c_text_map: "no_nul t \<Longrightarrow> c_text (map Some (t @ [NUL]) @ rest) = Ok t"
proof -
  assume n: "no_nul t"
  have "text_at (map Some (t @ [NUL]) @ rest) 0 (t @ [NUL])" by (simp add: text_at_def)
  from strlen_text [OF this n] show ?thesis by (simp add: c_text_def comp_def)
qed

lemma print_result:
  assumes "clean i"
  shows "\<exists>r h'. print (Some i) fmt h = Ok (r, h') \<and> grants h' = grants h \<and>
    (case r of
       Some block \<Rightarrow> live h' = live h + 1 \<and>
         (\<exists>t. render fmt 0 i = Some t \<and> c_text block = Ok t \<and> length block = length t + 1)
     | None \<Rightarrow> live h' = live h \<and>
         ((\<exists>n. \<not> grants h n) \<or> (case render fmt 0 i of None \<Rightarrow> True | Some t \<Rightarrow> int_max < length t + 2)))"
proof (cases "grants h (asked h)")
  case False
  then show ?thesis by (auto simp: print_def allocate_def)
next
  case True
  define h1 where "h1 = h\<lparr>asked := Suc (asked h), live := live h + 1\<rparr>"
  have al: "allocate h = (True, h1)" using True by (simp add: allocate_def h1_def)
  define p where "p = \<lparr>memory = Some (replicate 256 None), buf_length = 256, buf_offset = 0, buf_depth = 0,
                   noalloc = False, format = fmt, buf_hooks = h1\<rparr>"
  have pf: "format p = fmt" "buf_depth p = 0" "buf_offset p = 0" "noalloc p = False" "buf_hooks p = h1" "own p = 1"
    by (simp_all add: p_def own_def)
  have "ready_buffer p" by (simp add: p_def ready_buffer_def int_max_def)
  from print_from_ready [OF assms this] obtain ok p' where
    r: "print_item (Some i) p = Ok (ok, p')" "steady p p'"
      "ok \<Longrightarrow> \<exists>t. render fmt 0 i = Some t \<and> terminated p t p' \<and> no_nul t"
      "\<not> ok \<Longrightarrow> fails p (render fmt 0 i)"
    unfolding pf by metis
  have bal: "live (buf_hooks p') = live h + own p'" "grants (buf_hooks p') = grants h"
    using r(2) pf by (simp_all add: steady_def h1_def)
  show ?thesis
  proof (cases ok)
    case False
    have "live (free_buffer p') = live h" "grants (free_buffer p') = grants h"
      using bal by (simp_all add: free_buffer_def own_def deallocate_def)
    moreover have "(\<exists>n. \<not> grants h n) \<or> (case render fmt 0 i of None \<Rightarrow> True | Some t \<Rightarrow> int_max < length t + 2)"
      using r(4) [OF False] pf by (auto simp: fails_def refusing_def limit_def h1_def split: option.splits)
    ultimately show ?thesis using False r(1) by (simp add: print_def al p_def [symmetric])
  next
    case True
    then obtain t where t: "render fmt 0 i = Some t" "terminated p t p'" "no_nul t" using r(3) by auto
    obtain p2 where p2: "update_offset p' = Ok p2" "written p t p2" using update_offset_terminated [OF t(2,3)] by auto
    obtain m where m: "memory p' = Some m" using t(2) by (auto simp: terminated_def ready_buffer_def)
    have tx: "text_at m 0 (t @ [NUL])" using t(2) m pf by (simp add: terminated_def)
    have m2: "memory p2 = Some m" "buf_hooks p2 = buf_hooks p'" "buf_offset p2 = length t" "buf_length p2 = buf_length p'"
      using p2 m pf by (auto simp: update_offset_def obind_Ok_iff written_def)
    have lm: "buf_length p' = length m" using t(2) m by (simp add: terminated_def ready_buffer_def)
    have tl: "length t + 1 \<le> length m" "take (length t + 1) m = map Some (t @ [NUL])" using tx by (simp_all add: text_at_def)
    have own: "own p' = 1" using m by (simp add: own_def)
    let ?b = "map Some (t @ [NUL])"
    have ct: "c_text ?b = Ok t" using c_text_map [OF t(3), of "[]"] by simp
    have g1: "grown (Suc (length t)) m = ?b" using text_take [OF tx] by simp
    have g2: "grown (Suc (length t)) (take (min (length m) (Suc (length t))) m) = ?b"
      using tl by (simp add: grown_def min_def)
    have "overwrite (length t) [NUL] ?b = ?b" by (simp add: overwrite_def)
    then have st: "store (length t) [NUL] ?b = Ok ?b" by (simp add: store_def)
    have u: "print (Some i) fmt h =
        (if can_realloc (buf_hooks p') then
           (case reallocate (buf_hooks p') of (False, h2) \<Rightarrow> Ok (None, deallocate h2) | (True, h2) \<Rightarrow> Ok (Some ?b, h2))
         else (case allocate (buf_hooks p') of (False, h2) \<Rightarrow> Ok (None, deallocate h2)
               | (True, h2) \<Rightarrow> Ok (Some ?b, deallocate h2)))"
    proof -
      have e: "print (Some i) fmt h =
        (if can_realloc (buf_hooks p') then
           (case reallocate (buf_hooks p') of (False, h2) \<Rightarrow> Ok (None, deallocate h2)
            | (True, h2) \<Rightarrow> Ok (Some (grown (Suc (length t)) m), h2))
         else (case allocate (buf_hooks p') of (False, h2) \<Rightarrow> Ok (None, deallocate h2)
               | (True, h2) \<Rightarrow> obind (store (length t) [NUL] (grown (Suc (length t)) (take (min (length m) (Suc (length t))) m)))
                    (\<lambda>printed. Ok (Some printed, deallocate h2))))"
        using r(1) True p2(1) m2(1,2)
        by (simp add: print_def al p_def [symmetric] split del: if_split) (simp only: m2(3,4) lm Suc_eq_plus1)
      show ?thesis unfolding e g1 g2 st by (simp split: prod.split bool.split)
    qed
    show ?thesis
    proof (cases "grants h (asked (buf_hooks p'))")
      case True
      then show ?thesis using u bal own t(1) ct
        by (cases "can_realloc (buf_hooks p')") (simp_all add: reallocate_def allocate_def)
    next
      case False
      then show ?thesis using u bal own
        by (cases "can_realloc (buf_hooks p')") (auto simp: reallocate_def allocate_def)
    qed
  qed
qed

text \<open>
  C7. Printing an item (with \<open>cJSON_Print\<close> or \<open>cJSON_PrintUnformatted\<close>, which pick the format) either
  yields a block of exactly the size of its text, which holds the text of the item with its
  terminator and is the only block more than before, or NULL, and then every buffer is given back;
  NULL is returned only where an item has no text, an allocation was refused, or the
  text exceeds the size of an \<open>int\<close>. No write leaves the buffer, however it grows.
\<close>

theorem print_yields_the_text:
  assumes "clean i"
  shows "\<exists>r h'. print (Some i) fmt h = Ok (r, h') \<and>
    (case r of
       Some block \<Rightarrow> live h' = live h + 1 \<and>
         (\<exists>t. render fmt 0 i = Some t \<and> c_text block = Ok t \<and> length block = length t + 1)
     | None \<Rightarrow> live h' = live h \<and>
         ((\<exists>n. \<not> grants h n) \<or> (case render fmt 0 i of None \<Rightarrow> True | Some t \<Rightarrow> int_max < length t + 2)))"
  using print_result [OF assms, of fmt h] by blast

text \<open>
  C34. \<open>cJSON_PrintPreallocated\<close> succeeds exactly when the text of the item has at least two bytes
  less than the caller's buffer (one for the terminator, and one that is never used), and then the
  buffer holds the text; it never writes outside the buffer, and without room it returns false.
\<close>

theorem preallocated_exact:
  assumes "clean i" and "0 \<le> len" and "len \<le> 2147483647" and "length buf = nat len"
  shows "\<exists>ok buf'. cJSON_PrintPreallocated (Some i) (Some buf) len fmt h = Ok (ok, Some buf') \<and>
    (case render fmt 0 i of
       None \<Rightarrow> \<not> ok
     | Some t \<Rightarrow> (ok \<longleftrightarrow> length t + 2 \<le> nat len) \<and> (ok \<longrightarrow> c_text buf' = Ok t))"
proof -
  define p where "p = \<lparr>memory = Some buf, buf_length = nat len, buf_offset = 0, buf_depth = 0, noalloc = True,
                 format = fmt, buf_hooks = h\<rparr>"
  have pf: "format p = fmt" "buf_depth p = 0" "buf_offset p = 0" "noalloc p" "buf_length p = nat len"
    by (simp_all add: p_def)
  have "ready_buffer p" using assms by (auto simp: p_def ready_buffer_def int_max_def)
  from print_from_ready [OF assms(1) this] obtain ok p' where
    r: "print_item (Some i) p = Ok (ok, p')" "steady p p'"
      "ok \<Longrightarrow> \<exists>t. render fmt 0 i = Some t \<and> terminated p t p' \<and> no_nul t"
      "\<not> ok \<Longrightarrow> fails p (render fmt 0 i)"
    unfolding pf by metis
  obtain buf' where b: "memory p' = Some buf'" using r(2) pf by (auto simp: steady_def)
  have u: "cJSON_PrintPreallocated (Some i) (Some buf) len fmt h = Ok (ok, Some buf')"
    using assms(2) r(1) b by (simp add: cJSON_PrintPreallocated_def p_def [symmetric])
  have lim: "limit p = nat len" "\<not> refusing p" using pf by (simp_all add: limit_def refusing_def)
  show ?thesis
  proof (cases ok)
    case False
    then show ?thesis using u r(4) lim pf by (auto simp: fails_def split: option.splits)
  next
    case True
    then obtain t where t: "render fmt 0 i = Some t" "terminated p t p'" "no_nul t" using r(3) by auto
    have tx: "text_at buf' 0 (t @ [NUL])" using t(2) b pf by (simp add: terminated_def)
    then have "take (length (t @ [NUL])) buf' = map Some (t @ [NUL])" by (simp add: text_at_def)
    then have "buf' = map Some (t @ [NUL]) @ drop (length (t @ [NUL])) buf'" by (metis append_take_drop_id)
    then have "c_text buf' = Ok t" using c_text_map [OF t(3)] by metis
    moreover have "length t + 2 \<le> nat len" using t(2) pf lim by (simp add: terminated_def)
    ultimately show ?thesis
      by (intro exI [of _ True] exI [of _ buf']) (use u True t(1) in simp)
  qed
qed

text \<open>A small object for the witnesses.\<close>

definition demo_item :: cJSON where
  "demo_item = Item cJSON_Object None 0 (Fin False 0 (- 1074)) None
     [Item cJSON_True None 1 (Fin False 0 (- 1074)) (Some ''ok'') [],
      Item cJSON_String (Some ''a/b'') 0 (Fin False 0 (- 1074)) (Some ''s'') []]"

lemma demo_item_clean: "clean demo_item"
  by (simp add: demo_item_def)

lemma demo_item_text: "render False 0 demo_item =
    Some [CHR ''{'', CHR 0x22, CHR ''o'', CHR ''k'', CHR 0x22, CHR '':'', CHR ''t'', CHR ''r'', CHR ''u'', CHR ''e'', CHR '','',
      CHR 0x22, CHR ''s'', CHR 0x22, CHR '':'', CHR 0x22, CHR ''a'', CHR ''/'', CHR ''b'', CHR 0x22, CHR ''}'']"
  by (simp add: demo_item_def cJSON_types quote_def Let_def)

definition demo_hooks :: hooks where
  "demo_hooks = \<lparr>grants = (\<lambda>n. True), asked = 0, live = 0, can_realloc = True\<rparr>"

lemma print_yields_the_text_witness:
  "\<exists>block h'. print (Some demo_item) False demo_hooks = Ok (Some block, h') \<and> live h' = 1 \<and> length block = 22"
proof -
  obtain r h' where "print (Some demo_item) False demo_hooks = Ok (r, h')"
    "case r of
       Some block \<Rightarrow> live h' = live demo_hooks + 1 \<and>
         (\<exists>t. render False 0 demo_item = Some t \<and> c_text block = Ok t \<and> length block = length t + 1)
     | None \<Rightarrow> live h' = live demo_hooks \<and>
         ((\<exists>n. \<not> grants demo_hooks n) \<or> (case render False 0 demo_item of None \<Rightarrow> True | Some t \<Rightarrow> int_max < length t + 2))"
    using print_yields_the_text [OF demo_item_clean, of False demo_hooks] by blast
  then show ?thesis
    by (cases r) (simp_all add: demo_item_text demo_hooks_def int_max_def)
qed

lemma preallocated_exact_witness:
  "\<exists>buf1 buf2 t. cJSON_PrintPreallocated (Some demo_item) (Some (replicate 23 None)) 23 False demo_hooks = Ok (True, Some buf1) \<and>
     c_text buf1 = Ok t \<and> length t = 21 \<and>
     cJSON_PrintPreallocated (Some demo_item) (Some (replicate 22 None)) 22 False demo_hooks = Ok (False, Some buf2)"
proof -
  obtain ok1 buf1 where 1: "cJSON_PrintPreallocated (Some demo_item) (Some (replicate 23 None)) 23 False demo_hooks = Ok (ok1, Some buf1)"
    "ok1" "\<exists>t. c_text buf1 = Ok t \<and> length t = 21"
    using preallocated_exact [OF demo_item_clean, of 23 "replicate 23 None" False demo_hooks]
    by (auto simp: demo_item_text)
  obtain ok2 buf2 where 2: "cJSON_PrintPreallocated (Some demo_item) (Some (replicate 22 None)) 22 False demo_hooks = Ok (ok2, Some buf2)"
    "\<not> ok2"
    using preallocated_exact [OF demo_item_clean, of 22 "replicate 22 None" False demo_hooks]
    by (auto simp: demo_item_text)
  show ?thesis using 1 2 by auto
qed

text \<open>
  \<open>cJSON_PrintBuffered\<close> starts from a buffer of the size the caller guesses, which may be zero only with the
  \<open>realloc\<close> of the library: with the hooks of a client the copy reads a byte of the empty buffer.
\<close>

lemma empty_buffer_read:
  assumes "\<forall>n. grants h n" and "\<not> can_realloc h"
  shows "cJSON_PrintBuffered (Some (Item cJSON_NULL None 0 d None [])) 0 fmt h = UB Buffer_Overread"
  using assms by (simp add: cJSON_PrintBuffered_def allocate_def print_item_def ensure_emit_def ensure_def int_max_def cJSON_types Let_def)


lemma print_buffered_text:
  assumes "clean i" and "0 \<le> prebuffer" and "prebuffer \<le> 2147483647" and "prebuffer = 0 \<longrightarrow> can_realloc h"
  shows "\<exists>r h'. cJSON_PrintBuffered (Some i) prebuffer fmt h = Ok (r, h') \<and>
    (case r of
       Some block \<Rightarrow> live h' = live h + 1 \<and> (\<exists>t. render fmt 0 i = Some t \<and> c_text block = Ok t)
     | None \<Rightarrow> live h' = live h \<and>
         ((\<exists>n. \<not> grants h n) \<or> (case render fmt 0 i of None \<Rightarrow> True | Some t \<Rightarrow> int_max < length t + 2)))"
proof (cases "grants h (asked h)")
  case False
  then show ?thesis using assms by (auto simp: cJSON_PrintBuffered_def allocate_def)
next
  case True
  define h1 where "h1 = h\<lparr>asked := Suc (asked h), live := live h + 1\<rparr>"
  have al: "allocate h = (True, h1)" using True by (simp add: allocate_def h1_def)
  define p where "p = \<lparr>memory = Some (replicate (nat prebuffer) None), buf_length = nat prebuffer, buf_offset = 0,
      buf_depth = 0, noalloc = False, format = fmt, buf_hooks = h1\<rparr>"
  have pf: "format p = fmt" "buf_depth p = 0" "buf_offset p = 0" "noalloc p = False" "buf_hooks p = h1" "own p = 1"
    by (simp_all add: p_def own_def)
  have "ready_buffer p" using assms by (auto simp: p_def ready_buffer_def int_max_def h1_def)
  from print_from_ready [OF assms(1) this] obtain ok p' where
    r: "print_item (Some i) p = Ok (ok, p')" "steady p p'"
      "ok \<Longrightarrow> \<exists>t. render fmt 0 i = Some t \<and> terminated p t p' \<and> no_nul t"
      "\<not> ok \<Longrightarrow> fails p (render fmt 0 i)"
    unfolding pf by metis
  have bal: "live (buf_hooks p') = live h + own p'" "grants (buf_hooks p') = grants h"
    using r(2) pf by (simp_all add: steady_def h1_def)
  have u: "cJSON_PrintBuffered (Some i) prebuffer fmt h =
      (if ok then Ok (memory p', buf_hooks p') else Ok (None, free_buffer p'))"
    using assms(2) r(1) by (simp add: cJSON_PrintBuffered_def al p_def [symmetric])
  show ?thesis
  proof (cases ok)
    case False
    have "live (free_buffer p') = live h" using bal by (simp add: free_buffer_def own_def)
    moreover have "(\<exists>n. \<not> grants h n) \<or> (case render fmt 0 i of None \<Rightarrow> True | Some t \<Rightarrow> int_max < length t + 2)"
      using r(4) [OF False] pf by (auto simp: fails_def refusing_def limit_def h1_def split: option.splits)
    ultimately show ?thesis using False u by simp
  next
    case True
    then obtain t where t: "render fmt 0 i = Some t" "terminated p t p'" "no_nul t" using r(3) by auto
    obtain m where m: "memory p' = Some m" using t(2) by (auto simp: terminated_def ready_buffer_def)
    have tx: "text_at m 0 (t @ [NUL])" using t(2) m pf by (simp add: terminated_def)
    then have "take (length (t @ [NUL])) m = map Some (t @ [NUL])" by (simp add: text_at_def)
    then have "m = map Some (t @ [NUL]) @ drop (length (t @ [NUL])) m" by (metis append_take_drop_id)
    then have "c_text m = Ok t" using c_text_map [OF t(3)] by metis
    then show ?thesis using u True m t(1) bal by (simp add: own_def)
  qed
qed

end
