(* ===== verification/Json_Build.thy ===== *)
theory Json_Build
  imports Json_Parse Json_Print
begin

text \<open>
  Properties of the functions of src/libs/cJSON.c that build items: every creation and every
  \<open>cJSON_Add...ToObject\<close> under an allocator that may refuse at any point, and the lookup of what
  was added.
\<close>

text \<open>Evaluates the parser on a literal text.\<close>

lemmas parse_eval = cJSON_Parse_def cJSON_ParseWithOpts_def cJSON_New_Item_def allocate_def demo_hooks_def
  parse_fuel_def skip_utf8_bom_def set_pool_def buffer_skip_whitespace_def eval_nat_numeral at_word_def can_read_def
  can_access_at_index_def byte_at_def advance_def white_def nesting_limit_def at_char_def utf8_bom_def Let_def is_digit_def

section \<open>Creation\<close>

definition as_list :: "cJSON option \<Rightarrow> cJSON list" where
  "as_list item = (case item of None \<Rightarrow> [] | Some i \<Rightarrow> [i])"

lemma as_list_simps [simp]: "as_list None = []" "as_list (Some i) = [i]"
  by (simp_all add: as_list_def)

text \<open>What a creation owes: it fails only when an allocation is refused, and then holds nothing.\<close>

definition created :: "cJSON option \<Rightarrow> hooks \<Rightarrow> hooks \<Rightarrow> bool" where
  "created c h h1 \<longleftrightarrow> grants h1 = grants h \<and> live h1 = live h + all_blocks (as_list c) \<and>
     (c = None \<longrightarrow> (\<exists>k. \<not> grants h k))"

lemma blocks_Item:
  "blocks (Item t s i d k c) =
     1 + (if t AND cJSON_IsReference = 0 then (if s = None then 0 else 1) + all_blocks c else 0) +
     (if t AND cJSON_StringIsConst = 0 \<and> k \<noteq> None then 1 else 0)"
  by (simp add: all_blocks_def)

abbreviation zero :: double where "zero \<equiv> Fin False 0 (- 1074)"

lemma create_typed_cases:
  assumes "plain_type t"
  shows "\<exists>c h1. create_typed t h = (c, h1) \<and> created c h h1 \<and> (c = None \<or> c = Some (Item t None 0 zero None []))"
  using assms
  by (auto simp: create_typed_def cJSON_New_Item_def allocate_def created_def plain_type_def)

definition saturated :: "double \<Rightarrow> int" where
  "saturated d = (case saturated_int d of Ok i \<Rightarrow> i | UB e \<Rightarrow> 0)"

lemma create_number_cases:
  assumes "d \<noteq> NaN"
  shows "\<exists>c h1. cJSON_CreateNumber d h = Ok (c, h1) \<and> created c h h1 \<and>
    (c = None \<or> c = Some (Item cJSON_Number None (saturated d) d None []))"
proof -
  obtain i where "saturated_int d = Ok i" using saturated_int_Ok [OF assms] by blast
  then show ?thesis
    by (auto simp: cJSON_CreateNumber_def cJSON_New_Item_def allocate_def created_def saturated_def cJSON_types)
qed

lemma create_text_cases:
  assumes "plain_type t"
  shows "\<exists>c h1. create_text t (Some s) h = (c, h1) \<and> created c h h1 \<and>
    (c = None \<or> c = Some (Item t (Some s) 0 zero None []))"
  using assms
  by (auto simp: create_text_def cJSON_New_Item_def allocate_def created_def plain_type_def cJSON_strdup_def)

section \<open>Additions to an object\<close>

lemma and_not_disjoint: "t AND m = 0 \<Longrightarrow> t AND NOT m = t" for t m :: int
  by (metis (no_types, lifting) bit.disj_cancel_right bit.conj_disj_distrib and.right_neutral or.left_neutral)

lemma add_created_cases:
  assumes "create h = Ok (c, h1)" and "created c h h1"
    and "\<And>i. c = Some i \<Longrightarrow> plain_type (type i) \<and> item_name i = None"
  shows "\<exists>ok h2. add_created create (Some ob) (Some n) h =
      Ok (Some (if ok then set_child (child ob @ [set_name (Some n) (the c)]) ob else ob), ok, h2) \<and>
    grants h2 = grants h \<and> live h2 = live h + (if ok then blocks (set_name (Some n) (the c)) else 0) \<and>
    (if ok then c \<noteq> None else \<exists>k. \<not> grants h k)"
proof (cases c)
  case None
  then show ?thesis using assms(1,2)
    by (intro exI [of _ False] exI [of _ h1]) (simp add: add_created_def add_item_to_object_def created_def)
next
  case (Some i)
  obtain t s vi d k cs where i: "i = Item t s vi d k cs" by (cases i)
  have p: "t AND cJSON_IsReference = 0" "t AND cJSON_StringIsConst = 0" "k = None"
    using assms(3) [OF Some] i by (simp_all add: plain_type_def)
  have t: "t AND NOT cJSON_StringIsConst = t" using p(2) by (rule and_not_disjoint)
  have l: "grants h1 = grants h" "live h1 = live h + blocks i" using assms(2) Some by (simp_all add: created_def)
  obtain ok h2 where al: "allocate h1 = (ok, h2)" by force
  then have h2: "grants h2 = grants h" "live h2 = live h + blocks i + (if ok then 1 else 0)" "\<not> ok \<Longrightarrow> \<exists>k. \<not> grants h k"
    using l by (auto simp: allocate_def split: if_splits)
  have b: "blocks (set_name (Some n) i) = blocks i + 1" using p i by simp
  show ?thesis
  proof (cases ok)
    case True
    then show ?thesis using assms(1) Some al h2 b i p t
      by (intro exI [of _ True] exI [of _ h2])
        (simp add: add_created_def add_item_to_object_def cJSON_strdup_def add_item_to_array_def)
  next
    case False
    then show ?thesis using assms(1) Some al h2
      by (intro exI [of _ False] exI [of _ "refund (blocks i) h2"])
        (simp add: add_created_def add_item_to_object_def cJSON_strdup_def)
  qed
qed

datatype addition =
    Add_Null | Add_True | Add_False | Add_Bool bool | Add_Number double | Add_String string | Add_Raw string
  | Add_Object | Add_Array

fun add_to_object :: "addition \<Rightarrow> string \<Rightarrow> cJSON option \<Rightarrow> hooks \<Rightarrow> (cJSON option \<times> bool \<times> hooks) outcome" where
  "add_to_object Add_Null n ob h = cJSON_AddNullToObject ob (Some n) h"
| "add_to_object Add_True n ob h = cJSON_AddTrueToObject ob (Some n) h"
| "add_to_object Add_False n ob h = cJSON_AddFalseToObject ob (Some n) h"
| "add_to_object (Add_Bool b) n ob h = cJSON_AddBoolToObject ob (Some n) b h"
| "add_to_object (Add_Number d) n ob h = cJSON_AddNumberToObject ob (Some n) d h"
| "add_to_object (Add_String s) n ob h = cJSON_AddStringToObject ob (Some n) (Some s) h"
| "add_to_object (Add_Raw s) n ob h = cJSON_AddRawToObject ob (Some n) (Some s) h"
| "add_to_object Add_Object n ob h = cJSON_AddObjectToObject ob (Some n) h"
| "add_to_object Add_Array n ob h = cJSON_AddArrayToObject ob (Some n) h"

text \<open>The member an addition stands for.\<close>

fun member_of :: "addition \<Rightarrow> string \<Rightarrow> cJSON" where
  "member_of Add_Null n = Item cJSON_NULL None 0 zero (Some n) []"
| "member_of Add_True n = Item cJSON_True None 0 zero (Some n) []"
| "member_of Add_False n = Item cJSON_False None 0 zero (Some n) []"
| "member_of (Add_Bool b) n = Item (if b then cJSON_True else cJSON_False) None 0 zero (Some n) []"
| "member_of (Add_Number d) n = Item cJSON_Number None (saturated d) d (Some n) []"
| "member_of (Add_String s) n = Item cJSON_String (Some s) 0 zero (Some n) []"
| "member_of (Add_Raw s) n = Item cJSON_Raw (Some s) 0 zero (Some n) []"
| "member_of Add_Object n = Item cJSON_Object None 0 zero (Some n) []"
| "member_of Add_Array n = Item cJSON_Array None 0 zero (Some n) []"

lemma add_created_member:
  assumes "\<exists>c h1. create h = Ok (c, h1) \<and> created c h h1 \<and> (c = None \<or> c = Some (Item t s i d None []))"
    and "plain_type t"
  shows "\<exists>ok h2. add_created create (Some ob) (Some n) h =
      Ok (Some (if ok then set_child (child ob @ [Item t s i d (Some n) []]) ob else ob), ok, h2) \<and>
    grants h2 = grants h \<and> live h2 = live h + (if ok then blocks (Item t s i d (Some n) []) else 0) \<and>
    (\<not> ok \<longrightarrow> (\<exists>k. \<not> grants h k))"
proof -
  obtain c h1 where c: "create h = Ok (c, h1)" "created c h h1" "c = None \<or> c = Some (Item t s i d None [])"
    using assms(1) by blast
  obtain ok h2 where a: "add_created create (Some ob) (Some n) h =
      Ok (Some (if ok then set_child (child ob @ [set_name (Some n) (the c)]) ob else ob), ok, h2)"
    "grants h2 = grants h" "live h2 = live h + (if ok then blocks (set_name (Some n) (the c)) else 0)"
    "if ok then c \<noteq> None else \<exists>k. \<not> grants h k"
    using add_created_cases [of create h c h1 ob n] c assms(2) by auto
  show ?thesis using a c(3) by (intro exI [of _ ok] exI [of _ h2]) (cases ok; auto)
qed

lemmas add_defs = cJSON_AddNullToObject_def cJSON_AddTrueToObject_def cJSON_AddFalseToObject_def
  cJSON_AddBoolToObject_def cJSON_AddNumberToObject_def cJSON_AddStringToObject_def cJSON_AddRawToObject_def
  cJSON_AddObjectToObject_def cJSON_AddArrayToObject_def cJSON_CreateNull_def cJSON_CreateTrue_def
  cJSON_CreateFalse_def cJSON_CreateBool_def cJSON_CreateString_def cJSON_CreateRaw_def cJSON_CreateObject_def
  cJSON_CreateArray_def

lemma add_typed_member:
  "plain_type t \<Longrightarrow> \<exists>ok h2. add_created (\<lambda>h. Ok (create_typed t h)) (Some ob) (Some n) h =
      Ok (Some (if ok then set_child (child ob @ [Item t None 0 zero (Some n) []]) ob else ob), ok, h2) \<and>
    grants h2 = grants h \<and> live h2 = live h + (if ok then blocks (Item t None 0 zero (Some n) []) else 0) \<and>
    (\<not> ok \<longrightarrow> (\<exists>k. \<not> grants h k))"
  using create_typed_cases [of t h] by (intro add_created_member) auto

lemma add_text_member:
  "plain_type t \<Longrightarrow> \<exists>ok h2. add_created (\<lambda>h. Ok (create_text t (Some s) h)) (Some ob) (Some n) h =
      Ok (Some (if ok then set_child (child ob @ [Item t (Some s) 0 zero (Some n) []]) ob else ob), ok, h2) \<and>
    grants h2 = grants h \<and> live h2 = live h + (if ok then blocks (Item t (Some s) 0 zero (Some n) []) else 0) \<and>
    (\<not> ok \<longrightarrow> (\<exists>k. \<not> grants h k))"
  using create_text_cases [of t s h] by (intro add_created_member) auto

lemma add_to_object_cases:
  assumes "a \<noteq> Add_Number NaN"
  shows "\<exists>ok h2. add_to_object a n (Some ob) h =
      Ok (Some (if ok then set_child (child ob @ [member_of a n]) ob else ob), ok, h2) \<and>
    grants h2 = grants h \<and> live h2 = live h + (if ok then blocks (member_of a n) else 0) \<and>
    (\<not> ok \<longrightarrow> (\<exists>k. \<not> grants h k))"
proof (cases a)
  case (Add_Number d)
  then have d: "d \<noteq> NaN" using assms by simp
  from add_created_member [of "cJSON_CreateNumber d", OF create_number_cases [OF d] plain_types(5), of ob n]
  show ?thesis unfolding Add_Number add_to_object.simps member_of.simps add_defs .
next
  case (Add_Bool b)
  show ?thesis unfolding Add_Bool add_to_object.simps member_of.simps add_defs
    by (rule add_typed_member) simp
next
  case Add_Null
  show ?thesis unfolding Add_Null add_to_object.simps member_of.simps add_defs
    by (rule add_typed_member) simp
next
  case Add_True
  show ?thesis unfolding Add_True add_to_object.simps member_of.simps add_defs
    by (rule add_typed_member) simp
next
  case Add_False
  show ?thesis unfolding Add_False add_to_object.simps member_of.simps add_defs
    by (rule add_typed_member) simp
next
  case Add_Object
  show ?thesis unfolding Add_Object add_to_object.simps member_of.simps add_defs
    by (rule add_typed_member) simp
next
  case Add_Array
  show ?thesis unfolding Add_Array add_to_object.simps member_of.simps add_defs
    by (rule add_typed_member) simp
next
  case (Add_String s)
  show ?thesis unfolding Add_String add_to_object.simps member_of.simps add_defs
    by (rule add_text_member) simp
next
  case (Add_Raw s)
  show ?thesis unfolding Add_Raw add_to_object.simps member_of.simps add_defs
    by (rule add_text_member) simp
qed

section \<open>Sequences of additions\<close>

text \<open>
  The additions run one after the other, each on the object the last one left; the list says which of them returned
  an item and which returned NULL.
\<close>

fun add_all :: "(addition \<times> string) list \<Rightarrow> cJSON option \<Rightarrow> hooks \<Rightarrow> (cJSON option \<times> bool list \<times> hooks) outcome" where
  "add_all [] ob h = Ok (ob, [], h)"
| "add_all ((a, n) # as) ob h =
     obind (add_to_object a n ob h)
       (\<lambda>(ob1, ok, h1). obind (add_all as ob1 h1) (\<lambda>(ob2, oks, h2). Ok (ob2, ok # oks, h2)))"

text \<open>The additions that returned an item.\<close>

definition succeeded :: "bool list \<Rightarrow> (addition \<times> string) list \<Rightarrow> (addition \<times> string) list" where
  "succeeded oks as = map snd (filter fst (zip oks as))"

lemma succeeded_simps [simp]: "succeeded [] as = []" "succeeded (ok # oks) (x # as) = (if ok then x # succeeded oks as else succeeded oks as)"
  by (simp_all add: succeeded_def)

definition members :: "(addition \<times> string) list \<Rightarrow> cJSON list" where
  "members as = map (\<lambda>(a, n). member_of a n) as"

lemma members_simps [simp]: "members [] = []" "members ((a, n) # as) = member_of a n # members as"
  by (simp_all add: members_def)

lemma set_child_twice [simp]: "set_child c (set_child d i) = set_child c i" "set_child (child i) i = i"
  by (cases i; simp)+

text \<open>
  C35. Any sequence of the nine \<open>cJSON_Add...ToObject\<close> functions on an object (with numbers that are not NaN), under an
  allocator that may refuse any request, commits no error, and the members that are appended to the object are exactly
  those of the additions that returned an item, in order, with their names and values: an addition that
  returned NULL appended nothing. The blocks that are live afterwards are those from before and the blocks of the new members,
  and without a refusal every addition returns an item.
\<close>

theorem additions_exact:
  assumes "\<forall>(a, n) \<in> set as. a \<noteq> Add_Number NaN"
  shows "\<exists>oks h'. add_all as (Some ob) h = Ok (Some (set_child (child ob @ members (succeeded oks as)) ob), oks, h') \<and>
    length oks = length as \<and> live h' = live h + all_blocks (members (succeeded oks as)) \<and>
    ((\<forall>k. grants h k) \<longrightarrow> (\<forall>ok \<in> set oks. ok))"
  using assms
proof (induction as arbitrary: ob h)
  case Nil
  show ?case by (intro exI [of _ "[]"] exI [of _ h]) simp
next
  case (Cons x as)
  obtain a n where x: "x = (a, n)" by force
  obtain ok h1 where a: "add_to_object a n (Some ob) h =
      Ok (Some (if ok then set_child (child ob @ [member_of a n]) ob else ob), ok, h1)"
    "grants h1 = grants h" "live h1 = live h + (if ok then blocks (member_of a n) else 0)"
    "\<not> ok \<longrightarrow> (\<exists>k. \<not> grants h k)"
    using add_to_object_cases [of a n ob h] Cons.prems x by auto
  define ob1 where "ob1 = (if ok then set_child (child ob @ [member_of a n]) ob else ob)"
  obtain oks h' where k: "add_all as (Some ob1) h1 = Ok (Some (set_child (child ob1 @ members (succeeded oks as)) ob1), oks, h')"
    "length oks = length as" "live h' = live h1 + all_blocks (members (succeeded oks as))"
    "(\<forall>k. grants h1 k) \<longrightarrow> (\<forall>ok \<in> set oks. ok)"
    using Cons.IH [of ob1 h1] Cons.prems by auto
  have c: "child (set_child c i) = c" for c i by (cases i) simp
  have "add_all (x # as) (Some ob) h = Ok (Some (set_child (child ob @ members (succeeded (ok # oks) (x # as))) ob), ok # oks, h')"
    using x a(1) k(1) by (cases ok) (simp_all add: ob1_def c)
  moreover have "live h' = live h + all_blocks (members (succeeded (ok # oks) (x # as)))"
    using x a(3) k(3) by (cases ok) simp_all
  moreover have "(\<forall>k. grants h k) \<longrightarrow> (\<forall>ok \<in> set (ok # oks). ok)" using a(2,4) k(4) by auto
  ultimately show ?case using k(2) by (intro exI [of _ "ok # oks"] exI [of _ h']) auto
qed

lemma additions_exact_witness:
  "\<exists>ob h'. add_all [(Add_Number (Fin False 0 (- 1074)), ''chat_id''), (Add_String ''hi'', ''text'')]
     (Some (Item cJSON_Object None 0 zero None [])) demo_hooks = Ok (Some ob, [True, True], h') \<and>
     length (child ob) = 2 \<and> live h' = 5"
proof -
  let ?as = "[(Add_Number (Fin False 0 (- 1074)), ''chat_id''), (Add_String ''hi'', ''text'')]"
  obtain oks h' where r: "add_all ?as (Some (Item cJSON_Object None 0 zero None [])) demo_hooks =
      Ok (Some (set_child (child (Item cJSON_Object None 0 zero None []) @ members (succeeded oks ?as)) (Item cJSON_Object None 0 zero None [])), oks, h')"
    "length oks = length ?as" "live h' = live demo_hooks + all_blocks (members (succeeded oks ?as))"
    "(\<forall>k. grants demo_hooks k) \<longrightarrow> (\<forall>ok \<in> set oks. ok)"
    using additions_exact [of ?as "Item cJSON_Object None 0 zero None []" demo_hooks] by auto
  then have "oks = [True, True]"
    by (auto simp: demo_hooks_def length_Suc_conv)
  then show ?thesis using r(1,3)
    by (simp add: demo_hooks_def cJSON_types)
qed

end
