(* ===== verification/Telegram.thy ===== *)
theory Telegram
  imports Argparse Json_Build
begin

text \<open>
  src/src/telegram.c: the client of the Telegram bot API. libcurl is a parameter: a record of
  what its functions return during one call of the API, \<open>perform\<close> being what a transfer of a
  request yields: the result code and the blocks it hands to the write callback.
  \<open>curl_easy_perform\<close> is documented to stop, with \<open>CURLE_WRITE_ERROR\<close>, as soon as the callback
  returns another number than the size of its block.
\<close>

section \<open>State and environment\<close>

record request =
  req_url :: string
  req_post :: bool
  req_body :: "string option"
  req_headers :: "string list"

record curl =
  global_init :: int
  easy_init :: bool
  slist_append :: bool
  perform :: "request \<Rightarrow> int \<times> string list"

text \<open>
  The allocator, the requests that were sent, and what was written to \<open>stderr\<close>. The two globals
  \<open>telegram_token\<close> and \<open>telegram_userid\<close> are variables of the configuration reader's store,
  because \<open>telegram_init\<close> registers their addresses there.
\<close>

record telegram =
  heap :: hooks
  sent :: "request list"
  complaints :: "string list"

definition telegram_token :: nat where "telegram_token = 0"
definition telegram_userid :: nat where "telegram_userid = 0"

definition complain :: "string \<Rightarrow> telegram \<Rightarrow> telegram" where
  "complain s t = t\<lparr>complaints := complaints t @ [s]\<rparr>"

text \<open>A call either returns or ends the process with a code.\<close>

datatype 'a ended = Returned 'a | Exited int

definition telegram_url :: "string \<Rightarrow> string \<Rightarrow> string" where
  "telegram_url token method = ''https://api.telegram.org/bot'' @ token @ ''/'' @ method"

definition telegram_conf :: string where
  "telegram_conf = ''/etc/hearthbeat/telegram''"

text \<open>\<open>fill_url\<close> prints the global token (a NULL one is undefined) into a buffer of 1024 bytes.\<close>

definition fill_url :: "argparse \<Rightarrow> string \<Rightarrow> string outcome" where
  "fill_url a method =
     (case strs a telegram_token of
        None \<Rightarrow> UB Null_Deref
      | Some token \<Rightarrow> strcpy_into 1024 (telegram_url token method))"

section \<open>The response\<close>

text \<open>\<open>struct string\<close>: the memory of \<open>ptr\<close> (None for NULL) and \<open>len\<close>.\<close>

record response =
  ptr :: "char option list option"
  len :: nat

definition init_string :: "telegram \<Rightarrow> response \<times> telegram" where
  "init_string t =
     (case allocate (heap t) of
        (False, h) \<Rightarrow> (\<lparr>ptr = None, len = 0\<rparr>, complain ''Error allocating space for string'' (t\<lparr>heap := h\<rparr>))
      | (True, h) \<Rightarrow> (\<lparr>ptr = Some [Some NUL], len = 0\<rparr>, t\<lparr>heap := h\<rparr>))"

definition cleanup_string :: "response \<Rightarrow> telegram \<Rightarrow> response \<times> telegram" where
  "cleanup_string s t =
     (s\<lparr>len := 0\<rparr>, if ptr s = None then t else t\<lparr>heap := deallocate (heap t)\<rparr>)"

text \<open>The callback: its count is a \<open>size_t\<close>, so \<open>- 1\<close> is the largest one.\<close>

definition write_to_string :: "char list \<Rightarrow> response \<Rightarrow> telegram \<Rightarrow> (nat \<times> response \<times> telegram) outcome" where
  "write_to_string bytes s t =
     (let new_length = len s + length bytes in
      case (case ptr s of None \<Rightarrow> allocate (heap t) | Some _ \<Rightarrow> reallocate (heap t)) of
        (False, h) \<Rightarrow>
          Ok (size_t (- 1), s\<lparr>ptr := None\<rparr>, complain ''Error reallocating for string.'' (t\<lparr>heap := h\<rparr>))
      | (True, h) \<Rightarrow>
          obind (store (len s) bytes (grown (new_length + 1) (case ptr s of None \<Rightarrow> [] | Some m \<Rightarrow> m)))
            (\<lambda>m1. obind (store new_length [NUL] m1)
               (\<lambda>m2. Ok (length bytes, s\<lparr>ptr := Some m2, len := new_length\<rparr>, t\<lparr>heap := h\<rparr>))))"

text \<open>The blocks of a transfer; the result is whether every block was accepted.\<close>

fun receive :: "char list list \<Rightarrow> response \<Rightarrow> telegram \<Rightarrow> (bool \<times> response \<times> telegram) outcome" where
  "receive [] s t = Ok (True, s, t)"
| "receive (b # bs) s t =
     obind (write_to_string b s t)
       (\<lambda>(n, s1, t1). if n = length b then receive bs s1 t1 else Ok (False, s1, t1))"

section \<open>Calls of the API\<close>

definition pointed_text :: "char option list option \<Rightarrow> string option outcome" where
  "pointed_text p = (case p of None \<Rightarrow> Ok None | Some m \<Rightarrow> obind (c_text m) (\<lambda>s. Ok (Some s)))"

definition the_request :: "string \<Rightarrow> cJSON option \<Rightarrow> string option \<Rightarrow> curl \<Rightarrow> request" where
  "the_request url data body c =
     \<lparr>req_url = url, req_post = (data \<noteq> None), req_body = body,
      req_headers = (if data \<noteq> None \<and> slist_append c then [''Content-Type: application/json''] else [])\<rparr>"

text \<open>After the transfer: a failure is reported, and the printed body freed.\<close>

definition settle :: "bool \<Rightarrow> int \<Rightarrow> bool \<Rightarrow> telegram \<Rightarrow> telegram" where
  "settle accepted ret with_body t =
     (let ret1 = (if accepted then ret else 23);
          t1 = (if ret1 \<noteq> 0 then complain (''Error curling: '' @ show_int ret1) t else t)
      in if with_body then t1\<lparr>heap := deallocate (heap t1)\<rparr> else t1)"

text \<open>
  The parameter \<open>telegram_token\<close> of the function shadows the global, and nothing reads it:
  \<open>fill_url\<close> takes the global. The buffer of the response is not freed.
\<close>

definition call_telegram_api ::
    "string option \<Rightarrow> string \<Rightarrow> cJSON option \<Rightarrow> argparse \<Rightarrow> curl \<Rightarrow> telegram \<Rightarrow>
     (cJSON option ended \<times> telegram) outcome" where
  "call_telegram_api token method data a c t =
     obind (fill_url a method)
       (\<lambda>buffer.
          if global_init c \<noteq> 0 then Ok (Exited (- 1), complain ''Error initialising libcurl'' t)
          else if \<not> easy_init c then Ok (Returned None, complain ''Error initialising curl easy handle'' t)
          else
            obind (if data = None then Ok (None, heap t) else cJSON_Print data (heap t))
              (\<lambda>(jsondata, h1).
                 obind (pointed_text jsondata)
                   (\<lambda>body.
                      (let req = the_request buffer data body c;
                           (out, t1) = init_string (t\<lparr>heap := h1\<rparr>);
                           (ret, bs) = perform c req
                       in obind (receive bs out (t1\<lparr>sent := sent t1 @ [req]\<rparr>))
                            (\<lambda>(accepted, out1, t2).
                               (let t3 = settle accepted ret (jsondata \<noteq> None) t2
                                in obind (pointed_text (ptr out1))
                                     (\<lambda>text. obind (cJSON_Parse text (heap t3))
                                        (\<lambda>(item, h). Ok (Returned item, t3\<lparr>heap := h\<rparr>)))))))))"

text \<open>What both clients of the API do with a response: the member \<open>ok\<close>, and the item deleted.\<close>

definition delete_item :: "cJSON option \<Rightarrow> telegram \<Rightarrow> telegram" where
  "delete_item item t = t\<lparr>heap := cJSON_Delete (as_list item) (heap t)\<rparr>"

definition validate_token :: "string option \<Rightarrow> argparse \<Rightarrow> curl \<Rightarrow> telegram \<Rightarrow> (bool ended \<times> telegram) outcome" where
  "validate_token token a c t =
     obind (call_telegram_api token ''getMe'' None a c t)
       (\<lambda>(r, t1). case r of
           Exited n \<Rightarrow> Ok (Exited n, t1)
         | Returned response \<Rightarrow>
             obind (cJSON_GetObjectItemCaseSensitive response (Some ''ok''))
               (\<lambda>ok. Ok (Returned (cJSON_IsBool ok \<and> cJSON_IsTrue ok), delete_item response t1)))"

definition send_message ::
    "string option \<Rightarrow> int \<Rightarrow> string \<Rightarrow> argparse \<Rightarrow> curl \<Rightarrow> telegram \<Rightarrow> (bool ended \<times> telegram) outcome" where
  "send_message token userid msg a c t =
     (case cJSON_CreateObject (heap t) of
        (data, h1) \<Rightarrow>
          obind (cJSON_AddNumberToObject data (Some ''chat_id'') (double_of_int userid) h1)
            (\<lambda>(data1, _, h2).
               obind (cJSON_AddStringToObject data1 (Some ''text'') (Some msg) h2)
                 (\<lambda>(data2, _, h3).
                    obind (call_telegram_api token ''sendMessage'' data2 a c (t\<lparr>heap := h3\<rparr>))
                      (\<lambda>(r, t1). case r of
                          Exited n \<Rightarrow> Ok (Exited n, t1)
                        | Returned response \<Rightarrow>
                            obind (cJSON_GetObjectItemCaseSensitive response (Some ''ok''))
                              (\<lambda>ok. Ok (Returned (cJSON_IsTrue ok), delete_item response (delete_item data2 t1)))))))"

definition telegram_send_message :: "string \<Rightarrow> argparse \<Rightarrow> curl \<Rightarrow> telegram \<Rightarrow> (unit ended \<times> telegram) outcome" where
  "telegram_send_message msg a c t =
     obind (send_message (strs a telegram_token) (ints a telegram_userid) msg a c t)
       (\<lambda>(r, t1). Ok (case r of Exited n \<Rightarrow> Exited n | Returned _ \<Rightarrow> Returned (), t1))"

text \<open>\<open>file\<close> is what opening \<open>telegram_conf\<close> gives; the result is 0 or -1.\<close>

definition telegram_init ::
    "client \<Rightarrow> int + char list \<Rightarrow> curl \<Rightarrow> argparse \<Rightarrow> telegram \<Rightarrow> (int ended \<times> argparse \<times> telegram) outcome" where
  "telegram_init client file c a t =
     obind (argparse_register_argument_int ''user_id'' telegram_userid a)
       (\<lambda>a1. obind (argparse_register_argument_str ''token'' telegram_token a1)
          (\<lambda>a2. obind (argparse_read_properties client file a2)
             (\<lambda>a3. if ints a3 telegram_userid \<noteq> 0 \<and> strs a3 telegram_token \<noteq> None then
                 obind (validate_token (strs a3 telegram_token) a3 c t)
                   (\<lambda>(r, t1). case r of
                       Exited n \<Rightarrow> Ok (Exited n, a3, t1)
                     | Returned valid \<Rightarrow> Ok (Returned (if valid then 0 else - 1), a3, t1))
               else Ok (Returned (- 1), a3, t))))"

section \<open>The response buffer\<close>

text \<open>What \<open>struct string\<close> promises: the bytes so far with a terminator behind them.\<close>

definition holds :: "response \<Rightarrow> char list \<Rightarrow> bool" where
  "holds s bs \<longleftrightarrow> ptr s = Some (map Some (bs @ [NUL])) \<and> len s = length bs"

definition unharmed :: "telegram \<Rightarrow> telegram \<Rightarrow> bool" where
  "unharmed t t' \<longleftrightarrow> sent t' = sent t \<and> grants (heap t') = grants (heap t) \<and> (\<exists>c. complaints t' = complaints t @ c)"

lemma unharmed_refl [simp]: "unharmed t t"
  by (simp add: unharmed_def)

lemma unharmed_trans: "unharmed t t1 \<Longrightarrow> unharmed t1 t2 \<Longrightarrow> unharmed t t2"
  by (auto simp: unharmed_def)

lemma store_at_end: "length (bs @ cs) \<le> length m \<Longrightarrow> take (length bs) m = map Some bs \<Longrightarrow>
    store (length bs) cs m = Ok (map Some (bs @ cs) @ drop (length (bs @ cs)) m)"
  by (simp add: store_def overwrite_def)

text \<open>
  A write to a buffer that holds some bytes, or to one that was never allocated, either extends
  it or fails and leaves it NULL; \<open>k\<close> is the count of blocks the buffer has ever taken.
\<close>

lemma write_cases:
  assumes "holds s bs \<or> (ptr s = None \<and> len s = 0 \<and> bs = [])"
  shows "\<exists>n s' t'. write_to_string b s t = Ok (n, s', t') \<and> unharmed t t' \<and>
    live (heap t') = live (heap t) + (if ptr s = None \<and> ptr s' \<noteq> None then 1 else 0) \<and>
    (if grants (heap t) (asked (heap t)) then n = length b \<and> holds s' (bs @ b)
     else n = size_t (- 1) \<and> ptr s' = None)"
proof -
  let ?m = "case ptr s of None \<Rightarrow> [] | Some m \<Rightarrow> m"
  define g where "g = grown (len s + length b + 1) ?m"
  have l: "len s = length bs" and tk: "take (length bs) g = map Some bs"
    using assms by (auto simp: holds_def g_def grown_def)
  have lg: "length g = length (bs @ b) + 1" using l by (simp add: g_def grown_def)
  define g1 where "g1 = map Some (bs @ b) @ drop (length (bs @ b)) g"
  have s1: "store (len s) b g = Ok g1" unfolding l g1_def using tk lg by (intro store_at_end) simp_all
  have t1: "take (length (bs @ b)) g1 = map Some (bs @ b)" and l1: "length g1 = length (bs @ b) + 1"
    using lg by (simp_all add: g1_def)
  have s2: "store (len s + length b) [NUL] g1 = Ok (map Some ((bs @ b) @ [NUL]))"
    using store_at_end [of "bs @ b" "[NUL]" g1, OF _ t1] l1 l by simp
  show ?thesis
  proof (cases "grants (heap t) (asked (heap t))")
    case True
    then show ?thesis using s1 s2 l
      by (auto simp: write_to_string_def g_def allocate_def reallocate_def holds_def unharmed_def split: option.splits)
  next
    case False
    then show ?thesis
      by (auto simp: write_to_string_def allocate_def reallocate_def complain_def unharmed_def split: option.splits)
  qed
qed

text \<open>A whole transfer: the buffer ends up with the bytes of all blocks, however they are cut.\<close>

lemma receive_cases:
  assumes "holds s cs \<or> (ptr s = None \<and> len s = 0 \<and> cs = [])" and "list_all (\<lambda>b. length b \<le> 16384) bs"
  shows "\<exists>ok s' t'. receive bs s t = Ok (ok, s', t') \<and> unharmed t t' \<and>
    (\<exists>k. live (heap t') = live (heap t) + k \<and> 0 \<le> k \<and> k \<le> (if ptr s = None then 1 else 0)) \<and>
    (ptr s' = None \<or> (ok \<and> holds s' (cs @ concat bs))) \<and>
    ((\<forall>k. grants (heap t) k) \<longrightarrow> ok \<and> (ptr s = None \<and> bs = [] \<or> holds s' (cs @ concat bs)))"
  using assms
proof (induction bs arbitrary: s cs t)
  case Nil
  then show ?case
    by (intro exI [of _ True] exI [of _ s] exI [of _ t]) auto
next
  case (Cons b bs)
  obtain n s1 t1 where w: "write_to_string b s t = Ok (n, s1, t1)" "unharmed t t1"
    "live (heap t1) = live (heap t) + (if ptr s = None \<and> ptr s1 \<noteq> None then 1 else 0)"
    "if grants (heap t) (asked (heap t)) then n = length b \<and> holds s1 (cs @ b) else n = size_t (- 1) \<and> ptr s1 = None"
    using write_cases [OF Cons.prems(1), of b t] by blast
  show ?case
  proof (cases "grants (heap t) (asked (heap t))")
    case True
    then have h: "n = length b" "holds s1 (cs @ b)" "ptr s1 \<noteq> None" using w(4) by (auto simp: holds_def)
    have "list_all (\<lambda>b. length b \<le> 16384) bs" using Cons.prems(2) by simp
    from Cons.IH [of s1 "cs @ b" t1, OF disjI1 [OF h(2)] this]
    obtain ok s' t' k where r: "receive bs s1 t1 = Ok (ok, s', t')" "unharmed t1 t'"
      "live (heap t') = live (heap t1) + k" "0 \<le> k" "k \<le> (if ptr s1 = None then 1 else 0)"
      "ptr s' = None \<or> (ok \<and> holds s' ((cs @ b) @ concat bs))"
      "(\<forall>k. grants (heap t1) k) \<longrightarrow> ok \<and> (ptr s1 = None \<and> bs = [] \<or> holds s' ((cs @ b) @ concat bs))"
      by blast
    have g: "grants (heap t1) = grants (heap t)" using w(2) by (simp add: unharmed_def)
    have "receive (b # bs) s t = Ok (ok, s', t')" using w(1) h(1) r(1) by simp
    moreover have "unharmed t t'" using unharmed_trans w(2) r(2) by blast
    ultimately show ?thesis using w(3) r h(3) g by (auto simp: append_assoc)
  next
    case False
    then have f: "n = size_t (- 1)" "ptr s1 = None" using w(4) by auto
    have "n \<noteq> length b" using f(1) Cons.prems(2) by (simp add: size_t_def)
    then have "receive (b # bs) s t = Ok (False, s1, t1)" using w(1) by simp
    then show ?thesis using w(2,3) f(2) False by (auto intro!: exI [of _ False])
  qed
qed

lemma pointed_text_cases: "ptr s = None \<or> holds s bs \<Longrightarrow>
    pointed_text (ptr s) = Ok (if ptr s = None then None else Some (cstr bs))"
proof -
  assume a: "ptr s = None \<or> holds s bs"
  have "strlen (map Some (bs @ [NUL])) = Ok (length (cstr bs))"
    by (induction bs) (simp_all add: cstr_def)
  moreover have "take (length (cstr bs)) bs = cstr bs"
    by (simp add: cstr_def takeWhile_eq_take [symmetric])
  moreover have "length (cstr bs) \<le> length bs" by (rule length_cstr)
  ultimately have "c_text (map Some (bs @ [NUL])) = Ok (cstr bs)"
    by (simp add: c_text_def take_map comp_def)
  then show ?thesis using a by (auto simp: pointed_text_def holds_def)
qed

section \<open>A call of the API\<close>

lemma Parse_result:
  "\<exists>i h'. cJSON_Parse s h = Ok (i, h') \<and> grants h' = grants h \<and> live h' = live h + all_blocks (as_list i)"
proof -
  obtain r where r: "cJSON_ParseWithOpts s False h = Ok r" "grants (parsed_pool r) = grants h"
    "live (parsed_pool r) = live h + (case parsed_item r of None \<Rightarrow> 0 | Some i \<Rightarrow> blocks i)"
    using parse_result [of s False h] by blast
  then show ?thesis
    by (intro exI [of _ "parsed_item r"] exI [of _ "parsed_pool r"]) (simp add: cJSON_Parse_def split: option.splits)
qed

text \<open>The write callback gets blocks of at most \<open>CURL_MAX_WRITE_SIZE\<close> bytes.\<close>

definition curl_works :: "curl \<Rightarrow> bool" where
  "curl_works c \<longleftrightarrow> global_init c = 0 \<and> easy_init c \<and>
     (\<forall>req. list_all (\<lambda>b. length b \<le> 16384) (snd (perform c req)))"

text \<open>The text of the response, and what it parses to where the allocator grants \<open>g\<close>.\<close>

definition response_text :: "curl \<Rightarrow> request \<Rightarrow> string" where
  "response_text c req = cstr (concat (snd (perform c req)))"

definition response_item :: "(nat \<Rightarrow> bool) \<Rightarrow> curl \<Rightarrow> request \<Rightarrow> cJSON option \<Rightarrow> bool" where
  "response_item g c req item \<longleftrightarrow> (\<exists>h h'. grants h = g \<and> cJSON_Parse (Some (response_text c req)) h = Ok (item, h'))"

lemma init_string_cases:
  "\<exists>s t1. init_string t = (s, t1) \<and> unharmed t t1 \<and> (holds s [] \<or> (ptr s = None \<and> len s = 0)) \<and>
     live (heap t1) = live (heap t) + (if ptr s = None then 0 else 1) \<and>
     (grants (heap t) (asked (heap t)) \<longrightarrow> ptr s \<noteq> None)"
  by (auto simp: init_string_def allocate_def holds_def unharmed_def complain_def)

text \<open>The buffer of the response: created, filled by the transfer and left to the parser.\<close>

lemma transfer_cases:
  assumes "list_all (\<lambda>b. length b \<le> 16384) bs"
  shows "\<exists>out t1 ok s' t2. init_string t = (out, t1) \<and> receive bs out (t1\<lparr>sent := sent t1 @ [req]\<rparr>) = Ok (ok, s', t2) \<and>
    sent t2 = sent t @ [req] \<and> grants (heap t2) = grants (heap t) \<and>
    (\<exists>k. live (heap t2) = live (heap t) + k \<and> 0 \<le> k \<and> k \<le> 1 \<and> ((\<forall>n. grants (heap t) n) \<longrightarrow> k = 1)) \<and>
    pointed_text (ptr s') = Ok (if ptr s' = None then None else Some (cstr (concat bs))) \<and>
    ((\<forall>n. grants (heap t) n) \<longrightarrow> ptr s' \<noteq> None)"
proof -
  obtain out t1 where i: "init_string t = (out, t1)" "unharmed t t1"
    "holds out [] \<or> (ptr out = None \<and> len out = 0)"
    "live (heap t1) = live (heap t) + (if ptr out = None then 0 else 1)"
    "grants (heap t) (asked (heap t)) \<longrightarrow> ptr out \<noteq> None"
    using init_string_cases [of t] by blast
  let ?t = "t1\<lparr>sent := sent t1 @ [req]\<rparr>"
  have "holds out [] \<or> (ptr out = None \<and> len out = 0 \<and> [] = [])" using i(3) by auto
  from receive_cases [OF this assms, of ?t] obtain ok s' t2 k where
    r: "receive bs out ?t = Ok (ok, s', t2)" "unharmed ?t t2" "live (heap t2) = live (heap ?t) + k" "0 \<le> k"
      "k \<le> (if ptr out = None then 1 else 0)" "ptr s' = None \<or> (ok \<and> holds s' ([] @ concat bs))"
      "(\<forall>k. grants (heap ?t) k) \<longrightarrow> ok \<and> (ptr out = None \<and> bs = [] \<or> holds s' ([] @ concat bs))"
    by blast
  have g: "grants (heap t1) = grants (heap t)" "sent t1 = sent t" using i(2) by (simp_all add: unharmed_def)
  have "pointed_text (ptr s') = Ok (if ptr s' = None then None else Some (cstr (concat bs)))"
    using pointed_text_cases [of s' "concat bs"] r(6) by auto
  moreover have "(\<forall>n. grants (heap t) n) \<longrightarrow> ptr s' \<noteq> None" using i(5) r(7) g by (auto simp: holds_def)
  moreover have "\<exists>k'. live (heap t2) = live (heap t) + k' \<and> 0 \<le> k' \<and> k' \<le> 1 \<and> ((\<forall>n. grants (heap t) n) \<longrightarrow> k' = 1)"
    using i(4,5) r(3-5) by (intro exI [of _ "(if ptr out = None then 0 else 1) + k"]) (auto split: if_splits)
  moreover have "sent t2 = sent t @ [req]" "grants (heap t2) = grants (heap t)" using r(2) g by (simp_all add: unharmed_def)
  ultimately show ?thesis using i(1) r(1) by blast
qed

text \<open>The body of a request: the printed item, or nothing where the printer fails.\<close>

definition printable :: "cJSON \<Rightarrow> bool" where
  "printable d \<longleftrightarrow> clean d \<and> (case render True 0 d of None \<Rightarrow> False | Some u \<Rightarrow> length u + 2 \<le> int_max)"

lemma body_cases:
  assumes "\<And>d. data = Some d \<Longrightarrow> clean d"
  shows "\<exists>j h1 body. (if data = None then Ok (None, h) else cJSON_Print data h) = Ok (j, h1) \<and>
    grants h1 = grants h \<and> pointed_text j = Ok body \<and> live h1 = live h + (if j = None then 0 else 1) \<and>
    (body = None \<or> (\<exists>d. data = Some d \<and> body = render True 0 d)) \<and>
    (\<forall>d. data = Some d \<and> printable d \<and> (\<forall>n. grants h n) \<longrightarrow> body = render True 0 d)"
proof (cases data)
  case None
  then show ?thesis by (simp add: pointed_text_def)
next
  case (Some d)
  obtain r h' where p: "print (Some d) True h = Ok (r, h')" "grants h' = grants h"
    "case r of Some block \<Rightarrow> live h' = live h + 1 \<and>
         (\<exists>t. render True 0 d = Some t \<and> c_text block = Ok t \<and> length block = length t + 1)
     | None \<Rightarrow> live h' = live h \<and>
         ((\<exists>n. \<not> grants h n) \<or> (case render True 0 d of None \<Rightarrow> True | Some t \<Rightarrow> int_max < length t + 2))"
    using print_result [OF assms [OF Some], of True h] by blast
  show ?thesis
  proof (cases r)
    case None
    then show ?thesis using p Some
      by (auto simp: cJSON_Print_def pointed_text_def printable_def split: option.splits)
  next
    case b: (Some block)
    then show ?thesis using p Some
      by (auto simp: cJSON_Print_def pointed_text_def)
  qed
qed

lemma api_cases:
  assumes "fill_url a method = Ok url" and "curl_works c" and "\<And>d. data = Some d \<Longrightarrow> clean d"
  shows "\<exists>item t' body. call_telegram_api token method data a c t = Ok (Returned item, t') \<and>
    grants (heap t') = grants (heap t) \<and> sent t' = sent t @ [the_request url data body c] \<and>
    (body = None \<or> (\<exists>d. data = Some d \<and> body = render True 0 d)) \<and>
    (\<exists>k. live (heap t') = live (heap t) + all_blocks (as_list item) + k \<and> 0 \<le> k \<and> k \<le> 1 \<and>
       ((\<forall>n. grants (heap t) n) \<longrightarrow> k = 1)) \<and>
    ((\<forall>n. grants (heap t) n) \<longrightarrow> response_item (grants (heap t)) c (the_request url data body c) item \<and>
       (\<forall>d. data = Some d \<and> printable d \<longrightarrow> body = render True 0 d)) \<and>
    (item = None \<or> response_item (grants (heap t)) c (the_request url data body c) item)"
proof -
  obtain j h1 body where b: "(if data = None then Ok (None, heap t) else cJSON_Print data (heap t)) = Ok (j, h1)"
    "grants h1 = grants (heap t)" "pointed_text j = Ok body" "live h1 = live (heap t) + (if j = None then 0 else 1)"
    "body = None \<or> (\<exists>d. data = Some d \<and> body = render True 0 d)"
    "\<forall>d. data = Some d \<and> printable d \<and> (\<forall>n. grants (heap t) n) \<longrightarrow> body = render True 0 d"
    using body_cases [of data "heap t", OF assms(3)] by metis
  define req where "req = the_request url data body c"
  obtain ret bs where pf: "perform c req = (ret, bs)" by force
  have th: "heap (t\<lparr>heap := h1\<rparr>) = h1" "sent (t\<lparr>heap := h1\<rparr>) = sent t" by simp_all
  have "list_all (\<lambda>b. length b \<le> 16384) bs" using assms(2) pf by (metis curl_works_def snd_conv)
  from transfer_cases [OF this, of "t\<lparr>heap := h1\<rparr>" req, unfolded th] obtain out t1 ok s' t2 k where
    tr: "init_string (t\<lparr>heap := h1\<rparr>) = (out, t1)" "receive bs out (t1\<lparr>sent := sent t1 @ [req]\<rparr>) = Ok (ok, s', t2)"
      "sent t2 = sent t @ [req]" "grants (heap t2) = grants h1"
      "live (heap t2) = live h1 + k" "0 \<le> k" "k \<le> 1" "(\<forall>n. grants h1 n) \<longrightarrow> k = 1"
      "pointed_text (ptr s') = Ok (if ptr s' = None then None else Some (cstr (concat bs)))"
      "(\<forall>n. grants h1 n) \<longrightarrow> ptr s' \<noteq> None"
    by blast
  define t4 where "t4 = settle ok ret (j \<noteq> None) t2"
  have t4: "sent t4 = sent t @ [req]" "grants (heap t4) = grants (heap t)" "live (heap t4) = live (heap t) + k"
    using tr b by (auto simp: t4_def settle_def complain_def Let_def)
  let ?text = "if ptr s' = None then None else Some (cstr (concat bs))"
  obtain i h' where p: "cJSON_Parse ?text (heap t4) = Ok (i, h')" "grants h' = grants (heap t4)"
    "live h' = live (heap t4) + all_blocks (as_list i)"
    using Parse_result [of ?text "heap t4"] by blast
  have ri: "ptr s' \<noteq> None \<Longrightarrow> response_item (grants (heap t)) c req i"
    unfolding response_item_def response_text_def pf snd_conv using p(1) t4(2)
    by - (rule exI [of _ "heap t4"], rule exI [of _ h'], simp del: not_None_eq)
  have ni: "ptr s' = None \<Longrightarrow> i = None"
    using p(1) by (simp add: cJSON_Parse_def cJSON_ParseWithOpts_def)
  have "call_telegram_api token method data a c t = Ok (Returned i, t4\<lparr>heap := h'\<rparr>)"
    using assms(1,2) b(1,3) tr(1,2,9) pf p(1)
    by (simp add: call_telegram_api_def curl_works_def req_def [symmetric] t4_def [symmetric] Let_def
        del: not_None_eq split del: if_split)
  then show ?thesis
    using t4 p tr(6-8,10) b(2,5,6) ri ni unfolding req_def
    by (intro exI [of _ i] exI [of _ "t4\<lparr>heap := h'\<rparr>"] exI [of _ body]) auto
qed

section \<open>The message object\<close>

definition message_item :: "int \<Rightarrow> string \<Rightarrow> cJSON" where
  "message_item userid msg =
     Item cJSON_Object None 0 zero None
       (members [(Add_Number (double_of_int userid), ''chat_id''), (Add_String msg, ''text'')])"

definition message_text :: "int \<Rightarrow> string \<Rightarrow> string" where
  "message_text userid msg =
     [CHR ''{'', LF, CHR 0x09] @ quote (Some ''chat_id'') @ [CHR '':'', CHR 0x09] @ number_text (double_of_int userid) @
     [CHR '','', LF, CHR 0x09] @ quote (Some ''text'') @ [CHR '':'', CHR 0x09] @ quote (Some msg) @ [LF, CHR ''}'']"

lemma double_of_int_wf: "wf_double (double_of_int i)" "double_of_int i \<noteq> NaN"
  by (simp_all add: double_of_int_def round_double_wf) (simp add: round_double_def Let_def split: prod.split)

lemma message_item_clean: "no_nul msg \<Longrightarrow> clean (message_item userid msg)"
  by (simp add: message_item_def double_of_int_wf)

lemma message_item_text: "render True 0 (message_item userid msg) = Some (message_text userid msg)"
  by (simp add: message_item_def message_text_def cJSON_types tabs_def Let_def)

lemma escape_bound: "length (escape u) \<le> 6 * length u"
  by (induction u) (auto simp: unicode_escape_def split: option.splits)

lemma message_item_printable:
  assumes "no_nul msg" and "length msg \<le> 1000000"
  shows "printable (message_item userid msg)"
proof -
  have "length (message_text userid msg) \<le> 6 * length msg + 100"
    using number_text_bounds(1) [OF double_of_int_wf(1), of userid] escape_bound [of msg] escape_bound [of "''chat_id''"]
      escape_bound [of "''text''"] by (simp add: message_text_def quote_def)
  then show ?thesis using assms
    by (simp add: printable_def message_item_clean message_item_text int_max_def)
qed

lemma add_to_NULL:
  assumes "create h = Ok (c, h1)" and "created c h h1"
  shows "\<exists>h2. add_created create None (Some n) h = Ok (None, False, h2) \<and> grants h2 = grants h \<and> live h2 = live h"
  using assms by (cases c) (auto simp: add_created_def add_item_to_object_def created_def)

lemma child_set_child [simp]: "child (set_child c i) = c"
  by (cases i) simp

text \<open>The object of a message under any allocator: it may lack members or be missing altogether.\<close>

lemma message_object_cases:
  assumes "no_nul msg"
  shows "\<exists>data h1 data1 ok1 h2 data2 ok2 h3. cJSON_CreateObject h = (data, h1) \<and>
    cJSON_AddNumberToObject data (Some ''chat_id'') (double_of_int userid) h1 = Ok (data1, ok1, h2) \<and>
    cJSON_AddStringToObject data1 (Some ''text'') (Some msg) h2 = Ok (data2, ok2, h3) \<and>
    grants h3 = grants h \<and> live h3 = live h + all_blocks (as_list data2) \<and> (\<forall>d. data2 = Some d \<longrightarrow> clean d) \<and>
    ((\<forall>k. grants h k) \<longrightarrow> data2 = Some (message_item userid msg))"
proof -
  obtain c h1 where o: "cJSON_CreateObject h = (c, h1)" "created c h h1"
    "c = None \<or> c = Some (Item cJSON_Object None 0 zero None [])"
    using create_typed_cases [of cJSON_Object h] by (auto simp: cJSON_CreateObject_def)
  show ?thesis
  proof (cases c)
    case None
    obtain n h' where "cJSON_CreateNumber (double_of_int userid) h1 = Ok (n, h')" "created n h1 h'"
      using create_number_cases [OF double_of_int_wf(2), of userid h1] by blast
    from add_to_NULL [of "cJSON_CreateNumber (double_of_int userid)" h1 n h' "''chat_id''", OF this] obtain h2 where
      a1: "cJSON_AddNumberToObject None (Some ''chat_id'') (double_of_int userid) h1 = Ok (None, False, h2)"
        "grants h2 = grants h1" "live h2 = live h1" by (auto simp: cJSON_AddNumberToObject_def)
    obtain n h' where "create_text cJSON_String (Some msg) h2 = (n, h')" "created n h2 h'"
      using create_text_cases [of cJSON_String msg h2] by auto
    with add_to_NULL [of "\<lambda>h. Ok (create_text cJSON_String (Some msg) h)" h2 n h' "''text''"] obtain h3 where
      a2: "cJSON_AddStringToObject None (Some ''text'') (Some msg) h2 = Ok (None, False, h3)"
        "grants h3 = grants h2" "live h3 = live h2" by (auto simp: cJSON_AddStringToObject_def cJSON_CreateString_def)
    from o None a1 a2 show ?thesis by (auto simp: created_def)
  next
    case (Some ob)
    then have ob: "ob = Item cJSON_Object None 0 zero None []" using o(3) by simp
    obtain ok1 h2 where a1: "add_to_object (Add_Number (double_of_int userid)) ''chat_id'' (Some ob) h1 =
        Ok (Some (if ok1 then set_child (child ob @ [member_of (Add_Number (double_of_int userid)) ''chat_id'']) ob else ob), ok1, h2)"
      "grants h2 = grants h1" "live h2 = live h1 + (if ok1 then blocks (member_of (Add_Number (double_of_int userid)) ''chat_id'') else 0)"
      "\<not> ok1 \<longrightarrow> (\<exists>k. \<not> grants h1 k)"
      using add_to_object_cases [of "Add_Number (double_of_int userid)" "''chat_id''" ob h1] double_of_int_wf(2) by blast
    define ob1 where "ob1 = (if ok1 then set_child (child ob @ [member_of (Add_Number (double_of_int userid)) ''chat_id'']) ob else ob)"
    obtain ok2 h3 where a2: "add_to_object (Add_String msg) ''text'' (Some ob1) h2 =
        Ok (Some (if ok2 then set_child (child ob1 @ [member_of (Add_String msg) ''text'']) ob1 else ob1), ok2, h3)"
      "grants h3 = grants h2" "live h3 = live h2 + (if ok2 then blocks (member_of (Add_String msg) ''text'') else 0)"
      "\<not> ok2 \<longrightarrow> (\<exists>k. \<not> grants h2 k)"
      using add_to_object_cases [of "Add_String msg" "''text''" ob1 h2] by blast
    define ob2 where "ob2 = (if ok2 then set_child (child ob1 @ [member_of (Add_String msg) ''text'']) ob1 else ob1)"
    have l: "live h3 = live h + blocks ob2" "grants h3 = grants h"
      using o(2) Some a1(2,3) a2(2,3) by (simp_all add: ob2_def ob1_def ob created_def cJSON_types)
    have c: "clean ob2" using assms by (simp add: ob2_def ob1_def ob double_of_int_wf)
    have m: "(\<forall>k. grants h k) \<longrightarrow> ob2 = message_item userid msg"
      using a1(2,4) a2(4) o(2) by (auto simp: ob2_def ob1_def ob message_item_def created_def)
    show ?thesis
      using o(1) Some a1(1) a2(1) l c m unfolding ob1_def [symmetric] ob2_def [symmetric] add_to_object.simps
      by (intro exI [of _ "Some ob"] exI [of _ h1] exI [of _ "Some ob1"] exI [of _ ok1] exI [of _ h2]
        exI [of _ "Some ob2"] exI [of _ ok2] exI [of _ h3]) simp
  qed
qed

section \<open>Sending a message\<close>

definition says_ok :: "cJSON option \<Rightarrow> bool" where
  "says_ok item \<longleftrightarrow> (\<exists>i. cJSON_GetObjectItemCaseSensitive item (Some ''ok'') = Ok i \<and> cJSON_IsTrue i)"

lemma send_message_cases:
  assumes "fill_url a ''sendMessage'' = Ok url" and "curl_works c" and "no_nul msg"
  shows "\<exists>item body post. let req = \<lparr>req_url = url, req_post = post, req_body = body,
        req_headers = (if post \<and> slist_append c then [''Content-Type: application/json''] else [])\<rparr> in
     (item = None \<or> response_item (grants (heap t)) c req item) \<and>
     ((\<forall>n. grants (heap t) n) \<longrightarrow> post \<and> response_item (grants (heap t)) c req item \<and>
        (length msg \<le> 1000000 \<longrightarrow> body = Some (message_text userid msg))) \<and>
     (case cJSON_GetObjectItemCaseSensitive item (Some ''ok'') of
        UB e \<Rightarrow> send_message token userid msg a c t = UB e
      | Ok _ \<Rightarrow> \<exists>t'. send_message token userid msg a c t = Ok (Returned (says_ok item), t') \<and>
          sent t' = sent t @ [req] \<and> grants (heap t') = grants (heap t) \<and>
          (\<exists>k. live (heap t') = live (heap t) + k \<and> 0 \<le> k \<and> k \<le> 1 \<and> ((\<forall>n. grants (heap t) n) \<longrightarrow> k = 1)))"
proof -
  obtain data h1 data1 ok1 h2 data2 ok2 h3 where
    d: "cJSON_CreateObject (heap t) = (data, h1)"
      "cJSON_AddNumberToObject data (Some ''chat_id'') (double_of_int userid) h1 = Ok (data1, ok1, h2)"
      "cJSON_AddStringToObject data1 (Some ''text'') (Some msg) h2 = Ok (data2, ok2, h3)"
      "grants h3 = grants (heap t)" "live h3 = live (heap t) + all_blocks (as_list data2)"
      "\<And>d. data2 = Some d \<Longrightarrow> clean d" "(\<forall>k. grants (heap t) k) \<longrightarrow> data2 = Some (message_item userid msg)"
    using message_object_cases [OF assms(3), of "heap t" userid] by metis
  have th: "heap (t\<lparr>heap := h3\<rparr>) = h3" "sent (t\<lparr>heap := h3\<rparr>) = sent t" by simp_all
  obtain item t' body k where
    p: "call_telegram_api token ''sendMessage'' data2 a c (t\<lparr>heap := h3\<rparr>) = Ok (Returned item, t')"
      "grants (heap t') = grants h3" "sent t' = sent t @ [the_request url data2 body c]"
      "live (heap t') = live h3 + all_blocks (as_list item) + k" "0 \<le> k" "k \<le> 1" "(\<forall>n. grants h3 n) \<longrightarrow> k = 1"
      "(\<forall>n. grants h3 n) \<longrightarrow> response_item (grants h3) c (the_request url data2 body c) item \<and>
         (\<forall>d. data2 = Some d \<and> printable d \<longrightarrow> body = render True 0 d)"
      "item = None \<or> response_item (grants h3) c (the_request url data2 body c) item"
    using api_cases [OF assms(1,2) d(6), of data2 token "t\<lparr>heap := h3\<rparr>", unfolded th] by metis
  note p8 = p(8,9) [unfolded d(4)]
  have u: "send_message token userid msg a c t = obind (cJSON_GetObjectItemCaseSensitive item (Some ''ok''))
      (\<lambda>ok. Ok (Returned (cJSON_IsTrue ok), delete_item item (delete_item data2 t')))"
    using d(1-3) p(1) by (simp add: send_message_def)
  have del: "sent (delete_item item (delete_item data2 t')) = sent t'"
    "grants (heap (delete_item item (delete_item data2 t'))) = grants (heap t)"
    "live (heap (delete_item item (delete_item data2 t'))) = live (heap t) + k"
    using d(4,5) p(2,4) by (simp_all add: delete_item_def)
  have body: "length msg \<le> 1000000 \<Longrightarrow> (\<forall>n. grants (heap t) n) \<Longrightarrow> body = Some (message_text userid msg)"
    using p8(1) d(7) message_item_printable [OF assms(3)] message_item_text by metis
  show ?thesis
    unfolding Let_def
  proof (intro exI [of _ item] exI [of _ body] exI [of _ "data2 \<noteq> None"] conjI)
    show "case cJSON_GetObjectItemCaseSensitive item (Some ''ok'') of
        UB e \<Rightarrow> send_message token userid msg a c t = UB e
      | Ok _ \<Rightarrow> \<exists>t'. send_message token userid msg a c t = Ok (Returned (says_ok item), t') \<and>
          sent t' = sent t @ [\<lparr>req_url = url, req_post = (data2 \<noteq> None), req_body = body,
             req_headers = (if data2 \<noteq> None \<and> slist_append c then [''Content-Type: application/json''] else [])\<rparr>] \<and>
          grants (heap t') = grants (heap t) \<and>
          (\<exists>k. live (heap t') = live (heap t) + k \<and> 0 \<le> k \<and> k \<le> 1 \<and> ((\<forall>n. grants (heap t) n) \<longrightarrow> k = 1))"
    proof (cases "cJSON_GetObjectItemCaseSensitive item (Some ''ok'')")
      case (UB e)
      then show ?thesis using u by simp
    next
      case (Ok i)
      then have "send_message token userid msg a c t = Ok (Returned (says_ok item), delete_item item (delete_item data2 t'))"
        using u by (simp add: says_ok_def)
      then show ?thesis using Ok del p(3,5-7) d(4) by (auto simp: the_request_def)
    qed
  qed (use p8 d(7) body in \<open>auto simp: the_request_def\<close>)
qed

section \<open>Properties of the client\<close>

lemma fill_url_cases:
  "fill_url a method = (case strs a telegram_token of None \<Rightarrow> UB Null_Deref
     | Some tk \<Rightarrow> if length tk + length method \<le> 994 then Ok (telegram_url tk method) else UB Buffer_Overflow)"
  by (simp add: fill_url_def strcpy_into_def telegram_url_def split: option.split)

definition message_request :: "string \<Rightarrow> int \<Rightarrow> string \<Rightarrow> curl \<Rightarrow> request" where
  "message_request tk userid msg c =
     \<lparr>req_url = telegram_url tk ''sendMessage'', req_post = True, req_body = Some (message_text userid msg),
      req_headers = (if slist_append c then [''Content-Type: application/json''] else [])\<rparr>"

lemma telegram_send_cases:
  assumes "strs a telegram_token = Some tk" and "length tk \<le> 983" and "curl_works c" and "no_nul msg"
  shows "\<exists>item req. (item = None \<or> response_item (grants (heap t)) c req item) \<and> req_url req = telegram_url tk ''sendMessage'' \<and>
    ((\<forall>n. grants (heap t) n) \<longrightarrow> response_item (grants (heap t)) c req item \<and>
       (length msg \<le> 1000000 \<longrightarrow> req = message_request tk (ints a telegram_userid) msg c)) \<and>
    (case cJSON_GetObjectItemCaseSensitive item (Some ''ok'') of
       UB e \<Rightarrow> telegram_send_message msg a c t = UB e
     | Ok _ \<Rightarrow> \<exists>t' k. telegram_send_message msg a c t = Ok (Returned (), t') \<and> sent t' = sent t @ [req] \<and>
         grants (heap t') = grants (heap t) \<and> live (heap t') = live (heap t) + k \<and> (k = 0 \<or> k = 1) \<and>
         ((\<forall>n. grants (heap t) n) \<longrightarrow> k = 1))"
proof -
  have "fill_url a ''sendMessage'' = Ok (telegram_url tk ''sendMessage'')"
    using assms(1,2) by (simp add: fill_url_cases)
  from send_message_cases [OF this assms(3,4), of t "ints a telegram_userid" "strs a telegram_token"]
  obtain item body post req where req: "req = \<lparr>req_url = telegram_url tk ''sendMessage'', req_post = post, req_body = body,
        req_headers = (if post \<and> slist_append c then [''Content-Type: application/json''] else [])\<rparr>"
    and ri: "item = None \<or> response_item (grants (heap t)) c req item"
      "(\<forall>n. grants (heap t) n) \<longrightarrow> post \<and> response_item (grants (heap t)) c req item \<and>
        (length msg \<le> 1000000 \<longrightarrow> body = Some (message_text (ints a telegram_userid) msg))"
    and r: "case cJSON_GetObjectItemCaseSensitive item (Some ''ok'') of
        UB e \<Rightarrow> send_message (strs a telegram_token) (ints a telegram_userid) msg a c t = UB e
      | Ok _ \<Rightarrow> \<exists>t'. send_message (strs a telegram_token) (ints a telegram_userid) msg a c t = Ok (Returned (says_ok item), t') \<and>
          sent t' = sent t @ [req] \<and> grants (heap t') = grants (heap t) \<and>
          (\<exists>k. live (heap t') = live (heap t) + k \<and> 0 \<le> k \<and> k \<le> 1 \<and> ((\<forall>n. grants (heap t) n) \<longrightarrow> k = 1))"
    unfolding Let_def by blast
  have "(\<forall>n. grants (heap t) n) \<longrightarrow> response_item (grants (heap t)) c req item \<and>
       (length msg \<le> 1000000 \<longrightarrow> req = message_request tk (ints a telegram_userid) msg c)"
    using ri(2) unfolding req message_request_def by (cases post) auto
  moreover have "case cJSON_GetObjectItemCaseSensitive item (Some ''ok'') of
       UB e \<Rightarrow> telegram_send_message msg a c t = UB e
     | Ok _ \<Rightarrow> \<exists>t' k. telegram_send_message msg a c t = Ok (Returned (), t') \<and> sent t' = sent t @ [req] \<and>
         grants (heap t') = grants (heap t) \<and> live (heap t') = live (heap t) + k \<and> (k = 0 \<or> k = 1) \<and>
         ((\<forall>n. grants (heap t) n) \<longrightarrow> k = 1)"
  proof (cases "cJSON_GetObjectItemCaseSensitive item (Some ''ok'')")
    case (UB e)
    then show ?thesis using r by (simp add: telegram_send_message_def)
  next
    case (Ok i)
    then obtain t' k where s: "send_message (strs a telegram_token) (ints a telegram_userid) msg a c t = Ok (Returned (says_ok item), t')"
      "sent t' = sent t @ [req]" "grants (heap t') = grants (heap t)" "live (heap t') = live (heap t) + k" "0 \<le> k" "k \<le> 1"
      "(\<forall>n. grants (heap t) n) \<longrightarrow> k = 1"
      using r by auto
    have "k = 0 \<or> k = 1" using s(5,6) by linarith
    then show ?thesis unfolding Ok outcome.case
      by (intro exI [of _ t'] exI [of _ k]) (use s in \<open>simp add: telegram_send_message_def\<close>)
  qed
  ultimately show ?thesis using ri(1) req by (intro exI [of _ item] exI [of _ req]) simp
qed

text \<open>
  C30. With a token of at most 983 bytes and an allocator that does not refuse, sending a message
  makes exactly one POST request to the \<open>sendMessage\<close> method of the bot, whose body is the JSON
  object of the user id and the message, quoted and escaped; every item is given back, and one
  block is lost for each message: the buffer of the response. Only a response in
  which a child without a name precedes the member \<open>ok\<close> breaks the call.
\<close>

theorem message_sent_once:
  assumes "strs a telegram_token = Some tk" and "length tk \<le> 983" and "curl_works c"
    and "no_nul msg" and "length msg \<le> 1000000" and "\<forall>n. grants (heap t) n"
  shows "let req = message_request tk (ints a telegram_userid) msg c in
    \<exists>item. response_item (grants (heap t)) c req item \<and>
      (case cJSON_GetObjectItemCaseSensitive item (Some ''ok'') of
         UB e \<Rightarrow> telegram_send_message msg a c t = UB e
       | Ok _ \<Rightarrow> \<exists>t'. telegram_send_message msg a c t = Ok (Returned (), t') \<and> sent t' = sent t @ [req] \<and>
           live (heap t') = live (heap t) + 1)"
proof -
  obtain item req where r: "response_item (grants (heap t)) c req item" "req = message_request tk (ints a telegram_userid) msg c"
    "case cJSON_GetObjectItemCaseSensitive item (Some ''ok'') of
       UB e \<Rightarrow> telegram_send_message msg a c t = UB e
     | Ok _ \<Rightarrow> \<exists>t' k. telegram_send_message msg a c t = Ok (Returned (), t') \<and> sent t' = sent t @ [req] \<and>
         grants (heap t') = grants (heap t) \<and> live (heap t') = live (heap t) + k \<and> (k = 0 \<or> k = 1) \<and>
         ((\<forall>n. grants (heap t) n) \<longrightarrow> k = 1)"
    using telegram_send_cases [OF assms(1-4), of t] assms(5,6) by blast
  then show ?thesis unfolding Let_def
    by (intro exI [of _ item]) (use assms(6) in \<open>auto split: outcome.splits\<close>)
qed

text \<open>
  A response that does not break the lookup of \<open>ok\<close>: no item that the parser makes of it, with or without
  refusals, has a child without a name before that member.
\<close>

definition readable_response :: "(nat \<Rightarrow> bool) \<Rightarrow> curl \<Rightarrow> request \<Rightarrow> bool" where
  "readable_response g c req \<longleftrightarrow>
     (\<forall>item. response_item g c req item \<longrightarrow> (\<exists>i. cJSON_GetObjectItemCaseSensitive item (Some ''ok'') = Ok i))"

text \<open>
  C31. Whatever the allocator refuses: if the response of the API does not break the lookup of \<open>ok\<close> (a response that
  is an array with elements does, see C30), sending a message returns without undefined behaviour; it makes one request, to the
  \<open>sendMessage\<close> method, gives back every item it made or got, and loses at most one block, the buffer of the response.
\<close>

theorem message_survives_refusals:
  assumes "strs a telegram_token = Some tk" and "length tk \<le> 983" and "curl_works c" and "no_nul msg"
    and "\<And>req. req_url req = telegram_url tk ''sendMessage'' \<Longrightarrow> readable_response (grants (heap t)) c req"
  shows "\<exists>t' req k. telegram_send_message msg a c t = Ok (Returned (), t') \<and> sent t' = sent t @ [req] \<and>
    req_url req = telegram_url tk ''sendMessage'' \<and> live (heap t') = live (heap t) + k \<and> (k = 0 \<or> k = 1)"
proof -
  obtain item req where r: "item = None \<or> response_item (grants (heap t)) c req item" "req_url req = telegram_url tk ''sendMessage''"
    "case cJSON_GetObjectItemCaseSensitive item (Some ''ok'') of
       UB e \<Rightarrow> telegram_send_message msg a c t = UB e
     | Ok _ \<Rightarrow> \<exists>t' k. telegram_send_message msg a c t = Ok (Returned (), t') \<and> sent t' = sent t @ [req] \<and>
         grants (heap t') = grants (heap t) \<and> live (heap t') = live (heap t) + k \<and> (k = 0 \<or> k = 1) \<and>
         ((\<forall>n. grants (heap t) n) \<longrightarrow> k = 1)"
    using telegram_send_cases [OF assms(1-4), of t] by blast
  have "\<exists>i. cJSON_GetObjectItemCaseSensitive item (Some ''ok'') = Ok i"
  proof (cases item)
    case None
    then show ?thesis by (simp add: cJSON_GetObjectItemCaseSensitive_def get_object_item_def)
  next
    case (Some i)
    then show ?thesis using r(1,2) assms(5) by (auto simp: readable_response_def)
  qed
  then show ?thesis using r(2,3) by auto
qed

lemma bad_token:
  assumes "strs a telegram_token = None \<or> (\<exists>tk. strs a telegram_token = Some tk \<and> 983 < length tk)" and "no_nul msg"
  shows "telegram_send_message msg a c t =
    UB (if strs a telegram_token = None then Null_Deref else Buffer_Overflow)"
proof -
  obtain data h1 data1 ok1 h2 data2 ok2 h3 where
    d: "cJSON_CreateObject (heap t) = (data, h1)"
      "cJSON_AddNumberToObject data (Some ''chat_id'') (double_of_int (ints a telegram_userid)) h1 = Ok (data1, ok1, h2)"
      "cJSON_AddStringToObject data1 (Some ''text'') (Some msg) h2 = Ok (data2, ok2, h3)"
    using message_object_cases [OF assms(2), of "heap t" "ints a telegram_userid"] by metis
  have "fill_url a ''sendMessage'' = UB (if strs a telegram_token = None then Null_Deref else Buffer_Overflow)"
    using assms(1) by (auto simp: fill_url_cases)
  with d show ?thesis by (simp add: telegram_send_message_def send_message_def call_telegram_api_def)
qed

text \<open>
  A message without a token prints a NULL string, and one with a token of 984 bytes or more
  writes behind the buffer of the address: nothing checks the length of the configured token.
\<close>

lemma unchecked_token:
  assumes "strs a telegram_token = None \<or> (\<exists>tk. strs a telegram_token = Some tk \<and> 983 < length tk)" and "no_nul msg"
  shows "telegram_send_message msg a c t =
    UB (if strs a telegram_token = None then Null_Deref else Buffer_Overflow)"
  using assms by (rule bad_token)

text \<open>
  A response that parses to an array with an element stops the monitor: the
  case-sensitive lookup of \<open>ok\<close> compares with the name of the element, which is NULL.
\<close>

lemma array_response_crashes:
  assumes "strs a telegram_token = Some tk" and "length tk \<le> 983" and "curl_works c"
    and "no_nul msg" and "length msg \<le> 1000000" and "\<forall>n. grants (heap t) n"
    and "\<And>h. grants h = grants (heap t) \<Longrightarrow> \<exists>i h'.
      cJSON_Parse (Some (response_text c (message_request tk (ints a telegram_userid) msg c))) h = Ok (Some i, h') \<and>
      (\<exists>e es. child i = e # es \<and> item_name e = None)"
  shows "telegram_send_message msg a c t = UB Null_Deref"
proof -
  let ?req = "message_request tk (ints a telegram_userid) msg c"
  obtain item req where r: "response_item (grants (heap t)) c req item" "req = ?req"
    "case cJSON_GetObjectItemCaseSensitive item (Some ''ok'') of
       UB e \<Rightarrow> telegram_send_message msg a c t = UB e
     | Ok _ \<Rightarrow> \<exists>t' k. telegram_send_message msg a c t = Ok (Returned (), t') \<and> sent t' = sent t @ [req] \<and>
         grants (heap t') = grants (heap t) \<and> live (heap t') = live (heap t) + k \<and> (k = 0 \<or> k = 1) \<and>
         ((\<forall>n. grants (heap t) n) \<longrightarrow> k = 1)"
    using telegram_send_cases [OF assms(1-4), of t] assms(5,6) by blast
  from r(1,2) obtain h h' where "grants h = grants (heap t)" "cJSON_Parse (Some (response_text c ?req)) h = Ok (item, h')"
    by (auto simp: response_item_def)
  with assms(7) [of h] obtain i e es where "item = Some i" "child i = e # es" "item_name e = None" by auto
  then show ?thesis using r(3) by (simp add: cJSON_GetObjectItemCaseSensitive_def get_object_item_def)
qed

section \<open>Witnesses\<close>

definition demo_store :: argparse where
  "demo_store = (start_state (\<lambda>_. True))
     \<lparr>strs := (\<lambda>_. None)(telegram_token \<mapsto> ''123:abc''), ints := (\<lambda>_. 0)(telegram_userid := 42)\<rparr>"

definition demo_curl :: "string list \<Rightarrow> curl" where
  "demo_curl bs = \<lparr>global_init = 0, easy_init = True, slist_append = True, perform = (\<lambda>req. (0, bs))\<rparr>"

definition demo_telegram :: telegram where
  "demo_telegram = \<lparr>heap = demo_hooks, sent = [], complaints = []\<rparr>"

lemma demo_telegram_simps [simp]:
  "strs demo_store telegram_token = Some ''123:abc''" "sent demo_telegram = []" "live (heap demo_telegram) = 0"
  "grants (heap demo_telegram) n" "response_text (demo_curl bs) req = cstr (concat bs)"
  by (simp_all add: demo_store_def demo_telegram_def demo_hooks_def response_text_def demo_curl_def)

lemma demo_curl_works: "list_all (\<lambda>b. length b \<le> 16384) bs \<Longrightarrow> curl_works (demo_curl bs)"
  by (simp add: curl_works_def demo_curl_def)

text \<open>An empty object is harmless whatever the allocator does with it.\<close>

lemma empty_object_lookup:
  assumes "response_item g (demo_curl [''{'', ''}'']) req item"
  shows "cJSON_GetObjectItemCaseSensitive item (Some ''ok'') = Ok None"
proof -
  from assms obtain h h' where "cJSON_Parse (Some ''{}'') h = Ok (item, h')"
    by (auto simp: response_item_def cstr_def)
  then have "item = None \<or> (\<exists>i. item = Some i \<and> child i = [])"
    by (auto simp: parse_eval parse_failed_def split: if_splits)
  then show ?thesis by (auto simp: cJSON_GetObjectItemCaseSensitive_def get_object_item_def)
qed

lemma message_sent_once_witness:
  "\<exists>t'. telegram_send_message ''pi: Host nas is down!'' demo_store (demo_curl [''{'', ''}'']) demo_telegram = Ok (Returned (), t') \<and>
     length (sent t') = 1 \<and> live (heap t') = 1"
proof -
  obtain item where "response_item (grants (heap demo_telegram)) (demo_curl [''{'', ''}''])
      (message_request ''123:abc'' (ints demo_store telegram_userid) ''pi: Host nas is down!'' (demo_curl [''{'', ''}''])) item"
    "case cJSON_GetObjectItemCaseSensitive item (Some ''ok'') of
       UB e \<Rightarrow> telegram_send_message ''pi: Host nas is down!'' demo_store (demo_curl [''{'', ''}'']) demo_telegram = UB e
     | Ok _ \<Rightarrow> \<exists>t'. telegram_send_message ''pi: Host nas is down!'' demo_store (demo_curl [''{'', ''}'']) demo_telegram =
           Ok (Returned (), t') \<and>
         sent t' = sent demo_telegram @ [message_request ''123:abc'' (ints demo_store telegram_userid)
           ''pi: Host nas is down!'' (demo_curl [''{'', ''}''])] \<and> live (heap t') = live (heap demo_telegram) + 1"
    using message_sent_once [of demo_store "''123:abc''" "demo_curl [''{'', ''}'']" "''pi: Host nas is down!''" demo_telegram]
    by (auto simp: demo_curl_works Let_def)
  with empty_object_lookup show ?thesis by fastforce
qed

lemma message_survives_refusals_witness:
  "\<exists>t' k. telegram_send_message ''up'' demo_store (demo_curl [''{'', ''}''])
     (demo_telegram\<lparr>heap := demo_hooks\<lparr>grants := \<lambda>n. n < 3\<rparr>\<rparr>) = Ok (Returned (), t') \<and> length (sent t') = 1 \<and> live (heap t') \<le> 1"
proof -
  let ?t = "demo_telegram\<lparr>heap := demo_hooks\<lparr>grants := \<lambda>n. n < 3\<rparr>\<rparr>"
  have "live (heap ?t) = 0" "sent ?t = []" by (simp_all add: demo_hooks_def)
  moreover have "readable_response (grants (heap ?t)) (demo_curl [''{'', ''}'']) req" for req
    using empty_object_lookup by (auto simp: readable_response_def)
  ultimately show ?thesis
    using message_survives_refusals [of demo_store "''123:abc''" "demo_curl [''{'', ''}'']" "''up''" ?t]
    by (fastforce simp: demo_curl_works)
qed

lemma unchecked_token_witness:
  "telegram_send_message ''up'' (start_state (\<lambda>_. True)) (demo_curl []) demo_telegram = UB Null_Deref"
  using unchecked_token [of "start_state (\<lambda>_. True)" "''up''"] by (simp add: start_state_def)

lemma array_response_crashes_witness:
  "telegram_send_message ''up'' demo_store (demo_curl [''[null]'']) demo_telegram = UB Null_Deref"
proof (rule array_response_crashes [of demo_store "''123:abc''"])
  fix h :: hooks assume "grants h = grants (heap demo_telegram)"
  then have "grants h n" for n by simp
  then show "\<exists>i h'. cJSON_Parse (Some (response_text (demo_curl [''[null]'']) (message_request ''123:abc''
      (ints demo_store telegram_userid) ''up'' (demo_curl [''[null]''])))) h = Ok (Some i, h') \<and>
      (\<exists>e es. child i = e # es \<and> item_name e = None)"
    by (simp add: parse_eval cstr_def)
qed (simp_all add: demo_curl_works)

section \<open>The configured token\<close>

lemma config_value_short: "(k, v) \<in> set (config_entries bs) \<Longrightarrow> length v < 255"
  using process_line_entry(2) [OF file_lines_buffer]
  by (fastforce simp: config_entries_def List.map_filter_def line_max_def)

lemma values_for_short: "v \<in> set (values_for k (config_entries bs)) \<Longrightarrow> length v < 255"
  using config_value_short by (auto simp: values_for_def)

text \<open>The configuration of \<open>telegram_init\<close>: the values the file gives to the two variables.\<close>

definition file_userid :: "char list \<Rightarrow> int" where
  "file_userid bs = (let vs = values_for ''user_id'' (config_entries bs) in if vs = [] then 0 else atoi (last vs))"

definition file_token :: "char list \<Rightarrow> string option" where
  "file_token bs = (let vs = values_for ''token'' (config_entries bs) in if vs = [] then None else Some (last vs))"

lemma telegram_configured:
  assumes "ready a" and "registered_pointers a = []" and "ints a telegram_userid = 0" and "strs a telegram_token = None"
  shows "\<exists>a1 a2 a3. argparse_register_argument_int ''user_id'' telegram_userid a = Ok a1 \<and>
    argparse_register_argument_str ''token'' telegram_token a1 = Ok a2 \<and>
    argparse_read_properties client (Inr bs) a2 = Ok a3 \<and>
    ints a3 telegram_userid = file_userid bs \<and> strs a3 telegram_token = file_token bs \<and>
    (\<forall>p. p \<noteq> telegram_userid \<longrightarrow> ints a3 p = ints a p) \<and> (\<forall>p. p \<noteq> telegram_token \<longrightarrow> strs a3 p = strs a p) \<and> ready a3"
proof -
  let ?u = "\<lparr>rp_key = ''user_id'', rp_type = T_INT, rp_ptr = telegram_userid\<rparr>"
  let ?k = "\<lparr>rp_key = ''token'', rp_type = T_STR, rp_ptr = telegram_token\<rparr>"
  obtain a1 where a1: "register_pointer ''user_id'' T_INT telegram_userid a = Ok a1" "ready a1"
    "abs_store a1 = abs_store a" "registered_pointers a1 = [?u]"
    using register_pointer_correct [OF assms(1), of "''user_id''"] assms(2) by auto
  obtain a2 where a2: "register_pointer ''token'' T_STR telegram_token a1 = Ok a2" "ready a2"
    "abs_store a2 = abs_store a" "registered_pointers a2 = [?u, ?k]"
    using register_pointer_correct [OF a1(2), of "''token''"] a1(3,4) by auto
  obtain a3 where a3: "argparse_read_properties client (Inr bs) a2 = Ok a3" "ready a3"
    "abs_store a3 = fold (apply_entry [?u, ?k]) (config_entries bs) (abs_store a)"
    using read_properties_refines [OF a2(2), of client bs] a2(3,4) by auto
  have sep: "separate [?u, ?k]" by (simp add: separate_def)
  have f: "ints s = c_int (abs_store s)" "strs s = c_str (abs_store s)" for s by (simp_all add: abs_store_def)
  have other: "c_int (fold (apply_entry [?u, ?k]) es c) p = c_int c p" if "p \<noteq> telegram_userid" for es c p
    using that by (induction es arbitrary: c) (auto simp: apply_entry_def assign_def)
  have other': "c_str (fold (apply_entry [?u, ?k]) es c) p = c_str c p" if "p \<noteq> telegram_token" for es c p
    using that by (induction es arbitrary: c) (auto simp: apply_entry_def assign_def)
  have u: "ints a3 telegram_userid = file_userid bs"
    using fold_apply_var(2) [OF sep, of ?u "config_entries bs" "abs_store a"] assms(3)
    by (simp add: f a3(3) file_userid_def Let_def)
  have k: "strs a3 telegram_token = file_token bs"
    using fold_apply_var(3) [OF sep, of ?k "config_entries bs" "abs_store a"] assms(4)
    by (simp add: f a3(3) file_token_def Let_def)
  have "\<forall>p. p \<noteq> telegram_userid \<longrightarrow> ints a3 p = ints a p" "\<forall>p. p \<noteq> telegram_token \<longrightarrow> strs a3 p = strs a p"
    using other other' by (simp_all add: f a3(3))
  with a1(1) a2(1) a3(1,2) u k show ?thesis
    unfolding argparse_register_argument_int_def argparse_register_argument_str_def by blast
qed

definition get_me :: "string \<Rightarrow> request" where
  "get_me tk = \<lparr>req_url = telegram_url tk ''getMe'', req_post = False, req_body = None, req_headers = []\<rparr>"

lemma true_is_bool: "cJSON_IsBool i \<and> cJSON_IsTrue i \<longleftrightarrow> cJSON_IsTrue i"
proof -
  have "x AND 3 \<noteq> 0" if "x AND 255 = 2" for x :: int
  proof -
    have "x AND 3 = (x AND 255) AND 3" by (simp add: and.assoc)
    then show ?thesis using that by simp
  qed
  then show ?thesis
    by (auto simp: cJSON_IsTrue_def cJSON_IsBool_def has_type_def cJSON_types split: option.splits)
qed

lemma validate_token_cases:
  assumes "strs a telegram_token = Some tk" and "length tk < 255" and "curl_works c" and "\<forall>n. grants (heap t) n"
  shows "\<exists>item. response_item (grants (heap t)) c (get_me tk) item \<and>
    (case cJSON_GetObjectItemCaseSensitive item (Some ''ok'') of
       UB e \<Rightarrow> validate_token token a c t = UB e
     | Ok _ \<Rightarrow> \<exists>t'. validate_token token a c t = Ok (Returned (says_ok item), t') \<and>
         sent t' = sent t @ [get_me tk] \<and> live (heap t') = live (heap t) + 1 \<and> grants (heap t') = grants (heap t))"
proof -
  have "fill_url a ''getMe'' = Ok (telegram_url tk ''getMe'')"
    using assms(1,2) by (simp add: fill_url_cases)
  from api_cases [OF this assms(3), of None token t] obtain item t' where
    p: "call_telegram_api token ''getMe'' None a c t = Ok (Returned item, t')"
      "sent t' = sent t @ [get_me tk]" "live (heap t') = live (heap t) + all_blocks (as_list item) + 1"
      "response_item (grants (heap t)) c (get_me tk) item" "grants (heap t') = grants (heap t)"
    using assms(4) by (auto simp: the_request_def get_me_def)
  have v: "validate_token token a c t = obind (cJSON_GetObjectItemCaseSensitive item (Some ''ok''))
      (\<lambda>ok. Ok (Returned (cJSON_IsBool ok \<and> cJSON_IsTrue ok), delete_item item t'))"
    using p(1) by (simp add: validate_token_def)
  have del: "sent (delete_item item t') = sent t @ [get_me tk]" "live (heap (delete_item item t')) = live (heap t) + 1"
    "grants (heap (delete_item item t')) = grants (heap t)"
    using p(2,3,5) by (simp_all add: delete_item_def)
  show ?thesis
  proof (cases "cJSON_GetObjectItemCaseSensitive item (Some ''ok'')")
    case (Ok i)
    then have "validate_token token a c t = Ok (Returned (says_ok item), delete_item item t')"
      using v true_is_bool [of i] by (simp add: says_ok_def)
    then show ?thesis using Ok p(4) del by (intro exI [of _ item]) simp
  next
    case (UB e)
    then show ?thesis using v p(4) by (intro exI [of _ item]) simp
  qed
qed

text \<open>
  \<open>telegram_init\<close> where the response to \<open>getMe\<close> is an object: it returns, and the store holds the
  two values of the file.
\<close>

lemma telegram_init_runs:
  assumes "ready a" and "registered_pointers a = []" and "ints a telegram_userid = 0" and "strs a telegram_token = None"
    and "curl_works c" and "\<forall>n. grants (heap t) n"
    and "\<And>g req item. response_item g c req item \<Longrightarrow> \<exists>i. cJSON_GetObjectItemCaseSensitive item (Some ''ok'') = Ok i"
  shows "\<exists>r a' t'. telegram_init client (Inr bs) c a t = Ok (Returned r, a', t') \<and> grants (heap t') = grants (heap t) \<and>
    ints a' telegram_userid = file_userid bs \<and> strs a' telegram_token = file_token bs \<and>
    (\<forall>p. p \<noteq> telegram_userid \<longrightarrow> ints a' p = ints a p) \<and> (\<forall>p. p \<noteq> telegram_token \<longrightarrow> strs a' p = strs a p) \<and>
    (let calls = (if file_userid bs = 0 then [] else map get_me (case file_token bs of None \<Rightarrow> [] | Some tk \<Rightarrow> [tk])) in
     sent t' = sent t @ calls \<and> live (heap t') = live (heap t) + int (length calls))"
proof -
  obtain a1 a2 a3 where a: "argparse_register_argument_int ''user_id'' telegram_userid a = Ok a1"
    "argparse_register_argument_str ''token'' telegram_token a1 = Ok a2" "argparse_read_properties client (Inr bs) a2 = Ok a3"
    "ints a3 telegram_userid = file_userid bs" "strs a3 telegram_token = file_token bs"
    "\<forall>p. p \<noteq> telegram_userid \<longrightarrow> ints a3 p = ints a p" "\<forall>p. p \<noteq> telegram_token \<longrightarrow> strs a3 p = strs a p"
    using telegram_configured [OF assms(1-4), of client bs] by blast
  show ?thesis
  proof (cases "file_userid bs \<noteq> 0 \<and> file_token bs \<noteq> None")
    case False
    then have "telegram_init client (Inr bs) c a t = Ok (Returned (- 1), a3, t)"
      using a by (auto simp: telegram_init_def)
    then show ?thesis using False a(4-7) by (intro exI [of _ "- 1"] exI [of _ a3] exI [of _ t]) auto
  next
    case True
    then obtain tk where tk: "file_token bs = Some tk" by auto
    then have "tk \<in> set (values_for ''token'' (config_entries bs))"
      by (auto simp: file_token_def Let_def split: if_splits)
    then have l: "length tk < 255" by (rule values_for_short)
    have s: "strs a3 telegram_token = Some tk" using a(5) tk by simp
    obtain item where i: "response_item (grants (heap t)) c (get_me tk) item"
      "case cJSON_GetObjectItemCaseSensitive item (Some ''ok'') of
         UB e \<Rightarrow> validate_token (Some tk) a3 c t = UB e
       | Ok _ \<Rightarrow> \<exists>t'. validate_token (Some tk) a3 c t = Ok (Returned (says_ok item), t') \<and>
           sent t' = sent t @ [get_me tk] \<and> live (heap t') = live (heap t) + 1 \<and> grants (heap t') = grants (heap t)"
      using validate_token_cases [OF s l assms(5,6), of "Some tk"] by blast
    obtain ok where "cJSON_GetObjectItemCaseSensitive item (Some ''ok'') = Ok ok" using assms(7) [OF i(1)] by blast
    with i(2) obtain b t' where
      v: "validate_token (Some tk) a3 c t = Ok (Returned b, t')" "sent t' = sent t @ [get_me tk]"
        "live (heap t') = live (heap t) + 1" "grants (heap t') = grants (heap t)"
      by auto
    have "telegram_init client (Inr bs) c a t = Ok (Returned (if b then 0 else - 1), a3, t')"
      using a True tk v(1) by (simp add: telegram_init_def)
    then show ?thesis using v a(4-7) True tk
      by (intro exI [of _ "if b then 0 else - 1"] exI [of _ a3] exI [of _ t']) simp
  qed
qed

text \<open>
  C32. \<open>telegram_init\<close> on a configuration file reports success exactly when the file names a
  user id other than zero and a token and the response to one \<open>getMe\<close> request for that token
  has a true member \<open>ok\<close>; without one of the two it makes no request. A token from
  a file is short enough for the buffer of the address.
\<close>

theorem telegram_init_decides:
  assumes "ready a" and "registered_pointers a = []" and "ints a telegram_userid = 0" and "strs a telegram_token = None"
    and "curl_works c" and "\<forall>n. grants (heap t) n"
  shows "case file_token bs of
      None \<Rightarrow> \<exists>a'. telegram_init client (Inr bs) c a t = Ok (Returned (- 1), a', t)
    | Some tk \<Rightarrow> length tk < 255 \<and>
        (if file_userid bs = 0 then \<exists>a'. telegram_init client (Inr bs) c a t = Ok (Returned (- 1), a', t)
         else \<exists>item. let req = get_me tk in
           response_item (grants (heap t)) c req item \<and>
           (case cJSON_GetObjectItemCaseSensitive item (Some ''ok'') of
              UB e \<Rightarrow> telegram_init client (Inr bs) c a t = UB e
            | Ok _ \<Rightarrow> \<exists>a' t'. telegram_init client (Inr bs) c a t =
                  Ok (Returned (if says_ok item then 0 else - 1), a', t') \<and>
                strs a' telegram_token = Some tk \<and> ints a' telegram_userid = file_userid bs \<and>
                sent t' = sent t @ [req] \<and> live (heap t') = live (heap t) + 1))"
proof -
  obtain a1 a2 a3 where a: "argparse_register_argument_int ''user_id'' telegram_userid a = Ok a1"
    "argparse_register_argument_str ''token'' telegram_token a1 = Ok a2"
    "argparse_read_properties client (Inr bs) a2 = Ok a3"
    "ints a3 telegram_userid = file_userid bs" "strs a3 telegram_token = file_token bs"
    using telegram_configured [OF assms(1-4), of client bs] by blast
  have u: "telegram_init client (Inr bs) c a t =
    (if file_userid bs \<noteq> 0 \<and> file_token bs \<noteq> None then
       obind (validate_token (file_token bs) a3 c t)
         (\<lambda>(r, t1). case r of Exited n \<Rightarrow> Ok (Exited n, a3, t1)
            | Returned valid \<Rightarrow> Ok (Returned (if valid then 0 else - 1), a3, t1))
     else Ok (Returned (- 1), a3, t))"
    using a by (simp add: telegram_init_def)
  show ?thesis
  proof (cases "file_token bs")
    case None
    then show ?thesis using u by simp
  next
    case (Some tk)
    then have "tk \<in> set (values_for ''token'' (config_entries bs))"
      by (auto simp: file_token_def Let_def split: if_splits)
    then have tk: "length tk < 255" by (rule values_for_short)
    show ?thesis
    proof (cases "file_userid bs = 0")
      case True
      then show ?thesis using Some tk u by simp
    next
      case False
      have s: "strs a3 telegram_token = Some tk" using a(5) Some by simp
      obtain item where i: "response_item (grants (heap t)) c (get_me tk) item"
        "case cJSON_GetObjectItemCaseSensitive item (Some ''ok'') of
           UB e \<Rightarrow> validate_token (Some tk) a3 c t = UB e
         | Ok _ \<Rightarrow> \<exists>t'. validate_token (Some tk) a3 c t = Ok (Returned (says_ok item), t') \<and>
             sent t' = sent t @ [get_me tk] \<and> live (heap t') = live (heap t) + 1 \<and> grants (heap t') = grants (heap t)"
        using validate_token_cases [OF s tk assms(5,6), of "Some tk"] by blast
      have "case cJSON_GetObjectItemCaseSensitive item (Some ''ok'') of
            UB e \<Rightarrow> telegram_init client (Inr bs) c a t = UB e
          | Ok _ \<Rightarrow> \<exists>a' t'. telegram_init client (Inr bs) c a t = Ok (Returned (if says_ok item then 0 else - 1), a', t') \<and>
              strs a' telegram_token = Some tk \<and> ints a' telegram_userid = file_userid bs \<and>
              sent t' = sent t @ [get_me tk] \<and> live (heap t') = live (heap t) + 1"
        using i(2) u Some False a(4) s by (cases "cJSON_GetObjectItemCaseSensitive item (Some ''ok'')") auto
      then show ?thesis unfolding Some option.case Let_def if_not_P [OF False] using i(1) tk by blast
    qed
  qed
qed

definition demo_telegram_file :: "char list" where
  "demo_telegram_file = ''user_id=42\<newline>token=123:abc\<newline>''"

lemma demo_telegram_entries: "config_entries demo_telegram_file = [(''user_id'', ''42''), (''token'', ''123:abc'')]"
  using config_entries_render [of "(''user_id'', ''42'')" "''token=123:abc\<newline>''"]
    config_entries_render [of "(''token'', ''123:abc'')" "[]"]
  by (simp add: demo_telegram_file_def plain_entry_def render_entry_def line_max_def)

lemma demo_telegram_config: "file_token demo_telegram_file = Some ''123:abc''" "file_userid demo_telegram_file = 42"
  by (simp_all add: file_token_def file_userid_def demo_telegram_entries atoi_def strtol_def isspace_def is_digit_def
      digits_val_def char_digit_def wrap32_def long_max_def long_min_def)

lemma telegram_init_decides_witness:
  "\<exists>a' t'. telegram_init no_client (Inr demo_telegram_file) (demo_curl [''{'', ''}'']) (start_state (\<lambda>_. True)) demo_telegram =
     Ok (Returned (- 1), a', t') \<and> length (sent t') = 1"
proof -
  let ?c = "demo_curl [''{'', ''}'']"
  let ?req = "get_me ''123:abc''"
  have "registered_pointers (start_state (\<lambda>_. True)) = []" "ints (start_state (\<lambda>_. True)) telegram_userid = 0"
    "strs (start_state (\<lambda>_. True)) telegram_token = None" by (simp_all add: start_state_def)
  from telegram_init_decides [OF ready_start this demo_curl_works, of "[''{'', ''}'']" demo_telegram no_client demo_telegram_file]
  obtain item where i: "response_item (grants (heap demo_telegram)) ?c ?req item"
    "case cJSON_GetObjectItemCaseSensitive item (Some ''ok'') of
       UB e \<Rightarrow> telegram_init no_client (Inr demo_telegram_file) ?c (start_state (\<lambda>_. True)) demo_telegram = UB e
     | Ok _ \<Rightarrow> \<exists>a' t'. telegram_init no_client (Inr demo_telegram_file) ?c (start_state (\<lambda>_. True)) demo_telegram =
           Ok (Returned (if says_ok item then 0 else - 1), a', t') \<and>
         strs a' telegram_token = Some ''123:abc'' \<and> ints a' telegram_userid = file_userid demo_telegram_file \<and>
         sent t' = sent demo_telegram @ [?req] \<and> live (heap t') = live (heap demo_telegram) + 1"
    by (auto simp: demo_telegram_config Let_def)
  have n: "cJSON_GetObjectItemCaseSensitive item (Some ''ok'') = Ok None" by (rule empty_object_lookup [OF i(1)])
  then have "\<not> says_ok item" by (simp add: says_ok_def cJSON_IsTrue_def has_type_def)
  with n i(2) show ?thesis by auto
qed

end
