(* ===== verification/Logtime.thy ===== *)
theory Logtime
  imports CString
begin

text \<open>
  src/src/logtime.c: the round-trip log. A named clock remembers when the last datagram to a
  target was sent; when the answer arrives the elapsed time is written to the database. The
  database engine is a parameter: the function that runs one prepared statement to its first
  step. The hypotheses on it are those of \<open>sqlite_engine\<close>.
\<close>

section \<open>Time\<close>

text \<open>\<open>struct timespec\<close>: seconds and nanoseconds.\<close>

datatype timespec = Timespec (tv_sec: int) (tv_nsec: int)

instantiation timespec :: linorder
begin

definition less_timespec :: "timespec \<Rightarrow> timespec \<Rightarrow> bool" where
  "less_timespec s t \<longleftrightarrow> tv_sec s < tv_sec t \<or> tv_sec s = tv_sec t \<and> tv_nsec s < tv_nsec t"

definition less_eq_timespec :: "timespec \<Rightarrow> timespec \<Rightarrow> bool" where
  "less_eq_timespec s t \<longleftrightarrow> tv_sec s < tv_sec t \<or> tv_sec s = tv_sec t \<and> tv_nsec s \<le> tv_nsec t"

instance
  by intro_classes (auto simp: less_timespec_def less_eq_timespec_def timespec.expand)

end

definition timespec_diff :: "timespec \<Rightarrow> timespec \<Rightarrow> timespec" where
  "timespec_diff start stop =
     (if tv_nsec stop - tv_nsec start < 0 then
        Timespec (tv_sec stop - tv_sec start - 1) (tv_nsec stop - tv_nsec start + 1000000000)
      else
        Timespec (tv_sec stop - tv_sec start) (tv_nsec stop - tv_nsec start))"

text \<open>A reading of the clock: nanoseconds within a second, seconds that fit a 64-bit \<open>time_t\<close>.\<close>

definition clock_reading :: "timespec \<Rightarrow> bool" where
  "clock_reading t \<longleftrightarrow> 0 \<le> tv_sec t \<and> tv_sec t < 2 ^ 63 \<and> 0 \<le> tv_nsec t \<and> tv_nsec t < 1000000000"

definition nanos :: "timespec \<Rightarrow> int" where
  "nanos t = tv_sec t * 1000000000 + tv_nsec t"

section \<open>The array of clocks\<close>

record named_clock =
  clk_name :: string
  departure :: timespec

fun get_named_clock :: "string \<Rightarrow> named_clock list \<Rightarrow> named_clock option" where
  "get_named_clock name [] = None"
| "get_named_clock name (c # cs) = (if name = clk_name c then Some c else get_named_clock name cs)"

interpretation nc: named_array clk_name get_named_clock
  by unfold_locales simp_all

text \<open>The write through the pointer that \<open>get_named_clock\<close> returned.\<close>

fun set_departure :: "string \<Rightarrow> timespec \<Rightarrow> named_clock list \<Rightarrow> named_clock list" where
  "set_departure name t [] = []"
| "set_departure name t (c # cs) =
     (if name = clk_name c then c\<lparr>departure := t\<rparr> # cs else c # set_departure name t cs)"

text \<open>
  \<open>ok\<close> says whether the \<open>realloc\<close> succeeds (its result is not checked), \<open>now\<close> is the reading of
  the clock. The name goes into an array of 256 bytes.
\<close>

definition logtime_set_start :: "bool \<Rightarrow> timespec \<Rightarrow> string \<Rightarrow> named_clock list \<Rightarrow> named_clock list outcome" where
  "logtime_set_start ok now name clocks =
     (case get_named_clock name clocks of
        None \<Rightarrow>
          if ok then obind (strncpy_into 256 name 256)
                       (\<lambda>n. Ok (clocks @ [\<lparr>clk_name = n, departure = now\<rparr>]))
          else UB Null_Deref
      | Some _ \<Rightarrow> Ok (set_departure name now clocks))"

section \<open>The database\<close>

datatype sqlval = Text string | Integer int

record stmt =
  stmt_sql :: string
  stmt_binds :: "(nat \<times> sqlval) list"

text \<open>
  One \<open>sqlite3_step\<close> on a prepared statement with its bound values: the result code, what
  \<open>sqlite3_column_int (stmt, 0)\<close> then returns, and the database afterwards.
\<close>

type_synonym 'db step = "stmt \<Rightarrow> 'db \<Rightarrow> int \<times> int \<times> 'db"

definition sqlite_row :: int where "sqlite_row = 100"
definition sqlite_done :: int where "sqlite_done = 101"

definition select_target :: string where
  "select_target = ''SELECT id FROM targets WHERE name = ?;''"

definition insert_target :: string where
  "insert_target = ''INSERT INTO targets (name) VALUES (?);''"

definition insert_clock :: string where
  "insert_clock = ''INSERT INTO clocks (target, s, ns) VALUES (?, ?, ?);''"

definition create_targets :: string where
  "create_targets = ''CREATE TABLE IF NOT EXISTS targets (  id INTEGER PRIMARY KEY,  name TEXT);''"

definition create_clocks :: string where
  "create_clocks = ''CREATE TABLE IF NOT EXISTS clocks (  target INTEGER,  time TIMESTAMP DEFAULT CURRENT_TIMESTAMP,  s INTEGER,  ns INTEGER,  FOREIGN KEY(target) REFERENCES targets(id));''"

definition execute_simple_query :: "'db step \<Rightarrow> string \<Rightarrow> 'db \<Rightarrow> 'db" where
  "execute_simple_query step query db =
     (case step \<lparr>stmt_sql = query, stmt_binds = []\<rparr> db of (_, _, db') \<Rightarrow> db')"

definition get_target_id :: "'db step \<Rightarrow> string \<Rightarrow> 'db \<Rightarrow> int \<times> 'db" where
  "get_target_id step name db =
     (case step \<lparr>stmt_sql = select_target, stmt_binds = [(1, Text name)]\<rparr> db of
        (res, tid, db1) \<Rightarrow> (if res = sqlite_done then - 1 else tid, db1))"

text \<open>\<open>sqlite3_bind_int\<close> takes an \<open>int\<close>: the two \<open>long\<close> fields are cut to 32 bits on the way.\<close>

definition execute_insert_query :: "'db step \<Rightarrow> string \<Rightarrow> timespec \<Rightarrow> 'db \<Rightarrow> 'db" where
  "execute_insert_query step name time db =
     (case get_target_id step name db of
        (id0, db0) \<Rightarrow>
          (case (if id0 = - 1 then
                   (case step \<lparr>stmt_sql = insert_target, stmt_binds = [(1, Text name)]\<rparr> db0 of
                      (_, _, db1) \<Rightarrow> get_target_id step name db1)
                 else (id0, db0)) of
             (tid, db2) \<Rightarrow>
               (case step \<lparr>stmt_sql = insert_clock,
                           stmt_binds = [(1, Integer tid), (2, Integer (wrap32 (tv_sec time))),
                                         (3, Integer (wrap32 (tv_nsec time)))]\<rparr> db2 of
                  (_, _, db3) \<Rightarrow> db3)))"

definition logtime_init :: "(string \<Rightarrow> 'db) \<Rightarrow> 'db step \<Rightarrow> 'db" where
  "logtime_init sqlite3_open step =
     execute_simple_query step create_clocks
       (execute_simple_query step create_targets (sqlite3_open ''/var/hearthbeat/database.db''))"

text \<open>
  \<open>logtime_set_record\<close>: an unknown name is only reported; \<open>Inl\<close> is that message.
\<close>

definition logtime_set_record ::
    "'db step \<Rightarrow> timespec \<Rightarrow> string \<Rightarrow> named_clock list \<Rightarrow> 'db \<Rightarrow> string + 'db" where
  "logtime_set_record step now name clocks db =
     (case get_named_clock name clocks of
        None \<Rightarrow> Inl (''No clock named '' @ name @ '' started'' @ [LF])
      | Some c \<Rightarrow> Inr (execute_insert_query step name (timespec_diff (departure c) now) db))"

section \<open>Differences of times\<close>

lemma nanos_diff [simp]: "nanos (timespec_diff s t) = nanos t - nanos s"
  by (simp add: nanos_def timespec_diff_def algebra_simps)

lemma timespec_diff_normal:
  "clock_reading s \<Longrightarrow> clock_reading t \<Longrightarrow>
   0 \<le> tv_nsec (timespec_diff s t) \<and> tv_nsec (timespec_diff s t) < 1000000000 \<and>
   - (2 ^ 63) \<le> tv_sec (timespec_diff s t) \<and> tv_sec (timespec_diff s t) < 2 ^ 63"
  by (auto simp: timespec_diff_def clock_reading_def)

lemma timespec_diff_divmod:
  assumes "clock_reading s" and "clock_reading t"
  shows "tv_sec (timespec_diff s t) = (nanos t - nanos s) div 1000000000"
    and "tv_nsec (timespec_diff s t) = (nanos t - nanos s) mod 1000000000"
proof -
  let ?d = "timespec_diff s t"
  have "nanos t - nanos s = tv_sec ?d * 1000000000 + tv_nsec ?d"
    using nanos_diff [of s t] by (simp add: nanos_def)
  moreover have "0 \<le> tv_nsec ?d \<and> tv_nsec ?d < 1000000000"
    using timespec_diff_normal [OF assms] by simp
  ultimately show "tv_sec ?d = (nanos t - nanos s) div 1000000000"
    and "tv_nsec ?d = (nanos t - nanos s) mod 1000000000" by simp_all
qed

lemma nanos_mono: "clock_reading s \<Longrightarrow> clock_reading t \<Longrightarrow> nanos s \<le> nanos t \<longleftrightarrow> s \<le> t"
  by (auto simp: nanos_def less_eq_timespec_def clock_reading_def)

section \<open>The clocks as a map\<close>

definition clock_map :: "named_clock list \<Rightarrow> string \<Rightarrow> timespec option" where
  "clock_map cs n = map_option departure (get_named_clock n cs)"

lemma get_named_clock_set_departure:
  "get_named_clock n (set_departure m t cs) =
     (if n = m then map_option (\<lambda>c. c\<lparr>departure := t\<rparr>) (get_named_clock n cs) else get_named_clock n cs)"
  by (induction cs) auto

lemma set_departure_names [simp]: "map clk_name (set_departure m t cs) = map clk_name cs"
  by (induction cs) auto

lemma set_start_correct:
  assumes "length name < 256"
  shows "\<exists>cs'. logtime_set_start True now name cs = Ok cs' \<and> clock_map cs' = (clock_map cs)(name \<mapsto> now) \<and>
    (distinct (map clk_name cs) \<longrightarrow> distinct (map clk_name cs'))"
proof (cases "get_named_clock name cs")
  case None
  have "strncpy_into 256 name 256 = Ok name"
    using assms by (simp add: strncpy_into_def size_t_def)
  then have "logtime_set_start True now name cs = Ok (cs @ [\<lparr>clk_name = name, departure = now\<rparr>])"
    using None by (simp add: logtime_set_start_def)
  moreover have "clock_map (cs @ [\<lparr>clk_name = name, departure = now\<rparr>]) = (clock_map cs)(name \<mapsto> now)"
    using None by (auto simp: clock_map_def fun_eq_iff nc.find_append split: option.splits)
  moreover have "name \<notin> clk_name ` set cs" using None nc.find_None_iff by blast
  ultimately show ?thesis by simp
next
  case (Some c)
  then show ?thesis
    by (simp add: logtime_set_start_def clock_map_def fun_eq_iff get_named_clock_set_departure)
qed

lemma set_start_long_name:
  "256 \<le> length name \<Longrightarrow> get_named_clock name cs = None \<Longrightarrow> logtime_set_start True now name cs = UB Unterminated"
  by (simp add: logtime_set_start_def strncpy_into_def size_t_def)

section \<open>What the program relies on from the database engine\<close>

text \<open>The invariant of the table of targets: positive, distinct ids and no name twice.\<close>

definition targets_ok :: "(int \<times> string) list \<Rightarrow> bool" where
  "targets_ok ts \<longleftrightarrow> (\<forall>p \<in> set ts. 0 < fst p) \<and> distinct (map fst ts) \<and> distinct (map snd ts)"

text \<open>
  The interface of the engine. \<open>tgt\<close> and \<open>clk\<close> read the two tables: rows of (id, name) and of (target, s, ns). Selecting an id
  returns a row exactly when the name is in the table, and then an id of that name; inserting a
  name gives it a fresh positive id (\<open>INTEGER PRIMARY KEY\<close>); inserting a time appends a row.
\<close>

locale sqlite_engine =
  fixes step :: "'db step"
    and tgt :: "'db \<Rightarrow> (int \<times> string) list"
    and clk :: "'db \<Rightarrow> (int \<times> int \<times> int) list"
  assumes select_step:
      "step \<lparr>stmt_sql = select_target, stmt_binds = [(1, Text name)]\<rparr> db = (rc, col, db') \<Longrightarrow>
       tgt db' = tgt db \<and> clk db' = clk db \<and>
       (if name \<in> snd ` set (tgt db) then rc = sqlite_row \<and> (col, name) \<in> set (tgt db) else rc = sqlite_done)"
    and insert_target_step:
      "step \<lparr>stmt_sql = insert_target, stmt_binds = [(1, Text name)]\<rparr> db = (rc, col, db') \<Longrightarrow>
       clk db' = clk db \<and> (\<exists>i. 0 < i \<and> i \<notin> fst ` set (tgt db) \<and> tgt db' = tgt db @ [(i, name)])"
    and insert_clock_step:
      "step \<lparr>stmt_sql = insert_clock, stmt_binds = [(1, Integer t), (2, Integer s), (3, Integer ns)]\<rparr> db = (rc, col, db') \<Longrightarrow>
       tgt db' = tgt db \<and> clk db' = clk db @ [(t, s, ns)]"
begin

lemma get_target_id_correct:
  assumes "targets_ok (tgt db)" and "get_target_id step name db = (tid, db')"
  shows "tgt db' = tgt db \<and> clk db' = clk db \<and>
    (if name \<in> snd ` set (tgt db) then (tid, name) \<in> set (tgt db) \<and> tid \<noteq> - 1 else tid = - 1)"
proof -
  obtain rc col d where st: "step \<lparr>stmt_sql = select_target, stmt_binds = [(1, Text name)]\<rparr> db = (rc, col, d)"
    using prod_cases3 by blast
  from select_step [OF st] st assms show ?thesis
    by (auto simp: get_target_id_def targets_ok_def sqlite_row_def sqlite_done_def split: if_splits)
qed

lemma execute_insert_query_correct:
  assumes ok: "targets_ok (tgt db)"
  shows "\<exists>i. (i, name) \<in> set (tgt (execute_insert_query step name time db)) \<and>
    targets_ok (tgt (execute_insert_query step name time db)) \<and>
    tgt (execute_insert_query step name time db) =
      (if name \<in> snd ` set (tgt db) then tgt db else tgt db @ [(i, name)]) \<and>
    clk (execute_insert_query step name time db) =
      clk db @ [(i, wrap32 (tv_sec time), wrap32 (tv_nsec time))]"
proof -
  obtain id0 db0 where g0: "get_target_id step name db = (id0, db0)" by (cases "get_target_id step name db")
  note p0 = get_target_id_correct [OF ok g0]
  obtain i db2 where g2: "(if id0 = - 1 then
        (case step \<lparr>stmt_sql = insert_target, stmt_binds = [(1, Text name)]\<rparr> db0 of
           (_, _, db1) \<Rightarrow> get_target_id step name db1) else (id0, db0)) = (i, db2)"
    and i: "(i, name) \<in> set (tgt db2)" "targets_ok (tgt db2)" "clk db2 = clk db"
      "tgt db2 = (if name \<in> snd ` set (tgt db) then tgt db else tgt db @ [(i, name)])"
  proof (cases "name \<in> snd ` set (tgt db)")
    case True
    with p0 ok that [of id0 db0] show ?thesis by simp
  next
    case False
    obtain rc col db1 where st: "step \<lparr>stmt_sql = insert_target, stmt_binds = [(1, Text name)]\<rparr> db0 = (rc, col, db1)"
      using prod_cases3 by blast
    obtain j where j: "clk db1 = clk db0" "0 < j" "j \<notin> fst ` set (tgt db0)" "tgt db1 = tgt db0 @ [(j, name)]"
      using insert_target_step [OF st] by blast
    have ok1: "targets_ok (tgt db1)" using ok j p0 False by (auto simp: targets_ok_def)
    obtain i db2 where g1: "get_target_id step name db1 = (i, db2)" by (cases "get_target_id step name db1")
    note p1 = get_target_id_correct [OF ok1 g1]
    have "(i, name) \<in> set (tgt db1)" using p1 j(4) by auto
    then have "i = j" using j(4) p0 False by (auto simp: image_iff)
    with p0 p1 g1 st j False ok1 that [of i db2] show ?thesis by simp
  qed
  obtain rc col db3 where st: "step \<lparr>stmt_sql = insert_clock,
      stmt_binds = [(1, Integer i), (2, Integer (wrap32 (tv_sec time))), (3, Integer (wrap32 (tv_nsec time)))]\<rparr> db2
      = (rc, col, db3)"
    using prod_cases3 by blast
  have "tgt db3 = tgt db2 \<and> clk db3 = clk db2 @ [(i, wrap32 (tv_sec time), wrap32 (tv_nsec time))]"
    by (rule insert_clock_step [OF st])
  moreover have "execute_insert_query step name time db = db3"
    unfolding execute_insert_query_def g0 prod.case g2 st by simp
  ultimately show ?thesis using i by auto
qed

end

text \<open>A database of two lists, which fulfils the contract.\<close>

type_synonym mem_db = "(int \<times> string) list \<times> (int \<times> int \<times> int) list"

fun mem_step :: "mem_db step" where
  "mem_step st (ts, cs) =
     (if stmt_sql st = select_target then
        (case stmt_binds st of
           [(_, Text name)] \<Rightarrow>
             (case filter (\<lambda>p. snd p = name) ts of
                [] \<Rightarrow> (sqlite_done, 0, (ts, cs))
              | p # _ \<Rightarrow> (sqlite_row, fst p, (ts, cs)))
         | _ \<Rightarrow> (21, 0, (ts, cs)))
      else if stmt_sql st = insert_target then
        (case stmt_binds st of
           [(_, Text name)] \<Rightarrow> (sqlite_done, 0, (ts @ [(1 + foldr max (map fst ts) 0, name)], cs))
         | _ \<Rightarrow> (21, 0, (ts, cs)))
      else if stmt_sql st = insert_clock then
        (case stmt_binds st of
           [(_, Integer t), (_, Integer s), (_, Integer n)] \<Rightarrow> (sqlite_done, 0, (ts, cs @ [(t, s, n)]))
         | _ \<Rightarrow> (21, 0, (ts, cs)))
      else (sqlite_done, 0, (ts, cs)))"

lemma foldr_max_bound: "x \<in> set xs \<Longrightarrow> x \<le> foldr max xs (0::int)" "0 \<le> foldr max xs (0::int)"
  by (induction xs) auto

interpretation mem: sqlite_engine mem_step fst snd
proof -
  have ne: "select_target \<noteq> insert_target" "select_target \<noteq> insert_clock" "insert_target \<noteq> insert_clock"
    by (simp_all add: select_target_def insert_target_def insert_clock_def)
  have fresh: "1 + foldr max (map fst ts) 0 \<notin> fst ` set ts" for ts :: "(int \<times> string) list"
    using foldr_max_bound(1) [of _ "map fst ts"] by fastforce
  have sel0: "name \<notin> snd ` set ts" if "filter (\<lambda>p. snd p = name) ts = []"
    for ts :: "(int \<times> string) list" and name
    using that by (auto simp: filter_empty_conv)
  have sel1: "name \<in> snd ` set ts \<and> (fst p, name) \<in> set ts" if "filter (\<lambda>p. snd p = name) ts = p # ps"
    for ts :: "(int \<times> string) list" and name p ps
    using arg_cong [OF that, of set] by force
  show "sqlite_engine mem_step fst snd"
  proof
    fix db db' :: mem_db and name rc col
    assume st: "mem_step \<lparr>stmt_sql = select_target, stmt_binds = [(1, Text name)]\<rparr> db = (rc, col, db')"
    obtain ts cs where db: "db = (ts, cs)" by (cases db)
    have r: "db' = db \<and> (if name \<in> snd ` set ts then rc = sqlite_row \<and> (col, name) \<in> set ts else rc = sqlite_done)"
    proof (cases "filter (\<lambda>p. snd p = name) ts")
      case Nil
      with sel0 [OF Nil] db st show ?thesis by simp
    next
      case (Cons p ps)
      with sel1 [OF Cons] db st show ?thesis by simp
    qed
    then show "fst db' = fst db \<and> snd db' = snd db \<and>
      (if name \<in> snd ` set (fst db) then rc = sqlite_row \<and> (col, name) \<in> set (fst db) else rc = sqlite_done)"
      using db by simp
  next
    fix db db' :: mem_db and name rc col
    assume st: "mem_step \<lparr>stmt_sql = insert_target, stmt_binds = [(1, Text name)]\<rparr> db = (rc, col, db')"
    obtain ts cs where db: "db = (ts, cs)" by (cases db)
    with st ne [symmetric] have db': "db' = (ts @ [(1 + foldr max (map fst ts) 0, name)], cs)" by simp
    have "\<exists>i. 0 < i \<and> i \<notin> fst ` set (fst db) \<and> fst db' = fst db @ [(i, name)]"
      using db db' fresh [of ts] foldr_max_bound(2) [of "map fst ts"]
      by (intro exI [of _ "1 + foldr max (map fst ts) 0"]) simp
    with db db' show "snd db' = snd db \<and> (\<exists>i. 0 < i \<and> i \<notin> fst ` set (fst db) \<and> fst db' = fst db @ [(i, name)])" by simp
  next
    fix db db' :: mem_db and t s n rc col
    assume "mem_step \<lparr>stmt_sql = insert_clock,
            stmt_binds = [(1, Integer t), (2, Integer s), (3, Integer n)]\<rparr> db = (rc, col, db')"
    then show "fst db' = fst db \<and> snd db' = snd db @ [(t, s, n)]"
      using ne by (cases db) auto
  qed
qed

section \<open>Sequences of log operations\<close>

text \<open>
  What a client makes of the module: \<open>logtime_set_start\<close> and \<open>logtime_set_record\<close> calls in some
  order, each with the reading of the clock it gets. The reference keeps a map from names to
  departure times and lists the round trips: name and elapsed nanoseconds.
\<close>

datatype log_op = Start timespec string | Record timespec string

fun log_time :: "log_op \<Rightarrow> timespec" where
  "log_time (Start t n) = t"
| "log_time (Record t n) = t"

fun log_name :: "log_op \<Rightarrow> string" where
  "log_name (Start t n) = n"
| "log_name (Record t n) = n"

fun log_step :: "'db step \<Rightarrow> log_op \<Rightarrow> named_clock list \<times> 'db \<Rightarrow> (named_clock list \<times> 'db) outcome" where
  "log_step step (Start t n) (cs, db) = obind (logtime_set_start True t n cs) (\<lambda>cs'. Ok (cs', db))"
| "log_step step (Record t n) (cs, db) =
     (case logtime_set_record step t n cs db of Inl msg \<Rightarrow> Ok (cs, db) | Inr db' \<Rightarrow> Ok (cs, db'))"

fun round_trips :: "log_op list \<Rightarrow> (string \<Rightarrow> timespec option) \<Rightarrow> (string \<times> int) list" where
  "round_trips [] m = []"
| "round_trips (Start t n # ops) m = round_trips ops (m(n \<mapsto> t))"
| "round_trips (Record t n # ops) m =
     (case m n of None \<Rightarrow> round_trips ops m | Some d \<Rightarrow> (n, nanos t - nanos d) # round_trips ops m)"

text \<open>The row for a round trip: an id of the name, whole seconds (cut to 32 bits) and the rest.\<close>

definition row_of :: "(int \<times> string) list \<Rightarrow> int \<times> int \<times> int \<Rightarrow> string \<times> int \<Rightarrow> bool" where
  "row_of ts r p \<longleftrightarrow>
     (case (r, p) of ((i, s, ns), (n, d)) \<Rightarrow>
        (i, n) \<in> set ts \<and> s = wrap32 (d div 1000000000) \<and> ns = d mod 1000000000)"

lemma row_of_mono: "set ts \<subseteq> set ts' \<Longrightarrow> row_of ts r p \<Longrightarrow> row_of ts' r p"
  by (auto simp: row_of_def split: prod.splits)

definition clocks_ok :: "named_clock list \<Rightarrow> bool" where
  "clocks_ok cs \<longleftrightarrow> (\<forall>c \<in> set cs. clock_reading (departure c))"

lemma clocks_ok_start:
  "clocks_ok cs \<Longrightarrow> clock_reading t \<Longrightarrow> logtime_set_start True t n cs = Ok cs' \<Longrightarrow> clocks_ok cs'"
proof -
  have "clocks_ok cs \<Longrightarrow> clock_reading t \<Longrightarrow> clocks_ok (set_departure n t cs)"
    by (induction cs) (auto simp: clocks_ok_def)
  then show "clocks_ok cs \<Longrightarrow> clock_reading t \<Longrightarrow> logtime_set_start True t n cs = Ok cs' \<Longrightarrow> clocks_ok cs'"
    by (auto simp: logtime_set_start_def clocks_ok_def obind_Ok_iff split: option.splits)
qed

lemma wrap32_nanos: "0 \<le> n \<Longrightarrow> n < 1000000000 \<Longrightarrow> wrap32 n = n"
  by (rule wrap32_id) (simp add: int32_def)

context sqlite_engine
begin

lemma record_row:
  assumes "targets_ok (tgt db)"
    and "get_named_clock n cs = Some c" and "clock_reading (departure c)" and "clock_reading t"
  shows "\<exists>db' r. logtime_set_record step t n cs db = Inr db' \<and> targets_ok (tgt db') \<and>
    set (tgt db) \<subseteq> set (tgt db') \<and> clk db' = clk db @ [r] \<and> row_of (tgt db') r (n, nanos t - nanos (departure c))"
proof -
  let ?d = "timespec_diff (departure c) t"
  obtain i where i: "(i, n) \<in> set (tgt (execute_insert_query step n ?d db))"
    "targets_ok (tgt (execute_insert_query step n ?d db))"
    "tgt (execute_insert_query step n ?d db) =
      (if n \<in> snd ` set (tgt db) then tgt db else tgt db @ [(i, n)])"
    "clk (execute_insert_query step n ?d db) = clk db @ [(i, wrap32 (tv_sec ?d), wrap32 (tv_nsec ?d))]"
    using execute_insert_query_correct [OF assms(1)] by blast
  have "wrap32 (tv_nsec ?d) = tv_nsec ?d"
    using timespec_diff_normal [OF assms(3,4)] by (simp add: wrap32_nanos)
  then have "row_of (tgt (execute_insert_query step n ?d db))
      (i, wrap32 (tv_sec ?d), wrap32 (tv_nsec ?d)) (n, nanos t - nanos (departure c))"
    using i(1) timespec_diff_divmod [OF assms(3,4)] by (simp add: row_of_def)
  with i assms(2) show ?thesis by (auto simp: logtime_set_record_def)
qed

lemma log_run_refines:
  assumes "targets_ok (tgt db)" and "clocks_ok cs"
    and "\<forall>p \<in> set ops. clock_reading (log_time p) \<and> length (log_name p) < 256"
  shows "\<exists>cs' db' rows. run_steps (log_step step) ops (cs, db) = Ok (cs', db') \<and>
    targets_ok (tgt db') \<and> set (tgt db) \<subseteq> set (tgt db') \<and>
    clk db' = clk db @ rows \<and> list_all2 (row_of (tgt db')) rows (round_trips ops (clock_map cs))"
  using assms
proof (induction ops arbitrary: cs db)
  case Nil
  then show ?case by auto
next
  case (Cons p ops)
  show ?case
  proof (cases p)
    case (Start t n)
    then obtain cs1 where cs1: "logtime_set_start True t n cs = Ok cs1" "clock_map cs1 = (clock_map cs)(n \<mapsto> t)"
      using set_start_correct [of n t cs] Cons.prems(3) by auto
    have "clocks_ok cs1" using clocks_ok_start [OF _ _ cs1(1)] Cons.prems Start by simp
    from Cons.IH [OF Cons.prems(1) this] Cons.prems(3) show ?thesis
      by (simp add: Start cs1(1) flip: cs1(2))
  next
    case (Record t n)
    show ?thesis
    proof (cases "get_named_clock n cs")
      case None
      with Cons.IH [OF Cons.prems(1,2)] Cons.prems(3) Record show ?thesis
        by (simp add: logtime_set_record_def clock_map_def)
    next
      case (Some c)
      have t: "clock_reading t" using Cons.prems(3) Record by simp
      have "clock_reading (departure c)"
        using nc.find_name [OF Some] Cons.prems(2) by (simp add: clocks_ok_def)
      then obtain db1 r where db1: "logtime_set_record step t n cs db = Inr db1" "targets_ok (tgt db1)"
        "set (tgt db) \<subseteq> set (tgt db1)" "clk db1 = clk db @ [r]"
        "row_of (tgt db1) r (n, nanos t - nanos (departure c))"
        using record_row [OF Cons.prems(1) Some _ t] by blast
      obtain cs' db' rows where run: "run_steps (log_step step) ops (cs, db1) = Ok (cs', db')"
        "targets_ok (tgt db')" "set (tgt db1) \<subseteq> set (tgt db')" "clk db' = clk db1 @ rows"
        "list_all2 (row_of (tgt db')) rows (round_trips ops (clock_map cs))"
        using Cons.IH [OF db1(2) Cons.prems(2)] Cons.prems(3) by auto
      have "list_all2 (row_of (tgt db')) (r # rows) (round_trips (p # ops) (clock_map cs))"
        using run(5) row_of_mono [OF run(3) db1(5)] Some Record by (simp add: clock_map_def)
      with run db1 Record show ?thesis by auto
    qed
  qed
qed

end

section \<open>Properties of the log\<close>

text \<open>
  The difference of two clock readings is again normalised (nanoseconds between 0 and
  999999999, also when the clock was set back) and it is exact: its value in nanoseconds is the
  difference of the two values, and it fits the fields of \<open>struct timespec\<close>.
\<close>

lemma timespec_diff_exact:
  assumes "clock_reading start" and "clock_reading stop"
  shows "let d = timespec_diff start stop in
    0 \<le> tv_nsec d \<and> tv_nsec d < 1000000000 \<and> - (2 ^ 63) \<le> tv_sec d \<and> tv_sec d < 2 ^ 63 \<and>
    nanos d = nanos stop - nanos start \<and> (0 \<le> tv_sec d \<longleftrightarrow> start \<le> stop)"
proof -
  have "0 \<le> tv_sec (timespec_diff start stop) \<longleftrightarrow> start \<le> stop"
    using timespec_diff_divmod(1) [OF assms] nanos_mono [OF assms] by (auto simp: pos_imp_zdiv_nonneg_iff)
  with timespec_diff_normal [OF assms] show ?thesis by (simp add: Let_def)
qed

lemma timespec_diff_exact_witness:
  "timespec_diff (Timespec 10 900000000) (Timespec 12 100000000) = Timespec 1 200000000 \<and>
   0 \<le> tv_sec (timespec_diff (Timespec 10 900000000) (Timespec 12 100000000))"
  using timespec_diff_exact [of "Timespec 10 900000000" "Timespec 12 100000000"]
  by (simp add: clock_reading_def timespec_diff_def Let_def)

text \<open>
  C10. Any sequence of starts and records writes to the table of clocks exactly one row per answer
  whose clock was started, in order: the id of its target, the whole seconds since the last start
  under that name and the remaining nanoseconds. Records without a start write nothing, targets are
  inserted once, and the table of targets keeps unique names and unique positive ids.
\<close>

theorem log_rows_are_round_trips:
  assumes "sqlite_engine step tgt clk" and "targets_ok (tgt db)"
    and "\<forall>p \<in> set ops. clock_reading (log_time p) \<and> length (log_name p) < 256"
  shows "\<exists>cs' db' rows. run_steps (log_step step) ops ([], db) = Ok (cs', db') \<and>
    targets_ok (tgt db') \<and> set (tgt db) \<subseteq> set (tgt db') \<and>
    clk db' = clk db @ rows \<and> list_all2 (row_of (tgt db')) rows (round_trips ops (\<lambda>_. None))"
  using sqlite_engine.log_run_refines [OF assms(1,2), of "[]" ops] assms(3)
  by (simp add: clocks_ok_def clock_map_def [abs_def])

lemma log_rows_are_round_trips_witness:
  "\<exists>cs' ts i. run_steps (log_step mem_step)
      [Start (Timespec 5 900000000) ''pi'', Record (Timespec 7 100000000) ''pi'',
       Record (Timespec 7 0) ''nas''] ([], ([], [])) = Ok (cs', (ts, [(i, 1, 200000000)])) \<and>
     (i, ''pi'') \<in> set ts"
proof -
  have "targets_ok (fst ([], []))" by (simp add: targets_ok_def)
  from log_rows_are_round_trips [OF mem.sqlite_engine_axioms this, of
      "[Start (Timespec 5 900000000) ''pi'', Record (Timespec 7 100000000) ''pi'', Record (Timespec 7 0) ''nas'']"]
  obtain cs' db' rows where r: "run_steps (log_step mem_step)
      [Start (Timespec 5 900000000) ''pi'', Record (Timespec 7 100000000) ''pi'',
       Record (Timespec 7 0) ''nas''] ([], ([], [])) = Ok (cs', db')" "snd db' = rows"
    "list_all2 (row_of (fst db')) rows [(''pi'', 1200000000)]"
    by (auto simp: clock_reading_def nanos_def)
  then obtain i s ns where "rows = [(i, s, ns)]" "row_of (fst db') (i, s, ns) (''pi'', 1200000000)"
    by (auto simp: list_all2_Cons2)
  with r show ?thesis by (cases db') (auto simp: row_of_def wrap32_def)
qed

text \<open>
  A target name of 256 bytes or more would leave the name of a new clock without a terminator
  (\<open>strncpy\<close> fills the whole array); a shorter name never does, whatever clocks exist.
\<close>

lemma set_start_terminated:
  "get_named_clock name cs = None \<Longrightarrow>
     (\<exists>cs'. logtime_set_start True now name cs = Ok cs') \<longleftrightarrow> length name < 256"
  using set_start_correct [of name now cs] set_start_long_name [of name cs now]
  by (cases "length name < 256") auto

lemma set_start_terminated_witness:
  "\<exists>cs'. logtime_set_start True (Timespec 1 0) ''pi'' [] = Ok cs'"
  using set_start_terminated [of "''pi''" "[]" "Timespec 1 0"] by simp

end
