(* ===== verification/Monitor.thy ===== *)
theory Monitor
  imports Telegram Logtime "HOL-Library.Word"
begin

text \<open>
  src/src/monitor.c: the program that asks each target for a sign of life at every poll interval,
  tells the user through Telegram when one goes down or comes up, and logs the round trips. libevent runs
  the handlers of its events one at a time, in the order in which it finds them ready; the handler of the stop signals is here an
  event as well, which comes while libevent waits, and \<open>Signals\<close> lets it cut the other handlers and itself. What
  the system and the libraries return while a handler runs is the \<open>env\<close> of its event.
\<close>

section \<open>State\<close>

record target =
  host :: string
  target_port :: string
  target_name :: string
  isonline :: bool

text \<open>The IPv4 address and the port of a \<open>struct sockaddr_in\<close>.\<close>

record sockaddr_in =
  sin_addr :: "32 word"
  sin_port :: "16 word"

text \<open>
  The calls made on the timers of the targets, which are named by the index of the target in the
  array; the interval is in seconds.
\<close>

datatype timer = Poll_Timer nat | Err_Timer nat
datatype timer_call = Evtimer_Add timer int | Evtimer_Del timer

text \<open>
  The globals, the state of the three modules the program uses, and what it did so far:
  timer calls, datagrams sent, and lines written to the two output streams. \<open>exit_code\<close> is set by
  \<open>exit\<close>, after which nothing runs. Of the two intervals that \<open>init\<close> takes over from the configuration for the
  timers (\<open>poll_tv\<close>, \<open>err_tv\<close>) the state holds the seconds; the microseconds are zero.
\<close>

record 'db monitor =
  targets :: "target list"
  store :: argparse
  tele :: telegram
  clocks :: "named_clock list"
  database :: 'db
  poll_tv :: int
  err_tv :: int
  timers :: "timer_call list"
  datagrams :: "(sockaddr_in \<times> string) list"
  outs :: "string list"
  errs :: "string list"
  exit_code :: "int option"

text \<open>Variables of the configuration reader's store that belong to this file.\<close>

definition myname :: nat where "myname = 1"
definition poll_interval :: nat where "poll_interval = 1"
definition err_interval :: nat where "err_interval = 2"
definition target_list :: nat where "target_list = 0"

definition bip_message :: string where "bip_message = ''bip?''"

text \<open>
  \<open>getaddrinfo\<close> gives an error code or the first address; \<open>recvfrom\<close> fails (None) or takes one
  datagram with its sender.
\<close>

record env =
  getaddrinfo :: "string \<Rightarrow> string \<Rightarrow> int + sockaddr_in"
  sendto_ok :: bool
  recvfrom :: "(char list \<times> sockaddr_in) option"
  clock_now :: timespec
  realloc_ok :: bool
  curl_env :: curl

section \<open>Telling the user\<close>

text \<open>\<open>die\<close> prints with its own uninitialised \<open>va_list\<close> for argument, whatever it was given.\<close>

definition monitor_die :: "int \<Rightarrow> string \<Rightarrow> 'db monitor \<Rightarrow> 'db monitor outcome" where
  "monitor_die code fmt s =
     (if CHR ''%'' \<in> set fmt then UB Format_Args else Ok (s\<lparr>errs := errs s @ [fmt], exit_code := Some code\<rparr>))"

definition unless_exited :: "('db monitor \<Rightarrow> 'db monitor outcome) \<Rightarrow> 'db monitor \<Rightarrow> 'db monitor outcome" where
  "unless_exited f s = (if exit_code s = None then f s else Ok s)"

definition notify :: "string \<Rightarrow> env \<Rightarrow> 'db monitor \<Rightarrow> 'db monitor outcome" where
  "notify buffer e s =
     obind (telegram_send_message buffer (store s) (curl_env e) (tele s))
       (\<lambda>(r, t). Ok (s\<lparr>tele := t, exit_code := (case r of Exited n \<Rightarrow> Some n | Returned _ \<Rightarrow> exit_code s)\<rparr>))"

text \<open>The text of a notice: \<open>myname\<close>, the target and what happened to it.\<close>

definition notice :: "string \<Rightarrow> string \<Rightarrow> string \<Rightarrow> string" where
  "notice me nm what = me @ '': Host '' @ nm @ '' is '' @ what @ ''!''"

text \<open>The line on standard output is whole, the message is cut to 255 bytes.\<close>

definition announce :: "nat \<Rightarrow> string \<Rightarrow> env \<Rightarrow> 'db monitor \<Rightarrow> 'db monitor outcome" where
  "announce i what e s =
     (case strs (store s) myname of
        None \<Rightarrow> UB Null_Deref
      | Some me \<Rightarrow>
          (let text = notice me (target_name (targets s ! i)) what in
           notify (snprintf_into 256 text) e (s\<lparr>outs := outs s @ [text]\<rparr>)))"

definition set_online :: "nat \<Rightarrow> bool \<Rightarrow> 'db monitor \<Rightarrow> 'db monitor" where
  "set_online i b s = s\<lparr>targets := (targets s)[i := (targets s ! i)\<lparr>isonline := b\<rparr>]\<rparr>"

definition stop_text :: "string \<Rightarrow> string" where "stop_text me = ''Stopping monitor on '' @ me"
definition start_text :: "string \<Rightarrow> string" where "start_text me = ''Starting monitor on '' @ me"

text \<open>\<open>logtime_close\<close> only closes the database.\<close>

definition handle_signal :: "env \<Rightarrow> 'db monitor \<Rightarrow> 'db monitor outcome" where
  "handle_signal e s =
     (case strs (store s) myname of
        None \<Rightarrow> UB Null_Deref
      | Some me \<Rightarrow>
          obind (notify (snprintf_into 256 (stop_text me)) e s)
            (unless_exited (\<lambda>s1. Ok (s1\<lparr>exit_code := Some 0\<rparr>))))"

section \<open>Finding targets\<close>

definition lookup_target :: "string \<Rightarrow> string \<Rightarrow> env \<Rightarrow> (int + sockaddr_in) \<times> string list" where
  "lookup_target h p e =
     (case getaddrinfo e h p of
        Inl code \<Rightarrow> (Inl (- 1), [''Error '' @ show_int code @ '' resolving host''])
      | Inr a \<Rightarrow> (Inr a, []))"

text \<open>
  The first target whose address is the client's, as an index; a target that cannot be resolved
  keeps the zeroed address. The strings are what the lookups report.
\<close>

fun find_target :: "env \<Rightarrow> sockaddr_in \<Rightarrow> nat \<Rightarrow> target list \<Rightarrow> nat option \<times> string list" where
  "find_target e client i [] = (None, [])"
| "find_target e client i (t # ts) =
     (case lookup_target (host t) (target_port t) e of
        (r, msgs) \<Rightarrow>
          (let resolved = (case r of Inl _ \<Rightarrow> \<lparr>sin_addr = 0, sin_port = 0\<rparr> | Inr a \<Rightarrow> a) in
           if sin_addr client = sin_addr resolved \<and> sin_port client = sin_port resolved then (Some i, msgs)
           else (case find_target e client (Suc i) ts of (j, msgs') \<Rightarrow> (j, msgs @ msgs'))))"

definition get_target :: "env \<Rightarrow> sockaddr_in \<Rightarrow> target list \<Rightarrow> nat option \<times> string list" where
  "get_target e client ts = find_target e client 0 ts"

section \<open>Handlers\<close>

definition send_bip :: "nat \<Rightarrow> env \<Rightarrow> 'db monitor \<Rightarrow> 'db monitor outcome" where
  "send_bip i e s =
     (let t = targets s ! i in
      case lookup_target (host t) (target_port t) e of
        (Inl _, msgs) \<Rightarrow> Ok (s\<lparr>errs := errs s @ msgs @ [''Lookup error!'']\<rparr>)
      | (Inr a, msgs) \<Rightarrow>
          if \<not> sendto_ok e then Ok (s\<lparr>errs := errs s @ msgs @ [''Error sending'']\<rparr>)
          else
            obind (logtime_set_start (realloc_ok e) (clock_now e) (target_name t) (clocks s))
              (\<lambda>cs. Ok (s\<lparr>clocks := cs, datagrams := datagrams s @ [(a, bip_message)], errs := errs s @ msgs,
                          outs := outs s @ [''Sending to '' @ target_name t @ '': '' @ bip_message]\<rparr>)))"

definition handle_poll_event :: "nat \<Rightarrow> env \<Rightarrow> 'db monitor \<Rightarrow> 'db monitor outcome" where
  "handle_poll_event i e s = send_bip i e s"

definition handle_err_event :: "nat \<Rightarrow> env \<Rightarrow> 'db monitor \<Rightarrow> 'db monitor outcome" where
  "handle_err_event i e s =
     (if isonline (targets s ! i) then announce i ''down'' e (set_online i False s) else Ok s)"

definition reset_error_timer :: "nat \<Rightarrow> env \<Rightarrow> 'db monitor \<Rightarrow> 'db monitor outcome" where
  "reset_error_timer i e s =
     obind (if \<not> isonline (targets s ! i) then announce i ''up'' e s else Ok s)
       (unless_exited (\<lambda>s1.
          (let s2 = set_online i True s1
           in Ok (s2\<lparr>timers := timers s2 @
                [Evtimer_Del (Err_Timer i), Evtimer_Add (Err_Timer i) (err_tv s2)]\<rparr>))))"

definition record_answer :: "'db step \<Rightarrow> nat \<Rightarrow> env \<Rightarrow> 'db monitor \<Rightarrow> 'db monitor" where
  "record_answer step i e s =
     (case logtime_set_record step (clock_now e) (target_name (targets s ! i)) (clocks s) (database s) of
        Inl msg \<Rightarrow> s\<lparr>errs := errs s @ [msg]\<rparr>
      | Inr db \<Rightarrow> s\<lparr>database := db\<rparr>)"

text \<open>
  \<open>recvfrom\<close> fills at most the 128 bytes of the buffer, and the zero byte is written at
  \<open>buffer[count]\<close> before \<open>count\<close> is looked at: a failed call writes in front of the buffer.
\<close>

definition handle_answer :: "'db step \<Rightarrow> env \<Rightarrow> 'db monitor \<Rightarrow> 'db monitor outcome" where
  "handle_answer step e s =
     (case recvfrom e of
        None \<Rightarrow> UB Buffer_Overflow
      | Some (bytes, client) \<Rightarrow>
          (let buffer = take 128 bytes in
           if length buffer \<ge> 128 then UB Buffer_Overflow
           else
             (case get_target e client (targets s) of
                (None, msgs) \<Rightarrow> Ok (s\<lparr>errs := errs s @ msgs\<rparr>)
              | (Some i, msgs) \<Rightarrow>
                  obind (reset_error_timer i e
                          (s\<lparr>errs := errs s @ msgs,
                             outs := outs s @ [''Received from '' @ target_name (targets s ! i) @ '': '' @ cstr buffer]\<rparr>))
                    (unless_exited (\<lambda>s1. Ok (record_answer step i e s1))))))"

definition handle_connection :: "'db step \<Rightarrow> env \<Rightarrow> 'db monitor \<Rightarrow> 'db monitor outcome" where
  "handle_connection step e s = handle_answer step e s"

section \<open>Start-up\<close>

text \<open>A \<open>malloc\<close> whose result is written through unchecked.\<close>

definition unchecked_malloc :: "argparse \<Rightarrow> argparse outcome" where
  "unchecked_malloc st = (case alloc st of (None, _) \<Rightarrow> UB Null_Deref | (Some _, st1) \<Rightarrow> Ok st1)"

text \<open>
  The body of the loop over the configured targets, after the array has grown: the definition is split at
  its first and its last colon, and the parts are copied with \<open>strncpy\<close> into memory of just their
  size. The length of the middle part is a difference of pointers, which is -1 when the two colons
  are one.
\<close>

definition parse_target :: "string \<Rightarrow> argparse \<Rightarrow> (target \<times> argparse) outcome" where
  "parse_target v st =
     (case (strchr v (CHR '':''), strrchr v (CHR '':'')) of
        (Some firstcolon, Some lastcolon) \<Rightarrow>
          obind (unchecked_malloc st)
            (\<lambda>st1. obind (strncpy_into (firstcolon + 1) v (int firstcolon))
               (\<lambda>nm. obind (unchecked_malloc st1)
                  (\<lambda>st2. obind (strncpy_into (lastcolon - firstcolon + 1) (drop (firstcolon + 1) v)
                                 (int lastcolon - int firstcolon - 1))
                     (\<lambda>h. obind (unchecked_malloc st2)
                        (\<lambda>st3. obind (strncpy_into (length v - lastcolon + 1) (drop (lastcolon + 1) v)
                                       (int (length v) - int lastcolon))
                           (\<lambda>p. Ok (\<lparr>host = h, target_port = p, target_name = nm, isonline = False\<rparr>, st3)))))))
      | _ \<Rightarrow> UB Format_Args)"

text \<open>The walk over the cells of the list.\<close>

fun create_targets_loop :: "nat \<Rightarrow> nat option \<Rightarrow> 'db monitor \<Rightarrow> 'db monitor outcome" where
  "create_targets_loop fuel None s = Ok s"
| "create_targets_loop 0 (Some a) s = UB Endless_Loop"
| "create_targets_loop (Suc fuel) (Some a) s =
     (case cells (store s) a of
        None \<Rightarrow> UB Use_After_Free
      | Some c \<Rightarrow>
          (case alloc (store s) of
             (None, st) \<Rightarrow> monitor_die 12 ''Error reallocating targets'' (s\<lparr>store := st\<rparr>)
           | (Some _, st) \<Rightarrow>
               obind (parse_target (cell_value c) st)
                 (\<lambda>(t, st1). create_targets_loop fuel (cell_next c) (s\<lparr>store := st1, targets := targets s @ [t]\<rparr>))))"

text \<open>What the calls of the start-up return: the configuration file, the socket and \<open>bind\<close>.\<close>

record start_env =
  conf_file :: "int + char list"
  udp_socket :: int
  bind_ok :: bool

definition register_all :: "argparse \<Rightarrow> argparse outcome" where
  "register_all a =
     obind (argparse_register_argument_strlst ''target'' target_list (a\<lparr>heads := (heads a)(target_list := None)\<rparr>))
       (\<lambda>a1. obind (argparse_register_argument_str_def ''myname'' myname ''myself'' a1)
          (\<lambda>a2. obind (argparse_register_argument_int ''poll_interval'' poll_interval a2)
             (argparse_register_argument_int ''err_interval'' err_interval)))"

text \<open>The variable \<open>list\<close> is local to \<open>init\<close> and ends with it.\<close>

definition monitor_init :: "client \<Rightarrow> start_env \<Rightarrow> 'db monitor \<Rightarrow> 'db monitor outcome" where
  "monitor_init client e s =
     obind (register_all (store s))
       (\<lambda>a. obind (argparse_read_properties client (conf_file e) a)
          (\<lambda>a1. obind (create_targets_loop (brk a1) (heads a1 target_list) (s\<lparr>store := a1\<rparr>))
             (unless_exited (\<lambda>s1.
                obind (free_list_cell (brk a1) (heads a1 target_list) (cells (store s1)))
                  (\<lambda>h. let s2 = s1\<lparr>store := (store s1)\<lparr>cells := h, heads := (heads (store s1))(target_list := None)\<rparr>,
                                  poll_tv := ints (store s1) poll_interval, err_tv := ints (store s1) err_interval\<rparr> in
                     if udp_socket e < 0 then monitor_die (- 1) ''Error creating UDP socket'' s2
                     else if \<not> bind_ok e then monitor_die (- 1) ''Cannot bind UDP socket, error: %d'' s2
                     else Ok s2)))))"

text \<open>
  The timers \<open>main\<close> starts for each target. Both events are persistent: each fires again after its
  interval until it is deleted.
\<close>

definition start_timers :: "'db monitor \<Rightarrow> 'db monitor" where
  "start_timers s =
     s\<lparr>timers := timers s @ concat (map (\<lambda>i.
         [Evtimer_Add (Poll_Timer i) (poll_tv s), Evtimer_Add (Err_Timer i) (err_tv s)]) [0..<length (targets s)])\<rparr>"

text \<open>\<open>main\<close> up to its event loop; the result of \<open>telegram_init\<close> is not used.\<close>

definition monitor_start ::
    "client \<Rightarrow> (string \<Rightarrow> 'db) \<Rightarrow> 'db step \<Rightarrow> start_env \<Rightarrow> int + char list \<Rightarrow> curl \<Rightarrow> env \<Rightarrow> 'db monitor \<Rightarrow> 'db monitor outcome" where
  "monitor_start client sqlite3_open step se telegram_file c e s =
     obind (monitor_init client se s)
       (unless_exited (\<lambda>s1.
          obind (telegram_init client telegram_file c (store s1) (tele s1))
            (\<lambda>(r, a, t).
               let s2 = s1\<lparr>database := logtime_init sqlite3_open step, store := a, tele := t,
                           exit_code := (case r of Exited n \<Rightarrow> Some n | Returned _ \<Rightarrow> None)\<rparr>
               in unless_exited (\<lambda>s3.
                    (case strs (store s3) myname of
                       None \<Rightarrow> UB Null_Deref
                     | Some me \<Rightarrow> notify (snprintf_into 256 (start_text me)) e (start_timers s3))) s2)))"

section \<open>The event loop\<close>

datatype event = Poll_Event nat env | Err_Event nat env | Answer_Event env | Signal_Event env

fun handle_event :: "'db step \<Rightarrow> event \<Rightarrow> 'db monitor \<Rightarrow> 'db monitor outcome" where
  "handle_event step (Poll_Event i e) s = handle_poll_event i e s"
| "handle_event step (Err_Event i e) s = handle_err_event i e s"
| "handle_event step (Answer_Event e) s = handle_connection step e s"
| "handle_event step (Signal_Event e) s = handle_signal e s"

text \<open>
  \<open>event_base_dispatch\<close>: libevent runs the handler of one ready event after another, until the
  process exits. Any order of events is possible.
\<close>

inductive dispatch :: "'db step \<Rightarrow> 'db monitor \<Rightarrow> event list \<Rightarrow> 'db monitor \<Rightarrow> bool" for step where
  idle: "dispatch step s [] s"
| turn: "exit_code s = None \<Longrightarrow> handle_event step ev s = Ok s1 \<Longrightarrow> dispatch step s1 evs s2 \<Longrightarrow>
         dispatch step s (ev # evs) s2"

inductive_cases dispatch_NilE: "dispatch step s [] s2"
inductive_cases dispatch_ConsE: "dispatch step s (ev # evs) s2"
inductive_simps dispatch_simps: "dispatch step s [] s2" "dispatch step s (ev # evs) s2"

section \<open>Target definitions\<close>

lemma malloc_ok: "mem st = (\<lambda>_. True) \<Longrightarrow> unchecked_malloc st = Ok (st\<lparr>brk := Suc (brk st)\<rparr>)"
  by (simp add: unchecked_malloc_def alloc_def)

lemma strncpy_padded:
  assumes "length src < sz" and "sz \<le> 2 ^ 63"
  shows "strncpy_into (Suc sz) src (int sz) = Ok src"
proof -
  have "size_t (int sz) = sz" using assms(2) by (simp add: size_t_def)
  then show ?thesis using assms(1) by (simp add: strncpy_into_def)
qed

lemma parse_target_two:
  assumes "CHR '':'' \<notin> set nm" and "CHR '':'' \<notin> set p" and "length (nm @ CHR '':'' # h @ CHR '':'' # p) < 2 ^ 62"
    and "mem st = (\<lambda>_. True)"
  shows "parse_target (nm @ CHR '':'' # h @ CHR '':'' # p) st =
    Ok (\<lparr>host = h, target_port = p, target_name = nm, isonline = False\<rparr>, st\<lparr>brk := brk st + 3\<rparr>)"
proof -
  let ?v = "nm @ CHR '':'' # h @ CHR '':'' # p"
  let ?l = "Suc (length nm + length h)"
  have f: "strchr ?v (CHR '':'') = Some (length nm)" using assms(1) by (simp add: strchr_append_hit)
  have "strrchr ((nm @ CHR '':'' # h) @ CHR '':'' # p) (CHR '':'') = Some (length (nm @ CHR '':'' # h))"
    by (rule strrchr_append_hit [OF assms(2)])
  then have l: "strrchr ?v (CHR '':'') = Some ?l" by simp
  have c1: "strncpy_into (length nm + 1) ?v (int (length nm)) = Ok nm"
    using strncpy_into_Ok [of "int (length nm)" "length nm + 1" ?v] assms(3) by simp
  have "strncpy_into (?l - length nm + 1) (h @ CHR '':'' # p) (int (length h)) = Ok h"
    using strncpy_into_Ok [of "int (length h)" "?l - length nm + 1" "h @ CHR '':'' # p"] assms(3) by simp
  then have c2: "strncpy_into (?l - length nm + 1) (drop (length nm + 1) ?v) (int ?l - int (length nm) - 1) = Ok h"
    by simp
  have "strncpy_into (Suc (Suc (length p))) p (int (Suc (length p))) = Ok p"
    using assms(3) by (intro strncpy_padded) simp_all
  then have c3: "strncpy_into (length ?v - ?l + 1) (drop (?l + 1) ?v) (int (length ?v) - int ?l) = Ok p" by simp
  show ?thesis
    unfolding parse_target_def f l prod.case option.case
    using c1 c2 c3 assms(4) by (simp add: malloc_ok numeral_3_eq_3)
qed

lemma parse_target_one:
  assumes "CHR '':'' \<notin> set nm" and "CHR '':'' \<notin> set p" and "mem st = (\<lambda>_. True)" and "length nm < 2 ^ 62"
  shows "parse_target (nm @ CHR '':'' # p) st = UB Buffer_Overflow"
proof -
  let ?v = "nm @ CHR '':'' # p"
  have f: "strchr ?v (CHR '':'') = Some (length nm)" using assms(1) by (simp add: strchr_append_hit)
  have l: "strrchr ?v (CHR '':'') = Some (length nm)" using assms(2) by (simp add: strrchr_append_hit)
  have c1: "strncpy_into (length nm + 1) ?v (int (length nm)) = Ok nm"
    using strncpy_into_Ok [of "int (length nm)" "length nm + 1" ?v] assms(4) by simp
  have c2: "strncpy_into (length nm - length nm + 1) (drop (length nm + 1) ?v) (int (length nm) - int (length nm) - 1) =
      UB Buffer_Overflow"
    using strncpy_into_negative [of "- 1" 1 "drop (length nm + 1) ?v"] by simp
  show ?thesis
    unfolding parse_target_def f l prod.case option.case
    using c1 c2 assms(3) by (simp add: malloc_ok)
qed

text \<open>
  C36. A target definition \<open>name:host:port\<close>, where only the host may contain colons, is read back
  into exactly its three parts; a definition without a colon ends in a \<open>printf\<close> with a wrong
  argument, and one with a single colon (which the check for colons lets pass) in a \<open>strncpy\<close> of
  length -1. These are all definitions there are.
\<close>

theorem target_definitions:
  assumes "mem st = (\<lambda>_. True)" and "length v < 2 ^ 62"
  shows "(CHR '':'' \<notin> set v \<and> parse_target v st = UB Format_Args) \<or>
    (\<exists>nm p. v = nm @ CHR '':'' # p \<and> CHR '':'' \<notin> set nm \<and> CHR '':'' \<notin> set p \<and> parse_target v st = UB Buffer_Overflow) \<or>
    (\<exists>nm h p. v = nm @ CHR '':'' # h @ CHR '':'' # p \<and> CHR '':'' \<notin> set nm \<and> CHR '':'' \<notin> set p \<and>
       parse_target v st = Ok (\<lparr>host = h, target_port = p, target_name = nm, isonline = False\<rparr>, st\<lparr>brk := brk st + 3\<rparr>))"
proof (cases "CHR '':'' \<in> set v")
  case False
  then have "strchr v (CHR '':'') = None" by (simp add: strchr_None_iff)
  then show ?thesis using False by (simp add: parse_target_def)
next
  case True
  then obtain nm r where v: "v = nm @ CHR '':'' # r" "CHR '':'' \<notin> set nm" by (meson split_list_first)
  show ?thesis
  proof (cases "CHR '':'' \<in> set r")
    case False
    then show ?thesis using v parse_target_one [of nm r st] assms by auto
  next
    case True
    then obtain h p where "r = h @ CHR '':'' # p" "CHR '':'' \<notin> set p" by (meson split_list_last)
    then show ?thesis using v parse_target_two [of nm p h st] assms by auto
  qed
qed

lemma target_definitions_witness:
  "parse_target ''nas:10.0.0.2:48807'' (start_state (\<lambda>_. True)) =
     Ok (\<lparr>host = ''10.0.0.2'', target_port = ''48807'', target_name = ''nas'', isonline = False\<rparr>,
         (start_state (\<lambda>_. True))\<lparr>brk := 3\<rparr>) \<and>
   parse_target ''nas:10.0.0.2'' (start_state (\<lambda>_. True)) = UB Buffer_Overflow"
proof -
  have m: "mem (start_state (\<lambda>_. True)) = (\<lambda>_. True)" "brk (start_state (\<lambda>_. True)) = 0" by (simp_all add: start_state_def)
  have "parse_target ''nas:10.0.0.2'' (start_state (\<lambda>_. True)) = UB Buffer_Overflow"
    using target_definitions [OF m(1), of "''nas:10.0.0.2''"]
    by (auto simp: Cons_eq_append_conv)
  moreover have "parse_target ''nas:10.0.0.2:48807'' (start_state (\<lambda>_. True)) =
     Ok (\<lparr>host = ''10.0.0.2'', target_port = ''48807'', target_name = ''nas'', isonline = False\<rparr>,
         (start_state (\<lambda>_. True))\<lparr>brk := 3\<rparr>)"
    using target_definitions [OF m(1), of "''nas:10.0.0.2:48807''"] m(2)
    by (auto simp: Cons_eq_append_conv)
  ultimately show ?thesis by simp
qed

section \<open>What the handlers mean\<close>

text \<open>
  The reference: each target is up or down. A silence (the error timer fires) takes an up target
  down, an answer takes a down target up, and each change tells the user once.
\<close>

datatype sign = Silence nat | Answered nat | Neither

fun told :: "(nat \<Rightarrow> bool) \<Rightarrow> sign list \<Rightarrow> (nat \<times> bool) list" where
  "told up [] = []"
| "told up (Silence i # es) = (if up i then (i, False) # told (up(i := False)) es else told up es)"
| "told up (Answered i # es) = (if up i then told up es else (i, True) # told (up(i := True)) es)"
| "told up (Neither # es) = told up es"

fun after :: "(nat \<Rightarrow> bool) \<Rightarrow> sign list \<Rightarrow> nat \<Rightarrow> bool" where
  "after up [] = up"
| "after up (Silence i # es) = after (up(i := False)) es"
| "after up (Answered i # es) = after (up(i := True)) es"
| "after up (Neither # es) = after up es"

fun alternating :: "bool \<Rightarrow> bool list \<Rightarrow> bool" where
  "alternating b [] \<longleftrightarrow> True"
| "alternating b (x # xs) \<longleftrightarrow> x \<noteq> b \<and> alternating x xs"

lemma told_alternates: "alternating (up i) (map snd (filter (\<lambda>p. fst p = i) (told up es)))"
proof (induction es arbitrary: up)
  case (Cons e es)
  show ?case
  proof (cases e)
    case (Silence j)
    then show ?thesis using Cons [of up] Cons [of "up(j := False)"] by (cases "up j"; cases "j = i") (simp_all add: fun_upd_def)
  next
    case (Answered j)
    then show ?thesis using Cons [of up] Cons [of "up(j := True)"] by (cases "up j"; cases "j = i") (simp_all add: fun_upd_def)
  qed (simp add: Cons)
qed simp

text \<open>What the user was last told of a target.\<close>

definition last_told :: "nat \<Rightarrow> (nat \<times> bool) list \<Rightarrow> bool \<Rightarrow> bool" where
  "last_told i ns b = fold (\<lambda>p b. if fst p = i then snd p else b) ns b"

lemma told_last: "after up es i = last_told i (told up es) (up i)"
  unfolding last_told_def
proof (induction es arbitrary: up)
  case (Cons e es)
  show ?case
  proof (cases e)
    case (Silence j)
    then show ?thesis using Cons [of up] Cons [of "up(j := False)"] by (cases "up j"; cases "j = i") (simp_all add: fun_upd_idem, simp_all add: fun_upd_def)
  next
    case (Answered j)
    then show ?thesis using Cons [of up] Cons [of "up(j := True)"] by (cases "up j"; cases "j = i") (simp_all add: fun_upd_idem, simp_all add: fun_upd_def)
  qed (simp add: Cons)
qed simp

text \<open>The concrete events as signs and as operations of the log.\<close>

fun env_of :: "event \<Rightarrow> env" where
  "env_of (Poll_Event i e) = e"
| "env_of (Err_Event i e) = e"
| "env_of (Answer_Event e) = e"
| "env_of (Signal_Event e) = e"

definition answering :: "target list \<Rightarrow> env \<Rightarrow> nat option" where
  "answering ts e = (case recvfrom e of None \<Rightarrow> None | Some (bytes, client) \<Rightarrow> fst (get_target e client ts))"

fun sign_of :: "target list \<Rightarrow> event \<Rightarrow> sign" where
  "sign_of ts (Err_Event i e) = Silence i"
| "sign_of ts (Answer_Event e) = (case answering ts e of None \<Rightarrow> Neither | Some i \<Rightarrow> Answered i)"
| "sign_of ts ev = Neither"

fun log_of :: "target list \<Rightarrow> event \<Rightarrow> log_op list" where
  "log_of ts (Poll_Event i e) =
     (if sendto_ok e \<and> (\<exists>a. getaddrinfo e (host (ts ! i)) (target_port (ts ! i)) = Inr a)
      then [Start (clock_now e) (target_name (ts ! i))] else [])"
| "log_of ts (Answer_Event e) =
     (case answering ts e of None \<Rightarrow> [] | Some i \<Rightarrow> [Record (clock_now e) (target_name (ts ! i))])"
| "log_of ts ev = []"

text \<open>What does not change about a target.\<close>

definition fixed :: "target \<Rightarrow> string \<times> string \<times> string" where
  "fixed t = (host t, target_port t, target_name t)"

lemma find_target_fixed: "map fixed ts = map fixed us \<Longrightarrow> find_target e client i ts = find_target e client i us"
proof (induction ts arbitrary: us i)
  case (Cons t ts)
  then obtain u us' where us: "us = u # us'" "fixed t = fixed u" "map fixed ts = map fixed us'" by auto
  then have h: "host t = host u" "target_port t = target_port u" by (simp_all add: fixed_def)
  have ih: "find_target e client j ts = find_target e client j us'" for j by (rule Cons.IH [OF us(3)])
  show ?case unfolding us(1) find_target.simps h ih by (rule refl)
qed simp

lemma find_target_bound: "fst (find_target e client i ts) = Some j \<Longrightarrow> i \<le> j \<and> j < i + length ts"
proof (induction e client i ts rule: find_target.induct)
  case (2 e client i t ts)
  then show ?case by (fastforce simp: Let_def split: prod.splits if_splits)
qed simp

lemma get_target_bound: "fst (get_target e client ts) = Some j \<Longrightarrow> j < length ts"
  using find_target_bound [of e client 0 ts j] by (simp add: get_target_def)

lemma answering_fixed: "map fixed ts = map fixed us \<Longrightarrow> answering ts e = answering us e"
  using find_target_fixed [of ts us e _ 0] by (auto simp: answering_def get_target_def split: option.split)

lemma answering_bound: "answering ts e = Some i \<Longrightarrow> i < length ts"
  by (auto simp: answering_def get_target_bound split: option.splits)

lemma nth_fixed: "map fixed ts = map fixed us \<Longrightarrow> i < length ts \<Longrightarrow> fixed (ts ! i) = fixed (us ! i)"
  by (metis length_map nth_map)

section \<open>Good states and benign events\<close>

text \<open>
  The state the event loop is in after a start with a complete configuration: the user can be
  told, names are C strings that fit the clocks' arrays, and the allocator does not refuse.
\<close>

definition good :: "'db monitor \<Rightarrow> bool" where
  "good s \<longleftrightarrow> exit_code s = None \<and>
     (\<exists>me. strs (store s) myname = Some me \<and> no_nul me) \<and>
     (\<exists>tk. strs (store s) telegram_token = Some tk \<and> length tk \<le> 983) \<and>
     (\<forall>t \<in> set (targets s). no_nul (target_name t) \<and> length (target_name t) < 256) \<and>
     (\<forall>n. grants (heap (tele s)) n)"

text \<open>
  libcurl works and the response of the API is not an array (a lookup in it finds or misses its
  key): Telegram documents that it answers every request with a JSON object.
\<close>

definition harmless :: "curl \<Rightarrow> bool" where
  "harmless c \<longleftrightarrow> curl_works c \<and> slist_append c \<and>
     (\<forall>g req item. response_item g c req item \<longrightarrow>
        (\<exists>i. cJSON_GetObjectItemCaseSensitive item (Some ''ok'') = Ok i))"

fun benign :: "nat \<Rightarrow> event \<Rightarrow> bool" where
  "benign n (Poll_Event i e) \<longleftrightarrow> i < n \<and> realloc_ok e \<and> clock_reading (clock_now e)"
| "benign n (Err_Event i e) \<longleftrightarrow> i < n \<and> harmless (curl_env e)"
| "benign n (Answer_Event e) \<longleftrightarrow> harmless (curl_env e) \<and> clock_reading (clock_now e) \<and>
     (\<exists>bytes a. recvfrom e = Some (bytes, a) \<and> length bytes < 128)"
| "benign n (Signal_Event e) \<longleftrightarrow> False"

definition up :: "'db monitor \<Rightarrow> nat \<Rightarrow> bool" where
  "up s i \<longleftrightarrow> i < length (targets s) \<and> isonline (targets s ! i)"

definition request_for :: "'db monitor \<Rightarrow> string \<Rightarrow> request" where
  "request_for s msg =
     \<lparr>req_url = telegram_url (the (strs (store s) telegram_token)) ''sendMessage'', req_post = True,
      req_body = Some (message_text (ints (store s) telegram_userid) msg),
      req_headers = [''Content-Type: application/json'']\<rparr>"

definition notice_request :: "'db monitor \<Rightarrow> nat \<times> bool \<Rightarrow> request" where
  "notice_request s p =
     request_for s (snprintf_into 256 (notice (the (strs (store s) myname)) (target_name (targets s ! fst p))
       (if snd p then ''up'' else ''down'')))"

lemma notify_good:
  assumes "good s" and "harmless (curl_env e)" and "no_nul msg" and "length msg < 256"
  shows "\<exists>t. notify msg e s = Ok (s\<lparr>tele := t\<rparr>) \<and> sent t = sent (tele s) @ [request_for s msg] \<and>
    live (heap t) = live (heap (tele s)) + 1 \<and> grants (heap t) = grants (heap (tele s))"
proof -
  obtain tk where tk: "strs (store s) telegram_token = Some tk" "length tk \<le> 983" using assms(1) by (auto simp: good_def)
  have c: "curl_works (curl_env e)" using assms(2) by (simp add: harmless_def)
  have g: "\<forall>n. grants (heap (tele s)) n" using assms(1) by (simp add: good_def)
  obtain item req where r: "response_item (grants (heap (tele s))) (curl_env e) req item"
    "req = message_request tk (ints (store s) telegram_userid) msg (curl_env e)"
    "case cJSON_GetObjectItemCaseSensitive item (Some ''ok'') of
       UB er \<Rightarrow> telegram_send_message msg (store s) (curl_env e) (tele s) = UB er
     | Ok _ \<Rightarrow> \<exists>t' k. telegram_send_message msg (store s) (curl_env e) (tele s) = Ok (Returned (), t') \<and>
         sent t' = sent (tele s) @ [req] \<and> grants (heap t') = grants (heap (tele s)) \<and>
         live (heap t') = live (heap (tele s)) + k \<and> (k = 0 \<or> k = 1) \<and>
         ((\<forall>n. grants (heap (tele s)) n) \<longrightarrow> k = 1)"
    using telegram_send_cases [OF tk c assms(3), of "tele s"] g assms(4) by auto
  obtain i where "cJSON_GetObjectItemCaseSensitive item (Some ''ok'') = Ok i"
    using assms(2) r(1) unfolding harmless_def by blast
  then obtain t where t: "telegram_send_message msg (store s) (curl_env e) (tele s) = Ok (Returned (), t)"
    "sent t = sent (tele s) @ [req]" "grants (heap t) = grants (heap (tele s))" "live (heap t) = live (heap (tele s)) + 1"
    using r(3) g by auto
  have "req = request_for s msg" using r(2) tk assms(2) by (simp add: request_for_def message_request_def harmless_def)
  then show ?thesis using t by (intro exI [of _ t]) (simp add: notify_def)
qed

lemma announce_good:
  assumes "good s" and "harmless (curl_env e)" and "i < length (targets s)" and "no_nul what"
  shows "\<exists>t o'. announce i what e s = Ok (s\<lparr>outs := o', tele := t\<rparr>) \<and>
    sent t = sent (tele s) @ [request_for s (snprintf_into 256
      (notice (the (strs (store s) myname)) (target_name (targets s ! i)) what))] \<and>
    live (heap t) = live (heap (tele s)) + 1 \<and> grants (heap t) = grants (heap (tele s))"
proof -
  obtain me where me: "strs (store s) myname = Some me" "no_nul me" using assms(1) by (auto simp: good_def)
  have n: "no_nul (target_name (targets s ! i))" using assms(1,3) by (simp add: good_def)
  let ?text = "notice me (target_name (targets s ! i)) what"
  let ?s = "s\<lparr>outs := outs s @ [?text]\<rparr>"
  have g: "good ?s" using assms(1) by (simp add: good_def)
  have nn: "no_nul (snprintf_into 256 ?text)" using me n assms(4) by (simp add: snprintf_into_def notice_def)
  have l: "length (snprintf_into 256 ?text) < 256" by (rule length_snprintf_into) simp
  have th: "tele ?s = tele s" by simp
  from notify_good [OF g assms(2) nn l, unfolded th] obtain t where "notify (snprintf_into 256 ?text) e ?s = Ok (?s\<lparr>tele := t\<rparr>)"
    "sent t = sent (tele s) @ [request_for ?s (snprintf_into 256 ?text)]" "live (heap t) = live (heap (tele s)) + 1"
    "grants (heap t) = grants (heap (tele s))"
    by blast
  then show ?thesis using me
    by (intro exI [of _ t] exI [of _ "outs s @ [?text]"]) (simp add: announce_def request_for_def)
qed

lemma up_set_online: "i < length (targets s) \<Longrightarrow> up (set_online i b s) = (up s)(i := b)"
  by (auto simp: up_def set_online_def fun_eq_iff nth_list_update)

lemma fixed_set_online [simp]: "map fixed (targets (set_online i b s)) = map fixed (targets s)"
  by (cases "i < length (targets s)"; rule nth_equalityI) (simp_all add: set_online_def fixed_def nth_list_update)

lemma set_online_simps [simp]:
  "exit_code (set_online i b s) = exit_code s" "store (set_online i b s) = store s" "tele (set_online i b s) = tele s"
  "clocks (set_online i b s) = clocks s" "database (set_online i b s) = database s" "timers (set_online i b s) = timers s"
  "length (targets (set_online i b s)) = length (targets s)" "err_tv (set_online i b s) = err_tv s"
  by (simp_all add: set_online_def)

lemma name_set_online [simp]: "target_name (targets (set_online i b s) ! j) = target_name (targets s ! j)"
  by (cases "i < length (targets s)") (simp_all add: set_online_def nth_list_update list_update_beyond)

lemma good_cong:
  "good s \<Longrightarrow> exit_code s' = None \<Longrightarrow> store s' = store s \<Longrightarrow> grants (heap (tele s')) = grants (heap (tele s)) \<Longrightarrow>
   map fixed (targets s') = map fixed (targets s) \<Longrightarrow> good s'"
proof -
  assume a: "good s" "exit_code s' = None" "store s' = store s" "grants (heap (tele s')) = grants (heap (tele s))"
    "map fixed (targets s') = map fixed (targets s)"
  have "\<forall>t \<in> set (targets s'). no_nul (target_name t) \<and> length (target_name t) < 256"
  proof
    fix t assume "t \<in> set (targets s')"
    then have "fixed t \<in> set (map fixed (targets s'))" by simp
    then obtain u where "u \<in> set (targets s)" "fixed t = fixed u" unfolding a(5) by auto
    then show "no_nul (target_name t) \<and> length (target_name t) < 256" using a(1) by (auto simp: good_def fixed_def)
  qed
  then show ?thesis using a by (simp add: good_def)
qed

lemma notice_request_cong:
  "store s' = store s \<Longrightarrow> map fixed (targets s') = map fixed (targets s) \<Longrightarrow> fst p < length (targets s) \<Longrightarrow>
   notice_request s' p = notice_request s p"
  using nth_fixed [of "targets s'" "targets s" "fst p"]
  by (auto simp: notice_request_def request_for_def fixed_def dest: map_eq_imp_length_eq)

text \<open>What one benign event does, against the reference.\<close>

definition step_effect :: "'db step \<Rightarrow> event \<Rightarrow> 'db monitor \<Rightarrow> 'db monitor \<Rightarrow> bool" where
  "step_effect step ev s s' \<longleftrightarrow> good s' \<and> map fixed (targets s') = map fixed (targets s) \<and> store s' = store s \<and> err_tv s' = err_tv s \<and>
     up s' = after (up s) [sign_of (targets s) ev] \<and>
     sent (tele s') = sent (tele s) @ map (notice_request s) (told (up s) [sign_of (targets s) ev]) \<and>
     live (heap (tele s')) = live (heap (tele s)) + int (length (told (up s) [sign_of (targets s) ev])) \<and>
     run_steps (log_step step) (log_of (targets s) ev) (clocks s, database s) = Ok (clocks s', database s')"

lemma poll_effect:
  assumes "good s" and "benign (length (targets s)) (Poll_Event i e)"
  shows "\<exists>s'. handle_poll_event i e s = Ok s' \<and> step_effect step (Poll_Event i e) s s'"
proof -
  let ?t = "targets s ! i"
  have n: "length (target_name ?t) < 256" using assms by (simp add: good_def)
  show ?thesis
  proof (cases "getaddrinfo e (host ?t) (target_port ?t)")
    case (Inl c)
    then show ?thesis using assms(1)
      by (auto simp: handle_poll_event_def send_bip_def lookup_target_def step_effect_def good_def up_def)
  next
    case (Inr a)
    obtain cs where cs: "logtime_set_start True (clock_now e) (target_name ?t) (clocks s) = Ok cs"
      using set_start_correct [OF n] by blast
    with Inr show ?thesis using assms
      by (cases "sendto_ok e")
        (auto simp: handle_poll_event_def send_bip_def lookup_target_def step_effect_def good_def up_def)
  qed
qed

lemma err_effect:
  assumes "good s" and "benign (length (targets s)) (Err_Event i e)"
  shows "\<exists>s'. handle_err_event i e s = Ok s' \<and> step_effect step (Err_Event i e) s s'"
proof (cases "isonline (targets s ! i)")
  case False
  moreover from this have "(up s)(i := False) = up s" by (auto simp: up_def fun_eq_iff)
  ultimately show ?thesis using assms(1)
    by (auto simp: handle_err_event_def step_effect_def up_def)
next
  case True
  have i: "i < length (targets s)" using assms(2) by simp
  let ?s = "set_online i False s"
  have g: "good ?s" using assms(1) by (rule good_cong) (use assms(1) in \<open>simp_all add: good_def\<close>)
  obtain t o' where t: "announce i ''down'' e ?s = Ok (?s\<lparr>outs := o', tele := t\<rparr>)"
    "sent t = sent (tele s) @ [notice_request s (i, False)]" "live (heap t) = live (heap (tele s)) + 1"
    "grants (heap t) = grants (heap (tele s))"
    using announce_good [OF g, of e i "''down''"] assms(2) i by (auto simp: notice_request_def request_for_def)
  let ?s' = "?s\<lparr>outs := o', tele := t\<rparr>"
  have "good ?s'" using g by (rule good_cong) (use assms(1) t in \<open>simp_all add: good_def\<close>)
  moreover have "up ?s' = (up s)(i := False)" using up_set_online [OF i, of False] by (simp add: up_def fun_eq_iff)
  moreover have "up s i" using True i by (simp add: up_def)
  ultimately show ?thesis using True t by (simp add: handle_err_event_def step_effect_def)
qed

lemma answer_effect:
  assumes "good s" and "benign (length (targets s)) (Answer_Event e)"
  shows "\<exists>s'. handle_connection step e s = Ok s' \<and> step_effect step (Answer_Event e) s s' \<and>
    (\<forall>i. answering (targets s) e = Some i \<longrightarrow> up s' i \<and>
       timers s' = timers s @ [Evtimer_Del (Err_Timer i), Evtimer_Add (Err_Timer i) (err_tv s)]) \<and>
    (answering (targets s) e = None \<longrightarrow> timers s' = timers s)"
proof -
  obtain bytes a where r: "recvfrom e = Some (bytes, a)" "length bytes < 128" using assms(2) by auto
  obtain j msgs where j: "get_target e a (targets s) = (j, msgs)" by force
  have an: "answering (targets s) e = j" using r(1) j by (simp add: answering_def)
  show ?thesis
  proof (cases j)
    case None
    then show ?thesis using assms(1) r j an
      by (auto simp: handle_connection_def handle_answer_def step_effect_def good_def up_def Let_def)
  next
    case (Some i)
    have i: "i < length (targets s)" using an Some answering_bound by blast
    define s0 where "s0 = s\<lparr>errs := errs s @ msgs,
        outs := outs s @ [''Received from '' @ target_name (targets s ! i) @ '': '' @ cstr bytes]\<rparr>"
    have f0: "targets s0 = targets s" "store s0 = store s" "tele s0 = tele s" "clocks s0 = clocks s" "database s0 = database s"
      "timers s0 = timers s" "err_tv s0 = err_tv s" "exit_code s0 = None" "up s0 = up s"
      using assms(1) by (simp_all add: s0_def good_def up_def fun_eq_iff)
    have g0: "good s0" using assms(1) by (rule good_cong) (simp_all add: f0)
    obtain s1 where s1: "(if \<not> isonline (targets s0 ! i) then announce i ''up'' e s0 else Ok s0) = Ok s1"
      "targets s1 = targets s" "store s1 = store s" "clocks s1 = clocks s" "database s1 = database s" "timers s1 = timers s"
      "err_tv s1 = err_tv s" "exit_code s1 = None" "grants (heap (tele s1)) = grants (heap (tele s))"
      "sent (tele s1) = sent (tele s) @ map (notice_request s) (told (up s) [Answered i])"
      "live (heap (tele s1)) = live (heap (tele s)) + int (length (told (up s) [Answered i]))"
    proof (cases "isonline (targets s ! i)")
      case True
      then show ?thesis using that [of s0] f0 i by (simp add: up_def)
    next
      case False
      obtain t o' where t: "announce i ''up'' e s0 = Ok (s0\<lparr>outs := o', tele := t\<rparr>)"
        "sent t = sent (tele s) @ [notice_request s (i, True)]" "live (heap t) = live (heap (tele s)) + 1"
        "grants (heap t) = grants (heap (tele s))"
        using announce_good [OF g0, of e i "''up''"] assms(2) i by (auto simp: notice_request_def request_for_def f0)
      show ?thesis using that [of "s0\<lparr>outs := o', tele := t\<rparr>"] False f0 t by (simp add: up_def)
    qed
    define s2 where "s2 = (set_online i True s1)\<lparr>timers := timers s1 @
        [Evtimer_Del (Err_Timer i), Evtimer_Add (Err_Timer i) (err_tv s1)]\<rparr>"
    have rt: "reset_error_timer i e s0 = Ok s2"
      using s1(1,8) by (simp add: reset_error_timer_def unless_exited_def s2_def)
    define s3 where "s3 = record_answer step i e s2"
    have f2: "exit_code s2 = None" "store s2 = store s" "tele s2 = tele s1" "clocks s2 = clocks s" "database s2 = database s"
      "err_tv s2 = err_tv s" "map fixed (targets s2) = map fixed (targets s)" "target_name (targets s2 ! i) = target_name (targets s ! i)"
      using s1 fixed_set_online [of i True s1] name_set_online [of i True s1 i] by (simp_all add: s2_def)
    have u2: "up s2 = (up s)(i := True)"
      using up_set_online [of i s1 True] i s1(2) by (auto simp: s2_def up_def fun_eq_iff)
    have f3: "exit_code s3 = None" "store s3 = store s" "tele s3 = tele s1" "clocks s3 = clocks s" "targets s3 = targets s2"
      "up s3 = up s2" "timers s3 = timers s2" "err_tv s3 = err_tv s2"
      "log_step step (Record (clock_now e) (target_name (targets s ! i))) (clocks s, database s) = Ok (clocks s, database s3)"
      using f2 by (auto simp: s3_def record_answer_def up_def fun_eq_iff split: sum.splits)
    have h: "handle_connection step e s = Ok s3"
      using r j Some rt f2(1) by (simp add: handle_connection_def handle_answer_def Let_def s0_def unless_exited_def s3_def)
    have "good s3" using assms(1) by (rule good_cong) (use f3 f2 s1 in simp_all)
    then have "step_effect step (Answer_Event e) s s3"
      using f3 f2(6,7) u2 s1(10,11) an Some by (simp add: step_effect_def)
    moreover have "timers s3 = timers s @ [Evtimer_Del (Err_Timer i), Evtimer_Add (Err_Timer i) (err_tv s)]"
      using f3(7) s1 by (simp add: s2_def)
    ultimately show ?thesis using h an Some f3(6) u2 by auto
  qed
qed

lemma benign_effect:
  assumes "good s" and "benign (length (targets s)) ev"
  shows "\<exists>s'. handle_event step ev s = Ok s' \<and> step_effect step ev s s'"
proof (cases ev)
  case (Poll_Event i e)
  then show ?thesis using poll_effect [OF assms(1), of i e step] assms(2) by simp
next
  case (Err_Event i e)
  then show ?thesis using err_effect [OF assms(1), of i e step] assms(2) by simp
next
  case (Answer_Event e)
  then show ?thesis using answer_effect [OF assms(1), of e step] assms(2) by auto
next
  case (Signal_Event e)
  then show ?thesis using assms(2) by simp
qed

section \<open>Runs of the event loop\<close>

lemma told_Cons: "told u (e # es) = told u [e] @ told (after u [e]) es"
  by (cases e) (auto simp: fun_upd_idem)

lemma after_Cons: "after u (e # es) = after (after u [e]) es"
  by (cases e) simp_all

lemma sign_of_fixed: "map fixed ts = map fixed us \<Longrightarrow> sign_of ts ev = sign_of us ev"
  using answering_fixed [of ts us] by (cases ev) simp_all

lemma log_of_fixed: "map fixed ts = map fixed us \<Longrightarrow> benign (length us) ev \<Longrightarrow> log_of ts ev = log_of us ev"
proof (cases ev)
  case (Poll_Event i e)
  assume a: "map fixed ts = map fixed us" "benign (length us) ev"
  then have "fixed (ts ! i) = fixed (us ! i)" using nth_fixed [OF a(1), of i] Poll_Event map_eq_imp_length_eq [OF a(1)] by simp
  then show ?thesis using Poll_Event by (simp add: fixed_def)
next
  case (Answer_Event e)
  assume a: "map fixed ts = map fixed us"
  have "i < length ts \<Longrightarrow> target_name (ts ! i) = target_name (us ! i)" for i
    using nth_fixed [OF a] by (simp add: fixed_def)
  then show ?thesis using Answer_Event answering_fixed [OF a, of e] answering_bound [of ts e]
    by (auto split: option.splits)
qed simp_all

lemma told_bound: "\<forall>i b. (i, b) \<in> set (told u es) \<longrightarrow> (Silence i \<in> set es \<or> Answered i \<in> set es)"
proof (induction es arbitrary: u)
  case (Cons e es)
  then show ?case by (cases e) (auto split: if_splits)
qed simp

lemma sign_bound:
  "benign (length ts) ev \<Longrightarrow> sign_of ts ev = Silence i \<or> sign_of ts ev = Answered i \<Longrightarrow> i < length ts"
  by (cases ev) (auto dest: answering_bound split: option.splits)

text \<open>
  Any sequence of benign events runs through, and the run is the reference's: the same targets
  are up, the user is told the same changes, and the log gets the same operations.
\<close>

definition run_effect :: "'db step \<Rightarrow> event list \<Rightarrow> 'db monitor \<Rightarrow> 'db monitor \<Rightarrow> bool" where
  "run_effect step evs s s' \<longleftrightarrow>
     (let ns = told (up s) (map (sign_of (targets s)) evs) in
      good s' \<and> map fixed (targets s') = map fixed (targets s) \<and> store s' = store s \<and>
      up s' = after (up s) (map (sign_of (targets s)) evs) \<and>
      sent (tele s') = sent (tele s) @ map (notice_request s) ns \<and>
      live (heap (tele s')) = live (heap (tele s)) + int (length ns) \<and>
      run_steps (log_step step) (concat (map (log_of (targets s)) evs)) (clocks s, database s) = Ok (clocks s', database s'))"

lemma benign_run:
  assumes "good s" and "\<forall>ev \<in> set evs. benign (length (targets s)) ev"
  shows "\<exists>s'. dispatch step s evs s' \<and> run_effect step evs s s'"
  using assms
proof (induction evs arbitrary: s)
  case Nil
  then show ?case by (intro exI [of _ s]) (simp add: dispatch.idle run_effect_def)
next
  case (Cons ev evs)
  obtain s1 where h: "handle_event step ev s = Ok s1" and e: "step_effect step ev s s1"
    using benign_effect [OF Cons.prems(1), of ev step] Cons.prems(2) by auto
  have f: "map fixed (targets s1) = map fixed (targets s)" "store s1 = store s" and g1: "good s1"
    using e by (simp_all add: step_effect_def)
  have len: "length (targets s1) = length (targets s)" using f(1) by (rule map_eq_imp_length_eq)
  obtain s2 where d: "dispatch step s1 evs s2" and r: "run_effect step evs s1 s2"
    using Cons.IH [OF g1] Cons.prems(2) len by auto
  have sg: "sign_of (targets s1) = sign_of (targets s)" using sign_of_fixed [OF f(1)] by blast
  have lg: "map (log_of (targets s1)) evs = map (log_of (targets s)) evs"
    using log_of_fixed [OF f(1)] Cons.prems(2) by simp
  define u where "u = after (up s) [sign_of (targets s) ev]"
  have u: "up s1 = u" using e by (simp add: step_effect_def u_def)
  have nr: "map (notice_request s1) (told u (map (sign_of (targets s)) evs)) =
      map (notice_request s) (told u (map (sign_of (targets s)) evs))"
  proof (rule map_cong [OF refl])
    fix p assume "p \<in> set (told u (map (sign_of (targets s)) evs))"
    then have "Silence (fst p) \<in> set (map (sign_of (targets s)) evs) \<or> Answered (fst p) \<in> set (map (sign_of (targets s)) evs)"
      using told_bound [of u "map (sign_of (targets s)) evs"] by (metis prod.collapse)
    then have "fst p < length (targets s)" using sign_bound Cons.prems(2) by fastforce
    then show "notice_request s1 p = notice_request s p" by (rule notice_request_cong [OF f(2,1)])
  qed
  have ex: "exit_code s = None" using Cons.prems(1) by (simp add: good_def)
  define sg1 where "sg1 = sign_of (targets s) ev"
  define sgs where "sgs = map (sign_of (targets s)) evs"
  have t: "told (up s) (sg1 # sgs) = told (up s) [sg1] @ told u sgs" "after (up s) (sg1 # sgs) = after u sgs"
    unfolding u_def sg1_def [symmetric] by (rule told_Cons, rule after_Cons)
  have "run_effect step (ev # evs) s s2"
    using e r f nr unfolding run_effect_def step_effect_def Let_def sg lg u list.map concat.simps
      sg1_def [symmetric] sgs_def [symmetric] t run_steps_append
    by simp
  then show ?case using dispatch.turn [OF ex h d] by blast
qed

text \<open>The loop is deterministic once the events are given.\<close>

lemma dispatch_unique: "dispatch step s evs s1 \<Longrightarrow> dispatch step s evs s2 \<Longrightarrow> s1 = s2"
proof (induction arbitrary: s2 rule: dispatch.induct)
  case (idle s)
  then show ?case by (rule dispatch_NilE) simp
next
  case (turn s ev s1 evs s2 s3)
  from turn.prems show ?case by (rule dispatch_ConsE) (use turn in auto)
qed

lemma benign_run_all:
  assumes "good s" and "\<forall>ev \<in> set evs. benign (length (targets s)) ev" and "dispatch step s evs s'"
  shows "run_effect step evs s s'"
  using benign_run [OF assms(1,2), of step] dispatch_unique [OF assms(3)] by blast

text \<open>After an exit nothing runs.\<close>

lemma dispatch_exited: "dispatch step s evs s' \<Longrightarrow> exit_code s \<noteq> None \<Longrightarrow> evs = [] \<and> s' = s"
  by (induction rule: dispatch.induct) simp_all

section \<open>Start-up on a well-formed configuration\<close>

definition well_formed_target :: "string \<Rightarrow> bool" where
  "well_formed_target v \<longleftrightarrow> 2 \<le> length (filter (\<lambda>c. c = CHR '':'') v)"

lemma two_colons:
  assumes "well_formed_target v"
  shows "\<exists>nm h p. v = nm @ CHR '':'' # h @ CHR '':'' # p \<and> CHR '':'' \<notin> set nm \<and> CHR '':'' \<notin> set p"
proof -
  have c: "CHR '':'' \<in> set u" if "filter (\<lambda>c. c = CHR '':'') u \<noteq> []" for u
    using that by (auto simp: filter_empty_conv)
  have "CHR '':'' \<in> set v" using assms by (intro c) (auto simp: well_formed_target_def)
  then obtain nm r where v: "v = nm @ CHR '':'' # r" "CHR '':'' \<notin> set nm" by (meson split_list_first)
  have "filter (\<lambda>c. c = CHR '':'') nm = []" using v(2) by (auto simp: filter_empty_conv)
  then have "CHR '':'' \<in> set r" using assms v(1) by (intro c) (auto simp: well_formed_target_def)
  then obtain h p where "r = h @ CHR '':'' # p" "CHR '':'' \<notin> set p" by (meson split_list_last)
  then show ?thesis using v by blast
qed

text \<open>The target of a definition: its text up to the first colon, between the first and the last, and behind.\<close>

definition target_of :: "string \<Rightarrow> target" where
  "target_of v = (case parse_target v (start_state (\<lambda>_. True)) of Ok (t, _) \<Rightarrow> t | UB e \<Rightarrow> undefined)"

lemma parse_target_of:
  assumes "well_formed_target v" and "length v < 2 ^ 62" and "mem st = (\<lambda>_. True)"
  shows "parse_target v st = Ok (target_of v, st\<lparr>brk := brk st + 3\<rparr>)"
proof -
  obtain nm h p where v: "v = nm @ CHR '':'' # h @ CHR '':'' # p" "CHR '':'' \<notin> set nm" "CHR '':'' \<notin> set p"
    using two_colons [OF assms(1)] by blast
  have "length (nm @ CHR '':'' # h @ CHR '':'' # p) < 2 ^ 62" using assms(2) v(1) by simp
  note p = parse_target_two [OF v(2,3) this]
  have "mem (start_state (\<lambda>_. True)) = (\<lambda>_. True)" by (simp add: start_state_def)
  from p [OF this] p [OF assms(3)] show ?thesis unfolding v(1) [symmetric] by (simp add: target_of_def)
qed

lemma create_targets_chain:
  assumes "chain (cells (store s)) q as" and "length as \<le> fuel" and "mem (store s) = (\<lambda>_. True)"
    and "\<forall>v \<in> set (values_of (cells (store s)) as). well_formed_target v \<and> length v < 2 ^ 62"
  shows "create_targets_loop fuel q s =
    Ok (s\<lparr>store := (store s)\<lparr>brk := brk (store s) + 4 * length as\<rparr>,
         targets := targets s @ map target_of (values_of (cells (store s)) as)\<rparr>)"
  using assms
proof (induction as arbitrary: q fuel s)
  case Nil
  then show ?case by (cases fuel) (simp_all add: values_of_def)
next
  case (Cons a as)
  obtain c where c: "q = Some a" "cells (store s) a = Some c" "chain (cells (store s)) (cell_next c) as"
    using Cons.prems(1) by (auto split: option.splits)
  obtain fuel' where fuel: "fuel = Suc fuel'" "length as \<le> fuel'" using Cons.prems(2) by (cases fuel) auto
  have w: "well_formed_target (cell_value c)" "length (cell_value c) < 2 ^ 62"
    using Cons.prems(4) c(2) by (simp_all add: values_of_def)
  define st where "st = (store s)\<lparr>brk := Suc (brk (store s))\<rparr>"
  have al: "alloc (store s) = (Some (brk (store s)), st)" using Cons.prems(3) by (simp add: alloc_def st_def)
  have pt: "parse_target (cell_value c) st = Ok (target_of (cell_value c), st\<lparr>brk := brk st + 3\<rparr>)"
    by (rule parse_target_of) (use w Cons.prems(3) in \<open>simp_all add: st_def\<close>)
  define s1 where "s1 = s\<lparr>store := st\<lparr>brk := brk st + 3\<rparr>, targets := targets s @ [target_of (cell_value c)]\<rparr>"
  have "create_targets_loop fuel q s = create_targets_loop fuel' (cell_next c) s1"
    using c(1,2) fuel(1) al pt by (simp add: s1_def)
  also have "\<dots> = Ok (s1\<lparr>store := (store s1)\<lparr>brk := brk (store s1) + 4 * length as\<rparr>,
         targets := targets s1 @ map target_of (values_of (cells (store s1)) as)\<rparr>)"
    using Cons.prems c fuel(2) by (intro Cons.IH) (simp_all add: s1_def st_def values_of_def)
  also have "\<dots> = Ok (s\<lparr>store := (store s)\<lparr>brk := brk (store s) + 4 * length (a # as)\<rparr>,
         targets := targets s @ map target_of (values_of (cells (store s)) (a # as))\<rparr>)"
    using c(2) by (simp add: s1_def st_def values_of_def)
  finally show ?case .
qed

definition file_last :: "string \<Rightarrow> char list \<Rightarrow> string option" where
  "file_last k bs = (let vs = values_for k (config_entries bs) in if vs = [] then None else Some (last vs))"

definition file_int :: "string \<Rightarrow> char list \<Rightarrow> int" where
  "file_int k bs = (case file_last k bs of None \<Rightarrow> 0 | Some v \<Rightarrow> atoi v)"

lemma register_all_start:
  "\<exists>a. register_all (start_state (\<lambda>_. True)) = Ok a \<and> ready a \<and>
     registered_pointers a = [\<lparr>rp_key = ''target'', rp_type = T_LST, rp_ptr = target_list\<rparr>,
       \<lparr>rp_key = ''myname'', rp_type = T_STR, rp_ptr = myname\<rparr>,
       \<lparr>rp_key = ''poll_interval'', rp_type = T_INT, rp_ptr = poll_interval\<rparr>,
       \<lparr>rp_key = ''err_interval'', rp_type = T_INT, rp_ptr = err_interval\<rparr>] \<and>
     abs_store a = \<lparr>c_int = (\<lambda>_. 0), c_str = (\<lambda>_. None)(myname \<mapsto> ''myself''), c_lst = (\<lambda>_. [])\<rparr>"
proof -
  let ?a = "start_state (\<lambda>_. True)"
  have a0: "?a\<lparr>heads := (heads ?a)(target_list := None)\<rparr> = ?a" by (simp add: start_state_def fun_eq_iff)
  have rp0: "registered_pointers ?a = []" by (simp add: start_state_def)
  obtain a1 where a1: "register_pointer ''target'' T_LST target_list ?a = Ok a1" "ready a1"
    "abs_store a1 = abs_store ?a" "registered_pointers a1 = [\<lparr>rp_key = ''target'', rp_type = T_LST, rp_ptr = target_list\<rparr>]"
    using register_pointer_correct [OF ready_start, of "''target''" T_LST target_list] rp0 by auto
  let ?b = "a1\<lparr>strs := (strs a1)(myname \<mapsto> ''myself'')\<rparr>"
  have b: "ready ?b" using ready_set_var(2) [OF a1(2)] .
  have "abs_store ?b = (abs_store a1)\<lparr>c_str := (c_str (abs_store a1))(myname \<mapsto> ''myself'')\<rparr>"
    by (simp add: abs_store_def)
  then have ab: "abs_store ?b = \<lparr>c_int = (\<lambda>_. 0), c_str = (\<lambda>_. None)(myname \<mapsto> ''myself''), c_lst = (\<lambda>_. [])\<rparr>"
    unfolding a1(3) abs_start by simp
  obtain a2 where a2: "register_pointer ''myname'' T_STR myname ?b = Ok a2" "ready a2" "abs_store a2 = abs_store ?b"
    "registered_pointers a2 = registered_pointers a1 @ [\<lparr>rp_key = ''myname'', rp_type = T_STR, rp_ptr = myname\<rparr>]"
    using register_pointer_correct [OF b, of "''myname''" T_STR myname] by auto
  obtain a3 where a3: "register_pointer ''poll_interval'' T_INT poll_interval a2 = Ok a3" "ready a3" "abs_store a3 = abs_store a2"
    "registered_pointers a3 = registered_pointers a2 @ [\<lparr>rp_key = ''poll_interval'', rp_type = T_INT, rp_ptr = poll_interval\<rparr>]"
    using register_pointer_correct [OF a2(2), of "''poll_interval''" T_INT poll_interval] by auto
  obtain a4 where a4: "register_pointer ''err_interval'' T_INT err_interval a3 = Ok a4" "ready a4" "abs_store a4 = abs_store a3"
    "registered_pointers a4 = registered_pointers a3 @ [\<lparr>rp_key = ''err_interval'', rp_type = T_INT, rp_ptr = err_interval\<rparr>]"
    using register_pointer_correct [OF a3(2), of "''err_interval''" T_INT err_interval] by auto
  have "register_all ?a = Ok a4"
    using a1(1) a2(1) a3(1) a4(1) unfolding register_all_def a0
    by (simp add: argparse_register_argument_strlst_def argparse_register_argument_str_def_def
        argparse_register_argument_str_def argparse_register_argument_int_def)
  then show ?thesis using a1 a2 a3 a4 ab by (intro exI [of _ a4]) simp
qed

lemma init_regs_separate:
  "separate [\<lparr>rp_key = ''target'', rp_type = T_LST, rp_ptr = target_list\<rparr>, \<lparr>rp_key = ''myname'', rp_type = T_STR, rp_ptr = myname\<rparr>,
     \<lparr>rp_key = ''poll_interval'', rp_type = T_INT, rp_ptr = poll_interval\<rparr>,
     \<lparr>rp_key = ''err_interval'', rp_type = T_INT, rp_ptr = err_interval\<rparr>]"
  by (simp add: separate_def poll_interval_def err_interval_def)

text \<open>The store after the configuration was read, and what other variables keep.\<close>

lemma configuration_read:
  "\<exists>a a1. register_all (start_state (\<lambda>_. True)) = Ok a \<and> argparse_read_properties client (Inr bs) a = Ok a1 \<and> ready a1 \<and>
     registered_pointers a1 = [] \<and> callbacks a1 = [] \<and>
     strs a1 myname = Some (case file_last ''myname'' bs of None \<Rightarrow> ''myself'' | Some v \<Rightarrow> v) \<and>
     ints a1 poll_interval = file_int ''poll_interval'' bs \<and> ints a1 err_interval = file_int ''err_interval'' bs \<and>
     strs a1 telegram_token = None \<and> ints a1 telegram_userid = 0 \<and>
     (\<forall>p. c_lst (abs_store a1) p = (if p = target_list then values_for ''target'' (config_entries bs) else []))"
proof -
  define regs where "regs = [\<lparr>rp_key = ''target'', rp_type = T_LST, rp_ptr = target_list\<rparr>,
       \<lparr>rp_key = ''myname'', rp_type = T_STR, rp_ptr = myname\<rparr>,
       \<lparr>rp_key = ''poll_interval'', rp_type = T_INT, rp_ptr = poll_interval\<rparr>,
       \<lparr>rp_key = ''err_interval'', rp_type = T_INT, rp_ptr = err_interval\<rparr>]"
  obtain a where a: "register_all (start_state (\<lambda>_. True)) = Ok a" "ready a" "registered_pointers a = regs"
    "abs_store a = \<lparr>c_int = (\<lambda>_. 0), c_str = (\<lambda>_. None)(myname \<mapsto> ''myself''), c_lst = (\<lambda>_. [])\<rparr>"
    using register_all_start unfolding regs_def by blast
  obtain a1 where a1: "argparse_read_properties client (Inr bs) a = Ok a1" "ready a1" "callbacks a1 = []"
    "registered_pointers a1 = []" "abs_store a1 = fold (apply_entry regs) (config_entries bs) (abs_store a)"
    using read_properties_refines [OF a(2), of client bs] a(3) by auto
  have sep: "separate regs" unfolding regs_def by (rule init_regs_separate)
  have f: "ints a1 = c_int (abs_store a1)" "strs a1 = c_str (abs_store a1)" by (simp_all add: abs_store_def)
  have oi: "c_int (fold (apply_entry regs) es c) telegram_userid = c_int c telegram_userid" for es c
    by (induction es arbitrary: c)
      (auto simp: apply_entry_def assign_def regs_def telegram_userid_def poll_interval_def err_interval_def)
  have os: "c_str (fold (apply_entry regs) es c) telegram_token = c_str c telegram_token" for es c
    by (induction es arbitrary: c) (auto simp: apply_entry_def assign_def regs_def telegram_token_def myname_def)
  have ol: "p \<noteq> target_list \<Longrightarrow> c_lst (fold (apply_entry regs) es c) p = c_lst c p" for es c p
    by (induction es arbitrary: c) (auto simp: apply_entry_def assign_def regs_def)
  have m: "\<lparr>rp_key = ''target'', rp_type = T_LST, rp_ptr = target_list\<rparr> \<in> set regs"
    "\<lparr>rp_key = ''myname'', rp_type = T_STR, rp_ptr = myname\<rparr> \<in> set regs"
    "\<lparr>rp_key = ''poll_interval'', rp_type = T_INT, rp_ptr = poll_interval\<rparr> \<in> set regs"
    "\<lparr>rp_key = ''err_interval'', rp_type = T_INT, rp_ptr = err_interval\<rparr> \<in> set regs" by (simp_all add: regs_def)
  have "\<forall>p. c_lst (abs_store a1) p = (if p = target_list then values_for ''target'' (config_entries bs) else [])"
    using fold_apply_var(1) [OF sep m(1), of "config_entries bs" "abs_store a"] ol by (simp add: a1(5) a(4))
  moreover have "strs a1 myname = Some (case file_last ''myname'' bs of None \<Rightarrow> ''myself'' | Some v \<Rightarrow> v)"
    using fold_apply_var(3) [OF sep m(2), of "config_entries bs" "abs_store a"] by (simp add: f a1(5) a(4) file_last_def Let_def)
  moreover have "ints a1 poll_interval = file_int ''poll_interval'' bs"
    using fold_apply_var(2) [OF sep m(3), of "config_entries bs" "abs_store a"]
    by (simp add: f a1(5) a(4) file_last_def file_int_def Let_def)
  moreover have "ints a1 err_interval = file_int ''err_interval'' bs"
    using fold_apply_var(2) [OF sep m(4), of "config_entries bs" "abs_store a"]
    by (simp add: f a1(5) a(4) file_last_def file_int_def Let_def)
  moreover have "strs a1 telegram_token = None" "ints a1 telegram_userid = 0"
    using oi os by (simp_all add: f a1(5) a(4) telegram_token_def myname_def)
  ultimately show ?thesis using a(1) a1 by blast
qed

lemma init_configured:
  assumes "store s = start_state (\<lambda>_. True)" and "targets s = []" and "exit_code s = None" and "conf_file e = Inr bs"
    and "0 \<le> udp_socket e" and "bind_ok e"
    and "\<forall>v \<in> set (values_for ''target'' (config_entries bs)). well_formed_target v"
  shows "\<exists>st. monitor_init client e s = Ok (s\<lparr>store := st, targets := map target_of (values_for ''target'' (config_entries bs)),
       poll_tv := file_int ''poll_interval'' bs, err_tv := file_int ''err_interval'' bs\<rparr>) \<and>
     ready st \<and> registered_pointers st = [] \<and>
     strs st myname = Some (case file_last ''myname'' bs of None \<Rightarrow> ''myself'' | Some v \<Rightarrow> v) \<and>
     strs st telegram_token = None \<and> ints st telegram_userid = 0"
proof -
  obtain a a1 where a: "register_all (start_state (\<lambda>_. True)) = Ok a" "argparse_read_properties client (Inr bs) a = Ok a1"
    "ready a1" "registered_pointers a1 = []" "callbacks a1 = []"
    "strs a1 myname = Some (case file_last ''myname'' bs of None \<Rightarrow> ''myself'' | Some v \<Rightarrow> v)"
    "ints a1 poll_interval = file_int ''poll_interval'' bs" "ints a1 err_interval = file_int ''err_interval'' bs"
    "strs a1 telegram_token = None" "ints a1 telegram_userid = 0"
    "\<And>p. c_lst (abs_store a1) p = (if p = target_list then values_for ''target'' (config_entries bs) else [])"
    using configuration_read [of client bs] by blast
  obtain L where L: "owns a1 L" and mm: "mem a1 = (\<lambda>_. True)" using a(3) by (auto simp: ready_def wf_store_def memory_ok_def)
  have v: "values_of (cells a1) (L p) = (if p = target_list then values_for ''target'' (config_entries bs) else [])" for p
    using a(11) [of p] abs_store_owns [OF L] by simp
  have ch: "chain (cells a1) (heads a1 p) (L p)" for p using L by (simp add: owns_def)
  let ?vs = "values_for ''target'' (config_entries bs)"
  let ?as = "L target_list"
  have short: "\<forall>v \<in> set ?vs. well_formed_target v \<and> length v < 2 ^ 62"
    using assms(7) values_for_short [of _ "''target''" bs] by fastforce
  define s1 where "s1 = s\<lparr>store := a1\<rparr>"
  have loop: "create_targets_loop (brk a1) (heads a1 target_list) s1 =
      Ok (s\<lparr>store := a1\<lparr>brk := brk a1 + 4 * length ?as\<rparr>, targets := map target_of ?vs\<rparr>)"
    using create_targets_chain [of s1 "heads a1 target_list" ?as "brk a1"] ch [of target_list] owns_length [OF L] mm short v assms(2)
    by (simp add: s1_def)
  define h where "h = cells a1 |` (- set ?as)"
  have free: "free_list_cell (brk a1) (heads a1 target_list) (cells a1) = Ok h"
    unfolding h_def by (rule free_list_cell_chain [OF ch owns_length [OF L]])
  define st where "st = a1\<lparr>brk := brk a1 + 4 * length ?as, cells := h, heads := (heads a1)(target_list := None)\<rparr>"
  have "L p = []" if "p \<noteq> target_list" for p using v [of p] that by (simp add: values_of_def)
  then have "heads a1 p = None" if "p \<noteq> target_list" for p using ch [of p] that by simp
  then have "owns st (\<lambda>_. [])"
    using L by (auto simp: owns_def st_def h_def restrict_map_def intro: order.strict_trans2 split: if_splits)
  then have rd: "ready st" using a(3) by (auto simp: ready_def wf_store_def synced_def memory_ok_def st_def)
  have "monitor_init client e s = Ok (s\<lparr>store := st, targets := map target_of ?vs,
      poll_tv := file_int ''poll_interval'' bs, err_tv := file_int ''err_interval'' bs\<rparr>)"
    using assms(1,3-6) a(1,2,7,8) loop free
    by (simp add: monitor_init_def s1_def [symmetric] unless_exited_def Let_def st_def)
  then show ?thesis using rd a by (intro exI [of _ st]) (simp add: st_def)
qed

lemma set_tl: "set (tl xs) \<subseteq> set xs"
  by (cases xs) auto

lemma config_value_no_nul: "(k, v) \<in> set (config_entries bs) \<Longrightarrow> no_nul v"
proof -
  assume "(k, v) \<in> set (config_entries bs)"
  then obtain l where "line_entry l = Some (k, v)" by (auto simp: config_entries_def List.map_filter_def)
  then have "v = takeWhile (\<lambda>c. c \<noteq> LF) (tl (dropWhile (\<lambda>c. c \<noteq> CHR ''='') (cstr l)))"
    by (auto simp: line_entry_def Let_def split: if_splits)
  moreover have "NUL \<notin> set (cstr l)" using no_nul_cstr [of l] by (simp add: no_nul_def)
  ultimately show ?thesis
    using set_tl [of "dropWhile (\<lambda>c. c \<noteq> CHR ''='') (cstr l)"]
    by (auto simp: no_nul_def dest: set_takeWhileD set_dropWhileD)
qed

lemma values_for_no_nul: "v \<in> set (values_for k (config_entries bs)) \<Longrightarrow> no_nul v"
  using config_value_no_nul by (auto simp: values_for_def)

lemma target_of_name:
  assumes "well_formed_target v" and "length v < 255" and "no_nul v"
  shows "no_nul (target_name (target_of v)) \<and> length (target_name (target_of v)) < 256 \<and> \<not> isonline (target_of v)"
proof -
  obtain nm h p where v: "v = nm @ CHR '':'' # h @ CHR '':'' # p" "CHR '':'' \<notin> set nm" "CHR '':'' \<notin> set p"
    using two_colons [OF assms(1)] by blast
  have "length (nm @ CHR '':'' # h @ CHR '':'' # p) < 2 ^ 62" using assms(2) v(1) by simp
  from parse_target_two [OF v(2,3) this, of "start_state (\<lambda>_. True)"]
  have "target_of v = \<lparr>host = h, target_port = p, target_name = nm, isonline = False\<rparr>"
    unfolding v(1) [symmetric] by (simp add: target_of_def start_state_def)
  then show ?thesis using assms v(1) by simp
qed

text \<open>The inputs of a start with a complete configuration, and of responses that are objects.\<close>

definition configured :: "start_env \<Rightarrow> char list \<Rightarrow> char list \<Rightarrow> string \<Rightarrow> bool" where
  "configured e bs tb tk \<longleftrightarrow> conf_file e = Inr bs \<and> 0 \<le> udp_socket e \<and> bind_ok e \<and> file_token tb = Some tk \<and>
     (\<forall>v \<in> set (values_for ''target'' (config_entries bs)). well_formed_target v)"

definition fresh_monitor :: "'db monitor \<Rightarrow> bool" where
  "fresh_monitor s \<longleftrightarrow> store s = start_state (\<lambda>_. True) \<and> targets s = [] \<and> clocks s = [] \<and> timers s = [] \<and>
     exit_code s = None \<and> sent (tele s) = [] \<and> live (heap (tele s)) = 0 \<and> (\<forall>n. grants (heap (tele s)) n)"

definition my_name :: "char list \<Rightarrow> string" where
  "my_name bs = (case file_last ''myname'' bs of None \<Rightarrow> ''myself'' | Some v \<Rightarrow> v)"

lemma my_name_no_nul: "no_nul (my_name bs)"
  using values_for_no_nul [of _ "''myname''" bs]
  by (auto simp: my_name_def file_last_def Let_def split: option.split)

lemma start_good:
  fixes s :: "'db monitor"
  assumes "fresh_monitor s" and "configured se bs tb tk" and "harmless c" and "harmless (curl_env e)"
  shows "\<exists>s'. monitor_start client sqlite3_open step se (Inr tb) c e s = Ok s' \<and> good s' \<and>
    targets s' = map target_of (values_for ''target'' (config_entries bs)) \<and> (\<forall>i. \<not> up s' i) \<and>
    strs (store s') myname = Some (my_name bs) \<and> strs (store s') telegram_token = Some tk \<and>
    ints (store s') telegram_userid = file_userid tb \<and>
    clocks s' = [] \<and> database s' = logtime_init sqlite3_open step \<and>
    timers s' = concat (map (\<lambda>i. [Evtimer_Add (Poll_Timer i) (file_int ''poll_interval'' bs),
        Evtimer_Add (Err_Timer i) (file_int ''err_interval'' bs)]) [0..<length (targets s')]) \<and>
    (let me = (if file_userid tb = 0 then [] else [get_me tk]) in
     sent (tele s') = me @ [request_for s' (snprintf_into 256 (start_text (my_name bs)))] \<and>
     live (heap (tele s')) = int (length me) + 1)"
proof -
  have fr: "store s = start_state (\<lambda>_. True)" "targets s = []" "clocks s = []" "timers s = []" "exit_code s = None"
    "sent (tele s) = []" "live (heap (tele s)) = 0" "\<forall>n. grants (heap (tele s)) n"
    using assms(1) by (simp_all add: fresh_monitor_def)
  have cf: "conf_file se = Inr bs" "0 \<le> udp_socket se" "bind_ok se" "file_token tb = Some tk"
    "\<forall>v \<in> set (values_for ''target'' (config_entries bs)). well_formed_target v"
    using assms(2) by (simp_all add: configured_def)
  let ?ts = "map target_of (values_for ''target'' (config_entries bs))"
  obtain st where st: "monitor_init client se s = Ok (s\<lparr>store := st, targets := ?ts,
      poll_tv := file_int ''poll_interval'' bs, err_tv := file_int ''err_interval'' bs\<rparr>)" "ready st" "registered_pointers st = []"
    "strs st myname = Some (my_name bs)" "strs st telegram_token = None" "ints st telegram_userid = 0"
    using init_configured [OF fr(1,2,5) cf(1-3,5), of client] unfolding my_name_def by blast
  define calls where "calls = (if file_userid tb = 0 then [] else [get_me tk])"
  have obj: "\<And>g req item. response_item g c req item \<Longrightarrow> \<exists>i. cJSON_GetObjectItemCaseSensitive item (Some ''ok'') = Ok i"
    and cw: "curl_works c" using assms(3) by (simp_all add: harmless_def)
  have run_init: "\<exists>r a' t. telegram_init client (Inr tb) c st (tele s) = Ok (Returned r, a', t) \<and>
      grants (heap t) = grants (heap (tele s)) \<and> ints a' telegram_userid = file_userid tb \<and>
      strs a' telegram_token = file_token tb \<and>
      (\<forall>p. p \<noteq> telegram_userid \<longrightarrow> ints a' p = ints st p) \<and> (\<forall>p. p \<noteq> telegram_token \<longrightarrow> strs a' p = strs st p) \<and>
      (let calls = (if file_userid tb = 0 then [] else map get_me (case file_token tb of None \<Rightarrow> [] | Some tk \<Rightarrow> [tk])) in
       sent t = sent (tele s) @ calls \<and> live (heap t) = live (heap (tele s)) + int (length calls))"
    by (rule telegram_init_runs [OF st(2,3,6,5) cw fr(8)]) (rule obj)
  obtain r a' t where ti: "telegram_init client (Inr tb) c st (tele s) = Ok (Returned r, a', t)"
    "grants (heap t) = grants (heap (tele s))" "ints a' telegram_userid = file_userid tb" "strs a' telegram_token = Some tk"
    "\<forall>p. p \<noteq> telegram_userid \<longrightarrow> ints a' p = ints st p" "\<forall>p. p \<noteq> telegram_token \<longrightarrow> strs a' p = strs st p"
    "sent t = calls" "live (heap t) = int (length calls)"
    using run_init cf(4) fr(6,7)
    unfolding Let_def calls_def by (auto split: if_splits)
  have my: "strs a' myname = Some (my_name bs)" using ti(6) st(4) by (simp add: myname_def telegram_token_def)
  have short: "file_token tb = Some tk \<Longrightarrow> length tk \<le> 983"
    using values_for_short [of tk "''token''" tb] by (auto simp: file_token_def Let_def split: if_splits)
  have names: "\<forall>t \<in> set ?ts. no_nul (target_name t) \<and> length (target_name t) < 256 \<and> \<not> isonline t"
    using target_of_name cf(5) values_for_short values_for_no_nul by fastforce
  define s2 where "s2 = s\<lparr>targets := ?ts, poll_tv := file_int ''poll_interval'' bs, err_tv := file_int ''err_interval'' bs,
    database := logtime_init sqlite3_open step, store := a', tele := t, exit_code := None\<rparr>"
  define s3 where "s3 = start_timers s2"
  have f3: "store s3 = a'" "targets s3 = ?ts" "tele s3 = t" "database s3 = logtime_init sqlite3_open step"
    "clocks s3 = []" "exit_code s3 = None"
    "timers s3 = concat (map (\<lambda>i. [Evtimer_Add (Poll_Timer i) (file_int ''poll_interval'' bs),
        Evtimer_Add (Err_Timer i) (file_int ''err_interval'' bs)]) [0..<length ?ts])"
    using fr by (simp_all add: s3_def s2_def start_timers_def)
  have g3: "good s3" using f3 my ti(2,4) fr(8) names short [OF cf(4)] my_name_no_nul by (auto simp: good_def)
  let ?msg = "snprintf_into 256 (start_text (my_name bs))"
  have msg: "no_nul ?msg" "length ?msg < 256"
    using my_name_no_nul length_snprintf_into [of 256] by (simp_all add: snprintf_into_def start_text_def)
  obtain t' where n: "notify ?msg e s3 = Ok (s3\<lparr>tele := t'\<rparr>)" "sent t' = calls @ [request_for s3 ?msg]"
    "live (heap t') = int (length calls) + 1" "grants (heap t') = grants (heap (tele s3))"
    using notify_good [OF g3 assms(4) msg] f3(3) ti(7,8) by auto
  let ?s' = "s3\<lparr>tele := t'\<rparr>"
  have "monitor_start client sqlite3_open step se (Inr tb) c e s = Ok ?s'"
    using st(1) ti(1) my n(1) fr(5) by (simp add: monitor_start_def unless_exited_def Let_def s3_def s2_def)
  moreover have "good ?s'" using g3 by (rule good_cong) (use f3 n in simp_all)
  moreover have "\<not> up ?s' i" for i using names f3(2) by (simp add: up_def)
  moreover have "request_for ?s' ?msg = request_for s3 ?msg" by (simp add: request_for_def)
  ultimately show ?thesis
    using f3 n my ti(3,4) unfolding calls_def Let_def by (intro exI [of _ ?s']) simp
qed

end
