(* ===== verification/Monitor_Runs.thy ===== *)
theory Monitor_Runs
  imports Monitor
begin

text \<open>
  What the monitor of src/src/monitor.c does over whole runs: the messages the user gets, the timers, the log,
  the ways out of the event loop, and the start-up.
\<close>

section \<open>A demonstration state\<close>

definition demo_targets :: "target list" where
  "demo_targets = [\<lparr>host = ''10.0.0.2'', target_port = ''48807'', target_name = ''nas'', isonline = True\<rparr>,
                   \<lparr>host = ''10.0.0.3'', target_port = ''48807'', target_name = ''pi'', isonline = False\<rparr>]"

definition demo_monitor :: "mem_db monitor" where
  "demo_monitor = \<lparr>targets = demo_targets, store = demo_store\<lparr>strs := (strs demo_store)(myname \<mapsto> ''hub'')\<rparr>,
     tele = demo_telegram, clocks = [], database = ([], []),
     poll_tv = 10, err_tv = 30, timers = [], datagrams = [], outs = [], errs = [], exit_code = None\<rparr>"

text \<open>The system of the demonstration resolves the host \<open>10.0.0.2\<close> only, and has a datagram of the given address.\<close>

definition demo_env :: "char list \<Rightarrow> 32 word \<Rightarrow> int \<Rightarrow> env" where
  "demo_env bytes a t =
     \<lparr>getaddrinfo = (\<lambda>h p. if h = ''10.0.0.2'' then Inr \<lparr>sin_addr = 2, sin_port = 48807\<rparr>
                            else if h = ''10.0.0.3'' then Inr \<lparr>sin_addr = 3, sin_port = 48807\<rparr> else Inl (- 2)),
      sendto_ok = True, recvfrom = Some (bytes, \<lparr>sin_addr = a, sin_port = 48807\<rparr>), clock_now = Timespec t 0,
      realloc_ok = True, curl_env = demo_curl [''{'', ''}'']\<rparr>"

lemma demo_env_simps [simp]:
  "sendto_ok (demo_env b a t)" "recvfrom (demo_env b a t) = Some (b, \<lparr>sin_addr = a, sin_port = 48807\<rparr>)"
  "clock_now (demo_env b a t) = Timespec t 0" "realloc_ok (demo_env b a t)"
  "curl_env (demo_env b a t) = demo_curl [''{'', ''}'']"
  "getaddrinfo (demo_env b a t) ''10.0.0.2'' p = Inr \<lparr>sin_addr = 2, sin_port = 48807\<rparr>"
  "getaddrinfo (demo_env b a t) ''10.0.0.3'' p = Inr \<lparr>sin_addr = 3, sin_port = 48807\<rparr>"
  by (simp_all add: demo_env_def)

lemma demo_harmless: "harmless (demo_curl [''{'', ''}''])"
  unfolding harmless_def using demo_curl_works [of "[''{'', ''}'']"] empty_object_lookup
  by (auto simp: demo_curl_def)

lemma demo_monitor_simps [simp]:
  "targets demo_monitor = demo_targets" "length demo_targets = 2" "tele demo_monitor = demo_telegram"
  "strs (store demo_monitor) myname = Some ''hub''" "strs (store demo_monitor) telegram_token = Some ''123:abc''"
  "clocks demo_monitor = []" "database demo_monitor = ([], [])" "timers demo_monitor = []" "exit_code demo_monitor = None"
  by (simp_all add: demo_monitor_def demo_targets_def myname_def telegram_token_def demo_store_def)

lemma demo_good: "good demo_monitor"
  by (simp add: good_def) (simp add: demo_targets_def no_nul_def)

text \<open>A silence of the first target, then an answer of the second, then one of the first.\<close>

definition demo_events :: "event list" where
  "demo_events = [Err_Event 0 (demo_env [] 0 5), Answer_Event (demo_env ''bip!'' 3 6), Answer_Event (demo_env ''bip!'' 2 7)]"

lemma demo_benign: "\<forall>ev \<in> set demo_events. benign (length (targets demo_monitor)) ev"
  by (simp add: demo_events_def demo_harmless clock_reading_def)

lemma demo_signs: "map (sign_of (targets demo_monitor)) demo_events = [Silence 0, Answered 1, Answered 0]"
  by (simp add: demo_events_def answering_def get_target_def lookup_target_def demo_targets_def Let_def)

lemma demo_up: "up demo_monitor = (\<lambda>i. i = 0)"
  by (auto simp: up_def fun_eq_iff demo_targets_def nth_Cons split: nat.splits)

lemma demo_told: "told (up demo_monitor) [Silence 0, Answered 1, Answered 0] = [(0, False), (1, True), (0, True)]"
  by (simp add: demo_up)

section \<open>Messages, timers and the ways out\<close>

text \<open>
  C2. Over any sequence of timer expiries, polls and answers, in any order: the loop runs through without
  undefined behaviour, the user is sent one message for each change of a target, in the order of the
  changes, the messages about one target alternate between up and down, and at the end each target is
  marked the way the user was last told. Each message leaves one block of memory behind.
\<close>

theorem monitor_tells_every_change:
  assumes "good s" and "\<forall>ev \<in> set evs. benign (length (targets s)) ev"
  shows "\<exists>s'. dispatch step s evs s' \<and>
    (let ns = told (up s) (map (sign_of (targets s)) evs) in
     sent (tele s') = sent (tele s) @ map (notice_request s) ns \<and>
     live (heap (tele s')) = live (heap (tele s)) + int (length ns) \<and>
     (\<forall>i. up s' i = last_told i ns (up s i) \<and> alternating (up s i) (map snd (filter (\<lambda>p. fst p = i) ns))))"
proof -
  obtain s' where d: "dispatch step s evs s'" and r: "run_effect step evs s s'" using benign_run [OF assms] by blast
  then show ?thesis
    by (intro exI [of _ s']) (simp add: run_effect_def Let_def told_last told_alternates)
qed

lemma monitor_tells_every_change_witness:
  "\<exists>s'. dispatch mem_step demo_monitor demo_events s' \<and>
     sent (tele s') = map (notice_request demo_monitor) [(0, False), (1, True), (0, True)] \<and> up s' 0 \<and> up s' 1"
  using monitor_tells_every_change [OF demo_good demo_benign, of mem_step]
  unfolding Let_def demo_signs demo_told
  by (auto simp: last_told_def)

text \<open>
  An answer of a target marks it up and arms its error timer anew with the configured interval;
  a datagram of anybody else leaves all timers alone.
\<close>

lemma answers_rearm:
  assumes "good s" and "benign (length (targets s)) (Answer_Event e)"
  shows "\<exists>s'. handle_connection step e s = Ok s' \<and>
    (case answering (targets s) e of
       None \<Rightarrow> timers s' = timers s \<and> up s' = up s
     | Some i \<Rightarrow> up s' = (up s)(i := True) \<and>
         timers s' = timers s @ [Evtimer_Del (Err_Timer i), Evtimer_Add (Err_Timer i) (err_tv s)])"
  using answer_effect [OF assms, of step] by (auto simp: step_effect_def split: option.split)

lemma answers_rearm_witness:
  "\<exists>s'. handle_connection mem_step (demo_env ''bip!'' 3 6) demo_monitor = Ok s' \<and> up s' 1 \<and> length (timers s') = 2"
proof -
  have b: "benign (length (targets demo_monitor)) (Answer_Event (demo_env ''bip!'' 3 6))"
    by (simp add: demo_harmless clock_reading_def)
  have "answering (targets demo_monitor) (demo_env ''bip!'' 3 6) = Some 1"
    by (simp add: answering_def get_target_def lookup_target_def demo_targets_def Let_def)
  then show ?thesis using answers_rearm [OF demo_good b, of mem_step] by auto
qed

text \<open>
  C37. An answer is handled without undefined behaviour exactly when the receive succeeds with a datagram of
  fewer than 128 bytes: a failed receive writes the terminator in front of the buffer, and a
  datagram that fills the buffer writes it behind.
\<close>

theorem answer_returns_iff:
  assumes "good s" and "harmless (curl_env e)" and "clock_reading (clock_now e)"
  shows "(\<exists>s'. handle_connection step e s = Ok s') = (\<exists>bytes a. recvfrom e = Some (bytes, a) \<and> length bytes < 128)"
proof
  assume "\<exists>bytes a. recvfrom e = Some (bytes, a) \<and> length bytes < 128"
  then have "benign (length (targets s)) (Answer_Event e)" using assms(2,3) by simp
  then show "\<exists>s'. handle_connection step e s = Ok s'" using answer_effect [OF assms(1)] by blast
next
  assume "\<exists>s'. handle_connection step e s = Ok s'"
  then show "\<exists>bytes a. recvfrom e = Some (bytes, a) \<and> length bytes < 128"
    by (auto simp: handle_connection_def handle_answer_def Let_def split: option.splits if_splits prod.splits)
qed

lemma answer_returns_iff_witness:
  "(\<exists>s'. handle_connection mem_step (demo_env ''bip!'' 2 6) demo_monitor = Ok s') \<and>
   \<not> (\<exists>s'. handle_connection mem_step (demo_env (replicate 128 CHR ''x'') 2 6) demo_monitor = Ok s')"
  using answer_returns_iff [OF demo_good, of "demo_env ''bip!'' 2 6" mem_step]
    answer_returns_iff [OF demo_good, of "demo_env (replicate 128 CHR ''x'') 2 6" mem_step]
  by (simp add: demo_harmless clock_reading_def)

section \<open>Whole sessions\<close>

definition message_of :: "string \<Rightarrow> int \<Rightarrow> string \<Rightarrow> request" where
  "message_of tk uid msg =
     \<lparr>req_url = telegram_url tk ''sendMessage'', req_post = True, req_body = Some (message_text uid (snprintf_into 256 msg)),
      req_headers = [''Content-Type: application/json'']\<rparr>"

lemma log_of_ok:
  assumes "good s" and "benign (length (targets s)) ev"
  shows "\<forall>p \<in> set (log_of (targets s) ev). clock_reading (log_time p) \<and> length (log_name p) < 256"
proof -
  have n: "length (target_name (targets s ! i)) < 256" if "i < length (targets s)" for i
    using assms(1) that by (simp add: good_def)
  show ?thesis
    using assms(2) n answering_bound [of "targets s"] by (cases ev) (auto split: option.splits)
qed

definition configured_targets :: "char list \<Rightarrow> target list" where
  "configured_targets bs = map target_of (values_for ''target'' (config_entries bs))"

text \<open>
  C1. From the configuration files to the log: with complete configuration files (every target definition has
  its two colons, a token is set), an allocator that refuses nothing and a working libcurl whose responses are JSON objects, the
  program starts, checks the token when a user is configured, announces itself, and then over any sequence of \<open>benign\<close>
  events sends exactly one message per change of a target, named as in the configuration,
  and writes exactly the round trips of the answered polls to the log. Benign are the expiries of the error timers, the polls
  whose clock can be stored, and the answers received as a datagram of fewer than 128 bytes; a failed receive, a longer
  datagram and a signal are not (the claims on the return of answers and on the stop signals are about those).
\<close>

theorem monitor_session:
  assumes "fresh_monitor s" and "configured se bs tb tk" and "harmless c" and "harmless (curl_env e)"
    and "sqlite_engine step tgt clk" and "targets_ok (tgt (logtime_init sqlite3_open step))"
    and "\<forall>ev \<in> set evs. benign (length (configured_targets bs)) ev"
  shows "\<exists>s0 s' rows. monitor_start client sqlite3_open step se (Inr tb) c e s = Ok s0 \<and> dispatch step s0 evs s' \<and>
    sent (tele s') = (if file_userid tb = 0 then [] else [get_me tk]) @
      message_of tk (file_userid tb) (start_text (my_name bs)) #
      map (\<lambda>(i, b). message_of tk (file_userid tb)
            (notice (my_name bs) (target_name (configured_targets bs ! i)) (if b then ''up'' else ''down'')))
        (told (\<lambda>_. False) (map (sign_of (configured_targets bs)) evs)) \<and>
    clk (database s') = clk (logtime_init sqlite3_open step) @ rows \<and>
    list_all2 (row_of (tgt (database s'))) rows
      (round_trips (concat (map (log_of (configured_targets bs)) evs)) (\<lambda>_. None))"
proof -
  obtain s0 where s0: "monitor_start client sqlite3_open step se (Inr tb) c e s = Ok s0" "good s0"
    "targets s0 = configured_targets bs" "\<forall>i. \<not> up s0 i"
    "strs (store s0) myname = Some (my_name bs)" "strs (store s0) telegram_token = Some tk"
    "ints (store s0) telegram_userid = file_userid tb" "clocks s0 = []" "database s0 = logtime_init sqlite3_open step"
    "sent (tele s0) = (if file_userid tb = 0 then [] else [get_me tk]) @ [request_for s0 (snprintf_into 256 (start_text (my_name bs)))]"
    using start_good [OF assms(1-4), of client sqlite3_open step] unfolding configured_targets_def Let_def by blast
  have b: "\<forall>ev \<in> set evs. benign (length (targets s0)) ev" using assms(7) s0(3) by simp
  have u: "up s0 = (\<lambda>_. False)" using s0(4) by (simp add: fun_eq_iff)
  obtain s' where d: "dispatch step s0 evs s'" and r: "run_effect step evs s0 s'" using benign_run [OF s0(2) b] by blast
  have rq: "request_for s0 (snprintf_into 256 m) = message_of tk (file_userid tb) m" for m
    using s0(6,7) by (simp add: request_for_def message_of_def)
  have nq: "notice_request s0 = (\<lambda>(i, b). message_of tk (file_userid tb)
      (notice (my_name bs) (target_name (configured_targets bs ! i)) (if b then ''up'' else ''down'')))"
    using s0(3,5) by (simp add: fun_eq_iff notice_request_def rq)
  let ?ops = "concat (map (log_of (configured_targets bs)) evs)"
  have ops: "\<forall>p \<in> set ?ops. clock_reading (log_time p) \<and> length (log_name p) < 256"
    using log_of_ok [OF s0(2)] b s0(3) by auto
  have "clocks_ok []" by (simp add: clocks_ok_def)
  from sqlite_engine.log_run_refines [OF assms(5,6) this ops] obtain cs' db' rows where
    l: "run_steps (log_step step) ?ops ([], logtime_init sqlite3_open step) = Ok (cs', db')"
    "clk db' = clk (logtime_init sqlite3_open step) @ rows"
    "list_all2 (row_of (tgt db')) rows (round_trips ?ops (clock_map []))" by blast
  have db: "database s' = db'" using r l(1) s0(3,8,9) by (simp add: run_effect_def Let_def)
  have "clock_map [] = (\<lambda>_. None)" by (simp add: clock_map_def [abs_def])
  moreover have "sent (tele s') = sent (tele s0) @ map (notice_request s0) (told (up s0) (map (sign_of (targets s0)) evs))"
    using r by (simp add: run_effect_def Let_def)
  ultimately show ?thesis
    using s0(1,10) d l(2,3) db unfolding u nq rq s0(3)
    by (intro exI [of _ s0] exI [of _ s'] exI [of _ rows]) simp
qed

definition demo_conf :: "char list" where
  "demo_conf = ''target=nas:10.0.0.2:48807\<newline>poll_interval=10\<newline>err_interval=30\<newline>''"

definition demo_start :: start_env where
  "demo_start = \<lparr>conf_file = Inr demo_conf, udp_socket = 3, bind_ok = True\<rparr>"

lemma demo_conf_entries:
  "config_entries demo_conf = [(''target'', ''nas:10.0.0.2:48807''), (''poll_interval'', ''10''), (''err_interval'', ''30'')]"
  using config_entries_render [of "(''target'', ''nas:10.0.0.2:48807'')" "''poll_interval=10\<newline>err_interval=30\<newline>''"]
    config_entries_render [of "(''poll_interval'', ''10'')" "''err_interval=30\<newline>''"]
    config_entries_render [of "(''err_interval'', ''30'')" "[]"]
  by (simp add: demo_conf_def plain_entry_def render_entry_def line_max_def)

lemma demo_configured: "configured demo_start demo_conf demo_telegram_file ''123:abc''"
  by (simp add: configured_def demo_start_def demo_telegram_config demo_conf_entries values_for_def well_formed_target_def)

lemma demo_conf_targets: "configured_targets demo_conf =
    [\<lparr>host = ''10.0.0.2'', target_port = ''48807'', target_name = ''nas'', isonline = False\<rparr>]"
proof -
  have "parse_target ''nas:10.0.0.2:48807'' (start_state (\<lambda>_. True)) =
      Ok (\<lparr>host = ''10.0.0.2'', target_port = ''48807'', target_name = ''nas'', isonline = False\<rparr>,
          (start_state (\<lambda>_. True))\<lparr>brk := brk (start_state (\<lambda>_. True)) + 3\<rparr>)"
    using parse_target_two [of "''nas''" "''48807''" "''10.0.0.2''" "start_state (\<lambda>_. True)"] by (simp add: start_state_def)
  then show ?thesis by (simp add: configured_targets_def demo_conf_entries values_for_def target_of_def)
qed

definition demo_blank :: "mem_db monitor" where
  "demo_blank = \<lparr>targets = [], store = start_state (\<lambda>_. True), tele = demo_telegram, clocks = [], database = ([], []),
     poll_tv = 0, err_tv = 0, timers = [], datagrams = [], outs = [], errs = [], exit_code = None\<rparr>"

lemma demo_fresh: "fresh_monitor demo_blank"
  by (simp add: fresh_monitor_def demo_blank_def)

lemma demo_init: "logtime_init (\<lambda>_. ([], [])) mem_step = ([], [])"
  by (simp add: logtime_init_def execute_simple_query_def create_clocks_def create_targets_def select_target_def
      insert_target_def insert_clock_def)

lemma monitor_session_witness:
  "\<exists>s0 s' i. monitor_start no_client (\<lambda>_. ([], [])) mem_step demo_start (Inr demo_telegram_file)
        (demo_curl [''{'', ''}'']) (demo_env [] 0 0) demo_blank = Ok s0 \<and>
     dispatch mem_step s0 [Poll_Event 0 (demo_env [] 0 5), Answer_Event (demo_env ''bip!'' 2 7), Err_Event 0 (demo_env [] 0 9)] s' \<and>
     sent (tele s') = [get_me ''123:abc'', message_of ''123:abc'' 42 ''Starting monitor on myself'',
       message_of ''123:abc'' 42 ''myself: Host nas is up!'', message_of ''123:abc'' 42 ''myself: Host nas is down!''] \<and>
     snd (database s') = [(i, 2, 0)]"
proof -
  let ?evs = "[Poll_Event 0 (demo_env [] 0 5), Answer_Event (demo_env ''bip!'' 2 7), Err_Event 0 (demo_env [] 0 9)]"
  have b: "\<forall>ev \<in> set ?evs. benign (length (configured_targets demo_conf)) ev"
    by (simp add: demo_conf_targets demo_harmless clock_reading_def)
  have ok: "targets_ok (fst (logtime_init (\<lambda>_. ([], [])) mem_step))" by (simp add: demo_init targets_ok_def)
  have hl: "harmless (curl_env (demo_env [] 0 0))" by (simp add: demo_harmless)
  have nm: "my_name demo_conf = ''myself''" by (simp add: my_name_def file_last_def demo_conf_entries values_for_def)
  have an: "answering (configured_targets demo_conf) (demo_env ''bip!'' 2 7) = Some 0"
    by (simp add: answering_def get_target_def lookup_target_def demo_conf_targets Let_def)
  have lg: "concat (map (log_of (configured_targets demo_conf)) ?evs) = [Start (Timespec 5 0) ''nas'', Record (Timespec 7 0) ''nas'']"
    using an by (simp add: demo_conf_targets)
  have tl: "told (\<lambda>_. False) (map (sign_of (configured_targets demo_conf)) ?evs) = [(0, True), (0, False)]"
    by (simp add: an)
  have nt: "target_name (configured_targets demo_conf ! 0) = ''nas''" by (simp add: demo_conf_targets)
  obtain s0 s' where r: "monitor_start no_client (\<lambda>_. ([], [])) mem_step demo_start (Inr demo_telegram_file)
        (demo_curl [''{'', ''}'']) (demo_env [] 0 0) demo_blank = Ok s0" "dispatch mem_step s0 ?evs s'"
    "sent (tele s') = [get_me ''123:abc'', message_of ''123:abc'' 42 ''Starting monitor on myself'',
       message_of ''123:abc'' 42 ''myself: Host nas is up!'', message_of ''123:abc'' 42 ''myself: Host nas is down!'']"
    "list_all2 (row_of (fst (database s'))) (snd (database s')) [(''nas'', 2000000000)]"
    using monitor_session [OF demo_fresh demo_configured demo_harmless hl mem.sqlite_engine_axioms ok b, of no_client]
    unfolding lg tl
    by (auto simp: nt nm demo_telegram_config demo_init start_text_def notice_def nanos_def)
  then obtain i where "snd (database s') = [(i, 2, 0)]"
    by (auto simp: list_all2_Cons2 row_of_def wrap32_def)
  then show ?thesis using r(1-3) by blast
qed

lemma no_nul_start: "no_nul me \<Longrightarrow> no_nul (snprintf_into 256 (start_text me))"
  by (simp add: snprintf_into_def start_text_def)

text \<open>
  The start ignores whether Telegram is configured: when the file of the token sets none, the first
  message of the program prints a NULL token, whatever else is configured.
\<close>

lemma start_without_token:
  assumes "store s = start_state (\<lambda>_. True)" and "targets s = []" and "exit_code s = None" and "conf_file se = Inr bs"
    and "0 \<le> udp_socket se" and "bind_ok se" and "\<forall>v \<in> set (values_for ''target'' (config_entries bs)). well_formed_target v"
    and "file_token tb = None"
  shows "monitor_start client sqlite3_open step se (Inr tb) c e s = UB Null_Deref"
proof -
  obtain st where st: "monitor_init client se s = Ok (s\<lparr>store := st, targets := configured_targets bs,
      poll_tv := file_int ''poll_interval'' bs, err_tv := file_int ''err_interval'' bs\<rparr>)" "ready st"
    "registered_pointers st = []" "strs st myname = Some (my_name bs)" "strs st telegram_token = None" "ints st telegram_userid = 0"
    using init_configured [OF assms(1-7), of client] unfolding my_name_def configured_targets_def by blast
  obtain a1 a2 a3 where a: "argparse_register_argument_int ''user_id'' telegram_userid st = Ok a1"
    "argparse_register_argument_str ''token'' telegram_token a1 = Ok a2" "argparse_read_properties client (Inr tb) a2 = Ok a3"
    "strs a3 telegram_token = None" "\<forall>p. p \<noteq> telegram_token \<longrightarrow> strs a3 p = strs st p"
    using telegram_configured [OF st(2,3,6,5), of client tb] assms(8) by auto
  have "telegram_init client (Inr tb) c st (tele s) = Ok (Returned (- 1), a3, tele s)"
    using a by (simp add: telegram_init_def)
  moreover have "strs a3 myname = Some (my_name bs)" using a(5) st(4) by (simp add: myname_def telegram_token_def)
  ultimately show ?thesis
    using st(1) assms(3) a(4) bad_token [of a3 "snprintf_into 256 (start_text (my_name bs))"] my_name_no_nul [of bs]
    no_nul_start [OF my_name_no_nul [of bs]]
    by (simp add: monitor_start_def unless_exited_def Let_def start_timers_def notify_def)
qed

lemma start_without_token_witness:
  "monitor_start no_client (\<lambda>_. ([], [])) mem_step demo_start (Inr []) (demo_curl []) (demo_env [] 0 0) demo_blank = UB Null_Deref"
proof -
  have "config_entries [] = []" by (simp add: config_entries_def)
  then have t: "file_token [] = None" by (simp add: file_token_def values_for_def)
  show ?thesis
    by (rule start_without_token [of _ _ demo_conf, OF _ _ _ _ _ _ _ t])
      (simp_all add: demo_blank_def demo_start_def demo_conf_entries values_for_def well_formed_target_def)
qed

end
