(* ===== verification/Network.thy ===== *)
theory Network
  imports Beat Monitor_Runs
begin

text \<open>
  The two programs together: one monitor (src/src/monitor.c), and daemons (src/src/beat.c) that
  listen at socket addresses. What one side sends the network may deliver late, out of order,
  repeatedly or never, so nothing is ever taken out of it: a datagram can arrive whenever it was sent
  before. The steps are the handlers of the two programs, with their inputs tied to what the other
  side sent.
\<close>

section \<open>The system\<close>

record 'db network =
  monitor_of :: "'db monitor"
  daemon_at :: "sockaddr_in \<Rightarrow> beat option"

type_synonym resolver = "string \<Rightarrow> string \<Rightarrow> int + sockaddr_in"

text \<open>The address that \<open>find_target\<close> keeps for a target whose name is not resolved.\<close>

definition nobody :: sockaddr_in where "nobody = \<lparr>sin_addr = 0, sin_port = 0\<rparr>"

text \<open>What was sent so far: to an address by the monitor, and from an address to the monitor (\<open>me\<close>).\<close>

definition probed :: "'db network \<Rightarrow> sockaddr_in \<Rightarrow> string \<Rightarrow> bool" where
  "probed n a d \<longleftrightarrow> (a, d) \<in> set (datagrams (monitor_of n))"

definition replied :: "string \<Rightarrow> 'db network \<Rightarrow> sockaddr_in \<Rightarrow> string \<Rightarrow> bool" where
  "replied me n a d \<longleftrightarrow> (\<exists>b. daemon_at n a = Some b \<and> Udp_Send me d \<in> set (answers b))"

text \<open>Names always resolve the same way, and the libraries of the monitor do their work.\<close>

definition surroundings :: "resolver \<Rightarrow> env \<Rightarrow> bool" where
  "surroundings dns e \<longleftrightarrow> getaddrinfo e = dns \<and> harmless (curl_env e) \<and> realloc_ok e \<and> clock_reading (clock_now e)"

text \<open>\<open>recvfrom\<close> of the daemon hands over a datagram of the monitor, or at most 128 bytes of it.\<close>

definition delivers :: "string \<Rightarrow> string \<Rightarrow> turn \<Rightarrow> bool" where
  "delivers me d t \<longleftrightarrow> \<not> tcp_ready t \<and> udp_ready t \<and> recv_count t = int (min 128 (length d)) \<and> peer t = me"

text \<open>What else may happen to a daemon: connections, datagrams of others that fit its buffer, signals at any moment.\<close>

definition turn_elsewhere :: "string \<Rightarrow> beat \<Rightarrow> turn \<Rightarrow> bool" where
  "turn_elsewhere me b t \<longleftrightarrow>
     fresh_accept t b \<and> (tcp_ready t \<or> \<not> udp_ready t \<or> short_datagram t \<and> peer t \<noteq> me)"

fun elsewhere :: "string \<Rightarrow> beat \<Rightarrow> beat_event \<Rightarrow> bool" where
  "elsewhere me b (Turn t) \<longleftrightarrow> turn_elsewhere me b t"
| "elsewhere me b (Signal n) \<longleftrightarrow> True"
| "elsewhere me b (Cut t k n) \<longleftrightarrow> turn_elsewhere me b t"

text \<open>Datagrams of others at the monitor: of a sender that no name resolves to.\<close>

definition stranger :: "resolver \<Rightarrow> sockaddr_in \<Rightarrow> bool" where
  "stranger dns a \<longleftrightarrow> a \<noteq> nobody \<and> (\<forall>h p. dns h p \<noteq> Inr a)"

inductive net_step :: "resolver \<Rightarrow> string \<Rightarrow> 'db step \<Rightarrow> 'db network \<Rightarrow> 'db network \<Rightarrow> bool"
  for dns :: resolver and me :: string and step :: "'db step" where
  timer_fires: "ev = Poll_Event i e \<or> ev = Err_Event i e \<Longrightarrow> i < length (targets (monitor_of n)) \<Longrightarrow> surroundings dns e \<Longrightarrow>
     handle_event step ev (monitor_of n) = Ok m \<Longrightarrow> net_step dns me step n (n\<lparr>monitor_of := m\<rparr>)"
| reply_arrives: "replied me n a d \<Longrightarrow> recvfrom e = Some (d, a) \<Longrightarrow> surroundings dns e \<Longrightarrow>
     handle_event step (Answer_Event e) (monitor_of n) = Ok m \<Longrightarrow> net_step dns me step n (n\<lparr>monitor_of := m\<rparr>)"
| noise_arrives: "stranger dns a \<Longrightarrow> length d < 128 \<Longrightarrow> recvfrom e = Some (d, a) \<Longrightarrow> surroundings dns e \<Longrightarrow>
     handle_event step (Answer_Event e) (monitor_of n) = Ok m \<Longrightarrow> net_step dns me step n (n\<lparr>monitor_of := m\<rparr>)"
| probe_arrives: "probed n a d \<Longrightarrow> daemon_at n a = Some b \<Longrightarrow> delivers me d t \<Longrightarrow> ev = Turn t \<or> ev = Cut t k sig \<Longrightarrow>
     beat_step ev b = Ok b' \<Longrightarrow>
     net_step dns me step n (n\<lparr>daemon_at := (daemon_at n)(a \<mapsto> b')\<rparr>)"
| daemon_elsewhere: "daemon_at n a = Some b \<Longrightarrow> elsewhere me b ev \<Longrightarrow> beat_step ev b = Ok b' \<Longrightarrow>
     net_step dns me step n (n\<lparr>daemon_at := (daemon_at n)(a \<mapsto> b')\<rparr>)"

text \<open>At the start the monitor can tell the user, the daemons serve, and nothing was sent yet.\<close>

definition net_start :: "string \<Rightarrow> 'db network \<Rightarrow> bool" where
  "net_start me n \<longleftrightarrow> good (monitor_of n) \<and> datagrams (monitor_of n) = [] \<and> daemon_at n nobody = None \<and>
     (\<forall>a b. daemon_at n a = Some b \<longrightarrow> serving b) \<and> (\<forall>a d. \<not> replied me n a d)"

section \<open>What the handlers send\<close>

lemma notify_sends: "notify msg e s = Ok s' \<Longrightarrow> datagrams s' = datagrams s"
  by (auto simp: notify_def obind_Ok_iff)

lemma announce_sends: "announce i what e s = Ok s' \<Longrightarrow> datagrams s' = datagrams s"
  by (auto simp: announce_def Let_def dest: notify_sends split: option.splits)

lemma set_online_sends [simp]: "datagrams (set_online i b s) = datagrams s"
  by (simp add: set_online_def)

lemma err_sends: "handle_err_event i e s = Ok s' \<Longrightarrow> datagrams s' = datagrams s"
  by (auto simp: handle_err_event_def dest: announce_sends split: if_splits)

lemma reset_sends: "reset_error_timer i e s = Ok s' \<Longrightarrow> datagrams s' = datagrams s"
  by (auto simp: reset_error_timer_def unless_exited_def Let_def obind_Ok_iff dest!: announce_sends split: if_splits)

lemma record_sends [simp]: "datagrams (record_answer step i e s) = datagrams s"
  by (simp add: record_answer_def split: sum.split)

lemma answer_sends: "handle_connection step e s = Ok s' \<Longrightarrow> datagrams s' = datagrams s"
  by (auto simp: handle_connection_def handle_answer_def unless_exited_def Let_def obind_Ok_iff dest!: reset_sends
      split: option.splits prod.splits if_splits)

lemma poll_sends:
  "handle_poll_event i e s = Ok s' \<Longrightarrow>
   datagrams s' = datagrams s @
     (case getaddrinfo e (host (targets s ! i)) (target_port (targets s ! i)) of
        Inr a \<Rightarrow> if env.sendto_ok e then [(a, bip_message)] else []
      | Inl _ \<Rightarrow> [])"
  by (auto simp: handle_poll_event_def send_bip_def lookup_target_def Let_def obind_Ok_iff split: sum.splits if_splits)

section \<open>Who is found\<close>

lemma find_target_Cons:
  "fst (find_target e client k (t # ts)) =
     (if client = (case getaddrinfo e (host t) (target_port t) of Inl _ \<Rightarrow> nobody | Inr a \<Rightarrow> a) then Some k
      else fst (find_target e client (Suc k) ts))"
  by (cases client) (auto simp: lookup_target_def nobody_def Let_def split: sum.splits prod.splits if_splits)

text \<open>A target that is found by an address resolves to it, and the first one that does is found.\<close>

lemma find_target_address:
  "fst (find_target e client k ts) = Some j \<Longrightarrow> client \<noteq> nobody \<Longrightarrow>
   getaddrinfo e (host (ts ! (j - k))) (target_port (ts ! (j - k))) = Inr client"
proof (induction ts arbitrary: k)
  case (Cons t ts)
  show ?case
  proof (cases "client = (case getaddrinfo e (host t) (target_port t) of Inl _ \<Rightarrow> nobody | Inr a \<Rightarrow> a)")
    case True
    then show ?thesis using Cons.prems by (auto simp: find_target_Cons simp del: find_target.simps split: sum.splits)
  next
    case False
    then have r: "fst (find_target e client (Suc k) ts) = Some j"
      using Cons.prems(1) unfolding find_target_Cons by simp
    have "Suc k \<le> j" using find_target_bound [OF r] by simp
    then have "j - k = Suc (j - Suc k)" by simp
    then show ?thesis using Cons.IH [OF r Cons.prems(2)] by simp
  qed
qed simp

lemma find_target_first:
  "i < length ts \<Longrightarrow> getaddrinfo e (host (ts ! i)) (target_port (ts ! i)) = Inr client \<Longrightarrow> client \<noteq> nobody \<Longrightarrow>
   (\<And>j. j < i \<Longrightarrow> getaddrinfo e (host (ts ! j)) (target_port (ts ! j)) \<noteq> Inr client) \<Longrightarrow>
   fst (find_target e client k ts) = Some (k + i)"
proof (induction ts arbitrary: i k)
  case (Cons t ts)
  show ?case
  proof (cases i)
    case 0
    then show ?thesis using Cons.prems(2) by (simp add: find_target_Cons del: find_target.simps)
  next
    case (Suc i')
    have "getaddrinfo e (host t) (target_port t) \<noteq> Inr client" using Cons.prems(4) [of 0] Suc by simp
    then have c: "client \<noteq> (case getaddrinfo e (host t) (target_port t) of Inl _ \<Rightarrow> nobody | Inr a \<Rightarrow> a)"
      using Cons.prems(3) by (auto split: sum.splits)
    have "fst (find_target e client (Suc k) ts) = Some (Suc k + i')"
    proof (rule Cons.IH)
      show "getaddrinfo e (host (ts ! j)) (target_port (ts ! j)) \<noteq> Inr client" if "j < i'" for j
        using Cons.prems(4) [of "Suc j"] that Suc by simp
    qed (use Cons.prems Suc in simp_all)
    then show ?thesis using c Suc by (simp add: find_target_Cons del: find_target.simps)
  qed
qed simp

lemma answering_address:
  "answering ts e = Some i \<Longrightarrow> recvfrom e = Some (d, a) \<Longrightarrow> a \<noteq> nobody \<Longrightarrow>
   getaddrinfo e (host (ts ! i)) (target_port (ts ! i)) = Inr a"
  using find_target_address [of e a 0 ts i] by (simp add: answering_def get_target_def)

lemma answering_first:
  assumes "recvfrom e = Some (d, a)" and "a \<noteq> nobody" and "i < length ts"
    and "getaddrinfo e (host (ts ! i)) (target_port (ts ! i)) = Inr a"
    and "\<And>j. j < i \<Longrightarrow> getaddrinfo e (host (ts ! j)) (target_port (ts ! j)) \<noteq> Inr a"
  shows "answering ts e = Some i"
  using find_target_first [of i ts e a 0] assms by (simp add: answering_def get_target_def)

section \<open>What a daemon sends\<close>

definition alive_or_done :: "beat \<Rightarrow> bool" where
  "alive_or_done b \<longleftrightarrow> (exited b = None \<longrightarrow> serving b)"

lemma signal_alive: "serving b \<Longrightarrow> alive_or_done (signal_handler k b)"
  by (simp add: alive_or_done_def signal_handler_def Let_def)

lemma probe_step:
  assumes "alive_or_done b" and "delivers me d t" and "length d < 128"
  shows "\<exists>b'. beat_step (Turn t) b = Ok b' \<and> alive_or_done b' \<and>
    answers b' = answers b @ (if exited b = None \<and> turn.sendto_ok t then [Udp_Send me message] else [])"
proof (cases "exited b = None")
  case True
  have t: "short_datagram t" "answer_to t = (if turn.sendto_ok t then [Udp_Send me message] else [])" "\<not> kills t" "fresh_accept t b \<or> \<not> tcp_ready t"
    using assms(2,3) by (simp_all add: delivers_def short_datagram_def answer_to_def kills_def)
  have f: "serving b" using True assms(1) by (simp add: alive_or_done_def)
  obtain b' where b: "beat_turn t b = Ok b'"
    using t(1) by (cases "beat_turn t b") (auto simp: beat_turn_UB [OF True])
  then show ?thesis using True udp_turn_serving [OF f _ b] assms(2) t by (simp add: alive_or_done_def delivers_def)
qed (use assms(1) in \<open>auto simp: alive_or_done_def\<close>)

lemma cut_probe:
  assumes "alive_or_done b" and "delivers me d t" and "beat_step (Cut t k n) b = Ok b'"
  shows "alive_or_done b' \<and> (answers b' = answers b \<or> answers b' = answers b @ [Udp_Send me message])"
proof (cases "exited b = None")
  case True
  have f: "serving b" using True assms(1) by (simp add: alive_or_done_def)
  have "answer_to t \<in> {[], [Udp_Send me message]}" using assms(2) by (simp add: delivers_def answer_to_def)
  moreover have "\<not> tcp_ready t" using assms(2) by (simp add: delivers_def)
  ultimately show ?thesis using cut_cases [OF f _ assms(3)] by (auto simp: alive_or_done_def)
next
  case False
  then show ?thesis using assms(1,3) run_exited [of b "[Cut t k n]"] by (simp add: alive_or_done_def)
qed

lemma elsewhere_turn:
  assumes "turn_elsewhere me b t" and "answers b' = answers b \<or> answers b' = answers b @ answer_to t"
  shows "Udp_Send me d \<in> set (answers b') \<longleftrightarrow> Udp_Send me d \<in> set (answers b)"
proof -
  have "Udp_Send me d \<notin> set (answer_to t)" using assms(1) by (auto simp: turn_elsewhere_def answer_to_def split: sending.splits)
  then show ?thesis using assms(2) by auto
qed

lemma elsewhere_step:
  assumes "alive_or_done b" and "elsewhere me b ev" and "beat_step ev b = Ok b'"
  shows "alive_or_done b' \<and> (Udp_Send me d \<in> set (answers b') \<longleftrightarrow> Udp_Send me d \<in> set (answers b))"
proof (cases "exited b = None")
  case True
  then have s: "serving b" using assms(1) by (simp add: alive_or_done_def)
  show ?thesis
  proof (cases ev)
    case (Turn t)
    then have bt: "beat_turn t b = Ok b'" and el: "turn_elsewhere me b t" using assms(2,3) True by simp_all
    then have fa: "fresh_accept t b" by (simp add: turn_elsewhere_def)
    from beat_turn_serving [OF s fa bt] elsewhere_turn [OF el, of b' d] show ?thesis
      by (auto simp: alive_or_done_def split: if_splits)
  next
    case (Signal k)
    then have "b' = signal_handler k b" using assms(3) True by simp
    then show ?thesis using signal_alive [OF s] by simp
  next
    case (Cut t k n)
    then have el: "turn_elsewhere me b t" using assms(2) by simp
    then have fa: "tcp_ready t \<longrightarrow> fresh_accept t b" by (simp add: turn_elsewhere_def)
    from cut_cases [OF s fa assms(3) [unfolded Cut]] elsewhere_turn [OF el, of b' d] show ?thesis
      by (auto simp: alive_or_done_def)
  qed
next
  case False
  then have "b' = b" using assms(3) run_exited [of b "[ev]"] by simp
  then show ?thesis using assms(1) by simp
qed

section \<open>The invariant\<close>

text \<open>A target was heard: the monitor asked at its address, and the daemon there replied.\<close>

definition heard :: "resolver \<Rightarrow> string \<Rightarrow> 'db network \<Rightarrow> nat \<Rightarrow> bool" where
  "heard dns me n i \<longleftrightarrow>
     (let t = targets (monitor_of n) ! i in
      \<exists>a. dns (host t) (target_port t) = Inr a \<and> probed n a bip_message \<and> replied me n a message)"

text \<open>The notices so far, in terms of the state at the start.\<close>

definition notices :: "resolver \<Rightarrow> string \<Rightarrow> 'db network \<Rightarrow> 'db network \<Rightarrow> (nat \<times> bool) list \<Rightarrow> bool" where
  "notices dns me n0 n ns \<longleftrightarrow>
     sent (tele (monitor_of n)) = sent (tele (monitor_of n0)) @ map (notice_request (monitor_of n0)) ns \<and>
     (\<forall>i. up (monitor_of n) i = last_told i ns (up (monitor_of n0) i)) \<and>
     (\<forall>i. (i, True) \<in> set ns \<longrightarrow> heard dns me n i)"

text \<open>What a run of the monitor alone keeps, and what the two sides know of each other.\<close>

definition same_monitor :: "'db network \<Rightarrow> 'db network \<Rightarrow> bool" where
  "same_monitor n0 n \<longleftrightarrow> good (monitor_of n) \<and> store (monitor_of n) = store (monitor_of n0) \<and>
     map fixed (targets (monitor_of n)) = map fixed (targets (monitor_of n0))"

definition honest :: "string \<Rightarrow> 'db network \<Rightarrow> bool" where
  "honest me n \<longleftrightarrow> daemon_at n nobody = None \<and> (\<forall>a d. probed n a d \<longrightarrow> d = bip_message) \<and>
     (\<forall>a b. daemon_at n a = Some b \<longrightarrow> alive_or_done b) \<and>
     (\<forall>a d. replied me n a d \<longrightarrow> d = message \<and> probed n a bip_message)"

lemma last_told_append: "last_told i (ns @ ms) b = last_told i ms (last_told i ns b)"
  by (simp add: last_told_def)

lemma heard_mono:
  assumes "heard dns me n i" and "i < length (targets (monitor_of n))"
    and "map fixed (targets (monitor_of n')) = map fixed (targets (monitor_of n))"
    and "\<And>a d. probed n a d \<Longrightarrow> probed n' a d" and "\<And>a d. replied me n a d \<Longrightarrow> replied me n' a d"
  shows "heard dns me n' i"
  using assms(1,4,5) nth_fixed [OF assms(3)] map_eq_imp_length_eq [OF assms(3)] assms(2)
  by (auto simp: heard_def Let_def fixed_def)

text \<open>One handler of the monitor, which sends \<open>ds\<close>, and has heard the targets it calls up.\<close>

lemma monitor_moves:
  assumes inv: "same_monitor n0 n" "honest me n" "notices dns me n0 n ns" "\<forall>p \<in> set ns. fst p < length (targets (monitor_of n))"
    and se: "step_effect step ev (monitor_of n) m" and b: "benign (length (targets (monitor_of n))) ev"
    and ds: "datagrams m = datagrams (monitor_of n) @ ds" "\<forall>p \<in> set ds. snd p = bip_message"
    and he: "\<And>i. sign_of (targets (monitor_of n)) ev = Answered i \<Longrightarrow> heard dns me n i"
  shows "same_monitor n0 (n\<lparr>monitor_of := m\<rparr>) \<and> honest me (n\<lparr>monitor_of := m\<rparr>) \<and>
    (\<exists>ns'. notices dns me n0 (n\<lparr>monitor_of := m\<rparr>) ns' \<and> (\<forall>p \<in> set ns'. fst p < length (targets m)))"
proof -
  let ?s = "monitor_of n"
  let ?n = "n\<lparr>monitor_of := m\<rparr>"
  let ?new = "told (up ?s) [sign_of (targets ?s) ev]"
  have e: "good m" "map fixed (targets m) = map fixed (targets ?s)" "store m = store ?s"
    "up m = after (up ?s) [sign_of (targets ?s) ev]" "sent (tele m) = sent (tele ?s) @ map (notice_request ?s) ?new"
    using se by (simp_all add: step_effect_def)
  have len: "length (targets m) = length (targets ?s)" using map_eq_imp_length_eq [OF e(2)] .
  have len0: "length (targets ?s) = length (targets (monitor_of n0))"
    using inv(1) unfolding same_monitor_def by (auto dest: map_eq_imp_length_eq)
  have nb: "fst p < length (targets ?s)" if "p \<in> set ?new" for p
    using told_bound [of "up ?s" "[sign_of (targets ?s) ev]"] sign_bound [OF b] that by (cases p) fastforce
  have nr: "map (notice_request ?s) ?new = map (notice_request (monitor_of n0)) ?new"
    using inv(1) nb len0 by (auto simp: same_monitor_def intro!: notice_request_cong)
  have p: "probed ?n a d" if "probed n a d" for a d using that ds(1) by (simp add: probed_def)
  have r: "replied me ?n a d = replied me n a d" for a d by (simp add: replied_def)
  have hm: "heard dns me ?n i" if "heard dns me n i" "i < length (targets ?s)" for i
    by (rule heard_mono [OF that]) (use e(2) p r in simp_all)
  have "same_monitor n0 ?n" using inv(1) e by (simp add: same_monitor_def)
  moreover have "honest me ?n" using inv(2) ds p r unfolding honest_def by (auto simp: probed_def)
  moreover have "notices dns me n0 ?n (ns @ ?new)"
    unfolding notices_def
  proof (intro conjI allI impI)
    show "sent (tele (monitor_of ?n)) = sent (tele (monitor_of n0)) @ map (notice_request (monitor_of n0)) (ns @ ?new)"
      using inv(3) e(5) nr by (simp add: notices_def)
    show "up (monitor_of ?n) i = last_told i (ns @ ?new) (up (monitor_of n0) i)" for i
      using inv(3) e(4) told_last [of "up ?s" "[sign_of (targets ?s) ev]" i] by (simp add: notices_def last_told_append)
    show "heard dns me ?n i" if "(i, True) \<in> set (ns @ ?new)" for i
    proof (cases "(i, True) \<in> set ns")
      case True
      then show ?thesis using inv(3,4) hm by (force simp: notices_def)
    next
      case False
      then have i: "(i, True) \<in> set ?new" using that by simp
      then have "sign_of (targets ?s) ev = Answered i" by (cases "sign_of (targets ?s) ev") (auto split: if_splits)
      then show ?thesis using he hm nb [OF i] by simp
    qed
  qed
  moreover have "\<forall>p \<in> set (ns @ ?new). fst p < length (targets m)" using inv(4) nb len by auto
  ultimately show ?thesis by blast
qed

text \<open>A daemon that keeps what it sent and replies at most to the monitor's question.\<close>

lemma daemon_moves:
  assumes inv: "same_monitor n0 n" "honest me n" "notices dns me n0 n ns" "\<forall>p \<in> set ns. fst p < length (targets (monitor_of n))"
    and b: "daemon_at n a = Some b" "alive_or_done b'"
    and old: "\<And>d. Udp_Send me d \<in> set (answers b) \<Longrightarrow> Udp_Send me d \<in> set (answers b')"
    and new: "\<And>d. Udp_Send me d \<in> set (answers b') \<Longrightarrow> Udp_Send me d \<in> set (answers b) \<or> d = message \<and> probed n a bip_message"
  shows "same_monitor n0 (n\<lparr>daemon_at := (daemon_at n)(a \<mapsto> b')\<rparr>) \<and> honest me (n\<lparr>daemon_at := (daemon_at n)(a \<mapsto> b')\<rparr>) \<and>
    notices dns me n0 (n\<lparr>daemon_at := (daemon_at n)(a \<mapsto> b')\<rparr>) ns"
proof -
  let ?n = "n\<lparr>daemon_at := (daemon_at n)(a \<mapsto> b')\<rparr>"
  have p: "probed ?n c d = probed n c d" for c d by (simp add: probed_def)
  have r: "replied me ?n c d" if "replied me n c d" for c d using that b(1) old by (auto simp: replied_def)
  have r': "replied me n c d \<or> c = a \<and> d = message \<and> probed n a bip_message" if "replied me ?n c d" for c d
    using that b(1) new by (auto simp: replied_def split: if_splits)
  have rm: "d = message \<and> probed n c bip_message" if "replied me ?n c d" for c d
    using r' [OF that] inv(2) by (auto simp: honest_def)
  have "a \<noteq> nobody" using inv(2) b(1) by (auto simp: honest_def)
  then have "honest me ?n" using inv(2) b(2) p rm by (auto simp: honest_def)
  moreover have "heard dns me ?n i" if "(i, True) \<in> set ns" for i
  proof (rule heard_mono)
    show "heard dns me n i" "i < length (targets (monitor_of n))" using that inv(3,4) by (force simp: notices_def)+
  qed (use p r in simp_all)
  ultimately show ?thesis using inv(1,3) by (simp add: same_monitor_def notices_def)
qed

definition net_inv :: "resolver \<Rightarrow> string \<Rightarrow> 'db network \<Rightarrow> 'db network \<Rightarrow> bool" where
  "net_inv dns me n0 n \<longleftrightarrow> same_monitor n0 n \<and> honest me n \<and>
     (\<exists>ns. notices dns me n0 n ns \<and> (\<forall>p \<in> set ns. fst p < length (targets (monitor_of n))))"

lemma net_inv_start: "net_start me n0 \<Longrightarrow> net_inv dns me n0 n0"
  unfolding net_inv_def
proof (intro conjI exI [of _ "[]"])
  assume a: "net_start me n0"
  then show "same_monitor n0 n0" by (simp add: net_start_def same_monitor_def)
  show "honest me n0" using a by (auto simp: net_start_def honest_def alive_or_done_def probed_def)
  show "notices dns me n0 n0 []" by (simp add: notices_def last_told_def)
qed simp

lemma surroundings_benign:
  assumes "surroundings dns e"
  shows "i < k \<Longrightarrow> benign k (Poll_Event i e)" and "i < k \<Longrightarrow> benign k (Err_Event i e)"
    and "recvfrom e = Some (d, a) \<Longrightarrow> length d < 128 \<Longrightarrow> benign k (Answer_Event e)"
  using assms by (auto simp: surroundings_def)

lemma message_lengths: "length message < 128" "length bip_message < 128"
  by (simp_all add: message_def bip_message_def)

lemma handled_effect:
  "good s \<Longrightarrow> benign (length (targets s)) ev \<Longrightarrow> handle_event step ev s = Ok m \<Longrightarrow> step_effect step ev s m"
  using benign_effect [of s ev step] by auto

lemma net_inv_step:
  assumes "net_inv dns me n0 n" and "net_step dns me step n n'"
  shows "net_inv dns me n0 n'"
proof -
  obtain ns where inv: "same_monitor n0 n" "honest me n" "notices dns me n0 n ns"
    "\<forall>p \<in> set ns. fst p < length (targets (monitor_of n))" using assms(1) by (auto simp: net_inv_def)
  have g: "good (monitor_of n)" using inv(1) by (simp add: same_monitor_def)
  note move = monitor_moves [OF inv] and dmove = daemon_moves [OF inv]
  from assms(2) show ?thesis
  proof cases
    case (timer_fires ev i e m)
    have b: "benign (length (targets (monitor_of n))) ev"
      using timer_fires(2,3) surroundings_benign(1,2) [OF timer_fires(4)] by auto
    obtain ds where ds: "datagrams m = datagrams (monitor_of n) @ ds" "\<forall>p \<in> set ds. snd p = bip_message"
    proof (cases "ev = Err_Event i e")
      case True
      then show ?thesis using that [of "[]"] timer_fires(5) err_sends by auto
    next
      case False
      then have "handle_poll_event i e (monitor_of n) = Ok m" using timer_fires(2,5) by auto
      then show ?thesis using that poll_sends by (fastforce split: sum.splits)
    qed
    have "heard dns me n j" if "sign_of (targets (monitor_of n)) ev = Answered j" for j
      using that timer_fires(2) by auto
    from move [OF handled_effect [OF g b timer_fires(5)] b ds this] show ?thesis
      using timer_fires(1) unfolding net_inv_def by simp
  next
    case (reply_arrives a d e m)
    have rm: "d = message" "probed n a bip_message" "a \<noteq> nobody"
      using inv(2) reply_arrives(2) by (auto simp: honest_def replied_def)
    then have b: "benign (length (targets (monitor_of n))) (Answer_Event e)"
      using surroundings_benign(3) [OF reply_arrives(4,3)] message_lengths by simp
    have dns: "getaddrinfo e = dns" using reply_arrives(4) by (simp add: surroundings_def)
    have he: "heard dns me n j" if "sign_of (targets (monitor_of n)) (Answer_Event e) = Answered j" for j
    proof -
      have "answering (targets (monitor_of n)) e = Some j" using that by (auto split: option.splits)
      from answering_address [OF this reply_arrives(3) rm(3)] show ?thesis
        using reply_arrives(2) rm dns by (auto simp: heard_def Let_def)
    qed
    have "datagrams m = datagrams (monitor_of n) @ []" using answer_sends reply_arrives(5) by auto
    from move [OF handled_effect [OF g b reply_arrives(5)] b this _ he] show ?thesis
      using reply_arrives(1) unfolding net_inv_def by simp
  next
    case (noise_arrives a d e m)
    have b: "benign (length (targets (monitor_of n))) (Answer_Event e)"
      using surroundings_benign(3) [OF noise_arrives(5,4,3)] .
    have dns: "getaddrinfo e = dns" using noise_arrives(5) by (simp add: surroundings_def)
    have no: "answering (targets (monitor_of n)) e \<noteq> Some j" for j
      using answering_address [OF _ noise_arrives(4)] noise_arrives(2) dns unfolding stranger_def by blast
    have he: "heard dns me n j" if "sign_of (targets (monitor_of n)) (Answer_Event e) = Answered j" for j
      using that no by (auto split: option.splits)
    have "datagrams m = datagrams (monitor_of n) @ []" using answer_sends noise_arrives(6) by auto
    from move [OF handled_effect [OF g b noise_arrives(6)] b this _ he] show ?thesis
      using noise_arrives(1) unfolding net_inv_def by simp
  next
    case (probe_arrives a d b t ev k sig b')
    have d: "d = bip_message" using inv(2) probe_arrives(2) by (simp add: honest_def)
    have al: "alive_or_done b" using inv(2) probe_arrives(3) by (auto simp: honest_def)
    have b': "alive_or_done b' \<and> (answers b' = answers b \<or> answers b' = answers b @ [Udp_Send me message])"
      using probe_arrives(5)
    proof
      assume "ev = Turn t"
      then show ?thesis using probe_step [OF al probe_arrives(4)] probe_arrives(6) d message_lengths by (auto split: if_splits)
    next
      assume "ev = Cut t k sig"
      then show ?thesis using cut_probe [OF al probe_arrives(4)] probe_arrives(6) by blast
    qed
    have old: "Udp_Send me c \<in> set (answers b')" if "Udp_Send me c \<in> set (answers b)" for c using that b' by auto
    have new: "Udp_Send me c \<in> set (answers b) \<or> c = message \<and> probed n a bip_message" if "Udp_Send me c \<in> set (answers b')" for c
      using that b' probe_arrives(2) d by auto
    have "same_monitor n0 (n\<lparr>daemon_at := (daemon_at n)(a \<mapsto> b')\<rparr>) \<and> honest me (n\<lparr>daemon_at := (daemon_at n)(a \<mapsto> b')\<rparr>) \<and>
        notices dns me n0 (n\<lparr>daemon_at := (daemon_at n)(a \<mapsto> b')\<rparr>) ns"
      by (rule dmove [OF probe_arrives(3) conjunct1 [OF b']]) (use old new in blast)+
    then have "net_inv dns me n0 (n\<lparr>daemon_at := (daemon_at n)(a \<mapsto> b')\<rparr>)"
      using inv(4) unfolding net_inv_def by auto
    then show ?thesis using probe_arrives(1) by simp
  next
  case (daemon_elsewhere a b ev b')
    have al: "alive_or_done b" using inv(2) daemon_elsewhere(2) by (auto simp: honest_def)
    note el = elsewhere_step [OF al daemon_elsewhere(3,4)]
    have "net_inv dns me n0 (n\<lparr>daemon_at := (daemon_at n)(a \<mapsto> b')\<rparr>)"
      using dmove [OF daemon_elsewhere(2), of b'] el inv(4) unfolding net_inv_def by auto
    then show ?thesis using daemon_elsewhere(1) by simp
  qed
qed

lemma net_inv_reachable:
  "(net_step dns me step)\<^sup>*\<^sup>* n0 n \<Longrightarrow> net_start me n0 \<Longrightarrow> net_inv dns me n0 n"
  by (induction rule: rtranclp_induct) (auto intro: net_inv_start net_inv_step)

text \<open>One question, its answer by a running daemon, and the arrival of the answer.\<close>

lemma exchange:
  fixes n :: "'db network"
  assumes inv: "net_inv dns me n0 n" and i: "i < length (targets (monitor_of n))"
    and res: "dns (host (targets (monitor_of n) ! i)) (target_port (targets (monitor_of n) ! i)) = Inr a"
    and first: "\<forall>j < i. dns (host (targets (monitor_of n) ! j)) (target_port (targets (monitor_of n) ! j)) \<noteq> Inr a"
    and b: "daemon_at n a = Some b" "exited b = None"
    and e1: "surroundings dns e1" "env.sendto_ok e1" and t: "delivers me bip_message t" "turn.sendto_ok t"
    and e2: "surroundings dns e2" "recvfrom e2 = Some (message, a)"
  shows "\<exists>m b' m'. handle_event step (Poll_Event i e1) (monitor_of n) = Ok m \<and> beat_step (Turn t) b = Ok b' \<and>
    handle_event step (Answer_Event e2) m = Ok m' \<and>
    (net_step dns me step)\<^sup>*\<^sup>* n (n\<lparr>daemon_at := (daemon_at n)(a \<mapsto> b'), monitor_of := m'\<rparr>) \<and>
    up m' = (up (monitor_of n))(i := True) \<and>
    sent (tele m') = sent (tele (monitor_of n)) @ (if up (monitor_of n) i then [] else [notice_request (monitor_of n) (i, True)]) \<and>
    timers m' = timers m @ [Evtimer_Del (Err_Timer i), Evtimer_Add (Err_Timer i) (err_tv (monitor_of n))]"
proof -
  let ?s = "monitor_of n"
  have g: "good ?s" and an: "a \<noteq> nobody" and al: "alive_or_done b"
    using inv b(1) by (auto simp: net_inv_def same_monitor_def honest_def)
  have dns: "getaddrinfo e1 = dns" "getaddrinfo e2 = dns" using e1 e2 by (simp_all add: surroundings_def)
  obtain m where m: "handle_event step (Poll_Event i e1) ?s = Ok m" "step_effect step (Poll_Event i e1) ?s m"
    using benign_effect [OF g surroundings_benign(1) [OF e1(1) i]] by blast
  have m': "good m" "map fixed (targets m) = map fixed (targets ?s)" "store m = store ?s" "up m = up ?s" "err_tv m = err_tv ?s"
    "sent (tele m) = sent (tele ?s)" using m(2) by (simp_all add: step_effect_def)
  have len: "length (targets m) = length (targets ?s)" using map_eq_imp_length_eq [OF m'(2)] .
  have "handle_poll_event i e1 ?s = Ok m" using m(1) by simp
  then have "(a, bip_message) \<in> set (datagrams m)" using poll_sends res dns e1(2) by fastforce
  then have s1: "net_step dns me step n (n\<lparr>monitor_of := m\<rparr>)" "probed (n\<lparr>monitor_of := m\<rparr>) a bip_message"
    using net_step.timer_fires [OF _ i e1(1) m(1)] by (simp_all add: probed_def)
  obtain b' where b': "beat_step (Turn t) b = Ok b'" "answers b' = answers b @ [Udp_Send me message]"
    using probe_step [OF al t(1) message_lengths(2)] b(2) t(2) by auto
  let ?n2 = "n\<lparr>monitor_of := m, daemon_at := (daemon_at n)(a \<mapsto> b')\<rparr>"
  have s2: "net_step dns me step (n\<lparr>monitor_of := m\<rparr>) ?n2"
    using net_step.probe_arrives [OF s1(2) _ t(1) _ b'(1)] b(1) by simp
  have "answering (targets ?s) e2 = Some i"
    by (rule answering_first [OF e2(2) an i]) (use res first dns in auto)
  then have ans: "answering (targets m) e2 = Some i" using answering_fixed [OF m'(2)] by simp
  have be: "benign (length (targets m)) (Answer_Event e2)"
    using surroundings_benign(3) [OF e2] message_lengths by simp
  obtain m2 where m2: "handle_connection step e2 m = Ok m2" "step_effect step (Answer_Event e2) m m2"
    "timers m2 = timers m @ [Evtimer_Del (Err_Timer i), Evtimer_Add (Err_Timer i) (err_tv m)]"
    using answer_effect [OF m'(1) be] ans by blast
  have "replied me ?n2 a message" using b'(2) by (simp add: replied_def)
  then have s3: "net_step dns me step ?n2 (n\<lparr>daemon_at := (daemon_at n)(a \<mapsto> b'), monitor_of := m2\<rparr>)"
    using net_step.reply_arrives [of me ?n2 a message e2 dns step m2] e2 m2(1) by simp
  have "(net_step dns me step)\<^sup>*\<^sup>* n (n\<lparr>daemon_at := (daemon_at n)(a \<mapsto> b'), monitor_of := m2\<rparr>)"
    using s1(1) s2 s3 by (meson rtranclp.rtrancl_into_rtrancl r_into_rtranclp)
  moreover have "notice_request m (i, True) = notice_request ?s (i, True)"
    by (rule notice_request_cong [OF m'(3,2)]) (simp add: i)
  ultimately show ?thesis
    using m(1) b'(1) m2 m'(3-6) ans
    by (intro exI [of _ m] exI [of _ b'] exI [of _ m2]) (auto simp: step_effect_def)
qed

section \<open>Properties\<close>

text \<open>
  C3. No false sign of life: whatever the network does with the datagrams, and in whatever order the
  programs run, every notice that a target is up names a target of the configuration which the
  monitor asked with \<open>bip?\<close> and whose daemon sent it \<open>bip\<close>; and each target is marked the way
  the user was last told.
\<close>

theorem up_notices_are_earned:
  assumes "net_start me n0" and "(net_step dns me step)\<^sup>*\<^sup>* n0 n"
  shows "\<exists>ns. sent (tele (monitor_of n)) = sent (tele (monitor_of n0)) @ map (notice_request (monitor_of n0)) ns \<and>
    (\<forall>i. up (monitor_of n) i = last_told i ns (up (monitor_of n0) i)) \<and>
    (\<forall>i. (i, True) \<in> set ns \<longrightarrow>
      (\<exists>a b. dns (host (targets (monitor_of n0) ! i)) (target_port (targets (monitor_of n0) ! i)) = Inr a \<and>
         (a, ''bip?'') \<in> set (datagrams (monitor_of n)) \<and>
         daemon_at n a = Some b \<and> Udp_Send me ''bip'' \<in> set (answers b)))"
proof -
  obtain ns where ns: "notices dns me n0 n ns" "\<forall>p \<in> set ns. fst p < length (targets (monitor_of n))"
    and f: "map fixed (targets (monitor_of n)) = map fixed (targets (monitor_of n0))"
    using net_inv_reachable [OF assms(2,1)] by (auto simp: net_inv_def same_monitor_def)
  have "\<exists>a b. dns (host (targets (monitor_of n0) ! i)) (target_port (targets (monitor_of n0) ! i)) = Inr a \<and>
      (a, ''bip?'') \<in> set (datagrams (monitor_of n)) \<and> daemon_at n a = Some b \<and> Udp_Send me ''bip'' \<in> set (answers b)"
    if "(i, True) \<in> set ns" for i
  proof -
    have "i < length (targets (monitor_of n))" using ns(2) that by force
    moreover have "heard dns me n i" using ns(1) that by (simp add: notices_def)
    ultimately show ?thesis using nth_fixed [OF f]
      by (auto simp: heard_def Let_def fixed_def probed_def replied_def bip_message_def message_def)
  qed
  then show ?thesis using ns(1) by (intro exI [of _ ns]) (simp add: notices_def)
qed

text \<open>
  C5. The two programs never overflow each other's buffers: at every moment of every run, the timers' events,
  every delivery of a question to a daemon and every delivery of an answer to the monitor are handled
  without undefined behaviour (which only other senders can cause).
\<close>

theorem deliveries_are_handled:
  assumes "net_start me n0" and "(net_step dns me step)\<^sup>*\<^sup>* n0 n"
  shows "(probed n a d \<and> daemon_at n a = Some b \<and> delivers me d t \<longrightarrow> is_ok (beat_step (Turn t) b)) \<and>
    (replied me n a d \<and> surroundings dns e \<and> recvfrom e = Some (d, a) \<longrightarrow>
       is_ok (handle_connection step e (monitor_of n))) \<and>
    (i < length (targets (monitor_of n)) \<and> surroundings dns e \<longrightarrow>
       is_ok (handle_poll_event i e (monitor_of n)) \<and> is_ok (handle_err_event i e (monitor_of n)))"
proof -
  have inv: "good (monitor_of n)" "honest me n"
    using net_inv_reachable [OF assms(2,1)] by (auto simp: net_inv_def same_monitor_def)
  have "is_ok (beat_step (Turn t) b)" if "probed n a d" "daemon_at n a = Some b" "delivers me d t"
  proof -
    have "alive_or_done b" "d = bip_message" using inv(2) that by (auto simp: honest_def)
    with probe_step [OF this(1) that(3)] message_lengths show ?thesis by (auto simp: is_ok_iff)
  qed
  moreover have "is_ok (handle_connection step e (monitor_of n))"
    if "replied me n a d" "surroundings dns e" "recvfrom e = Some (d, a)"
  proof -
    have "d = message" using inv(2) that(1) by (auto simp: honest_def)
    then have "benign (length (targets (monitor_of n))) (Answer_Event e)"
      using surroundings_benign(3) [OF that(2,3)] message_lengths by simp
    then show ?thesis using answer_effect [OF inv(1), of e step] by (auto simp: is_ok_iff)
  qed
  moreover have "is_ok (handle_poll_event i e (monitor_of n)) \<and> is_ok (handle_err_event i e (monitor_of n))"
    if "i < length (targets (monitor_of n))" "surroundings dns e"
    using poll_effect [OF inv(1) surroundings_benign(1) [OF that(2,1)]]
      err_effect [OF inv(1) surroundings_benign(2) [OF that(2,1)]] by (auto simp: is_ok_iff)
  ultimately show ?thesis by blast
qed

text \<open>
  C4. A live daemon is noticed: at every moment of every run, when the monitor polls a target whose daemon runs
  (and no target in front of it has the same address), the daemon serves the question, its answer is sent, and arrives,
  then the target is up, the user was told so if it was down before, no other target changed, and
  the target's error timer starts anew.
\<close>

theorem live_daemon_is_noticed:
  assumes "net_start me n0" and "(net_step dns me step)\<^sup>*\<^sup>* n0 n" and "i < length (targets (monitor_of n))"
    and "dns (host (targets (monitor_of n) ! i)) (target_port (targets (monitor_of n) ! i)) = Inr a"
    and "\<forall>j < i. dns (host (targets (monitor_of n) ! j)) (target_port (targets (monitor_of n) ! j)) \<noteq> Inr a"
    and "daemon_at n a = Some b" and "exited b = None"
    and "surroundings dns e1" and "env.sendto_ok e1" and "delivers me bip_message t" and "turn.sendto_ok t"
    and "surroundings dns e2" and "recvfrom e2 = Some (message, a)"
  shows "\<exists>m b' m'. handle_event step (Poll_Event i e1) (monitor_of n) = Ok m \<and> beat_step (Turn t) b = Ok b' \<and>
    handle_event step (Answer_Event e2) m = Ok m' \<and>
    (net_step dns me step)\<^sup>*\<^sup>* n (n\<lparr>daemon_at := (daemon_at n)(a \<mapsto> b'), monitor_of := m'\<rparr>) \<and>
    up m' = (up (monitor_of n))(i := True) \<and>
    sent (tele m') = sent (tele (monitor_of n)) @ (if up (monitor_of n) i then [] else [notice_request (monitor_of n) (i, True)]) \<and>
    timers m' = timers m @ [Evtimer_Del (Err_Timer i), Evtimer_Add (Err_Timer i) (err_tv (monitor_of n))]"
  by (rule exchange [OF net_inv_reachable [OF assms(2,1)] assms(3-)])

section \<open>A demonstration\<close>

definition demo_daemon :: beat where
  "demo_daemon = \<lparr>fork_pid = 0, tcp_server_socket = 3, tcp_sock = 0, udp_server_socket = 4,
     open_fds = {3, 4}, pid_file = None, exited = None, log = []\<rparr>"

definition demo_network :: "mem_db network" where
  "demo_network = \<lparr>monitor_of = demo_monitor, daemon_at = [\<lparr>sin_addr = 3, sin_port = 48807\<rparr> \<mapsto> demo_daemon]\<rparr>"

definition demo_probe :: turn where
  "demo_probe = \<lparr>tcp_ready = False, udp_ready = True, stack_len = 0, accept_call = (\<lambda>n. (- 1, n)), send_result = Not_Sent, recv_count = 4,
     peer = ''hub'', peer_len = 16, peer_name = Inr ''10.0.0.1'', sendto_ok = True, turn_errno = 0\<rparr>"

definition demo_dns :: resolver where "demo_dns = getaddrinfo (demo_env [] 0 0)"

lemma demo_net_start: "net_start ''hub'' demo_network"
  by (auto simp: net_start_def demo_network_def demo_good nobody_def serving_def demo_daemon_def replied_def answers_def)
    (simp add: demo_monitor_def)

lemma demo_surroundings: "0 \<le> s \<Longrightarrow> s < 2 ^ 32 \<Longrightarrow> surroundings demo_dns (demo_env bytes c s)"
  by (simp add: surroundings_def demo_dns_def demo_harmless clock_reading_def) (simp add: demo_env_def)

lemma demo_exchange_facts:
  "1 < length (targets (monitor_of demo_network))"
  "demo_dns (host (targets (monitor_of demo_network) ! 1)) (target_port (targets (monitor_of demo_network) ! 1)) =
     Inr \<lparr>sin_addr = 3, sin_port = 48807\<rparr>"
  "\<forall>j < 1. demo_dns (host (targets (monitor_of demo_network) ! j)) (target_port (targets (monitor_of demo_network) ! j)) \<noteq>
     Inr \<lparr>sin_addr = 3, sin_port = 48807\<rparr>"
  "daemon_at demo_network \<lparr>sin_addr = 3, sin_port = 48807\<rparr> = Some demo_daemon" "exited demo_daemon = None"
  "delivers ''hub'' bip_message demo_probe" "turn.sendto_ok demo_probe"
  by (simp_all add: demo_network_def demo_targets_def demo_dns_def demo_daemon_def delivers_def demo_probe_def bip_message_def)

lemma live_daemon_is_noticed_witness:
  "\<exists>m b' m'. handle_event mem_step (Poll_Event 1 (demo_env [] 0 5)) demo_monitor = Ok m \<and>
     beat_step (Turn demo_probe) demo_daemon = Ok b' \<and>
     handle_event mem_step (Answer_Event (demo_env ''bip'' 3 6)) m = Ok m' \<and> up m' 1 \<and>
     sent (tele m') = [notice_request demo_monitor (1, True)]"
proof -
  have r: "(net_step demo_dns ''hub'' mem_step)\<^sup>*\<^sup>* demo_network demo_network" by simp
  have e: "surroundings demo_dns (demo_env [] 0 5)" "surroundings demo_dns (demo_env ''bip'' 3 6)"
    using demo_surroundings by simp_all
  show ?thesis
    using live_daemon_is_noticed [OF demo_net_start r demo_exchange_facts(1-5) e(1) _ demo_exchange_facts(6,7) e(2)]
    by (auto simp: message_def demo_up) (auto simp: demo_network_def demo_up)
qed

lemma last_told_member: "last_told i ns False \<Longrightarrow> (i, True) \<in> set ns"
proof (induction ns rule: rev_induct)
  case (snoc p ns)
  then show ?case by (cases p) (auto simp: last_told_append last_told_def split: if_splits)
qed (simp add: last_told_def)

lemma demo_reached:
  "\<exists>n. (net_step demo_dns ''hub'' mem_step)\<^sup>*\<^sup>* demo_network n \<and> up (monitor_of n) 1 \<and>
     sent (tele (monitor_of n)) = [notice_request demo_monitor (1, True)] \<and>
     probed n \<lparr>sin_addr = 3, sin_port = 48807\<rparr> ''bip?'' \<and> replied ''hub'' n \<lparr>sin_addr = 3, sin_port = 48807\<rparr> ''bip''"
proof -
  let ?a = "\<lparr>sin_addr = 3, sin_port = 48807\<rparr>"
  have inv: "net_inv demo_dns ''hub'' demo_network demo_network" by (rule net_inv_start [OF demo_net_start])
  have r: "recvfrom (demo_env ''bip'' 3 6) = Some (message, ?a)" by (simp add: message_def)
  obtain m b' m' where m: "beat_step (Turn demo_probe) demo_daemon = Ok b'" "up m' = (up (monitor_of demo_network))(1 := True)"
    "(net_step demo_dns ''hub'' mem_step)\<^sup>*\<^sup>* demo_network (demo_network\<lparr>daemon_at := (daemon_at demo_network)(?a \<mapsto> b'), monitor_of := m'\<rparr>)"
    "sent (tele m') = sent (tele (monitor_of demo_network)) @ (if up (monitor_of demo_network) 1 then [] else [notice_request (monitor_of demo_network) (1, True)])"
    using exchange [OF inv demo_exchange_facts(1-5) demo_surroundings _ demo_exchange_facts(6,7) demo_surroundings r, of 5 "[]" 0 mem_step]
    by auto
  let ?n = "demo_network\<lparr>daemon_at := (daemon_at demo_network)(?a \<mapsto> b'), monitor_of := m'\<rparr>"
  have "alive_or_done demo_daemon" by (simp add: alive_or_done_def serving_def demo_daemon_def)
  from probe_step [OF this demo_exchange_facts(6) message_lengths(2)] m(1) demo_exchange_facts(5,7)
  have "replied ''hub'' ?n ?a ''bip''" by (auto simp: replied_def message_def)
  moreover from this have "probed ?n ?a ''bip?''"
    using net_inv_reachable [OF m(3) demo_net_start] by (auto simp: net_inv_def honest_def bip_message_def)
  ultimately show ?thesis using m by (intro exI [of _ ?n]) (auto simp: demo_network_def demo_up)
qed

lemma up_notices_are_earned_witness:
  "\<exists>n b. (net_step demo_dns ''hub'' mem_step)\<^sup>*\<^sup>* demo_network n \<and> up (monitor_of n) 1 \<and>
     sent (tele (monitor_of n)) = [notice_request demo_monitor (1, True)] \<and>
     daemon_at n \<lparr>sin_addr = 3, sin_port = 48807\<rparr> = Some b \<and> Udp_Send ''hub'' ''bip'' \<in> set (answers b)"
proof -
  obtain n where n: "(net_step demo_dns ''hub'' mem_step)\<^sup>*\<^sup>* demo_network n" "up (monitor_of n) 1"
    "sent (tele (monitor_of n)) = [notice_request demo_monitor (1, True)]" using demo_reached by blast
  obtain ns where ns: "up (monitor_of n) 1 = last_told 1 ns (up (monitor_of demo_network) 1)"
    "\<forall>i. (i, True) \<in> set ns \<longrightarrow>
      (\<exists>a b. demo_dns (host (targets (monitor_of demo_network) ! i)) (target_port (targets (monitor_of demo_network) ! i)) = Inr a \<and>
         (a, ''bip?'') \<in> set (datagrams (monitor_of n)) \<and>
         daemon_at n a = Some b \<and> Udp_Send ''hub'' ''bip'' \<in> set (answers b))"
    using up_notices_are_earned [OF demo_net_start n(1)] by blast
  have "\<not> up (monitor_of demo_network) 1" by (simp add: demo_network_def demo_up)
  then have "(1, True) \<in> set ns" using ns(1) n(2) by (simp add: last_told_member)
  with ns(2) demo_exchange_facts(2) n show ?thesis by force
qed

lemma deliveries_are_handled_witness:
  "\<exists>n b. (net_step demo_dns ''hub'' mem_step)\<^sup>*\<^sup>* demo_network n \<and>
     daemon_at n \<lparr>sin_addr = 3, sin_port = 48807\<rparr> = Some b \<and> is_ok (beat_step (Turn demo_probe) b) \<and>
     is_ok (handle_connection mem_step (demo_env ''bip'' 3 9) (monitor_of n))"
proof -
  let ?a = "\<lparr>sin_addr = 3, sin_port = 48807\<rparr>"
  obtain n where n: "(net_step demo_dns ''hub'' mem_step)\<^sup>*\<^sup>* demo_network n"
    "probed n ?a ''bip?''" "replied ''hub'' n ?a ''bip''" using demo_reached by blast
  obtain b where b: "daemon_at n ?a = Some b" using n(3) by (auto simp: replied_def)
  have e: "surroundings demo_dns (demo_env ''bip'' 3 9)" using demo_surroundings by simp
  have d: "delivers ''hub'' ''bip?'' demo_probe" using demo_exchange_facts(6) by (simp add: bip_message_def)
  have "is_ok (beat_step (Turn demo_probe) b)"
    using deliveries_are_handled [OF demo_net_start n(1), of ?a "''bip?''" b demo_probe] n(2) b d by blast
  moreover have "is_ok (handle_connection mem_step (demo_env ''bip'' 3 9) (monitor_of n))"
    using deliveries_are_handled [OF demo_net_start n(1), of ?a "''bip''" b demo_probe "demo_env ''bip'' 3 9"] n(3) e by simp
  ultimately show ?thesis using n(1) b by blast
qed

end
