(* ===== verification/Signals.thy ===== *)
theory Signals
  imports Monitor_Runs
begin

text \<open>
  src/src/monitor.c: the stop signals. The program installs \<open>handle_signal\<close> with \<open>signal\<close>, so that it runs at once, wherever the
  program is: while libevent waits, between two calls of another handler, between its own two calls for the other signal, or
  during the start-up. Here every handler is the sequence of the calls it makes, in the order of the source, with the
  local variables it has computed; a signal cuts the sequence. What is not modelled is a signal inside a call: most
  of them (\<open>printf\<close>, \<open>malloc\<close>, \<open>getaddrinfo\<close>, libcurl, SQLite) are not async-signal-safe, and
  \<open>handle_signal\<close> calls the same libraries again, which is undefined behaviour in C.
\<close>

section \<open>Handlers as sequences of calls\<close>

type_synonym 'db call = "'db monitor \<Rightarrow> 'db monitor outcome"

definition in_sequence :: "'db call list \<Rightarrow> 'db monitor \<Rightarrow> 'db monitor outcome" where
  "in_sequence = run_steps unless_exited"

text \<open>Lines on the two streams, the call of \<open>sendto\<close>, and the calls of the clock.\<close>

definition say_err :: "string list \<Rightarrow> 'db call" where
  "say_err msgs s = Ok (s\<lparr>errs := errs s @ msgs\<rparr>)"

definition say :: "string \<Rightarrow> 'db call" where
  "say msg s = Ok (s\<lparr>outs := outs s @ [msg]\<rparr>)"

definition send_question :: "sockaddr_in \<Rightarrow> 'db call" where
  "send_question a s = Ok (s\<lparr>datagrams := datagrams s @ [(a, bip_message)]\<rparr>)"

definition start_clock :: "env \<Rightarrow> string \<Rightarrow> 'db call" where
  "start_clock e nm s = obind (logtime_set_start (realloc_ok e) (clock_now e) nm (clocks s)) (\<lambda>cs. Ok (s\<lparr>clocks := cs\<rparr>))"

definition poll_calls :: "nat \<Rightarrow> env \<Rightarrow> target list \<Rightarrow> 'db call list" where
  "poll_calls i e ts =
     (let t = ts ! i in
      case lookup_target (host t) (target_port t) e of
        (Inl _, msgs) \<Rightarrow> [say_err msgs, say_err [''Lookup error!'']]
      | (Inr a, msgs) \<Rightarrow>
          if \<not> sendto_ok e then [say_err msgs, say_err [''Error sending'']]
          else [say_err msgs, send_question a, start_clock e (target_name t),
                say (''Sending to '' @ target_name t @ '': '' @ bip_message)])"

text \<open>A notice: the line, then the message.\<close>

definition the_notice :: "nat \<Rightarrow> string \<Rightarrow> (string \<Rightarrow> 'db call) \<Rightarrow> 'db call" where
  "the_notice i what f s =
     (case strs (store s) myname of
        None \<Rightarrow> UB Null_Deref
      | Some me \<Rightarrow> f (notice me (target_name (targets s ! i)) what) s)"

definition announce_calls :: "nat \<Rightarrow> string \<Rightarrow> env \<Rightarrow> 'db call list" where
  "announce_calls i what e =
     [the_notice i what say, the_notice i what (\<lambda>txt. notify (snprintf_into 256 txt) e)]"

definition err_calls :: "nat \<Rightarrow> env \<Rightarrow> target list \<Rightarrow> 'db call list" where
  "err_calls i e ts =
     (if isonline (ts ! i) then (\<lambda>s. Ok (set_online i False s)) # announce_calls i ''down'' e else [])"

definition del_timer :: "timer \<Rightarrow> 'db call" where
  "del_timer t s = Ok (s\<lparr>timers := timers s @ [Evtimer_Del t]\<rparr>)"

definition add_err_timer :: "nat \<Rightarrow> 'db call" where
  "add_err_timer i s = Ok (s\<lparr>timers := timers s @ [Evtimer_Add (Err_Timer i) (err_tv s)]\<rparr>)"

definition reset_calls :: "nat \<Rightarrow> env \<Rightarrow> target list \<Rightarrow> 'db call list" where
  "reset_calls i e ts =
     (if \<not> isonline (ts ! i) then announce_calls i ''up'' e else []) @
     [\<lambda>s. Ok (set_online i True s), del_timer (Err_Timer i), add_err_timer i]"

definition answer_calls :: "'db step \<Rightarrow> env \<Rightarrow> target list \<Rightarrow> 'db call list" where
  "answer_calls step e ts =
     (case recvfrom e of
        None \<Rightarrow> [\<lambda>s. UB Buffer_Overflow]
      | Some (bytes, client) \<Rightarrow>
          if length (take 128 bytes) \<ge> 128 then [\<lambda>s. UB Buffer_Overflow]
          else
            (case get_target e client ts of
               (None, msgs) \<Rightarrow> [say_err msgs]
             | (Some i, msgs) \<Rightarrow>
                 [say_err msgs, say (''Received from '' @ target_name (ts ! i) @ '': '' @ cstr (take 128 bytes))] @
                 reset_calls i e ts @ [\<lambda>s. Ok (record_answer step i e s)]))"

text \<open>The handler of the signals itself: the message, the database closed, \<open>exit\<close>.\<close>

definition send_stop :: "env \<Rightarrow> 'db call" where
  "send_stop e s =
     (case strs (store s) myname of
        None \<Rightarrow> UB Null_Deref
      | Some me \<Rightarrow> notify (snprintf_into 256 (stop_text me)) e s)"

definition stop_calls :: "env \<Rightarrow> 'db call list" where
  "stop_calls e = [send_stop e, \<lambda>s. Ok (s\<lparr>exit_code := Some 0\<rparr>)]"

fun handler_calls :: "'db step \<Rightarrow> event \<Rightarrow> target list \<Rightarrow> 'db call list" where
  "handler_calls step (Poll_Event i e) ts = poll_calls i e ts"
| "handler_calls step (Err_Event i e) ts = err_calls i e ts"
| "handler_calls step (Answer_Event e) ts = answer_calls step e ts"
| "handler_calls step (Signal_Event e) ts = stop_calls e"


section \<open>The sequences are the handlers\<close>

lemma in_sequence_simps [simp]:
  "in_sequence [] s = Ok s" "in_sequence (c # cs) s = obind (unless_exited c s) (in_sequence cs)"
  by (simp_all add: in_sequence_def)

lemma in_sequence_append: "in_sequence (cs @ ds) s = obind (in_sequence cs s) (in_sequence ds)"
  by (simp add: in_sequence_def run_steps_append)

lemma in_sequence_exited [simp]: "exit_code s \<noteq> None \<Longrightarrow> in_sequence cs s = Ok s"
  by (induction cs) (auto simp: unless_exited_def)

lemma unless_exited_live: "exit_code s = None \<Longrightarrow> unless_exited c s = c s"
  by (simp add: unless_exited_def)

lemmas live_call = unless_exited_live say_def say_err_def send_question_def start_clock_def del_timer_def add_err_timer_def

lemma in_sequence_Nil: "in_sequence [] = Ok" "obind m Ok = m"
  by (simp add: fun_eq_iff) (cases m; simp)

lemma announce_sequence:
  "exit_code s = None \<Longrightarrow> in_sequence (announce_calls i what e) s = announce i what e s"
  by (simp add: announce_calls_def the_notice_def announce_def live_call Let_def in_sequence_Nil split: option.split)

lemma tail_sequence:
  "in_sequence [\<lambda>s. Ok (set_online i True s), del_timer (Err_Timer i), add_err_timer i] =
   unless_exited (\<lambda>s1. let s2 = set_online i True s1
     in Ok (s2\<lparr>timers := timers s2 @ [Evtimer_Del (Err_Timer i), Evtimer_Add (Err_Timer i) (err_tv s2)]\<rparr>))"
proof
  fix s1 :: "'db monitor"
  show "in_sequence [\<lambda>s. Ok (set_online i True s), del_timer (Err_Timer i), add_err_timer i] s1 =
    unless_exited (\<lambda>s1. let s2 = set_online i True s1
      in Ok (s2\<lparr>timers := timers s2 @ [Evtimer_Del (Err_Timer i), Evtimer_Add (Err_Timer i) (err_tv s2)]\<rparr>)) s1"
    by (cases "exit_code s1 = None", simp add: live_call) (auto simp: unless_exited_def simp del: in_sequence_simps)
qed

lemma reset_sequence:
  assumes "exit_code s = None"
  shows "in_sequence (reset_calls i e (targets s)) s = reset_error_timer i e s"
  unfolding reset_error_timer_def reset_calls_def in_sequence_append tail_sequence
  using announce_sequence [OF assms, of i "''up''" e] by (simp del: in_sequence_simps add: in_sequence_simps(1))

text \<open>Each handler makes exactly these calls.\<close>

lemma handler_sequence:
  fixes s :: "'db monitor"
  assumes "exit_code s = None"
  shows "in_sequence (handler_calls step ev (targets s)) s = handle_event step ev s"
proof (cases ev)
  case (Poll_Event i e)
  then show ?thesis using assms
    by (cases s) (auto simp: poll_calls_def handle_poll_event_def send_bip_def live_call obind_assoc Let_def split: sum.splits prod.splits)
next
  case (Err_Event i e)
  then show ?thesis using assms announce_sequence [of "set_online i False s" i "''down''" e]
    by (auto simp: err_calls_def handle_err_event_def live_call)
next
  case (Signal_Event e)
  have "in_sequence [\<lambda>s. Ok (s\<lparr>exit_code := Some 0\<rparr>)] = unless_exited (\<lambda>s1 :: 'db monitor. Ok (s1\<lparr>exit_code := Some 0\<rparr>))"
    by (simp add: fun_eq_iff in_sequence_Nil)
  then show ?thesis using Signal_Event assms
    by (auto simp del: in_sequence_simps(2) simp: in_sequence_simps(2) [of "send_stop e"] stop_calls_def send_stop_def handle_signal_def live_call in_sequence_Nil split: option.split)
next
  case (Answer_Event e)
  show ?thesis
  proof (cases "\<exists>bytes client i msgs. recvfrom e = Some (bytes, client) \<and> length bytes < 128 \<and>
      get_target e client (targets s) = (Some i, msgs)")
    case True
    then obtain bytes client i msgs where r: "recvfrom e = Some (bytes, client)" "length bytes < 128"
      "get_target e client (targets s) = (Some i, msgs)" by blast
    let ?s0 = "s\<lparr>errs := errs s @ msgs,
        outs := outs s @ [''Received from '' @ target_name (targets s ! i) @ '': '' @ cstr bytes]\<rparr>"
    have rs: "in_sequence (reset_calls i e (targets s)) ?s0 = reset_error_timer i e ?s0"
      using reset_sequence [of ?s0 i e] assms by simp
    have "in_sequence [\<lambda>s. Ok (record_answer step i e s)] = unless_exited (\<lambda>s1. Ok (record_answer step i e s1))"
      by (simp add: fun_eq_iff in_sequence_Nil)
    then show ?thesis using Answer_Event r assms rs
      by (simp add: answer_calls_def handle_connection_def handle_answer_def live_call in_sequence_append del: in_sequence_simps(2))
        (simp add: in_sequence_simps(2) [of "say_err msgs"] in_sequence_simps(2) [of "say _"] live_call in_sequence_append)
  next
    case False
    then consider "recvfrom e = None" | bytes client where "recvfrom e = Some (bytes, client)" "128 \<le> length bytes"
      | bytes client msgs where "recvfrom e = Some (bytes, client)" "length bytes < 128" "get_target e client (targets s) = (None, msgs)"
      by (metis linorder_not_less not_Some_eq prod.exhaust)
    then show ?thesis
      by cases (use Answer_Event assms in \<open>simp_all add: answer_calls_def handle_connection_def handle_answer_def live_call\<close>)
  qed
qed

section \<open>What each call does\<close>















section \<open>The end of the process\<close>







text \<open>
  The handler is installed before the configuration is read: a signal that comes before the token is known (while \<open>init\<close> runs,
  or while \<open>telegram_init\<close> does) prints a NULL pointer, for the name or for the token.
\<close>

lemma early_signal:
  assumes "strs (store s) myname = None \<or> strs (store s) telegram_token = None"
    and "\<And>me. strs (store s) myname = Some me \<Longrightarrow> no_nul me"
  shows "handle_signal e s = UB Null_Deref"
proof (cases "strs (store s) myname")
  case (Some me)
  then have "no_nul (snprintf_into 256 (stop_text me))"
    using assms(2) by (simp add: snprintf_into_def stop_text_def)
  then show ?thesis using bad_token [of "store s" "snprintf_into 256 (stop_text me)"] assms(1) Some
    by (simp add: handle_signal_def notify_def)
qed (simp add: handle_signal_def)

lemma early_signal_witness:
  "handle_signal (demo_env [] 0 0) demo_blank = UB Null_Deref"
  using early_signal [of demo_blank] by (simp add: demo_blank_def start_state_def)

end
