(* ===== verification/Json_Links.thy ===== *)
theory Json_Links
  imports Json_Data
begin

text \<open>
  src/libs/cJSON.c, the operations that rewire the links of items: detaching, inserting, replacing
  and deleting. Items are nodes of an explicit store, a map from addresses to
  nodes with the pointers \<open>next\<close>, \<open>prev\<close> and \<open>child\<close>. The lemmas show each operation on
  the list of a parent's children, and deletion on the trees below.
\<close>

section \<open>Nodes\<close>

text \<open>\<open>node_item\<close> holds the fields of the item that are no links (its own list of children is not used).\<close>

record node =
  node_item :: cJSON
  node_child :: "nat option"
  node_next :: "nat option"
  node_prev :: "nat option"

type_synonym links = "nat \<Rightarrow> node option"

definition node_at :: "links \<Rightarrow> nat \<Rightarrow> node outcome" where
  "node_at m p = (case m p of None \<Rightarrow> UB Use_After_Free | Some n \<Rightarrow> Ok n)"

definition change :: "nat \<Rightarrow> (node \<Rightarrow> node) \<Rightarrow> links \<Rightarrow> links outcome" where
  "change p f m = obind (node_at m p) (\<lambda>n. Ok (m(p \<mapsto> f n)))"

text \<open>A write through a pointer that is tested for NULL first.\<close>

definition change_opt :: "nat option \<Rightarrow> (node \<Rightarrow> node) \<Rightarrow> links \<Rightarrow> links outcome" where
  "change_opt p f m = (case p of None \<Rightarrow> Ok m | Some q \<Rightarrow> change q f m)"

lemma node_at_simps [simp]: "m p = Some n \<Longrightarrow> node_at m p = Ok n" "m p = None \<Longrightarrow> node_at m p = UB Use_After_Free"
  by (simp_all add: node_at_def)

lemma change_simp [simp]: "m p = Some n \<Longrightarrow> change p f m = Ok (m(p \<mapsto> f n))"
  by (simp add: change_def)

lemma change_opt_simps [simp]: "change_opt None f m = Ok m" "change_opt (Some p) f m = change p f m"
  by (simp_all add: change_opt_def)

section \<open>Operations\<close>

text \<open>The walks: structural on the index, with fuel along \<open>next\<close>.\<close>

fun walk :: "links \<Rightarrow> nat option \<Rightarrow> nat \<Rightarrow> nat option outcome" where
  "walk m None index = Ok None"
| "walk m (Some a) 0 = Ok (Some a)"
| "walk m (Some a) (Suc index) = obind (node_at m a) (\<lambda>n. walk m (node_next n) index)"

definition get_array_item_at :: "links \<Rightarrow> nat option \<Rightarrow> nat \<Rightarrow> nat option outcome" where
  "get_array_item_at m array index =
     (case array of None \<Rightarrow> Ok None | Some a \<Rightarrow> obind (node_at m a) (\<lambda>n. walk m (node_child n) index))"

fun search_name :: "nat \<Rightarrow> links \<Rightarrow> string \<Rightarrow> bool \<Rightarrow> nat option \<Rightarrow> nat option outcome" where
  "search_name fuel m k case_sensitive None = Ok None"
| "search_name 0 m k case_sensitive (Some a) = UB Endless_Loop"
| "search_name (Suc fuel) m k case_sensitive (Some a) =
     obind (node_at m a)
       (\<lambda>n. if case_sensitive \<and> item_name (node_item n) = None then UB Null_Deref
            else if (if case_sensitive then item_name (node_item n) = Some k
                     else case_insensitive_strcmp (Some k) (item_name (node_item n)) = 0) then Ok (Some a)
            else search_name fuel m k case_sensitive (node_next n))"

definition get_object_item_at :: "nat \<Rightarrow> links \<Rightarrow> nat option \<Rightarrow> string option \<Rightarrow> bool \<Rightarrow> nat option outcome" where
  "get_object_item_at fuel m object name case_sensitive =
     (case (object, name) of
        (Some ob, Some k) \<Rightarrow> obind (node_at m ob) (\<lambda>n. search_name fuel m k case_sensitive (node_child n))
      | _ \<Rightarrow> Ok None)"

definition suffix_object :: "nat \<Rightarrow> nat \<Rightarrow> links \<Rightarrow> links outcome" where
  "suffix_object prev item m =
     obind (change prev (node_next_update (\<lambda>_. Some item)) m) (change item (node_prev_update (\<lambda>_. Some prev)))"

fun last_sibling :: "nat \<Rightarrow> links \<Rightarrow> nat \<Rightarrow> nat outcome" where
  "last_sibling 0 m a = UB Endless_Loop"
| "last_sibling (Suc fuel) m a =
     obind (node_at m a) (\<lambda>n. case node_next n of None \<Rightarrow> Ok a | Some b \<Rightarrow> last_sibling fuel m b)"

definition add_item_to_array_at :: "nat \<Rightarrow> nat option \<Rightarrow> nat option \<Rightarrow> links \<Rightarrow> (bool \<times> links) outcome" where
  "add_item_to_array_at fuel array item m =
     (case (array, item) of
        (Some a, Some i) \<Rightarrow>
          obind (node_at m a)
            (\<lambda>n. case node_child n of
                None \<Rightarrow> obind (change a (node_child_update (\<lambda>_. Some i)) m) (\<lambda>m1. Ok (True, m1))
              | Some c \<Rightarrow>
                  obind (last_sibling fuel m c)
                    (\<lambda>l. obind (suffix_object l i m) (\<lambda>m1. Ok (True, m1))))
      | _ \<Rightarrow> Ok (False, m))"

definition cJSON_DetachItemViaPointer :: "nat option \<Rightarrow> nat option \<Rightarrow> links \<Rightarrow> (nat option \<times> links) outcome" where
  "cJSON_DetachItemViaPointer parent item m =
     (case (parent, item) of
        (Some pa, Some it) \<Rightarrow>
          obind (node_at m it)
            (\<lambda>n. obind (change_opt (node_prev n) (node_next_update (\<lambda>_. node_next n)) m)
               (\<lambda>m1. obind (node_at m1 it)
                  (\<lambda>n1. obind (change_opt (node_next n1) (node_prev_update (\<lambda>_. node_prev n1)) m1)
                     (\<lambda>m2. obind (node_at m2 pa)
                        (\<lambda>np. obind (if node_child np = Some it
                                      then obind (node_at m2 it) (\<lambda>n2. change pa (node_child_update (\<lambda>_. node_next n2)) m2)
                                      else Ok m2)
                           (\<lambda>m3. obind (change it (\<lambda>n. n\<lparr>node_prev := None, node_next := None\<rparr>) m3)
                              (\<lambda>m4. Ok (Some it, m4))))))))
      | _ \<Rightarrow> Ok (None, m))"

definition cJSON_DetachItemFromArray :: "nat option \<Rightarrow> int \<Rightarrow> links \<Rightarrow> (nat option \<times> links) outcome" where
  "cJSON_DetachItemFromArray array which m =
     (if which < 0 then Ok (None, m)
      else obind (get_array_item_at m array (nat which)) (\<lambda>item. cJSON_DetachItemViaPointer array item m))"

definition cJSON_DetachItemFromObject :: "nat \<Rightarrow> nat option \<Rightarrow> string option \<Rightarrow> links \<Rightarrow> (nat option \<times> links) outcome" where
  "cJSON_DetachItemFromObject fuel object name m =
     obind (get_object_item_at fuel m object name False) (\<lambda>to_detach. cJSON_DetachItemViaPointer object to_detach m)"

definition cJSON_DetachItemFromObjectCaseSensitive ::
    "nat \<Rightarrow> nat option \<Rightarrow> string option \<Rightarrow> links \<Rightarrow> (nat option \<times> links) outcome" where
  "cJSON_DetachItemFromObjectCaseSensitive fuel object name m =
     obind (get_object_item_at fuel m object name True) (\<lambda>to_detach. cJSON_DetachItemViaPointer object to_detach m)"

text \<open>\<open>cJSON_Delete\<close> on nodes: the fields of an item are read again after its children are gone.\<close>

fun delete_at :: "nat \<Rightarrow> nat option \<Rightarrow> links \<times> hooks \<Rightarrow> (links \<times> hooks) outcome" where
  "delete_at fuel None s = Ok s"
| "delete_at 0 (Some a) s = UB Endless_Loop"
| "delete_at (Suc fuel) (Some a) (m, h) =
     obind (node_at m a)
       (\<lambda>n. obind (if \<not> is_reference (node_item n) \<and> node_child n \<noteq> None then delete_at fuel (node_child n) (m, h) else Ok (m, h))
          (\<lambda>(m1, h1). obind (node_at m1 a)
             (\<lambda>n1. let i = node_item n1;
                       h2 = (if \<not> is_reference i \<and> valuestring i \<noteq> None then deallocate h1 else h1);
                       h3 = (if \<not> string_is_const i \<and> item_name i \<noteq> None then deallocate h2 else h2)
                   in delete_at fuel (node_next n) (m1(a := None), deallocate h3))))"

definition cJSON_DeleteItemFromArray :: "nat \<Rightarrow> nat option \<Rightarrow> int \<Rightarrow> links \<times> hooks \<Rightarrow> (links \<times> hooks) outcome" where
  "cJSON_DeleteItemFromArray fuel array which s =
     obind (cJSON_DetachItemFromArray array which (fst s)) (\<lambda>(item, m). delete_at fuel item (m, snd s))"

definition cJSON_DeleteItemFromObject :: "nat \<Rightarrow> nat option \<Rightarrow> string option \<Rightarrow> links \<times> hooks \<Rightarrow> (links \<times> hooks) outcome" where
  "cJSON_DeleteItemFromObject fuel object name s =
     obind (cJSON_DetachItemFromObject fuel object name (fst s)) (\<lambda>(item, m). delete_at fuel item (m, snd s))"

definition cJSON_DeleteItemFromObjectCaseSensitive ::
    "nat \<Rightarrow> nat option \<Rightarrow> string option \<Rightarrow> links \<times> hooks \<Rightarrow> (links \<times> hooks) outcome" where
  "cJSON_DeleteItemFromObjectCaseSensitive fuel object name s =
     obind (cJSON_DetachItemFromObjectCaseSensitive fuel object name (fst s)) (\<lambda>(item, m). delete_at fuel item (m, snd s))"

text \<open>\<open>newitem\<close> is not tested before its links are written, and \<open>newitem->prev\<close> not before it is followed.\<close>

definition cJSON_InsertItemInArray :: "nat \<Rightarrow> nat option \<Rightarrow> int \<Rightarrow> nat option \<Rightarrow> links \<Rightarrow> links outcome" where
  "cJSON_InsertItemInArray fuel array which newitem m =
     (if which < 0 then Ok m
      else
        obind (get_array_item_at m array (nat which))
          (\<lambda>after_inserted. case (after_inserted, newitem, array) of
              (None, _, _) \<Rightarrow> obind (add_item_to_array_at fuel array newitem m) (\<lambda>(_, m1). Ok m1)
            | (Some b, Some i, Some a) \<Rightarrow>
                obind (change i (node_next_update (\<lambda>_. Some b)) m)
                  (\<lambda>m1. obind (node_at m1 b)
                     (\<lambda>nb. obind (change i (node_prev_update (\<lambda>_. node_prev nb)) m1)
                        (\<lambda>m2. obind (change b (node_prev_update (\<lambda>_. Some i)) m2)
                           (\<lambda>m3. obind (node_at m3 a)
                              (\<lambda>na. if node_child na = Some b then change a (node_child_update (\<lambda>_. Some i)) m3
                                    else obind (node_at m3 i)
                                           (\<lambda>ni. case node_prev ni of
                                               None \<Rightarrow> UB Null_Deref
                                             | Some q \<Rightarrow> change q (node_next_update (\<lambda>_. Some i)) m3))))))
            | _ \<Rightarrow> UB Null_Deref))"

definition cJSON_ReplaceItemViaPointer ::
    "nat \<Rightarrow> nat option \<Rightarrow> nat option \<Rightarrow> nat option \<Rightarrow> links \<times> hooks \<Rightarrow> (bool \<times> links \<times> hooks) outcome" where
  "cJSON_ReplaceItemViaPointer fuel parent item replacement s =
     (case (parent, item, replacement) of
        (Some pa, Some it, Some r) \<Rightarrow>
          if r = it then Ok (True, s)
          else
            obind (node_at (fst s) it)
              (\<lambda>n. obind (change r (\<lambda>nr. nr\<lparr>node_next := node_next n, node_prev := node_prev n\<rparr>) (fst s))
                 (\<lambda>m1. obind (node_at m1 r)
                    (\<lambda>nr. obind (change_opt (node_next nr) (node_prev_update (\<lambda>_. Some r)) m1)
                       (\<lambda>m2. obind (node_at m2 r)
                          (\<lambda>nr2. obind (change_opt (node_prev nr2) (node_next_update (\<lambda>_. Some r)) m2)
                             (\<lambda>m3. obind (node_at m3 pa)
                                (\<lambda>np. obind (if node_child np = Some it then change pa (node_child_update (\<lambda>_. Some r)) m3 else Ok m3)
                                   (\<lambda>m4. obind (change it (\<lambda>n. n\<lparr>node_next := None, node_prev := None\<rparr>) m4)
                                      (\<lambda>m5. obind (delete_at fuel (Some it) (m5, snd s)) (\<lambda>s1. Ok (True, s1)))))))))))
      | _ \<Rightarrow> Ok (False, s))"

definition cJSON_ReplaceItemInArray ::
    "nat \<Rightarrow> nat option \<Rightarrow> int \<Rightarrow> nat option \<Rightarrow> links \<times> hooks \<Rightarrow> (links \<times> hooks) outcome" where
  "cJSON_ReplaceItemInArray fuel array which newitem s =
     (if which < 0 then Ok s
      else obind (get_array_item_at (fst s) array (nat which))
             (\<lambda>item. obind (cJSON_ReplaceItemViaPointer fuel array item newitem s) (\<lambda>(_, s1). Ok s1)))"

text \<open>
  The name of the replacement is exchanged before the member is looked up; a copy that could not be
  made is a NULL name. The result does not tell whether a member was replaced.
\<close>

definition replace_item_in_object ::
    "nat \<Rightarrow> nat option \<Rightarrow> string option \<Rightarrow> nat option \<Rightarrow> bool \<Rightarrow> links \<times> hooks \<Rightarrow> (bool \<times> links \<times> hooks) outcome" where
  "replace_item_in_object fuel object name replacement case_sensitive s =
     (case (replacement, name) of
        (Some r, Some k) \<Rightarrow>
          obind (node_at (fst s) r)
            (\<lambda>n. let i = node_item n;
                     h1 = (if \<not> string_is_const i \<and> item_name i \<noteq> None then deallocate (snd s) else snd s)
                 in case cJSON_strdup (Some k) h1 of
                      (new_name, h2) \<Rightarrow>
                        obind (change r (node_item_update (\<lambda>_. set_type (type i AND NOT cJSON_StringIsConst) (set_name new_name i))) (fst s))
                          (\<lambda>m1. obind (get_object_item_at fuel m1 object (Some k) case_sensitive)
                             (\<lambda>item. obind (cJSON_ReplaceItemViaPointer fuel object item (Some r) (m1, h2))
                                (\<lambda>(_, s1). Ok (True, s1)))))
      | _ \<Rightarrow> Ok (False, s))"

definition cJSON_ReplaceItemInObject ::
    "nat \<Rightarrow> nat option \<Rightarrow> string option \<Rightarrow> nat option \<Rightarrow> links \<times> hooks \<Rightarrow> (links \<times> hooks) outcome" where
  "cJSON_ReplaceItemInObject fuel object name newitem s =
     obind (replace_item_in_object fuel object name newitem False s) (\<lambda>(_, s1). Ok s1)"

definition cJSON_ReplaceItemInObjectCaseSensitive ::
    "nat \<Rightarrow> nat option \<Rightarrow> string option \<Rightarrow> nat option \<Rightarrow> links \<times> hooks \<Rightarrow> (links \<times> hooks) outcome" where
  "cJSON_ReplaceItemInObjectCaseSensitive fuel object name newitem s =
     obind (replace_item_in_object fuel object name newitem True s) (\<lambda>(_, s1). Ok s1)"

section \<open>Lists of children\<close>

text \<open>
  \<open>seg m pr p as q\<close>: from \<open>p\<close> the links \<open>next\<close> lead over the nodes \<open>as\<close> to \<open>q\<close>, and the links
  \<open>prev\<close> lead back to \<open>pr\<close>.
\<close>

fun seg :: "links \<Rightarrow> nat option \<Rightarrow> nat option \<Rightarrow> nat list \<Rightarrow> nat option \<Rightarrow> bool" where
  "seg m pr p [] q \<longleftrightarrow> p = q"
| "seg m pr p (a # as) q \<longleftrightarrow>
     p = Some a \<and> (\<exists>n. m a = Some n \<and> node_prev n = pr \<and> seg m (Some a) (node_next n) as q)"

definition end_of :: "nat option \<Rightarrow> nat list \<Rightarrow> nat option" where
  "end_of pr as = (if as = [] then pr else Some (last as))"

definition start_of :: "nat list \<Rightarrow> nat option \<Rightarrow> nat option" where
  "start_of as q = (case as of [] \<Rightarrow> q | a # _ \<Rightarrow> Some a)"

lemma end_of_simps [simp]: "end_of pr [] = pr" "end_of pr (as @ [a]) = Some a" "end_of pr (a # as) = end_of (Some a) as"
  by (simp_all add: end_of_def)

lemma start_of_simps [simp]: "start_of [] q = q" "start_of (a # as) q = Some a"
  by (simp_all add: start_of_def)

lemma seg_start: "seg m pr p as q \<Longrightarrow> p = start_of as q"
  by (cases as) simp_all

lemma seg_append: "seg m pr p (as @ bs) q \<longleftrightarrow> seg m pr p as (start_of bs q) \<and> seg m (end_of pr as) (start_of bs q) bs q"
proof (induction as arbitrary: pr p)
  case Nil
  then show ?case using seg_start [of m pr p bs q] by auto
next
  case (Cons a as)
  then show ?case by auto
qed

lemma seg_frame: "(\<And>a. a \<in> set as \<Longrightarrow> m' a = m a) \<Longrightarrow> seg m' pr p as q = seg m pr p as q"
  by (induction as arbitrary: pr p) simp_all

lemma seg_upd [simp]: "x \<notin> set as \<Longrightarrow> seg (m(x := v)) pr p as q = seg m pr p as q"
  by (rule seg_frame) auto

text \<open>The link behind the last node, and the link in front of the first, can be set.\<close>

lemma seg_set_next:
  "seg m pr p (as @ [b]) q \<Longrightarrow> b \<notin> set as \<Longrightarrow> m b = Some n \<Longrightarrow> node_prev n' = node_prev n \<Longrightarrow>
   seg (m(b \<mapsto> n')) pr p (as @ [b]) (node_next n')"
  by (simp add: seg_append)

lemma seg_set_prev:
  "seg m pr p (b # as) q \<Longrightarrow> b \<notin> set as \<Longrightarrow> m b = Some n \<Longrightarrow> node_next n' = node_next n \<Longrightarrow>
   seg (m(b \<mapsto> n')) (node_prev n') p (b # as) q"
  by simp

definition children :: "links \<Rightarrow> nat \<Rightarrow> nat list \<Rightarrow> bool" where
  "children m pa as \<longleftrightarrow> (\<exists>n. m pa = Some n \<and> seg m None (node_child n) as None) \<and> distinct (pa # as)"

text \<open>The walk finds the child with an index.\<close>

lemma walk_seg: "seg m pr p as None \<Longrightarrow> walk m p i = Ok (if i < length as then Some (as ! i) else None)"
proof (induction as arbitrary: pr p i)
  case (Cons a as)
  then show ?case by (cases i) auto
qed simp

lemma get_array_item_children:
  "children m pa as \<Longrightarrow> get_array_item_at m (Some pa) i = Ok (if i < length as then Some (as ! i) else None)"
  by (auto simp: children_def get_array_item_at_def walk_seg)

text \<open>What an operation on the children of \<open>pa\<close> leaves alone: everything but links among \<open>as\<close> and the child link of \<open>pa\<close>.\<close>

definition relinks :: "nat \<Rightarrow> nat set \<Rightarrow> links \<Rightarrow> links \<Rightarrow> bool" where
  "relinks pa A m m' \<longleftrightarrow> (\<forall>a. case m a of
      None \<Rightarrow> m' a = None
    | Some n \<Rightarrow> \<exists>n'. m' a = Some n' \<and> node_item n' = node_item n \<and> (a \<noteq> pa \<longrightarrow> node_child n' = node_child n) \<and>
        (a \<notin> A \<longrightarrow> node_next n' = node_next n \<and> node_prev n' = node_prev n))"

lemma relinks_refl: "relinks pa A m m"
  by (auto simp: relinks_def split: option.split)

lemma relinks_change:
  assumes "relinks pa A m m'" and "m' a = Some n" and "node_item n' = node_item n"
    and "a \<noteq> pa \<longrightarrow> node_child n' = node_child n"
    and "a \<notin> A \<longrightarrow> node_next n' = node_next n \<and> node_prev n' = node_prev n"
  shows "relinks pa A m (m'(a \<mapsto> n'))"
  unfolding relinks_def
proof
  fix b
  have "case m b of None \<Rightarrow> m' b = None
    | Some n \<Rightarrow> \<exists>n'. m' b = Some n' \<and> node_item n' = node_item n \<and> (b \<noteq> pa \<longrightarrow> node_child n' = node_child n) \<and>
        (b \<notin> A \<longrightarrow> node_next n' = node_next n \<and> node_prev n' = node_prev n)"
    using assms(1) by (simp add: relinks_def)
  then show "case m b of None \<Rightarrow> (m'(a \<mapsto> n')) b = None
    | Some n \<Rightarrow> \<exists>n''. (m'(a \<mapsto> n')) b = Some n'' \<and> node_item n'' = node_item n \<and> (b \<noteq> pa \<longrightarrow> node_child n'' = node_child n) \<and>
        (b \<notin> A \<longrightarrow> node_next n'' = node_next n \<and> node_prev n'' = node_prev n)"
    using assms(2-5) by (cases "b = a") (auto split: option.splits)
qed

lemma relinks_in:
  "relinks pa A m m' \<Longrightarrow> m' a = Some n \<Longrightarrow> a \<in> A \<Longrightarrow> node_item n' = node_item n \<Longrightarrow> node_child n' = node_child n \<Longrightarrow>
   relinks pa A m (m'(a \<mapsto> n'))"
  using relinks_change [of pa A m m' a n n'] by simp

lemma relinks_parent:
  "relinks pa A m m' \<Longrightarrow> m' pa = Some n \<Longrightarrow> relinks pa A m (m'(pa \<mapsto> n\<lparr>node_child := x\<rparr>))"
  using relinks_change [of pa A m m' pa n "n\<lparr>node_child := x\<rparr>"] by simp

section \<open>Detaching\<close>

lemma detach_cases:
  assumes "children m pa (xs @ it # ys)"
  shows "\<exists>m' n. cJSON_DetachItemViaPointer (Some pa) (Some it) m = Ok (Some it, m') \<and> children m' pa (xs @ ys) \<and>
    m' it = Some n \<and> node_next n = None \<and> node_prev n = None \<and> relinks pa (set (xs @ it # ys)) m m'"
proof -
  obtain np where np: "m pa = Some np" "seg m None (node_child np) (xs @ it # ys) None" and d: "distinct (pa # xs @ it # ys)"
    using assms by (auto simp: children_def)
  obtain n where n: "m it = Some n" "node_prev n = end_of None xs" "seg m (Some it) (node_next n) ys None"
    and sx: "seg m None (node_child np) xs (Some it)"
    using np(2) by (auto simp: seg_append)
  have nx: "node_next n = start_of ys None" using seg_start [OF n(3)] .
  define n0 where "n0 = n\<lparr>node_prev := None, node_next := None\<rparr>"
  have n0: "node_item n0 = node_item n" "node_child n0 = node_child n" "node_next n0 = None" "node_prev n0 = None"
    by (simp_all add: n0_def)
  show ?thesis
  proof (cases xs rule: rev_cases)
    case Nil
    have c: "node_child np = Some it" using sx Nil by simp
    show ?thesis
    proof (cases ys)
      case ys: Nil
      let ?m = "m(pa \<mapsto> np\<lparr>node_child := None\<rparr>, it \<mapsto> n0)"
      have "cJSON_DetachItemViaPointer (Some pa) (Some it) m = Ok (Some it, ?m)"
        using np n nx c d Nil ys by (simp add: cJSON_DetachItemViaPointer_def n0_def)
      moreover have "children ?m pa (xs @ ys)" using d Nil ys by (simp add: children_def)
      moreover have "relinks pa (set (xs @ it # ys)) m ?m"
        using np(1) n(1) d n0
        by - (rule relinks_in [where n = n], rule relinks_parent [where n = np], rule relinks_refl, simp_all)
      ultimately show ?thesis using n0 d by (intro exI [of _ ?m] exI [of _ n0]) simp
    next
      case (Cons b zs)
      obtain nb where nb: "m b = Some nb" "node_prev nb = Some it" "seg m (Some b) (node_next nb) zs None"
        using n(3) nx Cons by auto
      let ?m = "m(b \<mapsto> nb\<lparr>node_prev := None\<rparr>, pa \<mapsto> np\<lparr>node_child := Some b\<rparr>, it \<mapsto> n0)"
      have "cJSON_DetachItemViaPointer (Some pa) (Some it) m = Ok (Some it, ?m)"
        using np n nx c d Nil Cons nb by (simp add: cJSON_DetachItemViaPointer_def n0_def)
      moreover have "children ?m pa (xs @ ys)" using d Nil Cons nb by (simp add: children_def)
      moreover have "relinks pa (set (xs @ it # ys)) m ?m"
        using np(1) n(1) d n0 nb(1) Cons
        by - (rule relinks_in [where n = n], rule relinks_parent [where n = np], rule relinks_in [where n = nb], rule relinks_refl, simp_all)
      ultimately show ?thesis using n0 d by (intro exI [of _ ?m] exI [of _ n0]) simp
    qed
  next
    case (snoc ws a)
    obtain na where na: "m a = Some na" "node_prev na = end_of None ws" "node_next na = Some it"
      and sw: "seg m None (node_child np) ws (Some a)"
      using sx snoc by (auto simp: seg_append)
    have c: "node_child np = start_of ws (Some a)" using seg_start [OF sw] .
    have nc: "node_child np \<noteq> Some it" using c d snoc by (cases ws) auto
    have pr: "node_prev n = Some a" using n(2) snoc by simp
    show ?thesis
    proof (cases ys)
      case ys: Nil
      let ?m = "m(a \<mapsto> na\<lparr>node_next := None\<rparr>, it \<mapsto> n0)"
      have "cJSON_DetachItemViaPointer (Some pa) (Some it) m = Ok (Some it, ?m)"
        using np n nx nc pr d snoc ys na by (simp add: cJSON_DetachItemViaPointer_def n0_def)
      moreover have "children ?m pa (xs @ ys)" using d snoc ys na sw np by (simp add: children_def seg_append)
      moreover have "relinks pa (set (xs @ it # ys)) m ?m"
        using np(1) n(1) d n0 na(1) snoc
        by - (rule relinks_in [where n = n], rule relinks_in [where n = na], rule relinks_refl, simp_all)
      ultimately show ?thesis using n0 d by (intro exI [of _ ?m] exI [of _ n0]) simp
    next
      case (Cons b zs)
      obtain nb where nb: "m b = Some nb" "node_prev nb = Some it" "seg m (Some b) (node_next nb) zs None"
        using n(3) nx Cons by auto
      let ?m = "m(a \<mapsto> na\<lparr>node_next := Some b\<rparr>, b \<mapsto> nb\<lparr>node_prev := Some a\<rparr>, it \<mapsto> n0)"
      have "cJSON_DetachItemViaPointer (Some pa) (Some it) m = Ok (Some it, ?m)"
        using np n nx nc pr d snoc Cons na nb by (simp add: cJSON_DetachItemViaPointer_def n0_def)
      moreover have "children ?m pa (xs @ ys)" using d snoc Cons na nb sw np by (simp add: children_def seg_append)
      moreover have "relinks pa (set (xs @ it # ys)) m ?m"
        using np(1) n(1) d n0 na(1) nb(1) snoc Cons
        by - (rule relinks_in [where n = n], rule relinks_in [where n = nb], rule relinks_in [where n = na], rule relinks_refl, simp_all)
      ultimately show ?thesis using n0 d by (intro exI [of _ ?m] exI [of _ n0]) simp
    qed
  qed
qed

section \<open>Inserting\<close>

definition alone :: "links \<Rightarrow> nat \<Rightarrow> bool" where
  "alone m a \<longleftrightarrow> (\<exists>n. m a = Some n \<and> node_next n = None \<and> node_prev n = None)"

lemma last_sibling_seg:
  "seg m pr (Some c) as None \<Longrightarrow> length as \<le> fuel \<Longrightarrow> last_sibling fuel m c = Ok (last as)"
proof (induction as arbitrary: pr c fuel)
  case (Cons a as)
  then obtain f where f: "fuel = Suc f" by (cases fuel) auto
  show ?case
  proof (cases as)
    case Nil
    then show ?thesis using Cons.prems f by auto
  next
    case (Cons b bs)
    then obtain n where "m c = Some n" "node_next n = Some b" "seg m (Some a) (Some b) as None" using Cons.prems by auto
    then show ?thesis using Cons.IH [of "Some a" b f] Cons.prems(2) f Cons by simp
  qed
qed simp

lemma append_cases:
  assumes "children m pa as" and "alone m r" and "r \<notin> set (pa # as)" and "length as \<le> fuel"
  shows "\<exists>m'. add_item_to_array_at fuel (Some pa) (Some r) m = Ok (True, m') \<and> children m' pa (as @ [r]) \<and>
    relinks pa (insert r (set as)) m m'"
proof -
  obtain np where np: "m pa = Some np" "seg m None (node_child np) as None" and d: "distinct (pa # as)"
    using assms(1) by (auto simp: children_def)
  obtain nr where nr: "m r = Some nr" "node_next nr = None" "node_prev nr = None" using assms(2) by (auto simp: alone_def)
  show ?thesis
  proof (cases as rule: rev_cases)
    case Nil
    let ?m = "m(pa \<mapsto> np\<lparr>node_child := Some r\<rparr>)"
    have "add_item_to_array_at fuel (Some pa) (Some r) m = Ok (True, ?m)"
      using np Nil by (simp add: add_item_to_array_at_def)
    moreover have "children ?m pa (as @ [r])" using nr assms(3) Nil by (simp add: children_def)
    moreover have "relinks pa (insert r (set as)) m ?m"
      using np(1)
        by - (rule relinks_parent [where n = np], rule relinks_refl, simp_all)
    ultimately show ?thesis by blast
  next
    case (snoc ws a)
    obtain na where na: "m a = Some na" "node_prev na = end_of None ws" "node_next na = None"
      and sw: "seg m None (node_child np) ws (Some a)"
      using np(2) snoc by (auto simp: seg_append)
    obtain c where c: "node_child np = Some c" using seg_start [OF sw] by (cases ws) auto
    have l: "last_sibling fuel m c = Ok a" using last_sibling_seg [of m None c as fuel] np(2) c assms(4) snoc by simp
    let ?m = "m(a \<mapsto> na\<lparr>node_next := Some r\<rparr>, r \<mapsto> nr\<lparr>node_prev := Some a\<rparr>)"
    have "add_item_to_array_at fuel (Some pa) (Some r) m = Ok (True, ?m)"
      using np c l na nr assms(3) snoc by (simp add: add_item_to_array_at_def suffix_object_def)
    moreover have "children ?m pa (as @ [r])" using d snoc na nr sw np assms(3) by (simp add: children_def seg_append)
    moreover have "relinks pa (insert r (set as)) m ?m"
      using nr na(1) snoc assms(3)
        by - (rule relinks_in [where n = nr], rule relinks_in [where n = na], rule relinks_refl, simp_all)
    ultimately show ?thesis by blast
  qed
qed

lemma insert_cases:
  assumes "children m pa (xs @ b # ys)" and "alone m r" and "r \<notin> set (pa # xs @ b # ys)"
  shows "\<exists>m'. cJSON_InsertItemInArray fuel (Some pa) (int (length xs)) (Some r) m = Ok m' \<and>
    children m' pa (xs @ r # b # ys) \<and> relinks pa (insert r (set (xs @ b # ys))) m m'"
proof -
  obtain np where np: "m pa = Some np" "seg m None (node_child np) (xs @ b # ys) None" and d: "distinct (pa # xs @ b # ys)"
    using assms(1) by (auto simp: children_def)
  obtain nr where nr: "m r = Some nr" using assms(2) by (auto simp: alone_def)
  obtain nb where nb: "m b = Some nb" "node_prev nb = end_of None xs" "seg m (Some b) (node_next nb) ys None"
    and sx: "seg m None (node_child np) xs (Some b)"
    using np(2) by (auto simp: seg_append)
  have w: "get_array_item_at m (Some pa) (length xs) = Ok (Some b)" using get_array_item_children [OF assms(1)] by simp
  show ?thesis
  proof (cases xs rule: rev_cases)
    case Nil
    have c: "node_child np = Some b" using sx Nil by simp
    let ?m = "m(r \<mapsto> nr\<lparr>node_next := Some b, node_prev := None\<rparr>, b \<mapsto> nb\<lparr>node_prev := Some r\<rparr>, pa \<mapsto> np\<lparr>node_child := Some r\<rparr>)"
    have "cJSON_InsertItemInArray fuel (Some pa) (int (length xs)) (Some r) m = Ok ?m"
      using np nb nr c w d Nil assms(3) by (simp add: cJSON_InsertItemInArray_def)
    moreover have "children ?m pa (xs @ r # b # ys)" using d nb Nil assms(3) by (simp add: children_def)
    moreover have "relinks pa (insert r (set (xs @ b # ys))) m ?m"
      using np(1) nb(1) nr d assms(3)
        by - (rule relinks_parent [where n = np], rule relinks_in [where n = nb], rule relinks_in [where n = nr], rule relinks_refl, simp_all)
    ultimately show ?thesis by blast
  next
    case (snoc ws a)
    obtain na where na: "m a = Some na" "node_prev na = end_of None ws" "node_next na = Some b"
      and sw: "seg m None (node_child np) ws (Some a)"
      using sx snoc by (auto simp: seg_append)
    have nc: "node_child np \<noteq> Some b" using seg_start [OF sw] d snoc by (cases ws) auto
    have pr: "node_prev nb = Some a" using nb(2) snoc by simp
    have ln: "nat (1 + int (length ws)) = Suc (length ws)" by simp
    let ?m = "m(r \<mapsto> nr\<lparr>node_next := Some b, node_prev := Some a\<rparr>, b \<mapsto> nb\<lparr>node_prev := Some r\<rparr>, a \<mapsto> na\<lparr>node_next := Some r\<rparr>)"
    have "cJSON_InsertItemInArray fuel (Some pa) (int (length xs)) (Some r) m = Ok ?m"
      using np nb nr na nc pr w ln d snoc assms(3) by (simp add: cJSON_InsertItemInArray_def)
    moreover have "children ?m pa (xs @ r # b # ys)"
      using d snoc na nb nr sw np assms(3) by (simp add: children_def seg_append)
    moreover have "relinks pa (insert r (set (xs @ b # ys))) m ?m"
      using na(1) nb(1) nr d assms(3) snoc
        by - (rule relinks_in [where n = na], rule relinks_in [where n = nb], rule relinks_in [where n = nr], rule relinks_refl, simp_all)
    ultimately show ?thesis by blast
  qed
qed

section \<open>Exchanging\<close>

text \<open>The replacement before the old item is deleted.\<close>

lemma exchange_cases:
  assumes "children m pa (xs @ it # ys)" and "alone m r" and "r \<notin> set (pa # xs @ it # ys)"
  shows "\<exists>m' n. cJSON_ReplaceItemViaPointer fuel (Some pa) (Some it) (Some r) (m, h) =
      obind (delete_at fuel (Some it) (m', h)) (\<lambda>s1. Ok (True, s1)) \<and> children m' pa (xs @ r # ys) \<and>
    m' it = Some n \<and> node_next n = None \<and> node_prev n = None \<and> relinks pa (insert r (set (xs @ it # ys))) m m'"
proof -
  obtain np where np: "m pa = Some np" "seg m None (node_child np) (xs @ it # ys) None" and d: "distinct (pa # xs @ it # ys)"
    using assms(1) by (auto simp: children_def)
  obtain nr where nr: "m r = Some nr" using assms(2) by (auto simp: alone_def)
  obtain n where n: "m it = Some n" "node_prev n = end_of None xs" "seg m (Some it) (node_next n) ys None"
    and sx: "seg m None (node_child np) xs (Some it)"
    using np(2) by (auto simp: seg_append)
  have nx: "node_next n = start_of ys None" using seg_start [OF n(3)] .
  define n0 where "n0 = n\<lparr>node_next := None, node_prev := None\<rparr>"
  have n0: "node_item n0 = node_item n" "node_child n0 = node_child n" "node_next n0 = None" "node_prev n0 = None"
    by (simp_all add: n0_def)
  define r0 where "r0 = nr\<lparr>node_next := node_next n, node_prev := node_prev n\<rparr>"
  have r0: "node_item r0 = node_item nr" "node_child r0 = node_child nr" "node_next r0 = node_next n" "node_prev r0 = node_prev n"
    by (simp_all add: r0_def)
  have nn: "r \<noteq> it" "pa \<noteq> it" "pa \<noteq> r" "it \<notin> set xs" "it \<notin> set ys" "r \<notin> set xs" "r \<notin> set ys" "pa \<notin> set xs" "pa \<notin> set ys"
    using d assms(3) by auto
  show ?thesis
  proof (cases xs rule: rev_cases)
    case Nil
    have c: "node_child np = Some it" using sx Nil by simp
    have pr: "node_prev n = None" using n(2) Nil by simp
    show ?thesis
    proof (cases ys)
      case ys: Nil
      let ?m = "m(r \<mapsto> r0, pa \<mapsto> np\<lparr>node_child := Some r\<rparr>, it \<mapsto> n0)"
      have "cJSON_ReplaceItemViaPointer fuel (Some pa) (Some it) (Some r) (m, h) =
          obind (delete_at fuel (Some it) (?m, h)) (\<lambda>s1. Ok (True, s1))"
        using np n nx nr c pr nn ys by (simp add: cJSON_ReplaceItemViaPointer_def n0_def r0_def)
      moreover have "children ?m pa (xs @ r # ys)" using nn Nil ys r0 n nx by (simp add: children_def)
      moreover have "relinks pa (insert r (set (xs @ it # ys))) m ?m"
        using np(1) n(1) nr nn n0 r0
        by - (rule relinks_in [where n = n], rule relinks_parent [where n = np], rule relinks_in [where n = nr], rule relinks_refl, simp_all)
      ultimately show ?thesis using n0 by (intro exI [of _ ?m] exI [of _ n0]) simp
    next
      case (Cons b zs)
      obtain nb where nb: "m b = Some nb" "node_prev nb = Some it" "seg m (Some b) (node_next nb) zs None"
        using n(3) nx Cons by auto
      let ?m = "m(r \<mapsto> r0, b \<mapsto> nb\<lparr>node_prev := Some r\<rparr>, pa \<mapsto> np\<lparr>node_child := Some r\<rparr>, it \<mapsto> n0)"
      have "cJSON_ReplaceItemViaPointer fuel (Some pa) (Some it) (Some r) (m, h) =
          obind (delete_at fuel (Some it) (?m, h)) (\<lambda>s1. Ok (True, s1))"
        using np n nx nr c pr nn nb Cons by (simp add: cJSON_ReplaceItemViaPointer_def n0_def r0_def)
      moreover have "children ?m pa (xs @ r # ys)" using nn d Nil Cons r0 n nx nb by (simp add: children_def)
      moreover have "relinks pa (insert r (set (xs @ it # ys))) m ?m"
        using np(1) n(1) nr nn n0 r0 nb(1) Cons
        by - (rule relinks_in [where n = n], rule relinks_parent [where n = np], rule relinks_in [where n = nb], rule relinks_in [where n = nr], rule relinks_refl, simp_all)
      ultimately show ?thesis using n0 by (intro exI [of _ ?m] exI [of _ n0]) simp
    qed
  next
    case (snoc ws a)
    obtain na where na: "m a = Some na" "node_prev na = end_of None ws" "node_next na = Some it"
      and sw: "seg m None (node_child np) ws (Some a)"
      using sx snoc by (auto simp: seg_append)
    have nc: "node_child np \<noteq> Some it" using seg_start [OF sw] d snoc by (cases ws) auto
    have pr: "node_prev n = Some a" using n(2) snoc by simp
    show ?thesis
    proof (cases ys)
      case ys: Nil
      let ?m = "m(r \<mapsto> r0, a \<mapsto> na\<lparr>node_next := Some r\<rparr>, it \<mapsto> n0)"
      have "cJSON_ReplaceItemViaPointer fuel (Some pa) (Some it) (Some r) (m, h) =
          obind (delete_at fuel (Some it) (?m, h)) (\<lambda>s1. Ok (True, s1))"
        using np n nx nr nc pr nn na ys snoc by (simp add: cJSON_ReplaceItemViaPointer_def n0_def r0_def)
      moreover have "children ?m pa (xs @ r # ys)" using nn d snoc ys r0 n nx na sw np pr by (simp add: children_def seg_append)
      moreover have "relinks pa (insert r (set (xs @ it # ys))) m ?m"
        using n(1) nr nn n0 r0 na(1) snoc
        by - (rule relinks_in [where n = n], rule relinks_in [where n = na], rule relinks_in [where n = nr], rule relinks_refl, simp_all)
      ultimately show ?thesis using n0 by (intro exI [of _ ?m] exI [of _ n0]) simp
    next
      case (Cons b zs)
      obtain nb where nb: "m b = Some nb" "node_prev nb = Some it" "seg m (Some b) (node_next nb) zs None"
        using n(3) nx Cons by auto
      let ?m = "m(r \<mapsto> r0, b \<mapsto> nb\<lparr>node_prev := Some r\<rparr>, a \<mapsto> na\<lparr>node_next := Some r\<rparr>, it \<mapsto> n0)"
      have ne: "a \<noteq> b" "b \<noteq> r" "b \<noteq> it" "b \<noteq> pa" "a \<noteq> r" "a \<noteq> it" "a \<noteq> pa" using nn d snoc Cons by auto
      have nx': "node_next n = Some b" using nx Cons by simp
      have "cJSON_ReplaceItemViaPointer fuel (Some pa) (Some it) (Some r) (m, h) =
          obind (delete_at fuel (Some it) (?m, h)) (\<lambda>s1. Ok (True, s1))"
        using np(1) n(1) nx' nr nc pr nn(1-3) ne na(1) nb(1) by (simp add: cJSON_ReplaceItemViaPointer_def n0_def r0_def)
      moreover have "children ?m pa (xs @ r # ys)"
        using nn d ne snoc Cons r0 n nx' na nb sw np pr by (simp add: children_def seg_append)
      moreover have "relinks pa (insert r (set (xs @ it # ys))) m ?m"
        using n(1) nr nn ne n0 r0 na(1) nb(1) snoc Cons
        by - (rule relinks_in [where n = n], rule relinks_in [where n = na], rule relinks_in [where n = nb], rule relinks_in [where n = nr], rule relinks_refl, simp_all)
      ultimately show ?thesis using n0 by (intro exI [of _ ?m] exI [of _ n0]) simp
    qed
  qed
qed

section \<open>Trees of nodes\<close>

text \<open>
  The shape of a list of trees: the addresses of its nodes. A reference does not own its children, so
  none belong to its tree.
\<close>

datatype shape = Shape (root: nat) (below: "shape list")

fun addresses :: "shape \<Rightarrow> nat list" where
  "addresses (Shape a ks) = a # concat (map addresses ks)"

definition all_addresses :: "shape list \<Rightarrow> nat list" where
  "all_addresses ts = concat (map addresses ts)"

lemma all_addresses_simps [simp]:
  "all_addresses [] = []" "all_addresses (Shape a ks # ts) = a # all_addresses ks @ all_addresses ts"
  by (simp_all add: all_addresses_def)

fun trees :: "links \<Rightarrow> nat option \<Rightarrow> nat option \<Rightarrow> shape list \<Rightarrow> bool" where
  "trees m pr p [] \<longleftrightarrow> p = None"
| "trees m pr p (Shape a ks # ts) \<longleftrightarrow>
     p = Some a \<and> (\<exists>n. m a = Some n \<and> node_prev n = pr \<and>
       (if is_reference (node_item n) then ks = [] else trees m None (node_child n) ks) \<and> trees m (Some a) (node_next n) ts)"

text \<open>The item a tree stands for.\<close>

fun value_at :: "links \<Rightarrow> shape \<Rightarrow> cJSON" where
  "value_at m (Shape a ks) = set_child (map (value_at m) ks) (node_item (the (m a)))"

definition value_blocks :: "links \<Rightarrow> shape list \<Rightarrow> int" where
  "value_blocks m ts = all_blocks (map (value_at m) ts)"

lemma shape_list_induct [case_names Nil Cons]:
  assumes "P []" and "\<And>a ks ts. P ks \<Longrightarrow> P ts \<Longrightarrow> P (Shape a ks # ts)"
  shows "P ts"
proof (induction ts taking: "size_list size" rule: measure_induct_rule)
  case (less ts)
  show ?case
  proof (cases ts)
    case (Cons t us)
    obtain a ks where t: "t = Shape a ks" by (cases t)
    have "P ks" "P us" using Cons t by (auto intro!: less)
    then show ?thesis using Cons t assms(2) by simp
  qed (simp add: assms(1))
qed

lemma trees_frame: "(\<And>a. a \<in> set (all_addresses ts) \<Longrightarrow> m' a = m a) \<Longrightarrow> trees m' pr p ts = trees m pr p ts"
  by (induction ts arbitrary: pr p rule: shape_list_induct) simp_all

lemma value_at_frame: "(\<And>a. a \<in> set (all_addresses ts) \<Longrightarrow> m' a = m a) \<Longrightarrow> map (value_at m') ts = map (value_at m) ts"
  by (induction ts rule: shape_list_induct) (simp_all cong: map_cong)

lemma trees_None [simp]: "trees m pr None ts \<longleftrightarrow> ts = []"
  by (induction ts rule: shape_list_induct) simp_all

lemma value_blocks_simps [simp]: "value_blocks m [] = 0"
  by (simp add: value_blocks_def)

lemma blocks_set_child:
  "blocks (set_child c i) = 1 + (if is_reference i then 0 else (if valuestring i = None then 0 else 1) + all_blocks c) +
     (if \<not> string_is_const i \<and> item_name i \<noteq> None then 1 else 0)"
  by (cases i) (simp add: all_blocks_def)

lemma value_blocks_Cons:
  "value_blocks m (Shape a ks # ts) = 1 + (if is_reference (node_item (the (m a))) then 0
     else (if valuestring (node_item (the (m a))) = None then 0 else 1) + value_blocks m ks) +
     (if \<not> string_is_const (node_item (the (m a))) \<and> item_name (node_item (the (m a))) \<noteq> None then 1 else 0) + value_blocks m ts"
  by (simp add: value_blocks_def blocks_set_child)

lemma delete_trees:
  "trees m pr p ts \<Longrightarrow> distinct (all_addresses ts) \<Longrightarrow> length (all_addresses ts) \<le> fuel \<Longrightarrow>
   delete_at fuel p (m, h) = Ok (m |` (- set (all_addresses ts)), refund (value_blocks m ts) h)"
proof (induction ts arbitrary: m pr p fuel h rule: shape_list_induct)
  case Nil
  then show ?case by (cases fuel) simp_all
next
  case (Cons a ks ts)
  obtain n where n: "p = Some a" "m a = Some n" "trees m (Some a) (node_next n) ts"
    and k: "if is_reference (node_item n) then ks = [] else trees m None (node_child n) ks"
    using Cons.prems(1) by auto
  obtain f where f: "fuel = Suc f" "length (all_addresses ks) \<le> f" "length (all_addresses ts) \<le> f"
    using Cons.prems(3) by (cases fuel) auto
  have d: "a \<notin> set (all_addresses ks)" "a \<notin> set (all_addresses ts)" "distinct (all_addresses ks)" "distinct (all_addresses ts)"
    "set (all_addresses ks) \<inter> set (all_addresses ts) = {}"
    using Cons.prems(2) by auto
  define m1 where "m1 = m |` (- set (all_addresses ks))"
  define h1 where "h1 = refund (if is_reference (node_item n) then 0 else value_blocks m ks) h"
  have kids: "(if \<not> is_reference (node_item n) \<and> node_child n \<noteq> None then delete_at f (node_child n) (m, h) else Ok (m, h)) = Ok (m1, h1)"
  proof (cases "is_reference (node_item n) \<or> node_child n = None")
    case True
    then have "ks = []" using k by (auto split: if_splits)
    then show ?thesis using True by (auto simp: m1_def h1_def restrict_map_def)
  next
    case False
    then show ?thesis using Cons.IH(1) [of m None "node_child n" f h] k d f(2) by (simp add: m1_def h1_def)
  qed
  have m1: "m1 a = Some n" using n(2) d(1) by (simp add: m1_def)
  define m2 where "m2 = m1(a := None)"
  have same: "m2 b = m b" if "b \<in> set (all_addresses ts)" for b using that d by (auto simp: m2_def m1_def restrict_map_def)
  have t2: "trees m2 (Some a) (node_next n) ts" and v2: "value_blocks m2 ts = value_blocks m ts"
    using n(3) trees_frame [of ts m2 m, OF same] arg_cong [OF value_at_frame [of ts m2 m, OF same], of all_blocks]
    by (simp_all add: value_blocks_def)
  have "m2 |` (- set (all_addresses ts)) = m |` (- set (all_addresses (Shape a ks # ts)))"
    by (auto simp: m2_def m1_def restrict_map_def fun_eq_iff)
  then show ?case
    using n(1,2) f(1) kids m1 Cons.IH(2) [OF t2 d(4) f(3)] v2
    by (simp add: value_blocks_Cons Let_def h1_def m2_def [symmetric] algebra_simps)
qed

section \<open>Edits of arrays\<close>

text \<open>
  C25. Detaching by index takes exactly that child out of the list, its neighbours are linked to each
  other, and the child is left without neighbours, ready to be added elsewhere; an index outside
  the array changes nothing.
\<close>

theorem detach_by_index:
  assumes "children m pa as"
  shows "\<exists>m'. cJSON_DetachItemFromArray (Some pa) which m =
      Ok (if 0 \<le> which \<and> nat which < length as then Some (as ! nat which) else None, m') \<and>
    (if 0 \<le> which \<and> nat which < length as
     then children m' pa (take (nat which) as @ drop (Suc (nat which)) as) \<and> alone m' (as ! nat which) \<and> relinks pa (set as) m m'
     else m' = m)"
proof (cases "0 \<le> which \<and> nat which < length as")
  case True
  then have as: "as = take (nat which) as @ as ! nat which # drop (Suc (nat which)) as" by (simp add: id_take_nth_drop)
  have "children m pa (take (nat which) as @ as ! nat which # drop (Suc (nat which)) as)" using assms as by simp
  from detach_cases [OF this] show ?thesis
    using True get_array_item_children [OF assms] unfolding as [symmetric]
    by (auto simp: cJSON_DetachItemFromArray_def alone_def)
next
  case False
  then show ?thesis using get_array_item_children [OF assms, of "nat which"]
    by (auto simp: cJSON_DetachItemFromArray_def cJSON_DetachItemViaPointer_def)
qed

text \<open>
  Inserting puts the new item at the index, and at the end when the index lies beyond it; a negative
  index changes nothing.
\<close>

lemma insert_by_index:
  assumes "children m pa as" and "alone m r" and "r \<notin> set (pa # as)" and "length as \<le> fuel"
  shows "\<exists>m'. cJSON_InsertItemInArray fuel (Some pa) which (Some r) m = Ok m' \<and>
    (if which < 0 then m' = m
     else children m' pa (take (nat which) as @ r # drop (nat which) as) \<and> relinks pa (insert r (set as)) m m')"
proof (cases "0 \<le> which \<and> nat which < length as")
  case True
  then have as: "as = take (nat which) as @ as ! nat which # drop (Suc (nat which)) as" by (simp add: id_take_nth_drop)
  have c: "children m pa (take (nat which) as @ as ! nat which # drop (Suc (nat which)) as)" using assms(1) as by simp
  have r: "r \<notin> set (pa # take (nat which) as @ as ! nat which # drop (Suc (nat which)) as)" using assms(3) as by simp
  have "int (length (take (nat which) as)) = which" using True by simp
  then show ?thesis using insert_cases [OF c assms(2) r, of fuel] True unfolding as [symmetric]
    by (auto simp: Cons_nth_drop_Suc)
next
  case False
  then show ?thesis
    using append_cases [OF assms] get_array_item_children [OF assms(1), of "nat which"]
    by (auto simp: cJSON_InsertItemInArray_def)
qed

lemma relinks_outside:
  assumes "relinks pa A m m'" and "a \<notin> A" and "a \<noteq> pa"
  shows "m' a = m a"
proof (cases "m a")
  case None
  then show ?thesis using spec [OF assms(1) [unfolded relinks_def], of a] by simp
next
  case (Some n)
  then obtain n' where n': "m' a = Some n'" "node_item n' = node_item n" "node_child n' = node_child n"
    "node_next n' = node_next n" "node_prev n' = node_prev n"
    using spec [OF assms(1) [unfolded relinks_def], of a] assms(2,3) by auto
  then show ?thesis using Some by simp
qed

text \<open>
  C26. Replacing puts the new item in the place of the old one and frees exactly the blocks of the old
  item and everything below it (but not what a reference points to); no freed node is read.
\<close>

theorem replace_by_index:
  assumes "children m pa as" and "alone m r" and "r \<notin> set (pa # as)" and "i < length as" and "m (as ! i) = Some n"
    and "if is_reference (node_item n) then ks = [] else trees m None (node_child n) ks"
    and "distinct (all_addresses ks)" and "set (all_addresses ks) \<inter> set (pa # r # as) = {}"
    and "Suc (length (all_addresses ks)) \<le> fuel"
  shows "\<exists>m'. cJSON_ReplaceItemInArray fuel (Some pa) (int i) (Some r) (m, h) =
      Ok (m', refund (value_blocks m [Shape (as ! i) ks]) h) \<and> children m' pa (as[i := r]) \<and>
    (\<forall>a \<in> set (as ! i # all_addresses ks). m' a = None)"
proof -
  let ?it = "as ! i"
  have as: "as = take i as @ ?it # drop (Suc i) as" using assms(4) by (simp add: id_take_nth_drop)
  have c: "children m pa (take i as @ ?it # drop (Suc i) as)" using assms(1) as by simp
  have r: "r \<notin> set (pa # take i as @ ?it # drop (Suc i) as)" using assms(3) as by simp
  obtain m1 n1 where e: "cJSON_ReplaceItemViaPointer fuel (Some pa) (Some ?it) (Some r) (m, h) =
      obind (delete_at fuel (Some ?it) (m1, h)) (\<lambda>s1. Ok (True, s1))" "children m1 pa (take i as @ r # drop (Suc i) as)"
    "m1 ?it = Some n1" "node_next n1 = None" "node_prev n1 = None" "relinks pa (insert r (set as)) m m1"
    using exchange_cases [OF c assms(2) r, of fuel h] unfolding as [symmetric] by blast
  have it: "?it \<in> set as" "?it \<noteq> pa" "?it \<noteq> r" "?it \<notin> set (all_addresses ks)" using assms(1,3,4,8) by (auto simp: children_def)
  have same: "m1 a = m a" if "a \<in> set (all_addresses ks)" for a
    by (rule relinks_outside [OF e(6)]) (use that assms(8) in auto)
  have n1: "node_item n1 = node_item n" "node_child n1 = node_child n"
    using e(3,6) assms(5) it(2) by (force simp: relinks_def split: option.splits)+
  have t: "trees m1 None (Some ?it) [Shape ?it ks]"
    using e(3-5) n1 assms(6) trees_frame [of ks m1 m, OF same] by simp
  have v: "value_blocks m1 [Shape ?it ks] = value_blocks m [Shape ?it ks]"
    using arg_cong [OF value_at_frame [of ks m1 m, OF same], of all_blocks] e(3) n1 assms(5)
    by (simp add: value_blocks_Cons value_blocks_def [of _ ks])
  define m2 where "m2 = m1 |` (- set (all_addresses [Shape ?it ks]))"
  have d: "delete_at fuel (Some ?it) (m1, h) = Ok (m2, refund (value_blocks m [Shape ?it ks]) h)"
    using delete_trees [OF t] assms(7,9) it(4) by (simp add: m2_def v)
  have up: "as[i := r] = take i as @ r # drop (Suc i) as" using assms(4) by (rule upd_conv_take_nth_drop)
  have dist: "distinct as" using assms(1) by (simp add: children_def)
  have "set (take i as @ r # drop (Suc i) as) \<inter> set (all_addresses [Shape ?it ks]) = {}"
    unfolding up [symmetric] using set_update_distinct [OF dist assms(4), of r] it assms(8) by auto
  then have "children m2 pa (take i as @ r # drop (Suc i) as)"
    using e(2) it(2) assms(8) seg_frame [of "take i as @ r # drop (Suc i) as" m2 m1]
    by (fastforce simp: children_def m2_def restrict_map_def)
  then show ?thesis
    using e(1) d get_array_item_children [OF assms(1), of i] assms(4)
    by (intro exI [of _ m2]) (auto simp: cJSON_ReplaceItemInArray_def up m2_def)
qed

text \<open>
  C24. Deleting a list of trees frees exactly the nodes of the trees and the blocks of their items: every
  node once, none after it was freed, and nothing else.
\<close>

theorem delete_frees_trees:
  assumes "trees m pr p ts" and "distinct (all_addresses ts)" and "length (all_addresses ts) \<le> fuel"
  shows "delete_at fuel p (m, h) = Ok (m |` (- set (all_addresses ts)), h\<lparr>live := live h - all_blocks (map (value_at m) ts)\<rparr>)"
  using delete_trees [OF assms] by (simp add: refund_def value_blocks_def)

text \<open>An array of three numbers, the second of which has become an array with one string, and a spare node.\<close>

definition plain_item :: "int \<Rightarrow> string option \<Rightarrow> cJSON" where
  "plain_item t str = Item t str 0 (Fin False 0 (- 1074)) None []"

definition demo_links :: links where
  "demo_links = [
     0 \<mapsto> \<lparr>node_item = plain_item cJSON_Array None, node_child = Some 1, node_next = None, node_prev = None\<rparr>,
     1 \<mapsto> \<lparr>node_item = plain_item cJSON_Number None, node_child = None, node_next = Some 2, node_prev = None\<rparr>,
     2 \<mapsto> \<lparr>node_item = plain_item cJSON_Array None, node_child = Some 4, node_next = Some 3, node_prev = Some 1\<rparr>,
     3 \<mapsto> \<lparr>node_item = plain_item cJSON_Number None, node_child = None, node_next = None, node_prev = Some 2\<rparr>,
     4 \<mapsto> \<lparr>node_item = plain_item cJSON_String (Some ''x''), node_child = None, node_next = None, node_prev = None\<rparr>,
     5 \<mapsto> \<lparr>node_item = plain_item cJSON_True None, node_child = None, node_next = None, node_prev = None\<rparr>]"

lemma demo_children: "children demo_links 0 [1, 2, 3]"
  by (simp add: children_def demo_links_def)

lemma demo_spare: "alone demo_links 5" "(5::nat) \<notin> set [0, 1, 2, 3]"
  by (simp_all add: alone_def demo_links_def)

lemma plain_item_simps [simp]:
  "is_reference (plain_item cJSON_Array str) = False" "is_reference (plain_item cJSON_String str) = False"
  by (simp_all add: plain_item_def cJSON_types)

lemma detach_by_index_witness:
  "\<exists>m'. cJSON_DetachItemFromArray (Some 0) 1 demo_links = Ok (Some 2, m') \<and> children m' 0 [1, 3] \<and> alone m' 2"
  using detach_by_index [OF demo_children, of 1] by auto

lemma insert_by_index_witness:
  "\<exists>m'. cJSON_InsertItemInArray 3 (Some 0) 1 (Some 5) demo_links = Ok m' \<and> children m' 0 [1, 5, 2, 3]"
  using insert_by_index [OF demo_children demo_spare, of 3 1] by auto

lemma replace_by_index_witness:
  "\<exists>m' h'. cJSON_ReplaceItemInArray 2 (Some 0) 1 (Some 5) (demo_links, \<lparr>grants = (\<lambda>_. True), asked = 0, live = 9, can_realloc = True\<rparr>) =
      Ok (m', h') \<and> children m' 0 [1, 5, 3] \<and> m' 2 = None \<and> m' 4 = None \<and> live h' = 6"
proof -
  let ?n = "\<lparr>node_item = plain_item cJSON_Array None, node_child = Some 4, node_next = Some 3, node_prev = Some 1\<rparr>"
  let ?h = "\<lparr>grants = (\<lambda>_. True), asked = 0, live = 9, can_realloc = True\<rparr>"
  have n: "demo_links ([1, 2, 3] ! 1) = Some ?n" and i: "1 < length [1::nat, 2, 3]"
    by (simp_all add: demo_links_def)
  have k: "if is_reference (node_item ?n) then [Shape 4 []] = [] else trees demo_links None (node_child ?n) [Shape 4 []]"
    by (simp add: demo_links_def)
  have d: "distinct (all_addresses [Shape 4 []])" "set (all_addresses [Shape 4 []]) \<inter> set [0, 5, 1, 2, 3] = {}"
    "Suc (length (all_addresses [Shape 4 []])) \<le> 2" by simp_all
  have v: "value_blocks demo_links [Shape ([1, 2, 3] ! 1) [Shape 4 []]] = 3"
    by (simp add: value_blocks_def demo_links_def) (simp add: plain_item_def cJSON_types)
  from replace_by_index [OF demo_children demo_spare i n k d, of ?h] obtain m' where
    "cJSON_ReplaceItemInArray 2 (Some 0) (int 1) (Some 5) (demo_links, ?h) = Ok (m', refund 3 ?h)"
    "children m' 0 ([1, 2, 3][1 := 5])" "\<forall>a \<in> set ([1, 2, 3] ! 1 # all_addresses [Shape 4 []]). m' a = None"
    unfolding v by blast
  then show ?thesis by (simp add: refund_def)
qed

lemma delete_frees_trees_witness:
  "delete_at 5 (Some 1) (demo_links, \<lparr>grants = (\<lambda>_. True), asked = 0, live = 7, can_realloc = True\<rparr>) =
     Ok (demo_links |` (- {1, 2, 3, 4}), \<lparr>grants = (\<lambda>_. True), asked = 0, live = 2, can_realloc = True\<rparr>)"
proof -
  have "trees demo_links None (Some 1) [Shape 1 [], Shape 2 [Shape 4 []], Shape 3 []]"
    by (simp add: demo_links_def)
  from delete_frees_trees [OF this, of 5] show ?thesis
    by (simp add: demo_links_def insert_commute) (simp add: plain_item_def cJSON_types)
qed

end
