(* ===== verification/Json_Compare.thy ===== *)
theory Json_Compare
  imports Json_Links
begin

text \<open>
  src/libs/cJSON.c: \<open>cJSON_Compare\<close> on nodes of the explicit store, where the test for the same pointer is
  that of addresses, and what it decides.
\<close>

section \<open>The function\<close>

definition compared_types :: "int list" where
  "compared_types = [cJSON_False, cJSON_True, cJSON_NULL, cJSON_Number, cJSON_String, cJSON_Raw, cJSON_Array, cJSON_Object]"

text \<open>
  \<open>compare_elements\<close> is the loop over two arrays in step, \<open>compare_members\<close> one of the two loops over the
  members of an object: each is looked up in the other object by its name.
\<close>

fun compare_elements ::
    "(nat option \<Rightarrow> nat option \<Rightarrow> bool outcome) \<Rightarrow> nat \<Rightarrow> links \<Rightarrow> nat option \<Rightarrow> nat option \<Rightarrow> bool outcome" where
  "compare_elements compare 0 m a b = UB Endless_Loop"
| "compare_elements compare (Suc fuel) m a b =
     (case (a, b) of
        (Some p, Some q) \<Rightarrow>
          obind (compare (Some p) (Some q))
            (\<lambda>r. if \<not> r then Ok False
                 else obind (node_at m p) (\<lambda>na. obind (node_at m q)
                        (\<lambda>nb. compare_elements compare fuel m (node_next na) (node_next nb))))
      | _ \<Rightarrow> Ok (a = b))"

fun compare_members ::
    "(nat option \<Rightarrow> nat option \<Rightarrow> bool outcome) \<Rightarrow> nat \<Rightarrow> links \<Rightarrow> bool \<Rightarrow> nat \<Rightarrow> nat option \<Rightarrow> bool outcome" where
  "compare_members compare 0 m case_sensitive object e = UB Endless_Loop"
| "compare_members compare (Suc fuel) m case_sensitive object e =
     (case e of
        None \<Rightarrow> Ok True
      | Some p \<Rightarrow>
          obind (node_at m p)
            (\<lambda>n. obind (get_object_item_at fuel m (Some object) (item_name (node_item n)) case_sensitive)
               (\<lambda>found. case found of
                   None \<Rightarrow> Ok False
                 | Some q \<Rightarrow>
                     obind (compare (Some p) (Some q))
                       (\<lambda>r. if \<not> r then Ok False
                            else compare_members compare fuel m case_sensitive object (node_next n)))))"

primrec compare_at :: "nat \<Rightarrow> links \<Rightarrow> bool \<Rightarrow> nat option \<Rightarrow> nat option \<Rightarrow> bool outcome" where
  "compare_at 0 m case_sensitive a b = UB Endless_Loop"
| "compare_at (Suc fuel) m case_sensitive a b =
     (case (a, b) of
        (Some p, Some q) \<Rightarrow>
          obind (node_at m p)
            (\<lambda>na. obind (node_at m q)
               (\<lambda>nb. let ta = type (node_item na) AND 0xFF; tb = type (node_item nb) AND 0xFF in
                  if ta \<noteq> tb \<or> ta = cJSON_Invalid then Ok False
                  else if ta \<notin> set compared_types then Ok False
                  else if p = q then Ok True
                  else if ta = cJSON_False \<or> ta = cJSON_True \<or> ta = cJSON_NULL then Ok True
                  else if ta = cJSON_Number then Ok (double_eq (valuedouble (node_item na)) (valuedouble (node_item nb)))
                  else if ta = cJSON_String \<or> ta = cJSON_Raw then
                    Ok (valuestring (node_item na) \<noteq> None \<and> valuestring (node_item nb) \<noteq> None \<and>
                        valuestring (node_item na) = valuestring (node_item nb))
                  else if ta = cJSON_Array
                  then compare_elements (compare_at fuel m case_sensitive) fuel m (node_child na) (node_child nb)
                  else
                    obind (compare_members (compare_at fuel m case_sensitive) fuel m case_sensitive q (node_child na))
                      (\<lambda>r. if \<not> r then Ok False
                           else compare_members (compare_at fuel m case_sensitive) fuel m case_sensitive p (node_child nb))))
      | _ \<Rightarrow> Ok False)"

definition cJSON_Compare :: "nat \<Rightarrow> links \<Rightarrow> nat option \<Rightarrow> nat option \<Rightarrow> bool \<Rightarrow> bool outcome" where
  "cJSON_Compare fuel m a b case_sensitive = compare_at fuel m case_sensitive a b"

section \<open>Equality of values\<close>

text \<open>A name as far as the comparison looks at it.\<close>

definition name_key :: "bool \<Rightarrow> string option \<Rightarrow> nat list option" where
  "name_key case_sensitive k = map_option (map (if case_sensitive then of_char else tolower)) k"

lemma name_key_sensitive [simp]: "name_key True j = name_key True k \<longleftrightarrow> j = k"
proof -
  have "inj (map (of_char :: char \<Rightarrow> nat))" by (simp add: inj_map_eq_map inj_def)
  then show ?thesis by (auto simp: name_key_def map_option_case inj_eq split: option.split_asm)
qed

lemma name_key_None [simp]: "name_key b k = None \<longleftrightarrow> k = None" "name_key b None = None"
  by (simp_all add: name_key_def)

lemma tolower_zero: "tolower c = 0 \<longleftrightarrow> c = NUL"
proof -
  have "of_char c = (0 :: nat) \<longleftrightarrow> c = CHR 0x00"
    using of_char_eq_iff [where ?'a = nat, of c "CHR 0x00"] by simp
  then show ?thesis by (auto simp: tolower_def Let_def)
qed

lemma casecmp_zero: "no_nul j \<Longrightarrow> no_nul k \<Longrightarrow> casecmp j k = 0 \<longleftrightarrow> map tolower j = map tolower k"
  by (induction j k rule: casecmp.induct) (auto simp: no_nul_def tolower_zero)

text \<open>Arrays agree element by element, objects member by member whatever their order.\<close>

fun alike :: "bool \<Rightarrow> cJSON \<Rightarrow> cJSON \<Rightarrow> bool" where
  "alike cs (Item t s i d k c) y \<longleftrightarrow>
     t AND 0xFF = type y AND 0xFF \<and>
     (let ty = t AND 0xFF in
      if ty = cJSON_False \<or> ty = cJSON_True \<or> ty = cJSON_NULL then True
      else if ty = cJSON_Number then double_eq d (valuedouble y)
      else if ty = cJSON_String \<or> ty = cJSON_Raw then s \<noteq> None \<and> s = valuestring y
      else if ty = cJSON_Array then list_all2 (alike cs) c (child y)
      else if ty = cJSON_Object
      then (\<forall>x \<in> set c. \<exists>z \<in> set (child y). name_key cs (item_name x) = name_key cs (item_name z) \<and> alike cs x z) \<and>
           (\<forall>z \<in> set (child y). \<exists>x \<in> set c. name_key cs (item_name x) = name_key cs (item_name z) \<and> alike cs x z)
      else False)"

lemma double_eq_sym: "double_eq x y = double_eq y x"
  by (cases "(x, y)" rule: double_eq.cases) auto

lemma alike_sym: "alike cs x y = alike cs y x"
proof (induction x arbitrary: y)
  case (Item t s i d k c)
  obtain t' s' i' d' k' c' where y: "y = Item t' s' i' d' k' c'" by (cases y)
  have l: "list_all2 (alike cs) c c' = list_all2 (alike cs) c' c"
    using Item by (auto simp: list_all2_conv_all_nth)
  have sw: "alike cs x z = alike cs z x" if "x \<in> set c" for x z using Item that by blast
  have o: "((\<forall>x \<in> set c. \<exists>z \<in> set c'. name_key cs (item_name x) = name_key cs (item_name z) \<and> alike cs x z) \<and>
       (\<forall>z \<in> set c'. \<exists>x \<in> set c. name_key cs (item_name x) = name_key cs (item_name z) \<and> alike cs x z)) =
      ((\<forall>x \<in> set c'. \<exists>z \<in> set c. name_key cs (item_name x) = name_key cs (item_name z) \<and> alike cs x z) \<and>
       (\<forall>z \<in> set c. \<exists>x \<in> set c'. name_key cs (item_name x) = name_key cs (item_name z) \<and> alike cs x z))"
  proof -
    have p: "(name_key cs (item_name x) = name_key cs (item_name z) \<and> alike cs x z) = (name_key cs (item_name z) = name_key cs (item_name x) \<and> alike cs z x)" if "x \<in> set c" for x z
      unfolding sw [OF that, of z] by (rule conj_cong [OF eq_commute refl])
    have "(\<forall>x \<in> set c. \<exists>z \<in> set c'. name_key cs (item_name x) = name_key cs (item_name z) \<and> alike cs x z) =
        (\<forall>z \<in> set c. \<exists>x \<in> set c'. name_key cs (item_name x) = name_key cs (item_name z) \<and> alike cs x z)"
      by (rule ball_cong [OF refl], rule bex_cong [OF refl], rule p)
    moreover have "(\<forall>z \<in> set c'. \<exists>x \<in> set c. name_key cs (item_name x) = name_key cs (item_name z) \<and> alike cs x z) =
        (\<forall>x \<in> set c'. \<exists>z \<in> set c. name_key cs (item_name x) = name_key cs (item_name z) \<and> alike cs x z)"
      by (rule ball_cong [OF refl], rule bex_cong [OF refl], rule p)
    ultimately show ?thesis by (simp only: conj_commute)
  qed
  have v: "(s \<noteq> None \<and> s = s') = (s' \<noteq> None \<and> s' = s)" by auto
  show ?case
  proof (cases "t AND 0xFF = t' AND 0xFF")
    case True
    show ?thesis unfolding y alike.simps Let_def cJSON.sel True l o v double_eq_sym [of d d'] by (rule refl)
  next
    case False
    then show ?thesis by (simp add: y)
  qed
qed

text \<open>No references, and the members of an object have names, which the comparison tells apart.\<close>

definition named_apart :: "bool \<Rightarrow> cJSON list \<Rightarrow> bool" where
  "named_apart cs c \<longleftrightarrow> (\<forall>x \<in> set c. \<exists>k. item_name x = Some k \<and> no_nul k) \<and> distinct (map (\<lambda>x. name_key cs (item_name x)) c)"

fun tidy :: "bool \<Rightarrow> cJSON \<Rightarrow> bool" where
  "tidy cs (Item t s i d k c) \<longleftrightarrow>
     t AND cJSON_IsReference = 0 \<and>
     (t AND 0xFF = cJSON_Object \<longrightarrow> named_apart cs c) \<and>
     (\<forall>x \<in> set c. tidy cs x)"

section \<open>What the function decides\<close>

definition stands :: "bool \<Rightarrow> links \<Rightarrow> shape \<Rightarrow> bool" where
  "stands cs m t \<longleftrightarrow> (\<exists>n. m (root t) = Some n \<and> trees m None (node_child n) (below t)) \<and> tidy cs (value_at m t)"

definition weight :: "shape list \<Rightarrow> nat" where
  "weight ts = length (all_addresses ts)"

lemma weight_simps [simp]: "weight [] = 0" "weight (Shape a ks # ts) = Suc (weight ks + weight ts)"
  by (simp_all add: weight_def)

lemma weight_member: "t \<in> set ts \<Longrightarrow> weight [t] \<le> weight ts"
  by (induction ts) (auto simp: weight_def all_addresses_def)

lemma length_weight: "length ts \<le> weight ts"
  by (induction ts rule: shape_list_induct) simp_all

lemma value_at_sel [simp]:
  "m a = Some n \<Longrightarrow> type (value_at m (Shape a ks)) = type (node_item n)"
  "m a = Some n \<Longrightarrow> valuestring (value_at m (Shape a ks)) = valuestring (node_item n)"
  "m a = Some n \<Longrightarrow> valuedouble (value_at m (Shape a ks)) = valuedouble (node_item n)"
  "m a = Some n \<Longrightarrow> item_name (value_at m (Shape a ks)) = item_name (node_item n)"
  "m a = Some n \<Longrightarrow> child (value_at m (Shape a ks)) = map (value_at m) ks"
  by (cases "node_item n"; simp)+

lemma tidy_sel: "tidy cs x \<longleftrightarrow> \<not> is_reference x \<and>
    (type x AND 0xFF = cJSON_Object \<longrightarrow> named_apart cs (child x)) \<and>
    (\<forall>y \<in> set (child x). tidy cs y)"
  by (cases x) (simp add: is_reference_def)

lemma alike_sel: "alike cs x y \<longleftrightarrow> type x AND 0xFF = type y AND 0xFF \<and>
     (let ty = type x AND 0xFF in
      if ty = cJSON_False \<or> ty = cJSON_True \<or> ty = cJSON_NULL then True
      else if ty = cJSON_Number then double_eq (valuedouble x) (valuedouble y)
      else if ty = cJSON_String \<or> ty = cJSON_Raw then valuestring x \<noteq> None \<and> valuestring x = valuestring y
      else if ty = cJSON_Array then list_all2 (alike cs) (child x) (child y)
      else if ty = cJSON_Object
      then (\<forall>u \<in> set (child x). \<exists>z \<in> set (child y). name_key cs (item_name u) = name_key cs (item_name z) \<and> alike cs u z) \<and>
           (\<forall>z \<in> set (child y). \<exists>u \<in> set (child x). name_key cs (item_name u) = name_key cs (item_name z) \<and> alike cs u z)
      else False)"
  by (cases x) simp

text \<open>The trees of a list stand one by one.\<close>

lemma trees_stand:
  "trees m pr p ts \<Longrightarrow> \<forall>t \<in> set ts. tidy cs (value_at m t) \<Longrightarrow> t \<in> set ts \<Longrightarrow> stands cs m t"
proof (induction ts arbitrary: pr p)
  case (Cons u us)
  obtain a ks where u: "u = Shape a ks" by (cases u)
  obtain n where n: "m a = Some n" "trees m (Some a) (node_next n) us"
    "if is_reference (node_item n) then ks = [] else trees m None (node_child n) ks"
    using Cons.prems(1) u by auto
  have td: "tidy cs (value_at m (Shape a ks))" using Cons.prems(2) u by simp
  then have "\<not> is_reference (value_at m (Shape a ks))" by (subst (asm) tidy_sel) simp
  then have "\<not> is_reference (node_item n)" using n(1) by (simp add: is_reference_def del: value_at.simps)
  then have "stands cs m u" using n td u by (auto simp: stands_def)
  then show ?case using Cons.IH [OF n(2)] Cons.prems(2,3) by auto
qed simp

text \<open>The search finds the first member whose name is the same to the comparison.\<close>

definition found_name :: "bool \<Rightarrow> string \<Rightarrow> string option \<Rightarrow> bool" where
  "found_name cs k n \<longleftrightarrow> (if cs then n = Some k else case_insensitive_strcmp (Some k) n = 0)"

lemma found_name_key: "no_nul j \<Longrightarrow> no_nul k \<Longrightarrow> found_name cs k (Some j) \<longleftrightarrow> name_key cs (Some j) = name_key cs (Some k)"
proof (cases cs)
  case True
  then show ?thesis by (simp add: found_name_def)
next
  case False
  moreover assume "no_nul j" "no_nul k"
  ultimately show ?thesis by (auto simp: found_name_def case_insensitive_strcmp_def casecmp_zero name_key_def)
qed

lemma search_trees:
  "trees m pr p ts \<Longrightarrow> \<forall>t \<in> set ts. item_name (value_at m t) \<noteq> None \<Longrightarrow> length ts \<le> fuel \<Longrightarrow>
   search_name fuel m k cs p = Ok (map_option root (List.find (\<lambda>t. found_name cs k (item_name (value_at m t))) ts))"
proof (induction ts arbitrary: pr p fuel)
  case Nil
  then show ?case by (cases fuel) simp_all
next
  case (Cons u us)
  obtain a ks where u: "u = Shape a ks" by (cases u)
  obtain n where n: "p = Some a" "m a = Some n" "trees m (Some a) (node_next n) us" using Cons.prems(1) u by auto
  obtain f where f: "fuel = Suc f" "length us \<le> f" using Cons.prems(3) by (cases fuel) auto
  have "item_name (value_at m u) = item_name (node_item n)" unfolding u using n(2) by (rule value_at_sel(4))
  then show ?case using Cons.IH [OF n(3) _ f(2)] Cons.prems(2) n(1,2) f(1) u
    by (auto simp: found_name_def simp del: value_at.simps)
qed

lemma find_named_unique:
  assumes "distinct (map g ts)"
  shows "(case List.find (\<lambda>t. g t = k) ts of None \<Rightarrow> False | Some t \<Rightarrow> P t) \<longleftrightarrow> (\<exists>t \<in> set ts. g t = k \<and> P t)"
  using assms
proof (induction ts)
  case (Cons t ts)
  then show ?case by (cases "g t = k") (auto simp: image_iff)
qed simp

lemma find_named_member: "List.find Q ts = Some t \<Longrightarrow> t \<in> set ts"
  by (auto simp: find_Some_iff)

declare value_at.simps [simp del]

lemma elements_decide:
  assumes "\<And>x y. x \<in> set xs \<Longrightarrow> y \<in> set ys \<Longrightarrow> compare (Some (root x)) (Some (root y)) = Ok (alike cs (value_at m x) (value_at m y))"
    and "trees m pr p xs" and "trees m pr' q ys" and "length xs + length ys < fuel"
  shows "compare_elements compare fuel m p q = Ok (list_all2 (alike cs) (map (value_at m) xs) (map (value_at m) ys))"
  using assms
proof (induction xs arbitrary: ys pr p pr' q fuel)
  case Nil
  obtain f where f: "fuel = Suc f" using Nil.prems(4) by (cases fuel) auto
  show ?case
  proof (cases ys)
    case (Cons y ys')
    obtain b ls where "y = Shape b ls" by (cases y)
    then show ?thesis using Nil.prems(2,3) f Cons by auto
  qed (use Nil.prems f in auto)
next
  case (Cons x xs)
  obtain a ks where x: "x = Shape a ks" by (cases x)
  obtain n where n: "p = Some a" "m a = Some n" "trees m (Some a) (node_next n) xs" using Cons.prems(2) x by auto
  obtain f where f: "fuel = Suc f" "length xs + length ys \<le> f" using Cons.prems(4) by (cases fuel) auto
  show ?case
  proof (cases ys)
    case Nil
    then show ?thesis using Cons.prems(3) n f(1) by simp
  next
    case (Cons y ys')
    obtain b ls where y: "y = Shape b ls" by (cases y)
    obtain n' where n': "q = Some b" "m b = Some n'" "trees m (Some b) (node_next n') ys'" using Cons.prems(3) Cons y by auto
    have c: "compare (Some a) (Some b) = Ok (alike cs (value_at m x) (value_at m y))" using Cons.prems(1) [of x y] Cons x y by simp
    have "length xs + length ys' < f" using f(2) Cons by simp
    from Cons.IH [OF _ n(3) n'(3) this] Cons.prems(1) Cons
    have "compare_elements compare f m (node_next n) (node_next n') = Ok (list_all2 (alike cs) (map (value_at m) xs) (map (value_at m) ys'))"
      by simp
    then show ?thesis using c n n' f(1) Cons by (cases "alike cs (value_at m x) (value_at m y)") simp_all
  qed
qed

lemma members_decide:
  assumes "\<And>x y. x \<in> set xs \<Longrightarrow> y \<in> set ys \<Longrightarrow> compare (Some (root x)) (Some (root y)) = Ok (alike cs (value_at m x) (value_at m y))"
    and "trees m pr p xs" and "\<forall>x \<in> set xs. \<exists>k. item_name (value_at m x) = Some k \<and> no_nul k"
    and "m b = Some nb" and "trees m None (node_child nb) ys"
    and "\<forall>y \<in> set ys. \<exists>k. item_name (value_at m y) = Some k \<and> no_nul k"
    and "distinct (map (\<lambda>y. name_key cs (item_name (value_at m y))) ys)"
    and "length xs + length ys < fuel"
  shows "compare_members compare fuel m cs b p =
    Ok (\<forall>x \<in> set xs. \<exists>y \<in> set ys. name_key cs (item_name (value_at m x)) = name_key cs (item_name (value_at m y)) \<and> alike cs (value_at m x) (value_at m y))"
  using assms(1-3,8)
proof (induction xs arbitrary: pr p fuel)
  case Nil
  then show ?case by (cases fuel) simp_all
next
  case (Cons x xs)
  obtain a ks where x: "x = Shape a ks" by (cases x)
  obtain n where n: "p = Some a" "m a = Some n" "trees m (Some a) (node_next n) xs" using Cons.prems(2) x by auto
  obtain f where f: "fuel = Suc f" "length xs + length ys < f" using Cons.prems(4) by (cases fuel) auto
  have nm: "item_name (node_item n) = item_name (value_at m x)" unfolding x using value_at_sel(4) [where m = m and a = a and ks = ks] n(2) by simp
  obtain k where k: "item_name (value_at m x) = Some k" "no_nul k" using Cons.prems(3) by auto
  let ?found = "List.find (\<lambda>y. name_key cs (item_name (value_at m y)) = name_key cs (Some k)) ys"
  have "List.find (\<lambda>y. found_name cs k (item_name (value_at m y))) ys = ?found"
    by (rule find_cong [OF refl]) (use assms(6) k(2) found_name_key in fastforce)
  then have fd: "get_object_item_at f m (Some b) (Some k) cs = Ok (map_option root ?found)"
    using search_trees [OF assms(5), of f k cs] f(2) assms(4,6) by (fastforce simp: get_object_item_at_def)
  have ih: "compare_members compare f m cs b (node_next n) =
      Ok (\<forall>x \<in> set xs. \<exists>y \<in> set ys. name_key cs (item_name (value_at m x)) = name_key cs (item_name (value_at m y)) \<and> alike cs (value_at m x) (value_at m y))"
    using Cons.IH [OF _ n(3) _ f(2)] Cons.prems(1,3) by simp
  have un: "(case ?found of None \<Rightarrow> False | Some y \<Rightarrow> alike cs (value_at m x) (value_at m y)) \<longleftrightarrow>
      (\<exists>y \<in> set ys. name_key cs (item_name (value_at m x)) = name_key cs (item_name (value_at m y)) \<and> alike cs (value_at m x) (value_at m y))"
    unfolding k(1) find_named_unique [OF assms(7)] by (auto simp: eq_commute)
  show ?case
  proof (cases ?found)
    case None
    then show ?thesis using un fd n(1,2) nm k(1) f(1) by simp
  next
    case (Some y)
    have "y \<in> set ys" using find_named_member [OF Some] .
    then have "compare (Some a) (Some (root y)) = Ok (alike cs (value_at m x) (value_at m y))"
      using Cons.prems(1) [of x y] x by simp
    then show ?thesis using Some un fd n(1,2) nm k(1) f(1) ih by (cases "alike cs (value_at m x) (value_at m y)") auto
  qed
qed

lemma compare_decides:
  "stands cs m x \<Longrightarrow> stands cs m y \<Longrightarrow> set (addresses x) \<inter> set (addresses y) = {} \<Longrightarrow>
   length (addresses x) + length (addresses y) \<le> fuel \<Longrightarrow>
   compare_at fuel m cs (Some (root x)) (Some (root y)) = Ok (alike cs (value_at m x) (value_at m y))"
proof (induction fuel arbitrary: x y)
  case 0
  then show ?case by (cases x) simp
next
  case (Suc f)
  obtain a ks where x: "x = Shape a ks" by (cases x)
  obtain b ls where y: "y = Shape b ls" by (cases y)
  obtain na where na: "m a = Some na" "trees m None (node_child na) ks" and tx: "tidy cs (value_at m x)"
    using Suc.prems(1) x by (auto simp: stands_def)
  obtain nb where nb: "m b = Some nb" "trees m None (node_child nb) ls" and ty: "tidy cs (value_at m y)"
    using Suc.prems(2) y by (auto simp: stands_def)
  have ad: "addresses x = a # all_addresses ks" "addresses y = b # all_addresses ls"
    by (simp_all add: x y all_addresses_def)
  have ab: "a \<noteq> b" using Suc.prems(3) ad by auto
  have w: "weight ks + weight ls < f" using Suc.prems(4) ad by (simp add: weight_def)
  have len: "length ks + length ls < f" using w length_weight [of ks] length_weight [of ls] by linarith
  note sx = value_at_sel [of m a na ks, OF na(1), folded x]
  note sy = value_at_sel [of m b nb ls, OF nb(1), folded y]
  have tk: "\<forall>t \<in> set ks. tidy cs (value_at m t)" using tx by (subst (asm) tidy_sel) (simp add: sx)
  have tl: "\<forall>t \<in> set ls. tidy cs (value_at m t)" using ty by (subst (asm) tidy_sel) (simp add: sy)
  have sub: "t \<in> set ts \<Longrightarrow> set (addresses t) \<subseteq> set (all_addresses ts) \<and> length (addresses t) \<le> weight ts" for t ts
    using weight_member [of t ts] by (auto simp: all_addresses_def weight_def)
  have cmp: "compare_at f m cs (Some (root t)) (Some (root u)) = Ok (alike cs (value_at m t) (value_at m u))"
    if "t \<in> set ks \<and> u \<in> set ls \<or> t \<in> set ls \<and> u \<in> set ks" for t u
  proof (rule Suc.IH)
    show "stands cs m t" "stands cs m u" using that trees_stand [OF na(2) tk] trees_stand [OF nb(2) tl] by blast+
    show "set (addresses t) \<inter> set (addresses u) = {}"
      using that sub [of t ks] sub [of u ls] sub [of t ls] sub [of u ks] Suc.prems(3) ad by fastforce
    show "length (addresses t) + length (addresses u) \<le> f"
      using that sub [of t ks] sub [of u ls] sub [of t ls] sub [of u ks] w by fastforce
  qed
  have el: "compare_elements (compare_at f m cs) f m (node_child na) (node_child nb) =
      Ok (list_all2 (alike cs) (child (value_at m x)) (child (value_at m y)))"
    unfolding sx sy using elements_decide [OF _ na(2) nb(2) len] cmp by blast
  have mem: "compare_members (compare_at f m cs) f m cs b (node_child na) =
      Ok (\<forall>u \<in> set (child (value_at m x)). \<exists>z \<in> set (child (value_at m y)). name_key cs (item_name u) = name_key cs (item_name z) \<and> alike cs u z) \<and>
    compare_members (compare_at f m cs) f m cs a (node_child nb) =
      Ok (\<forall>z \<in> set (child (value_at m y)). \<exists>u \<in> set (child (value_at m x)). name_key cs (item_name u) = name_key cs (item_name z) \<and> alike cs u z)"
    if "type (value_at m x) AND 0xFF = cJSON_Object" "type (value_at m y) AND 0xFF = cJSON_Object"
  proof -
    have nx: "\<forall>t \<in> set ks. \<exists>k. item_name (value_at m t) = Some k \<and> no_nul k" "distinct (map (\<lambda>t. name_key cs (item_name (value_at m t))) ks)"
      using tx that(1) by (subst (asm) tidy_sel, simp add: sx named_apart_def comp_def)+
    have ny: "\<forall>t \<in> set ls. \<exists>k. item_name (value_at m t) = Some k \<and> no_nul k" "distinct (map (\<lambda>t. name_key cs (item_name (value_at m t))) ls)"
      using ty that(2) by (subst (asm) tidy_sel, simp add: sy named_apart_def comp_def)+
    have len': "length ls + length ks < f" using len by simp
    have "(name_key cs (item_name z) = name_key cs (item_name u) \<and> alike cs z u) = (name_key cs (item_name u) = name_key cs (item_name z) \<and> alike cs u z)" for u z
      using alike_sym [of cs u z] by auto
    then show ?thesis
      using members_decide [OF _ na(2) nx(1) nb ny len, of "compare_at f m cs"]
        members_decide [OF _ nb(2) ny(1) na nx len', of "compare_at f m cs"] cmp
      unfolding sx sy by simp
  qed
  show ?case
    unfolding alike_sel [of cs "value_at m x"] using na(1) nb(1) ab el mem x y
    by (simp add: sx sy Let_def compared_types_def cJSON_types) (auto intro: sym)
qed

text \<open>
  C11. Comparing two trees decides equality of their values, in both modes: same types, numbers, texts and elements, and the
  same members under the same names in any order, where names are the same to the letter if the comparison is case
  sensitive, and up to the case of their letters if it is not. The trees share no node, hold no references, and the members of each object have
  names that the comparison tells apart (for repeated names see \<open>repeated_names_differ\<close>). The comparison returns, within as
  many steps as there are nodes, and reads nothing outside the two trees.
\<close>

theorem compare_is_equality:
  assumes "stands cs m x" and "stands cs m y" and "set (addresses x) \<inter> set (addresses y) = {}"
    and "length (addresses x) + length (addresses y) \<le> fuel"
  shows "cJSON_Compare fuel m (Some (root x)) (Some (root y)) cs = Ok (alike cs (value_at m x) (value_at m y))"
  unfolding cJSON_Compare_def using assms by (rule compare_decides)

text \<open>Two objects with the same members in different order, and a third with another value and a name in capitals.\<close>

definition object_node :: "nat \<Rightarrow> node" where
  "object_node a = \<lparr>node_item = plain_item cJSON_Object None, node_child = Some a, node_next = None, node_prev = None\<rparr>"

definition member_node :: "string \<Rightarrow> int \<Rightarrow> nat option \<Rightarrow> nat option \<Rightarrow> node" where
  "member_node k t nx pv = \<lparr>node_item = set_name (Some k) (plain_item t None), node_child = None, node_next = nx, node_prev = pv\<rparr>"

definition demo_objects :: links where
  "demo_objects = [
     0 \<mapsto> object_node 1, 1 \<mapsto> member_node ''a'' cJSON_True (Some 2) None, 2 \<mapsto> member_node ''b'' cJSON_NULL None (Some 1),
     3 \<mapsto> object_node 4, 4 \<mapsto> member_node ''b'' cJSON_NULL (Some 5) None, 5 \<mapsto> member_node ''a'' cJSON_True None (Some 4),
     6 \<mapsto> object_node 7, 7 \<mapsto> member_node ''A'' cJSON_True (Some 8) None, 8 \<mapsto> member_node ''b'' cJSON_NULL None (Some 7)]"

lemmas demo_objects_eval = demo_objects_def object_node_def member_node_def value_at.simps plain_item_def cJSON_types
  name_key_def tolower_def Let_def

lemma demo_objects_stand:
  "stands cs demo_objects (Shape 0 [Shape 1 [], Shape 2 []])" "stands cs demo_objects (Shape 3 [Shape 4 [], Shape 5 []])"
  "stands cs demo_objects (Shape 6 [Shape 7 [], Shape 8 []])"
  by (simp_all add: stands_def demo_objects_eval named_apart_def no_nul_def)

lemma demo_objects_alike:
  "alike True (value_at demo_objects (Shape 0 [Shape 1 [], Shape 2 []])) (value_at demo_objects (Shape 3 [Shape 4 [], Shape 5 []]))"
  "\<not> alike True (value_at demo_objects (Shape 0 [Shape 1 [], Shape 2 []])) (value_at demo_objects (Shape 6 [Shape 7 [], Shape 8 []]))"
  "alike False (value_at demo_objects (Shape 0 [Shape 1 [], Shape 2 []])) (value_at demo_objects (Shape 6 [Shape 7 [], Shape 8 []]))"
  by (simp_all add: demo_objects_eval)

lemma compare_is_equality_witness:
  "cJSON_Compare 6 demo_objects (Some 0) (Some 3) True = Ok True \<and> cJSON_Compare 6 demo_objects (Some 0) (Some 6) True = Ok False \<and>
   cJSON_Compare 6 demo_objects (Some 0) (Some 6) False = Ok True"
  using compare_is_equality [OF demo_objects_stand(1,2), of 6 True] compare_is_equality [OF demo_objects_stand(1,3), of 6 True]
    compare_is_equality [OF demo_objects_stand(1,3), of 6 False] demo_objects_alike
  by simp

text \<open>
  Two equal objects with a repeated name do not compare equal, although the header promises a comparison for equality:
  every member is compared with the first one of its name.
\<close>

definition demo_repeated :: links where
  "demo_repeated = [
     0 \<mapsto> object_node 1, 1 \<mapsto> member_node ''a'' cJSON_True (Some 2) None, 2 \<mapsto> member_node ''a'' cJSON_NULL None (Some 1),
     3 \<mapsto> object_node 4, 4 \<mapsto> member_node ''a'' cJSON_True (Some 5) None, 5 \<mapsto> member_node ''a'' cJSON_NULL None (Some 4)]"

lemma repeated_names_differ:
  "value_at demo_repeated (Shape 0 [Shape 1 [], Shape 2 []]) = value_at demo_repeated (Shape 3 [Shape 4 [], Shape 5 []])"
  "cJSON_Compare 6 demo_repeated (Some 0) (Some 3) True = Ok False"
  by (simp_all add: demo_repeated_def object_node_def member_node_def value_at.simps plain_item_def cJSON_types cJSON_Compare_def
      eval_nat_numeral node_at_def get_object_item_at_def compared_types_def Let_def)

end
