(* ===== verification/Json_Roundtrip.thy ===== *)
theory Json_Roundtrip
  imports Json_Parse Json_Print Json_Build Json_Compare
begin

text \<open>
  src/libs/cJSON.c, the printer and the parser together: what the parser reads of the text that the printer
  writes for an item. The lemmas follow the parser through that text piece by piece; each says how many bytes
  a function consumes of what remains, and what it leaves in the item.
\<close>

section \<open>Numbers\<close>

lemma number_text_read:
  assumes "wf_double d" "is_finite d" "stops rest"
  shows "strtod (number_text d @ rest) = Some (d, rest)"
proof -
  obtain s m e where d: "d = Fin s m e" using assms(2) by (cases d) auto
  note w = assms(1) [unfolded d]
  have zero: "m = 0 \<Longrightarrow> e = - 1074" using w by simp
  have g17: "strtod (format_g 17 d @ rest) = Some (d, rest)"
    using strtod_format_17 [OF w assms(3)] zero by (auto simp: d)
  obtain t where t: "strtod (format_g 15 d) = Some (t, [])" "strtod (format_g 15 d @ rest) = Some (t, rest)"
    using strtod_format_any [OF w _ assms(3), of 15] by (auto simp: d)
  show ?thesis
  proof (cases "double_eq t d")
    case True
    have "t = d"
    proof (cases "m = 0")
      case m: True
      have "format_g 15 d = format_g 17 d" by (simp add: d m)
      then show ?thesis using t(2) g17 by simp
    next
      case False
      then show ?thesis using True by (cases t) (auto simp: d)
    qed
    then show ?thesis using t True d by (simp add: number_text_def)
  next
    case False
    then show ?thesis using t g17 d by (simp add: number_text_def)
  qed
qed

lemma digits_number_char: "digits s \<Longrightarrow> list_all number_char s"
  by (auto simp: digits_def number_char_def list_all_iff)

lemma exponent_number_char: "list_all number_char (show_exponent x)"
proof -
  obtain ds where "show_exponent x = CHR ''e'' # (if x < 0 then CHR ''-'' else CHR ''+'') # ds" "digits ds"
    using show_exponent_shape by blast
  then show ?thesis using digits_number_char [of ds] by (simp add: number_char_def)
qed

lemma format_g_number_char:
  assumes "wf_double (Fin s m e)" "1 < P"
  shows "list_all number_char (format_g P (Fin s m e))" "\<exists>c t. format_g P (Fin s m e) = c # t \<and> (c = CHR ''-'' \<or> is_digit c)"
proof -
  obtain ip fp xo where t: "format_g P (Fin s m e) = numeral_text s ip fp xo" "digits ip" "digits fp" "ip \<noteq> []"
    using format_g_text [OF assms] by blast
  show "list_all number_char (format_g P (Fin s m e))"
    unfolding t(1) using digits_number_char [OF t(2)] digits_number_char [OF t(3)] exponent_number_char
    by (auto simp: numeral_text_def exp_text_def number_char_def split: option.split)
  obtain c u where "ip = c # u" using t(4) by (cases ip) auto
  moreover from this have "is_digit c" using t(2) by simp
  ultimately show "\<exists>c t. format_g P (Fin s m e) = c # t \<and> (c = CHR ''-'' \<or> is_digit c)"
    unfolding t(1) numeral_text_def by auto
qed

lemma number_text_chars:
  assumes "wf_double d" "is_finite d"
  shows "list_all number_char (number_text d)" "\<exists>c t. number_text d = c # t \<and> (c = CHR ''-'' \<or> is_digit c)"
proof -
  obtain s m e where d: "d = Fin s m e" using assms(2) by (cases d) auto
  have "number_text d = format_g 15 d \<or> number_text d = format_g 17 d"
    by (simp add: number_text_def d Let_def split: option.split)
  then have "\<exists>P > 1. number_text d = format_g P (Fin s m e)"
    unfolding d
  proof (elim disjE)
    assume "number_text (Fin s m e) = format_g 15 (Fin s m e)"
    then show "\<exists>P > 1. number_text (Fin s m e) = format_g P (Fin s m e)" by (intro exI [of _ 15]) simp
  next
    assume "number_text (Fin s m e) = format_g 17 (Fin s m e)"
    then show "\<exists>P > 1. number_text (Fin s m e) = format_g P (Fin s m e)" by (intro exI [of _ 17]) simp
  qed
  then obtain P where P: "1 < P" "number_text d = format_g P (Fin s m e)" by blast
  show "list_all number_char (number_text d)" unfolding P(2) by (rule format_g_number_char(1) [OF assms(1) [unfolded d] P(1)])
  show "\<exists>c t. number_text d = c # t \<and> (c = CHR ''-'' \<or> is_digit c)"
    unfolding P(2) by (rule format_g_number_char(2) [OF assms(1) [unfolded d] P(1)])
qed

section \<open>String literals\<close>

definition remaining :: "parse_buffer \<Rightarrow> char list" where
  "remaining p = drop (offset p) (content p)"

lemma drop_nth: "drop pos bs = c # r \<Longrightarrow> pos < length bs \<and> bs ! pos = c \<and> drop (Suc pos) bs = r"
proof -
  assume d: "drop pos bs = c # r"
  then have l: "pos < length bs" by (cases "pos < length bs") simp_all
  from Cons_nth_drop_Suc [OF l] d l show ?thesis by simp
qed

fun escapes :: "string \<Rightarrow> nat" where
  "escapes [] = 0"
| "escapes (c # s) = (if 31 < (of_char c :: nat) \<and> c \<noteq> CHR 0x22 \<and> c \<noteq> CHR 0x5C then 0 else 1) + escapes s"

text \<open>One escaped character.\<close>

definition escape_char :: "char \<Rightarrow> string" where
  "escape_char c = (if 31 < (of_char c :: nat) \<and> c \<noteq> CHR 0x22 \<and> c \<noteq> CHR 0x5C then [c]
      else CHR 0x5C # (case short_escape c of Some e \<Rightarrow> [e] | None \<Rightarrow> unicode_escape c))"

lemma escape_Cons: "escape (c # s) = escape_char c @ escape s"
  by (simp add: escape_char_def)

lemma scan_plain: "drop pos bs = c # r \<Longrightarrow> c \<noteq> CHR 0x22 \<Longrightarrow> c \<noteq> CHR 0x5C \<Longrightarrow> scan_string bs pos k = scan_string bs (pos + 1) k"
  using drop_nth [of pos bs c r] by (simp add: scan_string.simps [of bs pos])

lemma scan_plains:
  "drop pos bs = w @ r \<Longrightarrow> CHR 0x22 \<notin> set w \<Longrightarrow> CHR 0x5C \<notin> set w \<Longrightarrow> scan_string bs pos k = scan_string bs (pos + length w) k"
proof (induction w arbitrary: pos)
  case (Cons c w)
  then have "scan_string bs pos k = scan_string bs (pos + 1) k" by (intro scan_plain [of _ _ c "w @ r"]) auto
  moreover have "drop (pos + 1) bs = w @ r" using Cons.prems(1) drop_nth [of pos bs c "w @ r"] by simp
  ultimately show ?case using Cons.IH [of "pos + 1"] Cons.prems(2,3) by simp
qed simp

lemma scan_escape: "drop pos bs = CHR 0x5C # e # r \<Longrightarrow> scan_string bs pos k = scan_string bs (pos + 2) (k + 1)"
  using drop_nth [of pos bs "CHR 0x5C" "e # r"] drop_nth [of "Suc pos" bs e r] by (simp add: scan_string.simps [of bs pos])

lemma hex_char_plain: "d < 16 \<Longrightarrow> hex_char d \<noteq> CHR 0x22 \<and> hex_char d \<noteq> CHR 0x5C \<and> hex_digit (hex_char d) = Some d"
proof -
  assume d: "d < 16"
  have n: "of_char (hex_char d) = (if d < 10 then 48 + d else 87 + d)" using d by (simp add: hex_char_def)
  then have "(of_char (hex_char d) :: nat) \<noteq> of_char (CHR 0x22)" "(of_char (hex_char d) :: nat) \<noteq> of_char (CHR 0x5C)" using d by auto
  then have "hex_char d \<noteq> CHR 0x22" "hex_char d \<noteq> CHR 0x5C" by metis+
  then show ?thesis using d n by (simp add: hex_digit_def Let_def)
qed

lemma escape_char_cases:
  obtains (plain) "escape_char c = [c]" "c \<noteq> CHR 0x22" "c \<noteq> CHR 0x5C"
  | (short) e where "escape_char c = [CHR 0x5C, e]" "simple_escape e = Some c"
  | (long) "escape_char c = CHR 0x5C # unicode_escape c" "of_char c < (32 :: nat)"
proof (cases "31 < (of_char c :: nat) \<and> c \<noteq> CHR 0x22 \<and> c \<noteq> CHR 0x5C")
  case True
  then show ?thesis by (intro plain) (simp_all add: escape_char_def)
next
  case False
  show ?thesis
  proof (cases "short_escape c")
    case None
    then have "c \<noteq> CHR 0x22" "c \<noteq> CHR 0x5C" by (auto simp: short_escape_def split: if_splits)
    then show ?thesis using False None by (intro long) (auto simp: escape_char_def)
  next
    case (Some e)
    then have "simple_escape e = Some c" by (auto simp: short_escape_def simple_escape_def split: if_splits)
    then show ?thesis using False Some by (intro short) (auto simp: escape_char_def)
  qed
qed

lemma escape_char_escapes: "escapes [c] = (if escape_char c = [c] then 0 else 1)"
  by (cases c rule: escape_char_cases) (auto simp: escape_char_def unicode_escape_def split: if_splits option.splits)

lemma scan_char:
  "drop pos bs = escape_char c @ r \<Longrightarrow> scan_string bs pos k = scan_string bs (pos + length (escape_char c)) (k + escapes [c])"
proof (cases c rule: escape_char_cases)
  case plain
  assume "drop pos bs = escape_char c @ r"
  then show ?thesis using plain scan_plain [of pos bs c r k] escape_char_escapes [of c] by simp
next
  case (short e)
  assume "drop pos bs = escape_char c @ r"
  then show ?thesis using short scan_escape [of pos bs e r k] escape_char_escapes [of c] by simp
next
  case long
  assume d: "drop pos bs = escape_char c @ r"
  let ?w = "[CHR ''0'', CHR ''0'', hex_char (of_char c div 16), hex_char (of_char c mod 16)]"
  have e: "drop pos bs = CHR 0x5C # CHR ''u'' # ?w @ r" using d long by (simp add: unicode_escape_def)
  have w: "CHR 0x22 \<notin> set ?w" "CHR 0x5C \<notin> set ?w" using hex_char_plain [OF of_char_hex(1) [of c]] hex_char_plain [OF of_char_hex(2) [of c]]
    by (auto simp: eq_commute [of "CHR 0x22"] eq_commute [of "CHR 0x5C"])
  have "drop (pos + 2) bs = ?w @ r" using e by (metis One_nat_def Suc_1 add.commute drop_drop drop_Suc_Cons drop0)
  then show ?thesis using scan_escape [OF e, of k] scan_plains [OF _ w, of "pos + 2" bs r "k + 1"] long escape_char_escapes [of c]
    by (simp add: unicode_escape_def)
qed

lemma drop_append_length: "drop pos bs = w @ r \<Longrightarrow> drop (pos + length w) bs = r"
  by (metis add.commute append_eq_conv_conj drop_drop)

lemma scan_text:
  "drop pos bs = escape s @ CHR 0x22 # r \<Longrightarrow> scan_string bs pos k = Some (pos + length (escape s), k + escapes s)"
proof (induction s arbitrary: pos k)
  case Nil
  then show ?case using drop_nth [of pos bs "CHR 0x22" r] by (simp add: scan_string.simps [of bs pos])
next
  case (Cons c s)
  then have d: "drop pos bs = escape_char c @ escape s @ CHR 0x22 # r" by (simp add: escape_Cons del: escape.simps)
  show ?case using scan_char [OF d, of k] Cons.IH [OF drop_append_length [OF d], of "k + escapes [c]"]
    by (simp add: escape_Cons del: escape.simps)
qed

lemma low_code: "n < (128 :: nat) \<Longrightarrow> utf8_bytes n = Some [char_of n]"
proof -
  assume n: "n < 128"
  have "(127 :: nat) = mask 7" by (simp add: mask_eq_exp_minus_1)
  then have "n AND 127 = n mod 2 ^ 7" by (simp only: flip: take_bit_eq_mask take_bit_eq_mod)
  then show ?thesis using n by (simp add: utf8_bytes_def)
qed

lemma unicode_read:
  assumes "of_char c < (32 :: nat)"
  shows "utf16_literal_to_utf8 (CHR 0x5C # unicode_escape c @ r) = Ok (6, [c])"
proof -
  let ?n = "of_char c :: nat"
  note h = hex_char_plain [OF of_char_hex(1) [of c]] hex_char_plain [OF of_char_hex(2) [of c]]
  have z: "hex_digit (CHR ''0'') = Some 0" by (simp add: hex_digit_def)
  have d: "drop 2 (CHR 0x5C # unicode_escape c @ r) =
      CHR ''0'' # CHR ''0'' # hex_char (?n div 16) # hex_char (?n mod 16) # r" by (simp add: unicode_escape_def)
  have four: "parse_hex4 cs = hex_loop (Suc (Suc (Suc (Suc 0)))) 0 cs" for cs
    by (simp add: parse_hex4_def eval_nat_numeral)
  have "?n = 16 * (?n div 16) + ?n mod 16" by simp
  then have "parse_hex4 (drop 2 (CHR 0x5C # unicode_escape c @ r)) = Ok ?n"
    unfolding d four using h z by (simp add: push_bit_eq_mult)
  moreover have "utf8_bytes ?n = Some [c]" using low_code [of ?n] assms by simp
  ultimately show ?thesis using assms by (simp add: utf16_literal_to_utf8_def Let_def unicode_escape_def)
qed

lemma put_one: "length out < cap \<Longrightarrow> put cap out [c] = Ok (out @ [c])"
  by (simp add: put_def)

lemma take_beyond: "take (length w + n) (w @ r) = w @ take n r"
  by simp

lemma escape_char_nonempty [simp]: "escape_char c \<noteq> []"
  by (cases c rule: escape_char_cases) simp_all

lemma string_char:
  assumes "drop pos bs = escape_char c @ r" "pos + length (escape_char c) \<le> e" "e \<le> length bs" "length out < cap"
  shows "string_loop bs e cap pos out = string_loop bs e cap (pos + length (escape_char c)) (out @ [c])"
proof (cases c rule: escape_char_cases)
  case plain
  then show ?thesis using assms drop_nth [of pos bs c r]
    by (subst string_loop.simps) (simp add: put_one)
next
  case (short d)
  have n: "drop pos bs = CHR 0x5C # d # r" using assms(1) short by simp
  note n1 = drop_nth [OF n] drop_nth [of "Suc pos" bs d r]
  show ?thesis using assms(2-4) short n1
    by (subst string_loop.simps) (simp add: put_one)
next
  case long
  have n: "drop pos bs = CHR 0x5C # CHR ''u'' # tl (unicode_escape c) @ r" using assms(1) long by (simp add: unicode_escape_def)
  note n1 = drop_nth [OF n] drop_nth [of "Suc pos" bs "CHR ''u''" "tl (unicode_escape c) @ r"]
  have len: "length (escape_char c) = 6" using long by (simp add: unicode_escape_def)
  obtain n where "e - pos = length (escape_char c) + n"
    using assms(2) by (metis add_le_imp_le_diff add.commute le_Suc_ex)
  then have "take (e - pos) (drop pos bs) = CHR 0x5C # unicode_escape c @ take n r"
    unfolding assms(1) using take_beyond [of "escape_char c" n r] long by simp
  then have u: "utf16_literal_to_utf8 (take (e - pos) (drop pos bs)) = Ok (6, [c])"
    using unicode_read [OF long(2)] by simp
  have s: "simple_escape (CHR ''u'') = None" by (simp add: simple_escape_def)
  show ?thesis using assms(2-4) n1 len u s
    by (subst string_loop.simps) (simp add: put_one)
qed

lemma string_text:
  "drop pos bs = escape s @ r \<Longrightarrow> e = pos + length (escape s) \<Longrightarrow> length out + length s \<le> cap \<Longrightarrow>
   string_loop bs e cap pos out = Ok (Inr (out @ s))"
proof (induction s arbitrary: pos out)
  case Nil
  then show ?case by (subst string_loop.simps) simp
next
  case (Cons c s)
  then have d: "drop pos bs = escape_char c @ escape s @ r" by (simp add: escape_Cons del: escape.simps)
  have e: "e = pos + length (escape_char c) + length (escape s)" using Cons.prems(2) by (simp add: escape_Cons del: escape.simps)
  have "length (drop pos bs) = length (escape_char c @ escape s @ r)" using d by simp
  then have "e \<le> length bs" using e by (cases "pos \<le> length bs") auto
  then have "string_loop bs e cap pos out = string_loop bs e cap (pos + length (escape_char c)) (out @ [c])"
    using string_char [OF d, of e out cap] e Cons.prems(3) by simp
  then show ?case using Cons.IH [OF drop_append_length [OF d] e, of "out @ [c]"] Cons.prems(3) by simp
qed

lemma escape_longer: "length s + escapes s \<le> length (escape s)"
proof (induction s)
  case (Cons c s)
  have "1 + escapes [c] \<le> length (escape_char c)"
    unfolding escape_char_escapes by (cases c rule: escape_char_cases) (simp_all add: unicode_escape_def)
  moreover have "escapes (c # s) = escapes [c] + escapes s" by simp
  ultimately show ?case using Cons by (simp add: escape_Cons del: escape.simps)
qed simp

text \<open>What a function of the parser leaves alone when it consumes \<open>n\<close> bytes.\<close>

definition consumes :: "nat \<Rightarrow> parse_buffer \<Rightarrow> parse_buffer \<Rightarrow> bool" where
  "consumes n p q \<longleftrightarrow> content q = content p \<and> offset q = offset p + n \<and> depth q = depth p \<and> grants (pool q) = (\<lambda>_. True)"

definition willing :: "parse_buffer \<Rightarrow> bool" where
  "willing p \<longleftrightarrow> grants (pool p) = (\<lambda>_. True)"

lemma allocate_willing: "grants h = (\<lambda>_. True) \<Longrightarrow> \<exists>h1. allocate h = (True, h1) \<and> grants h1 = (\<lambda>_. True)"
  by (simp add: allocate_def)

lemma remaining_consumes: "consumes n p q \<Longrightarrow> remaining q = drop n (remaining p)"
  by (simp add: consumes_def remaining_def add.commute)

lemma byte_at_remaining: "remaining p = c # r \<Longrightarrow> byte_at p 0 = Ok c"
  using drop_nth [of "offset p" "content p" c r] by (simp add: remaining_def byte_at_def)

lemma string_read:
  assumes "remaining p = quote (Some u) @ r" "no_nul u" "willing p"
  shows "\<exists>q. parse_string item p = Ok (True, set_valuestring (Some u) (set_type cJSON_String item), q) \<and>
    consumes (length (quote (Some u))) p q"
proof -
  let ?bs = "content p" let ?k = "offset p + 1"
  have d: "drop (offset p) ?bs = CHR 0x22 # escape u @ CHR 0x22 # r" using assms(1) by (simp add: remaining_def quote_def)
  have d1: "drop ?k ?bs = escape u @ CHR 0x22 # r" using drop_nth [OF d] by simp
  note scan = scan_text [OF d1, of 0]
  let ?close = "?k + length (escape u)"
  let ?cap = "?close - offset p - escapes u + 1"
  have cap: "length u + 1 \<le> ?cap" using escape_longer [of u] by simp
  obtain h1 where h: "allocate (pool p) = (True, h1)" "grants h1 = (\<lambda>_. True)"
    using allocate_willing assms(3) by (auto simp: willing_def)
  have "string_loop ?bs ?close ?cap ?k [] = Ok (Inr u)" using string_text [OF d1 refl, of "[]" ?cap] cap by simp
  moreover have "put ?cap u [NUL] = Ok (u @ [NUL])" using cap by (simp add: put_def)
  moreover have "cstr (u @ [NUL]) = u"
  proof -
    have "\<forall>x \<in> set u. x \<noteq> NUL" using assms(2) by (auto simp: no_nul_def)
    then show ?thesis by (simp add: cstr_def)
  qed
  moreover have "byte_at p 0 = Ok (CHR 0x22)" using byte_at_remaining [of p] d by (simp add: remaining_def)
  ultimately have "parse_string item p = Ok (True, set_valuestring (Some u) (set_type cJSON_String item), p\<lparr>offset := ?close + 1, pool := h1\<rparr>)"
    using scan h(1) by (simp add: parse_string_def Let_def)
  then show ?thesis using h(2) by (simp add: consumes_def quote_def)
qed

section \<open>Positions\<close>

lemma remaining_advance [simp]: "remaining (advance n p) = drop n (remaining p)"
  by (simp add: remaining_def advance_def add.commute)

lemma remaining_pool [simp]: "remaining (set_pool h p) = remaining p" "remaining (p\<lparr>depth := k\<rparr>) = remaining p"
  by (simp_all add: remaining_def set_pool_def)

lemma can_access_remaining: "remaining p = c # r \<Longrightarrow> can_access_at_index p 0"
  using drop_nth [of "offset p" "content p" c r] by (simp add: remaining_def can_access_at_index_def)

lemma at_char_remaining: "remaining p = c # r \<Longrightarrow> at_char p d = Ok (c = d)"
  using can_access_remaining byte_at_remaining by (simp add: at_char_def)

lemma at_word_remaining: "w \<noteq> [] \<Longrightarrow> at_word p w \<longleftrightarrow> take (length w) (remaining p) = w"
proof -
  assume w: "w \<noteq> []"
  have "take (length w) (remaining p) = w \<Longrightarrow> offset p + length w \<le> length (content p)"
  proof -
    assume t: "take (length w) (remaining p) = w"
    then have "length (take (length w) (remaining p)) = length w" by simp
    then show ?thesis using w by (cases "offset p \<le> length (content p)") (auto simp: remaining_def)
  qed
  then show ?thesis by (auto simp: at_word_def can_read_def remaining_def)
qed

lemma skip_white:
  assumes "remaining p = w @ c # r" "list_all white w" "\<not> white c"
  shows "buffer_skip_whitespace p = advance (length w) p"
proof -
  have "takeWhile white (remaining p) = w" using assms by (simp add: list_all_iff)
  moreover have "drop (length w) (remaining p) = c # r" using assms(1) by simp
  then have "offset p + length w < length (content p)"
    using drop_nth [of "length w + offset p" "content p" c r] by (simp add: remaining_def)
  ultimately show ?thesis by (simp add: buffer_skip_whitespace_def remaining_def advance_def Let_def)
qed

lemma consumes_advance: "willing p \<Longrightarrow> consumes n p (advance n p)"
  by (simp add: consumes_def willing_def advance_def)

lemma consumes_willing: "consumes n p q \<Longrightarrow> willing q"
  by (simp add: consumes_def willing_def)

lemma consumes_trans: "consumes n p q \<Longrightarrow> consumes m q r \<Longrightarrow> consumes (n + m) p r"
  by (simp add: consumes_def)

lemma consumes_depth: "consumes n p q \<Longrightarrow> depth q = depth p"
  by (simp add: consumes_def)

section \<open>What a printed item is read back as\<close>

text \<open>An item that holds nothing but a type and a name: what a value is parsed into.\<close>

definition bare_item :: "int \<Rightarrow> string option \<Rightarrow> cJSON" where
  "bare_item ty nm = Item ty None 0 (Fin False 0 (- 1074)) nm []"

lemma New_Item_willing:
  "grants h = (\<lambda>_. True) \<Longrightarrow> \<exists>h1. cJSON_New_Item h = (Some (bare_item cJSON_Invalid None), h1) \<and> grants h1 = (\<lambda>_. True)"
  using allocate_willing [of h] by (auto simp: cJSON_New_Item_def bare_item_def)

definition text_of :: "string option \<Rightarrow> string" where
  "text_of s = (case s of None \<Rightarrow> [] | Some u \<Rightarrow> u)"

text \<open>
  The flags of the type, the fields a kind does not use and the name of an element of an array are not printed; a
  number that is not finite prints as null, a missing string as the empty one.
\<close>

fun reparsed :: "string option \<Rightarrow> cJSON \<Rightarrow> cJSON" where
  "reparsed nm (Item t s i x k c) =
     (let kind = t AND 0xFF in
      if kind = cJSON_False then Item cJSON_False None 0 zero nm []
      else if kind = cJSON_True then Item cJSON_True None 1 zero nm []
      else if kind = cJSON_Number \<and> is_finite x then Item cJSON_Number None (saturated x) x nm []
      else if kind = cJSON_String then Item cJSON_String (Some (text_of s)) 0 zero nm []
      else if kind = cJSON_Array then Item cJSON_Array None 0 zero nm (map (reparsed None) c)
      else if kind = cJSON_Object then
        Item cJSON_Object None 0 zero nm (map (\<lambda>e. reparsed (Some (text_of (item_name e))) e) c)
      else Item cJSON_NULL None 0 zero nm [])"

fun no_raw :: "cJSON \<Rightarrow> bool" where
  "no_raw (Item t s i x k c) \<longleftrightarrow> t AND 0xFF \<noteq> cJSON_Raw \<and> list_all no_raw c"

definition is_container :: "int \<Rightarrow> bool" where
  "is_container t \<longleftrightarrow> t AND 0xFF = cJSON_Array \<or> t AND 0xFF = cJSON_Object"

fun nesting :: "cJSON \<Rightarrow> nat" where
  "nesting (Item t s i x k c) = (if is_container t then 1 + fold max (map nesting c) 0 else 0)"

text \<open>The fuel that reading an item takes.\<close>

fun units :: "cJSON \<Rightarrow> nat" where
  "units (Item t s i x k c) = (if is_container t then 2 + sum_list (map (\<lambda>e. 1 + units e) c) else 1)"

lemma fold_max: "m \<le> fold max xs m" "(x :: nat) \<in> set xs \<Longrightarrow> x \<le> fold max xs m"
proof -
  have "m \<le> fold max xs m \<and> (\<forall>x \<in> set xs. x \<le> fold max xs m)" for m
  proof (induction xs arbitrary: m)
    case (Cons y ys)
    from Cons [of "max y m"] show ?case by auto
  qed simp
  then show "m \<le> fold max xs m" "x \<in> set xs \<Longrightarrow> x \<le> fold max xs m" by auto
qed

lemma nesting_member: "e \<in> set c \<Longrightarrow> nesting e \<le> fold max (map nesting c) 0"
  by (rule fold_max(2)) simp

section \<open>Reading the values\<close>

definition follow :: "char list \<Rightarrow> bool" where
  "follow r \<longleftrightarrow> (\<exists>c u. r = c # u \<and> \<not> number_char c)"

text \<open>The parser reads the text of a value, whatever follows it, as the value.\<close>

definition readable :: "bool \<Rightarrow> cJSON \<Rightarrow> bool" where
  "readable fmt i \<longleftrightarrow>
     (\<forall>d t ty nm fuel p r. render fmt d i = Some t \<longrightarrow> remaining p = t @ r \<longrightarrow> follow r \<longrightarrow> willing p \<longrightarrow>
        depth p + nesting i \<le> nesting_limit \<longrightarrow> units i \<le> fuel \<longrightarrow>
        (\<exists>q. parse_value fuel (bare_item ty nm) p = Ok (True, reparsed nm i, q) \<and> consumes (length t) p q))"

lemma readableD:
  "readable fmt i \<Longrightarrow> render fmt d i = Some t \<Longrightarrow> remaining p = t @ r \<Longrightarrow> follow r \<Longrightarrow> willing p \<Longrightarrow>
   depth p + nesting i \<le> nesting_limit \<Longrightarrow> units i \<le> fuel \<Longrightarrow>
   \<exists>q. parse_value fuel (bare_item ty nm) p = Ok (True, reparsed nm i, q) \<and> consumes (length t) p q"
  unfolding readable_def by blast

lemma number_read:
  assumes "wf_double x" "is_finite x" "remaining p = number_text x @ r" "follow r" "willing p"
  shows "\<exists>q. parse_number item p = Ok (True, set_type cJSON_Number (set_valueint (saturated x) (set_valuedouble x item)), q) \<and>
    consumes (length (number_text x)) p q"
proof -
  obtain c u where r: "r = c # u" "\<not> number_char c" using assms(4) by (auto simp: follow_def)
  have "takeWhile number_char (take 63 (drop (offset p) (content p))) = number_text x"
  proof -
    have "take 63 (number_text x @ r) = number_text x @ c # take (62 - length (number_text x)) u"
      using number_text_bounds(1) [OF assms(1)] r(1) by (simp add: take_Cons')
    then show ?thesis
      using assms(3) number_text_chars(1) [OF assms(1,2)] r(2) by (simp add: remaining_def list_all_iff)
  qed
  moreover have "strtod (number_text x) = Some (x, [])"
    using number_text_read [OF assms(1,2), of "[]"] by (simp add: stops_def)
  moreover have "saturated_int x = Ok (saturated x)"
  proof -
    have "x \<noteq> NaN" using assms(2) by (cases x) simp_all
    then show ?thesis using saturated_int_Ok [of x] by (auto simp: saturated_def)
  qed
  ultimately have "parse_number item p =
      Ok (True, set_type cJSON_Number (set_valueint (saturated x) (set_valuedouble x item)), advance (length (number_text x)) p)"
    by (simp add: parse_number_def)
  then show ?thesis using consumes_advance [OF assms(5)] by blast
qed

lemma words_read:
  "remaining p = ''null'' @ r \<Longrightarrow> parse_value (Suc f) item p = Ok (True, set_type cJSON_NULL item, advance 4 p)"
  "remaining p = ''false'' @ r \<Longrightarrow> parse_value (Suc f) item p = Ok (True, set_type cJSON_False item, advance 5 p)"
  "remaining p = ''true'' @ r \<Longrightarrow> parse_value (Suc f) item p = Ok (True, set_valueint 1 (set_type cJSON_True item), advance 4 p)"
  by (simp_all add: at_word_remaining)

lemma value_dispatch:
  assumes "remaining p = c # r" "c \<notin> {CHR ''n'', CHR ''f'', CHR ''t''}"
  shows "parse_value (Suc f) item p =
     (if c = CHR 0x22 then parse_string item p
      else if c = CHR ''-'' \<or> is_digit c then parse_number item p
      else if c = CHR ''['' then parse_array f item p
      else if c = CHR ''{'' then parse_object f item p
      else Ok (False, item, p))"
  using assms by (simp add: at_word_remaining can_access_remaining byte_at_remaining)

lemma not_white [simp]: "is_digit c \<Longrightarrow> \<not> white c"
  "\<not> white (CHR ''-'')" "\<not> white (CHR 0x22)" "\<not> white (CHR '','')" "\<not> white (CHR '']'')" "\<not> white (CHR ''}'')"
  "\<not> white (CHR ''['')" "\<not> white (CHR ''{'')" "\<not> white (CHR '':'')" "\<not> white (CHR ''n'')" "\<not> white (CHR ''t'')"
  "\<not> white (CHR ''f'')"
  by (simp_all add: white_def is_digit_def)

lemma is_white [simp]: "white (CHR '' '')" "white (CHR 0x09)" "white LF"
  by (simp_all add: white_def)

lemma follow_simps [simp]: "follow (CHR '','' # r)" "follow (CHR '']'' # r)" "follow (CHR ''}'' # r)" "follow (LF # r)" "follow (NUL # r)"
  by (simp_all add: follow_def number_char_def is_digit_def)

text \<open>The text of a value begins with a character that opens a value.\<close>

lemma render_starts:
  assumes "clean i" "no_raw i" "render fmt d i = Some t"
  shows "\<exists>c u. t = c # u \<and> \<not> white c \<and> c \<noteq> CHR '']'' \<and> c \<noteq> CHR 0xEF"
proof -
  obtain ty s j x k c where i: "i = Item ty s j x k c" by (cases i)
  have num: "\<exists>c u. number_text x = c # u \<and> \<not> white c \<and> c \<noteq> CHR '']'' \<and> c \<noteq> CHR 0xEF"
  proof (cases "is_finite x")
    case True
    have "wf_double x" using assms(1) i by simp
    from number_text_chars(2) [OF this True] obtain c u where "number_text x = c # u" "c = CHR ''-'' \<or> is_digit c" by blast
    moreover from this(2) have "\<not> white c" using not_white(1,2) by blast
    moreover have "c \<noteq> CHR '']''" "c \<noteq> CHR 0xEF" using \<open>c = CHR ''-'' \<or> is_digit c\<close> by (auto simp: is_digit_def)
    ultimately show ?thesis by simp
  next
    case False
    then show ?thesis by (cases x) (simp_all add: number_text_def)
  qed
  define kind where "kind = ty AND 0xFF"
  have "kind \<noteq> cJSON_Raw" using assms(2) by (simp add: i kind_def)
  note t = assms(3) [unfolded i render.simps Let_def kind_def [symmetric]] this
  show ?thesis
  proof (cases "kind \<in> {cJSON_String, cJSON_Array, cJSON_Object}")
    case False
    then have "t = ''null'' \<or> t = ''false'' \<or> t = ''true'' \<or> t = number_text x" using t by (simp split: if_split_asm)
    then show ?thesis using num by (elim disjE) simp_all
  next
    case True
    then have "t \<noteq> [] \<and> hd t \<in> {CHR 0x22, CHR ''['', CHR ''{''}"
      using t by (elim insertE emptyE) (auto simp: cJSON_types oappend_Some quote_def split: if_splits)
    then show ?thesis by (cases t) auto
  qed
qed

definition suits :: "bool \<Rightarrow> cJSON \<Rightarrow> bool" where
  "suits fmt i \<longleftrightarrow> readable fmt i \<and> clean i \<and> no_raw i"

lemma skip_nothing: "remaining p = c # r \<Longrightarrow> \<not> white c \<Longrightarrow> buffer_skip_whitespace p = p"
  using skip_white [of p "[]" c r] by (simp add: advance_def)

text \<open>The step behind an opening bracket or a comma: a new item, and the position of the next value.\<close>

lemma next_value:
  assumes "willing p" "remaining (advance 1 p) = w @ c # r" "list_all white w" "\<not> white c"
  shows "\<exists>h1 q. cJSON_New_Item (pool p) = (Some (bare_item cJSON_Invalid None), h1) \<and>
    buffer_skip_whitespace (advance 1 (set_pool h1 p)) = q \<and> remaining q = c # r \<and> willing q \<and> consumes (1 + length w) p q"
proof -
  obtain h1 where h: "cJSON_New_Item (pool p) = (Some (bare_item cJSON_Invalid None), h1)" "grants h1 = (\<lambda>_. True)"
    using New_Item_willing assms(1) by (auto simp: willing_def)
  have "remaining (advance 1 (set_pool h1 p)) = w @ c # r" using assms(2) by simp
  note s = skip_white [OF this assms(3,4)]
  moreover have "remaining (advance (length w) (advance 1 (set_pool h1 p))) = c # r"
    using \<open>remaining (advance 1 (set_pool h1 p)) = w @ c # r\<close> unfolding remaining_advance [of "length w"] by simp
  moreover have "consumes (1 + length w) p (advance (length w) (advance 1 (set_pool h1 p)))"
    using h(2) by (simp add: consumes_def advance_def set_pool_def)
  ultimately show ?thesis using h(1) consumes_willing by metis
qed

text \<open>What the printer puts behind an element or member that is not the last one.\<close>

lemma elements_read:
  "es \<noteq> [] \<Longrightarrow> \<forall>e \<in> set es. suits fmt e \<and> depth p + nesting e \<le> nesting_limit \<Longrightarrow> render_elements fmt d es = Some t \<Longrightarrow>
   remaining (advance 1 p) = w @ t @ CHR '']'' # r \<Longrightarrow> list_all white w \<Longrightarrow> willing p \<Longrightarrow>
   sum_list (map (\<lambda>e. 1 + units e) es) \<le> fuel \<Longrightarrow>
   \<exists>q. parse_array_loop fuel items p = Ok (Some (items @ map (reparsed None) es), q) \<and> consumes (1 + length w + length t) p q"
proof (induction es arbitrary: items p w t fuel)
  case (Cons e es)
  let ?sep = "if es = [] then [] else if fmt then '', '' else '',''"
  obtain te tes where te: "render fmt d e = Some te" and tes: "render_elements fmt d es = Some tes" and t: "t = te @ ?sep @ tes"
    using Cons.prems(3) by (auto simp: oappend_Some)
  have e: "readable fmt e" "clean e" "no_raw e" "depth p + nesting e \<le> nesting_limit" using Cons.prems(2) by (simp_all add: suits_def)
  obtain f where f: "fuel = Suc f" "units e \<le> f" "sum_list (map (\<lambda>e. 1 + units e) es) \<le> f" using Cons.prems(7) by (cases fuel) auto
  obtain c u where c: "te = c # u" "\<not> white c" using render_starts [OF e(2,3) te] by blast
  have "remaining (advance 1 p) = w @ c # (u @ ?sep @ tes @ CHR '']'' # r)" using Cons.prems(4) t c(1) by simp
  from next_value [OF Cons.prems(6) this Cons.prems(5) c(2)] obtain h1 q0 where
    n: "cJSON_New_Item (pool p) = (Some (bare_item cJSON_Invalid None), h1)" "buffer_skip_whitespace (advance 1 (set_pool h1 p)) = q0"
      "willing q0" "consumes (1 + length w) p q0"
    and q0: "remaining q0 = te @ ?sep @ tes @ CHR '']'' # r" using c(1) by auto
  have fol: "follow (?sep @ tes @ CHR '']'' # r)" using tes by (cases es) auto
  have "depth q0 + nesting e \<le> nesting_limit" using e(4) n(4) by (simp add: consumes_def)
  from readableD [OF e(1) te q0 fol n(3) this f(2), of cJSON_Invalid None] obtain q1 where
    v: "parse_value f (bare_item cJSON_Invalid None) q0 = Ok (True, reparsed None e, q1)" "consumes (length te) q0 q1" by blast
  have q1: "remaining q1 = ?sep @ tes @ CHR '']'' # r" using remaining_consumes [OF v(2)] q0 by simp
  note total = consumes_trans [OF n(4) v(2)]
  have step: "parse_array_loop fuel items p =
      (let p2 = buffer_skip_whitespace q1
       in obind (at_char p2 (CHR '',''))
         (\<lambda>comma. if comma then parse_array_loop f (items @ [reparsed None e]) p2
            else obind (at_char p2 (CHR '']''))
              (\<lambda>closing. if closing then Ok (Some (items @ [reparsed None e]), p2)
                 else Ok (None, set_pool (cJSON_Delete (items @ [reparsed None e]) (pool p2)) p2))))"
    unfolding f(1) parse_array_loop.simps n(1) prod.case option.case n(2) v(1) obind.simps by simp
  show ?case
  proof (cases "es = []")
    case True
    then have r1: "remaining q1 = CHR '']'' # r" using q1 tes by simp
    have "buffer_skip_whitespace q1 = q1" by (rule skip_nothing [OF r1]) simp
    then show ?thesis using step at_char_remaining [OF r1] total True t tes by simp
  next
    case False
    let ?w = "if fmt then '' '' else []"
    have r1: "remaining q1 = CHR '','' # ?w @ tes @ CHR '']'' # r" using q1 False by simp
    have "buffer_skip_whitespace q1 = q1" by (rule skip_nothing [OF r1]) simp
    then have "parse_array_loop fuel items p = parse_array_loop f (items @ [reparsed None e]) q1"
      using step at_char_remaining [OF r1] by simp
    moreover have d: "\<forall>e \<in> set es. suits fmt e \<and> depth q1 + nesting e \<le> nesting_limit"
      using Cons.prems(2) consumes_depth [OF total] by simp
    have "remaining (advance 1 q1) = ?w @ tes @ CHR '']'' # r" "list_all white ?w" using r1 by simp_all
    from Cons.IH [OF False d tes this consumes_willing [OF v(2)] f(3), of "items @ [reparsed None e]"]
    obtain q where "parse_array_loop f (items @ [reparsed None e]) q1 = Ok (Some ((items @ [reparsed None e]) @ map (reparsed None) es), q)"
      "consumes (1 + length ?w + length tes) q1 q" by blast
    moreover from this(2) have "consumes (1 + length w + length te + (1 + length ?w + length tes)) p q"
      by (rule consumes_trans [OF total])
    moreover have len: "1 + length w + length te + (1 + length ?w + length tes) = 1 + length w + length t" using t False by simp
    ultimately show ?thesis unfolding len by simp
  qed
qed simp

lemma white_follow: "list_all white w \<Longrightarrow> \<not> number_char c \<Longrightarrow> follow (w @ c # r)"
  by (cases w) (auto simp: follow_def white_def number_char_def is_digit_def)

text \<open>The bytes behind the text of a member, up to the next one or to the closing brace.\<close>

lemma members_read:
  "es \<noteq> [] \<Longrightarrow> \<forall>e \<in> set es. suits fmt e \<and> depth p + nesting e \<le> nesting_limit \<Longrightarrow> render_members fmt d es = Some t \<Longrightarrow>
   remaining (advance 1 p) = w @ t @ v @ CHR ''}'' # r \<Longrightarrow> list_all white w \<Longrightarrow> list_all white v \<Longrightarrow> willing p \<Longrightarrow>
   sum_list (map (\<lambda>e. 1 + units e) es) \<le> fuel \<Longrightarrow>
   \<exists>q. parse_object_loop fuel items p = Ok (Some (items @ map (\<lambda>e. reparsed (Some (text_of (item_name e))) e) es), q) \<and>
     consumes (1 + length w + length t + length v) p q"
proof (induction es arbitrary: items p w t fuel)
  case (Cons e es)
  let ?tabs = "if fmt then tabs d else []" and ?lf = "if fmt then [LF] else []" and ?tab = "if fmt then [CHR 0x09] else []"
  let ?sep = "if es = [] then [] else '',''" and ?re = "reparsed (Some (text_of (item_name e))) e"
  obtain te tes where te: "render fmt d e = Some te" and tes: "render_members fmt d es = Some tes"
    and t: "t = ?tabs @ quote (item_name e) @ CHR '':'' # ?tab @ te @ ?sep @ ?lf @ tes"
    using Cons.prems(3) by (auto simp: oappend_Some split: if_splits)
  have e: "readable fmt e" "clean e" "no_raw e" "depth p + nesting e \<le> nesting_limit" using Cons.prems(2) by (simp_all add: suits_def)
  obtain f where f: "fuel = Suc f" "units e \<le> f" "sum_list (map (\<lambda>e. 1 + units e) es) \<le> f" using Cons.prems(8) by (cases fuel) auto
  let ?rest = "?sep @ ?lf @ tes @ v @ CHR ''}'' # r"
  have wt: "list_all white ?tabs" "list_all white ?tab" by (simp_all add: tabs_def list_all_iff)
  obtain qu where qu: "quote (item_name e) = CHR 0x22 # qu" by (simp add: quote_def)
  have "remaining (advance 1 p) = (w @ ?tabs) @ CHR 0x22 # (qu @ CHR '':'' # ?tab @ te @ ?rest)"
    using Cons.prems(4) t qu by simp
  moreover have "list_all white (w @ ?tabs)" using Cons.prems(5) wt by simp
  ultimately obtain h1 q0 where
    n: "cJSON_New_Item (pool p) = (Some (bare_item cJSON_Invalid None), h1)" "buffer_skip_whitespace (advance 1 (set_pool h1 p)) = q0"
      "willing q0" "consumes (1 + length (w @ ?tabs)) p q0"
    and q0: "remaining q0 = quote (item_name e) @ CHR '':'' # ?tab @ te @ ?rest"
    using next_value [OF Cons.prems(7), of "w @ ?tabs" "CHR 0x22" "qu @ CHR '':'' # ?tab @ te @ ?rest"] qu by auto
  have name: "quote (item_name e) = quote (Some (text_of (item_name e)))" "no_nul (text_of (item_name e))"
    using e(2) by (cases e; simp add: quote_def text_of_def split: option.splits)+
  from string_read [OF q0 [unfolded name(1)] name(2) n(3), of "bare_item cJSON_Invalid None"] obtain q1 where
    s: "parse_string (bare_item cJSON_Invalid None) q0 =
        Ok (True, set_valuestring (Some (text_of (item_name e))) (set_type cJSON_String (bare_item cJSON_Invalid None)), q1)"
      "consumes (length (quote (item_name e))) q0 q1" unfolding name(1) by blast
  have q1: "remaining q1 = CHR '':'' # ?tab @ te @ ?rest" using remaining_consumes [OF s(2)] q0 by simp
  have sk1: "buffer_skip_whitespace q1 = q1" by (rule skip_nothing [OF q1]) simp
  obtain c u where c: "te = c # u" "\<not> white c" using render_starts [OF e(2,3) te] by blast
  define q2 where "q2 = advance (1 + length ?tab) q1"
  have "remaining (advance 1 q1) = ?tab @ c # u @ ?rest" using q1 c(1) by simp
  from skip_white [OF this wt(2) c(2)] have sk2: "buffer_skip_whitespace (advance 1 q1) = q2"
    by (simp add: q2_def advance_def)
  have q2: "remaining q2 = te @ ?rest" using q1 by (simp add: q2_def)
  have c2: "consumes (1 + length ?tab) q1 q2" unfolding q2_def by (rule consumes_advance [OF consumes_willing [OF s(2)]])
  note upto2 = consumes_trans [OF consumes_trans [OF n(4) s(2)] c2]
  have fol: "follow ?rest"
  proof (cases es)
    case Nil
    then have rest: "?rest = (?lf @ v) @ CHR ''}'' # r" using tes by simp
    show ?thesis unfolding rest
      by (rule white_follow) (use Cons.prems(6) in \<open>simp_all add: number_char_def is_digit_def\<close>)
  qed simp
  have "depth q2 + nesting e \<le> nesting_limit" using e(4) consumes_depth [OF upto2] by simp
  from readableD [OF e(1) te q2 fol consumes_willing [OF c2] this f(2), of cJSON_String "Some (text_of (item_name e))"] obtain q3 where
    val: "parse_value f (bare_item cJSON_String (Some (text_of (item_name e)))) q2 = Ok (True, ?re, q3)" "consumes (length te) q2 q3" by blast
  have q3: "remaining q3 = ?rest" using remaining_consumes [OF val(2)] q2 by simp
  note total = consumes_trans [OF upto2 val(2)]
  have item2: "set_valuestring None (set_name (valuestring (set_valuestring (Some u) (set_type cJSON_String (bare_item cJSON_Invalid None))))
      (set_valuestring (Some u) (set_type cJSON_String (bare_item cJSON_Invalid None)))) = bare_item cJSON_String (Some u)" for u
    by (simp add: bare_item_def)
  have step: "parse_object_loop fuel items p =
      (let p4 = buffer_skip_whitespace q3
       in obind (at_char p4 (CHR '',''))
         (\<lambda>comma. if comma then parse_object_loop f (items @ [?re]) p4
            else obind (at_char p4 (CHR ''}''))
              (\<lambda>closing. if closing then Ok (Some (items @ [?re]), p4)
                 else Ok (None, set_pool (cJSON_Delete (items @ [?re]) (pool p4)) p4))))"
    unfolding f(1) parse_object_loop.simps n(1) prod.case option.case n(2) s(1) obind.simps item2 Let_def sk1
      at_char_remaining [OF q1] sk2 val(1) by simp
  show ?case
  proof (cases "es = []")
    case True
    have r1: "remaining q3 = (?lf @ v) @ CHR ''}'' # r" using q3 tes True by simp
    define q4 where "q4 = advance (length (?lf @ v)) q3"
    have "buffer_skip_whitespace q3 = q4" unfolding q4_def by (rule skip_white [OF r1]) (use Cons.prems(6) in simp_all)
    moreover have "remaining q4 = CHR ''}'' # r" unfolding q4_def remaining_advance r1 append_eq_conv_conj by simp
    note at_char_remaining [OF this]
    moreover have "consumes (length (?lf @ v)) q3 q4" unfolding q4_def by (rule consumes_advance [OF consumes_willing [OF val(2)]])
    from consumes_trans [OF total this]
    have "consumes (1 + length w + length t + length v) p q4" by (rule back_subst [of "\<lambda>n. consumes n p q4"]) (use t True tes in simp)
    ultimately show ?thesis using step True by simp
  next
    case False
    have r1: "remaining q3 = CHR '','' # ?lf @ tes @ v @ CHR ''}'' # r" using q3 False by simp
    have "buffer_skip_whitespace q3 = q3" by (rule skip_nothing [OF r1]) simp
    then have "parse_object_loop fuel items p = parse_object_loop f (items @ [?re]) q3"
      using step at_char_remaining [OF r1] by simp
    moreover have d: "\<forall>e \<in> set es. suits fmt e \<and> depth q3 + nesting e \<le> nesting_limit"
      using Cons.prems(2) consumes_depth [OF total] by simp
    have "remaining (advance 1 q3) = ?lf @ tes @ v @ CHR ''}'' # r" "list_all white ?lf" using r1 by simp_all
    from Cons.IH [OF False d tes this Cons.prems(6) consumes_willing [OF val(2)] f(3), of "items @ [?re]"]
    obtain q where "parse_object_loop f (items @ [?re]) q3 =
        Ok (Some ((items @ [?re]) @ map (\<lambda>e. reparsed (Some (text_of (item_name e))) e) es), q)"
      "consumes (1 + length ?lf + length tes + length v) q3 q" by blast
    moreover from consumes_trans [OF total this(2)]
    have "consumes (1 + length w + length t + length v) p q"
      by (rule back_subst [of "\<lambda>n. consumes n p q"]) (use t False in simp)
    ultimately show ?thesis by (intro exI [of _ q]) simp
  qed
qed simp

text \<open>A container's opening bracket and what is behind it, up to the first value or the end.\<close>

lemma object_starts:
  "render_members fmt d es = Some t \<Longrightarrow> es \<noteq> [] \<Longrightarrow> \<exists>w u. t = w @ CHR 0x22 # u \<and> list_all white w"
proof (cases es)
  case (Cons e es')
  assume "render_members fmt d es = Some t"
  then obtain u where "t = (if fmt then tabs d else []) @ quote (item_name e) @ u" using Cons by (auto simp: oappend_Some)
  moreover have "list_all white (tabs d)" by (simp add: tabs_def list_all_iff)
  ultimately have "t = (if fmt then tabs d else []) @ CHR 0x22 # tl (quote (item_name e)) @ u \<and> list_all white (if fmt then tabs d else [])"
    by (simp add: quote_def)
  then show ?thesis by blast
qed simp

lemma loop_starts:
  assumes "willing p" "remaining (advance 1 p) = w @ c # r" "list_all white w" "\<not> white c"
  shows "parse_object_loop fuel items (advance (length w) p) = parse_object_loop fuel items p"
proof (cases fuel)
  case (Suc f)
  obtain h1 where h: "cJSON_New_Item (pool p) = (Some (bare_item cJSON_Invalid None), h1)"
    using New_Item_willing assms(1) by (auto simp: willing_def)
  have "remaining (advance 1 (set_pool h1 p)) = w @ c # r" using assms(2) by simp
  note s = skip_white [OF this assms(3,4)]
  have "remaining (advance (length w) (advance 1 (set_pool h1 p))) = c # r"
    using \<open>remaining (advance 1 (set_pool h1 p)) = w @ c # r\<close> unfolding remaining_advance [of "length w"] by simp
  from skip_nothing [OF this assms(4)]
  have "buffer_skip_whitespace (advance 1 (set_pool h1 (advance (length w) p))) = buffer_skip_whitespace (advance 1 (set_pool h1 p))"
    unfolding s by (simp add: advance_def set_pool_def add.commute)
  moreover have "pool (advance (length w) p) = pool p" by (simp add: advance_def)
  ultimately show ?thesis unfolding Suc parse_object_loop.simps using h by (simp only: prod.case option.case)
qed simp

lemma array_read:
  assumes "\<forall>e \<in> set c. suits fmt e" "render_elements fmt d c = Some t" "remaining p = CHR ''['' # t @ CHR '']'' # r" "willing p"
    "depth p + 1 + fold max (map nesting c) 0 \<le> nesting_limit" "1 + sum_list (map (\<lambda>e. 1 + units e) c) \<le> fuel"
  shows "\<exists>q. parse_array fuel item p = Ok (True, set_child (map (reparsed None) c) (set_type cJSON_Array item), q) \<and>
    consumes (2 + length t) p q"
proof -
  obtain f where f: "fuel = Suc f" "sum_list (map (\<lambda>e. 1 + units e) c) \<le> f" using assms(6) by (cases fuel) auto
  define p1 where "p1 = p\<lparr>depth := depth p + 1\<rparr>"
  define p2 where "p2 = advance 1 p1"
  have r1: "remaining p1 = CHR ''['' # t @ CHR '']'' # r" using assms(3) by (simp add: p1_def)
  have r2: "remaining p2 = t @ CHR '']'' # r" using r1 by (simp add: p2_def)
  have again: "p2\<lparr>offset := offset p2 - 1\<rparr> = p1" by (simp add: p2_def advance_def)
  have lim: "\<not> nesting_limit \<le> depth p" using assms(5) by simp
  have step: "parse_array fuel item p =
      (let p3 = buffer_skip_whitespace p2 in
       obind (at_char p3 (CHR '']''))
         (\<lambda>empty.
            if empty then Ok (True, set_child [] (set_type cJSON_Array item), p3\<lparr>depth := depth p3 - 1, offset := offset p3 + 1\<rparr>)
            else if \<not> can_access_at_index p3 0 then Ok (False, item, p3\<lparr>offset := offset p3 - 1\<rparr>)
            else
              obind (parse_array_loop f [] (p3\<lparr>offset := offset p3 - 1\<rparr>))
                (\<lambda>(items, p4). case items of
                    None \<Rightarrow> Ok (False, item, p4)
                  | Some cs \<Rightarrow> Ok (True, set_child cs (set_type cJSON_Array item),
                                   p4\<lparr>depth := depth p4 - 1, offset := offset p4 + 1\<rparr>))))"
    using lim byte_at_remaining [OF r1] by (simp add: f(1) Let_def p1_def p2_def)
  show ?thesis
  proof (cases "c = []")
    case True
    then have r3: "remaining p2 = CHR '']'' # r" using r2 assms(2) by simp
    have "buffer_skip_whitespace p2 = p2" by (rule skip_nothing [OF r3]) simp
    then have "parse_array fuel item p = Ok (True, set_child [] (set_type cJSON_Array item), p2\<lparr>depth := depth p2 - 1, offset := offset p2 + 1\<rparr>)"
      using step at_char_remaining [OF r3] by (simp add: Let_def)
    then show ?thesis using True assms(2,4) by (simp add: consumes_def willing_def p1_def p2_def advance_def)
  next
    case False
    then obtain e es where c: "c = e # es" by (cases c) auto
    obtain te t' where te: "render fmt d e = Some te" "t = te @ t'" using assms(2) c by (auto simp: oappend_Some)
    have "clean e" "no_raw e" using assms(1) c by (simp_all add: suits_def)
    from render_starts [OF this te(1)] obtain ch u where ch: "te = ch # u" "\<not> white ch" "ch \<noteq> CHR '']''" by blast
    have r3: "remaining p2 = ch # u @ t' @ CHR '']'' # r" using r2 te ch by simp
    have "buffer_skip_whitespace p2 = p2" by (rule skip_nothing [OF r3 ch(2)])
    with again can_access_remaining [OF r3] at_char_remaining [OF r3] ch(3)
    have step2: "parse_array fuel item p = obind (parse_array_loop f [] p1)
        (\<lambda>(items, p4). case items of
            None \<Rightarrow> Ok (False, item, p4)
          | Some cs \<Rightarrow> Ok (True, set_child cs (set_type cJSON_Array item), p4\<lparr>depth := depth p4 - 1, offset := offset p4 + 1\<rparr>))"
      using step by (simp add: Let_def)
    have "\<forall>e \<in> set c. suits fmt e \<and> depth p1 + nesting e \<le> nesting_limit"
      using assms(1,5) nesting_member [of _ c] by (force simp: p1_def)
    from elements_read [OF False this assms(2), of "[]" r f "[]"] obtain q where
      "parse_array_loop f [] p1 = Ok (Some (map (reparsed None) c), q)" "consumes (1 + length t) p1 q"
      using r2 f(2) assms(4) by (auto simp: p2_def willing_def p1_def)
    then show ?thesis using step2 by (simp add: consumes_def p1_def)
  qed
qed

lemma object_read:
  assumes "\<forall>e \<in> set c. suits fmt e" "render_members fmt d c = Some t"
    "remaining p = CHR ''{'' # w @ t @ v @ CHR ''}'' # r" "list_all white w" "list_all white v" "willing p"
    "depth p + 1 + fold max (map nesting c) 0 \<le> nesting_limit" "1 + sum_list (map (\<lambda>e. 1 + units e) c) \<le> fuel"
  shows "\<exists>q. parse_object fuel item p =
      Ok (True, set_child (map (\<lambda>e. reparsed (Some (text_of (item_name e))) e) c) (set_type cJSON_Object item), q) \<and>
    consumes (2 + length w + length t + length v) p q"
proof -
  obtain f where f: "fuel = Suc f" "sum_list (map (\<lambda>e. 1 + units e) c) \<le> f" using assms(8) by (cases fuel) auto
  define p1 where "p1 = p\<lparr>depth := depth p + 1\<rparr>"
  have r1: "remaining p1 = CHR ''{'' # w @ t @ v @ CHR ''}'' # r" using assms(3) by (simp add: p1_def)
  have r2: "remaining (advance 1 p1) = w @ t @ v @ CHR ''}'' # r" using r1 by simp
  have lim: "\<not> nesting_limit \<le> depth p" using assms(7) by simp
  have will: "willing p1" using assms(6) by (simp add: willing_def p1_def)
  let ?cs = "map (\<lambda>e. reparsed (Some (text_of (item_name e))) e) c"
  have step: "parse_object fuel item p =
      (let p2 = buffer_skip_whitespace (advance 1 p1) in
       obind (at_char p2 (CHR ''}''))
         (\<lambda>empty.
            if empty then Ok (True, set_child [] (set_type cJSON_Object item), p2\<lparr>depth := depth p2 - 1, offset := offset p2 + 1\<rparr>)
            else if \<not> can_access_at_index p2 0 then Ok (False, item, p2\<lparr>offset := offset p2 - 1\<rparr>)
            else
              obind (parse_object_loop f [] (p2\<lparr>offset := offset p2 - 1\<rparr>))
                (\<lambda>(items, p3). case items of
                    None \<Rightarrow> Ok (False, item, p3)
                  | Some cs \<Rightarrow> Ok (True, set_child cs (set_type cJSON_Object item),
                                   p3\<lparr>depth := depth p3 - 1, offset := offset p3 + 1\<rparr>))))"
    using lim at_char_remaining [OF r1] by (simp add: f(1) Let_def p1_def)
  show ?thesis
  proof (cases "c = []")
    case True
    then have r3: "remaining (advance 1 p1) = (w @ v) @ CHR ''}'' # r" using r2 assms(2) by simp
    define p2 where "p2 = advance (length (w @ v)) (advance 1 p1)"
    have "buffer_skip_whitespace (advance 1 p1) = p2"
      unfolding p2_def by (rule skip_white [OF r3]) (use assms(4,5) in simp_all)
    moreover have "remaining p2 = CHR ''}'' # r" unfolding p2_def remaining_advance [of "length (w @ v)"] r3 by simp
    note at_char_remaining [OF this]
    ultimately have "parse_object fuel item p =
        Ok (True, set_child [] (set_type cJSON_Object item), p2\<lparr>depth := depth p2 - 1, offset := offset p2 + 1\<rparr>)"
      using step by simp
    then show ?thesis using True assms(2,6) by (simp add: consumes_def willing_def p1_def p2_def advance_def)
  next
    case False
    obtain w' u where t: "t = w' @ CHR 0x22 # u" "list_all white w'" using object_starts [OF assms(2) False] by blast
    have r3: "remaining (advance 1 p1) = (w @ w') @ CHR 0x22 # (u @ v @ CHR ''}'' # r)" using r2 t(1) by simp
    have w: "list_all white (w @ w')" using assms(4) t(2) by simp
    define p2 where "p2 = advance (length (w @ w')) (advance 1 p1)"
    have "buffer_skip_whitespace (advance 1 p1) = p2" unfolding p2_def by (rule skip_white [OF r3 w]) simp
    moreover have "remaining p2 = CHR 0x22 # (u @ v @ CHR ''}'' # r)"
      unfolding p2_def remaining_advance [of "length (w @ w')"] r3 by simp
    note at_char_remaining [OF this] can_access_remaining [OF this]
    moreover have "p2\<lparr>offset := offset p2 - 1\<rparr> = advance (length (w @ w')) p1" by (simp add: p2_def advance_def)
    moreover have "parse_object_loop f [] (advance (length (w @ w')) p1) = parse_object_loop f [] p1"
      by (rule loop_starts [OF will r3 w]) simp
    moreover have "\<forall>e \<in> set c. suits fmt e \<and> depth p1 + nesting e \<le> nesting_limit"
      using assms(1,7) nesting_member [of _ c] by (force simp: p1_def)
    from members_read [OF False this assms(2) r2 assms(4,5) will f(2), of "[]"] obtain q where
      q: "parse_object_loop f [] p1 = Ok (Some ?cs, q)" "consumes (1 + length w + length t + length v) p1 q" by auto
    ultimately have "parse_object fuel item p =
        Ok (True, set_child ?cs (set_type cJSON_Object item), q\<lparr>depth := depth q - 1, offset := offset q + 1\<rparr>)"
      using step by (simp add: Let_def)
    then show ?thesis using q(2) by (simp add: consumes_def p1_def)
  qed
qed

lemma value_read: "clean i \<Longrightarrow> no_raw i \<Longrightarrow> readable fmt i"
proof (induction i)
  case (Item ty s j x k c)
  let ?i = "Item ty s j x k c"
  define kind where "kind = ty AND 0xFF"
  have parts: "\<forall>e \<in> set c. suits fmt e"
    using Item.IH Item.prems by (auto simp: suits_def list_all_iff)
  have raw: "kind \<noteq> cJSON_Raw" using Item.prems(2) by (simp add: kind_def)
  show ?case unfolding readable_def
  proof (intro allI impI)
    fix d t ty' nm fuel and p :: parse_buffer and r
    assume render: "render fmt d ?i = Some t" and p: "remaining p = t @ r" and fol: "follow r" and will: "willing p"
      and deep: "depth p + nesting ?i \<le> nesting_limit" and fuel: "units ?i \<le> fuel"
    obtain f where f: "fuel = Suc f" using fuel by (cases fuel) (auto split: if_splits)
    note render = render [unfolded render.simps Let_def kind_def [symmetric]]
    note goal = reparsed.simps [of nm ty s j x k c, unfolded Let_def kind_def [symmetric]]
    have word: "\<exists>q. parse_value fuel (bare_item ty' nm) p = Ok (True, bare_item cJSON_NULL nm, q) \<and> consumes (length t) p q" if "t = ''null''"
    proof -
      have "parse_value fuel (bare_item ty' nm) p = Ok (True, bare_item cJSON_NULL nm, advance 4 p)"
        using words_read(1) [of p r f] p f that by (simp add: bare_item_def)
      moreover have "consumes (length t) p (advance 4 p)" using consumes_advance [OF will, of 4] that by (simp add: eval_nat_numeral)
      ultimately show ?thesis by blast
    qed
    show "\<exists>q. parse_value fuel (bare_item ty' nm) p = Ok (True, reparsed nm ?i, q) \<and> consumes (length t) p q"
    proof (cases "kind = cJSON_Array \<or> kind = cJSON_Object")
      case False
      then consider "kind = cJSON_NULL" | "kind = cJSON_False" | "kind = cJSON_True" | "kind = cJSON_Number" | "kind = cJSON_String"
        using render raw by (auto split: if_splits)
      then show ?thesis
      proof cases
        case 1
        then have "t = ''null''" using render by (simp add: cJSON_types)
        from word [OF this] show ?thesis using 1 goal by (simp add: cJSON_types bare_item_def)
      next
        case 2
        then have "t = ''false''" using render by (simp add: cJSON_types)
        then have "consumes (length t) p (advance 5 p)" using consumes_advance [OF will, of 5] by (simp add: eval_nat_numeral)
        moreover have "parse_value fuel (bare_item ty' nm) p = Ok (True, reparsed nm ?i, advance 5 p)"
          using words_read(2) [of p r f "bare_item ty' nm"] p f goal 2 \<open>t = ''false''\<close> by (simp add: cJSON_types bare_item_def)
        ultimately show ?thesis by blast
      next
        case 3
        then have "t = ''true''" using render by (simp add: cJSON_types)
        then have "consumes (length t) p (advance 4 p)" using consumes_advance [OF will, of 4] by (simp add: eval_nat_numeral)
        moreover have "parse_value fuel (bare_item ty' nm) p = Ok (True, reparsed nm ?i, advance 4 p)"
          using words_read(3) [of p r f "bare_item ty' nm"] p f goal 3 \<open>t = ''true''\<close> by (simp add: cJSON_types bare_item_def)
        ultimately show ?thesis by blast
      next
        case 4
        then have t: "t = number_text x" using render by (simp add: cJSON_types)
        have wf: "wf_double x" using Item.prems(1) by simp
        show ?thesis
        proof (cases "is_finite x")
          case True
          obtain c' u where c': "number_text x = c' # u" "c' = CHR ''-'' \<or> is_digit c'"
            using number_text_chars(2) [OF wf True] by blast
          then have "c' \<notin> {CHR ''n'', CHR ''f'', CHR ''t''}" "c' \<noteq> CHR 0x22" by (auto simp: is_digit_def)
          with value_dispatch [of p c' "u @ r" f "bare_item ty' nm"] p t c' have
            "parse_value fuel (bare_item ty' nm) p = parse_number (bare_item ty' nm) p" by (simp add: f)
          then show ?thesis using number_read [OF wf True p [unfolded t] fol will, of "bare_item ty' nm"] 4 goal True t
            by (auto simp: cJSON_types bare_item_def)
        next
          case False
          then have "t = ''null''" using t by (cases x) (simp_all add: number_text_def)
          from word [OF this] show ?thesis using goal 4 False by (simp add: cJSON_types bare_item_def)
        qed
      next
        case 5
        then have t: "t = quote (Some (text_of s))" using render by (simp add: cJSON_types quote_def text_of_def)
        have "no_nul (text_of s)" using Item.prems(1) by (simp add: text_of_def split: option.splits)
        from string_read [OF p [unfolded t] this will, of "bare_item ty' nm"] t
        have "\<exists>q. parse_string (bare_item ty' nm) p = Ok (True, set_valuestring (Some (text_of s)) (set_type cJSON_String (bare_item ty' nm)), q) \<and>
          consumes (length t) p q" by simp
        moreover have "parse_value fuel (bare_item ty' nm) p = parse_string (bare_item ty' nm) p"
          using value_dispatch [of p "CHR 0x22" _ f] p t by (simp add: f quote_def)
        ultimately show ?thesis using 5 goal by (auto simp: cJSON_types bare_item_def)
      qed
    next
      case True
      then have cont: "is_container ty" by (simp add: is_container_def kind_def)
      have deep1: "depth p + 1 + fold max (map nesting c) 0 \<le> nesting_limit" and fuel1: "1 + sum_list (map (\<lambda>e. 1 + units e) c) \<le> f"
        using deep fuel cont by (simp_all add: f)
      from True show ?thesis
      proof
        assume k: "kind = cJSON_Array"
        then obtain u where u: "render_elements fmt (d + 1) c = Some u" "t = CHR ''['' # u @ '']''"
          using render by (auto simp: cJSON_types oappend_Some)
        have p1: "remaining p = CHR ''['' # u @ CHR '']'' # r" using p u by simp
        have "parse_value fuel (bare_item ty' nm) p = parse_array f (bare_item ty' nm) p"
          using value_dispatch [OF p1, of f] by (simp add: f is_digit_def)
        then show ?thesis using array_read [OF parts u(1) p1 will deep1 fuel1, of "bare_item ty' nm"] u(2) goal k
          by (auto simp: cJSON_types bare_item_def)
      next
        assume k: "kind = cJSON_Object"
        let ?w = "if fmt then [LF] else []" and ?v = "if fmt then tabs d else []"
        obtain u where u: "render_members fmt (d + 1) c = Some u" "t = CHR ''{'' # ?w @ u @ ?v @ ''}''"
          using render k by (auto simp: cJSON_types oappend_Some split: if_splits)
        have p1: "remaining p = CHR ''{'' # ?w @ u @ ?v @ CHR ''}'' # r" using p u by simp
        have w: "list_all white ?w" "list_all white ?v" by (simp_all add: tabs_def list_all_iff)
        have "parse_value fuel (bare_item ty' nm) p = parse_object f (bare_item ty' nm) p"
          using value_dispatch [OF p1, of f] by (simp add: f is_digit_def)
        then show ?thesis using object_read [OF parts u(1) p1 w will deep1 fuel1, of "bare_item ty' nm"] u(2) goal k
          by (auto simp: cJSON_types bare_item_def)
      qed
    qed
  qed
qed

section \<open>The whole text\<close>

lemma need_elements:
  "\<forall>e \<in> set es. \<forall>t. render fmt d e = Some t \<longrightarrow> units e + 1 \<le> 3 * length t \<Longrightarrow> render_elements fmt d es = Some t \<Longrightarrow>
   sum_list (map (\<lambda>e. 1 + units e) es) \<le> 3 * length t"
proof (induction es arbitrary: t)
  case (Cons e es)
  then obtain u v w where t: "t = u @ v @ w" "render fmt d e = Some u" "render_elements fmt d es = Some w" by (auto simp: oappend_Some)
  then have "units e + 1 \<le> 3 * length u" "sum_list (map (\<lambda>e. 1 + units e) es) \<le> 3 * length w" using Cons by auto
  then show ?case using t(1) by simp
qed simp

lemma need_members:
  "\<forall>e \<in> set es. \<forall>t. render fmt d e = Some t \<longrightarrow> units e + 1 \<le> 3 * length t \<Longrightarrow> render_members fmt d es = Some t \<Longrightarrow>
   sum_list (map (\<lambda>e. 1 + units e) es) \<le> 3 * length t"
proof (induction es arbitrary: t)
  case (Cons e es)
  then obtain a u v w where t: "t = a @ u @ v @ w" "render fmt d e = Some u" "render_members fmt d es = Some w"
    by (auto simp: oappend_Some) (metis append.assoc append_Cons)
  then have "units e + 1 \<le> 3 * length u" "sum_list (map (\<lambda>e. 1 + units e) es) \<le> 3 * length w" using Cons by auto
  then show ?case using t(1) by simp
qed simp

lemma need_text: "clean i \<Longrightarrow> no_raw i \<Longrightarrow> render fmt d i = Some t \<Longrightarrow> units i + 1 \<le> 3 * length t"
proof (induction i arbitrary: d t)
  case (Item ty s j x k c)
  have ih: "\<forall>e \<in> set c. \<forall>t. render fmt (d + 1) e = Some t \<longrightarrow> units e + 1 \<le> 3 * length t"
    using Item by (simp add: list_all_iff)
  show ?case
  proof (cases "is_container ty")
    case False
    obtain c' u where "t = c' # u" using render_starts [OF Item.prems] by blast
    then show ?thesis using False by simp
  next
    case True
    then consider u where "render_elements fmt (d + 1) c = Some u" "length t = 2 + length u"
      | u where "render_members fmt (d + 1) c = Some u" "2 + length u \<le> length t"
      using Item.prems(3) unfolding is_container_def
      by (auto simp: Let_def cJSON_types oappend_Some split: if_splits)
    then show ?thesis
      using need_elements [OF ih] need_members [OF ih] True by cases fastforce+
  qed
qed

text \<open>What is read prints as the same text.\<close>

lemma quote_text_of [simp]: "quote (Some (text_of s)) = quote s"
  by (simp add: quote_def text_of_def split: option.splits)

lemma reparsed_name [simp]: "item_name (reparsed nm i) = nm"
  by (cases i) (simp add: Let_def)

lemma render_elements_map:
  "\<forall>e \<in> set es. \<forall>t. render fmt' d' e = Some t \<longrightarrow> render fmt d (f e) = render fmt d e \<Longrightarrow>
   render_elements fmt' d' es = Some t \<Longrightarrow> render_elements fmt d (map f es) = render_elements fmt d es"
  by (induction es arbitrary: t) (auto simp: oappend_Some)

lemma render_members_map:
  "\<forall>e \<in> set es. quote (item_name (f e)) = quote (item_name e) \<and> (\<forall>t. render fmt' d' e = Some t \<longrightarrow> render fmt d (f e) = render fmt d e) \<Longrightarrow>
   render_members fmt' d' es = Some t \<Longrightarrow> render_members fmt d (map f es) = render_members fmt d es"
  by (induction es arbitrary: t) (auto simp: oappend_Some)

lemma render_reparsed: "no_raw i \<Longrightarrow> render fmt' d' i = Some t \<Longrightarrow> render fmt d (reparsed nm i) = render fmt d i"
proof (induction i arbitrary: d d' t nm)
  case (Item ty s j x k c)
  define kind where "kind = ty AND 0xFF"
  have raw: "kind \<noteq> cJSON_Raw" using Item.prems(1) by (simp add: kind_def)
  note r = Item.prems(2) [unfolded render.simps Let_def kind_def [symmetric]]
  have ih: "\<forall>e \<in> set c. \<forall>t. render fmt' (d' + 1) e = Some t \<longrightarrow> render fmt (d + 1) (reparsed nm e) = render fmt (d + 1) e" for nm
    using Item.IH Item.prems(1) by (auto simp: list_all_iff)
  show ?case
  proof (cases "kind = cJSON_Array \<or> kind = cJSON_Object")
    case False
    then consider "kind = cJSON_NULL" | "kind = cJSON_False" | "kind = cJSON_True" | "kind = cJSON_Number" | "kind = cJSON_String"
      using r raw by (auto split: if_splits)
    moreover have "\<not> is_finite x \<Longrightarrow> number_text x = ''null''" by (cases x) (simp_all add: number_text_def)
    ultimately show ?thesis by cases (simp_all add: Let_def kind_def [symmetric] cJSON_types)
  next
    case True
    then show ?thesis
    proof
      assume k: "kind = cJSON_Array"
      obtain u where "render_elements fmt' (d' + 1) c = Some u" using r k by (auto simp: cJSON_types oappend_Some)
      from render_elements_map [OF ih this, of None] k show ?thesis by (simp add: Let_def kind_def [symmetric] cJSON_types)
    next
      assume k: "kind = cJSON_Object"
      obtain u where "render_members fmt' (d' + 1) c = Some u" using r k by (auto simp: cJSON_types oappend_Some)
      from render_members_map [OF _ this, of "\<lambda>e. reparsed (Some (text_of (item_name e))) e" fmt "d + 1"] k ih
      show ?thesis by (simp add: Let_def kind_def [symmetric] cJSON_types)
    qed
  qed
qed

lemma reparsed_twice: "reparsed nm (reparsed nm' i) = reparsed nm i"
proof (induction i arbitrary: nm nm')
  case (Item ty s j x k c)
  have t: "text_of (Some u) = u" for u by (simp add: text_of_def)
  have "map (reparsed None) (map (reparsed None) c) = map (reparsed None) c" using Item.IH by simp
  moreover have "map (\<lambda>e. reparsed (Some (text_of (item_name e))) e) (map (\<lambda>e. reparsed (Some (text_of (item_name e))) e) c) =
      map (\<lambda>e. reparsed (Some (text_of (item_name e))) e) c"
    using Item.IH by (simp add: t)
  ultimately show ?case by (simp add: Let_def cJSON_types t)
qed

lemma parse_text:
  assumes "clean i" "no_raw i" "nesting i \<le> nesting_limit" "render fmt d i = Some t" "grants h = (\<lambda>_. True)"
  shows "\<exists>h'. cJSON_Parse (Some t) h = Ok (Some (reparsed None i), h') \<and> live h' = live h + blocks (reparsed None i)"
proof -
  define b where "b = \<lparr>content = t @ [NUL], offset = 0, depth = 0, pool = h\<rparr>"
  obtain h1 where h1: "cJSON_New_Item h = (Some (bare_item cJSON_Invalid None), h1)" "grants h1 = (\<lambda>_. True)"
    using New_Item_willing [OF assms(5)] by blast
  obtain c u where c: "t = c # u" "\<not> white c" "c \<noteq> CHR 0xEF" using render_starts [OF assms(1,2,4)] by blast
  define p where "p = set_pool h1 b"
  have p: "remaining p = t @ [NUL]" "willing p" "depth p = 0" using h1(2) by (simp_all add: p_def b_def remaining_def willing_def set_pool_def)
  have bom: "skip_utf8_bom p = Some p" using c by (simp add: skip_utf8_bom_def p_def b_def set_pool_def utf8_bom_def)
  have skip: "buffer_skip_whitespace p = p" using skip_nothing [of p c "u @ [NUL]"] p(1) c by simp
  have "units i \<le> parse_fuel t" using need_text [OF assms(1,2,4)] by (simp add: parse_fuel_def)
  from readableD [OF value_read [OF assms(1,2)] assms(4) p(1) _ p(2) _ this, of cJSON_Invalid None] assms(3)
  obtain q where q: "parse_value (parse_fuel t) (bare_item cJSON_Invalid None) p = Ok (True, reparsed None i, q)" using p(3) by auto
  have "cJSON_ParseWithOpts (Some t) False h =
      Ok \<lparr>parsed_item = Some (reparsed None i), parse_end = Some (offset q), error_position = None, parsed_pool = pool q\<rparr>"
    using h1(1) bom skip q by (simp add: cJSON_ParseWithOpts_def b_def [symmetric] p_def [symmetric])
  moreover from this obtain "live (pool q) = live h + blocks (reparsed None i)"
    using parse_result [of "Some t" False h] by auto
  ultimately show ?thesis by (simp add: cJSON_Parse_def)
qed

section \<open>The round trip\<close>

text \<open>Items in which nothing is lost: finite numbers, strings that are there, members with names.\<close>

fun regular :: "cJSON \<Rightarrow> bool" where
  "regular (Item t s i x k c) \<longleftrightarrow>
     (t AND 0xFF = cJSON_Number \<longrightarrow> is_finite x) \<and> (t AND 0xFF = cJSON_String \<longrightarrow> s \<noteq> None) \<and>
     (t AND 0xFF = cJSON_Object \<longrightarrow> (\<forall>e \<in> set c. item_name e \<noteq> None)) \<and> (\<forall>e \<in> set c. regular e)"

lemma elements_texts: "render_elements fmt d es = Some t \<Longrightarrow> \<forall>e \<in> set es. \<exists>u. render fmt d e = Some u"
  by (induction es arbitrary: t) (auto simp: oappend_Some)

lemma members_texts: "render_members fmt d es = Some t \<Longrightarrow> \<forall>e \<in> set es. \<exists>u. render fmt d e = Some u"
  by (induction es arbitrary: t) (auto simp: oappend_Some)

lemma double_eq_refl: "is_finite x \<Longrightarrow> double_eq x x"
  by (cases x) simp_all

lemma alike_reparsed: "regular i \<Longrightarrow> no_raw i \<Longrightarrow> render fmt d i = Some t \<Longrightarrow> alike True i (reparsed nm i)"
proof (induction i arbitrary: d t nm)
  case (Item ty s j x k c)
  define kind where "kind = ty AND 0xFF"
  have raw: "kind \<noteq> cJSON_Raw" using Item.prems(2) by (simp add: kind_def)
  note r = Item.prems(3) [unfolded render.simps Let_def kind_def [symmetric]]
  have sub: "\<forall>e \<in> set c. regular e \<and> no_raw e" using Item.prems(1,2) by (auto simp: list_all_iff)
  show ?case
  proof (cases "kind = cJSON_Array \<or> kind = cJSON_Object")
    case False
    then consider "kind = cJSON_NULL" | "kind = cJSON_False" | "kind = cJSON_True" | "kind = cJSON_Number" | "kind = cJSON_String"
      using r raw by (auto split: if_splits)
    then show ?thesis using Item.prems(1)
      by cases (auto simp: Let_def kind_def [symmetric] cJSON_types text_of_def double_eq_refl)
  next
    case True
    then show ?thesis
    proof
      assume k: "kind = cJSON_Array"
      obtain u where "render_elements fmt (d + 1) c = Some u" using r k by (auto simp: cJSON_types oappend_Some)
      then have "\<forall>e \<in> set c. \<exists>t. render fmt (d + 1) e = Some t" by (rule elements_texts)
      then have "\<forall>e \<in> set c. alike True e (reparsed None e)" using Item.IH sub by blast
      then show ?thesis using k by (simp add: Let_def kind_def [symmetric] cJSON_types list_all2_map2 list_all2_same)
    next
      assume k: "kind = cJSON_Object"
      obtain u where "render_members fmt (d + 1) c = Some u" using r k by (auto simp: cJSON_types oappend_Some)
      then have "\<forall>e \<in> set c. \<exists>t. render fmt (d + 1) e = Some t" by (rule members_texts)
      then have a: "\<forall>e \<in> set c. alike True e (reparsed (Some (text_of (item_name e))) e)" using Item.IH sub by blast
      have n: "\<forall>e \<in> set c. item_name e = Some (text_of (item_name e))"
        using Item.prems(1) k by (auto simp: kind_def text_of_def)
      show ?thesis using k a n by (auto simp: Let_def kind_def [symmetric] cJSON_types)
    qed
  qed
qed

text \<open>
  C12. Printing and parsing are inverse up to what the text cannot hold. An item without raw parts that nests at most
  1000 deep, whose strings are C strings, is printed, formatted or not, to a text that the parser reads, in full and
  within its fuel, as the item again: with the same tree, texts, names and numbers to the last bit; the flags of
  the types are gone, and numbers that are not finite are null. The item read prints as the same text in either format, and
  wherever the item is regular (finite numbers, strings that are there, members with names) it has the same values; if
  moreover no object repeats a name, \<open>cJSON_Compare\<close> finds the two equal wherever they stand in memory.
\<close>

theorem json_roundtrip:
  assumes "clean i" and "no_raw i" and "nesting i \<le> nesting_limit"
    and "render fmt 0 i = Some t" and "length t + 2 \<le> int_max"
    and "grants h = (\<lambda>_. True)" and "grants h' = (\<lambda>_. True)"
  shows "\<exists>block h1 h2.
    print (Some i) fmt h = Ok (Some block, h1) \<and> c_text block = Ok t \<and>
    cJSON_Parse (Some t) h' = Ok (Some (reparsed None i), h2) \<and> live h2 = live h' + blocks (reparsed None i) \<and>
    (\<forall>fmt'. render fmt' 0 (reparsed None i) = render fmt' 0 i) \<and>
    (regular i \<longrightarrow> alike True i (reparsed None i) \<and>
      (\<forall>m x y fuel. stands True m x \<and> value_at m x = i \<and> stands True m y \<and> value_at m y = reparsed None i \<and>
         set (addresses x) \<inter> set (addresses y) = {} \<and> length (addresses x) + length (addresses y) \<le> fuel \<longrightarrow>
         cJSON_Compare fuel m (Some (root x)) (Some (root y)) True = Ok True))"
proof -
  obtain r h1 where r: "print (Some i) fmt h = Ok (r, h1)"
    "case r of Some block \<Rightarrow> c_text block = Ok t | None \<Rightarrow> False"
    using print_result [OF assms(1), of fmt h] assms(4-6) by (auto split: option.splits)
  then obtain block where b: "print (Some i) fmt h = Ok (Some block, h1)" "c_text block = Ok t" by (cases r) auto
  have al: "regular i \<Longrightarrow> alike True i (reparsed None i)" using alike_reparsed [OF _ assms(2,4)] .
  moreover have "cJSON_Compare fuel m (Some (root x)) (Some (root y)) True = Ok True"
    if "regular i" "stands True m x" "value_at m x = i" "stands True m y" "value_at m y = reparsed None i"
      "set (addresses x) \<inter> set (addresses y) = {}" "length (addresses x) + length (addresses y) \<le> fuel" for m x y fuel
    using compare_decides [OF that(2,4,6,7)] al [OF that(1)] that(3,5) by (simp add: cJSON_Compare_def)
  ultimately show ?thesis using b parse_text [OF assms(1-4,7)] render_reparsed [OF assms(2,4)] by blast
qed

text \<open>An object with a nested array, and characters that have to be escaped.\<close>

definition demo_tree :: cJSON where
  "demo_tree = Item cJSON_Object None 0 zero None
     [Item (cJSON_Array OR cJSON_StringIsConst) None 0 zero (Some ''a'')
        [Item cJSON_True None 0 zero None [], Item cJSON_String (Some [CHR 0x22, LF, CHR 0x01]) 0 zero None []],
      Item cJSON_NULL None 0 zero (Some ''b'') []]"

lemma demo_tree_text: "\<exists>t. render True 0 demo_tree = Some t \<and> length t + 2 \<le> int_max"
  by (simp add: demo_tree_def cJSON_types quote_def Let_def tabs_def short_escape_def unicode_escape_def int_max_def)

text \<open>The two trees in memory, with the fields of their nodes.\<close>

definition placed :: "int \<Rightarrow> string option \<Rightarrow> int \<Rightarrow> string option \<Rightarrow> nat option \<Rightarrow> nat option \<Rightarrow> nat option \<Rightarrow> node" where
  "placed t s i k c nx pv = \<lparr>node_item = Item t s i zero k [], node_child = c, node_next = nx, node_prev = pv\<rparr>"

definition demo_memory :: links where
  "demo_memory = [
     0 \<mapsto> placed cJSON_Object None 0 None (Some 1) None None,
     1 \<mapsto> placed (cJSON_Array OR cJSON_StringIsConst) None 0 (Some ''a'') (Some 2) (Some 4) None,
     2 \<mapsto> placed cJSON_True None 0 None None (Some 3) None,
     3 \<mapsto> placed cJSON_String (Some [CHR 0x22, LF, CHR 0x01]) 0 None None None (Some 2),
     4 \<mapsto> placed cJSON_NULL None 0 (Some ''b'') None None (Some 1),
     5 \<mapsto> placed cJSON_Object None 0 None (Some 6) None None,
     6 \<mapsto> placed cJSON_Array None 0 (Some ''a'') (Some 7) (Some 9) None,
     7 \<mapsto> placed cJSON_True None 1 None None (Some 8) None,
     8 \<mapsto> placed cJSON_String (Some [CHR 0x22, LF, CHR 0x01]) 0 None None None (Some 7),
     9 \<mapsto> placed cJSON_NULL None 0 (Some ''b'') None None (Some 6)]"

abbreviation demo_shape :: "nat \<Rightarrow> shape" where
  "demo_shape a \<equiv> Shape a [Shape (a + 1) [Shape (a + 2) [], Shape (a + 3) []], Shape (a + 4) []]"

lemma demo_memory_values:
  "value_at demo_memory (demo_shape 0) = demo_tree" "value_at demo_memory (demo_shape 5) = reparsed None demo_tree"
  by (simp_all add: value_at.simps demo_memory_def placed_def demo_tree_def cJSON_types text_of_def Let_def)

lemma demo_memory_stands: "stands True demo_memory (demo_shape 0)" "stands True demo_memory (demo_shape 5)"
  unfolding stands_def demo_memory_values
  by (simp_all add: demo_memory_def placed_def demo_tree_def cJSON_types text_of_def Let_def named_apart_def no_nul_def)

lemma json_roundtrip_witness:
  "\<exists>t h2. cJSON_Parse (Some t) demo_hooks = Ok (Some (reparsed None demo_tree), h2) \<and> live h2 = 8 \<and>
     (\<exists>block h1. print (Some demo_tree) True demo_hooks = Ok (Some block, h1) \<and> c_text block = Ok t) \<and>
     alike True demo_tree (reparsed None demo_tree) \<and> reparsed None demo_tree \<noteq> demo_tree \<and>
     cJSON_Compare 10 demo_memory (Some 0) (Some 5) True = Ok True"
proof -
  obtain t where t: "render True 0 demo_tree = Some t" "length t + 2 \<le> int_max" using demo_tree_text by blast
  have h: "clean demo_tree" "no_raw demo_tree" "nesting demo_tree \<le> nesting_limit" "grants demo_hooks = (\<lambda>_. True)" "regular demo_tree"
    by (simp_all add: demo_tree_def demo_hooks_def cJSON_types is_container_def nesting_limit_def no_nul_def)
  have b: "blocks (reparsed None demo_tree) = 8" "reparsed None demo_tree \<noteq> demo_tree" "live demo_hooks = 0"
    by (simp_all add: demo_tree_def demo_hooks_def cJSON_types text_of_def Let_def is_reference_def string_is_const_def)
  obtain block h1 h2 where r: "print (Some demo_tree) True demo_hooks = Ok (Some block, h1)" "c_text block = Ok t"
    "cJSON_Parse (Some t) demo_hooks = Ok (Some (reparsed None demo_tree), h2)"
    "live h2 = live demo_hooks + blocks (reparsed None demo_tree)" "alike True demo_tree (reparsed None demo_tree)"
    and c: "\<And>m x y fuel. stands True m x \<and> value_at m x = demo_tree \<and> stands True m y \<and> value_at m y = reparsed None demo_tree \<and>
         set (addresses x) \<inter> set (addresses y) = {} \<and> length (addresses x) + length (addresses y) \<le> fuel \<Longrightarrow>
         cJSON_Compare fuel m (Some (root x)) (Some (root y)) True = Ok True"
    using json_roundtrip [OF h(1-3) t h(4) h(4)] h(5) by blast
  have "cJSON_Compare 10 demo_memory (Some (root (demo_shape 0))) (Some (root (demo_shape 5))) True = Ok True"
    by (rule c) (use demo_memory_values demo_memory_stands in simp)
  then show ?thesis using r b by auto
qed

end
