(* ===== verification/Json_Copy.thy ===== *)
theory Json_Copy
  imports Json_Data
begin

text \<open>
  src/libs/cJSON.c: \<open>cJSON_Duplicate\<close>, which copies an item with or without its children, and
  \<open>cJSON_Minify\<close>, which takes blanks and comments out of a text in its own buffer.
\<close>

section \<open>Duplication\<close>

text \<open>
  A copy of a string that may be NULL; the outer option tells whether the copy could be made. Each
  failure deletes what was built so far.
\<close>

definition copy_string_field :: "bool \<Rightarrow> string option \<Rightarrow> hooks \<Rightarrow> string option option \<times> hooks" where
  "copy_string_field shared str h =
     (if str = None then (Some None, h)
      else if shared then (Some str, h)
      else (case cJSON_strdup str h of
              (None, h1) \<Rightarrow> (None, h1)
            | (Some s, h1) \<Rightarrow> (Some (Some s), h1)))"

fun duplicate_item :: "cJSON \<Rightarrow> bool \<Rightarrow> hooks \<Rightarrow> cJSON option \<times> hooks"
  and duplicate_children :: "cJSON list \<Rightarrow> cJSON list \<Rightarrow> hooks \<Rightarrow> bool \<times> cJSON list \<times> hooks" where
  "duplicate_item (Item t s i d k c) recurse h =
     (case cJSON_New_Item h of
        (None, h1) \<Rightarrow> (None, h1)
      | (Some newitem, h1) \<Rightarrow>
          (let new1 = set_type (t AND NOT cJSON_IsReference) (set_valueint i (set_valuedouble d newitem)) in
           case copy_string_field False s h1 of
             (None, h2) \<Rightarrow> (None, cJSON_Delete [new1] h2)
           | (Some s', h2) \<Rightarrow>
               (let new2 = set_valuestring s' new1 in
                case copy_string_field (t AND cJSON_StringIsConst \<noteq> 0) k h2 of
                  (None, h3) \<Rightarrow> (None, cJSON_Delete [new2] h3)
                | (Some k', h3) \<Rightarrow>
                    (let new3 = set_name k' new2 in
                     if \<not> recurse then (Some new3, h3)
                     else (case duplicate_children c [] h3 of
                             (True, items, h4) \<Rightarrow> (Some (set_child items new3), h4)
                           | (False, items, h4) \<Rightarrow> (None, cJSON_Delete [set_child items new3] h4))))))"
| "duplicate_children [] items h = (True, items, h)"
| "duplicate_children (x # xs) items h =
     (case duplicate_item x True h of
        (None, h1) \<Rightarrow> (False, items, h1)
      | (Some newchild, h1) \<Rightarrow> duplicate_children xs (items @ [newchild]) h1)"

definition cJSON_Duplicate :: "cJSON option \<Rightarrow> bool \<Rightarrow> hooks \<Rightarrow> cJSON option \<times> hooks" where
  "cJSON_Duplicate item recurse h = (case item of None \<Rightarrow> (None, h) | Some i \<Rightarrow> duplicate_item i recurse h)"

text \<open>What a copy is: the same fields, and no reference any more.\<close>

fun copy_of :: "cJSON \<Rightarrow> cJSON" where
  "copy_of (Item t s i d k c) = Item (t AND NOT cJSON_IsReference) s i d k (map copy_of c)"

lemma copy_flags [simp]:
  "(t AND NOT cJSON_IsReference) AND cJSON_IsReference = 0"
  "(t AND NOT cJSON_IsReference) AND cJSON_StringIsConst = t AND cJSON_StringIsConst"
proof -
  show "(t AND NOT cJSON_IsReference) AND cJSON_IsReference = 0" by (simp add: and.assoc)
  have "NOT cJSON_IsReference AND cJSON_StringIsConst = cJSON_StringIsConst" by (simp add: cJSON_types)
  then show "(t AND NOT cJSON_IsReference) AND cJSON_StringIsConst = t AND cJSON_StringIsConst" by (simp add: and.assoc)
qed

text \<open>The allocator refuses some request.\<close>

definition refuses :: "hooks \<Rightarrow> bool" where
  "refuses h \<longleftrightarrow> (\<exists>n. \<not> grants h n)"

lemma refusesI: "\<not> grants h n \<Longrightarrow> refuses h"
  by (auto simp: refuses_def)

lemma refuses_cong: "grants h' = grants h \<Longrightarrow> refuses h' = refuses h"
  by (simp add: refuses_def)

lemma copy_string_field_cases:
  "\<exists>r h'. copy_string_field shared str h = (r, h') \<and> grants h' = grants h \<and>
    (if r = None then live h' = live h \<and> refuses h
     else r = Some str \<and> live h' = live h + (if str = None \<or> shared then 0 else 1))"
  by (cases str) (auto simp: copy_string_field_def cJSON_strdup_def allocate_def intro: refusesI)

lemma new_item_cases:
  "\<exists>r h'. cJSON_New_Item h = (r, h') \<and> grants h' = grants h \<and>
    (if r = None then live h' = live h \<and> refuses h
     else r = Some (Item cJSON_Invalid None 0 (Fin False 0 (- 1074)) None []) \<and> live h' = live h + 1)"
  by (auto simp: cJSON_New_Item_def allocate_def intro: refusesI)

text \<open>What a call comes to, with \<open>made\<close> for the item it should give.\<close>

definition copied :: "cJSON \<Rightarrow> hooks \<Rightarrow> cJSON option \<times> hooks \<Rightarrow> bool" where
  "copied made h r \<longleftrightarrow> grants (snd r) = grants h \<and>
     (case fst r of
        None \<Rightarrow> live (snd r) = live h \<and> refuses h
      | Some c \<Rightarrow> c = made \<and> live (snd r) = live h + blocks made)"

definition copied_list :: "cJSON list \<Rightarrow> cJSON list \<Rightarrow> hooks \<Rightarrow> bool \<times> cJSON list \<times> hooks \<Rightarrow> bool" where
  "copied_list cs items h r \<longleftrightarrow> (case r of (ok, items', h') \<Rightarrow>
     grants h' = grants h \<and> live h' = live h + all_blocks items' - all_blocks items \<and>
     (if ok then items' = items @ map copy_of cs else refuses h))"

lemma duplicate_result:
  "copied (if recurse then copy_of x else set_child [] (copy_of x)) h (duplicate_item x recurse h)"
  "copied_list cs items h (duplicate_children cs items h)"
proof (induction x recurse h and cs items h rule: duplicate_item_duplicate_children.induct)
  case (1 t s i d k c recurse h)
  note IH = 1
  let ?n = "Item cJSON_Invalid None 0 (Fin False 0 (- 1074)) None []"
  let ?new1 = "set_type (t AND NOT cJSON_IsReference) (set_valueint i (set_valuedouble d ?n))"
  obtain r h1 where n: "cJSON_New_Item h = (r, h1)" "grants h1 = grants h"
    "if r = None then live h1 = live h \<and> refuses h else r = Some ?n \<and> live h1 = live h + 1"
    using new_item_cases [of h] by blast
  obtain r2 h2 where s: "copy_string_field False s h1 = (r2, h2)" "grants h2 = grants h1"
    "if r2 = None then live h2 = live h1 \<and> refuses h1 else r2 = Some s \<and> live h2 = live h1 + (if s = None \<or> False then 0 else 1)"
    using copy_string_field_cases [of False s h1] by blast
  obtain r3 h3 where k: "copy_string_field (t AND cJSON_StringIsConst \<noteq> 0) k h2 = (r3, h3)" "grants h3 = grants h2"
    "if r3 = None then live h3 = live h2 \<and> refuses h2
     else r3 = Some k \<and> live h3 = live h2 + (if k = None \<or> t AND cJSON_StringIsConst \<noteq> 0 then 0 else 1)"
    using copy_string_field_cases [of "t AND cJSON_StringIsConst \<noteq> 0" k h2] by blast
  obtain ok its h4 where c: "duplicate_children c [] h3 = (ok, its, h4)" by (cases "duplicate_children c [] h3")
  note rf = refuses_cong [OF n(2)] refuses_cong [OF s(2)] refuses_cong [OF k(2)]
  have alt: "r = None \<or> r = Some ?n" "r2 = None \<or> r2 = Some s" "r3 = None \<or> r3 = Some k"
    using n(3) s(3) k(3) by presburger+
  consider (new) "r = None" | (str) "r = Some ?n" "r2 = None" | (key) "r = Some ?n" "r2 = Some s" "r3 = None"
    | (all) "r = Some ?n" "r2 = Some s" "r3 = Some k"
    using alt by blast
  then show ?case
  proof cases
    case new
    have "duplicate_item (Item t s i d k c) recurse h = (None, h1)" using n(1) new by simp
    then show ?thesis using n(2,3) new by (simp add: copied_def)
  next
    case str
    have "duplicate_item (Item t s i d k c) recurse h = (None, refund 1 h2)" using n(1) s(1) str by simp
    then show ?thesis using n(2,3) s(2,3) str rf(1) by (simp add: copied_def)
  next
    case key
    have "duplicate_item (Item t s i d k c) recurse h = (None, refund (if s = None then 1 else 2) h3)"
      using n(1) s(1) k(1) key by simp
    then show ?thesis using n(2,3) s(2,3) k(2,3) key rf(1,2) by (simp add: copied_def)
  next
    case all
    show ?thesis
    proof (cases recurse)
      case False
      have "duplicate_item (Item t s i d k c) recurse h = (Some (set_child [] (copy_of (Item t s i d k c))), h3)"
        using n(1) s(1) k(1) all False by simp
      then show ?thesis using n(2,3) s(2,3) k(2,3) all False by (simp add: copied_def)
    next
      case True
      have "copied_list c [] h3 (ok, its, h4)"
        using IH [OF n(1) [unfolded all, symmetric] refl refl s(1) [unfolded all, symmetric] refl refl k(1) [unfolded all, symmetric] refl refl] True c by simp
      then have cl: "grants h4 = grants h3" "live h4 = live h3 + all_blocks its" "if ok then its = map copy_of c else refuses h3"
        by (simp_all add: copied_list_def)
      have own: "live h3 = live h + (blocks (Item (t AND NOT cJSON_IsReference) s i d k []))"
        using n(3) s(3) k(3) all by simp
      show ?thesis
      proof (cases ok)
        case True
        have "duplicate_item (Item t s i d k c) recurse h = (Some (copy_of (Item t s i d k c)), h4)"
          using n(1) s(1) k(1) all \<open>recurse\<close> c cl(3) True by simp
        then show ?thesis using n(2) s(2) k(2) cl own True \<open>recurse\<close> by (simp add: copied_def all_blocks_def)
      next
        case False
        have "duplicate_item (Item t s i d k c) recurse h =
            (None, refund (blocks (Item (t AND NOT cJSON_IsReference) s i d k its)) h4)"
          using n(1) s(1) k(1) all \<open>recurse\<close> c False by simp
        moreover have "refuses h" using cl(3) rf False by simp
        ultimately show ?thesis using n(2) s(2) k(2) cl own \<open>recurse\<close> by (simp add: copied_def all_blocks_def)
      qed
    qed
  qed
next
  case (2 items h)
  then show ?case by (simp add: copied_list_def)
next
  case (3 x xs items h)
  obtain r h1 where x: "duplicate_item x True h = (r, h1)" by force
  show ?case
  proof (cases r)
    case None
    then show ?thesis using 3(1) x by (auto simp: copied_def copied_list_def)
  next
    case (Some y)
    then show ?thesis using 3(1) 3(2) [OF x [unfolded Some, symmetric] refl] x refuses_cong [of h1 h]
      by (auto simp: copied_def copied_list_def split: prod.splits)
  qed
qed

text \<open>
  C27. A duplicate has every field of the item and, when asked for, of everything below it, shares
  nothing with it but constant names, and is no reference; when an allocation is refused on the way,
  everything allocated so far is given back.
\<close>

theorem duplicate_exact:
  "\<exists>r h'. cJSON_Duplicate item recurse h = (r, h') \<and> grants h' = grants h \<and>
    (case (item, r) of
       (None, _) \<Rightarrow> r = None \<and> h' = h
     | (Some i, Some c) \<Rightarrow> c = (if recurse then copy_of i else set_child [] (copy_of i)) \<and> live h' = live h + blocks c
     | (Some i, None) \<Rightarrow> live h' = live h \<and> refuses h)"
proof (cases item)
  case None
  then show ?thesis by (simp add: cJSON_Duplicate_def)
next
  case (Some i)
  then show ?thesis using duplicate_result(1) [of recurse i h]
    by (cases "duplicate_item i recurse h") (auto simp: cJSON_Duplicate_def copied_def split: option.splits)
qed

section \<open>Minifying\<close>

text \<open>
  \<open>json\<close> and \<open>into\<close> are the indices \<open>r\<close> and \<open>w\<close> into one buffer. Each loop has fuel; the length of the buffer is
  enough, because every turn moves \<open>r\<close> on, and a read behind the buffer is an error.
\<close>

definition peek :: "char list \<Rightarrow> nat \<Rightarrow> char outcome" where
  "peek buf i = (if i < length buf then Ok (buf ! i) else UB Buffer_Overread)"

definition blank :: "char \<Rightarrow> bool" where
  "blank c \<longleftrightarrow> c = CHR '' '' \<or> c = CHR 0x09 \<or> c = CHR 0x0D \<or> c = CHR 0x0A"

fun skip_line :: "nat \<Rightarrow> char list \<Rightarrow> nat \<Rightarrow> nat outcome" where
  "skip_line 0 buf r = UB Endless_Loop"
| "skip_line (Suc fuel) buf r =
     obind (peek buf r) (\<lambda>c. if c \<noteq> NUL \<and> c \<noteq> LF then skip_line fuel buf (Suc r) else Ok r)"

fun skip_comment :: "nat \<Rightarrow> char list \<Rightarrow> nat \<Rightarrow> nat outcome" where
  "skip_comment 0 buf r = UB Endless_Loop"
| "skip_comment (Suc fuel) buf r =
     obind (peek buf r)
       (\<lambda>c. if c = NUL then Ok r
            else if c = CHR ''*''
            then obind (peek buf (Suc r)) (\<lambda>d. if d = CHR ''/'' then Ok r else skip_comment fuel buf (Suc r))
            else skip_comment fuel buf (Suc r))"

text \<open>One character copied down, both indices moved on.\<close>

definition move :: "char list \<times> nat \<times> nat \<Rightarrow> (char list \<times> nat \<times> nat) outcome" where
  "move s = (case s of (buf, r, w) \<Rightarrow> obind (peek buf r) (\<lambda>c. Ok (buf[w := c], Suc r, Suc w)))"

fun copy_literal :: "nat \<Rightarrow> char list \<times> nat \<times> nat \<Rightarrow> (char list \<times> nat \<times> nat) outcome" where
  "copy_literal 0 s = UB Endless_Loop"
| "copy_literal (Suc fuel) (buf, r, w) =
     obind (peek buf r)
       (\<lambda>c. if c \<noteq> NUL \<and> c \<noteq> CHR 0x22
            then obind (if c = CHR 0x5C then move (buf, r, w) else Ok (buf, r, w))
                   (\<lambda>s1. obind (move s1) (copy_literal fuel))
            else Ok (buf, r, w))"

fun minify_loop :: "nat \<Rightarrow> char list \<times> nat \<times> nat \<Rightarrow> char list outcome" where
  "minify_loop 0 s = UB Endless_Loop"
| "minify_loop (Suc fuel) (buf, r, w) =
     obind (peek buf r)
       (\<lambda>c. if c = NUL then Ok (buf[w := NUL])
            else if blank c then minify_loop fuel (buf, Suc r, w)
            else
              obind (if c = CHR ''/'' then peek buf (Suc r) else Ok NUL)
                (\<lambda>d. if d = CHR ''/'' then obind (skip_line fuel buf r) (\<lambda>r1. minify_loop fuel (buf, r1, w))
                     else if d = CHR ''*'' then obind (skip_comment fuel buf r) (\<lambda>r1. minify_loop fuel (buf, r1 + 2, w))
                     else if c = CHR 0x22
                     then obind (move (buf, r, w)) (\<lambda>s1. obind (copy_literal fuel s1) (\<lambda>s2. obind (move s2) (minify_loop fuel)))
                     else obind (move (buf, r, w)) (minify_loop fuel)))"

definition cJSON_Minify :: "char list option \<Rightarrow> char list option outcome" where
  "cJSON_Minify json =
     (case json of
        None \<Rightarrow> Ok None
      | Some buf \<Rightarrow> obind (minify_loop (Suc (Suc (length buf))) (buf, 0, 0)) (\<lambda>b. Ok (Some b)))"

text \<open>
  The reference on texts: what is left, or None where a comment or a string is still open at the end.
  A comment begins with its slash, so \<open>/*/\<close> is one.
\<close>

fun end_comment :: "string \<Rightarrow> string option" where
  "end_comment [] = None"
| "end_comment (c # cs) = (if c = CHR ''*'' \<and> (\<exists>ds. cs = CHR ''/'' # ds) then Some (tl cs) else end_comment cs)"

fun end_literal :: "string \<Rightarrow> (string \<times> string) option" where
  "end_literal [] = None"
| "end_literal (c # cs) =
     (if c = CHR 0x22 then Some ([c], cs)
      else if c = CHR 0x5C
      then (case cs of
              [] \<Rightarrow> None
            | d # ds \<Rightarrow> map_option (\<lambda>(lit, rest). (c # d # lit, rest)) (end_literal ds))
      else map_option (\<lambda>(lit, rest). (c # lit, rest)) (end_literal cs))"

fun starts :: "char \<Rightarrow> string \<Rightarrow> bool" where
  "starts c [] \<longleftrightarrow> False"
| "starts c (d # ds) \<longleftrightarrow> c = d"

lemma end_comment_length: "end_comment cs = Some rest \<Longrightarrow> length rest < length cs"
  by (induction cs) (auto split: if_splits)

lemma end_literal_length: "end_literal cs = Some (lit, rest) \<Longrightarrow> length rest < length cs"
  by (induction cs arbitrary: lit rest rule: end_literal.induct) (fastforce split: if_splits list.splits)+

lemma end_comment_suffix: "end_comment cs = Some rest \<Longrightarrow> set rest \<subseteq> set cs"
  by (induction cs) (auto split: if_splits)

lemma end_literal_suffix: "end_literal cs = Some (lit, rest) \<Longrightarrow> set rest \<subseteq> set cs"
  by (induction cs arbitrary: lit rest rule: end_literal.induct) (fastforce split: if_splits list.splits)+

function squeeze :: "string \<Rightarrow> string option" where
  "squeeze [] = Some []"
| "squeeze (c # cs) =
     (if blank c then squeeze cs
      else if c = CHR ''/'' \<and> starts (CHR ''/'') cs then squeeze (dropWhile (\<lambda>d. d \<noteq> LF) cs)
      else if c = CHR ''/'' \<and> starts (CHR ''*'') cs
      then (case end_comment cs of None \<Rightarrow> None | Some rest \<Rightarrow> squeeze rest)
      else if c = CHR 0x22
      then (case end_literal cs of None \<Rightarrow> None | Some (lit, rest) \<Rightarrow> map_option (\<lambda>t. c # lit @ t) (squeeze rest))
      else map_option (\<lambda>t. c # t) (squeeze cs))"
  by pat_completeness auto
termination
  by (relation "measure length")
    (auto dest: end_comment_length end_literal_length intro: le_imp_less_Suc length_dropWhile_le less_SucI)

text \<open>
  In the middle of a run: what is written so far, what is still to be read (its terminator behind it), and the
  size of the buffer.
\<close>

fun at_work :: "char list \<times> nat \<times> nat \<Rightarrow> string \<Rightarrow> string \<Rightarrow> nat \<Rightarrow> bool" where
  "at_work (buf, r, w) out cs n \<longleftrightarrow>
     length buf = n \<and> drop r buf = cs @ [NUL] \<and> take w buf = out \<and> w \<le> r"

fun run_off :: "char list \<times> nat \<times> nat \<Rightarrow> nat \<Rightarrow> bool" where
  "run_off (buf, r, w) n \<longleftrightarrow> length buf = n \<and> n \<le> r"

declare at_work.simps [simp del]

lemma drop_peek: "drop r buf = x # xs \<Longrightarrow> peek buf r = Ok x \<and> drop (Suc r) buf = xs"
proof -
  assume a: "drop r buf = x # xs"
  then have "r < length buf" by (metis drop_all linorder_not_le list.distinct(1))
  then show ?thesis using a Cons_nth_drop_Suc [of r buf] by (simp add: peek_def)
qed

lemma drop_longer: "drop r buf = xs \<Longrightarrow> xs \<noteq> [] \<Longrightarrow> length buf = r + length xs"
  by (metis add_diff_inverse_nat drop_all length_drop linorder_not_le order_less_imp_le)

lemma at_work_peek: "at_work (buf, r, w) out (c # cs) n \<Longrightarrow> peek buf r = Ok c"
  using drop_peek [of r buf c "cs @ [NUL]"] by (simp add: at_work.simps)

lemma at_work_end: "at_work (buf, r, w) out [] n \<Longrightarrow> peek buf r = Ok NUL \<and> Suc r = n \<and> w < n"
  using drop_peek [of r buf NUL "[]"] drop_longer [of r buf "[NUL]"] by (simp add: at_work.simps)

lemma at_work_skip: "at_work (buf, r, w) out (ds @ cs) n \<Longrightarrow> at_work (buf, r + length ds, w) out cs n"
  using drop_drop [of "length ds" r buf] by (simp add: at_work.simps add.commute)

lemma move_on:
  assumes "at_work (buf, r, w) out (c # cs) n"
  shows "\<exists>s'. move (buf, r, w) = Ok s' \<and> at_work s' (out @ [c]) cs n"
proof -
  have "w < length buf" using assms drop_longer [of r buf "c # cs @ [NUL]"] by (simp add: at_work.simps)
  then show ?thesis using assms drop_peek [of r buf c "cs @ [NUL]"] at_work_peek [OF assms]
    by (simp add: move_def at_work.simps take_Suc_conv_app_nth)
qed

lemma move_nul: "at_work (buf, r, w) out [] n \<Longrightarrow> \<exists>s'. move (buf, r, w) = Ok s' \<and> run_off s' n"
  using at_work_end [of buf r w out n] by (simp add: move_def at_work.simps)

lemma run_off_loops:
  "run_off s n \<Longrightarrow> minify_loop (Suc fuel) s = UB Buffer_Overread"
  "run_off s n \<Longrightarrow> copy_literal (Suc fuel) s = UB Buffer_Overread"
  "run_off s n \<Longrightarrow> move s = UB Buffer_Overread"
  by (cases s; simp add: peek_def move_def)+

lemma skip_line_at_work:
  "at_work (buf, r, w) out cs n \<Longrightarrow> no_nul cs \<Longrightarrow> length cs < fuel \<Longrightarrow>
   skip_line fuel buf r = Ok (r + length (takeWhile (\<lambda>d. d \<noteq> LF) cs))"
proof (induction cs arbitrary: r fuel)
  case Nil
  then show ?case using at_work_end [OF Nil(1)] by (cases fuel) simp_all
next
  case (Cons c cs)
  obtain f where f: "fuel = Suc f" "length cs < f" using Cons.prems(3) by (cases fuel) auto
  have "at_work (buf, Suc r, w) out cs n" using at_work_skip [of buf r w out "[c]" cs n] Cons.prems(1) by simp
  then show ?case using Cons.IH [of "Suc r" f] Cons.prems(2) f at_work_peek [OF Cons.prems(1)]
    by (auto simp: no_nul_def)
qed

lemma skip_comment_at_work:
  "at_work (buf, r, w) out cs n \<Longrightarrow> no_nul cs \<Longrightarrow> length cs < fuel \<Longrightarrow>
   \<exists>r1. skip_comment fuel buf r = Ok r1 \<and>
     (case end_comment cs of None \<Rightarrow> Suc r1 = n | Some rest \<Rightarrow> at_work (buf, r1 + 2, w) out rest n)"
proof (induction cs arbitrary: r fuel)
  case Nil
  then show ?case using at_work_end [OF Nil(1)] by (cases fuel) simp_all
next
  case (Cons c cs)
  obtain f where f: "fuel = Suc f" "length cs < f" using Cons.prems(3) by (cases fuel) auto
  have nx: "at_work (buf, Suc r, w) out cs n" using at_work_skip [of buf r w out "[c]" cs n] Cons.prems(1) by simp
  have nn: "no_nul cs" "c \<noteq> NUL" using Cons.prems(2) by (auto simp: no_nul_def)
  note ih = Cons.IH [OF nx nn(1) f(2)]
  note pk = at_work_peek [OF Cons.prems(1)]
  show ?case
  proof (cases "c = CHR ''*''")
    case False
    then show ?thesis using ih pk nn(2) f(1) by simp
  next
    case True
    show ?thesis
    proof (cases cs)
      case Nil
      then show ?thesis using ih pk True f(1) at_work_end [of buf "Suc r" w out n] nx by simp
    next
      case (Cons d ds)
      have "at_work (buf, r + 2, w) out ds n" using at_work_skip [of buf "Suc r" w out "[d]" ds n] nx Cons by simp
      then show ?thesis using ih pk True f(1) at_work_peek [of buf "Suc r" w out d ds n] nx Cons by simp
    qed
  qed
qed

text \<open>A literal with the quote that ends it, or off the end of the buffer.\<close>

lemma copy_literal_at_work:
  "at_work s out cs n \<Longrightarrow> no_nul cs \<Longrightarrow> length cs < fuel \<Longrightarrow>
   (case end_literal cs of
      Some (lit, rest) \<Rightarrow> \<exists>s' s2. copy_literal fuel s = Ok s' \<and> move s' = Ok s2 \<and> at_work s2 (out @ lit) rest n
    | None \<Rightarrow> copy_literal fuel s = UB Buffer_Overread \<or> (\<exists>s' s2. copy_literal fuel s = Ok s' \<and> move s' = Ok s2 \<and> run_off s2 n))"
proof (induction cs arbitrary: s out fuel rule: end_literal.induct)
  case 1
  obtain buf r w where s: "s = (buf, r, w)" by (cases s)
  obtain f where f: "fuel = Suc f" using 1(3) by (cases fuel) auto
  show ?case using 1(1) at_work_end [of buf r w out n] move_nul [of buf r w out n] unfolding s f by auto
next
  case (2 c cs)
  obtain buf r w where s: "s = (buf, r, w)" by (cases s)
  obtain f where f: "fuel = Suc f" "length cs < f" using 2(5) by (cases fuel) auto
  have nn: "no_nul cs" "c \<noteq> NUL" using 2(4) by (auto simp: no_nul_def)
  have pk: "peek buf r = Ok c" using at_work_peek 2(3) unfolding s by blast
  obtain s1 where s1: "move (buf, r, w) = Ok s1" "at_work s1 (out @ [c]) cs n" using move_on 2(3) unfolding s by blast
  show ?case
  proof (cases "c = CHR 0x22")
    case True
    then show ?thesis using pk nn(2) s1 unfolding s f(1) by (cases s1) auto
  next
    case quote: False
    show ?thesis
    proof (cases "c = CHR 0x5C")
      case False
      have "copy_literal fuel s = copy_literal f s1" using pk nn(2) s1(1) quote False unfolding s f(1) by simp
      then show ?thesis using 2(2) [OF quote False s1(2) nn(1) f(2)] quote False by (auto split: option.splits)
    next
      case True
      obtain b1 r1 w1 where t: "s1 = (b1, r1, w1)" by (cases s1)
      show ?thesis
      proof (cases cs)
        case Nil
        obtain s2 where s2: "move s1 = Ok s2" "run_off s2 n" using move_nul [of b1 r1 w1 "out @ [c]" n] s1(2) Nil t by blast
        obtain g where "f = Suc g" using f(2) by (cases f) auto
        then have "copy_literal fuel s = UB Buffer_Overread"
          using pk nn(2) s1(1) s2 True quote run_off_loops(2) [OF s2(2)] unfolding s f(1) by simp
        then show ?thesis using True Nil by simp
      next
        case (Cons d ds)
        obtain s2 where s2: "move s1 = Ok s2" "at_work s2 (out @ [c, d]) ds n"
          using move_on [of b1 r1 w1 "out @ [c]" d ds n] s1(2) Cons t by auto
        have cp: "copy_literal fuel s = copy_literal f s2" using pk nn(2) s1(1) s2(1) quote True unfolding s f(1) by simp
        have "no_nul ds" "length ds < f" using nn(1) f(2) Cons by (auto simp: no_nul_def)
        from 2(1) [OF quote True Cons s2(2) this] show ?thesis
          using cp quote True Cons by (auto split: option.splits)
      qed
    qed
  qed
qed

lemma minify_at_work:
  "at_work s out cs n \<Longrightarrow> no_nul cs \<Longrightarrow> Suc (length cs) < fuel \<Longrightarrow>
   (case squeeze cs of
      None \<Rightarrow> minify_loop fuel s = UB Buffer_Overread
    | Some t \<Rightarrow> \<exists>b. minify_loop fuel s = Ok b \<and> length b = n \<and> (\<exists>rest. b = out @ t @ NUL # rest))"
proof (induction cs arbitrary: s out fuel rule: squeeze.induct)
  case 1
  obtain buf r w where s: "s = (buf, r, w)" by (cases s)
  obtain f where f: "fuel = Suc f" using 1(3) by (cases fuel) auto
  have e: "peek buf r = Ok NUL" "w < n" using at_work_end 1(1) unfolding s by auto
  have "buf[w := NUL] = out @ [] @ NUL # drop (Suc w) buf"
    using 1(1) e(2) unfolding s by (simp add: at_work.simps upd_conv_take_nth_drop)
  moreover have "length (buf[w := NUL]) = n" using 1(1) unfolding s by (simp add: at_work.simps)
  moreover have "minify_loop fuel s = Ok (buf[w := NUL])" unfolding s f using e by simp
  ultimately show ?case unfolding squeeze.simps option.case by blast
next
  case (2 c cs)
  obtain buf r w where s: "s = (buf, r, w)" by (cases s)
  obtain f where f: "fuel = Suc f" "Suc (length cs) < f" using 2(8) by (cases fuel) auto
  have nn: "no_nul cs" "c \<noteq> NUL" using 2(7) by (auto simp: no_nul_def)
  have aw: "at_work (buf, r, w) out (c # cs) n" using 2(6) s by simp
  have pk: "peek buf r = Ok c" using at_work_peek [OF aw] .
  have nx: "at_work (buf, Suc r, w) out cs n" using at_work_skip [of buf r w out "[c]" cs n] aw by simp
  obtain s1 where s1: "move (buf, r, w) = Ok s1" "at_work s1 (out @ [c]) cs n" using move_on [OF aw] by blast
  have pd: "obind (if c = CHR ''/'' then peek buf (Suc r) else Ok NUL) g =
      g (if c = CHR ''/'' then (case cs of [] \<Rightarrow> NUL | d # ds \<Rightarrow> d) else NUL)" for g :: "char \<Rightarrow> char list outcome"
    using nx at_work_end [of buf "Suc r" w out n] at_work_peek [of buf "Suc r" w out "hd cs" "tl cs" n] by (cases cs) auto
  note step = minify_loop.simps(2) [of f buf r w, unfolded pk obind.simps(1) pd]
  show ?case
  proof (cases "blank c")
    case True
    then have m: "minify_loop fuel s = minify_loop f (buf, Suc r, w)" unfolding s f(1) step using nn(2) by simp
    show ?thesis using 2(1) [OF True nx nn(1) f(2)] True unfolding m by simp
  next
    case nb: False
    show ?thesis
    proof (cases "c = CHR ''/'' \<and> starts (CHR ''/'') cs")
      case True
      have cs: "c = CHR ''/''" "\<exists>ds. cs = CHR ''/'' # ds" using True by (cases cs; simp)+
      let ?k = "length (takeWhile (\<lambda>d. d \<noteq> LF) (c # cs))"
      have sk: "skip_line f buf r = Ok (r + ?k)" using skip_line_at_work [OF aw 2(7), of f] f(2) by simp
      have dw: "dropWhile (\<lambda>d. d \<noteq> LF) (c # cs) = dropWhile (\<lambda>d. d \<noteq> LF) cs" using cs(1) by simp
      have "c # cs = takeWhile (\<lambda>d. d \<noteq> LF) (c # cs) @ dropWhile (\<lambda>d. d \<noteq> LF) cs"
        unfolding dw [symmetric] by (rule takeWhile_dropWhile_id [symmetric])
      then have "at_work (buf, r, w) out (takeWhile (\<lambda>d. d \<noteq> LF) (c # cs) @ dropWhile (\<lambda>d. d \<noteq> LF) cs) n"
        using aw by metis
      then have "at_work (buf, r + ?k, w) out (dropWhile (\<lambda>d. d \<noteq> LF) cs) n" by (rule at_work_skip)
      moreover have "no_nul (dropWhile (\<lambda>d. d \<noteq> LF) cs)" using nn(1) by (auto simp: no_nul_def dest: set_dropWhileD)
      moreover have "Suc (length (dropWhile (\<lambda>d. d \<noteq> LF) cs)) < f"
        using f(2) length_dropWhile_le [of "\<lambda>d. d \<noteq> LF" cs] by linarith
      moreover have m: "minify_loop fuel s = minify_loop f (buf, r + ?k, w)"
        unfolding s f(1) step using nn(2) nb cs sk by auto
      ultimately show ?thesis using 2(2) [OF nb True, of "(buf, r + ?k, w)" out f] nb True unfolding m by simp
    next
      case nl: False
      show ?thesis
      proof (cases "c = CHR ''/'' \<and> starts (CHR ''*'') cs")
        case True
        have cs: "c = CHR ''/''" "\<exists>ds. cs = CHR ''*'' # ds" using True by (cases cs; simp)+
        have ec: "end_comment (c # cs) = end_comment cs" using cs(1) by simp
        obtain r1 where r1: "skip_comment f buf r = Ok r1"
          "case end_comment cs of None \<Rightarrow> Suc r1 = n | Some rest \<Rightarrow> at_work (buf, r1 + 2, w) out rest n"
          using skip_comment_at_work [OF aw 2(7), of f] f(2) unfolding ec by auto
        have m: "minify_loop fuel s = minify_loop f (buf, r1 + 2, w)"
          unfolding s f(1) step using nn(2) nb cs r1(1) by auto
        show ?thesis
        proof (cases "end_comment cs")
          case None
          obtain g where g: "f = Suc g" using f(2) by (cases f) auto
          have "run_off (buf, r1 + 2, w) n" using r1(2) None aw by (simp add: at_work.simps)
          then have "minify_loop fuel s = UB Buffer_Overread" unfolding m g by (rule run_off_loops(1))
          then show ?thesis using nb nl True None by simp
        next
          case (Some rest)
          have "no_nul rest" using end_comment_suffix [OF Some] nn(1) by (auto simp: no_nul_def)
          then show ?thesis
            using 2(3) [OF nb nl True Some, of "(buf, r1 + 2, w)" out f] r1(2) f(2) end_comment_length [OF Some] nb nl True Some
            unfolding m by simp
        qed
      next
        case nc: False
        have d0: "(if c = CHR ''/'' then (case cs of [] \<Rightarrow> NUL | d # ds \<Rightarrow> d) else NUL) \<notin> {CHR ''/'', CHR ''*''}"
          using nl nc by (cases cs) auto
        show ?thesis
        proof (cases "c = CHR 0x22")
          case True
          have m: "minify_loop fuel s = obind (copy_literal f s1) (\<lambda>s2. obind (move s2) (minify_loop f))"
            unfolding s f(1) step using nn(2) nb d0 True s1(1) by simp
          note cl = copy_literal_at_work [OF s1(2) nn(1), of f]
          show ?thesis
          proof (cases "end_literal cs")
            case None
            obtain g where "f = Suc g" using f(2) by (cases f) auto
            then have "minify_loop fuel s = UB Buffer_Overread" using cl f(2) None m run_off_loops(1) by auto
            then show ?thesis using nb nl nc True None by simp
          next
            case (Some p)
            obtain lit rest where p: "p = (lit, rest)" by (cases p)
            obtain s' s2 where s2: "copy_literal f s1 = Ok s'" "move s' = Ok s2" "at_work s2 ((out @ [c]) @ lit) rest n"
              using cl f(2) Some p by auto
            have "no_nul rest" using end_literal_suffix [OF Some [unfolded p]] nn(1) by (auto simp: no_nul_def)
            then show ?thesis
              using 2(4) [OF nb nl nc True Some p [symmetric] s2(3)] m s2(1,2) f(2) end_literal_length [OF Some [unfolded p]]
                nb nl nc True Some p by (cases "squeeze rest") auto
          qed
        next
          case False
          then have m: "minify_loop fuel s = minify_loop f s1"
            unfolding s f(1) step using nn(2) nb d0 s1(1) by simp
          then show ?thesis using 2(5) [OF nb nl nc False s1(2) nn(1) f(2)] nb nl nc False by (cases "squeeze cs") auto
        qed
      qed
    qed
  qed
qed

text \<open>
  C28. Minifying a text in a buffer of just its size works in place: the buffer then holds the text without blanks
  and comments, string literals untouched; a text that ends inside a literal or a block comment
  makes the function read behind the buffer instead.
\<close>

theorem minify_in_place:
  assumes "no_nul s"
  shows "case squeeze s of
      None \<Rightarrow> cJSON_Minify (Some (s @ [NUL])) = UB Buffer_Overread
    | Some t \<Rightarrow> \<exists>b. cJSON_Minify (Some (s @ [NUL])) = Ok (Some b) \<and> length b = length (s @ [NUL]) \<and>
        (\<exists>rest. b = t @ NUL # rest)"
proof -
  have "at_work (s @ [NUL], 0, 0) [] s (length (s @ [NUL]))" by (simp add: at_work.simps)
  from minify_at_work [OF this assms, of "Suc (Suc (length (s @ [NUL])))"] show ?thesis
    by (auto simp: cJSON_Minify_def split: option.splits)
qed

lemma minify_in_place_witness:
  "\<exists>b. cJSON_Minify (Some (''{ // c'' @ [LF] @ ''} /* d */'' @ [NUL])) = Ok (Some b) \<and> take 3 b = ''{}'' @ [NUL] \<and>
     cJSON_Minify (Some (''[ /* '' @ [NUL])) = UB Buffer_Overread"
proof -
  have "no_nul (''{ // c'' @ [LF] @ ''} /* d */'')" "no_nul ''[ /* ''" by (simp_all add: no_nul_def)
  from this [THEN minify_in_place] show ?thesis by (auto simp: blank_def)
qed

end
