(* ===== verification/Varint.thy ===== *)
theory Varint
  imports Prelude "HOL-Library.Word"
begin

text \<open>
  src/libs/sqlite3.c, the variable-length integers in which SQLite stores the rows of the log: the writer,
  the unrolled reader on 32-bit words, its variant for 32-bit values and the length. The reader is
  proved equal to one loop over groups of seven bits, and to give back what was written.
\<close>

unbundle bit_operations_syntax

section \<open>Writing\<close>

text \<open>The functions write to \<open>p[0]\<close> onwards; the models give the bytes they write.\<close>

fun put_down :: "nat \<Rightarrow> 64 word \<Rightarrow> 8 word list \<Rightarrow> 8 word list" where
  "put_down 0 v p = p"
| "put_down (Suc i) v p = put_down i (drop_bit 7 v) (ucast ((v AND 0x7F) OR 0x80) # p)"

lemma drop_less: "drop_bit 7 (v :: 64 word) \<noteq> 0 \<Longrightarrow> unat (drop_bit 7 v) < unat v"
proof -
  assume "drop_bit 7 v \<noteq> 0"
  then have "v \<noteq> 0" by auto
  then have "0 < unat v" by (simp add: unat_gt_0)
  moreover have "unat (drop_bit 7 v) = unat v div 2 ^ 7" by (simp only: unat_drop_bit_eq) (simp add: drop_bit_eq_div)
  ultimately show ?thesis by simp
qed

function put_groups :: "64 word \<Rightarrow> 8 word list \<Rightarrow> 8 word list" where
  "put_groups v buf =
     (let buf1 = buf @ [ucast ((v AND 0x7F) OR 0x80)]; v1 = drop_bit 7 v
      in if v1 = 0 then buf1 else put_groups v1 buf1)"
  by pat_completeness auto
termination
proof (relation "measure (\<lambda>(v, _). unat v)", simp, clarsimp)
  fix v :: "64 word"
  assume "drop_bit 7 v \<noteq> 0"
  then show "unat (drop_bit 7 v) < unat v" by (rule drop_less)
qed

definition putVarint64 :: "64 word \<Rightarrow> 8 word list" where
  "putVarint64 v =
     (if v AND 0xFF00000000000000 \<noteq> 0 then put_down 8 (drop_bit 8 v) [ucast v]
      else (let buf = put_groups v [] in rev (buf[0 := hd buf AND 0x7F])))"

definition sqlite3PutVarint :: "64 word \<Rightarrow> 8 word list" where
  "sqlite3PutVarint v =
     (if v \<le> 0x7F then [ucast (v AND 0x7F)]
      else if v \<le> 0x3FFF then [ucast ((drop_bit 7 v AND 0x7F) OR 0x80), ucast (v AND 0x7F)]
      else putVarint64 v)"

function varint_len :: "nat \<Rightarrow> 64 word \<Rightarrow> nat" where
  "varint_len i v = (let v1 = drop_bit 7 v in if v1 \<noteq> 0 then varint_len (i + 1) v1 else i)"
  by pat_completeness auto
termination
proof (relation "measure (\<lambda>(_, v). unat v)", simp, clarsimp)
  fix v :: "64 word"
  assume "drop_bit 7 v \<noteq> 0"
  then show "unat (drop_bit 7 v) < unat v" by (rule drop_less)
qed

declare put_groups.simps [simp del] varint_len.simps [simp del]

definition sqlite3VarintLen :: "64 word \<Rightarrow> nat" where
  "sqlite3VarintLen v = varint_len 1 v"

section \<open>Reading\<close>

definition varint_byte :: "8 word list \<Rightarrow> nat \<Rightarrow> 32 word outcome" where
  "varint_byte p i = (if i < length p then Ok (ucast (p ! i)) else UB Buffer_Overread)"

definition SLOT_2_0 :: "32 word" where "SLOT_2_0 = 0x001FC07F"
definition SLOT_4_2_0 :: "32 word" where "SLOT_4_2_0 = 0xF01FC07F"

definition wide :: "32 word \<Rightarrow> 32 word \<Rightarrow> 64 word" where
  "wide s a = push_bit 32 (ucast s) OR ucast a"

text \<open>From the fifth byte on: \<open>a\<close> and \<open>b\<close> hold the bytes 0 and 2, and 1 and 3, masked; \<open>s\<close> saves the high bits.\<close>

definition get_ninth :: "8 word list \<Rightarrow> 32 word \<Rightarrow> 32 word \<Rightarrow> 32 word \<Rightarrow> (64 word \<times> nat) outcome" where
  "get_ninth p a b s =
     obind (varint_byte p 8) (\<lambda>p8. obind (varint_byte p 4)
       (\<lambda>p4. let a1 = push_bit 15 a OR p8; b1 = push_bit 8 (b AND SLOT_2_0); a2 = a1 OR b1;
                 s1 = push_bit 4 s OR drop_bit 3 (p4 AND 0x7F)
             in Ok (wide s1 a2, 9)))"

definition get_long :: "8 word list \<Rightarrow> 32 word \<Rightarrow> 32 word \<Rightarrow> (64 word \<times> nat) outcome" where
  "get_long p a0 b0 =
     obind (varint_byte p 4)
       (\<lambda>p4. let s0 = a0; a1 = push_bit 14 a0 OR p4 in
          if a1 AND 0x80 = 0 then Ok (wide (drop_bit 18 s0) (a1 OR push_bit 7 b0), 5)
          else
            (let s1 = push_bit 7 s0 OR b0 in
             obind (varint_byte p 5)
               (\<lambda>p5. let b1 = push_bit 14 b0 OR p5 in
                  if b1 AND 0x80 = 0
                  then Ok (wide (drop_bit 18 s1) (push_bit 7 (a1 AND SLOT_2_0) OR b1), 6)
                  else
                    obind (varint_byte p 6)
                      (\<lambda>p6. let a2 = push_bit 14 a1 OR p6 in
                         if a2 AND 0x80 = 0
                         then Ok (wide (drop_bit 11 s1) ((a2 AND SLOT_4_2_0) OR push_bit 7 (b1 AND SLOT_2_0)), 7)
                         else
                           (let a3 = a2 AND SLOT_2_0 in
                            obind (varint_byte p 7)
                              (\<lambda>p7. let b2 = push_bit 14 b1 OR p7 in
                                 if b2 AND 0x80 = 0
                                 then Ok (wide (drop_bit 4 s1) (push_bit 7 a3 OR (b2 AND SLOT_4_2_0)), 8)
                                 else get_ninth p a3 b2 s1))))))"

definition sqlite3GetVarint :: "8 word list \<Rightarrow> (64 word \<times> nat) outcome" where
  "sqlite3GetVarint p =
     obind (varint_byte p 0)
       (\<lambda>a0. if a0 AND 0x80 = 0 then Ok (ucast a0, 1)
             else
               obind (varint_byte p 1)
                 (\<lambda>b0. if b0 AND 0x80 = 0 then Ok (ucast (push_bit 7 (a0 AND 0x7F) OR b0), 2)
                       else
                         obind (varint_byte p 2)
                           (\<lambda>p2. let a1 = push_bit 14 a0 OR p2 in
                              if a1 AND 0x80 = 0 then Ok (ucast ((a1 AND SLOT_2_0) OR push_bit 7 (b0 AND 0x7F)), 3)
                              else
                                (let a2 = a1 AND SLOT_2_0 in
                                 obind (varint_byte p 3)
                                   (\<lambda>p3. let b1 = push_bit 14 b0 OR p3; b2 = b1 AND SLOT_2_0 in
                                      if b1 AND 0x80 = 0 then Ok (ucast (push_bit 7 a2 OR b2), 4)
                                      else get_long p a2 b2)))))"

text \<open>
  The 32-bit reader repeats the first three cases and leaves the others to the 64-bit one; what does
  not fit becomes the largest value. The macro has read the first byte, so the case of one byte is
  not compiled in.
\<close>

definition sqlite3GetVarint32 :: "8 word list \<Rightarrow> (32 word \<times> nat) outcome" where
  "sqlite3GetVarint32 p =
     obind (varint_byte p 0)
       (\<lambda>a. obind (varint_byte p 1)
          (\<lambda>b. if b AND 0x80 = 0 then Ok (push_bit 7 (a AND 0x7F) OR b, 2)
                else
                  obind (varint_byte p 2)
                    (\<lambda>p2. let a1 = push_bit 14 a OR p2 in
                       if a1 AND 0x80 = 0
                       then Ok ((a1 AND SLOT_2_0) OR push_bit 7 (b AND 0x7F), 3)
                       else
                         obind (sqlite3GetVarint p)
                           (\<lambda>(v64, n). Ok (if v64 AND 0xFFFFFFFF \<noteq> v64 then 0xFFFFFFFF else ucast v64, n)))))"

section \<open>Bits\<close>

lemma flag_iff: "(w :: 32 word) AND 0x80 = 0 \<longleftrightarrow> \<not> bit w 7"
proof -
  have "(0x80 :: 32 word) = 2 ^ 7" by simp
  then show ?thesis by (simp only: and_exp_eq_0_iff_not_bit)
qed

lemma mask_words:
  "SLOT_2_0 = push_bit 14 (mask 7) OR mask 7" "SLOT_4_2_0 = push_bit 28 (mask 4) OR push_bit 14 (mask 7) OR mask 7"
  "(0x7F :: 32 word) = mask 7" "(0x7F :: 64 word) = mask 7"
  by (simp_all add: SLOT_2_0_def SLOT_4_2_0_def mask_eq_exp_minus_1)

lemma bit_byte: "bit (ucast (b :: 8 word) :: 'a::len word) n \<longleftrightarrow> n < LENGTH('a) \<and> n < 8 \<and> bit b n"
  unfolding bit_ucast_iff using bit_imp_le_length [of b n] by auto

lemma bit_u32: "bit (ucast (w :: 32 word) :: 64 word) n \<longleftrightarrow> n < 32 \<and> bit w n"
  unfolding bit_ucast_iff using bit_imp_le_length [of w n] by auto

lemma bit_to_byte: "bit (ucast (w :: 64 word) :: 8 word) n \<longleftrightarrow> n < 8 \<and> bit w n"
  by (auto simp: bit_ucast_iff)

lemma bit_pushed:
  "bit (push_bit k (w :: 32 word)) n \<longleftrightarrow> k \<le> n \<and> n < 32 \<and> bit w (n - k)"
  "bit (push_bit k (v :: 64 word)) n \<longleftrightarrow> k \<le> n \<and> n < 64 \<and> bit v (n - k)"
  by (auto simp: bit_push_bit_iff)

lemma bit_masks:
  "bit (mask k :: 32 word) n \<longleftrightarrow> n < 32 \<and> n < k" "bit (mask k :: 64 word) n \<longleftrightarrow> n < 64 \<and> n < k"
  by (auto simp: bit_mask_iff)

lemma bit_dropped: "bit (drop_bit k (w :: 'a::len word)) n \<longleftrightarrow> bit w (k + n)"
  by (simp add: bit_drop_bit_eq)

lemmas word_bits = bit_byte bit_u32 bit_to_byte bit_pushed bit_masks bit_dropped bit_and_iff bit_or_iff

text \<open>Two words are equal when their 64 bits are, one by one.\<close>

lemma word64_eqI:
  assumes "list_all (\<lambda>n. bit (v :: 64 word) n = bit w n) [0,1,2,3,4,5,6,7,8,9,10,11,12,13,14,15,16,17,18,19,
    20,21,22,23,24,25,26,27,28,29,30,31,32,33,34,35,36,37,38,39,40,41,42,43,44,45,46,47,48,49,50,51,52,53,54,55,56,57,58,59,60,61,62,63]"
  shows "v = w"
proof -
  have "[0..<64] = [0,1,2,3,4,5,6,7,8,9,10,11,12,13,14,15,16,17,18,19,20,21,22,23,24,25,26,27,28,29,30,31,32,33,34,35,36,37,38,39,
      40,41,42,43,44,45,46,47,48,49,50,51,52,53,54,55,56,57,58,59,60,61,62,63]" by (simp add: upt_rec)
  then have "list_all (\<lambda>n. bit v n = bit w n) [0..<64]" using assms by (simp only:)
  then have "bit v n = bit w n" if "n < 64" for n using that by (simp add: list_all_iff)
  then show ?thesis by (intro bit_word_eqI) simp
qed

section \<open>The reader as a loop\<close>

text \<open>Seven bits of each byte while its highest bit is set, and all eight of the ninth.\<close>

fun get_groups :: "nat \<Rightarrow> 64 word \<Rightarrow> 8 word list \<Rightarrow> (64 word \<times> nat) outcome" where
  "get_groups i acc [] = UB Buffer_Overread"
| "get_groups i acc (b # bs) =
     (if i = 8 then Ok (push_bit 8 acc OR ucast b, 9)
      else
        (let acc1 = push_bit 7 acc OR (ucast b AND 0x7F)
         in if bit b 7 then get_groups (i + 1) acc1 bs else Ok (acc1, i + 1)))"

definition joined :: "8 word list \<Rightarrow> 64 word" where
  "joined bs = foldl (\<lambda>acc b. push_bit 7 acc OR (ucast b AND 0x7F)) 0 bs"

lemma joined_snoc: "joined (bs @ [b]) = push_bit 7 (joined bs) OR (ucast b AND 0x7F)"
  by (simp add: joined_def)

lemma get_groups_prefix:
  "list_all (\<lambda>b. bit b 7) bs \<Longrightarrow> i + length bs \<le> 8 \<Longrightarrow>
   get_groups i acc (bs @ cs) = get_groups (i + length bs) (foldl (\<lambda>acc b. push_bit 7 acc OR (ucast b AND 0x7F)) acc bs) cs"
  by (induction bs arbitrary: i acc) (simp_all add: Let_def)

lemma one_byte: "\<not> bit b0 7 \<Longrightarrow> (ucast (ucast b0 :: 32 word) :: 64 word) = joined [b0]"
  unfolding joined_def foldl.simps mask_words by (rule word64_eqI, simp only: list.pred_inject, simp add: word_bits)

lemma two_bytes: "\<not> bit b1 7 \<Longrightarrow>
    (ucast (push_bit 7 (ucast b0 AND 0x7F) OR ucast b1 :: 32 word) :: 64 word) = joined [b0, b1]"
  unfolding joined_def foldl.simps mask_words by (rule word64_eqI, simp only: list.pred_inject, simp add: word_bits)

lemma three_bytes: "\<not> bit b2 7 \<Longrightarrow>
    (ucast ((push_bit 14 (ucast b0) OR ucast b2) AND SLOT_2_0 OR push_bit 7 (ucast b1 AND 0x7F) :: 32 word) :: 64 word) =
    joined [b0, b1, b2]"
  unfolding joined_def foldl.simps mask_words by (rule word64_eqI, simp only: list.pred_inject, simp add: word_bits)

text \<open>The words \<open>a\<close> and \<open>b\<close> after four bytes.\<close>

definition even4 :: "8 word \<Rightarrow> 8 word \<Rightarrow> 32 word" where
  "even4 x y = (push_bit 14 (ucast x) OR ucast y) AND SLOT_2_0"

lemma bit_even4: "bit (even4 x y) n \<longleftrightarrow> n < 7 \<and> bit y n \<or> 14 \<le> n \<and> n < 21 \<and> bit x (n - 14)"
proof -
  have "n < 32 \<Longrightarrow> n < 7 \<Longrightarrow> n < 8" by simp
  then show ?thesis
    unfolding even4_def mask_words by (auto simp: word_bits)
qed

lemma four_bytes: "\<not> bit b3 7 \<Longrightarrow> (ucast (push_bit 7 (even4 b0 b2) OR even4 b1 b3) :: 64 word) = joined [b0, b1, b2, b3]"
  unfolding joined_def foldl.simps mask_words by (rule word64_eqI, simp only: list.pred_inject, simp add: word_bits bit_even4)

lemma five_bytes: "\<not> bit b4 7 \<Longrightarrow>
    wide (drop_bit 18 (even4 b0 b2)) ((push_bit 14 (even4 b0 b2) OR ucast b4) OR push_bit 7 (even4 b1 b3)) =
    joined [b0, b1, b2, b3, b4]"
  unfolding joined_def wide_def foldl.simps mask_words by (rule word64_eqI, simp only: list.pred_inject, simp add: word_bits bit_even4)

lemma six_bytes: "\<not> bit b5 7 \<Longrightarrow>
    wide (drop_bit 18 (push_bit 7 (even4 b0 b2) OR even4 b1 b3))
      (push_bit 7 ((push_bit 14 (even4 b0 b2) OR ucast b4) AND SLOT_2_0) OR (push_bit 14 (even4 b1 b3) OR ucast b5)) =
    joined [b0, b1, b2, b3, b4, b5]"
  unfolding joined_def wide_def foldl.simps mask_words by (rule word64_eqI, simp only: list.pred_inject, simp add: word_bits bit_even4)

lemma seven_bytes: "\<not> bit b6 7 \<Longrightarrow>
    wide (drop_bit 11 (push_bit 7 (even4 b0 b2) OR even4 b1 b3))
      (((push_bit 14 (push_bit 14 (even4 b0 b2) OR ucast b4) OR ucast b6) AND SLOT_4_2_0) OR
       push_bit 7 ((push_bit 14 (even4 b1 b3) OR ucast b5) AND SLOT_2_0)) =
    joined [b0, b1, b2, b3, b4, b5, b6]"
  unfolding joined_def wide_def foldl.simps mask_words by (rule word64_eqI, simp only: list.pred_inject, simp add: word_bits bit_even4)

lemma eight_bytes: "\<not> bit b7 7 \<Longrightarrow>
    wide (drop_bit 4 (push_bit 7 (even4 b0 b2) OR even4 b1 b3))
      (push_bit 7 ((push_bit 14 (push_bit 14 (even4 b0 b2) OR ucast b4) OR ucast b6) AND SLOT_2_0) OR
       ((push_bit 14 (push_bit 14 (even4 b1 b3) OR ucast b5) OR ucast b7) AND SLOT_4_2_0)) =
    joined [b0, b1, b2, b3, b4, b5, b6, b7]"
  unfolding joined_def wide_def foldl.simps mask_words by (rule word64_eqI, simp only: list.pred_inject, simp add: word_bits bit_even4)

lemma nine_bytes:
  fixes b8 :: "8 word"
  shows "wide (push_bit 4 (push_bit 7 (even4 b0 b2) OR even4 b1 b3) OR drop_bit 3 (ucast b4 AND 0x7F))
      ((push_bit 15 ((push_bit 14 (push_bit 14 (even4 b0 b2) OR ucast b4) OR ucast b6) AND SLOT_2_0) OR ucast b8) OR
       push_bit 8 ((push_bit 14 (push_bit 14 (even4 b1 b3) OR ucast b5) OR ucast b7) AND SLOT_2_0)) =
    push_bit 8 (joined [b0, b1, b2, b3, b4, b5, b6, b7]) OR ucast b8"
  unfolding joined_def wide_def foldl.simps mask_words by (rule word64_eqI, simp only: list.pred_inject, simp add: word_bits bit_even4)

section \<open>Equivalence\<close>

lemma varint_byte_simps [simp]:
  "varint_byte [] i = UB Buffer_Overread" "varint_byte (b # bs) 0 = Ok (ucast b)"
  "varint_byte (b # bs) (Suc i) = varint_byte bs i" "varint_byte (b # bs) (numeral k) = varint_byte bs (pred_numeral k)"
  by (simp_all add: varint_byte_def numeral_eq_Suc)

lemma flag_byte [simp]:
  "bit (ucast (b :: 8 word) :: 32 word) 7 = bit b 7" "bit (push_bit 14 (w :: 32 word) OR v) 7 = bit v 7"
  by (simp_all add: bit_byte bit_or_iff bit_pushed)

lemma joined_get:
  "list_all (\<lambda>b. bit b 7) bs \<Longrightarrow> length bs \<le> 8 \<Longrightarrow> get_groups 0 0 (bs @ cs) = get_groups (length bs) (joined bs) cs"
  using get_groups_prefix [of bs 0 0 cs] by (simp add: joined_def)

lemma joined_ends:
  "list_all (\<lambda>b. bit b 7) bs \<Longrightarrow> length bs < 8 \<Longrightarrow> \<not> bit b 7 \<Longrightarrow>
   get_groups 0 0 (bs @ b # cs) = Ok (joined (bs @ [b]), Suc (length bs))"
  using joined_get [of bs "b # cs"] by (simp add: joined_snoc)

lemma get_long_groups:
  assumes "bit b0 7" "bit b1 7" "bit b2 7" "bit b3 7"
  shows "get_long (b0 # b1 # b2 # b3 # r4) (even4 b0 b2) (even4 b1 b3) = get_groups 0 0 (b0 # b1 # b2 # b3 # r4)"
proof (cases r4)
  case Nil
  then show ?thesis using assms by (simp add: get_long_def)
next
  case r4: (Cons b4 r5)
  show ?thesis
  proof (cases "bit b4 7 \<and> r5 \<noteq> []")
    case False
    then show ?thesis using assms r4 joined_ends [of "[b0, b1, b2, b3]" b4 r5] five_bytes [of b4 b0 b2 b1 b3]
      by (cases "bit b4 7") (auto simp: get_long_def flag_iff Let_def bit_or_iff bit_pushed)
  next
    case True
    then obtain b5 r6 where b4: "bit b4 7" and r5: "r5 = b5 # r6" by (cases r5) auto
    show ?thesis
    proof (cases "bit b5 7 \<and> r6 \<noteq> []")
      case False
      then show ?thesis using assms r4 b4 r5 joined_ends [of "[b0, b1, b2, b3, b4]" b5 r6] six_bytes [of b5 b0 b2 b1 b3 b4]
        by (cases "bit b5 7") (auto simp: get_long_def flag_iff Let_def bit_or_iff bit_pushed)
    next
      case True
      then obtain b6 r7 where b5: "bit b5 7" and r6: "r6 = b6 # r7" by (cases r6) auto
      show ?thesis
      proof (cases "bit b6 7 \<and> r7 \<noteq> []")
        case False
        then show ?thesis using assms r4 b4 r5 b5 r6 joined_ends [of "[b0, b1, b2, b3, b4, b5]" b6 r7]
            seven_bytes [of b6 b0 b2 b1 b3 b4 b5]
          by (cases "bit b6 7") (auto simp: get_long_def flag_iff Let_def bit_or_iff bit_pushed)
      next
        case True
        then obtain b7 r8 where b6: "bit b6 7" and r7: "r7 = b7 # r8" by (cases r7) auto
        show ?thesis
        proof (cases "bit b7 7")
          case False
          then show ?thesis using assms r4 b4 r5 b5 r6 b6 r7 joined_ends [of "[b0, b1, b2, b3, b4, b5, b6]" b7 r8]
              eight_bytes [of b7 b0 b2 b1 b3 b4 b6 b5]
            by (simp add: get_long_def flag_iff Let_def bit_or_iff bit_pushed)
        next
          case True
          then show ?thesis using assms r4 b4 r5 b5 r6 b6 r7 joined_get [of "[b0, b1, b2, b3, b4, b5, b6, b7]" r8]
              nine_bytes [of b0 b2 b1 b3 b4 b6 _ b5 b7]
            by (cases r8) (simp_all add: get_long_def get_ninth_def flag_iff Let_def bit_or_iff bit_pushed)
        qed
      qed
    qed
  qed
qed

lemma varint_reader_loop: "sqlite3GetVarint p = get_groups 0 0 p"
proof (cases p)
  case Nil
  then show ?thesis by (simp add: sqlite3GetVarint_def)
next
  case p: (Cons b0 r1)
  show ?thesis
  proof (cases "bit b0 7 \<and> r1 \<noteq> []")
    case False
    then show ?thesis using p joined_ends [of "[]" b0 r1] one_byte [of b0]
      by (cases "bit b0 7") (auto simp: sqlite3GetVarint_def flag_iff Let_def)
  next
    case True
    then obtain b1 r2 where b0: "bit b0 7" and r1: "r1 = b1 # r2" by (cases r1) auto
    show ?thesis
    proof (cases "bit b1 7 \<and> r2 \<noteq> []")
      case False
      then show ?thesis using p b0 r1 joined_ends [of "[b0]" b1 r2] two_bytes [of b1 b0]
        by (cases "bit b1 7") (auto simp: sqlite3GetVarint_def flag_iff Let_def)
    next
      case True
      then obtain b2 r3 where b1: "bit b1 7" and r2: "r2 = b2 # r3" by (cases r2) auto
      show ?thesis
      proof (cases "bit b2 7 \<and> r3 \<noteq> []")
        case False
        then show ?thesis using p b0 r1 b1 r2 joined_ends [of "[b0, b1]" b2 r3] three_bytes [of b2 b0 b1]
          by (cases "bit b2 7") (auto simp: sqlite3GetVarint_def flag_iff Let_def)
      next
        case True
        then obtain b3 r4 where b2: "bit b2 7" and r3: "r3 = b3 # r4" by (cases r3) auto
        show ?thesis
        proof (cases "bit b3 7")
          case False
          then show ?thesis using p b0 r1 b1 r2 b2 r3 joined_ends [of "[b0, b1, b2]" b3 r4] four_bytes [of b3 b0 b2 b1]
            by (simp add: sqlite3GetVarint_def flag_iff Let_def even4_def)
        next
          case True
          then show ?thesis using p b0 r1 b1 r2 b2 r3 get_long_groups [of b0 b1 b2 b3 r4]
            by (simp add: sqlite3GetVarint_def flag_iff Let_def even4_def)
        qed
      qed
    qed
  qed
qed

text \<open>
  C29. The unrolled reader on 32-bit words computes exactly what the loop over groups of seven bits does, on every
  sequence of bytes: the value, the number of bytes, and the reads behind the end of a
  sequence that is cut short.
\<close>

theorem varint_reader_is_loop: "sqlite3GetVarint p = get_groups 0 0 p"
  by (rule varint_reader_loop)

section \<open>Round trip\<close>

text \<open>The first \<open>k\<close> groups of seven bits, the highest first, with the flag on all but the last.\<close>

fun leading_groups :: "nat \<Rightarrow> 64 word \<Rightarrow> 8 word list" where
  "leading_groups 0 v = []"
| "leading_groups (Suc k) v = (ucast (drop_bit (7 * k) v AND 0x7F) OR (if k = 0 then 0 else 0x80)) # leading_groups k v"

lemma const_80: "(0x80 :: 8 word) = push_bit 7 1" "(0x80 :: 64 word) = push_bit 7 (mask 1)" "(0x7F :: 8 word) = mask 7"
  by (simp_all add: mask_eq_exp_minus_1)

lemma bit_128 [simp]: "bit (128 :: int) n \<longleftrightarrow> n = 7"
proof -
  have "(128 :: int) = 2 ^ 7" by simp
  then show ?thesis by (simp only: bit_exp_iff) (auto simp: possible_bit_def)
qed

lemma bit_80: "bit (0x80 :: 8 word) n \<longleftrightarrow> n = 7"
  by auto

lemma flagged_group: "(ucast ((w AND 0x7F) OR 0x80) :: 8 word) = ucast ((w :: 64 word) AND 0x7F) OR 0x80"
  unfolding const_80(2) mask_words by (rule bit_word_eqI) (auto simp: word_bits bit_80)

lemma bit_group: "bit (ucast ((w :: 64 word) AND 0x7F) :: 8 word) n \<longleftrightarrow> n < 7 \<and> bit w n"
  unfolding mask_words by (auto simp: word_bits)

lemma regroup: "push_bit 7 (drop_bit (7 + m) v) OR (drop_bit m v AND 0x7F) = drop_bit m (v :: 64 word)"
  unfolding mask_words by (rule bit_word_eqI) (auto simp: word_bits)

lemma group_value: "(ucast (ucast ((w :: 64 word) AND 0x7F) OR (if e then 0 else 0x80 :: 8 word)) :: 64 word) AND 0x7F = w AND 0x7F"
  unfolding mask_words by (rule bit_word_eqI) (auto simp: word_bits bit_80)

lemma get_leading_groups:
  "i + k \<le> 8 \<Longrightarrow> 0 < k \<Longrightarrow> get_groups i (drop_bit (7 * k) v) (leading_groups k v @ rest) = Ok (v, i + k)"
proof (induction k arbitrary: i)
  case (Suc k)
  let ?b = "ucast (drop_bit (7 * k) v AND 0x7F) OR (if k = 0 then 0 else 0x80) :: 8 word"
  have acc: "push_bit 7 (drop_bit (7 * Suc k) v) OR (ucast ?b AND 0x7F) = drop_bit (7 * k) v"
    unfolding group_value using regroup [of "7 * k" v] by simp
  have flag: "bit ?b 7 \<longleftrightarrow> k \<noteq> 0" by (simp add: bit_or_iff bit_group bit_80)
  have "get_groups i (drop_bit (7 * Suc k) v) (leading_groups (Suc k) v @ rest) =
      (if k \<noteq> 0 then get_groups (i + 1) (drop_bit (7 * k) v) (leading_groups k v @ rest) else Ok (drop_bit (7 * k) v, i + 1))"
    using Suc.prems(1) unfolding leading_groups.simps append_Cons get_groups.simps acc flag Let_def by simp
  then show ?case using Suc.IH [of "i + 1"] Suc.prems(1) by (cases "k = 0") simp_all
qed simp

lemma varint_len_Suc: "varint_len (Suc i) v = Suc (varint_len i v)"
proof (induction i v rule: varint_len.induct)
  case (1 i v)
  then show ?case by (subst (1 2) varint_len.simps) (simp add: Let_def)
qed

lemma len_step: "sqlite3VarintLen v = (if drop_bit 7 v = 0 then 1 else Suc (sqlite3VarintLen (drop_bit 7 v)))"
  unfolding sqlite3VarintLen_def by (subst varint_len.simps) (simp add: Let_def varint_len_Suc)

lemma len_positive [simp]: "0 < sqlite3VarintLen v"
  by (subst len_step) simp

lemma drop_again: "drop_bit (7 * j) (drop_bit 7 v) = drop_bit (7 * Suc j) (v :: 64 word)"
  by (rule bit_word_eqI) (simp add: word_bits algebra_simps)

lemma put_groups_groups:
  "put_groups v buf = buf @ map (\<lambda>j. ucast ((drop_bit (7 * j) v AND 0x7F) OR 0x80)) [0..<sqlite3VarintLen v]"
proof (induction v buf rule: put_groups.induct)
  case (1 v buf)
  let ?f = "\<lambda>j. ucast ((drop_bit (7 * j) v AND 0x7F) OR 0x80) :: 8 word"
  have up: "[0..<Suc n] = 0 # map Suc [0..<n]" for n by (simp add: upt_conv_Cons map_Suc_upt)
  show ?case
  proof (cases "drop_bit 7 v = 0")
    case True
    then show ?thesis by (subst put_groups.simps, subst len_step) simp
  next
    case False
    have "put_groups v buf = put_groups (drop_bit 7 v) (buf @ [?f 0])"
      using False by (subst put_groups.simps) (simp add: Let_def)
    also have "\<dots> = (buf @ [?f 0]) @ map (\<lambda>j. ?f (Suc j)) [0..<sqlite3VarintLen (drop_bit 7 v)]"
      using 1 [OF refl refl False] unfolding drop_again by simp
    also have "\<dots> = buf @ map ?f [0..<sqlite3VarintLen v]"
      using False by (subst (2) len_step) (simp only: up list.map if_False append_assoc append_Cons append_Nil map_map comp_def)
    finally show ?thesis .
  qed
qed

lemma leading_groups_rev:
  "leading_groups k v = rev (map (\<lambda>j. ucast (drop_bit (7 * j) v AND 0x7F) OR (if j = 0 then 0 else 0x80)) [0..<k])"
  by (induction k) simp_all

lemma putVarint64_short: "v AND 0xFF00000000000000 = 0 \<Longrightarrow> putVarint64 v = leading_groups (sqlite3VarintLen v) v"
proof -
  assume a: "v AND 0xFF00000000000000 = 0"
  let ?n = "sqlite3VarintLen v"
  let ?f = "\<lambda>j. ucast ((drop_bit (7 * j) v AND 0x7F) OR 0x80) :: 8 word"
  let ?g = "\<lambda>j. ucast (drop_bit (7 * j) v AND 0x7F) OR (if j = 0 then 0 else 0x80) :: 8 word"
  have low: "?f 0 AND 0x7F = ?g 0"
    unfolding flagged_group const_80(3) by (rule bit_word_eqI) (auto simp: bit_and_iff bit_or_iff bit_group bit_80 bit_mask_iff)
  have h: "hd (map ?f [0..<?n]) = ?f 0" by (simp add: hd_map upt_conv_Cons)
  have "(map ?f [0..<?n])[0 := hd (map ?f [0..<?n]) AND 0x7F] = map ?g [0..<?n]"
  proof (rule nth_equalityI)
    fix j assume "j < length ((map ?f [0..<?n])[0 := hd (map ?f [0..<?n]) AND 0x7F])"
    then have j: "j < ?n" by simp
    show "(map ?f [0..<?n])[0 := hd (map ?f [0..<?n]) AND 0x7F] ! j = map ?g [0..<?n] ! j"
    proof (cases "j = 0")
      case True
      then show ?thesis using j low unfolding h by simp
    next
      case False
      then show ?thesis using j by (simp add: flagged_group)
    qed
  qed simp
  then show ?thesis
    using a by (simp add: putVarint64_def Let_def put_groups_groups leading_groups_rev)
qed

lemma len_zero: "drop_bit (7 * sqlite3VarintLen v) v = 0"
proof (induction "unat v" arbitrary: v rule: less_induct)
  case less
  show ?case
  proof (cases "drop_bit 7 v = 0")
    case True
    then show ?thesis by (subst len_step) simp
  next
    case False
    then show ?thesis using less [OF drop_less [OF False]] by (subst len_step) (simp only: drop_again if_False)
  qed
qed

lemma len_least: "drop_bit (7 * k) v = 0 \<Longrightarrow> 0 < k \<Longrightarrow> sqlite3VarintLen v \<le> k"
proof (induction k arbitrary: v)
  case (Suc k)
  show ?case
  proof (cases "drop_bit 7 v = 0")
    case True
    then show ?thesis by (subst len_step) simp
  next
    case False
    then have "0 < k" using Suc.prems(1) by (cases k) auto
    then show ?thesis using Suc.IH [of "drop_bit 7 v"] Suc.prems(1) False by (subst len_step) (simp only: drop_again if_False Suc_le_mono)
  qed
qed simp

lemma drop_zero_iff: "drop_bit k (v :: 64 word) = 0 \<longleftrightarrow> unat v < 2 ^ k"
proof -
  have "unat (drop_bit k v) = unat v div 2 ^ k" by (simp only: unat_drop_bit_eq) (simp add: drop_bit_eq_div)
  then show ?thesis by (metis div_eq_0_iff power_not_zero unat_eq_zero zero_neq_numeral)
qed

lemma high_byte_iff: "(v :: 64 word) AND 0xFF00000000000000 = 0 \<longleftrightarrow> drop_bit 56 v = 0"
proof -
  have c: "(0xFF00000000000000 :: 64 word) = push_bit 56 (mask 8)" by (simp add: mask_eq_exp_minus_1)
  have "v AND push_bit 56 (mask 8) = push_bit 56 (drop_bit 56 v)"
    by (rule bit_word_eqI) (auto simp: word_bits)
  moreover have "drop_bit 56 (push_bit 56 (drop_bit 56 v)) = drop_bit 56 v"
    using bit_imp_le_length [of v] by (intro bit_word_eqI) (force simp: word_bits)
  ultimately show ?thesis unfolding c by (metis drop_bit_of_0 push_bit_of_0)
qed

lemma get_short: "sqlite3VarintLen v \<le> 8 \<Longrightarrow>
    sqlite3GetVarint (leading_groups (sqlite3VarintLen v) v @ rest) = Ok (v, sqlite3VarintLen v)"
  using get_leading_groups [of 0 "sqlite3VarintLen v" v rest] by (simp add: varint_reader_loop len_zero)

lemma length_leading_groups [simp]: "length (leading_groups k v) = k"
  by (induction k) simp_all

lemma put_ninth:
  "\<exists>bs. put_down 8 (drop_bit 8 v) [ucast v] = bs @ [ucast v] \<and> length bs = 8 \<and> list_all (\<lambda>b. bit b 7) bs \<and>
     push_bit 8 (joined bs) OR ucast (ucast v :: 8 word) = v"
proof -
  let ?f = "\<lambda>k. ucast ((drop_bit k v AND 0x7F) OR 0x80) :: 8 word"
  have p: "put_down 8 (drop_bit 8 v) [ucast v] = [?f 57, ?f 50, ?f 43, ?f 36, ?f 29, ?f 22, ?f 15, ?f 8, ucast v]"
    by (simp add: eval_nat_numeral)
  have "push_bit 8 (joined [?f 57, ?f 50, ?f 43, ?f 36, ?f 29, ?f 22, ?f 15, ?f 8]) OR ucast (ucast v :: 8 word) = v"
    unfolding joined_def foldl.simps const_80(2) mask_words
    by (rule word64_eqI, simp only: list.pred_inject, simp add: word_bits)
  moreover have "bit (?f k) 7" for k unfolding flagged_group by (simp add: bit_or_iff bit_group bit_80)
  ultimately show ?thesis
    unfolding p by (intro exI [of _ "[?f 57, ?f 50, ?f 43, ?f 36, ?f 29, ?f 22, ?f 15, ?f 8]"]) simp
qed

lemma get_put_ninth: "\<exists>bs. putVarint64 v = bs \<and> length bs = 9 \<and> sqlite3GetVarint (bs @ rest) = Ok (v, 9)"
  if "v AND 0xFF00000000000000 \<noteq> 0"
proof -
  obtain bs where bs: "put_down 8 (drop_bit 8 v) [ucast v] = bs @ [ucast v]" "length bs = 8" "list_all (\<lambda>b. bit b 7) bs"
    "push_bit 8 (joined bs) OR ucast (ucast v :: 8 word) = v" using put_ninth by blast
  have "sqlite3GetVarint ((bs @ [ucast v]) @ rest) = Ok (v, 9)"
    using joined_get [OF bs(3), of "ucast v # rest"] bs(2,4) by (simp add: varint_reader_loop)
  then show ?thesis using that bs(1,2) by (simp add: putVarint64_def)
qed

lemma put_small: "sqlite3VarintLen v \<le> 8 \<Longrightarrow> sqlite3PutVarint v = leading_groups (sqlite3VarintLen v) v"
proof -
  assume le: "sqlite3VarintLen v \<le> 8"
  have "drop_bit (7 * 8) v = 0"
    using len_zero [of v] le unfolding drop_zero_iff
    by (meson less_le_trans mult_le_mono2 one_le_numeral power_increasing)
  then have hi: "v AND 0xFF00000000000000 = 0" by (simp add: high_byte_iff)
  have v7: "v \<le> 0x7F \<longleftrightarrow> drop_bit 7 v = 0" and v14: "v \<le> 0x3FFF \<longleftrightarrow> drop_bit 14 v = 0"
    unfolding drop_zero_iff by (auto simp: word_le_nat_alt)
  consider "drop_bit 7 v = 0" | "drop_bit 7 v \<noteq> 0" "drop_bit 14 v = 0" | "drop_bit 7 v \<noteq> 0" "drop_bit 14 v \<noteq> 0" by blast
  then show ?thesis
  proof cases
    case 1
    then have "sqlite3VarintLen v = 1" by (subst len_step) simp
    then show ?thesis using 1 v7 by (simp add: sqlite3PutVarint_def)
  next
    case 2
    then have "drop_bit 7 (drop_bit 7 v) = 0" using drop_again [of 1 v] by simp
    then have "sqlite3VarintLen v = 2" using 2(1) by (subst len_step, subst len_step) simp
    then show ?thesis using 2 v7 v14 flagged_group [of "drop_bit 7 v"]
      by (simp add: sqlite3PutVarint_def numeral_2_eq_2)
  next
    case 3
    then show ?thesis using v7 v14 putVarint64_short [OF hi] by (simp add: sqlite3PutVarint_def)
  qed
qed

lemma len_bounds: "sqlite3VarintLen v \<le> 10" "sqlite3VarintLen v \<le> 8 \<longleftrightarrow> v AND 0xFF00000000000000 = 0"
  "sqlite3VarintLen v = 10 \<longleftrightarrow> 2 ^ 63 \<le> unat v"
proof -
  have "unat v < 2 ^ LENGTH(64)" by (rule unsigned_less)
  then have b: "unat v < 2 ^ (7 * 10)" by simp
  show le: "sqlite3VarintLen v \<le> 10" using b by (intro len_least) (simp_all only: drop_zero_iff)
  have d: "sqlite3VarintLen v \<le> k \<longleftrightarrow> unat v < 2 ^ (7 * k)" if "0 < k" for k
  proof
    assume "sqlite3VarintLen v \<le> k"
    then have "(2 :: nat) ^ (7 * sqlite3VarintLen v) \<le> 2 ^ (7 * k)" by (intro power_increasing) simp_all
    then show "unat v < 2 ^ (7 * k)" using len_zero [of v] unfolding drop_zero_iff by linarith
  next
    assume "unat v < 2 ^ (7 * k)"
    then show "sqlite3VarintLen v \<le> k" using that by (intro len_least) (simp_all only: drop_zero_iff)
  qed
  show "sqlite3VarintLen v \<le> 8 \<longleftrightarrow> v AND 0xFF00000000000000 = 0"
    using d [of 8] by (simp add: high_byte_iff drop_zero_iff)
  show "sqlite3VarintLen v = 10 \<longleftrightarrow> 2 ^ 63 \<le> unat v" using d [of 9] le by auto
qed

text \<open>
  C14. What was written is read back, whatever follows it: the same value and the number of bytes written, which
  is \<open>sqlite3VarintLen\<close> of the value except that values of 2^63 and more, negative integers,
  take nine bytes where that function says ten.
\<close>

theorem varint_roundtrip:
  "sqlite3GetVarint (sqlite3PutVarint v @ rest) = Ok (v, length (sqlite3PutVarint v)) \<and>
   length (sqlite3PutVarint v) = (if 2 ^ 63 \<le> unat v then 9 else sqlite3VarintLen v) \<and>
   (2 ^ 63 \<le> unat v \<longleftrightarrow> sqlite3VarintLen v = 10)"
proof (cases "sqlite3VarintLen v \<le> 8")
  case True
  then have "\<not> 2 ^ 63 \<le> unat v" using len_bounds(3) [of v] by auto
  then show ?thesis using get_short [OF True] put_small [OF True] len_bounds(3) [of v] by simp
next
  case False
  then have hi: "v AND 0xFF00000000000000 \<noteq> 0" by (simp add: len_bounds(2))
  obtain bs where bs: "putVarint64 v = bs" "length bs = 9" "sqlite3GetVarint (bs @ rest) = Ok (v, 9)"
    using get_put_ninth [OF hi, of rest] by blast
  have "\<not> v \<le> 0x3FFF"
  proof
    assume "v \<le> 0x3FFF"
    then have "unat v < 2 ^ 56" by (simp add: word_le_nat_alt)
    then show False using hi by (simp add: high_byte_iff drop_zero_iff)
  qed
  moreover from this have "\<not> v \<le> 0x7F" by (simp add: word_le_nat_alt)
  ultimately have "sqlite3PutVarint v = bs" using bs(1) by (simp add: sqlite3PutVarint_def)
  then show ?thesis using bs len_bounds(1,3) [of v] False by auto
qed

text \<open>The reader of 32-bit values is the other one with saturation, once the first byte is known to have the flag.\<close>

definition saturate32 :: "64 word \<times> nat \<Rightarrow> 32 word \<times> nat" where
  "saturate32 r = (case r of (v, n) \<Rightarrow> (if v AND 0xFFFFFFFF \<noteq> v then 0xFFFFFFFF else ucast v, n))"

lemma saturate32_ucast [simp]: "saturate32 (ucast (w :: 32 word), n) = (w, n)"
proof -
  have m: "(0xFFFFFFFF :: 64 word) = mask 32" by (simp add: mask_eq_exp_minus_1)
  have "(ucast w :: 64 word) AND mask 32 = ucast w" by (rule bit_word_eqI) (auto simp: word_bits)
  moreover have "(ucast (ucast w :: 64 word) :: 32 word) = w" by (rule bit_word_eqI) (simp add: bit_ucast_iff)
  ultimately show ?thesis by (simp add: saturate32_def m)
qed

lemma varint32_saturates:
  "bit b0 7 \<Longrightarrow> sqlite3GetVarint32 (b0 # p) = obind (sqlite3GetVarint (b0 # p)) (\<lambda>r. Ok (saturate32 r))"
proof -
  assume b0: "bit b0 7"
  have tail: "obind r (\<lambda>(v64, n). Ok (if v64 AND 0xFFFFFFFF \<noteq> v64 then 0xFFFFFFFF else ucast v64, n)) =
      obind r (\<lambda>r. Ok (saturate32 r))" for r
    by (cases r) (auto simp: saturate32_def)
  show ?thesis
  proof (cases p)
    case Nil
    then show ?thesis using b0 by (simp add: sqlite3GetVarint32_def sqlite3GetVarint_def flag_iff)
  next
    case p: (Cons b1 q)
    show ?thesis
    proof (cases "bit b1 7 \<and> q \<noteq> []")
      case False
      then show ?thesis using b0 p by (cases "bit b1 7") (auto simp: sqlite3GetVarint32_def sqlite3GetVarint_def flag_iff)
    next
      case True
      then obtain b2 q' where q: "bit b1 7" "q = b2 # q'" by (cases q) auto
      show ?thesis
      proof (cases "bit b2 7")
        case False
        then show ?thesis using b0 p q by (simp add: sqlite3GetVarint32_def sqlite3GetVarint_def flag_iff Let_def)
      next
        case True
        then have "sqlite3GetVarint32 (b0 # p) = obind (sqlite3GetVarint (b0 # p))
            (\<lambda>(v64, n). Ok (if v64 AND 0xFFFFFFFF \<noteq> v64 then 0xFFFFFFFF else ucast v64, n))"
          using b0 p q by (simp add: sqlite3GetVarint32_def flag_iff Let_def)
        then show ?thesis unfolding tail .
      qed
    qed
  qed
qed

end
