(* ===== verification/Sqlite_Memory.thy ===== *)
theory Sqlite_Memory
  imports Prelude "HOL-Library.Word"
begin

text \<open>
  What the parts of src/libs/sqlite3.c modelled here use of its allocator and of its result codes.
\<close>

unbundle bit_operations_syntax

text \<open>
  The allocator may refuse any request, and counts the blocks that are in use.
\<close>

record sqlite_memory =
  granted :: "nat \<Rightarrow> bool"
  requests :: nat
  in_use :: int

definition sqlite3Malloc :: "sqlite_memory \<Rightarrow> bool \<times> sqlite_memory" where
  "sqlite3Malloc m =
     (if granted m (requests m) then (True, m\<lparr>requests := Suc (requests m), in_use := in_use m + 1\<rparr>)
      else (False, m\<lparr>requests := Suc (requests m)\<rparr>))"

definition sqlite3_free :: "sqlite_memory \<Rightarrow> sqlite_memory" where
  "sqlite3_free m = m\<lparr>in_use := in_use m - 1\<rparr>"

definition SQLITE_OK :: int where "SQLITE_OK = 0"
definition SQLITE_NOMEM :: int where "SQLITE_NOMEM = 7"

lemma codes [simp]: "SQLITE_OK \<noteq> SQLITE_NOMEM" "SQLITE_NOMEM \<noteq> SQLITE_OK" "SQLITE_OK OR SQLITE_OK = SQLITE_OK"
  "SQLITE_OK OR SQLITE_NOMEM = SQLITE_NOMEM" "SQLITE_NOMEM OR SQLITE_OK = SQLITE_NOMEM" "SQLITE_NOMEM OR SQLITE_NOMEM = SQLITE_NOMEM"
  by (simp_all add: SQLITE_OK_def SQLITE_NOMEM_def)

lemma malloc_cases:
  obtains (granted) m1 where "sqlite3Malloc m = (True, m1)" "in_use m1 = in_use m + 1" "granted m1 = granted m"
  | (refused) m1 where "sqlite3Malloc m = (False, m1)" "in_use m1 = in_use m" "granted m1 = granted m" "granted m \<noteq> (\<lambda>_. True)"
proof (cases "granted m (requests m)")
  case True
  then show ?thesis
    by (intro that(1) [of "m\<lparr>requests := Suc (requests m), in_use := in_use m + 1\<rparr>"]) (simp_all add: sqlite3Malloc_def)
next
  case False
  then show ?thesis by (intro that(2) [of "m\<lparr>requests := Suc (requests m)\<rparr>"]) (auto simp: sqlite3Malloc_def)
qed

text \<open>A memory that never refuses.\<close>

definition plenty :: sqlite_memory where
  "plenty = \<lparr>granted = (\<lambda>_. True), requests = 0, in_use = 0\<rparr>"

end
