(* ===== verification/Vdbe_Record.thy ===== *)
theory Vdbe_Record
  imports Varint Sqlite_Memory
begin

text \<open>
  src/libs/sqlite3.c, the records in which SQLite stores the rows of the log: the serial types of values, the
  writer of one value and its reader, the end of the instruction \<open>OP_MakeRecord\<close>, which puts a row of memory
  cells into one record, and \<open>sqlite3VdbeRecordUnpack\<close>, which takes a record apart. The property is that
  a row is read back as it was written.
\<close>

section \<open>Memory cells\<close>

text \<open>
  \<open>c_u\<close> are the eight bytes of the union, the integer or the bits of the double. \<open>c_own\<close> is the
  block \<open>zMalloc\<close> (its length is \<open>szMalloc\<close>; None when that is zero), \<open>c_z\<close> where \<open>z\<close> points to: nowhere, to the
  start of the own block, or to bytes elsewhere.
\<close>

datatype place = Nowhere | Own | Elsewhere "8 word list"

record cell =
  c_u :: "64 word"
  c_flags :: "16 word"
  c_n :: "32 word"
  c_z :: place
  c_own :: "8 word list option"
  c_uTemp :: "32 word"

definition MEM_Null :: "16 word" where "MEM_Null = 0x0001"
definition MEM_Str :: "16 word" where "MEM_Str = 0x0002"
definition MEM_Int :: "16 word" where "MEM_Int = 0x0004"
definition MEM_Real :: "16 word" where "MEM_Real = 0x0008"
definition MEM_Blob :: "16 word" where "MEM_Blob = 0x0010"
definition MEM_Term :: "16 word" where "MEM_Term = 0x0200"
definition MEM_Dyn :: "16 word" where "MEM_Dyn = 0x0400"
definition MEM_Static :: "16 word" where "MEM_Static = 0x0800"
definition MEM_Ephem :: "16 word" where "MEM_Ephem = 0x1000"
definition MEM_Zero :: "16 word" where "MEM_Zero = 0x4000"

definition has :: "cell \<Rightarrow> 16 word \<Rightarrow> bool" where
  "has c f \<longleftrightarrow> c_flags c AND f \<noteq> 0"

definition z_bytes :: "cell \<Rightarrow> 8 word list" where
  "z_bytes c = (case c_z c of Nowhere \<Rightarrow> [] | Own \<Rightarrow> (case c_own c of None \<Rightarrow> [] | Some b \<Rightarrow> b) | Elsewhere b \<Rightarrow> b)"

text \<open>\<open>u.nZero\<close> is an \<open>int\<close> in the first four bytes of the union, the low ones.\<close>

definition u_nZero :: "cell \<Rightarrow> 32 word" where
  "u_nZero c = ucast (c_u c)"

definition with_nZero :: "int \<Rightarrow> cell \<Rightarrow> cell" where
  "with_nZero k c = c\<lparr>c_u := (c_u c AND 0xFFFFFFFF00000000) OR ucast (word_of_int k :: 32 word)\<rparr>"

text \<open>A NaN has all bits of the exponent set and a fraction that is not zero; it is the one number that differs from itself.\<close>

definition sqlite3IsNaN :: "64 word \<Rightarrow> bool" where
  "sqlite3IsNaN x \<longleftrightarrow> x AND 0x7FF0000000000000 = 0x7FF0000000000000 \<and> x AND 0x000FFFFFFFFFFFFF \<noteq> 0"

section \<open>Memory of cells\<close>

text \<open>
  The allocator: for a number that tells requests apart and the size, None when the request is refused, else a
  block of at least that many bytes of any content. The destructors of values that a cell only refers to are not modelled.
\<close>

type_synonym allocator = "nat \<Rightarrow> nat \<Rightarrow> 8 word list option"

definition sqlite3VdbeMemGrow :: "allocator \<Rightarrow> nat \<Rightarrow> cell \<Rightarrow> nat \<Rightarrow> bool \<Rightarrow> (int \<times> cell) outcome" where
  "sqlite3VdbeMemGrow al k c n preserve =
     (case al k (if n < 32 then 32 else n) of
        None \<Rightarrow> Ok (SQLITE_NOMEM, c\<lparr>c_flags := MEM_Null, c_z := Nowhere, c_own := None\<rparr>)
      | Some b \<Rightarrow>
          (let done_c = (\<lambda>b1. Ok (SQLITE_OK, c\<lparr>c_own := Some b1, c_z := Own,
                          c_flags := c_flags c AND NOT (MEM_Dyn OR MEM_Ephem OR MEM_Static)\<rparr>))
           in case (preserve, c_z c, c_own c) of
                (True, Own, Some old) \<Rightarrow> done_c (take (length b) old @ drop (length old) b)
              | (True, Elsewhere src, _) \<Rightarrow>
                  if length src < unat (c_n c) then UB Buffer_Overread
                  else if length b < unat (c_n c) then UB Buffer_Overflow
                  else done_c (take (unat (c_n c)) src @ drop (unat (c_n c)) b)
              | _ \<Rightarrow> done_c b))"

definition sqlite3VdbeMemClearAndResize :: "allocator \<Rightarrow> nat \<Rightarrow> cell \<Rightarrow> nat \<Rightarrow> (int \<times> cell) outcome" where
  "sqlite3VdbeMemClearAndResize al k c szNew =
     (let szMalloc = (case c_own c of None \<Rightarrow> 0 | Some b \<Rightarrow> length b) in
      if szMalloc < szNew then sqlite3VdbeMemGrow al k c szNew False
      else Ok (SQLITE_OK, c\<lparr>c_z := Own, c_flags := c_flags c AND (MEM_Null OR MEM_Int OR MEM_Real)\<rparr>))"

text \<open>Bytes written at an offset of a block.\<close>

definition write_at :: "8 word list \<Rightarrow> nat \<Rightarrow> 8 word list \<Rightarrow> 8 word list outcome" where
  "write_at buf i bs =
     (if i + length bs \<le> length buf then Ok (take i buf @ bs @ drop (i + length bs) buf) else UB Buffer_Overflow)"

definition sqlite3VdbeMemExpandBlob :: "allocator \<Rightarrow> nat \<Rightarrow> cell \<Rightarrow> (int \<times> cell) outcome" where
  "sqlite3VdbeMemExpandBlob al k c =
     (let nByte = sint (c_n c) + sint (u_nZero c);
          nByte1 = (if nByte \<le> 0 then 1 else nByte)
      in obind (sqlite3VdbeMemGrow al k c (nat nByte1) True)
           (\<lambda>(rc, c1).
              if rc \<noteq> SQLITE_OK then Ok (SQLITE_NOMEM, c1)
              else
                obind (write_at (z_bytes c1) (unat (c_n c1)) (replicate (unat (u_nZero c1)) 0))
                  (\<lambda>b. Ok (SQLITE_OK, c1\<lparr>c_own := Some b, c_n := c_n c1 + u_nZero c1,
                                         c_flags := c_flags c1 AND NOT (MEM_Zero OR MEM_Term)\<rparr>))))"

section \<open>Serial types\<close>

text \<open>The serial type of a value, and the length of its data.\<close>

definition sqlite3VdbeSerialType :: "cell \<Rightarrow> int \<Rightarrow> 32 word \<times> 32 word" where
  "sqlite3VdbeSerialType c file_format =
     (if has c MEM_Null then (0, 0)
      else if has c MEM_Int then
        (let i = c_u c; u = (if sint i < 0 then NOT i else i) in
         if u \<le> 127 then
           (if i AND 1 = i \<and> 4 \<le> file_format then (8 + ucast u, 0) else (1, 1))
         else if u \<le> 32767 then (2, 2)
         else if u \<le> 8388607 then (3, 3)
         else if u \<le> 2147483647 then (4, 4)
         else if u \<le> 0x7FFFFFFFFFFF then (5, 6)
         else (6, 8))
      else if has c MEM_Real then (7, 8)
      else
        (let n = (if has c MEM_Zero then c_n c + u_nZero c else c_n c)
         in (n * 2 + 12 + (if has c MEM_Str then 1 else 0), n)))"

definition sqlite3SmallTypeSizes :: "nat list" where
  "sqlite3SmallTypeSizes =
    [ 0,  1,  2,  3,  4,  6,  8,  8,  0,  0,
      0,  0,  0,  0,  1,  1,  2,  2,  3,  3,
      4,  4,  5,  5,  6,  6,  7,  7,  8,  8,
      9,  9, 10, 10, 11, 11, 12, 12, 13, 13,
     14, 14, 15, 15, 16, 16, 17, 17, 18, 18,
     19, 19, 20, 20, 21, 21, 22, 22, 23, 23,
     24, 24, 25, 25, 26, 26, 27, 27, 28, 28,
     29, 29, 30, 30, 31, 31, 32, 32, 33, 33,
     34, 34, 35, 35, 36, 36, 37, 37, 38, 38,
     39, 39, 40, 40, 41, 41, 42, 42, 43, 43,
     44, 44, 45, 45, 46, 46, 47, 47, 48, 48,
     49, 49, 50, 50, 51, 51, 52, 52, 53, 53,
     54, 54, 55, 55, 56, 56, 57, 57]"

definition sqlite3VdbeSerialTypeLen :: "32 word \<Rightarrow> nat" where
  "sqlite3VdbeSerialTypeLen serial_type =
     (if 128 \<le> serial_type then unat ((serial_type - 12) div 2) else sqlite3SmallTypeSizes ! unat serial_type)"

definition sqlite3VdbeOneByteSerialTypeLen :: "8 word \<Rightarrow> nat" where
  "sqlite3VdbeOneByteSerialTypeLen serial_type = sqlite3SmallTypeSizes ! unat serial_type"

section \<open>Writing a value\<close>

text \<open>The loop that stores the low bytes of a value from the last one to the first.\<close>

fun put_bytes :: "nat \<Rightarrow> 64 word \<Rightarrow> 8 word list \<Rightarrow> 8 word list" where
  "put_bytes 0 v buf = buf"
| "put_bytes (Suc i) v buf = put_bytes i (drop_bit 8 v) (ucast (v AND 0xFF) # buf)"

text \<open>The bytes that are written; the count that the function returns is their number.\<close>

definition sqlite3VdbeSerialPut :: "cell \<Rightarrow> 32 word \<Rightarrow> 8 word list outcome" where
  "sqlite3VdbeSerialPut c serial_type =
     (if serial_type \<le> 7 \<and> 0 < serial_type then Ok (put_bytes (sqlite3SmallTypeSizes ! unat serial_type) (c_u c) [])
      else if 12 \<le> serial_type then
        (if length (z_bytes c) < unat (c_n c) then UB Buffer_Overread else Ok (take (unat (c_n c)) (z_bytes c)))
      else Ok [])"

section \<open>Reading a value\<close>

text \<open>\<open>byte_at\<close> reads one byte as an unsigned, \<open>i8_at\<close> as a signed 32-bit integer.\<close>

definition byte_at :: "8 word list \<Rightarrow> nat \<Rightarrow> 32 word outcome" where
  "byte_at buf i = (if i < length buf then Ok (ucast (buf ! i)) else UB Buffer_Overread)"

definition i8_at :: "8 word list \<Rightarrow> nat \<Rightarrow> 32 word outcome" where
  "i8_at buf i = (if i < length buf then Ok (scast (buf ! i)) else UB Buffer_Overread)"

definition ONE_BYTE_INT :: "8 word list \<Rightarrow> 32 word outcome" where
  "ONE_BYTE_INT x = i8_at x 0"

definition TWO_BYTE_INT :: "8 word list \<Rightarrow> 32 word outcome" where
  "TWO_BYTE_INT x = obind (i8_at x 0) (\<lambda>a. obind (byte_at x 1) (\<lambda>b. Ok (256 * a OR b)))"

definition THREE_BYTE_INT :: "8 word list \<Rightarrow> 32 word outcome" where
  "THREE_BYTE_INT x =
     obind (i8_at x 0) (\<lambda>a. obind (byte_at x 1) (\<lambda>b. obind (byte_at x 2) (\<lambda>c. Ok (65536 * a OR push_bit 8 b OR c))))"

definition FOUR_BYTE_UINT :: "8 word list \<Rightarrow> 32 word outcome" where
  "FOUR_BYTE_UINT x =
     obind (byte_at x 0) (\<lambda>a. obind (byte_at x 1) (\<lambda>b. obind (byte_at x 2) (\<lambda>c. obind (byte_at x 3)
       (\<lambda>d. Ok (push_bit 24 a OR push_bit 16 b OR push_bit 8 c OR d)))))"

definition FOUR_BYTE_INT :: "8 word list \<Rightarrow> 32 word outcome" where
  "FOUR_BYTE_INT x =
     obind (i8_at x 0) (\<lambda>a. obind (byte_at x 1) (\<lambda>b. obind (byte_at x 2) (\<lambda>c. obind (byte_at x 3)
       (\<lambda>d. Ok (16777216 * a OR push_bit 16 b OR push_bit 8 c OR d)))))"

definition serialGet :: "8 word list \<Rightarrow> 32 word \<Rightarrow> cell \<Rightarrow> (nat \<times> cell) outcome" where
  "serialGet buf serial_type c =
     obind (FOUR_BYTE_UINT buf)
       (\<lambda>x. obind (FOUR_BYTE_UINT (drop 4 buf))
          (\<lambda>y. let v = push_bit 32 (ucast x) + ucast y in
             if serial_type = 6 then Ok (8, c\<lparr>c_u := v, c_flags := MEM_Int\<rparr>)
             else Ok (8, c\<lparr>c_u := v, c_flags := (if sqlite3IsNaN v then MEM_Null else MEM_Real)\<rparr>)))"

definition get_int :: "nat \<Rightarrow> 64 word \<Rightarrow> cell \<Rightarrow> nat \<times> cell" where
  "get_int len i c = (len, c\<lparr>c_u := i, c_flags := MEM_Int\<rparr>)"

definition sqlite3VdbeSerialGet :: "8 word list \<Rightarrow> 32 word \<Rightarrow> cell \<Rightarrow> (nat \<times> cell) outcome" where
  "sqlite3VdbeSerialGet buf serial_type c =
     (if serial_type = 10 then Ok (0, (with_nZero 0 c)\<lparr>c_flags := MEM_Null OR MEM_Zero, c_n := 0\<rparr>)
      else if serial_type = 11 \<or> serial_type = 0 then Ok (0, c\<lparr>c_flags := MEM_Null\<rparr>)
      else if serial_type = 1 then obind (ONE_BYTE_INT buf) (\<lambda>i. Ok (get_int 1 (scast i) c))
      else if serial_type = 2 then obind (TWO_BYTE_INT buf) (\<lambda>i. Ok (get_int 2 (scast i) c))
      else if serial_type = 3 then obind (THREE_BYTE_INT buf) (\<lambda>i. Ok (get_int 3 (scast i) c))
      else if serial_type = 4 then obind (FOUR_BYTE_INT buf) (\<lambda>i. Ok (get_int 4 (scast i) c))
      else if serial_type = 5 then
        obind (FOUR_BYTE_UINT (drop 2 buf))
          (\<lambda>l. obind (TWO_BYTE_INT buf) (\<lambda>h. Ok (get_int 6 (ucast l + push_bit 32 1 * scast h) c)))
      else if serial_type = 6 \<or> serial_type = 7 then serialGet buf serial_type c
      else if serial_type = 8 \<or> serial_type = 9 then Ok (get_int 0 (ucast (serial_type - 8)) c)
      else
        (let n = (serial_type - 12) div 2
         in Ok (unat n, c\<lparr>c_z := Elsewhere buf, c_n := n,
                         c_flags := (if serial_type AND 1 = 0 then MEM_Blob OR MEM_Ephem else MEM_Str OR MEM_Ephem)\<rparr>)))"

section \<open>Making a record\<close>

definition putVarint32 :: "32 word \<Rightarrow> 8 word list" where
  "putVarint32 v = (if v < 0x80 then [ucast v] else sqlite3PutVarint (ucast v))"

definition getVarint32 :: "8 word list \<Rightarrow> (32 word \<times> nat) outcome" where
  "getVarint32 p = obind (byte_at p 0) (\<lambda>b. if b < 0x80 then Ok (b, 1) else sqlite3GetVarint32 p)"

text \<open>
  The first loop, from the last cell to the first (the list is reversed): \<open>nData\<close>, \<open>nHdr\<close> and \<open>nZero\<close> count
  bytes; a row has at most 32767 cells, so they do not overflow. A blob with a tail of zeros is
  expanded unless nothing but zeros follows it.
\<close>

definition size_field :: "allocator \<Rightarrow> int \<Rightarrow> nat \<Rightarrow> cell \<Rightarrow> int \<Rightarrow> int \<Rightarrow> (int \<times> cell \<times> 32 word \<times> 32 word \<times> int) outcome" where
  "size_field al file_format k c nData nZero =
     (let (serial_type, len) = sqlite3VdbeSerialType c file_format in
      if has c MEM_Zero then
        (if serial_type = 0 then Ok (SQLITE_OK, c, 10, len, nZero)
         else if nData \<noteq> 0 then
           obind (sqlite3VdbeMemExpandBlob al k c) (\<lambda>(rc, c1). Ok (rc, c1, serial_type, len, nZero))
         else Ok (SQLITE_OK, c, serial_type, len - u_nZero c, nZero + sint (u_nZero c)))
      else Ok (SQLITE_OK, c, serial_type, len, nZero))"

fun size_loop :: "allocator \<Rightarrow> int \<Rightarrow> nat \<Rightarrow> cell list \<Rightarrow> int \<Rightarrow> int \<Rightarrow> int \<Rightarrow>
    (int \<times> cell list \<times> nat \<times> int \<times> int \<times> int) outcome" where
  "size_loop al file_format k [] nData nHdr nZero = Ok (SQLITE_OK, [], k, nData, nHdr, nZero)"
| "size_loop al file_format k (c # cs) nData nHdr nZero =
     obind (size_field al file_format k c nData nZero)
       (\<lambda>(rc, c1, serial_type, len, nZero1).
          if rc \<noteq> SQLITE_OK then Ok (rc, c1 # cs, k, nData, nHdr, nZero)
          else
            (let hdr = (if serial_type \<le> 127 then 1 else int (sqlite3VarintLen (ucast serial_type))) in
             obind (size_loop al file_format (Suc k) cs (nData + uint len) (nHdr + hdr) nZero1)
               (\<lambda>(rc, cs1, r). Ok (rc, c1\<lparr>c_uTemp := serial_type\<rparr> # cs1, r))))"

definition header_size :: "int \<Rightarrow> int" where
  "header_size nHdr =
     (if nHdr \<le> 126 then nHdr + 1
      else
        (let nVarint = int (sqlite3VarintLen (word_of_int nHdr)); nHdr1 = nHdr + nVarint
         in if nVarint < int (sqlite3VarintLen (word_of_int nHdr1)) then nHdr1 + 1 else nHdr1))"

text \<open>The second loop: the types are written from \<open>i\<close> on, the data from \<open>j\<close> on.\<close>

fun write_fields :: "cell list \<Rightarrow> 8 word list \<Rightarrow> nat \<Rightarrow> nat \<Rightarrow> 8 word list outcome" where
  "write_fields [] buf i j = Ok buf"
| "write_fields (c # cs) buf i j =
     obind (write_at buf i (putVarint32 (c_uTemp c)))
       (\<lambda>buf1. obind (sqlite3VdbeSerialPut c (c_uTemp c))
          (\<lambda>bs. obind (write_at buf1 j bs)
             (\<lambda>buf2. write_fields cs buf2 (i + length (putVarint32 (c_uTemp c))) (j + length bs))))"

definition SQLITE_TOOBIG :: int where "SQLITE_TOOBIG = 18"

text \<open>\<open>OP_MakeRecord\<close> after the affinities were applied: the cells, and the output register \<open>out\<close>.\<close>

definition make_record :: "allocator \<Rightarrow> int \<Rightarrow> int \<Rightarrow> cell list \<Rightarrow> cell \<Rightarrow> (int \<times> cell list \<times> cell) outcome" where
  "make_record al limit file_format cells out =
     obind (size_loop al file_format 0 (rev cells) 0 0 0)
       (\<lambda>(rc, rcs, k, nData, nHdr0, nZero).
          if rc \<noteq> SQLITE_OK then Ok (rc, rev rcs, out)
          else
            (let nHdr = header_size nHdr0; nByte = nHdr + nData in
             if limit < nByte + nZero then Ok (SQLITE_TOOBIG, rev rcs, out)
             else
               obind (sqlite3VdbeMemClearAndResize al k out (nat nByte))
                 (\<lambda>(rc, out1).
                    if rc \<noteq> SQLITE_OK then Ok (rc, rev rcs, out1)
                    else
                      obind (write_at (z_bytes out1) 0 (putVarint32 (word_of_int nHdr)))
                        (\<lambda>buf. obind (write_fields (rev rcs) buf (length (putVarint32 (word_of_int nHdr))) (nat nHdr))
                           (\<lambda>buf1.
                              let out2 = out1\<lparr>c_own := Some buf1, c_n := word_of_int nByte, c_flags := MEM_Blob\<rparr>
                              in Ok (SQLITE_OK, rev rcs,
                                     if nZero \<noteq> 0 then (with_nZero nZero out2)\<lparr>c_flags := MEM_Blob OR MEM_Zero\<rparr> else out2))))))"

section \<open>Taking a record apart\<close>

text \<open>
  \<open>d\<close> is an \<open>int\<close>: it is set to the size of the header, a \<open>u32\<close>, and grows by the length of each
  field, wrapping. \<open>k\<close> is the number of cells that are still free in \<open>aMem\<close>, which is not looked at
  before the first field is read.
\<close>

definition int32 :: "int \<Rightarrow> int" where
  "int32 x = signed_take_bit 31 x"

definition blank_cell :: "cell \<Rightarrow> cell" where
  "blank_cell c = c\<lparr>c_z := Nowhere, c_own := None\<rparr>"

fun unpack_loop :: "8 word list \<Rightarrow> int \<Rightarrow> 32 word \<Rightarrow> cell list \<Rightarrow> 32 word \<Rightarrow> int \<Rightarrow> cell list outcome" where
  "unpack_loop aKey nKey szHdr [] idx d = (if idx < szHdr \<and> d \<le> nKey then UB Buffer_Overflow else Ok [])"
| "unpack_loop aKey nKey szHdr (c # cs) idx d =
     (if idx < szHdr \<and> d \<le> nKey then
        obind (getVarint32 (drop (unat idx) aKey))
          (\<lambda>(serial_type, n).
             if d < 0 then UB Buffer_Overread
             else
               obind (sqlite3VdbeSerialGet (drop (nat d) aKey) serial_type (blank_cell c))
                 (\<lambda>(len, c1).
                    if cs = [] then Ok [c1]
                    else obind (unpack_loop aKey nKey szHdr cs (idx + of_nat n) (int32 (d + int len)))
                           (\<lambda>cs1. Ok (c1 # cs1))))
      else Ok [])"

definition sqlite3VdbeRecordUnpack :: "int \<Rightarrow> 8 word list \<Rightarrow> cell list \<Rightarrow> cell list outcome" where
  "sqlite3VdbeRecordUnpack nKey aKey aMem =
     obind (getVarint32 aKey)
       (\<lambda>(szHdr, idx). unpack_loop aKey nKey szHdr aMem (of_nat idx) (int32 (uint szHdr)))"

section \<open>Small facts\<close>

lemmas flag_defs = MEM_Null_def MEM_Str_def MEM_Int_def MEM_Real_def MEM_Blob_def MEM_Term_def MEM_Dyn_def MEM_Static_def
  MEM_Ephem_def MEM_Zero_def

lemma word_small: "unat (word_of_nat n :: 32 word) = n" if "n < 2 ^ 32"
  using that by (simp add: unat_of_nat take_bit_nat_eq_self)

lemma bit_scast [simp]:
  "bit (scast (w :: 32 word) :: 64 word) n \<longleftrightarrow> n < 64 \<and> bit w (min 31 n)"
  "bit (scast (b :: 8 word) :: 32 word) n \<longleftrightarrow> n < 32 \<and> bit b (min 7 n)"
  by (auto simp: bit_signed_iff)

lemma times_push: "256 * (w :: 32 word) = push_bit 8 w" "65536 * w = push_bit 16 w" "16777216 * w = push_bit 24 w"
  "push_bit 32 1 * (v :: 64 word) = push_bit 32 v"
  by (simp_all add: push_bit_eq_mult mult.commute)

text \<open>The magnitude that chooses a serial type; when it is below \<open>2 ^ k\<close>, the bits from \<open>k\<close> on agree.\<close>

definition fits :: "nat \<Rightarrow> 64 word \<Rightarrow> bool" where
  "fits k i \<longleftrightarrow> unat (if sint i < 0 then NOT i else i) < 2 ^ k"

lemma fits_bits:
  assumes "fits k i" and "k \<le> n" and "n < 64"
  shows "bit i n = bit i 63"
proof -
  let ?u = "if sint i < 0 then NOT i else i"
  have "drop_bit k ?u = 0" using assms(1) by (simp only: fits_def drop_zero_iff)
  then have "\<not> bit (drop_bit k ?u) (n - k)" by simp
  then have "\<not> bit ?u n" using assms(2) by (simp add: bit_drop_bit_eq)
  moreover have "bit i 63 \<longleftrightarrow> sint i < 0" using bit_last_iff [of i] by simp
  ultimately show ?thesis using assms(3) by (auto simp: bit_not_iff split: if_splits)
qed

lemma put_bytes_simps:
  "put_bytes 1 v [] = [ucast v]" "put_bytes 2 v [] = [ucast (drop_bit 8 v), ucast v]"
  "put_bytes 3 v [] = [ucast (drop_bit 16 v), ucast (drop_bit 8 v), ucast v]"
  "put_bytes 4 v [] = [ucast (drop_bit 24 v), ucast (drop_bit 16 v), ucast (drop_bit 8 v), ucast v]"
  "put_bytes 6 v [] = [ucast (drop_bit 40 v), ucast (drop_bit 32 v), ucast (drop_bit 24 v), ucast (drop_bit 16 v),
     ucast (drop_bit 8 v), ucast v]"
  "put_bytes 8 v [] = [ucast (drop_bit 56 v), ucast (drop_bit 48 v), ucast (drop_bit 40 v), ucast (drop_bit 32 v), ucast (drop_bit 24 v),
     ucast (drop_bit 16 v), ucast (drop_bit 8 v), ucast v]"
proof -
  have m: "(ucast (w AND 0xFF) :: 8 word) = ucast w" for w :: "64 word"
  proof -
    have m8: "(0xFF :: 64 word) = mask 8" by (simp add: mask_eq_exp_minus_1)
    show ?thesis unfolding m8 by (rule bit_word_eqI) (auto simp: word_bits)
  qed
  show "put_bytes 1 v [] = [ucast v]" "put_bytes 2 v [] = [ucast (drop_bit 8 v), ucast v]"
  "put_bytes 3 v [] = [ucast (drop_bit 16 v), ucast (drop_bit 8 v), ucast v]"
  "put_bytes 4 v [] = [ucast (drop_bit 24 v), ucast (drop_bit 16 v), ucast (drop_bit 8 v), ucast v]"
  "put_bytes 6 v [] = [ucast (drop_bit 40 v), ucast (drop_bit 32 v), ucast (drop_bit 24 v), ucast (drop_bit 16 v),
     ucast (drop_bit 8 v), ucast v]"
  "put_bytes 8 v [] = [ucast (drop_bit 56 v), ucast (drop_bit 48 v), ucast (drop_bit 40 v), ucast (drop_bit 32 v), ucast (drop_bit 24 v),
     ucast (drop_bit 16 v), ucast (drop_bit 8 v), ucast v]"
    by (simp_all add: eval_nat_numeral m)
qed

lemmas reader_defs = ONE_BYTE_INT_def TWO_BYTE_INT_def THREE_BYTE_INT_def FOUR_BYTE_INT_def FOUR_BYTE_UINT_def i8_at_def byte_at_def

lemma sign_extended:
  fixes x :: "32 word"
  assumes m: "fits k i" and k: "k < 32" and x: "\<And>n. n < 32 \<Longrightarrow> bit x n = bit i (min k n)"
  shows "scast x = i"
proof (rule bit_word_eqI)
  fix n assume "n < LENGTH(64)"
  then have n: "n < 64" by simp
  have "bit i (min k n) = bit i n" using fits_bits [OF m, of n] fits_bits [OF m, of k] n k by (cases "k \<le> n") auto
  moreover have "min k (min 31 n) = min k n" using k by simp
  ultimately show "bit (scast x :: 64 word) n = bit i n" using n x [of "min 31 n"] by simp
qed

lemma get_one: "fits 7 i \<Longrightarrow> obind (ONE_BYTE_INT (put_bytes 1 i [] @ r)) (\<lambda>x. Ok (scast x)) = Ok i"
  by (simp only: put_bytes_simps)
    (simp add: reader_defs, erule sign_extended, simp_all add: word_bits min_less_iff_disj)

lemma get_two: "fits 15 i \<Longrightarrow> obind (TWO_BYTE_INT (put_bytes 2 i [] @ r)) (\<lambda>x. Ok (scast x)) = Ok i"
proof (simp only: put_bytes_simps, simp add: reader_defs times_push, erule sign_extended, simp)
  fix n :: nat assume "n < 32"
  moreover have "8 + min 7 (n - 8) = min 15 n" if "8 \<le> n" using that by simp
  ultimately show "bit (push_bit 8 (scast (ucast (drop_bit 8 i) :: 8 word)) OR ucast (ucast i :: 8 word) :: 32 word) n = bit i (min 15 n)"
    by (cases "8 \<le> n") (auto simp add: word_bits min_less_iff_disj)
qed

lemma get_three: "fits 23 i \<Longrightarrow> obind (THREE_BYTE_INT (put_bytes 3 i [] @ r)) (\<lambda>x. Ok (scast x)) = Ok i"
proof (simp only: put_bytes_simps, simp add: reader_defs times_push, erule sign_extended, simp)
  fix n :: nat assume "n < 32"
  moreover have "16 + min 7 (n - 16) = min 23 n" if "16 \<le> n" using that by simp
  moreover have "8 + (n - 8) = min 23 n" if "8 \<le> n" "n < 16" using that by simp
  ultimately show "bit (push_bit 16 (scast (ucast (drop_bit 16 i) :: 8 word)) OR push_bit 8 (ucast (ucast (drop_bit 8 i) :: 8 word)) OR
      ucast (ucast i :: 8 word) :: 32 word) n = bit i (min 23 n)"
    by (cases "16 \<le> n"; cases "8 \<le> n") (auto simp add: word_bits min_less_iff_disj)
qed

lemma get_four: "fits 31 i \<Longrightarrow> obind (FOUR_BYTE_INT (put_bytes 4 i [] @ r)) (\<lambda>x. Ok (scast x)) = Ok i"
proof (simp only: put_bytes_simps, simp add: reader_defs times_push, erule sign_extended, simp)
  fix n :: nat assume "n < 32"
  moreover have "24 + min 7 (n - 24) = min 31 n" if "24 \<le> n" using that \<open>n < 32\<close> by simp
  moreover have "k + (n - k) = min 31 n" if "k \<le> n" for k using that \<open>n < 32\<close> by simp
  ultimately show "bit (push_bit 24 (scast (ucast (drop_bit 24 i) :: 8 word)) OR push_bit 16 (ucast (ucast (drop_bit 16 i) :: 8 word)) OR
      push_bit 8 (ucast (ucast (drop_bit 8 i) :: 8 word)) OR ucast (ucast i :: 8 word) :: 32 word) n = bit i (min 31 n)"
    by (cases "24 \<le> n"; cases "16 \<le> n"; cases "8 \<le> n") (auto simp add: word_bits min_less_iff_disj)
qed

lemma four_bytes_word:
  "push_bit 24 (ucast (ucast (drop_bit 24 i) :: 8 word)) OR push_bit 16 (ucast (ucast (drop_bit 16 i) :: 8 word)) OR
   push_bit 8 (ucast (ucast (drop_bit 8 i) :: 8 word)) OR ucast (ucast i :: 8 word) = (ucast (i :: 64 word) :: 32 word)"
proof (rule bit_word_eqI)
  fix n assume "n < LENGTH(32)"
  then have n: "n < 32" by simp
  have b: "bit (ucast i :: 32 word) n = bit i n" using n by (simp add: bit_ucast_iff)
  show "bit (push_bit 24 (ucast (ucast (drop_bit 24 i) :: 8 word)) OR push_bit 16 (ucast (ucast (drop_bit 16 i) :: 8 word)) OR
      push_bit 8 (ucast (ucast (drop_bit 8 i) :: 8 word)) OR ucast (ucast i :: 8 word) :: 32 word) n = bit (ucast i :: 32 word) n"
    unfolding b using n by (cases "24 \<le> n"; cases "16 \<le> n"; cases "8 \<le> n") (auto simp add: word_bits)
qed

lemma get_uint: "FOUR_BYTE_UINT (ucast (drop_bit 24 i) # ucast (drop_bit 16 i) # ucast (drop_bit 8 i) # ucast (i :: 64 word) # r) = Ok (ucast i)"
  by (simp add: reader_defs four_bytes_word)

lemma get_eight: "obind (FOUR_BYTE_UINT (put_bytes 8 i [] @ r)) (\<lambda>x. obind (FOUR_BYTE_UINT (drop 4 (put_bytes 8 i [] @ r)))
    (\<lambda>y. Ok (push_bit 32 (ucast x) + ucast y))) = Ok i"
proof -
  have s: "drop_bit 56 i = drop_bit 24 (drop_bit 32 i)" "drop_bit 48 i = drop_bit 16 (drop_bit 32 i)" "drop_bit 40 i = drop_bit 8 (drop_bit 32 i)"
    by (simp_all add: drop_bit_drop_bit)
  have a: "FOUR_BYTE_UINT (put_bytes 8 i [] @ r) = Ok (ucast (drop_bit 32 i))"
    unfolding put_bytes_simps s append.simps by (rule get_uint)
  have b: "FOUR_BYTE_UINT (drop 4 (put_bytes 8 i [] @ r)) = Ok (ucast i)"
    unfolding put_bytes_simps by (simp add: get_uint)
  let ?x = "push_bit 32 (ucast (ucast (drop_bit 32 i) :: 32 word) :: 64 word)" and ?y = "ucast (ucast i :: 32 word) :: 64 word"
  have "?x AND ?y = 0" by (rule bit_word_eqI) (auto simp: word_bits)
  then have "?x + ?y = ?x OR ?y" by (rule disjunctive_add_eq_or)
  also have "\<dots> = i"
  proof (rule bit_word_eqI)
    fix n assume "n < LENGTH(64)"
    then show "bit (?x OR ?y) n = bit i n" by (cases "32 \<le> n") (auto simp: word_bits bit_ucast_iff)
  qed
  finally show ?thesis unfolding a b obind.simps by simp
qed

lemma get_six: "fits 47 i \<Longrightarrow> obind (FOUR_BYTE_UINT (drop 2 (put_bytes 6 i [] @ r))) (\<lambda>l. obind (TWO_BYTE_INT (put_bytes 6 i [] @ r))
    (\<lambda>h. Ok (ucast l + push_bit 32 1 * scast h))) = Ok i"
proof -
  assume f: "fits 47 i"
  have a: "FOUR_BYTE_UINT (drop 2 (put_bytes 6 i [] @ r)) = Ok (ucast i)"
    unfolding put_bytes_simps by (simp add: get_uint)
  let ?h = "push_bit 8 (scast (ucast (drop_bit 40 i) :: 8 word)) OR ucast (ucast (drop_bit 32 i) :: 8 word) :: 32 word"
  have b: "TWO_BYTE_INT (put_bytes 6 i [] @ r) = Ok ?h"
    unfolding put_bytes_simps by (simp add: reader_defs times_push)
  have h: "bit ?h n = bit i (min 47 (32 + n))" if "n < 32" for n
  proof -
    have "40 + min 7 (n - 8) = min 47 (32 + n)" if "8 \<le> n" using that by simp
    then show ?thesis using that by (cases "8 \<le> n") (auto simp add: word_bits min_less_iff_disj)
  qed
  let ?x = "push_bit 32 (scast ?h :: 64 word)" and ?y = "ucast (ucast i :: 32 word) :: 64 word"
  have "?x AND ?y = 0" by (rule bit_word_eqI) (auto simp: word_bits)
  then have "?x + ?y = ?x OR ?y" by (rule disjunctive_add_eq_or)
  also have "\<dots> = i"
  proof (rule bit_word_eqI)
    fix n assume "n < LENGTH(64)"
    then have n: "n < 64" by simp
    show "bit (?x OR ?y) n = bit i n"
    proof (cases "32 \<le> n")
      case True
      have "bit (scast ?h :: 64 word) (n - 32) = bit ?h (min 31 (n - 32))" using n by auto
      also have "\<dots> = bit i (min 47 (32 + min 31 (n - 32)))" by (rule h) simp
      also have "min 47 (32 + min 31 (n - 32)) = min 47 n" using True by auto
      finally have "bit (scast ?h :: 64 word) (n - 32) = bit i (min 47 n)" .
      also have "\<dots> = bit i n" using fits_bits [OF f, of n] fits_bits [OF f, of 47] n by (cases "47 \<le> n") auto
      finally show ?thesis using True n by (simp add: bit_or_iff bit_pushed bit_u32 del: bit_scast)
    next
      case False
      then show ?thesis by (auto simp: word_bits bit_ucast_iff)
    qed
  qed
  finally show ?thesis unfolding a b obind.simps times_push by (simp add: add.commute)
qed

section \<open>What a cell holds\<close>

datatype sql_value = SQL_Null | SQL_Integer "64 word" | SQL_Real "64 word" | SQL_Text "8 word list" | SQL_Blob "8 word list"

definition content :: "cell \<Rightarrow> 8 word list" where
  "content c = take (unat (c_n c)) (z_bytes c)"

definition value_of :: "cell \<Rightarrow> sql_value" where
  "value_of c =
     (if has c MEM_Null then SQL_Null else if has c MEM_Int then SQL_Integer (c_u c)
      else if has c MEM_Real then SQL_Real (c_u c)
      else if has c MEM_Str then SQL_Text (content c) else SQL_Blob (content c))"

text \<open>A NaN comes back as NULL, everything else as it was.\<close>

fun read_back :: "sql_value \<Rightarrow> sql_value" where
  "read_back (SQL_Real x) = (if sqlite3IsNaN x then SQL_Null else SQL_Real x)"
| "read_back v = v"

text \<open>A cell that holds a value: text and blobs are in memory, shorter than SQLite's limit, and have no tail of zeros.\<close>

definition storable :: "cell \<Rightarrow> bool" where
  "storable c \<longleftrightarrow> \<not> has c MEM_Zero \<and>
     (has c MEM_Null \<or> has c MEM_Int \<or> has c MEM_Real \<or> unat (c_n c) \<le> length (z_bytes c) \<and> unat (c_n c) < 2 ^ 30)"

lemma flags_disjoint [simp]:
  "has (c\<lparr>c_flags := MEM_Int\<rparr>) MEM_Null = False" "has (c\<lparr>c_flags := MEM_Int\<rparr>) MEM_Int = True"
  "has (c\<lparr>c_flags := MEM_Null\<rparr>) MEM_Null = True"
  "has (c\<lparr>c_flags := MEM_Real\<rparr>) MEM_Null = False" "has (c\<lparr>c_flags := MEM_Real\<rparr>) MEM_Int = False" "has (c\<lparr>c_flags := MEM_Real\<rparr>) MEM_Real = True"
  by (simp_all add: has_def flag_defs)

lemma value_of_get [simp]:
  "value_of (snd (get_int l i c)) = SQL_Integer i" "value_of (c\<lparr>c_flags := MEM_Null\<rparr>) = SQL_Null"
  by (simp_all add: value_of_def get_int_def)

lemma value_of_ephem:
  "value_of (c\<lparr>c_z := Elsewhere bs, c_n := n, c_flags := MEM_Str OR MEM_Ephem\<rparr>) = SQL_Text (take (unat n) bs)"
  "value_of (c\<lparr>c_z := Elsewhere bs, c_n := n, c_flags := MEM_Blob OR MEM_Ephem\<rparr>) = SQL_Blob (take (unat n) bs)"
  by (simp_all add: value_of_def has_def flag_defs content_def z_bytes_def)

section \<open>One value\<close>

lemma small_sizes: "12 \<le> k \<Longrightarrow> k < 128 \<Longrightarrow> sqlite3SmallTypeSizes ! k = (k - 12) div 2"
proof -
  have "list_all (\<lambda>k. sqlite3SmallTypeSizes ! k = (k - 12) div 2) [12..<128]"
    by code_simp
  then have "\<forall>k \<in> set [12..<128]. sqlite3SmallTypeSizes ! k = (k - 12) div 2" by (simp only: list_all_iff)
  moreover assume "12 \<le> k" "k < 128"
  then have "k \<in> set [12..<128]" by (simp only: set_upt atLeastLessThan_iff)
  ultimately show ?thesis by (rule bspec)
qed

lemma sizes_simps:
  "sqlite3SmallTypeSizes ! 0 = 0" "sqlite3SmallTypeSizes ! Suc 0 = 1" "sqlite3SmallTypeSizes ! 2 = 2" "sqlite3SmallTypeSizes ! 3 = 3"
  "sqlite3SmallTypeSizes ! 4 = 4" "sqlite3SmallTypeSizes ! 5 = 6" "sqlite3SmallTypeSizes ! 6 = 8" "sqlite3SmallTypeSizes ! 7 = 8"
  "sqlite3SmallTypeSizes ! 8 = 0" "sqlite3SmallTypeSizes ! 9 = 0"
  by (simp_all add: sqlite3SmallTypeSizes_def)

text \<open>
  What is written for a value under a serial type: its length is the one of the type, and the reader gives the
  value back, whatever follows.
\<close>

definition carries :: "cell \<Rightarrow> 32 word \<Rightarrow> 32 word \<Rightarrow> bool" where
  "carries c t len \<longleftrightarrow>
     (\<exists>bs. sqlite3VdbeSerialPut c t = Ok bs \<and> length bs = unat len \<and> sqlite3VdbeSerialTypeLen t = unat len \<and>
        (\<forall>r e. \<exists>c'. sqlite3VdbeSerialGet (bs @ r) t e = Ok (unat len, c') \<and> value_of c' = read_back (value_of c)))"

lemma length_put_bytes [simp]: "length (put_bytes k v bs) = k + length bs"
  by (induction k arbitrary: v bs) simp_all

declare put_bytes.simps [simp del]

lemma obind_get:
  "obind m (\<lambda>x. Ok (f x)) = Ok i \<Longrightarrow> obind m (\<lambda>x. Ok (get_int l (f x) c)) = Ok (get_int l i c)"
  by (cases m) simp_all

lemma not_128_1: "\<not> 128 \<le> (1 :: 32 word)"
  by (simp add: word_le_nat_alt)

lemma carries_get_int:
  assumes "sqlite3VdbeSerialPut c t = Ok (put_bytes k (c_u c) [])" and "unat len = k" and "sqlite3VdbeSerialTypeLen t = k"
    and "\<And>r e. sqlite3VdbeSerialGet (put_bytes k (c_u c) [] @ r) t e = Ok (get_int k (c_u c) e)"
    and "has c MEM_Int" "\<not> has c MEM_Null"
  shows "carries c t len"
proof -
  have "value_of c = SQL_Integer (c_u c)" using assms(5,6) by (simp add: value_of_def)
  then show ?thesis using assms(1-4) value_of_get(1) [of k "c_u c"] unfolding carries_def
    by (intro exI [of _ "put_bytes k (c_u c) []"]) (simp add: get_int_def)
qed

lemma carries_int:
  assumes "has c MEM_Int" "\<not> has c MEM_Null"
  shows "fits 7 (c_u c) \<Longrightarrow> carries c 1 1" "fits 15 (c_u c) \<Longrightarrow> carries c 2 2" "fits 23 (c_u c) \<Longrightarrow> carries c 3 3"
    "fits 31 (c_u c) \<Longrightarrow> carries c 4 4" "fits 47 (c_u c) \<Longrightarrow> carries c 5 6" "carries c 6 8"
    "c_u c = 0 \<Longrightarrow> carries c 8 0" "c_u c = 1 \<Longrightarrow> carries c 9 0"
proof -
  note d = sqlite3VdbeSerialPut_def sqlite3VdbeSerialTypeLen_def sqlite3VdbeSerialGet_def sizes_simps not_128_1 put_bytes.simps(1)
  note I = carries_get_int [OF _ _ _ _ assms]
  show "carries c 1 1" if "fits 7 (c_u c)"
    by (rule I [where k = "Suc 0"]) (use obind_get [OF get_one [OF that]] in \<open>simp_all add: d\<close>)
  show "carries c 2 2" if "fits 15 (c_u c)"
    by (rule I [where k = 2]) (use obind_get [OF get_two [OF that]] in \<open>simp_all add: d\<close>)
  show "carries c 3 3" if "fits 23 (c_u c)"
    by (rule I [where k = 3]) (use obind_get [OF get_three [OF that]] in \<open>simp_all add: d\<close>)
  show "carries c 4 4" if "fits 31 (c_u c)"
    by (rule I [where k = 4]) (use obind_get [OF get_four [OF that]] in \<open>simp_all add: d\<close>)
  show "carries c 5 6" if "fits 47 (c_u c)"
  proof -
    have "obind (FOUR_BYTE_UINT (drop 2 (put_bytes 6 (c_u c) [] @ r))) (\<lambda>l. obind (TWO_BYTE_INT (put_bytes 6 (c_u c) [] @ r))
        (\<lambda>h. Ok (get_int 6 (ucast l + push_bit 32 1 * scast h) e))) = Ok (get_int 6 (c_u c) e)" for r e
      using get_six [OF that, of r] by (auto simp: obind_Ok_iff)
    then show ?thesis by (intro I [where k = 6]) (simp_all add: d del: drop_append)
  qed
  show "carries c 6 8"
  proof -
    have "serialGet (put_bytes 8 (c_u c) [] @ r) 6 e = Ok (get_int 8 (c_u c) e)" for r e
    proof -
      obtain x y where "FOUR_BYTE_UINT (put_bytes 8 (c_u c) [] @ r) = Ok x"
        "FOUR_BYTE_UINT (drop 4 (put_bytes 8 (c_u c) [] @ r)) = Ok y" "push_bit 32 (ucast x) + ucast y = c_u c"
        using get_eight [of "c_u c" r] by (auto simp: obind_Ok_iff)
      then show ?thesis by (simp add: serialGet_def Let_def get_int_def del: drop_append)
    qed
    then show ?thesis by (intro I [where k = 8]) (simp_all add: d)
  qed
  show "carries c 8 0" if "c_u c = 0" by (rule I [where k = 0]) (use that in \<open>simp_all add: d\<close>)
  show "carries c 9 0" if "c_u c = 1" by (rule I [where k = 0]) (use that in \<open>simp_all add: d\<close>)
qed

lemma carries_real:
  assumes "has c MEM_Real" "\<not> has c MEM_Null" "\<not> has c MEM_Int"
  shows "carries c 7 8"
proof -
  have v: "value_of c = SQL_Real (c_u c)" using assms by (simp add: value_of_def)
  have "serialGet (put_bytes 8 (c_u c) [] @ r) 7 e =
      Ok (8, e\<lparr>c_u := c_u c, c_flags := (if sqlite3IsNaN (c_u c) then MEM_Null else MEM_Real)\<rparr>)" for r e
  proof -
    obtain x y where "FOUR_BYTE_UINT (put_bytes 8 (c_u c) [] @ r) = Ok x"
      "FOUR_BYTE_UINT (drop 4 (put_bytes 8 (c_u c) [] @ r)) = Ok y" "push_bit 32 (ucast x) + ucast y = c_u c"
      using get_eight [of "c_u c" r] by (auto simp: obind_Ok_iff)
    then show ?thesis by (simp add: serialGet_def Let_def del: drop_append)
  qed
  moreover have "value_of (e\<lparr>c_u := c_u c, c_flags := (if sqlite3IsNaN (c_u c) then MEM_Null else MEM_Real)\<rparr>) =
      read_back (value_of c)" for e
    by (cases "sqlite3IsNaN (c_u c)") (simp_all add: assms value_of_def)
  ultimately show ?thesis
    by (auto simp: carries_def sqlite3VdbeSerialPut_def sqlite3VdbeSerialTypeLen_def sqlite3VdbeSerialGet_def sizes_simps)
qed

lemma carries_null: "has c MEM_Null \<Longrightarrow> carries c 0 0"
  by (auto simp: carries_def sqlite3VdbeSerialPut_def sqlite3VdbeSerialTypeLen_def sqlite3VdbeSerialGet_def sizes_simps)
    (simp add: value_of_def)

text \<open>The type of text and blobs, as a number.\<close>

lemma text_type:
  fixes n :: "32 word"
  assumes "unat n < 2 ^ 30" and t: "t = n * 2 + 12 + (if b then 1 else 0)"
  shows "unat t = 2 * unat n + 12 + (if b then 1 else 0)" "(t - 12) div 2 = n" "t AND 1 = 0 \<longleftrightarrow> \<not> b"
proof -
  define m where "m = unat n"
  have n: "n = word_of_nat m" by (simp add: m_def)
  have m: "m < 2 ^ 30" using assms(1) by (simp add: m_def)
  have t2: "t = word_of_nat (2 * m + 12 + (if b then 1 else 0))" by (simp add: t n)
  show u: "unat t = 2 * unat n + 12 + (if b then 1 else 0)"
    using m unfolding m_def [symmetric] t2 by (subst word_small) auto
  have "t - 12 = word_of_nat (2 * m + (if b then 1 else 0))" by (simp add: t n)
  then have "unat (t - 12) = 2 * m + (if b then 1 else 0)" using m by (simp only:) (subst word_small, auto)
  then have "unat ((t - 12) div 2) = m" by (simp add: unat_div)
  then show "(t - 12) div 2 = n" by (simp add: m_def word_unat_eq_iff)
  have "t AND 1 = t mod 2" by (rule and_one_eq)
  moreover have "unat (t mod 2) = unat t mod 2" by (simp add: unat_mod)
  moreover have "unat t mod 2 = 0 \<longleftrightarrow> \<not> b" using u by auto
  ultimately show "t AND 1 = 0 \<longleftrightarrow> \<not> b" by (metis unat_0 unat_eq_zero)
qed

lemma carries_bytes:
  assumes "\<not> has c MEM_Null" "\<not> has c MEM_Int" "\<not> has c MEM_Real" "unat (c_n c) \<le> length (z_bytes c)" "unat (c_n c) < 2 ^ 30"
  shows "carries c (c_n c * 2 + 12 + (if has c MEM_Str then 1 else 0)) (c_n c)"
proof -
  define t where "t = c_n c * 2 + 12 + (if has c MEM_Str then 1 else 0)"
  note u = text_type [OF assms(5) t_def]
  have ge: "\<not> t \<le> 7" "12 \<le> t" using u(1) by (simp_all add: word_le_nat_alt)
  have ne: "t \<noteq> 10" "t \<noteq> 11" "t \<noteq> 0" "t \<noteq> 1" "t \<noteq> 2" "t \<noteq> 3" "t \<noteq> 4" "t \<noteq> 5" "t \<noteq> 6" "t \<noteq> 7" "t \<noteq> 8" "t \<noteq> 9"
    using ge(2) by (auto simp: word_le_nat_alt)
  have len: "sqlite3VdbeSerialTypeLen t = unat (c_n c)"
  proof (cases "128 \<le> t")
    case False
    then show ?thesis using u(1) small_sizes [of "unat t"] by (simp add: sqlite3VdbeSerialTypeLen_def word_le_nat_alt)
  qed (simp add: sqlite3VdbeSerialTypeLen_def u(2))
  have v: "value_of c = (if has c MEM_Str then SQL_Text (content c) else SQL_Blob (content c))"
    using assms(1-3) by (simp add: value_of_def)
  have l: "length (content c) = unat (c_n c)" using assms(4) by (simp add: content_def)
  have "sqlite3VdbeSerialPut c t = Ok (content c)"
    using ge assms(4) by (simp add: sqlite3VdbeSerialPut_def content_def)
  moreover have "\<exists>c'. sqlite3VdbeSerialGet (content c @ r) t e = Ok (unat (c_n c), c') \<and> value_of c' = read_back (value_of c)" for r e
    using ne u(2,3) l by (auto simp: sqlite3VdbeSerialGet_def Let_def value_of_ephem v)
  ultimately show ?thesis unfolding t_def [symmetric] carries_def using l len by auto
qed

abbreviation magnitude :: "64 word \<Rightarrow> 64 word" where
  "magnitude i \<equiv> (if sint i < 0 then NOT i else i)"

lemma fits_iff:
  "magnitude i \<le> 127 \<longleftrightarrow> fits 7 i" "magnitude i \<le> 32767 \<longleftrightarrow> fits 15 i" "magnitude i \<le> 8388607 \<longleftrightarrow> fits 23 i"
  "magnitude i \<le> 2147483647 \<longleftrightarrow> fits 31 i" "magnitude i \<le> 0x7FFFFFFFFFFF \<longleftrightarrow> fits 47 i"
  by (auto simp: fits_def word_le_nat_alt)

lemma and_one_cases: "(i :: 64 word) AND 1 = i \<longleftrightarrow> i = 0 \<or> i = 1"
proof -
  have "i AND 1 = of_bool (odd i)" by (simp add: and_one_eq mod_2_eq_odd)
  then show ?thesis by auto
qed

text \<open>Every value that can be stored is carried by the serial type that is chosen for it.\<close>

lemma storable_carried:
  assumes "storable c" and "sqlite3VdbeSerialType c ff = (t, len)"
  shows "carries c t len"
proof -
  consider (null) "has c MEM_Null" | (int) "\<not> has c MEM_Null" "has c MEM_Int"
    | (real) "\<not> has c MEM_Null" "\<not> has c MEM_Int" "has c MEM_Real" | (bytes) "\<not> has c MEM_Null" "\<not> has c MEM_Int" "\<not> has c MEM_Real"
    by blast
  then show ?thesis
  proof cases
    case null
    then show ?thesis using carries_null assms(2) by (auto simp: sqlite3VdbeSerialType_def)
  next
    case int
    have z: "carries c (8 + ucast (magnitude (c_u c))) 0" if "c_u c AND 1 = c_u c"
      using that carries_int(7,8) [OF int(2,1)] unfolding and_one_cases by auto
    show ?thesis using assms(2) int carries_int(1-6) [OF int(2,1)] z fits_iff [of "c_u c"]
      by (auto simp: sqlite3VdbeSerialType_def Let_def split: if_splits)
  next
    case real
    then show ?thesis using carries_real assms(2) by (auto simp: sqlite3VdbeSerialType_def)
  next
    case bytes
    then show ?thesis using carries_bytes [OF bytes] assms by (auto simp: sqlite3VdbeSerialType_def storable_def Let_def)
  qed
qed

section \<open>Types in the header\<close>

lemma len_le: "0 < k \<Longrightarrow> sqlite3VarintLen v \<le> k \<longleftrightarrow> unat v < 2 ^ (7 * k)"
proof
  assume k: "0 < k"
  {
    assume "sqlite3VarintLen v \<le> k"
    then have "(2 :: nat) ^ (7 * sqlite3VarintLen v) \<le> 2 ^ (7 * k)" by (intro power_increasing) simp_all
    then show "unat v < 2 ^ (7 * k)" using len_zero [of v] unfolding drop_zero_iff by linarith
  next
    assume "unat v < 2 ^ (7 * k)"
    then show "sqlite3VarintLen v \<le> k" using k by (intro len_least) (simp_all only: drop_zero_iff)
  }
qed

lemma unat_ucast_32 [simp]: "unat (ucast (t :: 32 word) :: 64 word) = unat t"
  by (simp add: unsigned_ucast_eq take_bit_nat_eq_self_iff) (rule order_less_trans [OF unsigned_less], simp)

lemma put_varint32:
  "length (putVarint32 t) = (if t \<le> 127 then 1 else sqlite3VarintLen (ucast t))"
  "\<not> t \<le> 127 \<Longrightarrow> putVarint32 t = leading_groups (sqlite3VarintLen (ucast t)) (ucast t)"
  "sqlite3VarintLen (ucast t) \<le> 8"
proof -
  have "unat t < 2 ^ LENGTH(32)" by (rule unsigned_less)
  then have "unat t < 2 ^ (7 * 8)" by simp
  then show le: "sqlite3VarintLen (ucast t) \<le> 8" by (simp add: len_le)
  show l: "putVarint32 t = leading_groups (sqlite3VarintLen (ucast t)) (ucast t)" if "\<not> t \<le> 127"
    using that put_small [OF le] by (simp add: putVarint32_def word_less_nat_alt word_le_nat_alt)
  show "length (putVarint32 t) = (if t \<le> 127 then 1 else sqlite3VarintLen (ucast t))"
    using l by (cases "t \<le> 127") (simp_all add: putVarint32_def word_less_nat_alt word_le_nat_alt)
qed

lemma high_byte: "(ucast (b :: 8 word) :: 32 word) < 0x80 \<longleftrightarrow> \<not> bit b 7"
proof -
  have "unat b < 2 ^ LENGTH(8)" by (rule unsigned_less)
  then have u: "unat b < 256" by simp
  have "bit b 7 \<longleftrightarrow> bit (unat b) 7" by (simp add: bit_unsigned_iff)
  also have "\<dots> \<longleftrightarrow> odd (unat b div 128)" by (simp add: bit_iff_odd)
  also have "\<dots> \<longleftrightarrow> 128 \<le> unat b"
  proof -
    have "x div 128 = 1" if "128 \<le> x" "x < 256" for x :: nat using that by (simp add: div_nat_eqI)
    then show ?thesis using u by (cases "128 \<le> unat b") simp_all
  qed
  finally show ?thesis using take_bit_nat_eq_self [of "unat b" 32] u by (simp add: word_less_nat_alt unsigned_ucast_eq not_le)
qed

lemma flagged_byte: "bit (w OR 0x80 :: 8 word) 7"
proof -
  have "bit (push_bit 7 1 :: 8 word) 7" by (simp only: bit_push_bit_iff) simp
  then show ?thesis by (simp only: const_80(1) bit_or_iff) simp
qed

lemma get_put_varint32: "getVarint32 (putVarint32 t @ r) = Ok (t, length (putVarint32 t))"
proof (cases "t \<le> 127")
  case True
  then have "putVarint32 t = [ucast t]" by (simp add: putVarint32_def word_less_nat_alt word_le_nat_alt)
  moreover have "ucast (ucast t :: 8 word) = t"
  proof -
    have "unat t \<le> 127" using True by (simp add: word_le_nat_alt)
    then have "unat (ucast (ucast t :: 8 word) :: 32 word) = unat t"
      by (simp add: unsigned_ucast_eq unsigned_take_bit_eq take_bit_nat_eq_self_iff)
    then show ?thesis by (simp add: word_unat_eq_iff)
  qed
  ultimately show ?thesis using True by (simp add: getVarint32_def byte_at_def word_less_nat_alt word_le_nat_alt)
next
  case False
  let ?v = "ucast t :: 64 word"
  let ?n = "sqlite3VarintLen ?v"
  note p = put_varint32 [of t]
  have "\<not> ?n \<le> 1" using False by (simp add: len_le word_le_nat_alt)
  then have "2 \<le> ?n" by linarith
  from le_Suc_ex [OF this] obtain k where "?n = 2 + k" by blast
  then have k: "?n = Suc (Suc k)" by simp
  define b0 where "b0 = ucast (drop_bit (7 * Suc k) ?v AND 0x7F) OR (0x80 :: 8 word)"
  define bs where "bs = leading_groups (Suc k) ?v"
  have b: "putVarint32 t = b0 # bs" "bit b0 7"
    using p(2) [OF False] flagged_byte by (simp_all add: k b0_def bs_def)
  have "sqlite3GetVarint32 (b0 # bs @ r) = obind (sqlite3GetVarint (b0 # bs @ r)) (\<lambda>x. Ok (saturate32 x))"
    by (rule varint32_saturates [OF b(2)])
  moreover have "sqlite3GetVarint (b0 # bs @ r) = Ok (?v, ?n)"
    using get_short [OF p(3), of r] unfolding p(2) [OF False, symmetric] b(1) by simp
  ultimately show ?thesis using b(1) False p(1) b(2) high_byte [of b0]
    by (simp add: getVarint32_def byte_at_def)
qed

text \<open>The size of the header counts the varint of that size itself.\<close>

lemma unat_nat64: "k < 2 ^ 64 \<Longrightarrow> unat (word_of_nat k :: 64 word) = k"
  by (simp add: unat_of_nat take_bit_nat_eq_self_iff)

lemma nat_len: "0 < k \<Longrightarrow> x < 2 ^ 32 \<Longrightarrow> sqlite3VarintLen (word_of_nat x) \<le> k \<longleftrightarrow> x < 2 ^ (7 * k)"
  by (simp add: len_le unat_nat64)

lemma put_nat: "x < 2 ^ 32 \<Longrightarrow>
    length (putVarint32 (word_of_nat x)) = (if x \<le> 127 then 1 else sqlite3VarintLen (word_of_nat x))"
proof -
  assume x: "x < 2 ^ 32"
  have u: "unat (word_of_nat x :: 32 word) = x" using x by (rule word_small)
  have "(ucast (word_of_nat x :: 32 word) :: 64 word) = word_of_nat x"
    using x by (simp add: word_unat_eq_iff unat_nat64 u)
  then show ?thesis by (simp add: put_varint32(1) word_le_nat_alt u)
qed

lemma varint_len_ge: "i \<le> varint_len i v"
  by (induction i v rule: varint_len.induct) (subst varint_len.simps, force simp: Let_def)

lemma header_size_nat:
  assumes "s < 2 ^ 20"
  shows "\<exists>h. header_size (int s) = int h \<and> h = s + length (putVarint32 (word_of_nat h)) \<and> h < 2 ^ 21"
proof (cases "s \<le> 126")
  case True
  then show ?thesis using put_nat [of "s + 1"] by (intro exI [of _ "s + 1"]) (simp add: header_size_def)
next
  case False
  let ?L = "\<lambda>x. sqlite3VarintLen (word_of_nat x)"
  have le: "?L x \<le> k \<longleftrightarrow> x < 2 ^ (7 * k)" if "0 < k" "x < 2 ^ 32" for x k using nat_len that by simp
  have pos: "1 \<le> ?L x" for x unfolding sqlite3VarintLen_def by (rule varint_len_ge)
  have hs: "header_size (int s) = (let h = s + ?L s in if ?L s < ?L h then int (h + 1) else int h)"
    using False by (simp add: header_size_def Let_def flip: of_nat_add)
  consider "s = 127" | "128 \<le> s" "s < 2 ^ 14" | "2 ^ 14 \<le> s" using False by linarith
  then show ?thesis
  proof cases
    case 1
    have "?L 127 = 1" using le [of 1 127] pos [of 127] by simp
    moreover have "?L 128 = 2" using le [of 1 128] le [of 2 128] by simp
    moreover have "?L 129 = 2" using le [of 1 129] le [of 2 129] by simp
    ultimately show ?thesis using hs 1 put_nat [of 129] by (intro exI [of _ 129]) simp
  next
    case 2
    have l: "?L s = 2" using le [of 1 s] le [of 2 s] 2 by simp
    have l2: "?L x = (if x < 2 ^ 14 then 2 else 3)" if "128 \<le> x" "x < 2 ^ 21" for x
      using le [of 1 x] le [of 2 x] le [of 3 x] that by (cases "x < 2 ^ 14") (simp_all add: order_antisym_conv)
    show ?thesis using hs l l2 [of "s + 2"] l2 [of "s + 3"] put_nat [of "s + 2"] put_nat [of "s + 3"] 2
      by (intro exI [of _ "if s + 2 < 2 ^ 14 then s + 2 else s + 3"]) (simp add: Let_def)
  next
    case 3
    have l3: "?L x = 3" if "2 ^ 14 \<le> x" "x < 2 ^ 21" for x
      using le [of 2 x] le [of 3 x] that by simp
    show ?thesis using hs l3 [of s] l3 [of "s + 3"] put_nat [of "s + 3"] 3 assms
      by (intro exI [of _ "s + 3"]) (simp add: Let_def)
  qed
qed

lemma put_nonempty: "0 < length (putVarint32 t)"
  by (simp add: put_varint32(1) sqlite3VarintLen_def Suc_le_lessD [OF varint_len_ge, simplified])

section \<open>A row as bytes\<close>

definition field_type :: "int \<Rightarrow> cell \<Rightarrow> 32 word" where
  "field_type ff c = fst (sqlite3VdbeSerialType c ff)"

definition field_bytes :: "int \<Rightarrow> cell \<Rightarrow> 8 word list" where
  "field_bytes ff c = (case sqlite3VdbeSerialPut c (field_type ff c) of Ok bs \<Rightarrow> bs | UB _ \<Rightarrow> [])"

definition type_bytes :: "int \<Rightarrow> cell \<Rightarrow> 8 word list" where
  "type_bytes ff c = putVarint32 (field_type ff c)"

definition types_of :: "int \<Rightarrow> cell list \<Rightarrow> 8 word list" where
  "types_of ff cs = concat (map (type_bytes ff) cs)"

definition data_of :: "int \<Rightarrow> cell list \<Rightarrow> 8 word list" where
  "data_of ff cs = concat (map (field_bytes ff) cs)"

text \<open>The record of a row: the size of the header, the types, and the data.\<close>

definition header_of :: "int \<Rightarrow> cell list \<Rightarrow> nat" where
  "header_of ff cs = nat (header_size (int (length (types_of ff cs))))"

definition record_of :: "int \<Rightarrow> cell list \<Rightarrow> 8 word list" where
  "record_of ff cs = putVarint32 (word_of_nat (header_of ff cs)) @ types_of ff cs @ data_of ff cs"

definition typed :: "int \<Rightarrow> cell \<Rightarrow> cell" where
  "typed ff c = c\<lparr>c_uTemp := field_type ff c\<rparr>"

lemma typed_uTemp [simp]: "c_uTemp (typed ff c) = field_type ff c"
  by (simp add: typed_def)

lemma row_simps [simp]:
  "types_of ff [] = []" "types_of ff (c # cs) = type_bytes ff c @ types_of ff cs"
  "data_of ff [] = []" "data_of ff (c # cs) = field_bytes ff c @ data_of ff cs"
  by (simp_all add: types_of_def data_of_def)

lemma row_append: "types_of ff (cs @ ds) = types_of ff cs @ types_of ff ds" "data_of ff (cs @ ds) = data_of ff cs @ data_of ff ds"
  by (simp_all add: types_of_def data_of_def)

lemma field_facts:
  assumes "storable c"
  shows "sqlite3VdbeSerialType c ff = (field_type ff c, word_of_nat (length (field_bytes ff c)))"
    and "unat (snd (sqlite3VdbeSerialType c ff)) = length (field_bytes ff c)"
    and "sqlite3VdbeSerialPut c (field_type ff c) = Ok (field_bytes ff c)"
    and "\<exists>c'. sqlite3VdbeSerialGet (field_bytes ff c @ r) (field_type ff c) e = Ok (length (field_bytes ff c), c') \<and>
           value_of c' = read_back (value_of c)"
proof -
  obtain t len where t: "sqlite3VdbeSerialType c ff = (t, len)" by force
  from storable_carried [OF assms t] obtain bs where bs: "sqlite3VdbeSerialPut c t = Ok bs" "length bs = unat len"
    "\<And>r e. \<exists>c'. sqlite3VdbeSerialGet (bs @ r) t e = Ok (unat len, c') \<and> value_of c' = read_back (value_of c)"
    unfolding carries_def by blast
  have ft: "field_type ff c = t" and fb: "field_bytes ff c = bs" using t bs(1) by (simp_all add: field_type_def field_bytes_def)
  show "sqlite3VdbeSerialType c ff = (field_type ff c, word_of_nat (length (field_bytes ff c)))"
    "unat (snd (sqlite3VdbeSerialType c ff)) = length (field_bytes ff c)"
    "sqlite3VdbeSerialPut c (field_type ff c) = Ok (field_bytes ff c)"
    using t bs(1,2) ft fb by simp_all
  show "\<exists>c'. sqlite3VdbeSerialGet (field_bytes ff c @ r) (field_type ff c) e = Ok (length (field_bytes ff c), c') \<and>
      value_of c' = read_back (value_of c)" using bs(2,3) ft fb by simp
qed

lemma z_bytes_uTemp [simp]: "z_bytes (c\<lparr>c_uTemp := x\<rparr>) = z_bytes c"
  by (simp add: z_bytes_def split: place.split)

lemma put_uTemp [simp]: "sqlite3VdbeSerialPut (c\<lparr>c_uTemp := x\<rparr>) t = sqlite3VdbeSerialPut c t"
  by (simp add: sqlite3VdbeSerialPut_def)

lemma size_loop_storable:
  "list_all storable cs \<Longrightarrow>
   size_loop al ff k cs nData nHdr nZero = Ok (SQLITE_OK, map (typed ff) cs, k + length cs,
     nData + int (length (data_of ff cs)), nHdr + int (length (types_of ff cs)), nZero)"
proof (induction cs arbitrary: k nData nHdr)
  case (Cons c cs)
  then have c: "storable c" by simp
  have z: "\<not> has c MEM_Zero" using c by (simp add: storable_def)
  let ?len = "snd (sqlite3VdbeSerialType c ff)"
  have sf: "size_field al ff k c nData nZero = Ok (SQLITE_OK, c, field_type ff c, ?len, nZero)"
    using z by (simp add: size_field_def field_type_def split_beta)
  have u: "uint ?len = int (length (field_bytes ff c))" using field_facts(2) [OF c, of ff] by (simp add: uint_nat)
  have h: "(if field_type ff c \<le> 127 then 1 else int (sqlite3VarintLen (ucast (field_type ff c)))) = int (length (type_bytes ff c))"
    by (simp add: type_bytes_def put_varint32(1))
  show ?case using Cons.IH [of "Suc k" "nData + uint ?len" "nHdr + int (length (type_bytes ff c))"] Cons.prems
    by (simp add: sf h Let_def typed_def) (simp add: u)
qed simp

lemma write_fields_storable:
  assumes "list_all storable cs" and "length (types_of ff cs) = length U" and "length (data_of ff cs) \<le> length V"
  shows "write_fields (map (typed ff) cs) (A @ U @ B @ V) (length A) (length (A @ U @ B)) =
    Ok (A @ types_of ff cs @ B @ data_of ff cs @ drop (length (data_of ff cs)) V)"
  using assms
proof (induction cs arbitrary: A U B V)
  case (Cons c cs)
  then have c: "storable c" "list_all storable cs" by simp_all
  let ?t = "type_bytes ff c" and ?d = "field_bytes ff c"
  have lt: "length ?t \<le> length U" and ld: "length ?d \<le> length V" using Cons.prems(2,3) by simp_all
  define U2 where "U2 = drop (length ?t) U"
  define V2 where "V2 = drop (length ?d) V"
  have w1: "write_at (A @ U @ B @ V) (length A) ?t = Ok (A @ ?t @ U2 @ B @ V)"
    using lt by (simp add: write_at_def U2_def)
  have lu: "length (?t @ U2) = length U" using lt by (simp add: U2_def)
  have w2: "write_at (A @ ?t @ U2 @ B @ V) (length (A @ U @ B)) ?d = Ok (A @ ?t @ U2 @ B @ ?d @ V2)"
  proof -
    have l: "length (A @ U @ B) = length (A @ ?t @ U2 @ B)" using lu by simp
    have "write_at ((A @ ?t @ U2 @ B) @ V) (length (A @ ?t @ U2 @ B)) ?d = Ok ((A @ ?t @ U2 @ B) @ ?d @ V2)"
      using ld unfolding write_at_def V2_def by simp
    then show ?thesis unfolding l by simp
  qed
  have put: "sqlite3VdbeSerialPut (typed ff c) (field_type ff c) = Ok ?d"
    using field_facts(3) [OF c(1), of ff] by (simp add: typed_def)
  have ih: "write_fields (map (typed ff) cs) ((A @ ?t) @ U2 @ (B @ ?d) @ V2) (length (A @ ?t)) (length ((A @ ?t) @ U2 @ (B @ ?d))) =
      Ok ((A @ ?t) @ types_of ff cs @ (B @ ?d) @ data_of ff cs @ drop (length (data_of ff cs)) V2)"
    using c(2) Cons.prems(2,3) by (intro Cons.IH) (simp_all add: U2_def V2_def)
  have j: "length ((A @ ?t) @ U2 @ (B @ ?d)) = length (A @ U @ B) + length ?d" using lu by simp
  have V2: "drop (length (data_of ff cs)) V2 = drop (length (data_of ff (c # cs))) V" by (simp add: V2_def add.commute)
  show ?case using w1 w2 put ih [unfolded j V2]
    by (simp add: type_bytes_def [symmetric] del: row_simps(4)) simp
qed simp

lemma unpack_storable:
  assumes "list_all storable cs" and "length ms = length cs" and "cs \<noteq> []"
    and "drop (unat idx) key = types_of ff cs @ R" and "unat szHdr = unat idx + length (types_of ff cs)"
    and "drop d key = data_of ff cs @ S" and "int (d + length (data_of ff cs)) \<le> nKey" and "nKey < 2 ^ 31"
  shows "\<exists>vs. unpack_loop key nKey szHdr ms idx (int d) = Ok vs \<and> map value_of vs = map (read_back \<circ> value_of) cs"
  using assms
proof (induction cs arbitrary: ms idx d)
  case (Cons c cs)
  then obtain m ms' where ms: "ms = m # ms'" "length ms' = length cs" by (cases ms) auto
  have c: "storable c" "list_all storable cs" using Cons.prems(1) by simp_all
  let ?t = "type_bytes ff c" and ?d = "field_bytes ff c"
  have tl: "0 < length ?t" unfolding type_bytes_def by (rule put_nonempty)
  have u: "unat szHdr = unat idx + length ?t + length (types_of ff cs)" using Cons.prems(5) by simp
  have lt: "idx < szHdr" using u tl by (simp add: word_less_nat_alt)
  have g: "getVarint32 (drop (unat idx) key) = Ok (field_type ff c, length ?t)"
    using Cons.prems(4) get_put_varint32 [of "field_type ff c"] by (simp add: type_bytes_def)
  obtain v where v: "sqlite3VdbeSerialGet (drop d key) (field_type ff c) (blank_cell m) = Ok (length ?d, v)"
    "value_of v = read_back (value_of c)"
    using field_facts(4) [OF c(1), of ff "data_of ff cs @ S" "blank_cell m"] Cons.prems(6) by auto
  have dk: "int d \<le> nKey" using Cons.prems(7) by simp
  show ?case
  proof (cases "cs = []")
    case True
    then show ?thesis using ms lt dk g v by simp
  next
    case False
    have nx: "unat (idx + of_nat (length ?t)) = unat idx + length ?t"
    proof -
      have "unat szHdr < 2 ^ LENGTH(32)" by (rule unsigned_less)
      then have b: "unat idx + length ?t < 2 ^ 32" using u by simp
      have "idx + of_nat (length ?t) = word_of_nat (unat idx + length ?t)" by simp
      then show ?thesis using word_small [OF b] by simp
    qed
    have i32: "int32 (int d + int (length ?d)) = int (d + length ?d)"
      using Cons.prems(7,8) by (simp add: int32_def signed_take_bit_int_eq_self)
    have "drop (unat (idx + of_nat (length ?t))) key = types_of ff cs @ R"
      using Cons.prems(4) unfolding nx by (simp add: add.commute [of "unat idx"] flip: drop_drop)
    moreover have "drop (d + length ?d) key = data_of ff cs @ S"
      using Cons.prems(6) by (simp add: add.commute [of d] flip: drop_drop)
    ultimately obtain vs where vs: "unpack_loop key nKey szHdr ms' (idx + of_nat (length ?t)) (int (d + length ?d)) = Ok vs"
      "map value_of vs = map (read_back \<circ> value_of) cs"
      using Cons.IH [OF c(2) ms(2) False, of "idx + of_nat (length ?t)" "d + length ?d"] u nx Cons.prems(7,8)
      by (auto simp del: of_nat_add)
    have "ms' \<noteq> []" using ms(2) False by auto
    then show ?thesis using ms lt dk g v vs i32 by simp
  qed
qed simp

section \<open>Properties\<close>

text \<open>An allocator that grants every request.\<close>

definition generous :: "allocator \<Rightarrow> bool" where
  "generous al \<longleftrightarrow> (\<forall>k n. \<exists>b. al k n = Some b \<and> n \<le> length b)"

lemma resized:
  assumes "generous al" and "0 < n"
  shows "\<exists>c' b. sqlite3VdbeMemClearAndResize al k c n = Ok (SQLITE_OK, c') \<and> c_z c' = Own \<and> c_own c' = Some b \<and> n \<le> length b"
proof -
  obtain b where b: "al k (if n < 32 then 32 else n) = Some b" "(if n < 32 then 32 else n) \<le> length b"
    using assms unfolding generous_def by blast
  then have "n \<le> length b" by (simp split: if_splits)
  then show ?thesis using b(1) assms(2)
    by (auto simp: sqlite3VdbeMemClearAndResize_def sqlite3VdbeMemGrow_def Let_def split: option.splits place.splits)
qed

lemma uTemp_types: "types_of ff cs = concat (map (type_bytes ff) cs)" "length (types_of ff cs) \<le> 5 * length cs"
proof -
  have "length (type_bytes ff c) \<le> 5" for c
  proof -
    have "unat (field_type ff c) < 2 ^ LENGTH(32)" by (rule unsigned_less)
    then have "sqlite3VarintLen (ucast (field_type ff c)) \<le> 5" by (simp add: len_le)
    then show ?thesis by (simp add: type_bytes_def put_varint32(1))
  qed
  then show "length (types_of ff cs) \<le> 5 * length cs" by (induction cs) (auto intro: add_mono)
qed (rule types_of_def)

text \<open>
  What \<open>OP_MakeRecord\<close> does with a row it can store: the record is refused when it is larger than the limit, else
  it is written into the output register, in a buffer with room for it.
\<close>

lemma make_record_storable:
  assumes cs: "list_all storable cs" "cs \<noteq> []" "length cs < 2 ^ 15" and al: "generous al" and lim: "limit < 2 ^ 31"
  shows "\<exists>out'. make_record al limit ff cs out = Ok (if limit < int (length (record_of ff cs)) then SQLITE_TOOBIG else SQLITE_OK,
      map (typed ff) cs, out') \<and>
    (int (length (record_of ff cs)) \<le> limit \<longrightarrow> value_of out' = SQL_Blob (record_of ff cs) \<and>
       sint (c_n out') = int (length (record_of ff cs)) \<and> take (length (record_of ff cs)) (z_bytes out') = record_of ff cs)"
proof -
  let ?T = "types_of ff cs" and ?D = "data_of ff cs" and ?H = "header_of ff cs"
  let ?hb = "putVarint32 (word_of_nat ?H)"
  have "length ?T < 2 ^ 20" using uTemp_types(2) [of ff cs] cs(3) by simp
  from header_size_nat [OF this] have h: "header_size (int (length ?T)) = int ?H" "?H = length ?T + length ?hb" "?H < 2 ^ 21"
    unfolding header_of_def by auto
  have hp: "0 < ?H + length ?D"
    using h(2) put_nonempty [of "word_of_nat ?H"] by linarith
  have rl: "length (record_of ff cs) = ?H + length ?D" using h(2) by (simp add: record_of_def)
  have rv: "list_all storable (rev cs)" using cs(1) by (simp add: list_all_iff)
  have lens: "length (types_of ff (rev cs)) = length ?T" "length (data_of ff (rev cs)) = length ?D"
    by (simp_all add: types_of_def data_of_def length_concat rev_map [symmetric] sum_list_rev)
  note sl = size_loop_storable [OF rv, of al ff 0 0 0 0, unfolded lens]
  show ?thesis
  proof (cases "limit < int (length (record_of ff cs))")
    case True
    then show ?thesis using sl h(1) rl by (simp add: make_record_def rev_map [symmetric] Let_def)
  next
    case False
    obtain c' b where c': "sqlite3VdbeMemClearAndResize al (length cs) out (?H + length ?D) = Ok (SQLITE_OK, c')"
      "c_z c' = Own" "c_own c' = Some b" "?H + length ?D \<le> length b" using resized [OF al hp] by blast
    define U where "U = take (length ?T) (drop (length ?hb) b)"
    define V where "V = drop ?H b"
    have zb: "z_bytes c' = b" using c' by (simp add: z_bytes_def)
    have lU: "length U = length ?T" using c'(4) h(2) by (simp add: U_def)
    have "V = drop (length ?T) (drop (length ?hb) b)" using h(2) by (simp add: V_def add.commute)
    then have "drop (length ?hb) b = U @ V" by (simp only: U_def append_take_drop_id)
    then have w0: "write_at b 0 ?hb = Ok (?hb @ U @ [] @ V)"
      using c'(4) h(2) by (simp add: write_at_def)
    have j: "length (?hb @ U @ []) = ?H" using lU h(2) by simp
    have wf: "write_fields (map (typed ff) cs) (?hb @ U @ [] @ V) (length ?hb) ?H = Ok (?hb @ ?T @ ?D @ drop (length ?D) V)"
      using write_fields_storable [OF cs(1), of ff U V ?hb "[]"] lU c'(4) unfolding j by (simp add: V_def)
    have wh: "(word_of_int (int ?H) :: 32 word) = word_of_nat ?H" by simp
    define out' where "out' = c'\<lparr>c_own := Some (?hb @ ?T @ ?D @ drop (length ?D) V), c_n := word_of_nat (?H + length ?D), c_flags := MEM_Blob\<rparr>"
    have "make_record al limit ff cs out = Ok (SQLITE_OK, map (typed ff) cs, out')"
      using sl h(1) rl False c'(1) zb w0 wf
      by (simp add: make_record_def rev_map [symmetric] Let_def out'_def nat_add_distrib)
    moreover have sm: "?H + length ?D < 2 ^ 31" using False lim rl by simp
    then have n: "unat (c_n out') = length (record_of ff cs)"
      unfolding out'_def rl by (simp add: word_small del: of_nat_add)
    moreover have zo: "z_bytes out' = record_of ff cs @ drop (length ?D) V"
      using c'(2) by (simp add: out'_def z_bytes_def record_of_def)
    moreover have "value_of out' = SQL_Blob (record_of ff cs)"
      using n zo by (simp add: value_of_def content_def) (simp add: out'_def has_def flag_defs)
    moreover have "sint (c_n out') = int (length (record_of ff cs))"
    proof -
      have "sint (c_n out') = signed_take_bit 31 (uint (c_n out'))" by (simp add: sint_uint)
      then show ?thesis using n sm rl by (simp add: uint_nat signed_take_bit_int_eq_self)
    qed
    ultimately show ?thesis using False by (intro exI [of _ out']) simp
  qed
qed

lemma unpack_record:
  assumes "list_all storable cs" and "cs \<noteq> []" and "length cs < 2 ^ 15" and "length ms = length cs"
    and "int (length (record_of ff cs)) < 2 ^ 31"
  shows "\<exists>vs. sqlite3VdbeRecordUnpack (int (length (record_of ff cs))) (record_of ff cs) ms = Ok vs \<and>
    map value_of vs = map (read_back \<circ> value_of) cs"
proof -
  let ?T = "types_of ff cs" and ?D = "data_of ff cs" and ?H = "header_of ff cs"
  let ?hb = "putVarint32 (word_of_nat ?H)"
  have "length ?T < 2 ^ 20" using uTemp_types(2) [of ff cs] assms(3) by simp
  from header_size_nat [OF this] have h: "?H = length ?T + length ?hb" "?H < 2 ^ 21"
    unfolding header_of_def by auto
  have uH: "unat (word_of_nat ?H :: 32 word) = ?H" using h(2) by (simp add: word_small)
  have ui: "uint (word_of_nat ?H :: 32 word) = int ?H" using uH by (simp add: uint_nat)
  have i: "unat (word_of_nat (length ?hb) :: 32 word) = length ?hb" using h by (simp add: word_small)
  have d: "int32 (uint (word_of_nat ?H :: 32 word)) = int ?H"
    unfolding ui using h(2) by (simp add: int32_def signed_take_bit_int_eq_self)
  have g: "getVarint32 (record_of ff cs) = Ok (word_of_nat ?H, length ?hb)"
    unfolding record_of_def by (rule get_put_varint32)
  have "\<exists>vs. unpack_loop (record_of ff cs) (int (length (record_of ff cs))) (word_of_nat ?H) ms (word_of_nat (length ?hb)) (int ?H) = Ok vs \<and>
      map value_of vs = map (read_back \<circ> value_of) cs"
  proof (rule unpack_storable [OF assms(1,4,2)])
    show "drop (unat (word_of_nat (length ?hb) :: 32 word)) (record_of ff cs) = ?T @ ?D" unfolding i by (simp add: record_of_def)
    show "unat (word_of_nat ?H :: 32 word) = unat (word_of_nat (length ?hb) :: 32 word) + length ?T" using h(1) uH i by simp
    show "drop ?H (record_of ff cs) = ?D @ []" using h(1) by (simp add: record_of_def)
    show "int (?H + length ?D) \<le> int (length (record_of ff cs))" using h(1) by (simp add: record_of_def)
    show "int (length (record_of ff cs)) < 2 ^ 31" by (rule assms(5))
  qed
  then show ?thesis unfolding sqlite3VdbeRecordUnpack_def g obind.simps prod.case d .
qed

text \<open>
  C13. A row of the log survives its storage: as long as no memory is refused, \<open>OP_MakeRecord\<close> puts the values of any row of
  fewer than 32768 cells, none of which has a tail of zeros that is not yet expanded (\<open>MEM_Zero\<close>), into
  a record, or says that it is larger than the limit; and what \<open>sqlite3VdbeRecordUnpack\<close> takes out
  of the record are the same integers, text and blobs at the same places, with NaN as NULL, without a byte
  read or written outside the buffers.
\<close>

theorem record_roundtrip:
  assumes "list_all storable cs" and "cs \<noteq> []" and "length cs < 2 ^ 15" and "generous al" and "limit < 2 ^ 31"
    and "length ms = length cs"
  shows "\<exists>rc out. make_record al limit ff cs out0 = Ok (rc, map (typed ff) cs, out) \<and>
    (rc = SQLITE_OK \<or> rc = SQLITE_TOOBIG) \<and> (rc = SQLITE_OK \<longleftrightarrow> int (length (record_of ff cs)) \<le> limit) \<and>
    (rc = SQLITE_OK \<longrightarrow>
      (\<exists>vs. sqlite3VdbeRecordUnpack (sint (c_n out)) (content out) ms = Ok vs \<and>
         map value_of vs = map (read_back \<circ> value_of) cs))"
proof -
  obtain out where out: "make_record al limit ff cs out0 = Ok (if limit < int (length (record_of ff cs)) then SQLITE_TOOBIG else SQLITE_OK,
      map (typed ff) cs, out)"
    "int (length (record_of ff cs)) \<le> limit \<Longrightarrow> value_of out = SQL_Blob (record_of ff cs)"
    "int (length (record_of ff cs)) \<le> limit \<Longrightarrow> sint (c_n out) = int (length (record_of ff cs))"
    using make_record_storable [OF assms(1-5), of ff out0] by blast
  have ne: "SQLITE_TOOBIG \<noteq> SQLITE_OK" by (simp add: SQLITE_TOOBIG_def SQLITE_OK_def)
  have "\<exists>vs. sqlite3VdbeRecordUnpack (sint (c_n out)) (content out) ms = Ok vs \<and> map value_of vs = map (read_back \<circ> value_of) cs"
    if le: "int (length (record_of ff cs)) \<le> limit"
  proof -
    have r: "content out = record_of ff cs" using out(2) [OF le] by (simp add: value_of_def split: if_splits)
    show ?thesis unfolding r out(3) [OF le] by (rule unpack_record) (use assms le in simp_all)
  qed
  then show ?thesis using out(1) ne
    by (intro exI [of _ "if limit < int (length (record_of ff cs)) then SQLITE_TOOBIG else SQLITE_OK"] exI [of _ out]) auto
qed

section \<open>A demonstration\<close>

text \<open>A row of the table \<open>clocks\<close>: target 1, its time, 3 seconds and 250000000 nanoseconds; and a NULL and a negative number.\<close>

definition int_cell :: "64 word \<Rightarrow> cell" where
  "int_cell i = \<lparr>c_u = i, c_flags = MEM_Int, c_n = 0, c_z = Nowhere, c_own = None, c_uTemp = 0\<rparr>"

definition text_cell :: "8 word list \<Rightarrow> cell" where
  "text_cell bs = \<lparr>c_u = 0, c_flags = MEM_Str OR MEM_Static, c_n = word_of_nat (length bs), c_z = Elsewhere bs, c_own = None, c_uTemp = 0\<rparr>"

definition null_cell :: cell where
  "null_cell = \<lparr>c_u = 0, c_flags = MEM_Null, c_n = 0, c_z = Nowhere, c_own = None, c_uTemp = 0\<rparr>"

definition demo_row :: "cell list" where
  "demo_row = [int_cell 1, text_cell [50, 48, 50, 54], int_cell 3, int_cell 250000000, null_cell, int_cell (- 300)]"

definition demo_alloc :: allocator where
  "demo_alloc k n = Some (replicate n 0xAA)"

lemma demo_record: "record_of 4 demo_row = [7, 9, 21, 1, 4, 0, 2, 50, 48, 50, 54, 3, 14, 230, 178, 128, 254, 212]"
  by code_simp

lemma demo_values: "list_all storable demo_row" "map (read_back \<circ> value_of) demo_row =
    [SQL_Integer 1, SQL_Text [50, 48, 50, 54], SQL_Integer 3, SQL_Integer 250000000, SQL_Null, SQL_Integer (- 300)]"
  by (simp_all add: demo_row_def int_cell_def text_cell_def null_cell_def storable_def value_of_def has_def flag_defs content_def z_bytes_def)

lemma record_roundtrip_witness:
  "\<exists>out. make_record demo_alloc 1000000000 4 demo_row null_cell = Ok (SQLITE_OK, map (typed 4) demo_row, out) \<and>
     (\<exists>vs. sqlite3VdbeRecordUnpack (sint (c_n out)) (content out) (replicate 6 null_cell) = Ok vs \<and>
        map value_of vs = [SQL_Integer 1, SQL_Text [50, 48, 50, 54], SQL_Integer 3, SQL_Integer 250000000, SQL_Null, SQL_Integer (- 300)])"
proof -
  have "generous demo_alloc" by (simp add: generous_def demo_alloc_def)
  from record_roundtrip [OF demo_values(1) _ _ this, of 1000000000 "replicate 6 null_cell" 4 null_cell]
  show ?thesis unfolding demo_record demo_values(2) by (simp add: demo_row_def)
qed

end
