(* ===== verification/Hash_Table.thy ===== *)
theory Hash_Table
  imports CString Sqlite_Memory
begin

text \<open>
  src/libs/sqlite3.c, \<open>hash.c\<close>: the hash tables in which the engine keeps its schema by name. All
  elements are on one doubly linked list; the elements of a bucket are neighbours on it, and the bucket
  represents their number and a pointer to the first. Elements are cells of a store with addresses, so that the
  pointers the code rewrites are explicit; a key is the text its pointer points to, which the client
  keeps alive and unchanged. A small table has no buckets. In a build with
  \<open>SQLITE_MALLOC_SOFT_LIMIT\<close> at its default, 1024 bytes, there are at most 64 buckets, unless the allocator hands
  out more than was asked for.
\<close>

section \<open>Keys\<close>

definition sqlite3UpperToLower :: "char \<Rightarrow> nat" where
  "sqlite3UpperToLower c = (let n = of_char c in if 65 \<le> n \<and> n \<le> 90 then n + 32 else n)"

text \<open>The loop stops at the first difference or at the terminator of the left string.\<close>

fun sqlite3StrICmp :: "string \<Rightarrow> string \<Rightarrow> int" where
  "sqlite3StrICmp [] [] = 0"
| "sqlite3StrICmp [] (d # ds) = - int (sqlite3UpperToLower d)"
| "sqlite3StrICmp (c # cs) [] = int (sqlite3UpperToLower c)"
| "sqlite3StrICmp (c # cs) (d # ds) =
     (let r = int (sqlite3UpperToLower c) - int (sqlite3UpperToLower d) in if r \<noteq> 0 then r else sqlite3StrICmp cs ds)"

definition strHash :: "string \<Rightarrow> 32 word" where
  "strHash z = foldl (\<lambda>h c. (h + of_nat (sqlite3UpperToLower c)) * 0x9e3779b1) 0 z"

section \<open>The table\<close>

record 'd HashElem =
  elem_next :: "nat option"
  elem_prev :: "nat option"
  elem_data :: "'d option"
  elem_key :: string

text \<open>\<open>struct _ht\<close>\<close>

record ht_entry =
  ht_count :: int
  ht_chain :: "nat option"

text \<open>The fields of the C struct, then the store of the elements and the allocator.\<close>

record 'd Hash =
  htsize :: nat
  hash_count :: nat
  hash_first :: "nat option"
  ht :: "ht_entry list option"
  elements :: "nat \<rightharpoonup> 'd HashElem"
  fresh_address :: nat
  hash_memory :: sqlite_memory

definition elem_at :: "'d Hash \<Rightarrow> nat option \<Rightarrow> 'd HashElem outcome" where
  "elem_at s p =
     (case p of
        None \<Rightarrow> UB Null_Deref
      | Some a \<Rightarrow> (case elements s a of None \<Rightarrow> UB Use_After_Free | Some e \<Rightarrow> Ok e))"

definition set_elem :: "nat \<Rightarrow> ('d HashElem \<Rightarrow> 'd HashElem) \<Rightarrow> 'd Hash \<Rightarrow> 'd Hash outcome" where
  "set_elem a f s =
     (case elements s a of
        None \<Rightarrow> UB Use_After_Free
      | Some e \<Rightarrow> Ok (s\<lparr>elements := (elements s)(a \<mapsto> f e)\<rparr>))"

definition set_next :: "nat \<Rightarrow> nat option \<Rightarrow> 'd Hash \<Rightarrow> 'd Hash outcome" where
  "set_next a p = set_elem a (\<lambda>e. e\<lparr>elem_next := p\<rparr>)"

definition set_prev :: "nat \<Rightarrow> nat option \<Rightarrow> 'd Hash \<Rightarrow> 'd Hash outcome" where
  "set_prev a p = set_elem a (\<lambda>e. e\<lparr>elem_prev := p\<rparr>)"

definition entry_at :: "'d Hash \<Rightarrow> nat \<Rightarrow> ht_entry outcome" where
  "entry_at s h =
     (case ht s of
        None \<Rightarrow> UB Null_Deref
      | Some bs \<Rightarrow> if h < length bs then Ok (bs ! h) else UB Buffer_Overread)"

definition set_entry :: "nat \<Rightarrow> ht_entry \<Rightarrow> 'd Hash \<Rightarrow> 'd Hash" where
  "set_entry h b s = s\<lparr>ht := map_option (\<lambda>bs. bs[h := b]) (ht s)\<rparr>"

text \<open>Arithmetic of \<open>unsigned int\<close>.\<close>

definition u32 :: "nat \<Rightarrow> nat" where
  "u32 n = n mod 2 ^ 32"

definition sqlite3HashInit :: "'d Hash \<Rightarrow> 'd Hash" where
  "sqlite3HashInit s = s\<lparr>hash_first := None, hash_count := 0, htsize := 0, ht := None\<rparr>"

text \<open>The elements are freed one by one; one turn of fuel for each and one more.\<close>

fun clear_loop :: "nat \<Rightarrow> nat option \<Rightarrow> 'd Hash \<Rightarrow> 'd Hash outcome" where
  "clear_loop 0 e s = UB Endless_Loop"
| "clear_loop (Suc fuel) e s =
     (case e of
        None \<Rightarrow> Ok s
      | Some a \<Rightarrow>
          obind (elem_at s e)
            (\<lambda>x. clear_loop fuel (elem_next x)
               (s\<lparr>elements := (elements s)(a := None), hash_memory := sqlite3_free (hash_memory s)\<rparr>)))"

definition free_buckets :: "'d Hash \<Rightarrow> 'd Hash" where
  "free_buckets s = (if ht s = None then s else s\<lparr>ht := None, hash_memory := sqlite3_free (hash_memory s)\<rparr>)"

definition sqlite3HashClear :: "'d Hash \<Rightarrow> 'd Hash outcome" where
  "sqlite3HashClear s =
     obind (clear_loop (Suc (hash_count s)) (hash_first s) ((free_buckets s)\<lparr>hash_first := None, htsize := 0\<rparr>))
       (\<lambda>s1. Ok (s1\<lparr>hash_count := 0\<rparr>))"

text \<open>
  \<open>pHead\<close> is the first element of the bucket, if it has one: the new element goes in front of it, else to the
  front of the whole list.
\<close>

definition count_in :: "nat option \<Rightarrow> nat \<Rightarrow> 'd Hash \<Rightarrow> (nat option \<times> 'd Hash) outcome" where
  "count_in pEntry pNew s =
     (case pEntry of
        None \<Rightarrow> Ok (None, s)
      | Some h \<Rightarrow>
          obind (entry_at s h)
            (\<lambda>b. if ht_count b = 2147483647 then UB Signed_Overflow
              else Ok (if ht_count b \<noteq> 0 then ht_chain b else None,
                       set_entry h \<lparr>ht_count = ht_count b + 1, ht_chain = Some pNew\<rparr> s)))"

definition link_in :: "nat option \<Rightarrow> nat \<Rightarrow> 'd Hash \<Rightarrow> 'd Hash outcome" where
  "link_in pHead pNew s1 =
     (case pHead of
        Some head \<Rightarrow>
          obind (set_next pNew (Some head) s1)
            (\<lambda>s2. obind (elem_at s2 (Some head))
              (\<lambda>x. obind (set_prev pNew (elem_prev x) s2)
                (\<lambda>s3. obind (case elem_prev x of
                          Some q \<Rightarrow> set_next q (Some pNew) s3
                        | None \<Rightarrow> Ok (s3\<lparr>hash_first := Some pNew\<rparr>))
                  (set_prev head (Some pNew)))))
      | None \<Rightarrow>
          obind (set_next pNew (hash_first s1) s1)
            (\<lambda>s2. obind (case hash_first s2 of
                      Some f \<Rightarrow> set_prev f (Some pNew) s2
                    | None \<Rightarrow> Ok s2)
              (\<lambda>s3. obind (set_prev pNew None s3)
                (\<lambda>s4. Ok (s4\<lparr>hash_first := Some pNew\<rparr>)))))"

definition insertElement :: "nat option \<Rightarrow> nat \<Rightarrow> 'd Hash \<Rightarrow> 'd Hash outcome" where
  "insertElement pEntry pNew s =
     obind (count_in pEntry pNew s) (\<lambda>(pHead, s1). link_in pHead pNew s1)"

text \<open>
  \<open>usable n\<close> is what \<open>sqlite3MallocSize\<close> tells of a block that was allocated with \<open>n\<close> bytes. A
  \<open>struct _ht\<close> has 16 bytes.
\<close>

definition bucket_of :: "string \<Rightarrow> nat \<Rightarrow> nat" where
  "bucket_of key n = unat (strHash key) mod n"

fun rehash_loop :: "nat \<Rightarrow> nat option \<Rightarrow> 'd Hash \<Rightarrow> 'd Hash outcome" where
  "rehash_loop 0 e s = UB Endless_Loop"
| "rehash_loop (Suc fuel) e s =
     (case e of
        None \<Rightarrow> Ok s
      | Some a \<Rightarrow>
          obind (elem_at s e)
            (\<lambda>x. obind (insertElement (Some (bucket_of (elem_key x) (htsize s))) a s)
              (rehash_loop fuel (elem_next x))))"

definition rehash_table :: "(nat \<Rightarrow> nat) \<Rightarrow> nat \<Rightarrow> 'd Hash \<Rightarrow> (bool \<times> 'd Hash) outcome" where
  "rehash_table usable new_size s =
     (let n = (if new_size * 16 > 1024 then 1024 div 16 else new_size) in
      if n = htsize s then Ok (False, s)
      else
        (case sqlite3Malloc (hash_memory s) of
           (False, m1) \<Rightarrow> Ok (False, s\<lparr>hash_memory := m1\<rparr>)
         | (True, m1) \<Rightarrow>
             (let n1 = usable (n * 16) div 16;
                  s1 = (free_buckets (s\<lparr>hash_memory := m1\<rparr>))
                         \<lparr>ht := Some (replicate n1 \<lparr>ht_count = 0, ht_chain = None\<rparr>), htsize := n1, hash_first := None\<rparr>
              in obind (rehash_loop (Suc (hash_count s)) (hash_first s) s1) (\<lambda>s2. Ok (True, s2)))))"

text \<open>\<open>while (count--)\<close>: the loop ends when the counter is 0 before it is decremented.\<close>

function find_loop :: "'d Hash \<Rightarrow> string \<Rightarrow> int \<Rightarrow> nat option \<Rightarrow> nat option outcome" where
  "find_loop s key n p =
     (if n = 0 then Ok None
      else if n \<le> - 2147483648 then UB Signed_Overflow
      else
        obind (elem_at s p)
          (\<lambda>x. if sqlite3StrICmp (elem_key x) key = 0 then Ok p else find_loop s key (n - 1) (elem_next x)))"
  by pat_completeness auto
termination by (relation "measure (\<lambda>(_, _, n, _). nat (n + 2147483648))") auto

declare find_loop.simps [simp del]

text \<open>The element (None for the static element without data) and the hash.\<close>

definition findElementWithHash :: "'d Hash \<Rightarrow> string \<Rightarrow> (nat option \<times> nat) outcome" where
  "findElementWithHash s pKey =
     (case ht s of
        Some bs \<Rightarrow>
          (let h = bucket_of pKey (htsize s) in
           obind (entry_at s h)
             (\<lambda>b. obind (find_loop s pKey (ht_count b) (ht_chain b)) (\<lambda>e. Ok (e, h))))
      | None \<Rightarrow> obind (find_loop s pKey (wrap32 (int (hash_count s))) (hash_first s)) (\<lambda>e. Ok (e, 0)))"

definition link_out :: "nat \<Rightarrow> 'd Hash \<Rightarrow> 'd Hash outcome" where
  "link_out a s =
     obind (elem_at s (Some a))
       (\<lambda>x. obind (case elem_prev x of
                 Some q \<Rightarrow> set_next q (elem_next x) s
               | None \<Rightarrow> Ok (s\<lparr>hash_first := elem_next x\<rparr>))
         (\<lambda>s1. obind (elem_at s1 (Some a))
           (\<lambda>y. case elem_next y of
               Some q \<Rightarrow> set_prev q (elem_prev y) s1
             | None \<Rightarrow> Ok s1)))"

definition count_out :: "nat \<Rightarrow> nat \<Rightarrow> 'd Hash \<Rightarrow> 'd Hash outcome" where
  "count_out a h s =
     (if ht s = None then Ok s
      else
        obind (entry_at s h)
          (\<lambda>b. obind (elem_at s (Some a))
            (\<lambda>x. Ok (set_entry h \<lparr>ht_count = ht_count b - 1,
                      ht_chain = (if ht_chain b = Some a then elem_next x else ht_chain b)\<rparr> s))))"

definition removeElementGivenHash :: "nat \<Rightarrow> nat \<Rightarrow> 'd Hash \<Rightarrow> 'd Hash outcome" where
  "removeElementGivenHash a h s =
     obind (obind (link_out a s) (count_out a h))
       (\<lambda>s1. let s2 = s1\<lparr>elements := (elements s1)(a := None), hash_memory := sqlite3_free (hash_memory s1),
                         hash_count := u32 (hash_count s1 + (2 ^ 32 - 1))\<rparr>
             in if hash_count s2 = 0 then sqlite3HashClear s2 else Ok s2)"

definition sqlite3HashFind :: "'d Hash \<Rightarrow> string \<Rightarrow> 'd option outcome" where
  "sqlite3HashFind s pKey =
     obind (findElementWithHash s pKey)
       (\<lambda>(e, _). case e of None \<Rightarrow> Ok None | Some a \<Rightarrow> obind (elem_at s e) (\<lambda>x. Ok (elem_data x)))"

text \<open>
  What the call returns: the old data, or the new data when there is no memory for an element. The links of
  the new element are written by \<open>insertElement\<close> before they are read.
\<close>

definition new_element :: "string \<Rightarrow> 'd \<Rightarrow> sqlite_memory \<Rightarrow> 'd Hash \<Rightarrow> 'd Hash" where
  "new_element pKey d m s =
     s\<lparr>hash_memory := m, fresh_address := Suc (fresh_address s), hash_count := u32 (hash_count s + 1),
       elements := (elements s)(fresh_address s \<mapsto>
         \<lparr>elem_next = None, elem_prev = None, elem_data = Some d, elem_key = pKey\<rparr>)\<rparr>"

definition sqlite3HashInsert :: "(nat \<Rightarrow> nat) \<Rightarrow> string \<Rightarrow> 'd option \<Rightarrow> 'd Hash \<Rightarrow> ('d option \<times> 'd Hash) outcome" where
  "sqlite3HashInsert usable pKey data s =
     obind (findElementWithHash s pKey)
       (\<lambda>(e, h). obind (case e of None \<Rightarrow> Ok None | Some a \<Rightarrow> obind (elem_at s e) (\<lambda>x. Ok (elem_data x)))
         (\<lambda>old_data. case (e, old_data) of
            (Some a, Some old) \<Rightarrow>
              (case data of
                 None \<Rightarrow> obind (removeElementGivenHash a h s) (\<lambda>s1. Ok (Some old, s1))
               | Some d \<Rightarrow> obind (set_elem a (\<lambda>x. x\<lparr>elem_data := Some d, elem_key := pKey\<rparr>) s) (\<lambda>s1. Ok (Some old, s1)))
          | _ \<Rightarrow>
              (case data of
                 None \<Rightarrow> Ok (None, s)
               | Some d \<Rightarrow>
                   (case sqlite3Malloc (hash_memory s) of
                      (False, m1) \<Rightarrow> Ok (Some d, s\<lparr>hash_memory := m1\<rparr>)
                    | (True, m1) \<Rightarrow>
                        (let s1 = new_element pKey d m1 s; pNew = fresh_address s in
                         obind (if 10 \<le> hash_count s1 \<and> u32 (2 * htsize s1) < hash_count s1
                                then obind (rehash_table usable (u32 (hash_count s1 * 2)) s1)
                                       (\<lambda>(ok, s2). Ok (if ok then bucket_of pKey (htsize s2) else h, s2))
                                else Ok (h, s1))
                           (\<lambda>(h1, s2). obind (insertElement (if ht s2 = None then None else Some h1) pNew s2)
                              (\<lambda>s3. Ok (None, s3))))))))"

section \<open>Keys that differ in case only\<close>

text \<open>What a table distinguishes of a key.\<close>

definition folded :: "string \<Rightarrow> nat list" where
  "folded k = map sqlite3UpperToLower k"

lemma lower_zero: "sqlite3UpperToLower c = 0 \<longleftrightarrow> c = NUL"
proof
  assume "sqlite3UpperToLower c = 0"
  then have "(of_char c :: nat) = of_char NUL" by (simp add: sqlite3UpperToLower_def Let_def split: if_splits)
  then show "c = NUL" by (simp only: of_char_eq_iff)
qed (simp add: sqlite3UpperToLower_def)

lemma StrICmp_zero: "no_nul a \<Longrightarrow> no_nul b \<Longrightarrow> sqlite3StrICmp a b = 0 \<longleftrightarrow> folded a = folded b"
  by (induction a b rule: sqlite3StrICmp.induct) (auto simp: folded_def no_nul_def lower_zero Let_def)

lemma hash_folded: "folded a = folded b \<Longrightarrow> bucket_of a n = bucket_of b n"
proof -
  have "strHash z = foldl (\<lambda>h n. (h + of_nat n) * 0x9e3779b1) 0 (folded z)" for z
    by (simp add: strHash_def folded_def foldl_map)
  then show "folded a = folded b \<Longrightarrow> bucket_of a n = bucket_of b n" by (simp add: bucket_of_def)
qed

section \<open>Linked lists\<close>

definition head_or :: "nat list \<Rightarrow> nat option \<Rightarrow> nat option" where
  "head_or xs p = (case xs of [] \<Rightarrow> p | a # _ \<Rightarrow> Some a)"

definition last_or :: "nat list \<Rightarrow> nat option \<Rightarrow> nat option" where
  "last_or xs p = (if xs = [] then p else Some (last xs))"

lemma head_or_simps [simp]: "head_or [] p = p" "head_or (a # xs) p = Some a"
  by (simp_all add: head_or_def)

lemma last_or_simps [simp]: "last_or [] p = p" "last_or (xs @ [a]) p = Some a"
  by (simp_all add: last_or_def)

lemma last_or_Cons [simp]: "last_or (a # xs) p = last_or xs (Some a)"
  by (simp add: last_or_def)

lemma head_or_append: "head_or (xs @ ys) p = head_or xs (head_or ys p)"
  by (cases xs) simp_all

lemma head_or_None: "head_or xs None = None \<longleftrightarrow> xs = []"
  by (cases xs) simp_all

text \<open>The elements at \<open>xs\<close> are linked in this order, between the elements \<open>pr\<close> and \<open>nx\<close>.\<close>

fun linked :: "(nat \<rightharpoonup> 'd HashElem) \<Rightarrow> nat option \<Rightarrow> nat list \<Rightarrow> nat option \<Rightarrow> bool" where
  "linked m pr [] nx \<longleftrightarrow> True"
| "linked m pr (a # xs) nx \<longleftrightarrow>
     (\<exists>e. m a = Some e \<and> elem_prev e = pr \<and> elem_next e = head_or xs nx) \<and> linked m (Some a) xs nx"

lemma linked_append: "linked m pr (xs @ ys) nx \<longleftrightarrow> linked m pr xs (head_or ys nx) \<and> linked m (last_or xs pr) ys nx"
  by (induction xs arbitrary: pr) (auto simp: head_or_append)

lemma linked_frame: "linked m pr xs nx \<Longrightarrow> \<forall>a \<in> set xs. m' a = m a \<Longrightarrow> linked m' pr xs nx"
  by (induction xs arbitrary: pr) auto

lemma linked_upd [simp]: "a \<notin> set xs \<Longrightarrow> linked (m(a := v)) pr xs nx \<longleftrightarrow> linked m pr xs nx"
  by (rule iffI; erule linked_frame) auto

lemma linked_dom: "linked m pr xs nx \<Longrightarrow> a \<in> set xs \<Longrightarrow> \<exists>e. m a = Some e"
  by (induction xs arbitrary: pr) auto

text \<open>Elements other than their links, which the operations on the links keep.\<close>

definition payload :: "(nat \<rightharpoonup> 'd HashElem) \<Rightarrow> nat \<Rightarrow> (string \<times> 'd option) option" where
  "payload m a = map_option (\<lambda>e. (elem_key e, elem_data e)) (m a)"

lemma payload_upd [simp]: "payload (m(a := v)) b = (if b = a then map_option (\<lambda>e. (elem_key e, elem_data e)) v else payload m b)"
  by (simp add: payload_def)

lemma payload_Some: "payload m a = Some (k, d) \<longleftrightarrow> (\<exists>e. m a = Some e \<and> elem_key e = k \<and> elem_data e = d)"
  by (auto simp: payload_def)

lemma payload_dom: "payload m' = payload m \<Longrightarrow> dom m' = dom m"
proof -
  assume p: "payload m' = payload m"
  have "(m' a = None) = (m a = None)" for a using fun_cong [OF p, of a] by (auto simp: payload_def)
  then show ?thesis by (auto simp: dom_def)
qed

lemma set_elem_Ok: "elements s a = Some e \<Longrightarrow> set_elem a f s = Ok (s\<lparr>elements := (elements s)(a \<mapsto> f e)\<rparr>)"
  by (simp add: set_elem_def)

lemma elem_at_Ok [simp]: "elements s a = Some e \<Longrightarrow> elem_at s (Some a) = Ok e"
  by (simp add: elem_at_def)

text \<open>An element linked in front of \<open>h\<close>, or in front of all.\<close>

definition link_at :: "nat list \<Rightarrow> nat \<Rightarrow> nat list \<Rightarrow> (nat \<rightharpoonup> 'd HashElem) \<Rightarrow> (nat \<rightharpoonup> 'd HashElem) \<Rightarrow> bool" where
  "link_at xs a ys m m' \<longleftrightarrow> linked m' None (xs @ a # ys) None \<and> payload m' = payload m \<and>
     (\<forall>b. b \<notin> set xs \<union> set ys \<union> {a} \<longrightarrow> m' b = m b)"

lemma link_front:
  assumes "linked (elements s) None ys None" "a \<notin> set ys" "distinct ys" "elements s a = Some e" "hash_first s = head_or ys None"
  shows "\<exists>m'. link_in None a s = Ok (s\<lparr>elements := m', hash_first := Some a\<rparr>) \<and> link_at [] a ys (elements s) m'"
proof (cases ys)
  case Nil
  then show ?thesis using assms
    by (auto simp: link_in_def set_next_def set_prev_def set_elem_def link_at_def payload_def fun_eq_iff)
next
  case (Cons f zs)
  obtain x where x: "elements s f = Some x" using assms(1) Cons by auto
  have "f \<noteq> a" using assms(2) Cons by auto
  then show ?thesis using assms x Cons
    by (auto simp: link_in_def set_next_def set_prev_def set_elem_def link_at_def payload_def fun_eq_iff)
qed

lemma same_first: "hash_first s = p \<Longrightarrow> s\<lparr>elements := m, hash_first := p\<rparr> = s\<lparr>elements := m\<rparr>"
  by (cases s) simp

lemma link_middle:
  assumes "linked (elements s) None (pre @ h # post) None" "distinct (pre @ h # post)" "a \<notin> set (pre @ h # post)"
    "elements s a = Some e" "hash_first s = head_or (pre @ h # post) None"
  shows "\<exists>m'. link_in (Some h) a s = Ok (s\<lparr>elements := m', hash_first := head_or (pre @ a # h # post) None\<rparr>) \<and>
    link_at pre a (h # post) (elements s) m'"
proof -
  obtain y where y: "elements s h = Some y" "elem_prev y = last_or pre None" using assms(1) by (auto simp: linked_append)
  have ha: "h \<noteq> a" using assms(3) by auto
  show ?thesis
  proof (cases pre rule: rev_cases)
    case Nil
    then show ?thesis using assms y ha
      by (intro exI [of _ "(elements s)(a \<mapsto> e\<lparr>elem_next := Some h, elem_prev := None\<rparr>, h \<mapsto> y\<lparr>elem_prev := Some a\<rparr>)"])
        (auto simp: link_in_def set_next_def set_prev_def set_elem_def link_at_def payload_def fun_eq_iff)
  next
    case (snoc us q)
    obtain x where x: "elements s q = Some x" using assms(1) snoc by (auto simp: linked_append)
    have "q \<noteq> a" "q \<noteq> h" using assms(2,3) snoc by auto
    moreover have "hash_first s = head_or (pre @ a # h # post) None" using assms(5) snoc by (cases us) simp_all
    ultimately show ?thesis using assms y x ha snoc
      by (intro exI [of _ "(elements s)(a \<mapsto> e\<lparr>elem_next := Some h, elem_prev := Some q\<rparr>,
            q \<mapsto> x\<lparr>elem_next := Some a\<rparr>, h \<mapsto> y\<lparr>elem_prev := Some a\<rparr>)"])
        (auto simp: same_first link_in_def set_next_def set_prev_def set_elem_def link_at_def linked_append payload_def fun_eq_iff)
  qed
qed

section \<open>Tables\<close>

text \<open>
  The list is made of groups, one for each bucket that is not empty; a group comes with the number of its
  bucket. Without buckets the groups say nothing.
\<close>

definition all_of :: "(nat \<times> nat list) list \<Rightarrow> nat list" where
  "all_of gs = concat (map snd gs)"

lemma all_of_simps [simp]: "all_of [] = []" "all_of ((h, g) # gs) = g @ all_of gs" "all_of (gs @ gs') = all_of gs @ all_of gs'"
  by (simp_all add: all_of_def)

definition grouped :: "(nat \<Rightarrow> nat) \<Rightarrow> ht_entry list \<Rightarrow> (nat \<times> nat list) list \<Rightarrow> bool" where
  "grouped f bs gs \<longleftrightarrow>
     distinct (map fst gs) \<and>
     (\<forall>(h, g) \<in> set gs. h < length bs \<and> g \<noteq> [] \<and> (\<forall>a \<in> set g. f a = h)) \<and>
     (\<forall>h < length bs. case map_of gs h of
        None \<Rightarrow> ht_count (bs ! h) = 0
      | Some g \<Rightarrow> ht_count (bs ! h) = int (length g) \<and> ht_chain (bs ! h) = Some (hd g))"

definition key_at :: "(nat \<rightharpoonup> 'd HashElem) \<Rightarrow> nat \<Rightarrow> string" where
  "key_at m a = fst (the (payload m a))"

definition table_ok :: "'d Hash \<Rightarrow> (nat \<times> nat list) list \<Rightarrow> bool" where
  "table_ok s gs \<longleftrightarrow>
     hash_first s = head_or (all_of gs) None \<and> linked (elements s) None (all_of gs) None \<and> distinct (all_of gs) \<and>
     (case ht s of
        None \<Rightarrow> htsize s = 0
      | Some bs \<Rightarrow> htsize s = length bs \<and> bs \<noteq> [] \<and> grouped (\<lambda>a. bucket_of (key_at (elements s) a) (length bs)) bs gs)"

lemma key_at_simps [simp]: "m a = Some e \<Longrightarrow> key_at m a = elem_key e"
  by (simp add: key_at_def payload_def)

lemma key_at_payload: "payload m' = payload m \<Longrightarrow> key_at m' = key_at m"
  by (simp add: key_at_def fun_eq_iff)

lemma grouped_split:
  assumes "grouped f bs gs" "map_of gs h = Some g"
  shows "\<exists>g1 g2. gs = g1 @ (h, g) # g2 \<and> h \<notin> fst ` set g1 \<and> h \<notin> fst ` set g2"
proof -
  obtain g1 g2 where "gs = g1 @ (h, g) # g2" using map_of_SomeD [OF assms(2)] by (auto simp: in_set_conv_decomp)
  moreover from this have "h \<notin> fst ` set g1" "h \<notin> fst ` set g2" using assms(1) by (auto simp: grouped_def)
  ultimately show ?thesis by blast
qed

lemma map_of_middle:
  "h \<notin> fst ` set g1 \<Longrightarrow> map_of (g1 @ (h, g) # g2) k = (if k = h then Some g else map_of (g1 @ g2) k)"
  by (auto simp: map_of_append map_add_def split: option.splits) (metis image_eqI map_of_SomeD fst_conv option.distinct(1) weak_map_of_SomeI not_None_eq)+

lemma grouped_new:
  assumes "grouped f bs gs" "h < length bs" "map_of gs h = None" "f a = h"
  shows "grouped f (bs[h := \<lparr>ht_count = ht_count (bs ! h) + 1, ht_chain = Some a\<rparr>]) ((h, [a]) # gs)"
  using assms by (auto simp: grouped_def map_of_eq_None_iff nth_list_update split: option.splits)

lemma grouped_add:
  assumes "grouped f bs (g1 @ (h, g) # g2)" "f a = h"
  shows "grouped f (bs[h := \<lparr>ht_count = ht_count (bs ! h) + 1, ht_chain = Some a\<rparr>]) (g1 @ (h, a # g) # g2)"
    (is "grouped f (bs[h := ?b]) _")
proof -
  have h: "h \<notin> fst ` set g1" using assms(1) by (auto simp: grouped_def)
  have l: "h < length bs" using assms(1) by (auto simp: grouped_def)
  have "case map_of (g1 @ (h, a # g) # g2) k of None \<Rightarrow> ht_count (bs[h := ?b] ! k) = 0
      | Some g \<Rightarrow> ht_count (bs[h := ?b] ! k) = int (length g) \<and> ht_chain (bs[h := ?b] ! k) = Some (hd g)"
    if "k < length bs" for k
  proof -
    have "case if k = h then Some g else map_of (g1 @ g2) k of None \<Rightarrow> ht_count (bs ! k) = 0
        | Some g \<Rightarrow> ht_count (bs ! k) = int (length g) \<and> ht_chain (bs ! k) = Some (hd g)"
      using assms(1) that unfolding grouped_def map_of_middle [OF h] by blast
    moreover have "h \<noteq> k \<Longrightarrow> bs[h := ?b] ! k = bs ! k" by simp
    ultimately show ?thesis using l unfolding map_of_middle [OF h] by (cases "h = k") (auto split: option.splits)
  qed
  then show ?thesis using assms unfolding grouped_def by auto
qed

text \<open>The fields that the links do not touch.\<close>

definition same_else :: "'d Hash \<Rightarrow> 'd Hash \<Rightarrow> bool" where
  "same_else s s' \<longleftrightarrow> htsize s' = htsize s \<and> hash_count s' = hash_count s \<and> fresh_address s' = fresh_address s \<and>
     hash_memory s' = hash_memory s \<and> (ht s' = None \<longleftrightarrow> ht s = None) \<and> payload (elements s') = payload (elements s)"

lemma same_else_trans: "same_else s s' \<Longrightarrow> same_else s' s'' \<Longrightarrow> same_else s s''"
  by (simp add: same_else_def)

definition entry_of :: "'d Hash \<Rightarrow> string \<Rightarrow> nat option" where
  "entry_of s k = (if ht s = None then None else Some (bucket_of k (htsize s)))"

lemma length_all_of: "distinct (all_of gs) \<Longrightarrow> (h, g) \<in> set gs \<Longrightarrow> length g \<le> length (all_of gs)"
  by (auto simp: in_set_conv_decomp)

lemma insert_element_spec:
  assumes "table_ok s gs" "a \<notin> set (all_of gs)" "elements s a = Some e" "length (all_of gs) < 2147483647"
  shows "\<exists>s' gs'. insertElement (entry_of s (elem_key e)) a s = Ok s' \<and> table_ok s' gs' \<and> same_else s s' \<and>
    set (all_of gs') = insert a (set (all_of gs)) \<and> (\<forall>b. b \<notin> insert a (set (all_of gs)) \<longrightarrow> elements s' b = elements s b)"
proof -
  let ?xs = "all_of gs"
  have t: "hash_first s = head_or ?xs None" "linked (elements s) None ?xs None" "distinct ?xs"
    using assms(1) by (simp_all add: table_ok_def)
  note front = link_front [OF t(2) assms(2) t(3) assms(3) t(1)]
  show ?thesis
  proof (cases "ht s")
    case None
    obtain m' where m: "link_in None a s = Ok (s\<lparr>elements := m', hash_first := Some a\<rparr>)" "link_at [] a ?xs (elements s) m'"
      using front by blast
    have "table_ok (s\<lparr>elements := m', hash_first := Some a\<rparr>) ((0, [a]) # gs)"
      using m(2) assms(1,2) None by (simp add: table_ok_def link_at_def)
    then show ?thesis using m None
      by (intro exI [of _ "s\<lparr>elements := m', hash_first := Some a\<rparr>"] exI [of _ "(0, [a]) # gs"])
        (simp add: insertElement_def entry_of_def count_in_def same_else_def link_at_def)
  next
    case (Some bs)
    let ?h = "bucket_of (elem_key e) (length bs)" and ?f = "\<lambda>m a. bucket_of (key_at m a) (length bs)"
    have g: "htsize s = length bs" "bs \<noteq> []" "grouped (?f (elements s)) bs gs" using assms(1) Some by (simp_all add: table_ok_def)
    have h: "?h < length bs" using g(2) by (simp add: bucket_of_def)
    have fa: "?f (elements s) a = ?h" using assms(3) by simp
    let ?b = "\<lparr>ht_count = ht_count (bs ! ?h) + 1, ht_chain = Some a\<rparr>" let ?s = "s\<lparr>ht := Some (bs[?h := ?b])\<rparr>"
    have keys: "payload m' = payload (elements s) \<Longrightarrow> ?f m' = ?f (elements s)" for m'
      using key_at_payload by metis
    show ?thesis
    proof (cases "map_of gs ?h")
      case none: None
      then have "ht_count (bs ! ?h) = 0" using g(3) h by (auto simp: grouped_def split: option.splits)
      then have c: "insertElement (entry_of s (elem_key e)) a s = link_in None a ?s"
        using Some g(1) h by (simp add: insertElement_def count_in_def entry_of_def entry_at_def set_entry_def)
      obtain m' where m: "link_in None a ?s = Ok (?s\<lparr>elements := m', hash_first := Some a\<rparr>)" "link_at [] a ?xs (elements s) m'"
        using link_front [of ?s ?xs a e] t assms(2,3) by auto
      have "grouped (?f (elements s)) (bs[?h := ?b]) ((?h, [a]) # gs)" by (rule grouped_new [OF g(3) h none fa])
      then have "table_ok (?s\<lparr>elements := m', hash_first := Some a\<rparr>) ((?h, [a]) # gs)"
        using m(2) assms(2) t(3) g(1,2) keys [of m'] by (simp add: table_ok_def link_at_def)
      then show ?thesis using m c Some
        by (intro exI [of _ "?s\<lparr>elements := m', hash_first := Some a\<rparr>"] exI [of _ "(?h, [a]) # gs"])
          (simp add: same_else_def link_at_def)
    next
      case some: (Some g)
      obtain g1 g2 where gs: "gs = g1 @ (?h, g) # g2" using grouped_split [OF g(3) some] by blast
      have b: "ht_count (bs ! ?h) = int (length g)" "ht_chain (bs ! ?h) = Some (hd g)" "g \<noteq> []"
        using g(3) h some by (auto simp: grouped_def gs split: option.splits)
      obtain x zs where xs: "g = x # zs" using b(3) by (cases g) auto
      have "length g \<le> length ?xs" by (rule length_all_of [OF t(3), of ?h]) (simp add: gs)
      then have c: "insertElement (entry_of s (elem_key e)) a s = link_in (Some x) a ?s"
        using Some g(1) h b xs assms(4) by (simp add: insertElement_def count_in_def entry_of_def entry_at_def set_entry_def)
      have split: "?xs = all_of g1 @ x # (zs @ all_of g2)" using gs xs by simp
      let ?gs = "g1 @ (?h, a # g) # g2"
      obtain m' where m: "link_in (Some x) a ?s = Ok (?s\<lparr>elements := m', hash_first := head_or (all_of ?gs) None\<rparr>)"
        "link_at (all_of g1) a (x # zs @ all_of g2) (elements s) m'"
        using link_middle [of ?s "all_of g1" x "zs @ all_of g2" a e] t assms(2,3) split xs by auto
      have "grouped (?f (elements s)) (bs[?h := ?b]) ?gs" by (rule grouped_add [OF g(3) [unfolded gs] fa])
      then have "table_ok (?s\<lparr>elements := m', hash_first := head_or (all_of ?gs) None\<rparr>) ?gs"
        using m(2) assms(2) t(3) g(1,2) keys [of m'] xs split by (auto simp: table_ok_def link_at_def)
      then show ?thesis using m c Some split xs
        by (intro exI [of _ "?s\<lparr>elements := m', hash_first := head_or (all_of ?gs) None\<rparr>"] exI [of _ ?gs])
          (auto simp: same_else_def link_at_def)
    qed
  qed
qed

section \<open>Searching\<close>

text \<open>The search of \<open>n\<close> elements from the first one of a group.\<close>

lemma find_loop_linked:
  "linked (elements s) pr g nx \<Longrightarrow> int (length g) < 2147483648 \<Longrightarrow>
   find_loop s k (int (length g)) (head_or g nx) = Ok (List.find (\<lambda>a. sqlite3StrICmp (key_at (elements s) a) k = 0) g)"
proof (induction g arbitrary: pr)
  case (Cons a g)
  then obtain e where e: "elements s a = Some e" "elem_next e = head_or g nx" "linked (elements s) (Some a) g nx" by auto
  then show ?case using Cons.IH [OF e(3)] Cons.prems(2)
    by (subst find_loop.simps) simp
qed (simp add: find_loop.simps)

lemma head_or_hd: "g \<noteq> [] \<Longrightarrow> head_or g p = Some (hd g)"
  by (cases g) simp_all

definition hit :: "'d Hash \<Rightarrow> string \<Rightarrow> nat \<Rightarrow> bool" where
  "hit s k a \<longleftrightarrow> folded (key_at (elements s) a) = folded k"

lemma find_element_spec:
  assumes "table_ok s gs" "\<forall>a \<in> set (all_of gs). no_nul (key_at (elements s) a)" "no_nul k" "length (all_of gs) < 2147483648" "hash_count s = length (all_of gs)"
  shows "\<exists>r h. findElementWithHash s k = Ok (r, h) \<and> (ht s \<noteq> None \<longrightarrow> h = bucket_of k (htsize s)) \<and>
    (case r of None \<Rightarrow> \<forall>a \<in> set (all_of gs). \<not> hit s k a | Some a \<Rightarrow> a \<in> set (all_of gs) \<and> hit s k a)"
proof -
  let ?P = "\<lambda>a. sqlite3StrICmp (key_at (elements s) a) k = 0"
  have P: "?P a \<longleftrightarrow> hit s k a" if "a \<in> set (all_of gs)" for a
    using that assms(2,3) StrICmp_zero by (simp add: hit_def)
  have t: "hash_first s = head_or (all_of gs) None" "linked (elements s) None (all_of gs) None"
    using assms(1) by (simp_all add: table_ok_def)
  have result: "case List.find ?P g of None \<Rightarrow> \<forall>a \<in> set (all_of gs). \<not> hit s k a | Some a \<Rightarrow> a \<in> set (all_of gs) \<and> hit s k a"
    if "set g \<subseteq> set (all_of gs)" "\<forall>a \<in> set (all_of gs) - set g. \<not> hit s k a" for g
  proof (cases "List.find ?P g")
    case None
    then have "\<forall>a \<in> set g. \<not> ?P a" by (simp add: find_None_iff)
    then show ?thesis using None that P by auto
  next
    case (Some a)
    then have "a \<in> set g \<and> ?P a" by (auto simp: find_Some_iff)
    then show ?thesis using Some that P by auto
  qed
  show ?thesis
  proof (cases "ht s")
    case None
    have "wrap32 (int (length (all_of gs))) = int (length (all_of gs))" using assms(4) by (intro wrap32_id) (simp_all add: int32_def)
    then have "findElementWithHash s k = Ok (List.find ?P (all_of gs), 0)"
      using find_loop_linked [OF t(2), of k] assms(4) unfolding findElementWithHash_def None t(1) assms(5) by simp
    then show ?thesis using result [of "all_of gs"] None by auto
  next
    case (Some bs)
    let ?h = "bucket_of k (length bs)"
    have g: "htsize s = length bs" "bs \<noteq> []" "grouped (\<lambda>a. bucket_of (key_at (elements s) a) (length bs)) bs gs"
      using assms(1) Some by (simp_all add: table_ok_def)
    have h: "?h < length bs" using g(2) by (simp add: bucket_of_def)
    have misses: "bucket_of (key_at (elements s) a) (length bs) \<noteq> ?h \<Longrightarrow> \<not> hit s k a" for a
      using hash_folded [of "key_at (elements s) a" k "length bs"] unfolding hit_def by blast
    have here: "\<exists>h g. (h, g) \<in> set gs \<and> a \<in> set g \<and> bucket_of (key_at (elements s) a) (length bs) = h" if "a \<in> set (all_of gs)" for a
      using that g(3) by (fastforce simp: all_of_def grouped_def)
    define n where "n = ht_count (bs ! ?h)"
    define p where "p = ht_chain (bs ! ?h)"
    have find: "findElementWithHash s k = obind (find_loop s k n p) (\<lambda>e. Ok (e, ?h))"
      using Some g(1) h by (simp add: findElementWithHash_def entry_at_def Let_def n_def p_def)
    show ?thesis
    proof (cases "map_of gs ?h")
      case none: None
      then have "n = 0" using g(3) h by (auto simp: grouped_def n_def split: option.splits)
      then have "findElementWithHash s k = Ok (None, ?h)" using find by (simp add: find_loop.simps)
      moreover have "\<forall>a \<in> set (all_of gs). \<not> hit s k a" using here misses none by (metis map_of_eq_None_iff image_eqI fst_conv)
      ultimately show ?thesis using g(1) by simp
    next
      case some: (Some g')
      obtain g1 g2 where gs: "gs = g1 @ (?h, g') # g2" "?h \<notin> fst ` set g1" "?h \<notin> fst ` set g2" using grouped_split [OF g(3) some] by blast
      have b: "n = int (length g')" "p = Some (hd g')" "g' \<noteq> []"
        using g(3) h some map_of_SomeD [OF some] by (auto simp: grouped_def n_def p_def split: option.splits)
      have l: "linked (elements s) (last_or (all_of g1) None) g' (head_or (all_of g2) None)"
        using t(2) gs(1) by (simp add: linked_append)
      have "length g' < 2147483648" using assms(4) gs(1) by simp
      then have "findElementWithHash s k = Ok (List.find ?P g', ?h)"
        using find find_loop_linked [OF l, of k] b head_or_hd by simp
      moreover have "\<forall>a \<in> set (all_of gs) - set g'. \<not> hit s k a"
      proof
        fix a assume a: "a \<in> set (all_of gs) - set g'"
        then obtain h' g'' where "(h', g'') \<in> set gs" "a \<in> set g''" "bucket_of (key_at (elements s) a) (length bs) = h'" using here by blast
        then have "map_of gs h' = Some g''" using g(3) by (simp add: grouped_def)
        then have "h' \<noteq> ?h" using some a \<open>a \<in> set g''\<close> by auto
        then show "\<not> hit s k a" using misses \<open>bucket_of (key_at (elements s) a) (length bs) = h'\<close> by blast
      qed
      ultimately show ?thesis using result [of g'] gs(1) g(1) by auto
    qed
  qed
qed

section \<open>Resizing\<close>

fun chained :: "(nat \<rightharpoonup> 'd HashElem) \<Rightarrow> nat list \<Rightarrow> bool" where
  "chained m [] \<longleftrightarrow> True"
| "chained m (a # xs) \<longleftrightarrow> (\<exists>e. m a = Some e \<and> elem_next e = head_or xs None) \<and> chained m xs"

lemma linked_chained: "linked m pr xs None \<Longrightarrow> chained m xs"
  by (induction xs arbitrary: pr) auto

lemma chained_frame: "chained m xs \<Longrightarrow> \<forall>a \<in> set xs. m' a = m a \<Longrightarrow> chained m' xs"
  by (induction xs) auto

lemma rehash_loop_spec:
  "table_ok s gs \<Longrightarrow> ht s \<noteq> None \<Longrightarrow> chained (elements s) ys \<Longrightarrow> distinct ys \<Longrightarrow> set ys \<inter> set (all_of gs) = {} \<Longrightarrow>
   length (all_of gs) + length ys \<le> 2147483647 \<Longrightarrow> length ys < fuel \<Longrightarrow>
   \<exists>s' gs'. rehash_loop fuel (head_or ys None) s = Ok s' \<and> table_ok s' gs' \<and> same_else s s' \<and>
     set (all_of gs') = set ys \<union> set (all_of gs) \<and> (\<forall>b. b \<notin> set ys \<union> set (all_of gs) \<longrightarrow> elements s' b = elements s b)"
proof (induction ys arbitrary: s gs fuel)
  case Nil
  then show ?case by (cases fuel) (auto simp: same_else_def)
next
  case (Cons a ys)
  obtain f where f: "fuel = Suc f" using Cons.prems(7) by (cases fuel) auto
  obtain e where e: "elements s a = Some e" "elem_next e = head_or ys None" "chained (elements s) ys" using Cons.prems(3) by auto
  have entry: "entry_of s (elem_key e) = Some (bucket_of (elem_key e) (htsize s))" using Cons.prems(2) by (simp add: entry_of_def)
  have "a \<notin> set (all_of gs)" "length (all_of gs) < 2147483647" using Cons.prems(5,6) by auto
  from insert_element_spec [OF Cons.prems(1) this(1) e(1) this(2), unfolded entry]
  obtain s1 g1 where i: "insertElement (Some (bucket_of (elem_key e) (htsize s))) a s = Ok s1" "table_ok s1 g1" "same_else s s1"
    "set (all_of g1) = insert a (set (all_of gs))" "\<forall>b. b \<notin> insert a (set (all_of gs)) \<longrightarrow> elements s1 b = elements s b" by blast
  have d: "distinct (all_of gs)" "distinct (all_of g1)" using Cons.prems(1) i(2) by (simp_all add: table_ok_def)
  have len: "length (all_of g1) = Suc (length (all_of gs))"
    using distinct_card [OF d(1)] distinct_card [OF d(2)] i(4) \<open>a \<notin> set (all_of gs)\<close> by simp
  have n: "chained (elements s1) ys" by (rule chained_frame [OF e(3)]) (use i(5) Cons.prems(4,5) in auto)
  have h: "ht s1 \<noteq> None" using Cons.prems(2) i(3) by (simp add: same_else_def)
  have ys: "distinct ys" "set ys \<inter> set (all_of g1) = {}" using Cons.prems(4,5) i(4) by auto
  have l: "length (all_of g1) + length ys \<le> 2147483647" "length ys < f" using Cons.prems(6,7) len f by simp_all
  from Cons.IH [OF i(2) h n ys l]
  obtain s' gs' where r: "rehash_loop f (head_or ys None) s1 = Ok s'" "table_ok s' gs'" "same_else s1 s'"
    "set (all_of gs') = set ys \<union> set (all_of g1)" "\<forall>b. b \<notin> set ys \<union> set (all_of g1) \<longrightarrow> elements s' b = elements s1 b"
    by blast
  have "rehash_loop fuel (head_or (a # ys) None) s = Ok s'" using f e i(1) r(1) by simp
  moreover have "set (all_of gs') = set (a # ys) \<union> set (all_of gs)" using r(4) i(4) by auto
  moreover have "\<forall>b. b \<notin> set (a # ys) \<union> set (all_of gs) \<longrightarrow> elements s' b = elements s b" using r(5) i(4,5) by auto
  ultimately show ?case using r(2) same_else_trans [OF i(3) r(3)] by blast
qed

lemma grouped_empty: "grouped f (replicate n \<lparr>ht_count = 0, ht_chain = None\<rparr>) []"
  by (simp add: grouped_def)

text \<open>The blocks of a table apart from its elements.\<close>

definition bucket_blocks :: "'d Hash \<Rightarrow> int" where
  "bucket_blocks s = (if ht s = None then 0 else 1)"

lemma rehash_table_spec:
  assumes "table_ok s gs" "length (all_of gs) \<le> hash_count s" "length (all_of gs) \<le> 2147483647" "0 < n" "\<forall>b. b \<le> usable b"
  shows "\<exists>ok s' gs'. rehash_table usable n s = Ok (ok, s') \<and> table_ok s' gs' \<and> set (all_of gs') = set (all_of gs) \<and>
    payload (elements s') = payload (elements s) \<and> (\<forall>b. b \<notin> set (all_of gs) \<longrightarrow> elements s' b = elements s b) \<and>
    hash_count s' = hash_count s \<and> fresh_address s' = fresh_address s \<and> granted (hash_memory s') = granted (hash_memory s) \<and>
    in_use (hash_memory s') - bucket_blocks s' = in_use (hash_memory s) - bucket_blocks s \<and>
    (if ok then ht s' \<noteq> None else ht s' = ht s \<and> htsize s' = htsize s)"
proof -
  define n0 where "n0 = (if n * 16 > 1024 then 1024 div 16 else n)"
  note u = rehash_table_def [of usable n s, unfolded Let_def n0_def [symmetric]]
  show ?thesis
  proof (cases "n0 = htsize s")
    case True
    then have "rehash_table usable n s = Ok (False, s)" using u by simp
    then show ?thesis using assms(1) by auto
  next
    case False
    show ?thesis
    proof (cases "hash_memory s" rule: malloc_cases)
      case (refused m1)
      then have "rehash_table usable n s = Ok (False, s\<lparr>hash_memory := m1\<rparr>)"
        using False u by simp
      moreover have "table_ok (s\<lparr>hash_memory := m1\<rparr>) gs" using assms(1) by (auto simp: table_ok_def split: option.splits)
      ultimately show ?thesis using refused by (intro exI [of _ False] exI [of _ "s\<lparr>hash_memory := m1\<rparr>"] exI [of _ gs]) (simp add: bucket_blocks_def)
    next
      case (granted m1)
      define n1 where "n1 = usable (n0 * 16) div 16"
      have "n0 * 16 div 16 \<le> n1" unfolding n1_def using assms(5) div_le_mono by blast
      then have pos: "0 < n1" using assms(4) by (auto simp: n0_def split: if_splits)
      define s1 where "s1 = (free_buckets (s\<lparr>hash_memory := m1\<rparr>))
        \<lparr>ht := Some (replicate n1 \<lparr>ht_count = 0, ht_chain = None\<rparr>), htsize := n1, hash_first := None\<rparr>"
      have v: "rehash_table usable n s = obind (rehash_loop (Suc (hash_count s)) (hash_first s) s1) (\<lambda>s2. Ok (True, s2))"
        unfolding u using False granted(1) by (simp add: n1_def s1_def)
      have f: "elements s1 = elements s" "ht s1 \<noteq> None" "hash_count s1 = hash_count s" "fresh_address s1 = fresh_address s"
        "Sqlite_Memory.granted (hash_memory s1) = Sqlite_Memory.granted (hash_memory s)"
        "in_use (hash_memory s1) - 1 = in_use (hash_memory s) - bucket_blocks s"
        using granted(2,3) by (simp_all add: s1_def free_buckets_def sqlite3_free_def bucket_blocks_def)
      have t1: "table_ok s1 []"
        using pos grouped_empty by (auto simp: s1_def free_buckets_def table_ok_def)
      have t: "hash_first s = head_or (all_of gs) None" "chained (elements s) (all_of gs)" "distinct (all_of gs)"
        using assms(1) linked_chained by (auto simp: table_ok_def)
      from rehash_loop_spec [OF t1 f(2), of "all_of gs" "Suc (hash_count s)"] t(2,3) f(1) assms(2,3)
      obtain s' gs' where r: "rehash_loop (Suc (hash_count s)) (head_or (all_of gs) None) s1 = Ok s'" "table_ok s' gs'" "same_else s1 s'"
        "set (all_of gs') = set (all_of gs)" "\<forall>b. b \<notin> set (all_of gs) \<longrightarrow> elements s' b = elements s b" by auto
      have b: "bucket_blocks s' = 1" "ht s' \<noteq> None" using r(3) f(2) by (simp_all add: same_else_def bucket_blocks_def)
      then show ?thesis using v t(1) f r
        by (intro exI [of _ True] exI [of _ s'] exI [of _ gs']) (simp add: same_else_def del: rehash_loop.simps)
    qed
  qed
qed

section \<open>Removing\<close>

lemma clear_loop_spec:
  "chained (elements s) xs \<Longrightarrow> distinct xs \<Longrightarrow> length xs < fuel \<Longrightarrow>
   \<exists>m. clear_loop fuel (head_or xs None) s = Ok (s\<lparr>elements := (\<lambda>b. if b \<in> set xs then None else elements s b), hash_memory := m\<rparr>) \<and>
     granted m = granted (hash_memory s) \<and> in_use m = in_use (hash_memory s) - int (length xs)"
proof (induction xs arbitrary: s fuel)
  case Nil
  then obtain f where "fuel = Suc f" by (cases fuel) auto
  then show ?case by (intro exI [of _ "hash_memory s"]) simp
next
  case (Cons a xs)
  obtain f where f: "fuel = Suc f" using Cons.prems(3) by (cases fuel) auto
  obtain e where e: "elements s a = Some e" "elem_next e = head_or xs None" "chained (elements s) xs" using Cons.prems(1) by auto
  define s1 where "s1 = s\<lparr>elements := (elements s)(a := None), hash_memory := sqlite3_free (hash_memory s)\<rparr>"
  have "chained (elements s1) xs" by (rule chained_frame [OF e(3)]) (use Cons.prems(2) in \<open>auto simp: s1_def\<close>)
  from Cons.IH [OF this, of f] Cons.prems(2,3) f obtain m where
    m: "clear_loop f (head_or xs None) s1 = Ok (s1\<lparr>elements := (\<lambda>b. if b \<in> set xs then None else elements s1 b), hash_memory := m\<rparr>)"
    "granted m = granted (hash_memory s1)" "in_use m = in_use (hash_memory s1) - int (length xs)" by auto
  have "(\<lambda>b. if b \<in> set xs then None else elements s1 b) = (\<lambda>b. if b \<in> set (a # xs) then None else elements s b)"
    by (auto simp: s1_def)
  then show ?case using f e m by (intro exI [of _ m]) (simp add: s1_def sqlite3_free_def)
qed

lemma clear_spec:
  assumes "table_ok s gs" "length (all_of gs) \<le> hash_count s"
  shows "\<exists>m. sqlite3HashClear s = Ok (s\<lparr>elements := (\<lambda>b. if b \<in> set (all_of gs) then None else elements s b), hash_memory := m,
      hash_first := None, htsize := 0, ht := None, hash_count := 0\<rparr>) \<and>
    granted m = granted (hash_memory s) \<and> in_use m = in_use (hash_memory s) - bucket_blocks s - int (length (all_of gs))"
proof -
  define s1 where "s1 = (free_buckets s)\<lparr>hash_first := None, htsize := 0\<rparr>"
  have t: "hash_first s = head_or (all_of gs) None" "distinct (all_of gs)" "chained (elements s1) (all_of gs)"
    using assms(1) linked_chained by (auto simp: table_ok_def s1_def free_buckets_def)
  from clear_loop_spec [OF t(3,2), of "Suc (hash_count s)"] assms(2)
  obtain m where m: "clear_loop (Suc (hash_count s)) (head_or (all_of gs) None) s1 =
      Ok (s1\<lparr>elements := (\<lambda>b. if b \<in> set (all_of gs) then None else elements s1 b), hash_memory := m\<rparr>)"
    "granted m = granted (hash_memory s1)" "in_use m = in_use (hash_memory s1) - int (length (all_of gs))" by auto
  have es: "elements s1 = elements s" by (simp add: s1_def free_buckets_def)
  have "sqlite3HashClear s = Ok (s1\<lparr>elements := (\<lambda>b. if b \<in> set (all_of gs) then None else elements s1 b), hash_memory := m, hash_count := 0\<rparr>)"
    using m(1) t(1) by (simp add: sqlite3HashClear_def s1_def [symmetric])
  moreover have "s1\<lparr>elements := f, hash_memory := m, hash_count := 0\<rparr> =
      s\<lparr>elements := f, hash_memory := m, hash_first := None, htsize := 0, ht := None, hash_count := 0\<rparr>" for f
    by (cases s) (simp add: s1_def free_buckets_def)
  moreover have "granted m = granted (hash_memory s)" "in_use m = in_use (hash_memory s) - bucket_blocks s - int (length (all_of gs))"
    using m(2,3) by (simp_all add: s1_def free_buckets_def sqlite3_free_def bucket_blocks_def)
  ultimately show ?thesis unfolding es by auto
qed

lemma link_out_spec:
  assumes "linked (elements s) None (pre @ a # post) None" "distinct (pre @ a # post)" "hash_first s = head_or (pre @ a # post) None"
  shows "\<exists>m'. link_out a s = Ok (s\<lparr>elements := m', hash_first := head_or (pre @ post) None\<rparr>) \<and>
    linked m' None (pre @ post) None \<and> payload m' = payload (elements s) \<and>
    (\<exists>e. m' a = Some e \<and> elem_next e = head_or post None) \<and> (\<forall>b. b \<notin> set (pre @ post) \<longrightarrow> m' b = elements s b)"
proof -
  obtain e where e: "elements s a = Some e" "elem_prev e = last_or pre None" "elem_next e = head_or post None"
    using assms(1) by (auto simp: linked_append)
  define m1 where "m1 = (case pre of [] \<Rightarrow> elements s | _ \<Rightarrow> (elements s)(last pre := map_option (\<lambda>x. x\<lparr>elem_next := elem_next e\<rparr>) (elements s (last pre))))"
  define s1 where "s1 = s\<lparr>elements := m1, hash_first := head_or (pre @ post) None\<rparr>"
  have one: "(case elem_prev e of Some q \<Rightarrow> set_next q (elem_next e) s | None \<Rightarrow> Ok (s\<lparr>hash_first := elem_next e\<rparr>)) = Ok s1"
    and l1: "linked m1 None pre (head_or post None)" "linked m1 (Some a) post None" "m1 a = Some e" "payload m1 = payload (elements s)"
      "\<forall>b. b \<notin> set pre \<longrightarrow> m1 b = elements s b"
  proof -
    have "(case elem_prev e of Some q \<Rightarrow> set_next q (elem_next e) s | None \<Rightarrow> Ok (s\<lparr>hash_first := elem_next e\<rparr>)) = Ok s1 \<and>
      linked m1 None pre (head_or post None) \<and> linked m1 (Some a) post None \<and> m1 a = Some e \<and> payload m1 = payload (elements s) \<and>
      (\<forall>b. b \<notin> set pre \<longrightarrow> m1 b = elements s b)"
    proof (cases pre rule: rev_cases)
      case Nil
      then show ?thesis using assms e by (cases s) (auto simp: m1_def s1_def)
    next
      case (snoc us q)
      obtain x where x: "elements s q = Some x" "elem_prev x = last_or us None" using assms(1) snoc by (auto simp: linked_append)
      have m1: "m1 = (elements s)(q \<mapsto> x\<lparr>elem_next := elem_next e\<rparr>)" using snoc x by (cases us) (auto simp: m1_def)
      have "hash_first s = head_or (pre @ post) None" using assms(3) snoc by (cases us) simp_all
      then show ?thesis using assms(1,2) e x snoc unfolding s1_def m1
        by (auto simp: set_next_def set_elem_def linked_append payload_def fun_eq_iff same_first)
    qed
    then show "(case elem_prev e of Some q \<Rightarrow> set_next q (elem_next e) s | None \<Rightarrow> Ok (s\<lparr>hash_first := elem_next e\<rparr>)) = Ok s1"
      "linked m1 None pre (head_or post None)" "linked m1 (Some a) post None" "m1 a = Some e" "payload m1 = payload (elements s)"
      "\<forall>b. b \<notin> set pre \<longrightarrow> m1 b = elements s b" by blast+
  qed
  have l: "link_out a s = (case elem_next e of Some q \<Rightarrow> set_prev q (elem_prev e) s1 | None \<Rightarrow> Ok s1)"
  proof -
    have "elements s1 a = Some e" using l1(3) by (simp add: s1_def)
    then show ?thesis using one e(1) by (simp add: link_out_def)
  qed
  show ?thesis
  proof (cases post)
    case Nil
    then show ?thesis using l e l1 by (intro exI [of _ m1]) (auto simp: s1_def)
  next
    case (Cons q vs)
    obtain x where x: "m1 q = Some x" "elem_next x = head_or vs None" "linked m1 (Some q) vs None" using l1(2) Cons by auto
    have q: "q \<noteq> a" "q \<notin> set pre" "q \<notin> set vs" using assms(2) Cons by auto
    let ?m = "m1(q \<mapsto> x\<lparr>elem_prev := elem_prev e\<rparr>)"
    have "link_out a s = Ok (s\<lparr>elements := ?m, hash_first := head_or (pre @ post) None\<rparr>)"
      using l e(3) Cons x(1) by (simp add: set_prev_def set_elem_def s1_def)
    moreover have "linked ?m None (pre @ post) None" using Cons l1(1) x e(2) q by (simp add: linked_append)
    moreover have "payload ?m = payload m1" using x(1) by (auto simp: payload_def fun_eq_iff)
    then have "payload ?m = payload (elements s)" using l1(4) by simp
    ultimately show ?thesis using Cons l1(3,5) e(3) q by (intro exI [of _ ?m]) auto
  qed
qed

lemma grouped_remove:
  assumes "grouped f bs (g1 @ (h, us @ a # vs) # g2)" "distinct (us @ a # vs)" "vs \<noteq> [] \<longrightarrow> nx = Some (hd vs)"
  shows "grouped f (bs[h := \<lparr>ht_count = ht_count (bs ! h) - 1, ht_chain = (if ht_chain (bs ! h) = Some a then nx else ht_chain (bs ! h))\<rparr>])
    (g1 @ (if us @ vs = [] then [] else [(h, us @ vs)]) @ g2)" (is "grouped f (bs[h := ?b]) ?gs")
proof -
  have h: "h \<notin> fst ` set g1" "h \<notin> fst ` set g2" using assms(1) by (auto simp: grouped_def)
  have l: "h < length bs" using assms(1) by (auto simp: grouped_def)
  have at_h: "ht_count (bs ! h) = int (length (us @ a # vs))" "ht_chain (bs ! h) = Some (hd (us @ a # vs))"
    using assms(1) l unfolding grouped_def map_of_middle [OF h(1)] by auto
  have m: "map_of ?gs k = (if k = h then (if us @ vs = [] then None else Some (us @ vs)) else map_of (g1 @ g2) k)" for k
  proof (cases "us @ vs = []")
    case True
    then show ?thesis using h by (auto simp: map_of_eq_None_iff simp del: map_of_append)
  next
    case False
    then have gs: "?gs = g1 @ (h, us @ vs) # g2" by auto
    show ?thesis unfolding gs map_of_middle [OF h(1)] using False by auto
  qed
  have "case map_of ?gs k of None \<Rightarrow> ht_count (bs[h := ?b] ! k) = 0
      | Some g \<Rightarrow> ht_count (bs[h := ?b] ! k) = int (length g) \<and> ht_chain (bs[h := ?b] ! k) = Some (hd g)"
    if "k < length bs" for k
  proof (cases "h = k")
    case True
    have "us \<noteq> [] \<Longrightarrow> hd us \<noteq> a" using assms(2) by (cases us) auto
    then show ?thesis using True l at_h assms(3) unfolding m by (cases us) auto
  next
    case False
    have "case if k = h then Some (us @ a # vs) else map_of (g1 @ g2) k of None \<Rightarrow> ht_count (bs ! k) = 0
        | Some g \<Rightarrow> ht_count (bs ! k) = int (length g) \<and> ht_chain (bs ! k) = Some (hd g)"
      using assms(1) that unfolding grouped_def map_of_middle [OF h(1)] by blast
    then show ?thesis using False unfolding m by (auto split: option.splits)
  qed
  then show ?thesis using assms unfolding grouped_def by auto
qed

section \<open>The map a table represents\<close>

text \<open>The elements on the list from its front, and what they say.\<close>

fun listed :: "nat \<Rightarrow> (nat \<rightharpoonup> 'd HashElem) \<Rightarrow> nat option \<Rightarrow> 'd HashElem list" where
  "listed (Suc n) m (Some a) = (case m a of None \<Rightarrow> [] | Some e \<Rightarrow> e # listed n m (elem_next e))"
| "listed n m p = []"

definition contents :: "'d Hash \<Rightarrow> nat list \<rightharpoonup> 'd" where
  "contents s = map_of (map (\<lambda>e. (folded (elem_key e), the (elem_data e))) (listed (hash_count s) (elements s) (hash_first s)))"

definition sound :: "(nat \<rightharpoonup> string \<times> 'd option) \<Rightarrow> bool" where
  "sound P \<longleftrightarrow>
     (\<forall>a k d. P a = Some (k, d) \<longrightarrow> no_nul k \<and> d \<noteq> None) \<and>
     (\<forall>a b k k' d d'. P a = Some (k, d) \<longrightarrow> P b = Some (k', d') \<longrightarrow> folded k = folded k' \<longrightarrow> a = b)"

definition hash_inv :: "'d Hash \<Rightarrow> (nat \<times> nat list) list \<Rightarrow> bool" where
  "hash_inv s gs \<longleftrightarrow>
     table_ok s gs \<and> dom (elements s) = set (all_of gs) \<and> hash_count s = length (all_of gs) \<and>
     (\<forall>a \<in> dom (elements s). a < fresh_address s) \<and> sound (payload (elements s))"

definition represents :: "(nat \<rightharpoonup> string \<times> 'd option) \<Rightarrow> (nat list \<rightharpoonup> 'd) \<Rightarrow> bool" where
  "represents P M \<longleftrightarrow> (\<forall>K d. M K = Some d \<longleftrightarrow> (\<exists>a k. P a = Some (k, Some d) \<and> folded k = K))"

lemma represents_unique: "represents P M \<Longrightarrow> represents P M' \<Longrightarrow> M = M'"
proof
  fix K
  assume "represents P M" "represents P M'"
  then have "M K = Some d \<longleftrightarrow> M' K = Some d" for d by (simp add: represents_def)
  then show "M K = M' K" by (metis option.exhaust)
qed

lemma represents_add:
  assumes "sound P" "represents P M" "P a = None" "M (folded k) = None" "no_nul k"
  shows "sound (P(a \<mapsto> (k, Some d)))" "represents (P(a \<mapsto> (k, Some d))) (M(folded k \<mapsto> d))"
proof -
  have none: "P b = Some (k', d') \<Longrightarrow> folded k' \<noteq> folded k" for b k' d'
    using assms(1,2,4) unfolding sound_def represents_def by (metis not_None_eq)
  then show "sound (P(a \<mapsto> (k, Some d)))" using assms(1,5) unfolding sound_def by (auto split: if_splits) metis+
  show "represents (P(a \<mapsto> (k, Some d))) (M(folded k \<mapsto> d))"
    using assms(2,3) none unfolding represents_def by (auto split: if_splits) (metis option.distinct(1))
qed

lemma represents_replace:
  assumes "sound P" "represents P M" "P a = Some (k0, d0)" "folded k0 = folded k" "no_nul k"
  shows "sound (P(a \<mapsto> (k, Some d)))" "represents (P(a \<mapsto> (k, Some d))) (M(folded k \<mapsto> d))"
proof -
  have other: "P b = Some (k', d') \<Longrightarrow> b \<noteq> a \<Longrightarrow> folded k' \<noteq> folded k" for b k' d'
    using assms(1,3,4) unfolding sound_def by metis
  show "sound (P(a \<mapsto> (k, Some d)))" using assms(1,3,4,5) unfolding sound_def by (auto split: if_splits)
  show "represents (P(a \<mapsto> (k, Some d))) (M(folded k \<mapsto> d))"
    using assms(2,3,4) other unfolding represents_def by (auto split: if_splits) (metis prod.inject option.inject)+
qed

lemma represents_delete:
  assumes "sound P" "represents P M" "P a = Some (k0, d0)" "folded k0 = folded k"
  shows "sound (P(a := None))" "represents (P(a := None)) (M(folded k := None))"
proof -
  have other: "P b = Some (k', d') \<Longrightarrow> b \<noteq> a \<Longrightarrow> folded k' \<noteq> folded k" for b k' d'
    using assms(1,3,4) unfolding sound_def by metis
  show "sound (P(a := None))" using assms(1) unfolding sound_def by (auto split: if_splits)
  show "represents (P(a := None)) (M(folded k := None))"
    using assms(2,3,4) other unfolding represents_def by (auto split: if_splits) (metis prod.inject option.inject)+
qed

lemma listed_chained: "chained m xs \<Longrightarrow> listed (length xs) m (head_or xs None) = map (\<lambda>a. the (m a)) xs"
  by (induction xs) auto

lemma contents_represented:
  assumes "hash_inv s gs"
  shows "represents (payload (elements s)) (contents s)"
proof -
  let ?m = "elements s" and ?xs = "all_of gs"
  have t: "hash_first s = head_or ?xs None" "chained ?m ?xs" "distinct ?xs" "dom ?m = set ?xs" "hash_count s = length ?xs" "sound (payload ?m)"
    using assms linked_chained by (auto simp: hash_inv_def table_ok_def)
  have c: "contents s = map_of (map (\<lambda>a. (folded (elem_key (the (?m a))), the (elem_data (the (?m a))))) ?xs)"
    using listed_chained [OF t(2)] t(1,5) by (simp add: contents_def comp_def)
  have "distinct (map (\<lambda>a. folded (elem_key (the (?m a)))) ?xs)"
    unfolding distinct_map
  proof (intro conjI t(3) inj_onI)
    fix a b assume ab: "a \<in> set ?xs" "b \<in> set ?xs" and f: "folded (elem_key (the (?m a))) = folded (elem_key (the (?m b)))"
    obtain e e' where "?m a = Some e" "?m b = Some e'" using ab t(4) by blast
    then have "payload ?m a = Some (elem_key e, elem_data e)" "payload ?m b = Some (elem_key e', elem_data e')"
      "folded (elem_key e) = folded (elem_key e')" using f by (simp_all add: payload_def)
    then show "a = b" using t(6) unfolding sound_def by metis
  qed
  then have "contents s K = Some d \<longleftrightarrow> (\<exists>a \<in> set ?xs. K = folded (elem_key (the (?m a))) \<and> d = the (elem_data (the (?m a))))" for K d
    unfolding c by (subst map_of_eq_Some_iff) (auto simp: comp_def)
  moreover have "(\<exists>a \<in> set ?xs. K = folded (elem_key (the (?m a))) \<and> d = the (elem_data (the (?m a)))) \<longleftrightarrow>
      (\<exists>a k. payload ?m a = Some (k, Some d) \<and> folded k = K)" for K d
  proof
    assume "\<exists>a \<in> set ?xs. K = folded (elem_key (the (?m a))) \<and> d = the (elem_data (the (?m a)))"
    then obtain a where a: "a \<in> set ?xs" "K = folded (elem_key (the (?m a)))" "d = the (elem_data (the (?m a)))" by blast
    obtain e where "?m a = Some e" using a(1) t(4) by blast
    then have "?m a = Some e" "K = folded (elem_key e)" "d = the (elem_data e)" using a by simp_all
    moreover from this(1) have "elem_data e \<noteq> None" using t(6) unfolding sound_def by (metis payload_Some)
    ultimately show "\<exists>a k. payload ?m a = Some (k, Some d) \<and> folded k = K" by (auto simp: payload_def intro!: exI [of _ a])
  next
    assume "\<exists>a k. payload ?m a = Some (k, Some d) \<and> folded k = K"
    then obtain a e where "?m a = Some e" "folded (elem_key e) = K" "elem_data e = Some d" by (auto simp: payload_Some)
    moreover from this(1) have "a \<in> set ?xs" using t(4) by blast
    ultimately show "\<exists>a \<in> set ?xs. K = folded (elem_key (the (?m a))) \<and> d = the (elem_data (the (?m a)))" by (intro bexI [of _ a]) auto
  qed
  ultimately show ?thesis by (simp add: represents_def)
qed

lemma contents_eq: "hash_inv s gs \<Longrightarrow> represents (payload (elements s)) M \<Longrightarrow> contents s = M"
  using contents_represented represents_unique by blast

text \<open>Where a search ends.\<close>

lemma find_cases:
  assumes "hash_inv s gs" "no_nul k" "hash_count s < 2147483648"
  obtains (found) a h e d where "findElementWithHash s k = Ok (Some a, h)" "elements s a = Some e" "elem_data e = Some d"
      "folded (elem_key e) = folded k" "contents s (folded k) = Some d" "ht s \<noteq> None \<longrightarrow> h = bucket_of k (htsize s)" "a \<in> set (all_of gs)"
  | (absent) h where "findElementWithHash s k = Ok (None, h)" "contents s (folded k) = None" "ht s \<noteq> None \<longrightarrow> h = bucket_of k (htsize s)"
proof -
  have t: "table_ok s gs" "dom (elements s) = set (all_of gs)" "hash_count s = length (all_of gs)" "sound (payload (elements s))"
    using assms(1) by (simp_all add: hash_inv_def)
  have keys: "\<forall>a \<in> set (all_of gs). no_nul (key_at (elements s) a)"
  proof
    fix a assume "a \<in> set (all_of gs)"
    then obtain e where e: "elements s a = Some e" using t(2) by blast
    then have "payload (elements s) a = Some (elem_key e, elem_data e)" by (simp add: payload_def)
    then show "no_nul (key_at (elements s) a)" using t(4) e unfolding sound_def by (metis key_at_simps)
  qed
  note hold = contents_represented [OF assms(1), unfolded represents_def]
  obtain r h where f: "findElementWithHash s k = Ok (r, h)" "ht s \<noteq> None \<longrightarrow> h = bucket_of k (htsize s)"
    "case r of None \<Rightarrow> \<forall>a \<in> set (all_of gs). \<not> hit s k a | Some a \<Rightarrow> a \<in> set (all_of gs) \<and> hit s k a"
    using find_element_spec [OF t(1) keys assms(2)] assms(3) t(3) by auto
  show thesis
  proof (cases r)
    case None
    have "contents s (folded k) = None"
    proof (rule ccontr)
      assume "contents s (folded k) \<noteq> None"
      then obtain d a k' where p: "payload (elements s) a = Some (k', Some d)" "folded k' = folded k" using hold by blast
      then have "a \<in> set (all_of gs)" "hit s k a" using t(2) by (auto simp: payload_Some hit_def)
      then show False using f(3) None by simp
    qed
    then show thesis using absent f(1,2) None by blast
  next
    case (Some a)
    then have a: "a \<in> set (all_of gs)" "hit s k a" using f(3) by simp_all
    obtain e where e: "elements s a = Some e" using a(1) t(2) by blast
    then obtain d where d: "elem_data e = Some d" using t(4) unfolding sound_def by (metis payload_Some not_None_eq)
    have k: "folded (elem_key e) = folded k" using a(2) e by (simp add: hit_def)
    have "contents s (folded k) = Some d" using hold e d k by (metis payload_Some)
    then show thesis using found f(1,2) Some e d k a(1) by blast
  qed
qed

lemma find_spec:
  assumes "hash_inv s gs" "no_nul k" "hash_count s < 2147483648"
  shows "sqlite3HashFind s k = Ok (contents s (folded k))"
  using find_cases [OF assms] by cases (simp_all add: sqlite3HashFind_def)

text \<open>The blocks of a table.\<close>

definition hash_blocks :: "'d Hash \<Rightarrow> int" where
  "hash_blocks s = bucket_blocks s + int (hash_count s)"

text \<open>What an operation keeps: the invariant and the balance of the memory.\<close>

definition keeps :: "'d Hash \<Rightarrow> 'd Hash \<Rightarrow> bool" where
  "keeps s s' \<longleftrightarrow> (\<exists>gs'. hash_inv s' gs') \<and> hash_count s' \<le> Suc (hash_count s) \<and> granted (hash_memory s') = granted (hash_memory s) \<and>
     in_use (hash_memory s') - hash_blocks s' = in_use (hash_memory s) - hash_blocks s"

lemma table_ok_cong:
  assumes "table_ok s gs" "hash_first s' = hash_first s" "ht s' = ht s" "htsize s' = htsize s"
    "\<forall>a \<in> set (all_of gs). elements s' a = elements s a"
  shows "table_ok s' gs"
proof -
  have "linked (elements s') None (all_of gs) None" using assms(1,5) linked_frame unfolding table_ok_def by blast
  moreover have "grouped (\<lambda>a. bucket_of (key_at (elements s') a) n) bs gs" if "grouped (\<lambda>a. bucket_of (key_at (elements s) a) n) bs gs" for bs n
  proof -
    have "a \<in> set g \<Longrightarrow> (h, g) \<in> set gs \<Longrightarrow> key_at (elements s') a = key_at (elements s) a" for h g a
      using assms(5) by (force simp: key_at_def payload_def all_of_def)
    then show ?thesis using that unfolding grouped_def by auto
  qed
  ultimately show ?thesis using assms(1-4) unfolding table_ok_def by (auto split: option.splits)
qed

lemma unlinked:
  assumes "table_ok s gs" "elements s a = Some e" "a \<in> set (all_of gs)" "ht s \<noteq> None \<longrightarrow> h = bucket_of (elem_key e) (htsize s)"
  shows "\<exists>s' gs'. obind (link_out a s) (count_out a h) = Ok s' \<and> table_ok s' gs' \<and> same_else s s' \<and>
    set (all_of gs') = set (all_of gs) - {a}"
proof -
  have t: "hash_first s = head_or (all_of gs) None" "linked (elements s) None (all_of gs) None" "distinct (all_of gs)"
    using assms(1) by (simp_all add: table_ok_def)
  show ?thesis
  proof (cases "ht s")
    case None
    obtain pre post where split: "all_of gs = pre @ a # post" using assms(3) by (meson split_list)
    from link_out_spec [of s pre a post] t split obtain m' where
      m: "link_out a s = Ok (s\<lparr>elements := m', hash_first := head_or (pre @ post) None\<rparr>)" "linked m' None (pre @ post) None"
        "payload m' = payload (elements s)" by auto
    then show ?thesis using None assms(1) t(3) split
      by (intro exI [of _ "s\<lparr>elements := m', hash_first := head_or (pre @ post) None\<rparr>"] exI [of _ "[(0, pre @ post)]"])
        (auto simp: count_out_def table_ok_def same_else_def)
  next
    case (Some bs)
    let ?f = "\<lambda>m a. bucket_of (key_at m a) (length bs)"
    have g: "htsize s = length bs" "bs \<noteq> []" "grouped (?f (elements s)) bs gs" using assms(1) Some by (simp_all add: table_ok_def)
    obtain g' h' where "(h', g') \<in> set gs" "a \<in> set g'" using assms(3) by (auto simp: all_of_def)
    then obtain g1 g2 us vs where gs: "gs = g1 @ (h', us @ a # vs) # g2" by (metis split_list)
    have h: "h' = h" using g(3) assms(2,4) Some g(1) by (auto simp: grouped_def gs)
    have len: "h < length bs" using assms(4) Some g(1,2) by (simp add: bucket_of_def)
    let ?pre = "all_of g1 @ us" and ?post = "vs @ all_of g2"
    have split: "all_of gs = ?pre @ a # ?post" using gs by simp
    from link_out_spec [of s ?pre a ?post] t split obtain m' x where
      m: "link_out a s = Ok (s\<lparr>elements := m', hash_first := head_or (?pre @ ?post) None\<rparr>)" "linked m' None (?pre @ ?post) None"
        "payload m' = payload (elements s)" "m' a = Some x" "elem_next x = head_or ?post None" by auto
    define b where "b = \<lparr>ht_count = ht_count (bs ! h) - 1, ht_chain = (if ht_chain (bs ! h) = Some a then head_or ?post None else ht_chain (bs ! h))\<rparr>"
    define gs' where "gs' = g1 @ (if us @ vs = [] then [] else [(h, us @ vs)]) @ g2"
    have "grouped (?f (elements s)) (bs[h := b]) gs'"
      unfolding b_def gs'_def by (rule grouped_remove) (use g(3) t(3) gs h in \<open>auto simp: head_or_append head_or_hd\<close>)
    moreover have "?f m' = ?f (elements s)" using key_at_payload [OF m(3)] by simp
    moreover have all: "all_of gs' = ?pre @ ?post" by (simp add: gs'_def)
    ultimately have "table_ok (s\<lparr>elements := m', hash_first := head_or (?pre @ ?post) None, ht := Some (bs[h := b])\<rparr>) gs'"
      using m(2) t(3) g(1,2) split by (auto simp: table_ok_def)
    moreover have "obind (link_out a s) (count_out a h) =
        Ok (s\<lparr>elements := m', hash_first := head_or (?pre @ ?post) None, ht := Some (bs[h := b])\<rparr>)"
      using m(1,4,5) Some len by (simp add: count_out_def entry_at_def set_entry_def b_def)
    moreover have "set (all_of gs') = set (all_of gs) - {a}" using all split t(3) by auto
    ultimately show ?thesis using m(3) Some by (auto simp: same_else_def)
  qed
qed

lemma remove_spec:
  assumes "hash_inv s gs" "elements s a = Some e" "elem_data e = Some d" "folded (elem_key e) = folded k" "hash_count s < 2147483648"
    "ht s \<noteq> None \<longrightarrow> h = bucket_of k (htsize s)"
  shows "\<exists>s'. removeElementGivenHash a h s = Ok s' \<and> keeps s s' \<and> contents s' = (contents s)(folded k := None)"
proof -
  have t: "table_ok s gs" "dom (elements s) = set (all_of gs)" "hash_count s = length (all_of gs)" "sound (payload (elements s))"
    "\<forall>a \<in> dom (elements s). a < fresh_address s" "distinct (all_of gs)"
    using assms(1) by (simp_all add: hash_inv_def table_ok_def)
  have a: "a \<in> set (all_of gs)" using assms(2) t(2) by blast
  have "ht s \<noteq> None \<longrightarrow> h = bucket_of (elem_key e) (htsize s)" using assms(6) hash_folded [OF assms(4)] by simp
  from unlinked [OF t(1) assms(2) a this] obtain s1 g1 where
    u: "obind (link_out a s) (count_out a h) = Ok s1" "table_ok s1 g1" "same_else s s1" "set (all_of g1) = set (all_of gs) - {a}" by blast
  have d1: "distinct (all_of g1)" using u(2) by (simp add: table_ok_def)
  have len: "length (all_of gs) = Suc (length (all_of g1))"
    using distinct_card [OF t(6)] distinct_card [OF d1] u(4) a by (metis card.remove finite_set)
  have p1: "payload (elements s1) = payload (elements s)" and c1: "hash_count s1 = length (all_of gs)" using u(3) t(3) by (simp_all add: same_else_def)
  define s2 where "s2 = s1\<lparr>elements := (elements s1)(a := None), hash_memory := sqlite3_free (hash_memory s1),
      hash_count := u32 (hash_count s1 + (2 ^ 32 - 1))\<rparr>"
  have c2: "hash_count s2 = length (all_of g1)" using c1 len assms(5) t(3) by (simp add: s2_def u32_def)
  have t2: "table_ok s2 g1" by (rule table_ok_cong [OF u(2)]) (use u(4) in \<open>auto simp: s2_def\<close>)
  have p2: "payload (elements s2) = (payload (elements s))(a := None)" using p1 by (auto simp: s2_def fun_eq_iff)
  have pa: "payload (elements s) a = Some (elem_key e, elem_data e)" using assms(2) by (simp add: payload_def)
  note del = represents_delete [OF t(4) contents_represented [OF assms(1)] pa assms(4), folded p2]
  have dom2: "dom (elements s2) = set (all_of g1)"
    using payload_dom [OF p1] t(2) u(4) by (simp add: s2_def)
  have i2: "hash_inv s2 g1"
    using t2 dom2 c2 del(1) t(2,5) u(3,4) by (auto simp: hash_inv_def s2_def same_else_def)
  have b2: "in_use (hash_memory s2) - hash_blocks s2 = in_use (hash_memory s) - hash_blocks s" "granted (hash_memory s2) = granted (hash_memory s)"
    using u(3) c1 c2 len t(3) by (simp_all add: s2_def same_else_def hash_blocks_def bucket_blocks_def sqlite3_free_def)
  have r: "removeElementGivenHash a h s = (if hash_count s2 = 0 then sqlite3HashClear s2 else Ok s2)"
    using u(1) by (simp add: removeElementGivenHash_def s2_def Let_def)
  show ?thesis
  proof (cases "hash_count s2 = 0")
    case False
    then show ?thesis using r i2 b2 contents_eq [OF i2 del(2)] c2 len t(3) by (auto simp: keeps_def)
  next
    case True
    then have e: "all_of g1 = []" using c2 by simp
    from clear_spec [OF t2] e obtain m where m: "sqlite3HashClear s2 =
        Ok (s2\<lparr>elements := elements s2, hash_memory := m, hash_first := None, htsize := 0, ht := None, hash_count := 0\<rparr>)"
      "granted m = granted (hash_memory s2)" "in_use m = in_use (hash_memory s2) - bucket_blocks s2" by auto
    let ?s = "s2\<lparr>elements := elements s2, hash_memory := m, hash_first := None, htsize := 0, ht := None, hash_count := 0\<rparr>"
    have "hash_inv ?s []" using i2 e by (simp add: hash_inv_def table_ok_def sound_def payload_def)
    moreover from this have "contents ?s = (contents s)(folded k := None)" by (rule contents_eq) (use del(2) in simp)
    ultimately show ?thesis using r m True b2 by (auto simp: keeps_def hash_blocks_def bucket_blocks_def)
  qed
qed

lemma insert_new_spec:
  assumes "hash_inv s gs" "no_nul k" "hash_count s < 2147483647" "contents s (folded k) = None" "\<forall>b. b \<le> usable b"
    "ht s \<noteq> None \<longrightarrow> h = bucket_of k (htsize s)" "sqlite3Malloc (hash_memory s) = (True, m1)"
    "in_use m1 = in_use (hash_memory s) + 1" "granted m1 = granted (hash_memory s)"
  shows "\<exists>h1 s2 s3. (let s1 = new_element k d m1 s in
      if 10 \<le> hash_count s1 \<and> u32 (2 * htsize s1) < hash_count s1
      then obind (rehash_table usable (u32 (hash_count s1 * 2)) s1) (\<lambda>(ok, s2). Ok (if ok then bucket_of k (htsize s2) else h, s2))
      else Ok (h, s1)) = Ok (h1, s2) \<and>
    insertElement (if ht s2 = None then None else Some h1) (fresh_address s) s2 = Ok s3 \<and>
    keeps s s3 \<and> contents s3 = (contents s)(folded k \<mapsto> d)"
proof -
  define s1 where "s1 = new_element k d m1 s"
  let ?a = "fresh_address s"
  have t: "table_ok s gs" "dom (elements s) = set (all_of gs)" "hash_count s = length (all_of gs)" "sound (payload (elements s))"
    "\<forall>a \<in> dom (elements s). a < ?a" "distinct (all_of gs)"
    using assms(1) by (simp_all add: hash_inv_def table_ok_def)
  have fresh: "?a \<notin> set (all_of gs)" "elements s ?a = None" using t(2,5) by auto
  have c1: "hash_count s1 = Suc (length (all_of gs))" using assms(3) t(3) by (simp add: s1_def new_element_def u32_def)
  have e1: "elements s1 = (elements s)(?a \<mapsto> \<lparr>elem_next = None, elem_prev = None, elem_data = Some d, elem_key = k\<rparr>)"
    "ht s1 = ht s" "htsize s1 = htsize s" "fresh_address s1 = Suc ?a" "hash_memory s1 = m1"
    by (simp_all add: s1_def new_element_def)
  have t1: "table_ok s1 gs"
    by (rule table_ok_cong [OF t(1)]) (use fresh in \<open>auto simp: s1_def new_element_def\<close>)
  have p1: "payload (elements s1) = (payload (elements s))(?a \<mapsto> (k, Some d))" by (auto simp: e1(1) fun_eq_iff)
  have "payload (elements s) ?a = None" using fresh(2) by (simp add: payload_def)
  note add = represents_add [OF t(4) contents_represented [OF assms(1)] this assms(4,2), of d, folded p1]
  have "\<exists>h1 s2 gs2. (if 10 \<le> hash_count s1 \<and> u32 (2 * htsize s1) < hash_count s1
      then obind (rehash_table usable (u32 (hash_count s1 * 2)) s1) (\<lambda>(ok, s2). Ok (if ok then bucket_of k (htsize s2) else h, s2))
      else Ok (h, s1)) = Ok (h1, s2) \<and>
    table_ok s2 gs2 \<and> set (all_of gs2) = set (all_of gs) \<and> payload (elements s2) = payload (elements s1) \<and> elements s2 ?a = elements s1 ?a \<and>
    hash_count s2 = hash_count s1 \<and> fresh_address s2 = fresh_address s1 \<and> granted (hash_memory s2) = granted (hash_memory s1) \<and>
    in_use (hash_memory s2) - bucket_blocks s2 = in_use (hash_memory s1) - bucket_blocks s1 \<and>
    (if ht s2 = None then None else Some h1) = entry_of s2 k"
  proof (cases "10 \<le> hash_count s1 \<and> u32 (2 * htsize s1) < hash_count s1")
    case False
    then show ?thesis using t1 e1 assms(6)
      by (intro exI [of _ h] exI [of _ s1] exI [of _ gs]) (auto simp: entry_of_def)
  next
    case True
    have "0 < u32 (hash_count s1 * 2)" using c1 assms(3) t(3) by (simp add: u32_def)
    moreover have "length (all_of gs) \<le> hash_count s1" "length (all_of gs) \<le> 2147483647" using c1 assms(3) t(3) by simp_all
    ultimately obtain ok s2 gs2 where r: "rehash_table usable (u32 (hash_count s1 * 2)) s1 = Ok (ok, s2)" "table_ok s2 gs2"
      "set (all_of gs2) = set (all_of gs)" "payload (elements s2) = payload (elements s1)"
      "\<forall>b. b \<notin> set (all_of gs) \<longrightarrow> elements s2 b = elements s1 b"
      "hash_count s2 = hash_count s1" "fresh_address s2 = fresh_address s1" "granted (hash_memory s2) = granted (hash_memory s1)"
      "in_use (hash_memory s2) - bucket_blocks s2 = in_use (hash_memory s1) - bucket_blocks s1"
      "if ok then ht s2 \<noteq> None else ht s2 = ht s1 \<and> htsize s2 = htsize s1"
      using rehash_table_spec [OF t1 _ _ _ assms(5)] by metis
    let ?h1 = "if ok then bucket_of k (htsize s2) else h"
    have "(if ht s2 = None then None else Some ?h1) = entry_of s2 k" using r(10) e1(2,3) assms(6) by (auto simp: entry_of_def split: if_splits)
    then show ?thesis using True r fresh(1)
      by (intro exI [of _ ?h1] exI [of _ s2] exI [of _ gs2]) simp
  qed
  then obtain h1 s2 gs2 where s2: "(if 10 \<le> hash_count s1 \<and> u32 (2 * htsize s1) < hash_count s1
      then obind (rehash_table usable (u32 (hash_count s1 * 2)) s1) (\<lambda>(ok, s2). Ok (if ok then bucket_of k (htsize s2) else h, s2))
      else Ok (h, s1)) = Ok (h1, s2)"
    "table_ok s2 gs2" "set (all_of gs2) = set (all_of gs)" "payload (elements s2) = payload (elements s1)" "elements s2 ?a = elements s1 ?a"
    "hash_count s2 = hash_count s1" "fresh_address s2 = fresh_address s1" "granted (hash_memory s2) = granted (hash_memory s1)"
    "in_use (hash_memory s2) - bucket_blocks s2 = in_use (hash_memory s1) - bucket_blocks s1"
    "(if ht s2 = None then None else Some h1) = entry_of s2 k" by blast
  have d2: "distinct (all_of gs2)" using s2(2) by (simp add: table_ok_def)
  have len2: "length (all_of gs2) = length (all_of gs)" using distinct_card [OF d2] distinct_card [OF t(6)] s2(3) by simp
  have a2: "?a \<notin> set (all_of gs2)" "length (all_of gs2) < 2147483647" using fresh(1) s2(3) len2 assms(3) t(3) by simp_all
  obtain e where e: "elements s2 ?a = Some e" "elem_key e = k" using s2(5) e1(1) by simp
  from insert_element_spec [OF s2(2) a2(1) e(1) a2(2), unfolded e(2)] obtain s3 gs3 where
    i: "insertElement (entry_of s2 k) ?a s2 = Ok s3" "table_ok s3 gs3" "same_else s2 s3" "set (all_of gs3) = insert ?a (set (all_of gs2))" by blast
  have p3: "payload (elements s3) = payload (elements s1)" using i(3) s2(4) by (simp add: same_else_def)
  have d3: "distinct (all_of gs3)" using i(2) by (simp add: table_ok_def)
  have len3: "length (all_of gs3) = Suc (length (all_of gs))" using distinct_card [OF d3] distinct_card [OF d2] i(4) a2(1) len2 by simp
  have dom3: "dom (elements s3) = set (all_of gs3)" using payload_dom [OF p3] e1(1) t(2) i(4) s2(3) by simp
  have inv: "hash_inv s3 gs3"
    using i(2,3,4) dom3 len3 c1 s2(3,6,7) e1(4) add(1) t(2,5) unfolding hash_inv_def p3 by (auto simp: same_else_def)
  have "bucket_blocks s3 = bucket_blocks s2" "bucket_blocks s1 = bucket_blocks s" using i(3) e1(2) by (simp_all add: same_else_def bucket_blocks_def)
  then have "in_use (hash_memory s3) - hash_blocks s3 = in_use (hash_memory s) - hash_blocks s" "granted (hash_memory s3) = granted (hash_memory s)"
    using i(3) s2(6,8,9) e1(5) c1 t(3) assms(8,9) by (simp_all add: same_else_def hash_blocks_def)
  moreover have "hash_count s3 = Suc (hash_count s)" using i(3) s2(6) c1 t(3) by (simp add: same_else_def)
  ultimately have "keeps s s3" using inv by (auto simp: keeps_def)
  moreover have "contents s3 = (contents s)(folded k \<mapsto> d)" by (rule contents_eq [OF inv]) (use add(2) p3 in simp)
  ultimately show ?thesis unfolding s1_def [symmetric] Let_def using s2(1,10) i(1) by auto
qed

lemma hash_insert_spec:
  assumes "hash_inv s gs" "no_nul k" "hash_count s < 2147483647" "\<forall>b. b \<le> usable b"
  shows "\<exists>r s'. sqlite3HashInsert usable k data s = Ok (r, s') \<and> keeps s s' \<and>
    (r = contents s (folded k) \<and> contents s' = (contents s)(folded k := data) \<or>
     contents s (folded k) = None \<and> data \<noteq> None \<and> r = data \<and> contents s' = contents s \<and> granted (hash_memory s) \<noteq> (\<lambda>_. True))"
proof -
  have "hash_count s < 2147483648" using assms(3) by simp
  with assms(1,2) show ?thesis
  proof (cases rule: find_cases)
    case (found a h e d)
    then have f: "sqlite3HashInsert usable k data s =
        (case data of
           None \<Rightarrow> obind (removeElementGivenHash a h s) (\<lambda>s1. Ok (Some d, s1))
         | Some d' \<Rightarrow> obind (set_elem a (\<lambda>x. x\<lparr>elem_data := Some d', elem_key := k\<rparr>) s) (\<lambda>s1. Ok (Some d, s1)))"
      by (simp add: sqlite3HashInsert_def)
    show ?thesis
    proof (cases data)
      case None
      then show ?thesis using f remove_spec [OF assms(1) found(2-4) _ found(6)] assms(3) found(5) by auto
    next
      case (Some d')
      define s1 where "s1 = s\<lparr>elements := (elements s)(a \<mapsto> e\<lparr>elem_data := Some d', elem_key := k\<rparr>)\<rparr>"
      have t: "table_ok s gs" "dom (elements s) = set (all_of gs)" "hash_count s = length (all_of gs)" "sound (payload (elements s))"
        "\<forall>a \<in> dom (elements s). a < fresh_address s"
        using assms(1) by (simp_all add: hash_inv_def)
      have p1: "payload (elements s1) = (payload (elements s))(a \<mapsto> (k, Some d'))" by (auto simp: s1_def fun_eq_iff)
      have "payload (elements s) a = Some (elem_key e, elem_data e)" using found(2) by (simp add: payload_def)
      note rep = represents_replace [OF t(4) contents_represented [OF assms(1)] this found(4) assms(2), of d', folded p1]
      have keys: "bucket_of (key_at (elements s1) b) n = bucket_of (key_at (elements s) b) n" for b n
        using found(2,4) hash_folded [OF found(4), of n] by (cases "b = a") (simp_all add: s1_def key_at_def payload_def)
      have "linked m pr xs nx \<Longrightarrow> m a = Some e \<Longrightarrow> linked (m(a \<mapsto> e\<lparr>elem_data := Some d', elem_key := k\<rparr>)) pr xs nx" for m pr xs nx
        by (induction xs arbitrary: pr) auto
      then have "table_ok s1 gs" using t(1) found(2) keys unfolding table_ok_def by (auto simp: s1_def split: option.splits)
      then have inv: "hash_inv s1 gs" using t(2,3,5) rep(1) found(2,7) by (auto simp: hash_inv_def s1_def)
      then have "keeps s s1" by (auto simp: keeps_def s1_def hash_blocks_def bucket_blocks_def)
      moreover have "contents s1 = (contents s)(folded k := data)" using contents_eq [OF inv rep(2)] Some by simp
      moreover have "sqlite3HashInsert usable k data s = Ok (Some d, s1)" using f Some found(2) by (simp add: set_elem_def s1_def)
      ultimately show ?thesis using found(5) by auto
    qed
  next
    case (absent h)
    then have f: "sqlite3HashInsert usable k data s =
        (case data of
           None \<Rightarrow> Ok (None, s)
         | Some d \<Rightarrow>
             (case sqlite3Malloc (hash_memory s) of
                (False, m1) \<Rightarrow> Ok (Some d, s\<lparr>hash_memory := m1\<rparr>)
              | (True, m1) \<Rightarrow>
                  obind (let s1 = new_element k d m1 s in
                      if 10 \<le> hash_count s1 \<and> u32 (2 * htsize s1) < hash_count s1
                      then obind (rehash_table usable (u32 (hash_count s1 * 2)) s1) (\<lambda>(ok, s2). Ok (if ok then bucket_of k (htsize s2) else h, s2))
                      else Ok (h, s1))
                    (\<lambda>(h1, s2). obind (insertElement (if ht s2 = None then None else Some h1) (fresh_address s) s2) (\<lambda>s3. Ok (None, s3)))))"
      unfolding sqlite3HashInsert_def absent(1) Let_def by simp
    show ?thesis
    proof (cases data)
      case None
      have "keeps s s" using assms(1) by (auto simp: keeps_def)
      moreover have "contents s = (contents s)(folded k := data)" using None absent(2) by auto
      ultimately show ?thesis using f None absent(2) by auto
    next
      case (Some d)
      show ?thesis
      proof (cases "hash_memory s" rule: malloc_cases)
        case (refused m1)
        have inv: "hash_inv (s\<lparr>hash_memory := m1\<rparr>) gs" using assms(1) table_ok_cong [of s gs "s\<lparr>hash_memory := m1\<rparr>"] by (simp add: hash_inv_def)
        then have "keeps s (s\<lparr>hash_memory := m1\<rparr>)" using refused by (auto simp: keeps_def hash_blocks_def bucket_blocks_def)
        moreover have "contents (s\<lparr>hash_memory := m1\<rparr>) = contents s" by (simp add: contents_def)
        ultimately show ?thesis using f Some refused absent(2) by auto
      next
        case (granted m1)
        from insert_new_spec [OF assms(1-3) absent(2) assms(4) absent(3) granted(1-3), of d] obtain h1 s2 s3 where
          "(let s1 = new_element k d m1 s in
              if 10 \<le> hash_count s1 \<and> u32 (2 * htsize s1) < hash_count s1
              then obind (rehash_table usable (u32 (hash_count s1 * 2)) s1) (\<lambda>(ok, s2). Ok (if ok then bucket_of k (htsize s2) else h, s2))
              else Ok (h, s1)) = Ok (h1, s2)"
          "insertElement (if ht s2 = None then None else Some h1) (fresh_address s) s2 = Ok s3" "keeps s s3"
          "contents s3 = (contents s)(folded k \<mapsto> d)" by blast
        then show ?thesis using f Some granted(1) absent(2) by auto
      qed
    qed
  qed
qed

section \<open>Stores by key\<close>

text \<open>A run of insertions and deletions (of no value) with what they returned.\<close>

fun run_inserts ::
    "('k \<Rightarrow> 'v option \<Rightarrow> 's \<Rightarrow> ('v option \<times> 's) outcome) \<Rightarrow> ('k \<times> 'v option) list \<Rightarrow> 's \<Rightarrow> ('v option list \<times> 's) outcome" where
  "run_inserts ins [] s = Ok ([], s)"
| "run_inserts ins ((k, v) # ops) s =
     obind (ins k v s) (\<lambda>(r, s1). obind (run_inserts ins ops s1) (\<lambda>(rs, s2). Ok (r # rs, s2)))"

text \<open>
  Whether the results \<open>rs\<close> are those of updates of a map from \<open>M\<close> to \<open>M'\<close>: each call returns what was
  stored under the key, or, where an allocation can be refused, for a key that is not there the value that was to be
  stored, and the map stays as it is.
\<close>

fun explained :: "('k \<Rightarrow> 'c) \<Rightarrow> bool \<Rightarrow> ('k \<times> 'v option) list \<Rightarrow> 'v option list \<Rightarrow> ('c \<rightharpoonup> 'v) \<Rightarrow> ('c \<rightharpoonup> 'v) \<Rightarrow> bool" where
  "explained canon refuses [] rs M M' \<longleftrightarrow> rs = [] \<and> M' = M"
| "explained canon refuses ((k, v) # ops) rs M M' \<longleftrightarrow>
     (case rs of
        [] \<Rightarrow> False
      | r # rs' \<Rightarrow>
          r = M (canon k) \<and> explained canon refuses ops rs' (M(canon k := v)) M' \<or>
          refuses \<and> M (canon k) = None \<and> v \<noteq> None \<and> r = v \<and> explained canon refuses ops rs' M M')"

lemma explained_determined:
  "explained canon False ops rs M M' \<Longrightarrow> M' = fold (\<lambda>(k, v) M. M(canon k := v)) ops M"
  by (induction ops arbitrary: rs M) (auto split: list.splits)

text \<open>
  What a client relies on: from every state that satisfies the invariant and has room, the search tells
  what is stored, and the insertion returns what was stored and stores, or returns the new value
  and leaves the store alone, which happens only where an allocation can be refused.
\<close>

locale keyed_store =
  fixes find :: "'s \<Rightarrow> 'k \<Rightarrow> 'v option outcome"
    and ins :: "'k \<Rightarrow> 'v option \<Rightarrow> 's \<Rightarrow> ('v option \<times> 's) outcome"
    and invar :: "'s \<Rightarrow> bool"
    and stored :: "'s \<Rightarrow> 'c \<rightharpoonup> 'v"
    and canon :: "'k \<Rightarrow> 'c"
    and valid :: "'k \<Rightarrow> bool"
    and room :: "'s \<Rightarrow> nat"
    and refuses :: "'s \<Rightarrow> bool"
  assumes find_stored: "invar s \<Longrightarrow> valid k \<Longrightarrow> 0 < room s \<Longrightarrow> find s k = Ok (stored s (canon k))"
    and insert_stores: "invar s \<Longrightarrow> valid k \<Longrightarrow> 0 < room s \<Longrightarrow>
      \<exists>r s'. ins k v s = Ok (r, s') \<and> invar s' \<and> room s \<le> Suc (room s') \<and> refuses s' = refuses s \<and>
        (r = stored s (canon k) \<and> stored s' = (stored s)(canon k := v) \<or>
         refuses s \<and> stored s (canon k) = None \<and> v \<noteq> None \<and> r = v \<and> stored s' = stored s)"
begin

lemma run_explained:
  "invar s \<Longrightarrow> \<forall>(k, v) \<in> set ops. valid k \<Longrightarrow> length ops \<le> room s \<Longrightarrow>
   \<exists>rs s'. run_inserts ins ops s = Ok (rs, s') \<and> invar s' \<and> room s \<le> length ops + room s' \<and>
     explained canon (refuses s) ops rs (stored s) (stored s')"
proof (induction ops arbitrary: s)
  case (Cons op ops)
  obtain k v where op: "op = (k, v)" by (cases op)
  obtain r s1 where i: "ins k v s = Ok (r, s1)" "invar s1" "room s \<le> Suc (room s1)" "refuses s1 = refuses s"
    "r = stored s (canon k) \<and> stored s1 = (stored s)(canon k := v) \<or>
     refuses s \<and> stored s (canon k) = None \<and> v \<noteq> None \<and> r = v \<and> stored s1 = stored s"
    using insert_stores [of s k v] Cons.prems op by auto
  from Cons.IH [OF i(2)] Cons.prems i(3) obtain rs s' where
    "run_inserts ins ops s1 = Ok (rs, s')" "invar s'" "room s1 \<le> length ops + room s'"
    "explained canon (refuses s1) ops rs (stored s1) (stored s')" by auto
  then show ?case using i op by (intro exI [of _ "r # rs"] exI [of _ s']) auto
qed simp

text \<open>After any run, the search returns what the map that explains the results says.\<close>

lemma run_and_find:
  assumes "invar s" "\<forall>(k, v) \<in> set ops. valid k" "length ops < room s"
  shows "\<exists>rs s' M. run_inserts ins ops s = Ok (rs, s') \<and> invar s' \<and> stored s' = M \<and>
    explained canon (refuses s) ops rs (stored s) M \<and> (\<forall>k. valid k \<longrightarrow> find s' k = Ok (M (canon k)))"
proof -
  obtain rs s' where r: "run_inserts ins ops s = Ok (rs, s')" "invar s'" "room s \<le> length ops + room s'"
    "explained canon (refuses s) ops rs (stored s) (stored s')"
    using run_explained [OF assms(1,2)] assms(3) by auto
  then have "0 < room s'" using assms(3) by simp
  then show ?thesis using r find_stored [OF r(2)] by blast
qed

end
definition store_ok :: "int \<Rightarrow> 'd Hash \<Rightarrow> bool" where
  "store_ok base s \<longleftrightarrow> (\<exists>gs. hash_inv s gs) \<and> in_use (hash_memory s) = base + hash_blocks s"

text \<open>The room that is left: a bucket counts its elements in an \<open>int\<close>.\<close>

definition hash_room :: "'d Hash \<Rightarrow> nat" where
  "hash_room s = 2147483647 - hash_count s"

definition hash_refuses :: "'d Hash \<Rightarrow> bool" where
  "hash_refuses s \<longleftrightarrow> granted (hash_memory s) \<noteq> (\<lambda>_. True)"

lemma count_is_card: "hash_inv s gs \<Longrightarrow> hash_count s = card (dom (elements s))"
  by (auto simp: hash_inv_def table_ok_def distinct_card)

interpretation hs: keyed_store sqlite3HashFind "sqlite3HashInsert (\<lambda>n. n + slack n)" "store_ok base" contents folded no_nul hash_room hash_refuses
  for slack base
proof
  fix s :: "'a Hash" and k v
  assume inv: "store_ok base s" and k: "no_nul k" and room: "0 < hash_room s"
  obtain gs where gs: "hash_inv s gs" using inv by (auto simp: store_ok_def)
  have count: "hash_count s < 2147483647" using room by (simp add: hash_room_def)
  then show "sqlite3HashFind s k = Ok (contents s (folded k))" using find_spec [OF gs k] by simp
  show "\<exists>r s'. sqlite3HashInsert (\<lambda>n. n + slack n) k v s = Ok (r, s') \<and> store_ok base s' \<and> hash_room s \<le> Suc (hash_room s') \<and>
      hash_refuses s' = hash_refuses s \<and>
      (r = contents s (folded k) \<and> contents s' = (contents s)(folded k := v) \<or>
       hash_refuses s \<and> contents s (folded k) = None \<and> v \<noteq> None \<and> r = v \<and> contents s' = contents s)"
  proof -
    obtain r s' where i: "sqlite3HashInsert (\<lambda>n. n + slack n) k v s = Ok (r, s')" "keeps s s'"
      "r = contents s (folded k) \<and> contents s' = (contents s)(folded k := v) \<or>
       contents s (folded k) = None \<and> v \<noteq> None \<and> r = v \<and> contents s' = contents s \<and> granted (hash_memory s) \<noteq> (\<lambda>_. True)"
      using hash_insert_spec [OF gs k count, of "\<lambda>n. n + slack n" v] by auto
    then show ?thesis using inv by (auto simp: keeps_def store_ok_def hash_room_def hash_refuses_def)
  qed
qed

lemma clear_empties:
  assumes "store_ok base s"
  shows "\<exists>s'. sqlite3HashClear s = Ok s' \<and> in_use (hash_memory s') = base \<and> hash_first s' = None \<and> ht s' = None \<and> hash_count s' = 0"
proof -
  obtain gs where gs: "hash_inv s gs" using assms by (auto simp: store_ok_def)
  then have "table_ok s gs" "length (all_of gs) \<le> hash_count s" by (simp_all add: hash_inv_def)
  from clear_spec [OF this] obtain m where
    "sqlite3HashClear s = Ok (s\<lparr>elements := (\<lambda>b. if b \<in> set (all_of gs) then None else elements s b), hash_memory := m,
       hash_first := None, htsize := 0, ht := None, hash_count := 0\<rparr>)"
    "in_use m = in_use (hash_memory s) - bucket_blocks s - int (length (all_of gs))" by blast
  then show ?thesis using assms gs by (auto simp: store_ok_def hash_inv_def hash_blocks_def)
qed

lemma hash_init_ok:
  assumes "elements s = Map.empty"
  shows "store_ok (in_use (hash_memory s)) (sqlite3HashInit s)" "contents (sqlite3HashInit s) = Map.empty"
    "hash_count (sqlite3HashInit s) = 0" "hash_memory (sqlite3HashInit s) = hash_memory s"
proof -
  have "hash_inv (sqlite3HashInit s) []"
    using assms by (simp add: hash_inv_def table_ok_def sqlite3HashInit_def sound_def payload_def)
  then show "store_ok (in_use (hash_memory s)) (sqlite3HashInit s)"
    by (auto simp: store_ok_def hash_blocks_def bucket_blocks_def sqlite3HashInit_def)
  show "contents (sqlite3HashInit s) = Map.empty" by (simp add: contents_def sqlite3HashInit_def)
qed (simp_all add: sqlite3HashInit_def)

text \<open>
  C20. A hash table is a map on keys whose upper and lower case letters are not distinguished. After any sequence of insertions,
  replacements and deletions on a new table, short of the 2147483647 elements at which a counter of a bucket could
  overflow, and whatever allocations are refused on the way, each call has returned what was stored under its key,
  or, for a new key for which there was no memory, the value it could not store; every search returns what
  the map stores; no freed or foreign memory is touched, whether or not the table got buckets and however many more the
  allocator handed out than were asked for; and clearing the table frees every block it took.
\<close>

theorem hash_table_is_map:
  assumes "elements s = Map.empty" and "\<forall>(k, v) \<in> set ops. no_nul k" and "length ops < 2147483647"
  shows "\<exists>rs s' M.
    run_inserts (sqlite3HashInsert (\<lambda>n. n + slack n)) ops (sqlite3HashInit s) = Ok (rs, s') \<and>
    explained folded (granted (hash_memory s) \<noteq> (\<lambda>_. True)) ops rs Map.empty M \<and>
    (\<forall>k. no_nul k \<longrightarrow> sqlite3HashFind s' k = Ok (M (folded k))) \<and>
    (\<exists>s''. sqlite3HashClear s' = Ok s'' \<and> in_use (hash_memory s'') = in_use (hash_memory s))"
proof -
  note i = hash_init_ok [OF assms(1)]
  have "length ops < hash_room (sqlite3HashInit s)" using assms(3) i(3) by (simp add: hash_room_def)
  from hs.run_and_find [OF i(1) assms(2) this, of slack] obtain rs s' M where
    r: "run_inserts (sqlite3HashInsert (\<lambda>n. n + slack n)) ops (sqlite3HashInit s) = Ok (rs, s')" "store_ok (in_use (hash_memory s)) s'"
      "explained folded (hash_refuses (sqlite3HashInit s)) ops rs Map.empty M"
      "\<forall>k. no_nul k \<longrightarrow> sqlite3HashFind s' k = Ok (M (folded k))"
    using i(2) by auto
  then show ?thesis using clear_empties [OF r(2)] i(4) by (auto simp: hash_refuses_def)
qed

definition demo_table :: "nat Hash" where
  "demo_table = \<lparr>htsize = 7, hash_count = 7, hash_first = None, ht = None, elements = Map.empty, fresh_address = 0, hash_memory = plenty\<rparr>"

definition demo_inserts :: "(string \<times> nat option) list" where
  "demo_inserts = [(''Tab'', Some 1), (''idx'', Some 2), (''TAB'', Some 3), (''IDX'', None)]"

lemma hash_table_is_map_witness:
  "\<exists>s'. run_inserts (sqlite3HashInsert (\<lambda>n. n + 8)) demo_inserts (sqlite3HashInit demo_table) = Ok ([None, None, Some 1, Some 2], s') \<and>
     sqlite3HashFind s' ''tab'' = Ok (Some 3) \<and> sqlite3HashFind s' ''idx'' = Ok None"
proof -
  have a: "elements demo_table = Map.empty" "\<forall>(k, v) \<in> set demo_inserts. no_nul k" "length demo_inserts < 2147483647"
    "granted (hash_memory demo_table) = (\<lambda>_. True)"
    by (simp_all add: demo_table_def demo_inserts_def no_nul_def plenty_def)
  have f: "folded ''Tab'' = folded ''tab''" "folded ''TAB'' = folded ''tab''" "folded ''IDX'' = folded ''idx''" "folded ''idx'' \<noteq> folded ''tab''"
    by (simp_all add: folded_def sqlite3UpperToLower_def)
  obtain rs s' M where r: "run_inserts (sqlite3HashInsert (\<lambda>n. n + 8)) demo_inserts (sqlite3HashInit demo_table) = Ok (rs, s')"
    "explained folded False demo_inserts rs Map.empty M" "\<forall>k. no_nul k \<longrightarrow> sqlite3HashFind s' k = Ok (M (folded k))"
    using hash_table_is_map [OF a(1-3), of "\<lambda>_. 8"] a(4) by auto
  have "rs = [None, None, Some 1, Some 2]" "M (folded ''tab'') = Some 3" "M (folded ''idx'') = None"
    using r(2) f(4) by (auto simp: demo_inserts_def f(1-3) split: list.splits)
  then show ?thesis using r(1,3) by (auto simp: no_nul_def)
qed

end
