(* ===== verification/Keywords.thy ===== *)
theory Keywords
  imports Hash_Table
begin

text \<open>
  src/libs/sqlite3.c, the keywords of SQL: the token codes, the tables that were generated for the
  keywords and the hash lookup in them, which is proved to be a search in the list of the 136 keywords.
\<close>

section \<open>Token codes\<close>

definition TK_SEMI :: nat where "TK_SEMI = 1"
definition TK_EXPLAIN :: nat where "TK_EXPLAIN = 2"
definition TK_QUERY :: nat where "TK_QUERY = 3"
definition TK_PLAN :: nat where "TK_PLAN = 4"
definition TK_BEGIN :: nat where "TK_BEGIN = 5"
definition TK_TRANSACTION :: nat where "TK_TRANSACTION = 6"
definition TK_DEFERRED :: nat where "TK_DEFERRED = 7"
definition TK_IMMEDIATE :: nat where "TK_IMMEDIATE = 8"
definition TK_EXCLUSIVE :: nat where "TK_EXCLUSIVE = 9"
definition TK_COMMIT :: nat where "TK_COMMIT = 10"
definition TK_END :: nat where "TK_END = 11"
definition TK_ROLLBACK :: nat where "TK_ROLLBACK = 12"
definition TK_SAVEPOINT :: nat where "TK_SAVEPOINT = 13"
definition TK_RELEASE :: nat where "TK_RELEASE = 14"
definition TK_TO :: nat where "TK_TO = 15"
definition TK_TABLE :: nat where "TK_TABLE = 16"
definition TK_CREATE :: nat where "TK_CREATE = 17"
definition TK_IF :: nat where "TK_IF = 18"
definition TK_NOT :: nat where "TK_NOT = 19"
definition TK_EXISTS :: nat where "TK_EXISTS = 20"
definition TK_TEMP :: nat where "TK_TEMP = 21"
definition TK_LP :: nat where "TK_LP = 22"
definition TK_RP :: nat where "TK_RP = 23"
definition TK_AS :: nat where "TK_AS = 24"
definition TK_WITHOUT :: nat where "TK_WITHOUT = 25"
definition TK_COMMA :: nat where "TK_COMMA = 26"
definition TK_ABORT :: nat where "TK_ABORT = 27"
definition TK_ACTION :: nat where "TK_ACTION = 28"
definition TK_AFTER :: nat where "TK_AFTER = 29"
definition TK_ANALYZE :: nat where "TK_ANALYZE = 30"
definition TK_ASC :: nat where "TK_ASC = 31"
definition TK_ATTACH :: nat where "TK_ATTACH = 32"
definition TK_BEFORE :: nat where "TK_BEFORE = 33"
definition TK_BY :: nat where "TK_BY = 34"
definition TK_CASCADE :: nat where "TK_CASCADE = 35"
definition TK_CAST :: nat where "TK_CAST = 36"
definition TK_CONFLICT :: nat where "TK_CONFLICT = 37"
definition TK_DATABASE :: nat where "TK_DATABASE = 38"
definition TK_DESC :: nat where "TK_DESC = 39"
definition TK_DETACH :: nat where "TK_DETACH = 40"
definition TK_EACH :: nat where "TK_EACH = 41"
definition TK_FAIL :: nat where "TK_FAIL = 42"
definition TK_OR :: nat where "TK_OR = 43"
definition TK_AND :: nat where "TK_AND = 44"
definition TK_IS :: nat where "TK_IS = 45"
definition TK_MATCH :: nat where "TK_MATCH = 46"
definition TK_LIKE_KW :: nat where "TK_LIKE_KW = 47"
definition TK_BETWEEN :: nat where "TK_BETWEEN = 48"
definition TK_IN :: nat where "TK_IN = 49"
definition TK_ISNULL :: nat where "TK_ISNULL = 50"
definition TK_NOTNULL :: nat where "TK_NOTNULL = 51"
definition TK_NE :: nat where "TK_NE = 52"
definition TK_EQ :: nat where "TK_EQ = 53"
definition TK_GT :: nat where "TK_GT = 54"
definition TK_LE :: nat where "TK_LE = 55"
definition TK_LT :: nat where "TK_LT = 56"
definition TK_GE :: nat where "TK_GE = 57"
definition TK_ESCAPE :: nat where "TK_ESCAPE = 58"
definition TK_ID :: nat where "TK_ID = 59"
definition TK_COLUMNKW :: nat where "TK_COLUMNKW = 60"
definition TK_DO :: nat where "TK_DO = 61"
definition TK_FOR :: nat where "TK_FOR = 62"
definition TK_IGNORE :: nat where "TK_IGNORE = 63"
definition TK_INITIALLY :: nat where "TK_INITIALLY = 64"
definition TK_INSTEAD :: nat where "TK_INSTEAD = 65"
definition TK_NO :: nat where "TK_NO = 66"
definition TK_KEY :: nat where "TK_KEY = 67"
definition TK_OF :: nat where "TK_OF = 68"
definition TK_OFFSET :: nat where "TK_OFFSET = 69"
definition TK_PRAGMA :: nat where "TK_PRAGMA = 70"
definition TK_RAISE :: nat where "TK_RAISE = 71"
definition TK_RECURSIVE :: nat where "TK_RECURSIVE = 72"
definition TK_REPLACE :: nat where "TK_REPLACE = 73"
definition TK_RESTRICT :: nat where "TK_RESTRICT = 74"
definition TK_ROW :: nat where "TK_ROW = 75"
definition TK_ROWS :: nat where "TK_ROWS = 76"
definition TK_TRIGGER :: nat where "TK_TRIGGER = 77"
definition TK_VACUUM :: nat where "TK_VACUUM = 78"
definition TK_VIEW :: nat where "TK_VIEW = 79"
definition TK_VIRTUAL :: nat where "TK_VIRTUAL = 80"
definition TK_WITH :: nat where "TK_WITH = 81"
definition TK_CURRENT :: nat where "TK_CURRENT = 82"
definition TK_FOLLOWING :: nat where "TK_FOLLOWING = 83"
definition TK_PARTITION :: nat where "TK_PARTITION = 84"
definition TK_PRECEDING :: nat where "TK_PRECEDING = 85"
definition TK_RANGE :: nat where "TK_RANGE = 86"
definition TK_UNBOUNDED :: nat where "TK_UNBOUNDED = 87"
definition TK_REINDEX :: nat where "TK_REINDEX = 88"
definition TK_RENAME :: nat where "TK_RENAME = 89"
definition TK_CTIME_KW :: nat where "TK_CTIME_KW = 90"
definition TK_BITAND :: nat where "TK_BITAND = 92"
definition TK_BITOR :: nat where "TK_BITOR = 93"
definition TK_LSHIFT :: nat where "TK_LSHIFT = 94"
definition TK_RSHIFT :: nat where "TK_RSHIFT = 95"
definition TK_PLUS :: nat where "TK_PLUS = 96"
definition TK_MINUS :: nat where "TK_MINUS = 97"
definition TK_STAR :: nat where "TK_STAR = 98"
definition TK_SLASH :: nat where "TK_SLASH = 99"
definition TK_REM :: nat where "TK_REM = 100"
definition TK_CONCAT :: nat where "TK_CONCAT = 101"
definition TK_COLLATE :: nat where "TK_COLLATE = 102"
definition TK_BITNOT :: nat where "TK_BITNOT = 103"
definition TK_ON :: nat where "TK_ON = 104"
definition TK_INDEXED :: nat where "TK_INDEXED = 105"
definition TK_STRING :: nat where "TK_STRING = 106"
definition TK_JOIN_KW :: nat where "TK_JOIN_KW = 107"
definition TK_CONSTRAINT :: nat where "TK_CONSTRAINT = 108"
definition TK_DEFAULT :: nat where "TK_DEFAULT = 109"
definition TK_NULL :: nat where "TK_NULL = 110"
definition TK_PRIMARY :: nat where "TK_PRIMARY = 111"
definition TK_UNIQUE :: nat where "TK_UNIQUE = 112"
definition TK_CHECK :: nat where "TK_CHECK = 113"
definition TK_REFERENCES :: nat where "TK_REFERENCES = 114"
definition TK_AUTOINCR :: nat where "TK_AUTOINCR = 115"
definition TK_INSERT :: nat where "TK_INSERT = 116"
definition TK_DELETE :: nat where "TK_DELETE = 117"
definition TK_UPDATE :: nat where "TK_UPDATE = 118"
definition TK_SET :: nat where "TK_SET = 119"
definition TK_DEFERRABLE :: nat where "TK_DEFERRABLE = 120"
definition TK_FOREIGN :: nat where "TK_FOREIGN = 121"
definition TK_DROP :: nat where "TK_DROP = 122"
definition TK_UNION :: nat where "TK_UNION = 123"
definition TK_ALL :: nat where "TK_ALL = 124"
definition TK_EXCEPT :: nat where "TK_EXCEPT = 125"
definition TK_INTERSECT :: nat where "TK_INTERSECT = 126"
definition TK_SELECT :: nat where "TK_SELECT = 127"
definition TK_VALUES :: nat where "TK_VALUES = 128"
definition TK_DISTINCT :: nat where "TK_DISTINCT = 129"
definition TK_DOT :: nat where "TK_DOT = 130"
definition TK_FROM :: nat where "TK_FROM = 131"
definition TK_JOIN :: nat where "TK_JOIN = 132"
definition TK_USING :: nat where "TK_USING = 133"
definition TK_ORDER :: nat where "TK_ORDER = 134"
definition TK_GROUP :: nat where "TK_GROUP = 135"
definition TK_HAVING :: nat where "TK_HAVING = 136"
definition TK_LIMIT :: nat where "TK_LIMIT = 137"
definition TK_WHERE :: nat where "TK_WHERE = 138"
definition TK_INTO :: nat where "TK_INTO = 139"
definition TK_NOTHING :: nat where "TK_NOTHING = 140"
definition TK_FLOAT :: nat where "TK_FLOAT = 141"
definition TK_BLOB :: nat where "TK_BLOB = 142"
definition TK_INTEGER :: nat where "TK_INTEGER = 143"
definition TK_VARIABLE :: nat where "TK_VARIABLE = 144"
definition TK_CASE :: nat where "TK_CASE = 145"
definition TK_WHEN :: nat where "TK_WHEN = 146"
definition TK_THEN :: nat where "TK_THEN = 147"
definition TK_ELSE :: nat where "TK_ELSE = 148"
definition TK_INDEX :: nat where "TK_INDEX = 149"
definition TK_ALTER :: nat where "TK_ALTER = 150"
definition TK_ADD :: nat where "TK_ADD = 151"
definition TK_WINDOW :: nat where "TK_WINDOW = 152"
definition TK_OVER :: nat where "TK_OVER = 153"
definition TK_FILTER :: nat where "TK_FILTER = 154"
definition TK_SPACE :: nat where "TK_SPACE = 172"
definition TK_ILLEGAL :: nat where "TK_ILLEGAL = 173"

lemmas token_codes =
  TK_SEMI_def TK_EXPLAIN_def TK_QUERY_def TK_PLAN_def TK_BEGIN_def TK_TRANSACTION_def
  TK_DEFERRED_def TK_IMMEDIATE_def TK_EXCLUSIVE_def TK_COMMIT_def TK_END_def TK_ROLLBACK_def
  TK_SAVEPOINT_def TK_RELEASE_def TK_TO_def TK_TABLE_def TK_CREATE_def TK_IF_def TK_NOT_def
  TK_EXISTS_def TK_TEMP_def TK_LP_def TK_RP_def TK_AS_def TK_WITHOUT_def TK_COMMA_def TK_ABORT_def
  TK_ACTION_def TK_AFTER_def TK_ANALYZE_def TK_ASC_def TK_ATTACH_def TK_BEFORE_def TK_BY_def
  TK_CASCADE_def TK_CAST_def TK_CONFLICT_def TK_DATABASE_def TK_DESC_def TK_DETACH_def TK_EACH_def
  TK_FAIL_def TK_OR_def TK_AND_def TK_IS_def TK_MATCH_def TK_LIKE_KW_def TK_BETWEEN_def TK_IN_def
  TK_ISNULL_def TK_NOTNULL_def TK_NE_def TK_EQ_def TK_GT_def TK_LE_def TK_LT_def TK_GE_def
  TK_ESCAPE_def TK_ID_def TK_COLUMNKW_def TK_DO_def TK_FOR_def TK_IGNORE_def TK_INITIALLY_def
  TK_INSTEAD_def TK_NO_def TK_KEY_def TK_OF_def TK_OFFSET_def TK_PRAGMA_def TK_RAISE_def
  TK_RECURSIVE_def TK_REPLACE_def TK_RESTRICT_def TK_ROW_def TK_ROWS_def TK_TRIGGER_def
  TK_VACUUM_def TK_VIEW_def TK_VIRTUAL_def TK_WITH_def TK_CURRENT_def TK_FOLLOWING_def
  TK_PARTITION_def TK_PRECEDING_def TK_RANGE_def TK_UNBOUNDED_def TK_REINDEX_def TK_RENAME_def
  TK_CTIME_KW_def TK_BITAND_def TK_BITOR_def TK_LSHIFT_def TK_RSHIFT_def TK_PLUS_def TK_MINUS_def
  TK_STAR_def TK_SLASH_def TK_REM_def TK_CONCAT_def TK_COLLATE_def TK_BITNOT_def TK_ON_def
  TK_INDEXED_def TK_STRING_def TK_JOIN_KW_def TK_CONSTRAINT_def TK_DEFAULT_def TK_NULL_def
  TK_PRIMARY_def TK_UNIQUE_def TK_CHECK_def TK_REFERENCES_def TK_AUTOINCR_def TK_INSERT_def
  TK_DELETE_def TK_UPDATE_def TK_SET_def TK_DEFERRABLE_def TK_FOREIGN_def TK_DROP_def TK_UNION_def
  TK_ALL_def TK_EXCEPT_def TK_INTERSECT_def TK_SELECT_def TK_VALUES_def TK_DISTINCT_def TK_DOT_def
  TK_FROM_def TK_JOIN_def TK_USING_def TK_ORDER_def TK_GROUP_def TK_HAVING_def TK_LIMIT_def
  TK_WHERE_def TK_INTO_def TK_NOTHING_def TK_FLOAT_def TK_BLOB_def TK_INTEGER_def TK_VARIABLE_def
  TK_CASE_def TK_WHEN_def TK_THEN_def TK_ELSE_def TK_INDEX_def TK_ALTER_def TK_ADD_def
  TK_WINDOW_def TK_OVER_def TK_FILTER_def TK_SPACE_def TK_ILLEGAL_def

section \<open>The tables\<close>

text \<open>The texts of the keywords, overlapping where the last letters of one are the first letters of the next.\<close>

definition zKWText :: string where
  "zKWText =
    (''REINDEXEDESCAPEACHECKEYBEFOREIGNOREGEXPLAINSTEADDATABASELECTABLEFTHENDEFERRABLELSEXC'' @
     ''EPTRANSACTIONATURALTERAISEXCLUSIVEXISTSAVEPOINTERSECTRIGGEREFERENCESCONSTRAINTOFFSET'' @
     ''EMPORARYUNIQUERYWITHOUTERELEASEATTACHAVINGROUPDATEBEGINNERANGEBETWEENOTHINGLOBYCASCA'' @
     ''DELETECASECOLLATECREATECURRENT_DATEDETACHIMMEDIATEJOINSERTLIKEMATCHPLANALYZEPRAGMABO'' @
     ''RTVALUESVIRTUALIMITWHENOTNULLWHERECURSIVEAFTERENAMEANDEFAULTAUTOINCREMENTCASTCOLUMNC'' @
     ''OMMITCONFLICTCROSSCURRENT_TIMESTAMPARTITIONDEFERREDISTINCTDROPRECEDINGFAILFILTEREPLA'' @
     ''CEFOLLOWINGFROMFULLIFISNULLORDERESTRICTOVERIGHTROLLBACKROWSUNBOUNDEDUNIONUSINGVACUUM'' @
     ''VIEWINDOWINITIALLYPRIMARY'')"

text \<open>The first keyword with each hash, and the next one with the same hash, both counted from 1; zero ends a chain.\<close>

definition aKWHash :: "nat list" where
  "aKWHash = [
    74, 109, 124, 72, 106, 45, 0, 0, 81, 0, 76, 61, 0, 42, 12, 77, 15, 0, 123, 84, 54, 118,
    125, 19, 0, 0, 130, 0, 128, 121, 0, 22, 96, 0, 9, 0, 0, 115, 69, 0, 67, 6, 0, 48, 93,
    136, 0, 126, 104, 0, 0, 44, 0, 107, 24, 0, 17, 0, 131, 53, 23, 0, 5, 62, 132, 99, 0, 0,
    135, 110, 60, 134, 57, 113, 55, 0, 94, 0, 103, 26, 0, 102, 0, 0, 0, 98, 95, 100, 105,
    117, 14, 39, 116, 0, 80, 0, 133, 114, 92, 59, 0, 129, 79, 119, 86, 46, 83, 0, 0, 97,
    40, 122, 120, 0, 127, 0, 0, 29, 0, 89, 87, 88, 0, 20, 85, 111, 56]"

definition aKWNext :: "nat list" where
  "aKWNext = [
    0, 0, 0, 0, 4, 0, 0, 0, 0, 0, 0, 0, 0, 0, 2, 0, 0, 0, 0, 0, 0, 13, 0, 0, 0, 0, 0, 7, 0,
    0, 0, 0, 0, 0, 0, 0, 0, 0, 0, 0, 0, 0, 0, 33, 0, 21, 0, 0, 0, 0, 0, 50, 0, 43, 3, 47,
    0, 0, 32, 0, 0, 0, 0, 0, 0, 0, 1, 64, 0, 0, 65, 0, 41, 0, 38, 0, 0, 0, 0, 0, 49, 75, 0,
    0, 30, 0, 58, 0, 0, 0, 31, 63, 16, 34, 10, 0, 0, 0, 0, 0, 0, 0, 11, 70, 91, 0, 0, 8, 0,
    108, 0, 101, 28, 52, 68, 0, 112, 0, 73, 51, 0, 90, 27, 37, 0, 71, 36, 82, 0, 35, 66,
    25, 18, 0, 0, 78]"

definition aKWLen :: "nat list" where
  "aKWLen = [
    7, 7, 5, 4, 6, 4, 5, 3, 6, 7, 3, 6, 6, 7, 7, 3, 8, 2, 6, 5, 4, 4, 3, 10, 4, 6, 11, 6,
    2, 7, 5, 5, 9, 6, 9, 9, 7, 10, 10, 4, 6, 2, 3, 9, 4, 2, 6, 5, 7, 4, 5, 7, 6, 6, 5, 6,
    5, 5, 5, 7, 7, 4, 2, 7, 3, 6, 4, 7, 6, 12, 6, 9, 4, 6, 4, 5, 4, 7, 6, 5, 6, 7, 5, 4, 7,
    3, 2, 4, 5, 9, 5, 6, 3, 7, 13, 2, 2, 4, 6, 6, 8, 5, 17, 12, 7, 9, 8, 8, 2, 4, 9, 4, 6,
    7, 9, 4, 4, 2, 6, 5, 8, 4, 5, 8, 4, 3, 9, 5, 5, 6, 4, 6, 2, 9, 3, 7]"

definition aKWOffset :: "nat list" where
  "aKWOffset = [
    0, 2, 2, 8, 9, 14, 16, 20, 23, 25, 25, 29, 33, 36, 41, 46, 48, 53, 54, 59, 62, 65, 67,
    69, 78, 81, 86, 91, 95, 96, 101, 105, 109, 117, 122, 128, 136, 142, 152, 159, 162, 162,
    165, 167, 167, 171, 176, 179, 184, 184, 188, 192, 199, 204, 209, 212, 218, 221, 225,
    230, 236, 242, 245, 247, 248, 252, 258, 262, 269, 275, 287, 293, 302, 304, 310, 314,
    319, 321, 328, 333, 338, 344, 350, 355, 358, 358, 358, 361, 365, 368, 377, 381, 387,
    389, 396, 398, 400, 409, 413, 419, 425, 433, 438, 438, 438, 454, 463, 470, 471, 478,
    481, 490, 494, 499, 506, 515, 519, 523, 525, 531, 535, 543, 546, 551, 559, 559, 563,
    572, 577, 582, 588, 591, 594, 597, 602, 606]"

definition aKWCode :: "nat list" where
  "aKWCode = [
    TK_REINDEX, TK_INDEXED, TK_INDEX, TK_DESC, TK_ESCAPE, TK_EACH, TK_CHECK, TK_KEY,
    TK_BEFORE, TK_FOREIGN, TK_FOR, TK_IGNORE, TK_LIKE_KW, TK_EXPLAIN, TK_INSTEAD, TK_ADD,
    TK_DATABASE, TK_AS, TK_SELECT, TK_TABLE, TK_JOIN_KW, TK_THEN, TK_END, TK_DEFERRABLE,
    TK_ELSE, TK_EXCEPT, TK_TRANSACTION, TK_ACTION, TK_ON, TK_JOIN_KW, TK_ALTER, TK_RAISE,
    TK_EXCLUSIVE, TK_EXISTS, TK_SAVEPOINT, TK_INTERSECT, TK_TRIGGER, TK_REFERENCES,
    TK_CONSTRAINT, TK_INTO, TK_OFFSET, TK_OF, TK_SET, TK_TEMP, TK_TEMP, TK_OR, TK_UNIQUE,
    TK_QUERY, TK_WITHOUT, TK_WITH, TK_JOIN_KW, TK_RELEASE, TK_ATTACH, TK_HAVING, TK_GROUP,
    TK_UPDATE, TK_BEGIN, TK_JOIN_KW, TK_RANGE, TK_BETWEEN, TK_NOTHING, TK_LIKE_KW, TK_BY,
    TK_CASCADE, TK_ASC, TK_DELETE, TK_CASE, TK_COLLATE, TK_CREATE, TK_CTIME_KW, TK_DETACH,
    TK_IMMEDIATE, TK_JOIN, TK_INSERT, TK_LIKE_KW, TK_MATCH, TK_PLAN, TK_ANALYZE, TK_PRAGMA,
    TK_ABORT, TK_VALUES, TK_VIRTUAL, TK_LIMIT, TK_WHEN, TK_NOTNULL, TK_NOT, TK_NO, TK_NULL,
    TK_WHERE, TK_RECURSIVE, TK_AFTER, TK_RENAME, TK_AND, TK_DEFAULT, TK_AUTOINCR, TK_TO,
    TK_IN, TK_CAST, TK_COLUMNKW, TK_COMMIT, TK_CONFLICT, TK_JOIN_KW, TK_CTIME_KW,
    TK_CTIME_KW, TK_CURRENT, TK_PARTITION, TK_DEFERRED, TK_DISTINCT, TK_IS, TK_DROP,
    TK_PRECEDING, TK_FAIL, TK_FILTER, TK_REPLACE, TK_FOLLOWING, TK_FROM, TK_JOIN_KW, TK_IF,
    TK_ISNULL, TK_ORDER, TK_RESTRICT, TK_OVER, TK_JOIN_KW, TK_ROLLBACK, TK_ROWS, TK_ROW,
    TK_UNBOUNDED, TK_UNION, TK_USING, TK_VACUUM, TK_VIEW, TK_WINDOW, TK_DO, TK_INITIALLY,
    TK_ALL, TK_PRIMARY]"

section \<open>The lookup\<close>

text \<open>
  A C string is read up to and including its terminator. \<open>clear20\<close> clears the bit in which an ASCII letter and
  its capital differ.
\<close>

definition peek :: "string \<Rightarrow> nat \<Rightarrow> char outcome" where
  "peek z i = (if i < length z then Ok (z ! i) else if i = length z then Ok NUL else UB Buffer_Overread)"

fun clear20 :: "char \<Rightarrow> char" where
  "clear20 (Char b0 b1 b2 b3 b4 b5 b6 b7) = Char b0 b1 b2 b3 b4 False b6 b7"

definition text_at :: "nat \<Rightarrow> char outcome" where
  "text_at i = (if i < length zKWText then Ok (zKWText ! i) else UB Buffer_Overread)"

function match_loop :: "string \<Rightarrow> nat \<Rightarrow> nat \<Rightarrow> nat \<Rightarrow> bool outcome" where
  "match_loop z n off j =
     (if j < n then
        obind (peek z j) (\<lambda>c. obind (text_at (off + j))
          (\<lambda>d. if clear20 c = d then match_loop z n off (Suc j) else Ok False))
      else Ok True)"
  by pat_completeness auto
termination by (relation "measure (\<lambda>(z, n, off, j). n - j)") auto

declare match_loop.simps [simp del]

lemma next_below: "i < 136 \<Longrightarrow> aKWNext ! i \<le> i"
proof -
  have "list_all (\<lambda>i. aKWNext ! i \<le> i) [0..<136]" by code_simp
  then show "i < 136 \<Longrightarrow> ?thesis" by (simp add: list_all_iff)
qed

text \<open>The loop over a chain; the argument is \<open>i + 1\<close>.\<close>

function keyword_loop :: "string \<Rightarrow> nat \<Rightarrow> nat \<Rightarrow> nat option outcome" where
  "keyword_loop z n 0 = Ok None"
| "keyword_loop z n (Suc i) =
     (if 136 \<le> i then UB Buffer_Overread
      else if aKWLen ! i \<noteq> n then keyword_loop z n (aKWNext ! i)
      else
        obind (match_loop z n (aKWOffset ! i) 0)
          (\<lambda>b. if b then Ok (Some (aKWCode ! i)) else keyword_loop z n (aKWNext ! i)))"
  by pat_completeness auto
termination
  by (relation "measure (\<lambda>(z, n, k). k)") (auto simp: next_below less_Suc_eq_le not_le)

definition keyword_hash :: "char \<Rightarrow> char \<Rightarrow> nat \<Rightarrow> nat" where
  "keyword_hash c d n = ((sqlite3UpperToLower c * 4 XOR sqlite3UpperToLower d * 3) XOR n) mod 127"

text \<open>The code is stored through a pointer when there is one; the result is always \<open>n\<close>.\<close>

definition keywordCode :: "string \<Rightarrow> nat \<Rightarrow> nat \<Rightarrow> (nat \<times> nat) outcome" where
  "keywordCode z n pType =
     (if 2 \<le> n then
        obind (peek z 0) (\<lambda>c. obind (peek z (n - 1))
          (\<lambda>d. obind (keyword_loop z n (aKWHash ! keyword_hash c d n))
             (\<lambda>r. Ok (n, case r of None \<Rightarrow> pType | Some t \<Rightarrow> t))))
      else Ok (n, pType))"

definition sqlite3KeywordCode :: "string \<Rightarrow> nat \<Rightarrow> nat outcome" where
  "sqlite3KeywordCode z n = obind (keywordCode z n TK_ID) (\<lambda>(_, id). Ok id)"

definition sqlite3_keyword_count :: int where
  "sqlite3_keyword_count = 136"

text \<open>A negative length is less than two, as zero is.\<close>

definition sqlite3_keyword_check :: "string \<Rightarrow> int \<Rightarrow> bool outcome" where
  "sqlite3_keyword_check z n = obind (sqlite3KeywordCode z (nat n)) (\<lambda>t. Ok (TK_ID \<noteq> t))"

definition sqlite3_keyword_name :: "int \<Rightarrow> string option" where
  "sqlite3_keyword_name i =
     (if i < 0 \<or> 136 \<le> i then None
      else Some (take (aKWLen ! nat i) (drop (aKWOffset ! nat i) zKWText)))"

section \<open>The keywords\<close>

definition keyword_list :: "string list" where
  "keyword_list = [
    ''REINDEX'', ''INDEXED'', ''INDEX'', ''DESC'', ''ESCAPE'', ''EACH'', ''CHECK'',
    ''KEY'', ''BEFORE'', ''FOREIGN'', ''FOR'', ''IGNORE'', ''REGEXP'', ''EXPLAIN'',
    ''INSTEAD'', ''ADD'', ''DATABASE'', ''AS'', ''SELECT'', ''TABLE'', ''LEFT'', ''THEN'',
    ''END'', ''DEFERRABLE'', ''ELSE'', ''EXCEPT'', ''TRANSACTION'', ''ACTION'', ''ON'',
    ''NATURAL'', ''ALTER'', ''RAISE'', ''EXCLUSIVE'', ''EXISTS'', ''SAVEPOINT'',
    ''INTERSECT'', ''TRIGGER'', ''REFERENCES'', ''CONSTRAINT'', ''INTO'', ''OFFSET'',
    ''OF'', ''SET'', ''TEMPORARY'', ''TEMP'', ''OR'', ''UNIQUE'', ''QUERY'', ''WITHOUT'',
    ''WITH'', ''OUTER'', ''RELEASE'', ''ATTACH'', ''HAVING'', ''GROUP'', ''UPDATE'',
    ''BEGIN'', ''INNER'', ''RANGE'', ''BETWEEN'', ''NOTHING'', ''GLOB'', ''BY'',
    ''CASCADE'', ''ASC'', ''DELETE'', ''CASE'', ''COLLATE'', ''CREATE'', ''CURRENT_DATE'',
    ''DETACH'', ''IMMEDIATE'', ''JOIN'', ''INSERT'', ''LIKE'', ''MATCH'', ''PLAN'',
    ''ANALYZE'', ''PRAGMA'', ''ABORT'', ''VALUES'', ''VIRTUAL'', ''LIMIT'', ''WHEN'',
    ''NOTNULL'', ''NOT'', ''NO'', ''NULL'', ''WHERE'', ''RECURSIVE'', ''AFTER'',
    ''RENAME'', ''AND'', ''DEFAULT'', ''AUTOINCREMENT'', ''TO'', ''IN'', ''CAST'',
    ''COLUMN'', ''COMMIT'', ''CONFLICT'', ''CROSS'', ''CURRENT_TIMESTAMP'',
    ''CURRENT_TIME'', ''CURRENT'', ''PARTITION'', ''DEFERRED'', ''DISTINCT'', ''IS'',
    ''DROP'', ''PRECEDING'', ''FAIL'', ''FILTER'', ''REPLACE'', ''FOLLOWING'', ''FROM'',
    ''FULL'', ''IF'', ''ISNULL'', ''ORDER'', ''RESTRICT'', ''OVER'', ''RIGHT'',
    ''ROLLBACK'', ''ROWS'', ''ROW'', ''UNBOUNDED'', ''UNION'', ''USING'', ''VACUUM'',
    ''VIEW'', ''WINDOW'', ''DO'', ''INITIALLY'', ''ALL'', ''PRIMARY'']"

lemma table_sizes: "length keyword_list = 136" "length zKWText = 613" "length aKWHash = 127" "length aKWCode = 136"
  "length aKWOffset = 136" "length aKWLen = 136" "length aKWNext = 136"
  by (simp_all add: keyword_list_def zKWText_def aKWHash_def aKWCode_def aKWOffset_def aKWLen_def aKWNext_def)


text \<open>The offsets increase, so one walk along the text finds all keywords in it.\<close>

fun keywords_along :: "nat \<Rightarrow> string \<Rightarrow> (nat \<times> string) list \<Rightarrow> bool" where
  "keywords_along p t [] = True"
| "keywords_along p t ((k, w) # es) =
     (p \<le> k \<and> (let u = drop (k - p) t in take (length w) u = w \<and> keywords_along k u es))"

lemma keywords_alongD:
  "keywords_along p (drop p t) es \<Longrightarrow> (k, w) \<in> set es \<Longrightarrow> take (length w) (drop k t) = w"
  by (induction es arbitrary: p) (auto simp: Let_def)

lemma keywords_in_text: "keywords_along 0 zKWText (zip aKWOffset keyword_list)"
  by code_simp

lemma keyword_lengths: "map length keyword_list = aKWLen"
  by code_simp


definition keyword_hash_list :: "nat list" where
  "keyword_hash_list = [
    40, 16, 74, 62, 62, 41, 73, 69, 34, 86, 78, 14, 31, 90, 16, 44, 56, 96, 23, 123, 105,
    31, 60, 54, 64, 79, 18, 73, 117, 124, 88, 99, 51, 76, 26, 114, 2, 28, 91, 110, 103,
    13, 20, 51, 5, 105, 126, 43, 8, 97, 112, 97, 59, 20, 74, 126, 72, 120, 99, 70, 11, 63,
    98, 37, 47, 58, 40, 37, 38, 48, 47, 3, 103, 0, 28, 10, 15, 45, 102, 94, 8, 28, 106,
    19, 124, 104, 120, 121, 119, 111, 88, 98, 44, 76, 86, 32, 109, 85, 65, 87, 89, 81, 78,
    48, 88, 4, 53, 69, 1, 69, 125, 89, 73, 97, 37, 92, 89, 21, 103, 112, 29, 111, 18, 2,
    22, 47, 114, 28, 101, 26, 58, 64, 96, 71, 68, 45]"

lemma keyword_hash_list:
  "map2 (\<lambda>w n. keyword_hash (hd w) (last w) n) keyword_list aKWLen = keyword_hash_list"
  by (simp add: keyword_hash_list_def keyword_list_def aKWLen_def keyword_hash_def sqlite3UpperToLower_def)

fun chain :: "nat \<Rightarrow> nat list" where
  "chain 0 = []"
| "chain (Suc i) = (if 136 \<le> i then [] else i # (if aKWNext ! i \<le> i then chain (aKWNext ! i) else []))"

lemma chains: "list_all (\<lambda>(i, h). i \<in> set (chain (aKWHash ! h))) (zip [0..<136] keyword_hash_list)"
  by code_simp

lemma chains_bounded: "list_all (\<lambda>k. k \<le> 136) aKWHash"
  by code_simp

lemma hash_bounded: "list_all (\<lambda>h. h < 127) keyword_hash_list"
  by code_simp

lemma distinct_keywords: "distinct keyword_list"
  by code_simp

definition capital :: "char \<Rightarrow> bool" where
  "capital c \<longleftrightarrow> 65 \<le> (of_char c :: nat) \<and> (of_char c :: nat) \<le> 90"

lemma keyword_ends: "list_all (\<lambda>w. 2 \<le> length w \<and> capital (hd w) \<and> capital (last w)) keyword_list"
  by (simp add: keyword_list_def capital_def)

lemma clear20_capital: "capital (clear20 c) \<Longrightarrow> sqlite3UpperToLower c = sqlite3UpperToLower (clear20 c)"
proof (cases c)
  case (Char b0 b1 b2 b3 b4 b5 b6 b7)
  then show "capital (clear20 c) \<Longrightarrow> ?thesis"
    by (cases b0; cases b1; cases b2; cases b3; cases b4; cases b5; cases b6; cases b7; simp add: capital_def sqlite3UpperToLower_def)
qed

definition keyword_code :: "string \<Rightarrow> nat" where
  "keyword_code w = (case map_of (zip keyword_list aKWCode) w of None \<Rightarrow> TK_ID | Some t \<Rightarrow> t)"

lemma keyword_length: "i < 136 \<Longrightarrow> length (keyword_list ! i) = aKWLen ! i"
  by (simp flip: keyword_lengths add: table_sizes)

lemma keyword_text:
  assumes "i < 136"
  shows "take (aKWLen ! i) (drop (aKWOffset ! i) zKWText) = keyword_list ! i"
proof -
  have "(aKWOffset ! i, keyword_list ! i) \<in> set (zip aKWOffset keyword_list)"
    using assms by (auto simp: set_zip table_sizes)
  then show ?thesis
    using keywords_alongD [of 0 zKWText] keywords_in_text assms by (metis drop0 keyword_length)
qed


lemma match_loop_eq:
  assumes "n \<le> length z" and "off + n \<le> 613" and "j \<le> n"
  shows "match_loop z n off j = Ok (map clear20 (drop j (take n z)) = take (n - j) (drop (off + j) zKWText))"
  using assms
proof (induction "n - j" arbitrary: j)
  case 0
  then show ?case by (subst match_loop.simps) simp
next
  case (Suc m)
  then have j: "j < n" by simp
  have a: "drop j (take n z) = z ! j # drop (Suc j) (take n z)"
    using j Suc.prems by (simp add: Cons_nth_drop_Suc [symmetric] del: drop_take)
  have b: "take (n - j) (drop (off + j) zKWText) = zKWText ! (off + j) # take (n - Suc j) (drop (off + Suc j) zKWText)"
    using j Suc.prems
    by (metis Cons_nth_drop_Suc Suc_diff_Suc add_Suc_right add_less_cancel_left order_less_le_trans table_sizes(2) take_Suc_Cons)
  show ?case
    using j Suc a b by (simp add: match_loop.simps [of z n off j] peek_def text_at_def table_sizes)
qed

lemma next_bounded: "i < 136 \<Longrightarrow> aKWNext ! i \<le> 136"
  using next_below [of i] by simp

lemma keyword_long: "i < 136 \<Longrightarrow> 2 \<le> aKWLen ! i"
  using keyword_ends keyword_length [of i] by (metis list_all_length table_sizes(1))

lemma keyword_loop_eq:
  assumes "n \<le> length z" and "k \<le> 136"
  shows "keyword_loop z n k =
    Ok (map_option (\<lambda>i. aKWCode ! i) (find (\<lambda>i. keyword_list ! i = map clear20 (take n z)) (chain k)))"
  using assms(2)
proof (induction k rule: less_induct)
  case (less k)
  show ?case
  proof (cases k)
    case 0
    then show ?thesis by simp
  next
    case (Suc i)
    then have i: "i < 136" and rest: "keyword_loop z n (aKWNext ! i) =
        Ok (map_option (\<lambda>i. aKWCode ! i) (find (\<lambda>i. keyword_list ! i = map clear20 (take n z)) (chain (aKWNext ! i))))"
      using less next_below [of i] by auto
    show ?thesis
    proof (cases "aKWLen ! i = n")
      case True
      have "aKWOffset ! i + n \<le> 613"
        using arg_cong [OF keyword_text [OF i], of length] keyword_length [OF i] keyword_long [OF i] True
        by (simp add: table_sizes)
      then have "match_loop z n (aKWOffset ! i) 0 = Ok (map clear20 (take n z) = keyword_list ! i)"
        using match_loop_eq [OF assms(1), of "aKWOffset ! i" 0] keyword_text [OF i] True by simp
      then show ?thesis using Suc i True rest next_below [OF i] by (auto simp: eq_commute)
    next
      case False
      then have "keyword_list ! i \<noteq> map clear20 (take n z)"
        using keyword_length [OF i] assms(1) by (metis length_map length_take min.absorb2)
      then show ?thesis using Suc i False rest next_below [OF i] by simp
    qed
  qed
qed

lemma in_chain:
  assumes "i < 136" and "w = keyword_list ! i"
  shows "i \<in> set (chain (aKWHash ! keyword_hash (hd w) (last w) (length w)))"
proof -
  have "(i, keyword_hash_list ! i) \<in> set (zip [0..<136] keyword_hash_list)"
    using assms(1) nth_mem [of i "zip [0..<136] keyword_hash_list"]
    by (simp add: keyword_hash_list [symmetric] table_sizes)
  moreover have "keyword_hash_list ! i = keyword_hash (hd w) (last w) (length w)"
    using assms by (simp add: keyword_hash_list [symmetric] table_sizes keyword_length)
  ultimately show ?thesis using chains by (auto simp: list_all_iff)
qed

lemma chain_below: "i \<in> set (chain k) \<Longrightarrow> i < 136"
  by (induction k rule: chain.induct) (auto split: if_splits)

lemma find_unique:
  assumes "x \<in> set xs" and "P x" and unique: "\<And>y. y \<in> set xs \<Longrightarrow> P y \<Longrightarrow> y = x"
  shows "find P xs = Some x"
proof (cases "find P xs")
  case None
  then show ?thesis using assms(1,2) by (simp add: find_None_iff)
next
  case (Some y)
  then have "y \<in> set xs" "P y" by (auto simp: find_Some_iff)
  then show ?thesis using unique Some by blast
qed

lemma find_in_chain:
  assumes "w \<in> set keyword_list \<Longrightarrow> h = keyword_hash (hd w) (last w) (length w)"
  shows "map_option (\<lambda>i. aKWCode ! i) (find (\<lambda>i. keyword_list ! i = w) (chain (aKWHash ! h))) = map_of (zip keyword_list aKWCode) w"
proof (cases "w \<in> set keyword_list")
  case True
  then obtain i where i: "i < 136" "w = keyword_list ! i" by (auto simp: in_set_conv_nth table_sizes)
  have "find (\<lambda>i. keyword_list ! i = w) (chain (aKWHash ! h)) = Some i"
  proof (rule find_unique)
    show "i \<in> set (chain (aKWHash ! h))" using in_chain [OF i] assms [OF True] by simp
    show "\<And>j. j \<in> set (chain (aKWHash ! h)) \<Longrightarrow> keyword_list ! j = w \<Longrightarrow> j = i"
      using i chain_below distinct_keywords by (metis nth_eq_iff_index_eq table_sizes(1))
  qed (simp add: i)
  then show ?thesis using i distinct_keywords by (simp add: map_of_zip_nth table_sizes)
next
  case False
  then have "find (\<lambda>i. keyword_list ! i = w) (chain (aKWHash ! h)) = None"
    using chain_below by (auto simp: find_None_iff table_sizes)
  moreover have "map_of (zip keyword_list aKWCode) w = None"
    using False by (simp add: map_of_zip_is_None table_sizes)
  ultimately show ?thesis by simp
qed

lemma keyword_code_short: "length w < 2 \<Longrightarrow> map_of (zip keyword_list aKWCode) w = None"
  using keyword_ends by (auto simp: map_of_zip_is_None table_sizes list_all_iff)

lemma hash_cleared:
  assumes "2 \<le> n" and "n \<le> length z" and "map clear20 (take n z) \<in> set keyword_list"
  shows "keyword_hash (z ! 0) (z ! (n - 1)) n =
    keyword_hash (hd (map clear20 (take n z))) (last (map clear20 (take n z))) (length (map clear20 (take n z)))"
proof -
  let ?w = "map clear20 (take n z)"
  have "capital (hd ?w)" "capital (last ?w)" using keyword_ends assms(3) by (simp_all add: list_all_iff)
  moreover have "take n z \<noteq> []" using assms(1,2) by auto
  then have "hd ?w = clear20 (z ! 0)" "last ?w = clear20 (z ! (n - 1))" "length ?w = n"
    using assms(1,2) by (simp_all add: hd_map last_map hd_conv_nth last_conv_nth take_eq_Nil)
  ultimately show ?thesis by (simp add: keyword_hash_def clear20_capital)
qed

lemma hash_below: "keyword_hash c d n < 127"
  by (simp add: keyword_hash_def)

lemma keywordCode_eq:
  assumes "n \<le> length z"
  shows "keywordCode z n t = Ok (n, case map_of (zip keyword_list aKWCode) (map clear20 (take n z)) of None \<Rightarrow> t | Some k \<Rightarrow> k)"
proof (cases "2 \<le> n")
  case True
  have "aKWHash ! keyword_hash (z ! 0) (z ! (n - 1)) n \<le> 136"
    using chains_bounded hash_below by (simp add: list_all_length table_sizes)
  then show ?thesis
    using True assms keyword_loop_eq [OF assms] find_in_chain [OF hash_cleared [OF True assms]]
    by (auto simp: keywordCode_def peek_def)
next
  case False
  then show ?thesis using assms by (simp add: keywordCode_def keyword_code_short)
qed

lemma no_keyword_is_ID: "TK_ID \<notin> set aKWCode"
  by (simp add: aKWCode_def token_codes)

lemma keyword_code_nth: "i < 136 \<Longrightarrow> keyword_code (keyword_list ! i) = aKWCode ! i"
  using distinct_keywords by (simp add: keyword_code_def map_of_zip_nth table_sizes)

lemma keyword_code_ID: "keyword_code w = TK_ID \<longleftrightarrow> w \<notin> set keyword_list"
proof (cases "w \<in> set keyword_list")
  case True
  then obtain i where i: "i < 136" "w = keyword_list ! i" by (auto simp: in_set_conv_nth table_sizes)
  moreover have "aKWCode ! i \<noteq> TK_ID" using i no_keyword_is_ID by (metis nth_mem table_sizes(4))
  ultimately show ?thesis using True keyword_code_nth by simp
next
  case False
  then have "map_of (zip keyword_list aKWCode) w = None" by (simp add: map_of_zip_is_None table_sizes)
  then show ?thesis using False unfolding keyword_code_def by simp
qed

text \<open>
  C17. The lookup through the generated hash is a search in the list of the keywords: a text of any length is
  given the code of the keyword it is up to bit 5 of its bytes, and \<open>TK_ID\<close> when it is none, without a
  read behind its \<open>n\<close> bytes; the names that the interface lists are these keywords, and all of them are found.
\<close>

theorem keyword_lookup_exact:
  assumes "n \<le> length z"
  shows "sqlite3KeywordCode z n = Ok (keyword_code (map clear20 (take n z))) \<and>
    sqlite3_keyword_check z (int n) = Ok (map clear20 (take n z) \<in> set keyword_list) \<and>
    sqlite3_keyword_name i = (if 0 \<le> i \<and> i < sqlite3_keyword_count then Some (keyword_list ! nat i) else None)"
  using keyword_text [of "nat i"]
  by (auto simp: sqlite3KeywordCode_def sqlite3_keyword_check_def sqlite3_keyword_name_def
      sqlite3_keyword_count_def keywordCode_eq [OF assms] keyword_code_def [symmetric] keyword_code_ID eq_commute [of TK_ID])

text \<open>The witness: \<open>Select\<close> at the front of a statement.\<close>

lemma keyword_lookup_exact_witness:
  "sqlite3KeywordCode ''Select id'' 6 = Ok TK_SELECT \<and> sqlite3_keyword_check ''Select id'' 6 = Ok True"
proof -
  have "map clear20 (take 6 ''Select id'') = keyword_list ! 18" and "aKWCode ! 18 = TK_SELECT"
    by (simp_all add: keyword_list_def aKWCode_def)
  then show ?thesis
    using keyword_lookup_exact [of 6 "''Select id''"] keyword_code_nth [of 18] nth_mem [of 18 keyword_list]
    by (simp add: table_sizes)
qed

text \<open>
  The byte 127 differs from the underscore in bit 5 only, so the interface takes a text with a DEL for a keyword, although
  it is not an identifier at all.
\<close>

lemma delete_for_underscore: "sqlite3_keyword_check (''CURRENT'' @ [CHR 0x7F] @ ''DATE'') 12 = Ok True"
proof -
  have "map clear20 (take 12 (''CURRENT'' @ [CHR 0x7F] @ ''DATE'')) = keyword_list ! 69"
    by (simp add: keyword_list_def)
  then have "keyword_code (map clear20 (take 12 (''CURRENT'' @ [CHR 0x7F] @ ''DATE''))) \<noteq> TK_ID"
    by (simp only: keyword_code_ID nth_mem table_sizes) (simp add: table_sizes)
  then show ?thesis
    using keywordCode_eq [of 12 "''CURRENT'' @ [CHR 0x7F] @ ''DATE''" TK_ID]
    by (simp add: sqlite3_keyword_check_def sqlite3KeywordCode_def keyword_code_def [symmetric])
qed

end
