(* ===== verification/Tokenizer.thy ===== *)
theory Tokenizer
  imports Keywords
begin

text \<open>
  src/libs/sqlite3.c, the tokenizer that the statements of the log go through before the parser: the character
  classes, \<open>sqlite3GetToken\<close> with its look-ahead functions for the keywords of window functions, and the
  loop of \<open>sqlite3RunParser\<close>, in which the generated parser is a parameter.
\<close>

unbundle bit_operations_syntax

section \<open>Characters\<close>

definition sqlite3CtypeMap :: "nat list" where
  "sqlite3CtypeMap = [
    0, 0, 0, 0, 0, 0, 0, 0, 0, 1, 1, 1, 1, 1, 0, 0, 0, 0, 0, 0, 0, 0, 0, 0, 0, 0, 0, 0, 0,
    0, 0, 0, 1, 0, 0x80, 0, 0x40, 0, 0, 0x80, 0, 0, 0, 0, 0, 0, 0, 0, 0x0c, 0x0c, 0x0c,
    0x0c, 0x0c, 0x0c, 0x0c, 0x0c, 0x0c, 0x0c, 0, 0, 0, 0, 0, 0, 0, 0x0a, 0x0a, 0x0a, 0x0a,
    0x0a, 0x0a, 2, 2, 2, 2, 2, 2, 2, 2, 2, 2, 2, 2, 2, 2, 2, 2, 2, 2, 2, 2, 0x80, 0, 0, 0,
    0x40, 0x80, 0x2a, 0x2a, 0x2a, 0x2a, 0x2a, 0x2a, 0x22, 0x22, 0x22, 0x22, 0x22, 0x22,
    0x22, 0x22, 0x22, 0x22, 0x22, 0x22, 0x22, 0x22, 0x22, 0x22, 0x22, 0x22, 0x22, 0x22, 0,
    0, 0, 0, 0, 0x40, 0x40, 0x40, 0x40, 0x40, 0x40, 0x40, 0x40, 0x40, 0x40, 0x40, 0x40,
    0x40, 0x40, 0x40, 0x40, 0x40, 0x40, 0x40, 0x40, 0x40, 0x40, 0x40, 0x40, 0x40, 0x40,
    0x40, 0x40, 0x40, 0x40, 0x40, 0x40, 0x40, 0x40, 0x40, 0x40, 0x40, 0x40, 0x40, 0x40,
    0x40, 0x40, 0x40, 0x40, 0x40, 0x40, 0x40, 0x40, 0x40, 0x40, 0x40, 0x40, 0x40, 0x40,
    0x40, 0x40, 0x40, 0x40, 0x40, 0x40, 0x40, 0x40, 0x40, 0x40, 0x40, 0x40, 0x40, 0x40,
    0x40, 0x40, 0x40, 0x40, 0x40, 0x40, 0x40, 0x40, 0x40, 0x40, 0x40, 0x40, 0x40, 0x40,
    0x40, 0x40, 0x40, 0x40, 0x40, 0x40, 0x40, 0x40, 0x40, 0x40, 0x40, 0x40, 0x40, 0x40,
    0x40, 0x40, 0x40, 0x40, 0x40, 0x40, 0x40, 0x40, 0x40, 0x40, 0x40, 0x40, 0x40, 0x40,
    0x40, 0x40, 0x40, 0x40, 0x40, 0x40, 0x40, 0x40, 0x40, 0x40, 0x40, 0x40, 0x40, 0x40,
    0x40, 0x40, 0x40, 0x40]"

definition ctype :: "char \<Rightarrow> nat \<Rightarrow> bool" where
  "ctype c m \<longleftrightarrow> (sqlite3CtypeMap ! of_char c) AND m \<noteq> 0"

definition sqlite3Isspace :: "char \<Rightarrow> bool" where
  "sqlite3Isspace c = ctype c 0x01"

definition sqlite3Isdigit :: "char \<Rightarrow> bool" where
  "sqlite3Isdigit c = ctype c 0x04"

definition sqlite3Isxdigit :: "char \<Rightarrow> bool" where
  "sqlite3Isxdigit c = ctype c 0x08"

definition IdChar :: "char \<Rightarrow> bool" where
  "IdChar c = ctype c 0x46"

text \<open>The classes of the first byte of a token.\<close>

definition CC_X :: nat where "CC_X = 0"
definition CC_KYWD :: nat where "CC_KYWD = 1"
definition CC_ID :: nat where "CC_ID = 2"
definition CC_DIGIT :: nat where "CC_DIGIT = 3"
definition CC_DOLLAR :: nat where "CC_DOLLAR = 4"
definition CC_VARALPHA :: nat where "CC_VARALPHA = 5"
definition CC_VARNUM :: nat where "CC_VARNUM = 6"
definition CC_SPACE :: nat where "CC_SPACE = 7"
definition CC_QUOTE :: nat where "CC_QUOTE = 8"
definition CC_QUOTE2 :: nat where "CC_QUOTE2 = 9"
definition CC_PIPE :: nat where "CC_PIPE = 10"
definition CC_MINUS :: nat where "CC_MINUS = 11"
definition CC_LT :: nat where "CC_LT = 12"
definition CC_GT :: nat where "CC_GT = 13"
definition CC_EQ :: nat where "CC_EQ = 14"
definition CC_BANG :: nat where "CC_BANG = 15"
definition CC_SLASH :: nat where "CC_SLASH = 16"
definition CC_LP :: nat where "CC_LP = 17"
definition CC_RP :: nat where "CC_RP = 18"
definition CC_SEMI :: nat where "CC_SEMI = 19"
definition CC_PLUS :: nat where "CC_PLUS = 20"
definition CC_STAR :: nat where "CC_STAR = 21"
definition CC_PERCENT :: nat where "CC_PERCENT = 22"
definition CC_COMMA :: nat where "CC_COMMA = 23"
definition CC_AND :: nat where "CC_AND = 24"
definition CC_TILDA :: nat where "CC_TILDA = 25"
definition CC_DOT :: nat where "CC_DOT = 26"
definition CC_ILLEGAL :: nat where "CC_ILLEGAL = 27"
definition CC_NUL :: nat where "CC_NUL = 28"

lemmas char_classes =
  CC_X_def CC_KYWD_def CC_ID_def CC_DIGIT_def CC_DOLLAR_def CC_VARALPHA_def CC_VARNUM_def
  CC_SPACE_def CC_QUOTE_def CC_QUOTE2_def CC_PIPE_def CC_MINUS_def CC_LT_def CC_GT_def CC_EQ_def
  CC_BANG_def CC_SLASH_def CC_LP_def CC_RP_def CC_SEMI_def CC_PLUS_def CC_STAR_def
  CC_PERCENT_def CC_COMMA_def CC_AND_def CC_TILDA_def CC_DOT_def CC_ILLEGAL_def CC_NUL_def

definition aiClass_table :: "nat list" where
  "aiClass_table = [
    28, 27, 27, 27, 27, 27, 27, 27, 27, 7, 7, 27, 7, 7, 27, 27, 27, 27, 27, 27, 27, 27, 27,
    27, 27, 27, 27, 27, 27, 27, 27, 27, 7, 15, 8, 5, 4, 22, 24, 8, 17, 18, 21, 20, 23, 11,
    26, 16, 3, 3, 3, 3, 3, 3, 3, 3, 3, 3, 5, 19, 12, 14, 13, 6, 5, 1, 1, 1, 1, 1, 1, 1, 1,
    1, 1, 1, 1, 1, 1, 1, 1, 1, 1, 1, 1, 1, 1, 1, 0, 1, 1, 9, 27, 27, 27, 1, 8, 1, 1, 1, 1,
    1, 1, 1, 1, 1, 1, 1, 1, 1, 1, 1, 1, 1, 1, 1, 1, 1, 1, 1, 0, 1, 1, 27, 10, 27, 25, 27,
    2, 2, 2, 2, 2, 2, 2, 2, 2, 2, 2, 2, 2, 2, 2, 2, 2, 2, 2, 2, 2, 2, 2, 2, 2, 2, 2, 2, 2,
    2, 2, 2, 2, 2, 2, 2, 2, 2, 2, 2, 2, 2, 2, 2, 2, 2, 2, 2, 2, 2, 2, 2, 2, 2, 2, 2, 2, 2,
    2, 2, 2, 2, 2, 2, 2, 2, 2, 2, 2, 2, 2, 2, 2, 2, 2, 2, 2, 2, 2, 2, 2, 2, 2, 2, 2, 2, 2,
    2, 2, 2, 2, 2, 2, 2, 2, 2, 2, 2, 2, 2, 2, 2, 2, 2, 2, 2, 2, 2, 2, 2, 2, 2, 2, 2, 2, 2,
    2, 2, 2, 2, 2, 2, 2, 2, 2, 2, 2, 2]"

definition aiClass :: "char \<Rightarrow> nat" where
  "aiClass c = aiClass_table ! of_char c"

text \<open>The tokens that fall back to another one when the grammar has no use for them; zero is none.\<close>

definition yyFallback :: "nat list" where
  "yyFallback = [
    0, 0, 59, 59, 59, 59, 0, 59, 59, 59, 0, 59, 59, 59, 59, 0, 0, 0, 59, 0, 0, 59, 0, 0, 0,
    59, 0, 59, 59, 59, 59, 59, 59, 59, 59, 59, 59, 59, 59, 59, 59, 59, 59, 0, 0, 0, 59, 59,
    0, 0, 0, 0, 0, 0, 0, 0, 0, 0, 0, 0, 59, 59, 59, 59, 59, 59, 59, 59, 59, 59, 59, 59, 59,
    59, 59, 59, 59, 59, 59, 59, 59, 59, 59, 59, 59, 59, 59, 59, 59, 59, 59]"

definition sqlite3ParserFallback :: "nat \<Rightarrow> nat" where
  "sqlite3ParserFallback t = (if t < length yyFallback then yyFallback ! t else 0)"

section \<open>Reading a text\<close>

text \<open>
  \<open>z_at\<close> is the byte at a position, the terminator included. A position is \<open>readable\<close> when no byte in front of
  it ends the string.
\<close>

definition z_at :: "string \<Rightarrow> nat \<Rightarrow> char" where
  "z_at z i = (if i < length z then z ! i else NUL)"

definition readable :: "string \<Rightarrow> nat \<Rightarrow> bool" where
  "readable z i \<longleftrightarrow> i \<le> length z \<and> NUL \<notin> set (take i z)"

lemma peek_le: "peek z i = Ok c \<Longrightarrow> i \<le> length z"
  by (auto simp: peek_def split: if_splits)

text \<open>What follows a read may use what was read; the termination proofs of the loops do.\<close>

lemma obind_cong [fundef_cong]:
  "m = m' \<Longrightarrow> (\<And>x. m' = Ok x \<Longrightarrow> f x = g x) \<Longrightarrow> obind m f = obind m' g"
  by (cases m') auto

text \<open>The loop that advances while the bytes belong to a set.\<close>

function scan :: "(char \<Rightarrow> bool) \<Rightarrow> string \<Rightarrow> nat \<Rightarrow> nat outcome" where
  "scan p z i = obind (peek z i) (\<lambda>c. if p c then scan p z (Suc i) else Ok i)"
  by pat_completeness auto
termination
  by (relation "measure (\<lambda>(p, z, i). Suc (length z) - i)") (auto dest: peek_le)

declare scan.simps [simp del]

section \<open>The tokens\<close>

text \<open>Each definition is one case of the switch; a token is its length and its type.\<close>

type_synonym token = "(nat \<times> nat) outcome"

definition token_space :: "string \<Rightarrow> token" where
  "token_space z = obind (scan sqlite3Isspace z 1) (\<lambda>i. Ok (i, TK_SPACE))"

definition token_minus :: "string \<Rightarrow> token" where
  "token_minus z = obind (peek z 1)
     (\<lambda>c. if c = CHR ''-'' then
            obind (scan (\<lambda>c. c \<noteq> NUL \<and> c \<noteq> CHR ''\<newline>'') z 2) (\<lambda>i. Ok (i, TK_SPACE))
          else Ok (1, TK_MINUS))"

text \<open>The loop of a comment keeps the byte in front of \<open>i\<close>, and gives zero for it at the end of the text.\<close>

function comment_loop :: "string \<Rightarrow> char \<Rightarrow> nat \<Rightarrow> (char \<times> nat) outcome" where
  "comment_loop z c i = obind (peek z i)
     (\<lambda>d. if c \<noteq> CHR ''*'' \<or> d \<noteq> CHR ''/'' then
            (if d \<noteq> NUL then comment_loop z d (Suc i) else Ok (d, i))
          else Ok (c, i))"
  by pat_completeness auto
termination
  by (relation "measure (\<lambda>(z, c, i). Suc (length z) - i)") (auto dest: peek_le)

declare comment_loop.simps [simp del]

definition token_slash :: "string \<Rightarrow> token" where
  "token_slash z = obind (peek z 1)
     (\<lambda>c. if c \<noteq> CHR ''*'' then Ok (1, TK_SLASH)
          else obind (peek z 2)
            (\<lambda>d. if d = NUL then Ok (1, TK_SLASH)
                 else obind (comment_loop z d 3) (\<lambda>(c, i). Ok (if c \<noteq> NUL then i + 1 else i, TK_SPACE))))"

text \<open>The operators of one or two bytes.\<close>

definition token_eq :: "string \<Rightarrow> token" where
  "token_eq z = obind (peek z 1) (\<lambda>c. Ok (1 + (if c = CHR ''='' then 1 else 0), TK_EQ))"

definition token_lt :: "string \<Rightarrow> token" where
  "token_lt z = obind (peek z 1)
     (\<lambda>c. if c = CHR ''='' then Ok (2, TK_LE)
          else if c = CHR ''>'' then Ok (2, TK_NE)
          else if c = CHR ''<'' then Ok (2, TK_LSHIFT)
          else Ok (1, TK_LT))"

definition token_gt :: "string \<Rightarrow> token" where
  "token_gt z = obind (peek z 1)
     (\<lambda>c. if c = CHR ''='' then Ok (2, TK_GE)
          else if c = CHR ''>'' then Ok (2, TK_RSHIFT)
          else Ok (1, TK_GT))"

definition token_bang :: "string \<Rightarrow> token" where
  "token_bang z = obind (peek z 1) (\<lambda>c. if c \<noteq> CHR ''='' then Ok (1, TK_ILLEGAL) else Ok (2, TK_NE))"

definition token_pipe :: "string \<Rightarrow> token" where
  "token_pipe z = obind (peek z 1) (\<lambda>c. if c \<noteq> CHR ''|'' then Ok (1, TK_BITOR) else Ok (2, TK_CONCAT))"

text \<open>A quoted text; the delimiter doubled stands for itself. The byte is zero when the text has no end.\<close>

function quote_loop :: "string \<Rightarrow> char \<Rightarrow> nat \<Rightarrow> (char \<times> nat) outcome" where
  "quote_loop z delim i = obind (peek z i)
     (\<lambda>c. if c = NUL then Ok (c, i)
          else if c = delim then
            obind (peek z (i + 1)) (\<lambda>d. if d = delim then quote_loop z delim (i + 2) else Ok (c, i))
          else quote_loop z delim (i + 1))"
  by pat_completeness auto
termination
  by (relation "measure (\<lambda>(z, delim, i). Suc (length z) - i)") (auto dest!: peek_le)

declare quote_loop.simps [simp del]

definition token_quote :: "string \<Rightarrow> token" where
  "token_quote z = obind (peek z 0)
     (\<lambda>delim. obind (quote_loop z delim 1)
        (\<lambda>(c, i). Ok (if c = CHR 0x27 then (i + 1, TK_STRING)
                      else if c \<noteq> NUL then (i + 1, TK_ID)
                      else (i, TK_ILLEGAL))))"

text \<open>The parts of a number: a fraction, an exponent, and the letters that make it illegal.\<close>

definition number_fraction :: "string \<Rightarrow> nat \<Rightarrow> nat \<Rightarrow> token" where
  "number_fraction z i t = obind (peek z i)
     (\<lambda>c. if c = CHR ''.'' then obind (scan sqlite3Isdigit z (i + 1)) (\<lambda>j. Ok (j, TK_FLOAT)) else Ok (i, t))"

definition exponent_at :: "string \<Rightarrow> nat \<Rightarrow> bool outcome" where
  "exponent_at z i = obind (peek z i)
     (\<lambda>c. if c = CHR ''e'' \<or> c = CHR ''E'' then
            obind (peek z (i + 1))
              (\<lambda>d. if sqlite3Isdigit d then Ok True
                   else if d = CHR ''+'' \<or> d = CHR ''-'' then
                     obind (peek z (i + 2)) (\<lambda>e. Ok (sqlite3Isdigit e))
                   else Ok False)
          else Ok False)"

definition number_exponent :: "string \<Rightarrow> nat \<Rightarrow> nat \<Rightarrow> token" where
  "number_exponent z i t = obind (exponent_at z i)
     (\<lambda>b. if b then obind (scan sqlite3Isdigit z (i + 2)) (\<lambda>j. Ok (j, TK_FLOAT)) else Ok (i, t))"

definition number_tail :: "string \<Rightarrow> nat \<Rightarrow> nat \<Rightarrow> token" where
  "number_tail z i t = obind (scan IdChar z i) (\<lambda>j. Ok (j, if i < j then TK_ILLEGAL else t))"

definition hex_at :: "string \<Rightarrow> bool outcome" where
  "hex_at z = obind (peek z 0)
     (\<lambda>c. if c = CHR ''0'' then
            obind (peek z 1)
              (\<lambda>d. if d = CHR ''x'' \<or> d = CHR ''X'' then obind (peek z 2) (\<lambda>e. Ok (sqlite3Isxdigit e)) else Ok False)
          else Ok False)"

definition token_digit :: "string \<Rightarrow> token" where
  "token_digit z = obind (hex_at z)
     (\<lambda>b. if b then obind (scan sqlite3Isxdigit z 3) (\<lambda>i. Ok (i, TK_INTEGER))
          else obind (scan sqlite3Isdigit z 0)
            (\<lambda>i. obind (number_fraction z i TK_INTEGER)
               (\<lambda>(j, t). obind (number_exponent z j t) (\<lambda>(k, t). number_tail z k t))))"

definition token_dot :: "string \<Rightarrow> token" where
  "token_dot z = obind (peek z 1) (\<lambda>c. if \<not> sqlite3Isdigit c then Ok (1, TK_DOT) else token_digit z)"

text \<open>A name in brackets. The loop keeps the byte in front of \<open>i\<close>.\<close>

function bracket_loop :: "string \<Rightarrow> char \<Rightarrow> nat \<Rightarrow> (char \<times> nat) outcome" where
  "bracket_loop z c i =
     (if c \<noteq> CHR '']'' then
        obind (peek z i) (\<lambda>d. if d \<noteq> NUL then bracket_loop z d (Suc i) else Ok (d, i))
      else Ok (c, i))"
  by pat_completeness auto
termination
  by (relation "measure (\<lambda>(z, c, i). Suc (length z) - i)") (auto dest: peek_le)

declare bracket_loop.simps [simp del]

definition token_bracket :: "string \<Rightarrow> token" where
  "token_bracket z = obind (peek z 0)
     (\<lambda>c. obind (bracket_loop z c 1) (\<lambda>(c, i). Ok (i, if c = CHR '']'' then TK_ID else TK_ILLEGAL)))"

definition token_varnum :: "string \<Rightarrow> token" where
  "token_varnum z = obind (scan sqlite3Isdigit z 1) (\<lambda>i. Ok (i, TK_VARIABLE))"

text \<open>A named parameter; \<open>n\<close> counts the bytes of its name, and the type turns illegal for an argument that is not closed.\<close>

function variable_loop :: "string \<Rightarrow> nat \<Rightarrow> nat \<Rightarrow> (nat \<times> nat \<times> nat) outcome" where
  "variable_loop z i n = obind (peek z i)
     (\<lambda>c. if c = NUL then Ok (i, n, TK_VARIABLE)
          else if IdChar c then variable_loop z (i + 1) (n + 1)
          else if c = CHR ''('' \<and> n > 0 then
            obind (scan (\<lambda>c. c \<noteq> NUL \<and> \<not> sqlite3Isspace c \<and> c \<noteq> CHR '')'') z (i + 1))
              (\<lambda>j. obind (peek z j) (\<lambda>d. Ok (if d = CHR '')'' then (j + 1, n, TK_VARIABLE) else (j, n, TK_ILLEGAL))))
          else if c = CHR '':'' then
            obind (peek z (i + 1)) (\<lambda>d. if d = CHR '':'' then variable_loop z (i + 2) n else Ok (i, n, TK_VARIABLE))
          else Ok (i, n, TK_VARIABLE))"
  by pat_completeness auto
termination
  by (relation "measure (\<lambda>(z, i, n). Suc (length z) - i)") (auto dest!: peek_le)

declare variable_loop.simps [simp del]

definition token_variable :: "string \<Rightarrow> token" where
  "token_variable z = obind (variable_loop z 1 0) (\<lambda>(i, n, t). Ok (i, if n = 0 then TK_ILLEGAL else t))"

definition token_id :: "string \<Rightarrow> nat \<Rightarrow> token" where
  "token_id z i = obind (scan IdChar z i) (\<lambda>j. Ok (j, TK_ID))"

definition token_keyword :: "string \<Rightarrow> token" where
  "token_keyword z = obind (scan (\<lambda>c. aiClass c \<le> CC_KYWD) z 1)
     (\<lambda>i. obind (peek z i) (\<lambda>c. if IdChar c then token_id z (i + 1) else keywordCode z i TK_ID))"

definition token_x :: "string \<Rightarrow> token" where
  "token_x z = obind (peek z 1)
     (\<lambda>c. if c = CHR 0x27 then
            obind (scan sqlite3Isxdigit z 2)
              (\<lambda>i. obind (peek z i)
                (\<lambda>d. if d \<noteq> CHR 0x27 \<or> i mod 2 = 1 then
                       obind (scan (\<lambda>c. c \<noteq> NUL \<and> c \<noteq> CHR 0x27) z i)
                         (\<lambda>j. obind (peek z j) (\<lambda>e. Ok (if e \<noteq> NUL then j + 1 else j, TK_ILLEGAL)))
                     else Ok (i + 1, TK_BLOB)))
          else token_id z 1)"

definition sqlite3GetToken :: "string \<Rightarrow> token" where
  "sqlite3GetToken z = obind (peek z 0)
     (\<lambda>c. let k = aiClass c in
        if k = CC_SPACE then token_space z
        else if k = CC_MINUS then token_minus z
        else if k = CC_LP then Ok (1, TK_LP)
        else if k = CC_RP then Ok (1, TK_RP)
        else if k = CC_SEMI then Ok (1, TK_SEMI)
        else if k = CC_PLUS then Ok (1, TK_PLUS)
        else if k = CC_STAR then Ok (1, TK_STAR)
        else if k = CC_SLASH then token_slash z
        else if k = CC_PERCENT then Ok (1, TK_REM)
        else if k = CC_EQ then token_eq z
        else if k = CC_LT then token_lt z
        else if k = CC_GT then token_gt z
        else if k = CC_BANG then token_bang z
        else if k = CC_PIPE then token_pipe z
        else if k = CC_COMMA then Ok (1, TK_COMMA)
        else if k = CC_AND then Ok (1, TK_BITAND)
        else if k = CC_TILDA then Ok (1, TK_BITNOT)
        else if k = CC_QUOTE then token_quote z
        else if k = CC_DOT then token_dot z
        else if k = CC_DIGIT then token_digit z
        else if k = CC_QUOTE2 then token_bracket z
        else if k = CC_VARNUM then token_varnum z
        else if k = CC_DOLLAR \<or> k = CC_VARALPHA then token_variable z
        else if k = CC_KYWD then token_keyword z
        else if k = CC_X then token_x z
        else if k = CC_ID then token_id z 1
        else if k = CC_NUL then Ok (0, TK_ILLEGAL)
        else Ok (1, TK_ILLEGAL))"

section \<open>Facts on the characters\<close>

lemma char_table_sizes: "length aiClass_table = 256" "length sqlite3CtypeMap = 256"
  by (simp_all add: aiClass_table_def sqlite3CtypeMap_def)

text \<open>What each entry of the table of classes says of the byte.\<close>

definition class_fits :: "nat \<Rightarrow> nat \<Rightarrow> nat \<Rightarrow> bool" where
  "class_fits i a m \<longleftrightarrow>
     (if a = CC_ID then i \<noteq> 0 \<and> m AND 0x46 \<noteq> 0
      else if a = CC_KYWD then i \<noteq> 0 \<and> m AND 0x46 \<noteq> 0
      else if a = CC_ILLEGAL \<or> a = CC_DOLLAR \<or> a = CC_VARALPHA then i \<noteq> 0
      else if a = CC_DIGIT then i \<noteq> 0 \<and> m AND 0x04 \<noteq> 0
      else if a = CC_SPACE then i \<noteq> 0 \<and> m AND 0x01 \<noteq> 0
      else if a = CC_X then (i = 88 \<or> i = 120) \<and> m AND 0x46 \<noteq> 0
      else if a = CC_QUOTE then i = 34 \<or> i = 39 \<or> i = 96
      else (a, i) \<in> {(CC_NUL, 0), (CC_DOT, 46), (CC_MINUS, 45), (CC_SLASH, 47), (CC_QUOTE2, 91), (CC_LP, 40), (CC_RP, 41),
        (CC_SEMI, 59), (CC_PLUS, 43), (CC_STAR, 42), (CC_PERCENT, 37), (CC_EQ, 61), (CC_LT, 60), (CC_GT, 62), (CC_BANG, 33),
        (CC_PIPE, 124), (CC_COMMA, 44), (CC_AND, 38), (CC_TILDA, 126), (CC_VARNUM, 63)})"

lemma classes_fit: "list_all (\<lambda>(i, a, m). class_fits i a m) (zip [0..<256] (zip aiClass_table sqlite3CtypeMap))"
  by (simp add: aiClass_table_def sqlite3CtypeMap_def class_fits_def char_classes upt_conv_Cons)

lemma class_fits: "class_fits (of_char c) (aiClass c) (sqlite3CtypeMap ! of_char c)"
proof -
  have c: "of_char c < (256 :: nat)" by simp
  then have "(of_char c, aiClass_table ! of_char c, sqlite3CtypeMap ! of_char c) \<in>
      set (zip [0..<256] (zip aiClass_table sqlite3CtypeMap))"
    using nth_mem [of "of_char c" "zip [0..<256] (zip aiClass_table sqlite3CtypeMap)"] by (simp add: char_table_sizes)
  then show ?thesis using classes_fit by (auto simp: list_all_iff aiClass_def)
qed

lemma aiClass_NUL: "aiClass c = CC_NUL \<longleftrightarrow> c = NUL"
  using class_fits [of c]
  by (auto simp: class_fits_def char_classes split: if_splits simp flip: of_char_eq_iff [where ?'a = nat])

text \<open>The classes of a single byte, and what the others contain.\<close>

lemma class_chars:
  "aiClass c = CC_DOT \<Longrightarrow> c = CHR ''.''" "aiClass c = CC_MINUS \<Longrightarrow> c = CHR ''-''" "aiClass c = CC_SLASH \<Longrightarrow> c = CHR ''/''"
  "aiClass c = CC_QUOTE2 \<Longrightarrow> c = CHR ''[''" "aiClass c = CC_LP \<Longrightarrow> c = CHR ''(''" "aiClass c = CC_RP \<Longrightarrow> c = CHR '')''"
  "aiClass c = CC_SEMI \<Longrightarrow> c = CHR '';''" "aiClass c = CC_PLUS \<Longrightarrow> c = CHR ''+''" "aiClass c = CC_STAR \<Longrightarrow> c = CHR ''*''"
  "aiClass c = CC_PERCENT \<Longrightarrow> c = CHR ''%''" "aiClass c = CC_EQ \<Longrightarrow> c = CHR ''=''" "aiClass c = CC_LT \<Longrightarrow> c = CHR ''<''"
  "aiClass c = CC_GT \<Longrightarrow> c = CHR ''>''" "aiClass c = CC_BANG \<Longrightarrow> c = CHR ''!''" "aiClass c = CC_PIPE \<Longrightarrow> c = CHR ''|''"
  "aiClass c = CC_COMMA \<Longrightarrow> c = CHR '',''" "aiClass c = CC_AND \<Longrightarrow> c = CHR ''&''" "aiClass c = CC_TILDA \<Longrightarrow> c = CHR ''~''"
  "aiClass c = CC_VARNUM \<Longrightarrow> c = CHR ''?''"
  "aiClass c = CC_X \<Longrightarrow> c \<in> {CHR ''x'', CHR ''X''}" "aiClass c = CC_QUOTE \<Longrightarrow> c \<in> {CHR 0x22, CHR 0x27, CHR 0x60}"
  "aiClass c = CC_DIGIT \<Longrightarrow> sqlite3Isdigit c" "aiClass c = CC_SPACE \<Longrightarrow> sqlite3Isspace c"
  "aiClass c \<le> CC_ID \<Longrightarrow> IdChar c"
  using class_fits [of c]
  by (auto simp: class_fits_def char_classes sqlite3Isdigit_def sqlite3Isspace_def IdChar_def ctype_def le_Suc_eq numeral_2_eq_2
      split: if_splits simp flip: of_char_eq_iff [where ?'a = nat])

lemma no_ctype_of_NUL [simp]: "\<not> sqlite3Isspace NUL" "\<not> sqlite3Isdigit NUL" "\<not> sqlite3Isxdigit NUL" "\<not> IdChar NUL"
  by (simp_all add: sqlite3Isspace_def sqlite3Isdigit_def sqlite3Isxdigit_def IdChar_def ctype_def sqlite3CtypeMap_def)

section \<open>What the loops read\<close>

lemma readable_0 [simp]: "readable z 0"
  by (simp add: readable_def)

lemma peek_readable [simp]: "readable z i \<Longrightarrow> peek z i = Ok (z_at z i)"
  by (auto simp: readable_def peek_def z_at_def)

lemma readable_Suc [intro]: "readable z i \<Longrightarrow> z_at z i \<noteq> NUL \<Longrightarrow> readable z (Suc i)"
  by (auto simp: readable_def z_at_def take_Suc_conv_app_nth split: if_splits)

lemma readable_le: "readable z i \<Longrightarrow> i \<le> length z"
  by (simp add: readable_def)

text \<open>The bytes \<open>w\<close> lie between two positions, none of them the end of the string.\<close>

definition reads :: "string \<Rightarrow> nat \<Rightarrow> string \<Rightarrow> nat \<Rightarrow> bool" where
  "reads z i w j \<longleftrightarrow> readable z i \<and> readable z j \<and> j = i + length w \<and> take j z = take i z @ w"

lemma readsD:
  assumes "reads z i w j"
  shows "readable z i" "readable z j" "j = i + length w" "i \<le> j"
  using assms unfolding reads_def by (blast, blast, blast, simp)

lemma reads_Nil [simp]: "reads z i [] j \<longleftrightarrow> readable z i \<and> j = i"
  by (auto simp: reads_def)

lemma reads_append [trans]: "reads z i v j \<Longrightarrow> reads z j w k \<Longrightarrow> reads z i (v @ w) k"
  by (auto simp: reads_def)

lemma reads_one: "readable z i \<Longrightarrow> z_at z i = c \<Longrightarrow> c \<noteq> NUL \<Longrightarrow> reads z i [c] (Suc i)"
  by (auto simp: reads_def z_at_def take_Suc_conv_app_nth split: if_splits)

lemma reads_Cons: "readable z i \<Longrightarrow> z_at z i = c \<Longrightarrow> c \<noteq> NUL \<Longrightarrow> reads z (Suc i) w j \<Longrightarrow> reads z i (c # w) j"
  using reads_append [OF reads_one] by fastforce

lemma reads_two:
  "readable z i \<Longrightarrow> z_at z i = c \<Longrightarrow> z_at z (Suc i) = d \<Longrightarrow> c \<noteq> NUL \<Longrightarrow> d \<noteq> NUL \<Longrightarrow> reads z i [c, d] (Suc (Suc i))"
  by (metis reads_Cons reads_one readsD(2))

lemma reads_take: "reads z 0 w n \<Longrightarrow> take n z = w \<and> n = length w \<and> readable z n"
  by (metis add_0 append_Nil reads_def take0)

lemma reads_shorter: "readable z i \<Longrightarrow> z_at z i \<noteq> NUL \<Longrightarrow> length z - Suc i < length z - i"
  using readable_le [of z "Suc i"] by fastforce

text \<open>One turn of each loop from a readable position.\<close>

lemma scan_turn:
  "readable z i \<Longrightarrow> scan p z i = (if p (z_at z i) then scan p z (Suc i) else Ok i)"
  by (subst scan.simps) simp

lemma comment_turn:
  "readable z i \<Longrightarrow> comment_loop z c i =
     (if c = CHR ''*'' \<and> z_at z i = CHR ''/'' then Ok (c, i)
      else if z_at z i = NUL then Ok (NUL, i) else comment_loop z (z_at z i) (Suc i))"
  by (subst comment_loop.simps) simp

lemma bracket_turn:
  "readable z i \<Longrightarrow> bracket_loop z c i =
     (if c = CHR '']'' then Ok (c, i)
      else if z_at z i = NUL then Ok (NUL, i) else bracket_loop z (z_at z i) (Suc i))"
  by (subst bracket_loop.simps) simp

lemma quote_turn:
  "readable z i \<Longrightarrow> delim \<noteq> NUL \<Longrightarrow> quote_loop z delim i =
     (if z_at z i = NUL then Ok (NUL, i)
      else if z_at z i \<noteq> delim then quote_loop z delim (Suc i)
      else if z_at z (Suc i) \<noteq> delim then Ok (delim, i) else quote_loop z delim (Suc (Suc i)))"
  by (subst quote_loop.simps) (simp add: readable_Suc)

lemma scan_reads:
  assumes "readable z i" and "\<not> p NUL"
  shows "\<exists>w j. scan p z i = Ok j \<and> reads z i w j \<and> list_all p w \<and> \<not> p (z_at z j)"
  using assms(1)
proof (induction "length z - i" arbitrary: i rule: less_induct)
  case less
  show ?case
  proof (cases "p (z_at z i)")
    case True
    then have n: "z_at z i \<noteq> NUL" using assms(2) by metis
    then obtain w j where "scan p z (Suc i) = Ok j" "reads z (Suc i) w j" "list_all p w" "\<not> p (z_at z j)"
      using less.hyps [OF reads_shorter [OF less.prems n]] less.prems by blast
    then show ?thesis
      using True n less.prems reads_Cons [OF less.prems refl n]
      by (intro exI [of _ "z_at z i # w"] exI [of _ j]) (simp add: scan_turn)
  next
    case False
    then show ?thesis using less.prems by (intro exI [of _ "[]"] exI [of _ i]) (simp add: scan_turn)
  qed
qed

text \<open>The text of a comment behind its opening.\<close>

definition closes :: "string \<Rightarrow> bool" where
  "closes w \<longleftrightarrow> sublist ''*/'' w"

lemma closes_Cons: "closes (c # w) \<longleftrightarrow> c = CHR ''*'' \<and> (\<exists>v. w = CHR ''/'' # v) \<or> closes w"
  by (cases w) (auto simp: closes_def sublist_Cons_right)

lemma not_closes [simp]: "\<not> closes []" "\<not> closes [c]"
  by (auto simp: closes_def dest: sublist_length_le)

lemma comment_reads:
  assumes "readable z i"
  shows "\<exists>c' w j. comment_loop z c i = Ok (c', j) \<and> reads z i w j \<and> \<not> closes (c # w) \<and>
    (c' \<noteq> NUL \<longrightarrow> last (c # w) = CHR ''*'' \<and> z_at z j = CHR ''/'')"
  using assms
proof (induction "length z - i" arbitrary: i c rule: less_induct)
  case less
  show ?case
  proof (cases "(c = CHR ''*'' \<and> z_at z i = CHR ''/'') \<or> z_at z i = NUL")
    case True
    then show ?thesis
      using less.prems
      by (intro exI [of _ "if c = CHR ''*'' \<and> z_at z i = CHR ''/'' then c else NUL"] exI [of _ "[]"] exI [of _ i])
        (auto simp: comment_turn)
  next
    case False
    then have n: "z_at z i \<noteq> NUL" by simp
    then obtain c' w j where "comment_loop z (z_at z i) (Suc i) = Ok (c', j)" "reads z (Suc i) w j"
      "\<not> closes (z_at z i # w)" "c' \<noteq> NUL \<longrightarrow> last (z_at z i # w) = CHR ''*'' \<and> z_at z j = CHR ''/''"
      using less.hyps [OF reads_shorter [OF less.prems n]] less.prems by blast
    then show ?thesis
      using False n less.prems reads_Cons [OF less.prems refl n]
      by (intro exI [of _ c'] exI [of _ "z_at z i # w"] exI [of _ j]) (auto simp: comment_turn closes_Cons)
  qed
qed

lemma bracket_reads:
  assumes "readable z i"
  shows "\<exists>c' w j. bracket_loop z c i = Ok (c', j) \<and> reads z i w j \<and>
    (c' = CHR '']'' \<longrightarrow> (\<exists>v. c # w = v @ '']'' \<and> CHR '']'' \<notin> set v))"
  using assms
proof (induction "length z - i" arbitrary: i c rule: less_induct)
  case less
  show ?case
  proof (cases "c = CHR '']'' \<or> z_at z i = NUL")
    case True
    then show ?thesis
      using less.prems
      by (intro exI [of _ "if c = CHR '']'' then c else NUL"] exI [of _ "[]"] exI [of _ i]) (auto simp: bracket_turn)
  next
    case False
    then have n: "z_at z i \<noteq> NUL" by simp
    then obtain c' w j where "bracket_loop z (z_at z i) (Suc i) = Ok (c', j)" "reads z (Suc i) w j"
      "c' = CHR '']'' \<longrightarrow> (\<exists>v. z_at z i # w = v @ '']'' \<and> CHR '']'' \<notin> set v)"
      using less.hyps [OF reads_shorter [OF less.prems n]] less.prems by blast
    moreover have "z_at z i # w = v @ '']'' \<Longrightarrow> CHR '']'' \<notin> set v \<Longrightarrow>
        \<exists>u. c # z_at z i # w = u @ '']'' \<and> CHR '']'' \<notin> set u" for v
      using False by (intro exI [of _ "c # v"]) auto
    ultimately show ?thesis
      using False n less.prems reads_Cons [OF less.prems refl n]
      by (intro exI [of _ c'] exI [of _ "z_at z i # w"] exI [of _ j]) (auto simp: bracket_turn)
  qed
qed

text \<open>The inside of a quoted text.\<close>

inductive quoted :: "char \<Rightarrow> string \<Rightarrow> bool" for d where
  quoted_Nil: "quoted d []"
| quoted_other: "quoted d w \<Longrightarrow> c \<noteq> d \<Longrightarrow> quoted d (c # w)"
| quoted_twice: "quoted d w \<Longrightarrow> quoted d (d # d # w)"

lemma quote_reads:
  assumes "readable z i" and "delim \<noteq> NUL"
  shows "\<exists>w j. quote_loop z delim i = Ok (z_at z j, j) \<and> reads z i w j \<and> quoted delim w \<and>
    (z_at z j = NUL \<or> z_at z j = delim)"
  using assms(1)
proof (induction "length z - i" arbitrary: i rule: less_induct)
  case less
  consider (stop) "z_at z i = NUL \<or> z_at z i = delim \<and> z_at z (Suc i) \<noteq> delim"
    | (twice) "z_at z i = delim" "z_at z (Suc i) = delim" | (other) "z_at z i \<noteq> NUL" "z_at z i \<noteq> delim" by blast
  then show ?case
  proof cases
    case stop
    then show ?thesis
      using less.prems assms(2) by (intro exI [of _ "[]"] exI [of _ i]) (auto simp: quote_turn quoted_Nil)
  next
    case twice
    then have r: "reads z i [delim, delim] (Suc (Suc i))"
      using less.prems assms(2) by (simp add: reads_two)
    then have r': "readable z (Suc (Suc i))" by (rule readsD)
    then have "length z - Suc (Suc i) < length z - i" using readable_le by fastforce
    then obtain w j where "quote_loop z delim (Suc (Suc i)) = Ok (z_at z j, j)" "reads z (Suc (Suc i)) w j"
      "quoted delim w" "z_at z j = NUL \<or> z_at z j = delim"
      using less.hyps r' by blast
    then show ?thesis
      using twice less.prems assms(2) reads_append [OF r]
      by (intro exI [of _ "delim # delim # w"] exI [of _ j]) (auto simp: quote_turn intro: quoted.intros)
  next
    case other
    then obtain w j where "quote_loop z delim (Suc i) = Ok (z_at z j, j)" "reads z (Suc i) w j"
      "quoted delim w" "z_at z j = NUL \<or> z_at z j = delim"
      using less.hyps [OF reads_shorter [OF less.prems]] less.prems by blast
    then show ?thesis
      using other less.prems assms(2) reads_Cons [OF less.prems refl other(1)]
      by (intro exI [of _ "z_at z i # w"] exI [of _ j]) (auto simp: quote_turn intro: quoted.intros)
  qed
qed

text \<open>The name of a parameter, in which two colons may stand anywhere behind the first byte.\<close>

inductive parameter_name :: "string \<Rightarrow> nat \<Rightarrow> bool" where
  name_Nil: "parameter_name [] 0"
| name_Id: "parameter_name w n \<Longrightarrow> IdChar c \<Longrightarrow> parameter_name (c # w) (Suc n)"
| name_colons: "parameter_name w n \<Longrightarrow> parameter_name ('':'' @ '':'' @ w) n"

definition in_argument :: "char \<Rightarrow> bool" where
  "in_argument c \<longleftrightarrow> c \<noteq> NUL \<and> \<not> sqlite3Isspace c \<and> c \<noteq> CHR '')''"

definition parameter_rest :: "string \<Rightarrow> nat \<Rightarrow> nat \<Rightarrow> bool" where
  "parameter_rest w n m \<longleftrightarrow>
     (\<exists>k v a. m = n + k \<and> parameter_name v k \<and> w = v @ a \<and>
        (a = [] \<or> m > 0 \<and> (\<exists>u. a = ''('' @ u @ '')'' \<and> list_all in_argument u)))"

lemma parameter_rest_Nil: "parameter_rest [] n n"
  unfolding parameter_rest_def by (intro exI [of _ 0] exI [of _ "[]"]) (auto intro: parameter_name.intros)

lemma parameter_rest_Id: "parameter_rest w (Suc n) m \<Longrightarrow> IdChar c \<Longrightarrow> parameter_rest (c # w) n m"
  unfolding parameter_rest_def
  by (elim exE conjE, rule_tac x = "Suc k" in exI, rule_tac x = "c # v" in exI, rule_tac x = a in exI)
    (auto intro: parameter_name.intros)

lemma parameter_rest_colons: "parameter_rest w n m \<Longrightarrow> parameter_rest ('':'' @ '':'' @ w) n m"
  unfolding parameter_rest_def
  by (elim exE conjE, rule_tac x = k in exI, rule_tac x = "'':'' @ '':'' @ v" in exI, rule_tac x = a in exI)
    (use name_colons in auto)

lemma parameter_rest_argument: "n > 0 \<Longrightarrow> list_all in_argument u \<Longrightarrow> parameter_rest (''('' @ u @ '')'') n n"
  unfolding parameter_rest_def
  by (rule exI [of _ 0], rule exI [of _ "[]"], rule exI [of _ "''('' @ u @ '')''"]) (auto intro: parameter_name.intros)

lemma variable_turn:
  assumes "readable z i"
  shows "variable_loop z i n =
    (if IdChar (z_at z i) then variable_loop z (Suc i) (Suc n)
     else if z_at z i = CHR ''('' \<and> n > 0 then
       obind (scan in_argument z (Suc i))
         (\<lambda>j. obind (peek z j) (\<lambda>d. Ok (if d = CHR '')'' then (j + 1, n, TK_VARIABLE) else (j, n, TK_ILLEGAL))))
     else if z_at z i = CHR '':'' \<and> z_at z (Suc i) = CHR '':'' then variable_loop z (Suc (Suc i)) n
     else Ok (i, n, TK_VARIABLE))"
proof (cases "z_at z i = NUL")
  case True
  then show ?thesis using assms by (subst variable_loop.simps) simp
next
  case False
  then have "readable z (Suc i)" using assms by blast
  then show ?thesis
    using False assms unfolding in_argument_def by (subst variable_loop.simps) (simp cong: if_cong)
qed

lemma variable_reads:
  assumes "readable z i"
  shows "\<exists>w j m t. variable_loop z i n = Ok (j, m, t) \<and> reads z i w j \<and>
    (t = TK_VARIABLE \<and> parameter_rest w n m \<or> t = TK_ILLEGAL)"
  using assms
proof (induction "length z - i" arbitrary: i n rule: less_induct)
  case less
  consider (id) "IdChar (z_at z i)" | (arg) "\<not> IdChar (z_at z i)" "z_at z i = CHR ''(''" "n > 0"
    | (colons) "\<not> IdChar (z_at z i)" "z_at z i = CHR '':''" "z_at z (Suc i) = CHR '':''"
    | (stop) "\<not> IdChar (z_at z i)" "\<not> (z_at z i = CHR ''('' \<and> n > 0)" "\<not> (z_at z i = CHR '':'' \<and> z_at z (Suc i) = CHR '':'')"
    by blast
  then show ?case
  proof cases
    case id
    then have n: "z_at z i \<noteq> NUL" by (metis no_ctype_of_NUL(4))
    then obtain w j m t where "variable_loop z (Suc i) (Suc n) = Ok (j, m, t)" "reads z (Suc i) w j"
      "t = TK_VARIABLE \<and> parameter_rest w (Suc n) m \<or> t = TK_ILLEGAL"
      using less.hyps [OF reads_shorter [OF less.prems n]] less.prems by blast
    then show ?thesis
      using id less.prems reads_Cons [OF less.prems refl n] parameter_rest_Id
      by (intro exI [of _ "z_at z i # w"] exI [of _ j] exI [of _ m] exI [of _ t]) (auto simp: variable_turn)
  next
    case arg
    then have r: "reads z i ''('' (Suc i)" using less.prems by (simp add: reads_one)
    then obtain u j where u: "scan in_argument z (Suc i) = Ok j" "reads z (Suc i) u j" "list_all in_argument u"
      using scan_reads [of z "Suc i" in_argument] readsD(2) by (auto simp: in_argument_def)
    show ?thesis
    proof (cases "z_at z j = CHR '')''")
      case True
      then have "reads z i (''('' @ u @ '')'') (Suc j)"
        using reads_append [OF r reads_append [OF u(2) reads_one]] readsD(2) [OF u(2)] by simp
      then show ?thesis
        using True arg u less.prems readsD(2) [OF u(2)] parameter_rest_argument [OF arg(3) u(3)]
        by (intro exI [of _ "''('' @ u @ '')''"] exI [of _ "Suc j"] exI [of _ n] exI [of _ TK_VARIABLE])
          (simp add: variable_turn)
    next
      case False
      then show ?thesis
        using arg u less.prems readsD(2) [OF u(2)] reads_append [OF r u(2)]
        by (intro exI [of _ "''('' @ u"] exI [of _ j] exI [of _ n] exI [of _ TK_ILLEGAL]) (simp add: variable_turn)
    qed
  next
    case colons
    then have r: "reads z i ('':'' @ '':'') (Suc (Suc i))"
      using less.prems by (simp add: reads_two)
    then have r': "readable z (Suc (Suc i))" by (rule readsD)
    then have "length z - Suc (Suc i) < length z - i" using readable_le by fastforce
    then obtain w j m t where "variable_loop z (Suc (Suc i)) n = Ok (j, m, t)" "reads z (Suc (Suc i)) w j"
      "t = TK_VARIABLE \<and> parameter_rest w n m \<or> t = TK_ILLEGAL"
      using less.hyps r' by blast
    then show ?thesis
      using colons less.prems reads_append [OF r] parameter_rest_colons
      by (intro exI [of _ "('':'' @ '':'') @ w"] exI [of _ j] exI [of _ m] exI [of _ t]) (auto simp: variable_turn)
  next
    case stop
    then have "variable_loop z i n = Ok (i, n, TK_VARIABLE)"
      unfolding variable_turn [OF less.prems] by (simp only: if_False)
    then show ?thesis
      using less.prems parameter_rest_Nil
      by (intro exI [of _ "[]"] exI [of _ i] exI [of _ n] exI [of _ TK_VARIABLE]) simp
  qed
qed

section \<open>The shapes of tokens\<close>

definition operators :: "(string \<times> nat) list" where
  "operators = [(''-'', TK_MINUS), (''('', TK_LP), ('')'', TK_RP), ('';'', TK_SEMI), (''+'', TK_PLUS), (''*'', TK_STAR),
     (''/'', TK_SLASH), (''%'', TK_REM), (''='', TK_EQ), (''=='', TK_EQ), (''<='', TK_LE), (''<>'', TK_NE),
     (''<<'', TK_LSHIFT), (''<'', TK_LT), (''>='', TK_GE), (''>>'', TK_RSHIFT), (''>'', TK_GT), (''!='', TK_NE),
     (''|'', TK_BITOR), (''||'', TK_CONCAT), ('','', TK_COMMA), (''&'', TK_BITAND), (''~'', TK_BITNOT), (''.'', TK_DOT)]"

definition fraction :: "string \<Rightarrow> bool" where
  "fraction f \<longleftrightarrow> f = [] \<or> (\<exists>u. f = CHR ''.'' # u \<and> list_all sqlite3Isdigit u)"

definition exponent :: "string \<Rightarrow> bool" where
  "exponent e \<longleftrightarrow> e = [] \<or> (\<exists>l s u. e = l # s @ u \<and> l \<in> {CHR ''e'', CHR ''E''} \<and> s \<in> {'''', ''+'', ''-''} \<and>
     u \<noteq> [] \<and> list_all sqlite3Isdigit u)"

inductive shape :: "nat \<Rightarrow> string \<Rightarrow> bool" where
  blank: "w \<noteq> [] \<Longrightarrow> list_all sqlite3Isspace w \<Longrightarrow> shape TK_SPACE w"
| line_comment: "list_all (\<lambda>c. c \<noteq> NUL \<and> c \<noteq> CHR ''\<newline>'') w \<Longrightarrow> shape TK_SPACE (''--'' @ w)"
| open_comment: "w \<noteq> [] \<Longrightarrow> \<not> closes w \<Longrightarrow> shape TK_SPACE (''/*'' @ w)"
| closed_comment: "\<not> closes (w @ ''*'') \<Longrightarrow> shape TK_SPACE (''/*'' @ w @ ''*/'')"
| operator: "(w, t) \<in> set operators \<Longrightarrow> shape t w"
| text_literal: "quoted (CHR 0x27) w \<Longrightarrow> shape TK_STRING ([CHR 0x27] @ w @ [CHR 0x27])"
| quoted_name: "d \<in> {CHR 0x22, CHR 0x60} \<Longrightarrow> quoted d w \<Longrightarrow> shape TK_ID ([d] @ w @ [d])"
| bracket_name: "CHR '']'' \<notin> set w \<Longrightarrow> shape TK_ID (''['' @ w @ '']'')"
| integer: "w \<noteq> [] \<Longrightarrow> list_all sqlite3Isdigit w \<Longrightarrow> shape TK_INTEGER w"
| hexadecimal: "x \<in> {CHR ''x'', CHR ''X''} \<Longrightarrow> w \<noteq> [] \<Longrightarrow> list_all sqlite3Isxdigit w \<Longrightarrow> shape TK_INTEGER (CHR ''0'' # x # w)"
| floating: "list_all sqlite3Isdigit d \<Longrightarrow> fraction f \<Longrightarrow> exponent e \<Longrightarrow> f \<noteq> [] \<or> e \<noteq> [] \<Longrightarrow>
    d \<noteq> [] \<or> length f > 1 \<Longrightarrow> shape TK_FLOAT (d @ f @ e)"
| numbered: "list_all sqlite3Isdigit w \<Longrightarrow> shape TK_VARIABLE (''?'' @ w)"
| named: "aiClass c \<in> {CC_DOLLAR, CC_VARALPHA} \<Longrightarrow> parameter_rest w 0 m \<Longrightarrow> m > 0 \<Longrightarrow> shape TK_VARIABLE (c # w)"
| blob: "x \<in> {CHR ''x'', CHR ''X''} \<Longrightarrow> list_all sqlite3Isxdigit w \<Longrightarrow> even (length w) \<Longrightarrow>
    shape TK_BLOB ([x, CHR 0x27] @ w @ [CHR 0x27])"
| plain_name: "w \<noteq> [] \<Longrightarrow> list_all IdChar w \<Longrightarrow> aiClass (hd w) \<le> CC_ID \<Longrightarrow> map clear20 w \<notin> set keyword_list \<Longrightarrow>
    shape TK_ID w"
| known_word: "map clear20 w \<in> set keyword_list \<Longrightarrow> list_all IdChar w \<Longrightarrow> shape (keyword_code (map clear20 w)) w"
| illegal: "w \<noteq> [] \<Longrightarrow> shape TK_ILLEGAL w"

definition lexed :: "string \<Rightarrow> token \<Rightarrow> bool" where
  "lexed z r \<longleftrightarrow> (\<exists>n t w. r = Ok (n, t) \<and> reads z 0 w n \<and> shape t w)"

lemma lexedI: "reads z 0 w n \<Longrightarrow> shape t w \<Longrightarrow> lexed z (Ok (n, t))"
  by (auto simp: lexed_def)

lemma lexed_operator:
  "reads z 0 w n \<Longrightarrow> (w, t) \<in> set operators \<Longrightarrow> lexed z (Ok (n, t))"
  by (rule lexedI [OF _ operator])

lemma reads_first: "z_at z 0 = c \<Longrightarrow> c \<noteq> NUL \<Longrightarrow> reads z 0 [c] 1"
  using reads_one [of z 0 c] by simp

lemma reads_first_two: "z_at z 0 = c \<Longrightarrow> z_at z 1 = d \<Longrightarrow> c \<noteq> NUL \<Longrightarrow> d \<noteq> NUL \<Longrightarrow> reads z 0 [c, d] 2"
  using reads_two [of z 0 c d] by (simp add: numeral_2_eq_2)

lemma readable_1: "z_at z 0 \<noteq> NUL \<Longrightarrow> readable z 1" "z_at z 0 \<noteq> NUL \<Longrightarrow> readable z (Suc 0)"
  using readable_Suc [of z 0] by simp_all

lemma space_lexed: "sqlite3Isspace (z_at z 0) \<Longrightarrow> lexed z (token_space z)"
proof -
  assume c: "sqlite3Isspace (z_at z 0)"
  then have r: "reads z 0 [z_at z 0] 1" using reads_first by (metis no_ctype_of_NUL(1))
  then obtain w j where "scan sqlite3Isspace z 1 = Ok j" "reads z 1 w j" "list_all sqlite3Isspace w"
    using scan_reads [of z 1 sqlite3Isspace] readsD(2) by auto
  then show ?thesis
    using c reads_append [OF r] by (auto simp: token_space_def intro!: lexedI blank)
qed

lemma minus_lexed: "z_at z 0 = CHR ''-'' \<Longrightarrow> lexed z (token_minus z)"
proof (cases "z_at z 1 = CHR ''-''")
  let ?p = "\<lambda>c. c \<noteq> NUL \<and> c \<noteq> CHR ''\<newline>''"
  assume c: "z_at z 0 = CHR ''-''"
  case True
  then have r: "reads z 0 ''--'' 2" using c by (simp add: reads_first_two)
  then obtain w j where "scan ?p z 2 = Ok j" "reads z 2 w j" "list_all ?p w"
    using scan_reads [of z 2 ?p] readsD(2) by auto
  then show ?thesis
    using True c reads_append [OF r] readable_1
    by (auto simp: token_minus_def intro!: lexedI [OF _ line_comment, of _ w, simplified])
next
  assume c: "z_at z 0 = CHR ''-''"
  case False
  then show ?thesis
    using c reads_first [OF c] readable_1 by (auto simp: token_minus_def operators_def intro!: lexed_operator)
qed

lemma slash_lexed:
  assumes c: "z_at z 0 = CHR ''/''"
  shows "lexed z (token_slash z)"
proof (cases "z_at z 1 = CHR ''*'' \<and> z_at z 2 \<noteq> NUL")
  case True
  let ?d = "z_at z 2"
  have r: "reads z 0 ''/*'' 2" using c True by (simp add: reads_first_two)
  then have r': "reads z 0 (''/*'' @ [?d]) 3"
    using reads_append [OF r, of "[?d]" 3] reads_one [of z 2 ?d] True readsD(2) by (simp add: numeral_3_eq_3 numeral_2_eq_2)
  then obtain e w j where w: "comment_loop z ?d 3 = Ok (e, j)" "reads z 3 w j" "\<not> closes (?d # w)"
    "e \<noteq> NUL \<longrightarrow> last (?d # w) = CHR ''*'' \<and> z_at z j = CHR ''/''"
    using comment_reads [of z 3 ?d] readsD(2) by blast
  have j: "reads z 0 (''/*'' @ ?d # w) j" using reads_append [OF r' w(2)] by simp
  have tok: "token_slash z = Ok (if e \<noteq> NUL then j + 1 else j, TK_SPACE)"
    using True c w(1) readsD(2) [OF r] readable_1 by (simp add: token_slash_def)
  show ?thesis
  proof (cases "e = NUL")
    case True
    then show ?thesis using tok lexedI [OF j open_comment] w(3) by simp
  next
    case False
    then obtain v where v: "?d # w = v @ ''*''" using w(4) by (metis append_butlast_last_id list.distinct(1))
    have "reads z 0 (''/*'' @ v @ ''*/'') (j + 1)"
      using reads_append [OF j reads_one [of z j "CHR ''/''"]] readsD(2) [OF w(2)] False w(4) v by simp
    then show ?thesis using tok False lexedI [OF _ closed_comment] w(3) v by simp
  qed
next
  case False
  have "readable z 2" if "z_at z 1 = CHR ''*''"
    using reads_first_two [of z "CHR ''/''" "CHR ''*''"] that c readsD(2) by simp
  then have "token_slash z = Ok (1, TK_SLASH)"
    using False c readable_1 by (auto simp: token_slash_def)
  then show ?thesis using c reads_first [OF c] by (auto simp: operators_def intro!: lexed_operator)
qed

lemma one_lexed:
  "z_at z 0 = c \<Longrightarrow> c \<noteq> NUL \<Longrightarrow> ([c], t) \<in> set operators \<Longrightarrow> lexed z (Ok (Suc 0, t))"
  using reads_first [of z c] lexed_operator [of z "[c]" 1 t] by simp

lemma two_lexed:
  "z_at z 0 = c \<Longrightarrow> z_at z (Suc 0) = d \<Longrightarrow> c \<noteq> NUL \<Longrightarrow> d \<noteq> NUL \<Longrightarrow> ([c, d], t) \<in> set operators \<Longrightarrow>
    lexed z (Ok (2, t))"
  using reads_first_two [of z c d] lexed_operator [of z "[c, d]" 2 t] by simp

lemma illegal_lexed: "z_at z 0 \<noteq> NUL \<Longrightarrow> lexed z (Ok (Suc 0, TK_ILLEGAL))"
  using reads_first [of z] lexedI [OF _ illegal, of z _ 1] by fastforce

lemma operators_lexed:
  "z_at z 0 = CHR ''='' \<Longrightarrow> lexed z (token_eq z)"
  "z_at z 0 = CHR ''<'' \<Longrightarrow> lexed z (token_lt z)"
  "z_at z 0 = CHR ''>'' \<Longrightarrow> lexed z (token_gt z)"
  "z_at z 0 = CHR ''!'' \<Longrightarrow> lexed z (token_bang z)"
  "z_at z 0 = CHR ''|'' \<Longrightarrow> lexed z (token_pipe z)"
proof -
  note defs = token_eq_def token_lt_def token_gt_def token_bang_def token_pipe_def
  note r = readable_1 [of z] two_lexed [of z] one_lexed [of z] illegal_lexed [of z]
  show "z_at z 0 = CHR ''='' \<Longrightarrow> lexed z (token_eq z)" "z_at z 0 = CHR ''<'' \<Longrightarrow> lexed z (token_lt z)"
    "z_at z 0 = CHR ''>'' \<Longrightarrow> lexed z (token_gt z)" "z_at z 0 = CHR ''!'' \<Longrightarrow> lexed z (token_bang z)"
    "z_at z 0 = CHR ''|'' \<Longrightarrow> lexed z (token_pipe z)"
    using r by (simp_all add: defs operators_def numeral_2_eq_2)
qed

lemma quote_lexed:
  assumes "z_at z 0 = d" and "d \<in> {CHR 0x22, CHR 0x27, CHR 0x60}"
  shows "lexed z (token_quote z)"
proof -
  have d: "d \<noteq> NUL" using assms(2) by auto
  have r: "reads z 0 [d] 1" using reads_first [OF assms(1) d] .
  then obtain w j where w: "quote_loop z d 1 = Ok (z_at z j, j)" "reads z 1 w j" "quoted d w"
    "z_at z j = NUL \<or> z_at z j = d"
    using quote_reads [of z 1 d] d readsD(2) by blast
  have j: "reads z 0 (d # w) j" using reads_append [OF r w(2)] by simp
  have tok: "token_quote z = (if z_at z j = NUL then Ok (j, TK_ILLEGAL)
      else if d = CHR 0x27 then Ok (j + 1, TK_STRING) else Ok (j + 1, TK_ID))"
    using w assms by (auto simp: token_quote_def)
  show ?thesis
  proof (cases "z_at z j = NUL")
    case True
    then show ?thesis using tok lexedI [OF j illegal] by simp
  next
    case False
    then have "reads z 0 ([d] @ w @ [d]) (j + 1)"
      using reads_append [OF j reads_one [of z j d]] w(4) d readsD(2) [OF j] by simp
    then show ?thesis
      using tok False assms(2) w(3) text_literal [of w] quoted_name [of d w] by (auto intro: lexedI)
  qed
qed

lemma bracket_lexed:
  assumes "z_at z 0 = CHR ''[''"
  shows "lexed z (token_bracket z)"
proof -
  have r: "reads z 0 ''['' 1" using reads_first [OF assms] by simp
  then obtain c' w j where w: "bracket_loop z CHR ''['' 1 = Ok (c', j)" "reads z 1 w j"
    "c' = CHR '']'' \<longrightarrow> (\<exists>v. CHR ''['' # w = v @ '']'' \<and> CHR '']'' \<notin> set v)"
    using bracket_reads [of z 1] readsD(2) by blast
  have j: "reads z 0 (CHR ''['' # w) j" using reads_append [OF r w(2)] by simp
  have tok: "token_bracket z = Ok (j, if c' = CHR '']'' then TK_ID else TK_ILLEGAL)"
    using w(1) assms by (simp add: token_bracket_def)
  show ?thesis
  proof (cases "c' = CHR '']''")
    case True
    then obtain v where "CHR ''['' # w = v @ '']''" "CHR '']'' \<notin> set v" using w(3) by blast
    then obtain u where "w = u @ '']''" "CHR '']'' \<notin> set u" by (cases v) auto
    then show ?thesis using tok True j bracket_name [of u] by (auto intro: lexedI)
  next
    case False
    then show ?thesis using tok lexedI [OF j illegal] by simp
  qed
qed

lemma varnum_lexed:
  assumes "z_at z 0 = CHR ''?''"
  shows "lexed z (token_varnum z)"
proof -
  have r: "reads z 0 ''?'' 1" using reads_first [OF assms] by simp
  then obtain w j where "scan sqlite3Isdigit z 1 = Ok j" "reads z 1 w j" "list_all sqlite3Isdigit w"
    using scan_reads [of z 1 sqlite3Isdigit] readsD(2) by auto
  then show ?thesis
    using reads_append [OF r] numbered [of w] by (auto simp: token_varnum_def intro: lexedI)
qed

lemma variable_lexed:
  assumes "aiClass (z_at z 0) \<in> {CC_DOLLAR, CC_VARALPHA}" and "z_at z 0 \<noteq> NUL"
  shows "lexed z (token_variable z)"
proof -
  let ?c = "z_at z 0"
  have r: "reads z 0 [?c] 1" using reads_first assms(2) by blast
  then obtain w j m t where w: "variable_loop z 1 0 = Ok (j, m, t)" "reads z 1 w j"
    "t = TK_VARIABLE \<and> parameter_rest w 0 m \<or> t = TK_ILLEGAL"
    using variable_reads [of z 1 0] readsD(2) by blast
  have j: "reads z 0 (?c # w) j" using reads_append [OF r w(2)] by simp
  have tok: "token_variable z = Ok (j, if m = 0 then TK_ILLEGAL else t)"
    using w(1) by (simp add: token_variable_def)
  show ?thesis
    using tok w(3) lexedI [OF j illegal] lexedI [OF j named [OF assms(1)]] by (cases "m = 0") auto
qed

text \<open>Identifiers and keywords.\<close>

definition keyword_char :: "char \<Rightarrow> bool" where
  "keyword_char c \<longleftrightarrow> capital c \<or> c = CHR ''_''"

lemma keyword_chars: "list_all (\<lambda>w. list_all keyword_char w) keyword_list"
  by (simp add: keyword_list_def keyword_char_def capital_def)

lemma no_keyword_in_X: "list_all (\<lambda>w. hd w \<noteq> CHR ''X'') keyword_list"
  by (simp add: keyword_list_def)

definition keyword_class_fits :: "nat \<Rightarrow> nat \<Rightarrow> bool" where
  "keyword_class_fits i a \<longleftrightarrow> (65 \<le> i \<and> i \<le> 90 \<or> i = 95 \<or> 97 \<le> i \<and> i \<le> 122 \<longrightarrow> a \<le> CC_KYWD)"

lemma keyword_classes_fit: "list_all (\<lambda>(i, a). keyword_class_fits i a) (zip [0..<256] aiClass_table)"
  by (simp add: aiClass_table_def keyword_class_fits_def char_classes upt_conv_Cons)

lemma IdChar_127: "\<not> IdChar (CHR 0x7F)"
  by (simp add: IdChar_def ctype_def sqlite3CtypeMap_def)

lemma keyword_class:
  assumes "keyword_char (clear20 c)" and "IdChar c"
  shows "aiClass c \<le> CC_KYWD"
proof -
  have "of_char c < (256 :: nat)" by simp
  then have "keyword_class_fits (of_char c) (aiClass c)"
    using keyword_classes_fit nth_mem [of "of_char c" "zip [0..<256] aiClass_table"]
    by (auto simp: list_all_iff aiClass_def char_table_sizes)
  moreover have "65 \<le> (of_char c :: nat) \<and> (of_char c :: nat) \<le> 90 \<or> (of_char c :: nat) = 95 \<or>
      97 \<le> (of_char c :: nat) \<and> (of_char c :: nat) \<le> 122"
  proof (cases c)
    case (Char b0 b1 b2 b3 b4 b5 b6 b7)
    have "c \<noteq> CHR 0x7F" using assms(2) IdChar_127 by metis
    then show ?thesis
      using assms(1) Char
      by (cases b0; cases b1; cases b2; cases b3; cases b4; cases b5; cases b6; cases b7; simp add: keyword_char_def capital_def)
  qed
  ultimately show ?thesis by (simp add: keyword_class_fits_def)
qed

lemma not_keyword:
  assumes "c \<in> set w" and "IdChar c" and "CC_KYWD < aiClass c"
  shows "map clear20 w \<notin> set keyword_list"
proof
  assume "map clear20 w \<in> set keyword_list"
  then have "keyword_char (clear20 c)" using keyword_chars assms(1) by (auto simp: list_all_iff)
  then show False using keyword_class assms(2,3) by (metis not_le)
qed

lemmas class_IdChar = class_chars(24)

lemma id_lexed:
  assumes "reads z 0 v i" and "v \<noteq> []" and "list_all IdChar v" and "aiClass (hd v) \<le> CC_ID"
    and "\<And>w. map clear20 (v @ w) \<notin> set keyword_list"
  shows "lexed z (token_id z i)"
proof -
  obtain w j where w: "scan IdChar z i = Ok j" "reads z i w j" "list_all IdChar w"
    using scan_reads [of z i IdChar] readsD(2) [OF assms(1)] by auto
  then show ?thesis
    using assms(2-5) lexedI [OF reads_append [OF assms(1) w(2)] plain_name] by (simp add: token_id_def)
qed

lemma keyword_lexed:
  assumes "aiClass (z_at z 0) = CC_KYWD"
  shows "lexed z (token_keyword z)"
proof -
  let ?c = "z_at z 0" and ?p = "\<lambda>c. aiClass c \<le> CC_KYWD"
  have ids_class: "?p c \<Longrightarrow> IdChar c" for c using class_IdChar by (simp add: char_classes)
  have n: "\<not> ?p NUL" using aiClass_NUL [of NUL] by (simp add: char_classes)
  then have c: "?c \<noteq> NUL" using assms by (metis order_refl)
  have r: "reads z 0 [?c] 1" using reads_first c by blast
  then obtain w j where w: "scan ?p z 1 = Ok j" "reads z 1 w j" "list_all ?p w" "\<not> ?p (z_at z j)"
    using scan_reads [of z 1 ?p] readsD(2) n by blast
  let ?v = "?c # w"
  have v: "reads z 0 ?v j" using reads_append [OF r w(2)] by simp
  have ids: "list_all IdChar ?v" using w(3) assms ids_class by (auto simp: list_all_iff char_classes)
  show ?thesis
  proof (cases "IdChar (z_at z j)")
    case True
    let ?d = "z_at z j"
    have d: "?d \<noteq> NUL" using True by (metis no_ctype_of_NUL(4))
    have "reads z 0 (?v @ [?d]) (j + 1)"
      using reads_append [OF v reads_one [of z j ?d]] readsD(2) [OF v] d by simp
    moreover have "map clear20 ((?v @ [?d]) @ u) \<notin> set keyword_list" for u
      by (rule not_keyword [of ?d]) (use True w(4) in auto)
    ultimately have "lexed z (token_id z (j + 1))"
      using id_lexed [of z "?v @ [?d]" "j + 1"] True ids assms by (simp add: char_classes)
    then show ?thesis
      using w(1) True readsD(2) [OF v] by (simp add: token_keyword_def)
  next
    case False
    have take: "take j z = ?v" using reads_take [OF v] by blast
    have tok: "token_keyword z = Ok (j, case map_of (zip keyword_list aKWCode) (map clear20 ?v) of None \<Rightarrow> TK_ID | Some k \<Rightarrow> k)"
      using False w(1) readsD(2) [OF v] readable_le [OF readsD(2) [OF v]] keywordCode_eq [of j z TK_ID]
      unfolding token_keyword_def take by simp
    show ?thesis
    proof (cases "map clear20 ?v \<in> set keyword_list")
      case True
      then show ?thesis
        unfolding tok keyword_code_def [symmetric] by (intro lexedI [OF v] known_word ids)
    next
      case False
      then have "keyword_code (map clear20 ?v) = TK_ID" by (simp add: keyword_code_ID)
      moreover have "shape TK_ID ?v"
        by (intro plain_name) (use False ids assms in \<open>auto simp: char_classes\<close>)
      ultimately show ?thesis
        unfolding tok keyword_code_def [symmetric] using lexedI [OF v] by simp
    qed
  qed
qed

lemma x_lexed:
  assumes "z_at z 0 = x" and "x \<in> {CHR ''x'', CHR ''X''}" and "aiClass x \<le> CC_ID"
  shows "lexed z (token_x z)"
proof -
  have x: "x \<noteq> NUL" using assms(2) by auto
  have r1: "reads z 0 [x] 1" using reads_first assms(1) x by blast
  show ?thesis
  proof (cases "z_at z 1 = CHR 0x27")
    case False
    have "hd (map clear20 ([x] @ w)) = CHR ''X''" for w using assms(2) by auto
    then have "map clear20 ([x] @ w) \<notin> set keyword_list" for w
      using no_keyword_in_X unfolding list_all_iff by blast
    then have "lexed z (token_id z 1)"
      using id_lexed [OF r1] assms(3) class_IdChar by simp
    then show ?thesis using False readsD(2) [OF r1] by (simp add: token_x_def)
  next
    case True
    let ?q = "CHR 0x27"
    let ?p = "\<lambda>c. c \<noteq> NUL \<and> c \<noteq> ?q"
    have r2: "reads z 0 [x, ?q] 2" using reads_first_two [of z x ?q] assms(1) True x by simp
    then obtain w i where w: "scan sqlite3Isxdigit z 2 = Ok i" "reads z 2 w i" "list_all sqlite3Isxdigit w"
      using scan_reads [of z 2 sqlite3Isxdigit] readsD(2) by auto
    have i: "reads z 0 ([x, ?q] @ w) i" by (rule reads_append [OF r2 w(2)])
    have even: "i mod 2 = 1 \<longleftrightarrow> odd (length w)"
      using readsD(3) [OF i] by (simp add: odd_iff_mod_2_eq_one)
    show ?thesis
    proof (cases "z_at z i \<noteq> ?q \<or> i mod 2 = 1")
      case bad: True
      obtain v j where v: "scan ?p z i = Ok j" "reads z i v j"
        using scan_reads [of z i ?p] readsD(2) [OF i] by blast
      have j: "reads z 0 ([x, ?q] @ w @ v) j" using reads_append [OF i v(2)] by simp
      have tok: "token_x z = Ok (if z_at z j \<noteq> NUL then j + 1 else j, TK_ILLEGAL)"
        using True bad w(1) v(1) readsD(2) [OF r1] readsD(2) [OF i] readsD(2) [OF j] by (simp add: token_x_def)
      show ?thesis
        using tok lexedI [OF j illegal] reads_append [OF j reads_one [of z j "z_at z j"]] readsD(2) [OF j]
          lexedI [OF _ illegal, of z _ "j + 1"] by fastforce
    next
      case False
      then have "reads z 0 ([x, ?q] @ w @ [?q]) (i + 1)"
        using reads_append [OF i reads_one [of z i ?q]] readsD(2) [OF i] by simp
      then have "lexed z (Ok (i + 1, TK_BLOB))"
        by (rule lexedI) (use assms(2) w(3) even False blob [of x w] in auto)
      then show ?thesis
        using True False w(1) readsD(2) [OF r1] readsD(2) [OF i] by (simp add: token_x_def)
    qed
  qed
qed

text \<open>Numbers.\<close>

lemma digit_not_NUL: "sqlite3Isdigit c \<Longrightarrow> c \<noteq> NUL" "sqlite3Isxdigit c \<Longrightarrow> c \<noteq> NUL"
  by (metis no_ctype_of_NUL)+

lemma hex_at_eq:
  "z_at z 0 \<noteq> NUL \<Longrightarrow> hex_at z =
     Ok (z_at z 0 = CHR ''0'' \<and> z_at z 1 \<in> {CHR ''x'', CHR ''X''} \<and> sqlite3Isxdigit (z_at z 2))"
  using readable_1 [of z] readable_Suc [of z 1] by (auto simp: hex_at_def numeral_2_eq_2)

lemma exponent_at_eq:
  "readable z i \<Longrightarrow> exponent_at z i =
     Ok (z_at z i \<in> {CHR ''e'', CHR ''E''} \<and> (sqlite3Isdigit (z_at z (i + 1)) \<or>
         z_at z (i + 1) \<in> {CHR ''+'', CHR ''-''} \<and> sqlite3Isdigit (z_at z (i + 2))))"
  using readable_Suc [of z i] readable_Suc [of z "Suc i"] by (auto simp: exponent_at_def)

lemma fraction_reads:
  assumes "readable z i"
  shows "\<exists>f j. number_fraction z i t = Ok (j, if f = [] then t else TK_FLOAT) \<and> reads z i f j \<and> fraction f \<and>
    (z_at z i = CHR ''.'' \<and> sqlite3Isdigit (z_at z (Suc i)) \<longrightarrow> length f > 1)"
proof (cases "z_at z i = CHR ''.''")
  case True
  then have r: "reads z i ''.'' (Suc i)" using reads_one [OF assms] by simp
  then obtain u j where u: "scan sqlite3Isdigit z (Suc i) = Ok j" "reads z (Suc i) u j" "list_all sqlite3Isdigit u"
    "\<not> sqlite3Isdigit (z_at z j)"
    using scan_reads [of z "Suc i" sqlite3Isdigit] readsD(2) by auto
  have "u \<noteq> []" if "sqlite3Isdigit (z_at z (Suc i))" using u(2,4) that by auto
  then show ?thesis
    using True assms u reads_append [OF r u(2)]
    by (intro exI [of _ "CHR ''.'' # u"] exI [of _ j]) (simp add: number_fraction_def fraction_def)
next
  case False
  then show ?thesis using assms by (intro exI [of _ "[]"] exI [of _ i]) (simp add: number_fraction_def fraction_def)
qed

lemma exponent_reads:
  assumes "readable z i"
  shows "\<exists>e j. number_exponent z i t = Ok (j, if e = [] then t else TK_FLOAT) \<and> reads z i e j \<and> exponent e"
proof -
  let ?l = "z_at z i" and ?s = "z_at z (i + 1)"
  consider (none) "exponent_at z i = Ok False"
    | (digit) "exponent_at z i = Ok True" "?l \<in> {CHR ''e'', CHR ''E''}" "sqlite3Isdigit ?s"
    | (sign) "exponent_at z i = Ok True" "?l \<in> {CHR ''e'', CHR ''E''}" "?s \<in> {CHR ''+'', CHR ''-''}"
        "sqlite3Isdigit (z_at z (i + 2))"
    using exponent_at_eq [OF assms] by auto
  then show ?thesis
  proof cases
    case none
    then show ?thesis
      using assms by (intro exI [of _ "[]"] exI [of _ i]) (simp add: number_exponent_def exponent_def)
  next
    case digit
    then have r: "reads z i [?l, ?s] (i + 2)" using reads_two [OF assms, of ?l ?s] digit_not_NUL by auto
    then obtain u j where u: "scan sqlite3Isdigit z (i + 2) = Ok j" "reads z (i + 2) u j" "list_all sqlite3Isdigit u"
      using scan_reads [of z "i + 2" sqlite3Isdigit] readsD(2) by auto
    have "exponent ([?l, ?s] @ u)"
      unfolding exponent_def using digit u(3)
      by (intro disjI2 exI [of _ ?l] exI [of _ "''''"] exI [of _ "?s # u"]) simp
    then show ?thesis
      using digit u reads_append [OF r u(2)]
      by (intro exI [of _ "[?l, ?s] @ u"] exI [of _ j]) (simp add: number_exponent_def)
  next
    case sign
    then have r: "reads z i [?l, ?s] (i + 2)" using reads_two [OF assms, of ?l ?s] by auto
    then obtain u j where u: "scan sqlite3Isdigit z (i + 2) = Ok j" "reads z (i + 2) u j" "list_all sqlite3Isdigit u"
      "\<not> sqlite3Isdigit (z_at z j)"
      using scan_reads [of z "i + 2" sqlite3Isdigit] readsD(2) by auto
    have "u \<noteq> []" using u(2,4) sign(4) by auto
    then have "exponent ([?l, ?s] @ u)"
      unfolding exponent_def using sign u(3)
      by (intro disjI2 exI [of _ ?l] exI [of _ "[?s]"] exI [of _ u]) simp
    then show ?thesis
      using sign u reads_append [OF r u(2)]
      by (intro exI [of _ "[?l, ?s] @ u"] exI [of _ j]) (simp add: number_exponent_def)
  qed
qed

lemma number_lexed:
  assumes "sqlite3Isdigit (z_at z 0) \<or> z_at z 0 = CHR ''.'' \<and> sqlite3Isdigit (z_at z 1)"
  shows "lexed z (token_digit z)"
proof (cases "hex_at z = Ok True")
  case True
  have n: "z_at z 0 \<noteq> NUL" using assms digit_not_NUL by auto
  let ?x = "z_at z 1" and ?h = "z_at z 2"
  have x: "z_at z 0 = CHR ''0''" "?x \<in> {CHR ''x'', CHR ''X''}" "sqlite3Isxdigit ?h"
    using True hex_at_eq [OF n] by simp_all
  have r2: "reads z 0 (CHR ''0'' # [?x]) 2" using reads_first_two [of z "CHR ''0''" ?x] x by auto
  then have r3: "reads z 0 ([CHR ''0'', ?x] @ [?h]) 3"
    using reads_append [OF r2 reads_one [of z 2 ?h]] readsD(2) x(3) digit_not_NUL(2) by (simp add: numeral_3_eq_3 numeral_2_eq_2)
  then obtain w j where w: "scan sqlite3Isxdigit z 3 = Ok j" "reads z 3 w j" "list_all sqlite3Isxdigit w"
    using scan_reads [of z 3 sqlite3Isxdigit] readsD(2) by auto
  have "reads z 0 (CHR ''0'' # ?x # (?h # w)) j" using reads_append [OF r3 w(2)] by simp
  then show ?thesis
    using True w x hexadecimal [of ?x "?h # w"] by (simp add: token_digit_def lexedI)
next
  case False
  then have hex: "hex_at z = Ok False" using hex_at_eq [of z] assms digit_not_NUL(1) by auto
  obtain d i where d: "scan sqlite3Isdigit z 0 = Ok i" "reads z 0 d i" "list_all sqlite3Isdigit d" "\<not> sqlite3Isdigit (z_at z i)"
    using scan_reads [of z 0 sqlite3Isdigit] by auto
  let ?t = "\<lambda>f e. if e = [] then if f = [] then TK_INTEGER else TK_FLOAT else TK_FLOAT"
  obtain f j where f: "number_fraction z i TK_INTEGER = Ok (j, if f = [] then TK_INTEGER else TK_FLOAT)" "reads z i f j"
    "fraction f" "z_at z i = CHR ''.'' \<and> sqlite3Isdigit (z_at z (Suc i)) \<longrightarrow> length f > 1"
    using fraction_reads readsD(2) [OF d(2)] by blast
  obtain e k where e: "number_exponent z j (if f = [] then TK_INTEGER else TK_FLOAT) = Ok (k, ?t f e)" "reads z j e k"
    "exponent e"
    using exponent_reads readsD(2) [OF f(2)] by blast
  obtain w m where w: "scan IdChar z k = Ok m" "reads z k w m"
    using scan_reads [of z k IdChar] readsD(2) [OF e(2)] by auto
  have v: "reads z 0 (d @ f @ e) k" using reads_append [OF reads_append [OF d(2) f(2)] e(2)] by simp
  have tok: "token_digit z = Ok (m, if k < m then TK_ILLEGAL else ?t f e)"
    using hex d(1) f(1) e(1) w(1) by (simp add: token_digit_def number_tail_def)
  have some: "d \<noteq> [] \<or> length f > 1"
    using assms d(2,4) f(4) by (cases d) auto
  show ?thesis
  proof (cases "w = []")
    case True
    then have m: "m = k" using w(2) by simp
    show ?thesis
    proof (cases "f = [] \<and> e = []")
      case True
      then show ?thesis using tok m lexedI [OF v] integer [of d] some d(3) by simp
    next
      case False
      then have "shape TK_FLOAT (d @ f @ e)" using floating d(3) f(3) e(3) some by blast
      then show ?thesis using tok m lexedI [OF v] False by auto
    qed
  next
    case False
    then have "k < m" using readsD(3) [OF w(2)] by simp
    then show ?thesis using tok lexedI [OF reads_append [OF v w(2)] illegal] False by simp
  qed
qed

section \<open>The tokenizer\<close>

lemma token_lexed:
  assumes "z_at z 0 \<noteq> NUL"
  shows "lexed z (sqlite3GetToken z)"
proof -
  let ?c = "z_at z 0"
  have op: "c = ?c \<Longrightarrow> ([c], t) \<in> set operators \<Longrightarrow> lexed z (Ok (1, t))" for c t
    using one_lexed [of z c t] assms by simp
  have single: "aiClass ?c = CC_LP \<Longrightarrow> lexed z (Ok (1, TK_LP))" "aiClass ?c = CC_RP \<Longrightarrow> lexed z (Ok (1, TK_RP))"
    "aiClass ?c = CC_SEMI \<Longrightarrow> lexed z (Ok (1, TK_SEMI))" "aiClass ?c = CC_PLUS \<Longrightarrow> lexed z (Ok (1, TK_PLUS))"
    "aiClass ?c = CC_STAR \<Longrightarrow> lexed z (Ok (1, TK_STAR))" "aiClass ?c = CC_PERCENT \<Longrightarrow> lexed z (Ok (1, TK_REM))"
    "aiClass ?c = CC_COMMA \<Longrightarrow> lexed z (Ok (1, TK_COMMA))" "aiClass ?c = CC_AND \<Longrightarrow> lexed z (Ok (1, TK_BITAND))"
    "aiClass ?c = CC_TILDA \<Longrightarrow> lexed z (Ok (1, TK_BITNOT))"
    by (drule class_chars, rule op [OF refl], simp add: operators_def)+
  have dot: "aiClass ?c = CC_DOT \<Longrightarrow> lexed z (token_dot z)"
    using class_chars(1) [of ?c] op [of "CHR ''.''" TK_DOT] number_lexed [of z] readable_1 [OF assms]
    by (simp add: token_dot_def operators_def)
  have id: "lexed z (token_id z 1)" if "aiClass ?c = CC_ID"
  proof (rule id_lexed [OF reads_first [OF refl assms]])
    show "map clear20 ([?c] @ w) \<notin> set keyword_list" for w
      by (rule not_keyword [of ?c]) (use that class_IdChar in \<open>auto simp: char_classes\<close>)
  qed (use that class_IdChar in auto)
  have x: "aiClass ?c = CC_X \<Longrightarrow> lexed z (token_x z)"
    using x_lexed [OF refl class_chars(20)] by (simp add: char_classes)
  have cases: "aiClass ?c = CC_SPACE \<Longrightarrow> lexed z (token_space z)" "aiClass ?c = CC_MINUS \<Longrightarrow> lexed z (token_minus z)"
    "aiClass ?c = CC_SLASH \<Longrightarrow> lexed z (token_slash z)" "aiClass ?c = CC_EQ \<Longrightarrow> lexed z (token_eq z)"
    "aiClass ?c = CC_LT \<Longrightarrow> lexed z (token_lt z)" "aiClass ?c = CC_GT \<Longrightarrow> lexed z (token_gt z)"
    "aiClass ?c = CC_BANG \<Longrightarrow> lexed z (token_bang z)" "aiClass ?c = CC_PIPE \<Longrightarrow> lexed z (token_pipe z)"
    "aiClass ?c = CC_QUOTE \<Longrightarrow> lexed z (token_quote z)" "aiClass ?c = CC_DIGIT \<Longrightarrow> lexed z (token_digit z)"
    "aiClass ?c = CC_QUOTE2 \<Longrightarrow> lexed z (token_bracket z)" "aiClass ?c = CC_VARNUM \<Longrightarrow> lexed z (token_varnum z)"
    by (drule class_chars, rule space_lexed minus_lexed slash_lexed operators_lexed quote_lexed [OF refl] number_lexed
        bracket_lexed varnum_lexed, simp)+
  have named: "aiClass ?c = CC_DOLLAR \<or> aiClass ?c = CC_VARALPHA \<Longrightarrow> lexed z (token_variable z)"
    using variable_lexed assms by blast
  have nul: "aiClass ?c = CC_NUL \<Longrightarrow> lexed z (Ok (0, TK_ILLEGAL))" using aiClass_NUL assms by simp
  have ill: "lexed z (Ok (1, TK_ILLEGAL))" using illegal_lexed [OF assms] by simp
  have if_lexed: "(P \<Longrightarrow> lexed z a) \<Longrightarrow> lexed z b \<Longrightarrow> lexed z (if P then a else b)" for P a b by simp
  show ?thesis
    unfolding sqlite3GetToken_def peek_readable [OF readable_0] obind.simps Let_def
    by (intro if_lexed ill) (rule cases single dot id x named nul keyword_lexed, assumption)+
qed

lemma shape_not_Nil: "shape t w \<Longrightarrow> w \<noteq> []"
proof (induction rule: shape.cases)
  case (operator w t)
  then show ?case by (auto simp: operators_def)
next
  case (known_word w)
  then show ?case using keyword_ends by (auto simp: list_all_iff)
next
  case (floating d f e)
  then show ?case by auto
qed auto

lemma get_token:
  assumes "z_at z 0 \<noteq> NUL"
  shows "\<exists>n t. sqlite3GetToken z = Ok (n, t) \<and> 0 < n \<and> readable z n \<and> shape t (take n z)"
proof -
  obtain n t w where r: "sqlite3GetToken z = Ok (n, t)" "reads z 0 w n" "shape t w"
    using token_lexed [OF assms] unfolding lexed_def by blast
  have "0 < n" using shape_not_Nil [OF r(3)] readsD(3) [OF r(2)] by simp
  then show ?thesis using r reads_take [OF r(2)] by blast
qed

lemma get_token_end: "z_at z 0 = NUL \<Longrightarrow> sqlite3GetToken z = Ok (0, TK_ILLEGAL)"
  using aiClass_NUL [of NUL] by (simp add: sqlite3GetToken_def char_classes)

lemma get_token_Ok:
  assumes "sqlite3GetToken z = Ok (n, t)"
  shows "n \<le> length z" "z_at z 0 \<noteq> NUL \<Longrightarrow> 0 < n" "t \<noteq> TK_ILLEGAL \<Longrightarrow> 0 < n"
    "z_at z 0 \<noteq> NUL \<Longrightarrow> shape t (take n z)"
  using get_token [of z] get_token_end [of z] readable_le [of z n] assms by auto

text \<open>The codes of keywords, and the three that the parser's loop treats apart.\<close>

lemma keyword_codes:
  "list_all (\<lambda>(w, t). 0 < t \<and> t \<le> TK_FILTER \<and> (t = TK_WINDOW \<longrightarrow> w = ''WINDOW'') \<and> (t = TK_OVER \<longrightarrow> w = ''OVER'') \<and>
     (t = TK_FILTER \<longrightarrow> w = ''FILTER'')) (zip keyword_list aKWCode)"
  by (simp add: keyword_list_def aKWCode_def token_codes)

lemma keyword_code_in: "w \<in> set keyword_list \<Longrightarrow> (w, keyword_code w) \<in> set (zip keyword_list aKWCode)"
  using keyword_code_nth by (force simp: in_set_conv_nth table_sizes)

lemma operator_codes: "list_all (\<lambda>(w, t). 0 < t \<and> t < TK_WINDOW) operators"
  by (simp add: operators_def token_codes)

lemma shape_codes:
  assumes "shape t w"
  shows "0 < t" "TK_WINDOW \<le> t \<Longrightarrow> t \<in> {TK_SPACE, TK_OVER, TK_FILTER, TK_ILLEGAL, TK_WINDOW}"
    "t = TK_WINDOW \<Longrightarrow> map clear20 w = ''WINDOW''" "t = TK_OVER \<Longrightarrow> map clear20 w = ''OVER''"
    "t = TK_FILTER \<Longrightarrow> map clear20 w = ''FILTER''"
proof -
  have "0 < t \<and> (TK_WINDOW \<le> t \<longrightarrow> t \<in> {TK_SPACE, TK_OVER, TK_FILTER, TK_ILLEGAL, TK_WINDOW}) \<and>
    (t = TK_WINDOW \<longrightarrow> map clear20 w = ''WINDOW'') \<and> (t = TK_OVER \<longrightarrow> map clear20 w = ''OVER'') \<and>
    (t = TK_FILTER \<longrightarrow> map clear20 w = ''FILTER'')"
    using assms
  proof (induction rule: shape.cases)
    case (operator w t)
    then show ?case using operator_codes by (auto simp: list_all_iff token_codes)
  next
    case (known_word w)
    let ?t = "keyword_code (map clear20 w)"
    have "0 < ?t \<and> ?t \<le> TK_FILTER \<and> (?t = TK_WINDOW \<longrightarrow> map clear20 w = ''WINDOW'') \<and>
        (?t = TK_OVER \<longrightarrow> map clear20 w = ''OVER'') \<and> (?t = TK_FILTER \<longrightarrow> map clear20 w = ''FILTER'')"
      using keyword_codes keyword_code_in [OF known_word(3)] by (auto simp: list_all_iff)
    then show ?case using known_word(1,2) by (auto simp: TK_WINDOW_def TK_OVER_def TK_FILTER_def)
  qed (simp_all add: token_codes)
  then show "0 < t" "TK_WINDOW \<le> t \<Longrightarrow> t \<in> {TK_SPACE, TK_OVER, TK_FILTER, TK_ILLEGAL, TK_WINDOW}"
    "t = TK_WINDOW \<Longrightarrow> map clear20 w = ''WINDOW''" "t = TK_OVER \<Longrightarrow> map clear20 w = ''OVER''"
    "t = TK_FILTER \<Longrightarrow> map clear20 w = ''FILTER''" by blast+
qed

section \<open>The tokens ahead\<close>

text \<open>A pointer into the statement is the rest of the text from there.\<close>

definition as_identifier :: "nat \<Rightarrow> nat" where
  "as_identifier t =
     (if t = TK_ID \<or> t = TK_STRING \<or> t = TK_JOIN_KW \<or> t = TK_WINDOW \<or> t = TK_OVER \<or> sqlite3ParserFallback t = TK_ID
      then TK_ID else t)"

function getToken :: "string \<Rightarrow> (nat \<times> string) outcome" where
  "getToken z = obind (sqlite3GetToken z)
     (\<lambda>(n, t). if t = TK_SPACE then getToken (drop n z) else Ok (as_identifier t, drop n z))"
  by pat_completeness auto
termination
proof (relation "measure length")
  fix z x and n t :: nat
  assume "sqlite3GetToken z = Ok x" "(n, t) = x" "t = TK_SPACE"
  then have "n \<le> length z" "0 < n" using get_token_Ok [of z n t] by (auto simp: token_codes)
  then show "(drop n z, z) \<in> measure length" by simp
qed simp

declare getToken.simps [simp del]

definition analyzeWindowKeyword :: "string \<Rightarrow> nat outcome" where
  "analyzeWindowKeyword z = obind (getToken z)
     (\<lambda>(t, z1). if t \<noteq> TK_ID then Ok TK_ID
                else obind (getToken z1) (\<lambda>(t, z2). if t \<noteq> TK_AS then Ok TK_ID else Ok TK_WINDOW))"

definition analyzeOverKeyword :: "string \<Rightarrow> int \<Rightarrow> nat outcome" where
  "analyzeOverKeyword z lastToken =
     (if lastToken = int TK_RP then
        obind (getToken z) (\<lambda>(t, _). if t = TK_LP \<or> t = TK_ID then Ok TK_OVER else Ok TK_ID)
      else Ok TK_ID)"

definition analyzeFilterKeyword :: "string \<Rightarrow> int \<Rightarrow> nat outcome" where
  "analyzeFilterKeyword z lastToken =
     (if lastToken = int TK_RP then
        obind (getToken z) (\<lambda>(t, _). if t = TK_LP then Ok TK_FILTER else Ok TK_ID)
      else Ok TK_ID)"

section \<open>The loop of the parser\<close>

text \<open>
  The generated parser on some state: what a token does to it (\<open>feed\<close>, given the type and the text of the token), its
  \<open>pParse->rc\<close>, the flag of the connection that an allocation failed, and whether \<open>sqlite3_interrupt\<close> has been
  called by a turn of the loop.
\<close>

record 's parser =
  feed :: "nat \<Rightarrow> string \<Rightarrow> 's \<Rightarrow> 's"
  rc :: "'s \<Rightarrow> int"
  mallocFailed :: "'s \<Rightarrow> bool"
  isInterrupted :: "nat \<Rightarrow> bool"

text \<open>Why the loop stops: a limit, an interrupt, an unknown token, the end of the text, or the state of the parser.\<close>

datatype stop = Too_Big | Interrupted | Unrecognized string | Complete | Halted

text \<open>One turn passes over white space, feeds the parser a token of a length, or stops.\<close>

datatype turn = Skip nat | Feed nat nat | Stop stop

definition parser_turn :: "bool \<Rightarrow> int \<Rightarrow> int \<Rightarrow> string \<Rightarrow> turn outcome" where
  "parser_turn intr mx prev z = obind (sqlite3GetToken z)
     (\<lambda>(n, t).
        if mx - int n < 0 then Ok (Stop Too_Big)
        else if TK_WINDOW \<le> t then
          (if intr then Ok (Stop Interrupted)
           else if t = TK_SPACE then Ok (Skip n)
           else obind (peek z 0)
             (\<lambda>c. if c = NUL then
                    Ok (if prev = int TK_SEMI then Feed 0 0 else if prev = 0 then Stop Complete else Feed TK_SEMI 0)
                  else if t = TK_WINDOW then obind (analyzeWindowKeyword (drop 6 z)) (\<lambda>u. Ok (Feed u n))
                  else if t = TK_OVER then obind (analyzeOverKeyword (drop 4 z) prev) (\<lambda>u. Ok (Feed u n))
                  else if t = TK_FILTER then obind (analyzeFilterKeyword (drop 6 z) prev) (\<lambda>u. Ok (Feed u n))
                  else Ok (Stop (Unrecognized (take n z)))))
        else Ok (Feed t n))"

lemma parser_turn_Ok:
  assumes "parser_turn intr mx prev z = Ok a"
  shows "a = Skip n \<Longrightarrow> 0 < n \<and> n \<le> length z \<and> shape TK_SPACE (take n z)"
    and "a = Feed t n \<Longrightarrow> 0 < n \<and> n \<le> length z \<and> (\<exists>t'. t' \<noteq> TK_ILLEGAL \<and> shape t' (take n z)) \<or>
      n = 0 \<and> z_at z 0 = NUL \<and> (prev = int TK_SEMI \<and> t = 0 \<or> prev \<noteq> int TK_SEMI \<and> prev \<noteq> 0 \<and> t = TK_SEMI)"
    and "a = Stop Complete \<Longrightarrow> z_at z 0 = NUL \<and> prev = 0"
    and "a \<noteq> Stop Halted"
proof -
  obtain k u where g: "sqlite3GetToken z = Ok (k, u)"
    using assms by (auto simp: parser_turn_def obind_Ok_iff)
  note facts = get_token_Ok [OF g]
  have less: "u < TK_WINDOW \<Longrightarrow> u \<noteq> TK_ILLEGAL" by (simp add: token_codes)
  show "a = Skip n \<Longrightarrow> 0 < n \<and> n \<le> length z \<and> shape TK_SPACE (take n z)"
    using assms g facts get_token_end [of z]
    by (auto simp: parser_turn_def obind_Ok_iff token_codes split: if_splits)
  show "a = Stop Complete \<Longrightarrow> z_at z 0 = NUL \<and> prev = 0"
    using assms g by (auto simp: parser_turn_def obind_Ok_iff split: if_splits)
  show "a \<noteq> Stop Halted"
    using assms g by (auto simp: parser_turn_def obind_Ok_iff split: if_splits)
  have feed: "z_at z 0 \<noteq> NUL \<Longrightarrow> a = Feed t n \<Longrightarrow> n = k \<and> u \<noteq> TK_ILLEGAL"
    using assms g less by (auto simp: parser_turn_def obind_Ok_iff token_codes split: if_splits)
  have at_end: "z_at z 0 = NUL \<Longrightarrow> a = Feed t n \<Longrightarrow>
      n = 0 \<and> (prev = int TK_SEMI \<and> t = 0 \<or> prev \<noteq> int TK_SEMI \<and> prev \<noteq> 0 \<and> t = TK_SEMI)"
    using assms g get_token_end [of z] by (auto simp: parser_turn_def obind_Ok_iff token_codes split: if_splits)
  show "a = Feed t n \<Longrightarrow> 0 < n \<and> n \<le> length z \<and> (\<exists>t'. t' \<noteq> TK_ILLEGAL \<and> shape t' (take n z)) \<or>
      n = 0 \<and> z_at z 0 = NUL \<and> (prev = int TK_SEMI \<and> t = 0 \<or> prev \<noteq> int TK_SEMI \<and> prev \<noteq> 0 \<and> t = TK_SEMI)"
    using feed at_end facts by (cases "z_at z 0 = NUL") auto
qed

function parser_loop :: "'s parser \<Rightarrow> nat \<Rightarrow> int \<Rightarrow> int \<Rightarrow> string \<Rightarrow> 's \<Rightarrow> (stop \<times> string \<times> 's) outcome" where
  "parser_loop P k mx prev z s = obind (parser_turn (isInterrupted P k) mx prev z)
     (\<lambda>a. case a of
        Stop r \<Rightarrow> Ok (r, z, s)
      | Skip n \<Rightarrow> parser_loop P (Suc k) (mx - int n) prev (drop n z) s
      | Feed t n \<Rightarrow>
          (let s' = feed P t (take n z) s
           in if rc P s' \<noteq> SQLITE_OK \<or> mallocFailed P s' then Ok (Halted, drop n z, s')
              else parser_loop P (Suc k) (mx - int n) (int t) (drop n z) s'))"
  by pat_completeness auto
termination
proof (relation "measures [\<lambda>(P, k, mx, prev, z, s). length z,
    \<lambda>(P, k, mx, prev, z, s). if prev = 0 then 0 else if prev = int TK_SEMI then 1 else 2]", goal_cases)
  case (2 P k mx prev z s a n)
  then show ?case using parser_turn_Ok(1) [of "isInterrupted P k" mx prev z a n] by auto
next
  case (3 P k mx prev z s a t n s')
  then show ?case
    using parser_turn_Ok(2) [of "isInterrupted P k" mx prev z a t n] by (auto simp: TK_SEMI_def)
qed simp

declare parser_loop.simps [simp del]

text \<open>The loop of \<open>sqlite3RunParser\<close> from its start.\<close>

definition parse_text :: "'s parser \<Rightarrow> int \<Rightarrow> string \<Rightarrow> 's \<Rightarrow> (stop \<times> string \<times> 's) outcome" where
  "parse_text P mxSqlLen zSql s = parser_loop P 0 mxSqlLen (-1) zSql s"

lemma getToken_Ok: "is_ok (getToken z)"
proof (induction z rule: getToken.induct)
  case (1 z)
  obtain n t where g: "sqlite3GetToken z = Ok (n, t)"
    using get_token [of z] get_token_end [of z] by (cases "z_at z 0 = NUL") auto
  then show ?case using 1 by (subst getToken.simps) auto
qed

lemma parser_turn_returns: "is_ok (parser_turn intr mx prev z)"
proof -
  obtain n t where g: "sqlite3GetToken z = Ok (n, t)"
    using get_token [of z] get_token_end [of z] by (cases "z_at z 0 = NUL") auto
  obtain f where "\<And>y. getToken y = Ok (f y)"
    using getToken_Ok unfolding is_ok_iff by metis
  then have "is_ok (analyzeWindowKeyword y)" "is_ok (analyzeOverKeyword y p)" "is_ok (analyzeFilterKeyword y p)" for y p
    by (auto simp: analyzeWindowKeyword_def analyzeOverKeyword_def analyzeFilterKeyword_def split: prod.splits)
  then obtain fw fo ff where "\<And>y. analyzeWindowKeyword y = Ok (fw y)" "\<And>y p. analyzeOverKeyword y p = Ok (fo y p)"
    "\<And>y p. analyzeFilterKeyword y p = Ok (ff y p)"
    unfolding is_ok_iff by metis
  then show ?thesis using g by (auto simp: parser_turn_def)
qed

text \<open>
  A piece of the text: its lexical type, its bytes, and the code the parser is fed for it, which is none for
  white space and may be an identifier for the keywords of window functions.
\<close>

definition lexical :: "nat \<Rightarrow> string \<Rightarrow> nat option \<Rightarrow> bool" where
  "lexical t w u \<longleftrightarrow> t \<noteq> TK_ILLEGAL \<and> shape t w \<and>
     (if t = TK_SPACE then u = None
      else \<exists>c. u = Some c \<and> (c = t \<or> t \<in> {TK_WINDOW, TK_OVER, TK_FILTER} \<and> c = TK_ID))"

definition feed_pieces :: "'s parser \<Rightarrow> (nat \<times> string \<times> nat option) list \<Rightarrow> 's \<Rightarrow> 's" where
  "feed_pieces P L s = fold (\<lambda>(t, w, u). case u of None \<Rightarrow> id | Some c \<Rightarrow> feed P c w) L s"

lemma analysed:
  "analyzeWindowKeyword y = Ok c \<Longrightarrow> c = TK_WINDOW \<or> c = TK_ID"
  "analyzeOverKeyword y p = Ok c \<Longrightarrow> c = TK_OVER \<or> c = TK_ID"
  "analyzeFilterKeyword y p = Ok c \<Longrightarrow> c = TK_FILTER \<or> c = TK_ID"
  by (auto simp: analyzeWindowKeyword_def analyzeOverKeyword_def analyzeFilterKeyword_def obind_Ok_iff split: if_splits)

lemma parser_turn_feeds:
  assumes "parser_turn intr mx prev z = Ok (Feed t n)" and "z_at z 0 \<noteq> NUL"
  shows "\<exists>t'. lexical t' (take n z) (Some t)"
proof -
  obtain k u where g: "sqlite3GetToken z = Ok (k, u)"
    using assms by (auto simp: parser_turn_def obind_Ok_iff)
  have "n = k \<and> u \<noteq> TK_ILLEGAL \<and> u \<noteq> TK_SPACE \<and> (t = u \<or> u \<in> {TK_WINDOW, TK_OVER, TK_FILTER} \<and> t = TK_ID)"
  proof (cases "TK_WINDOW \<le> u")
    case True
    then show ?thesis
      using assms g analysed by (auto simp: parser_turn_def obind_Ok_iff token_codes split: if_splits dest!: analysed)
  next
    case False
    then show ?thesis
      using assms g by (auto simp: parser_turn_def obind_Ok_iff token_codes split: if_splits)
  qed
  then show ?thesis using get_token_Ok(4) [OF g assms(2)] by (auto simp: lexical_def)
qed

lemma parser_turn_end:
  "z_at z 0 = NUL \<Longrightarrow> parser_turn intr mx prev z = Ok
     (if mx < 0 then Stop Too_Big else if intr then Stop Interrupted
      else if prev = int TK_SEMI then Feed 0 0 else if prev = 0 then Stop Complete else Feed TK_SEMI 0)"
  by (simp add: parser_turn_def get_token_end token_codes)

definition feed_end :: "'s parser \<Rightarrow> nat list \<Rightarrow> 's \<Rightarrow> 's" where
  "feed_end P E s = fold (\<lambda>c. feed P c []) E s"

lemma loop_end_0:
  assumes "z_at z 0 = NUL"
  shows "\<exists>r. parser_loop P k mx 0 z s = Ok (r, z, s)"
  using assms by (subst parser_loop.simps) (simp add: parser_turn_end token_codes)

lemma loop_end_semi:
  assumes "z_at z 0 = NUL"
  shows "\<exists>r s' E. parser_loop P k mx (int TK_SEMI) z s = Ok (r, z, s') \<and> s' = feed_end P E s \<and>
    E \<in> {[], [0]} \<and> (r = Complete \<longrightarrow> E = [0])"
proof (cases "mx < 0 \<or> isInterrupted P k")
  case True
  then show ?thesis
    using assms by (intro exI [of _ "if mx < 0 then Too_Big else Interrupted"] exI [of _ s] exI [of _ "[]"])
      (subst parser_loop.simps, auto simp: parser_turn_end feed_end_def)
next
  case False
  obtain r where "parser_loop P (Suc k) mx 0 z (feed P 0 [] s) = Ok (r, z, feed P 0 [] s)"
    using loop_end_0 [OF assms, of P "Suc k" mx "feed P 0 [] s"] by blast
  then show ?thesis
    using assms False
    by (intro exI [of _ "if rc P (feed P 0 [] s) \<noteq> SQLITE_OK \<or> mallocFailed P (feed P 0 [] s) then Halted else r"]
        exI [of _ "feed P 0 [] s"] exI [of _ "[0]"])
      (subst parser_loop.simps, simp add: parser_turn_end feed_end_def Let_def)
qed

lemma loop_end:
  assumes "z_at z 0 = NUL" and "prev \<noteq> 0"
  shows "\<exists>r s' E. parser_loop P k mx prev z s = Ok (r, z, s') \<and> s' = feed_end P E s \<and>
    E \<in> {[], [0], [TK_SEMI], [TK_SEMI, 0]} \<and> (r = Complete \<longrightarrow> E \<noteq> [] \<and> last E = 0)"
proof (cases "mx < 0 \<or> isInterrupted P k \<or> prev = int TK_SEMI")
  case True
  then consider "prev = int TK_SEMI" | "mx < 0 \<or> isInterrupted P k" by blast
  then show ?thesis
  proof cases
    case 1
    obtain r s' E where "parser_loop P k mx (int TK_SEMI) z s = Ok (r, z, s')" "s' = feed_end P E s"
      "E \<in> {[], [0]}" "r = Complete \<longrightarrow> E = [0]"
      using loop_end_semi [OF assms(1), of P k mx s] by blast
    then show ?thesis using 1 by (intro exI [of _ r] exI [of _ s'] exI [of _ E]) auto
  next
    case 2
    then show ?thesis
      using assms by (intro exI [of _ "if mx < 0 then Too_Big else Interrupted"] exI [of _ s] exI [of _ "[]"])
        (subst parser_loop.simps, auto simp: parser_turn_end feed_end_def)
  qed
next
  case False
  let ?s = "feed P TK_SEMI [] s"
  obtain r s' E where l: "parser_loop P (Suc k) mx (int TK_SEMI) z ?s = Ok (r, z, s')" "s' = feed_end P E ?s"
    "E \<in> {[], [0]}" "r = Complete \<longrightarrow> E = [0]"
    using loop_end_semi [OF assms(1), of P "Suc k" mx ?s] by blast
  show ?thesis
  proof (cases "rc P ?s \<noteq> SQLITE_OK \<or> mallocFailed P ?s")
    case True
    then show ?thesis
      using False assms by (intro exI [of _ Halted] exI [of _ ?s] exI [of _ "[TK_SEMI]"])
        (subst parser_loop.simps, simp add: parser_turn_end feed_end_def Let_def)
  next
    case ok: False
    then show ?thesis
      using False assms l by (intro exI [of _ r] exI [of _ s'] exI [of _ "TK_SEMI # E"])
        (subst parser_loop.simps, auto simp: parser_turn_end feed_end_def Let_def)
  qed
qed

text \<open>
  What is said of a run: it stops with a text of which some pieces have been taken from the front, and the state is what
  feeding the pieces made of it, with the last tokens behind the end of the text.
\<close>

definition run_of :: "'s parser \<Rightarrow> string \<Rightarrow> 's \<Rightarrow> (stop \<times> string \<times> 's) outcome \<Rightarrow> bool" where
  "run_of P z s out \<longleftrightarrow> (\<exists>r zt s' L E. out = Ok (r, zt, s') \<and> z = concat (map (fst \<circ> snd) L) @ zt \<and>
    (\<forall>(t, w, u) \<in> set L. lexical t w u) \<and> s' = feed_end P E (feed_pieces P L s) \<and>
    E \<in> {[], [0], [TK_SEMI], [TK_SEMI, 0]} \<and> (r = Complete \<longrightarrow> z_at zt 0 = NUL \<and> E \<noteq> [] \<and> last E = 0))"

lemma run_of_end:
  assumes "z_at z 0 = NUL" and "prev \<noteq> 0"
  shows "run_of P z s (parser_loop P k mx prev z s)"
proof -
  obtain r s' E where "parser_loop P k mx prev z s = Ok (r, z, s')" "s' = feed_end P E s"
    "E \<in> {[], [0], [TK_SEMI], [TK_SEMI, 0]}" "r = Complete \<longrightarrow> E \<noteq> [] \<and> last E = 0"
    using loop_end [OF assms, of P k mx s] by blast
  then show ?thesis
    unfolding run_of_def using assms(1)
    by (intro exI [of _ r] exI [of _ z] exI [of _ s'] exI [of _ "[]"] exI [of _ E]) (simp add: feed_pieces_def)
qed

lemma run_of_stop: "r \<noteq> Complete \<Longrightarrow> run_of P z s (Ok (r, z, s))"
  unfolding run_of_def
  by (intro exI [of _ r] exI [of _ z] exI [of _ s] exI [of _ "[]"]) (simp add: feed_pieces_def feed_end_def)

lemma run_of_piece:
  assumes "run_of P (drop n z) (feed_pieces P [(t, take n z, u)] s) out" and "lexical t (take n z) u"
  shows "run_of P z s out"
proof -
  obtain r zt s' L E where l: "out = Ok (r, zt, s')" "drop n z = concat (map (fst \<circ> snd) L) @ zt"
    "\<forall>(t, w, u) \<in> set L. lexical t w u" "s' = feed_end P E (feed_pieces P L (feed_pieces P [(t, take n z, u)] s))"
    "E \<in> {[], [0], [TK_SEMI], [TK_SEMI, 0]}" "r = Complete \<longrightarrow> z_at zt 0 = NUL \<and> E \<noteq> [] \<and> last E = 0"
    using assms(1) unfolding run_of_def by blast
  have "z = concat (map (fst \<circ> snd) ((t, take n z, u) # L)) @ zt"
    using l(2) by (metis append_assoc append_take_drop_id comp_apply concat.simps(2) fst_conv list.simps(9) snd_conv)
  then show ?thesis
    unfolding run_of_def using assms(2) l
    by (intro exI [of _ r] exI [of _ zt] exI [of _ s'] exI [of _ "(t, take n z, u) # L"] exI [of _ E])
      (simp add: feed_pieces_def)
qed

lemma parser_loop_runs:
  assumes "prev \<noteq> 0"
  shows "run_of P z s (parser_loop P k mx prev z s)"
  using assms
proof (induction "length z" arbitrary: z k mx prev s rule: less_induct)
  case less
  show ?case
  proof (cases "z_at z 0 = NUL")
    case True
    then show ?thesis using less.prems by (rule run_of_end)
  next
    case False
    obtain a where a: "parser_turn (isInterrupted P k) mx prev z = Ok a"
      using parser_turn_returns unfolding is_ok_iff by blast
    note turn = parser_turn_Ok [OF a] and step = parser_loop.simps [of P k mx prev z s, unfolded a obind.simps]
    show ?thesis
    proof (cases a)
      case (Stop r)
      then have "r \<noteq> Complete" using turn(3) False by blast
      then show ?thesis using Stop step by (simp add: run_of_stop)
    next
      case (Skip n)
      then have n: "0 < n" "n \<le> length z" "lexical TK_SPACE (take n z) None"
        using turn(1) by (auto simp: lexical_def token_codes)
      then have "run_of P (drop n z) s (parser_loop P (Suc k) (mx - int n) prev (drop n z) s)"
        using less.hyps [of "drop n z" prev s "Suc k" "mx - int n"] less.prems by simp
      then show ?thesis using Skip step run_of_piece [OF _ n(3)] by (simp add: feed_pieces_def)
    next
      case (Feed t n)
      let ?s = "feed P t (take n z) s"
      have n: "0 < n" "n \<le> length z" using turn(2) Feed False by auto
      obtain t' where t': "lexical t' (take n z) (Some t)" using parser_turn_feeds a Feed False by blast
      have "t \<noteq> 0" using t' shape_codes(1) by (auto simp: lexical_def token_codes split: if_splits)
      then have "run_of P (drop n z) ?s (parser_loop P (Suc k) (mx - int n) (int t) (drop n z) ?s)"
        using less.hyps [of "drop n z" "int t" ?s "Suc k" "mx - int n"] n by simp
      moreover have "run_of P (drop n z) ?s (Ok (Halted, drop n z, ?s))" by (simp add: run_of_stop)
      ultimately show ?thesis
        using Feed step run_of_piece [OF _ t', of P s] by (simp add: feed_pieces_def Let_def)
    qed
  qed
qed

section \<open>The properties\<close>

text \<open>A parser that accepts everything and collects what it is fed.\<close>

definition collector :: "(nat \<times> string) list parser" where
  "collector = \<lparr>feed = (\<lambda>t w s. s @ [(t, w)]), rc = (\<lambda>_. SQLITE_OK), mallocFailed = (\<lambda>_. False), isInterrupted = (\<lambda>_. False)\<rparr>"

lemma query_tokens:
  "sqlite3GetToken ''SELECT ?;'' = Ok (6, TK_SELECT)" "sqlite3GetToken '' ?;'' = Ok (1, TK_SPACE)"
  "sqlite3GetToken ''?;'' = Ok (1, TK_VARIABLE)" "sqlite3GetToken '';'' = Ok (1, TK_SEMI)"
  by code_simp+

lemma query_turns:
  "parser_turn False 100 (-1) ''SELECT ?;'' = Ok (Feed TK_SELECT 6)"
  "parser_turn False 94 (int TK_SELECT) '' ?;'' = Ok (Skip 1)"
  "parser_turn False 93 (int TK_SELECT) ''?;'' = Ok (Feed TK_VARIABLE 1)"
  "parser_turn False 92 (int TK_VARIABLE) '';'' = Ok (Feed TK_SEMI 1)"
  "parser_turn False 91 (int TK_SEMI) [] = Ok (Feed 0 0)"
  "parser_turn False 91 0 [] = Ok (Stop Complete)"
  by (simp_all add: parser_turn_def query_tokens token_codes peek_def get_token_end z_at_def)

lemma query_fed:
  "parse_text collector 100 ''SELECT ?;'' [] =
     Ok (Complete, [], [(TK_SELECT, ''SELECT''), (TK_VARIABLE, ''?''), (TK_SEMI, '';''), (0, [])])"
  unfolding parse_text_def
  by (subst parser_loop.simps, simp add: query_turns collector_def)+

text \<open>
  C16. Every text has a first token, found without a read behind the terminator: at the end of the text it is the empty token,
  and elsewhere its bytes are a word of the language that its type stands for (a number, a literal, a comment that ends where it
  first can, a keyword in any case, an identifier that is no keyword), or an illegal token.
\<close>

theorem every_token_has_its_shape:
  "(z_at z 0 = NUL \<longrightarrow> sqlite3GetToken z = Ok (0, TK_ILLEGAL)) \<and>
   (z_at z 0 \<noteq> NUL \<longrightarrow> (\<exists>n t. sqlite3GetToken z = Ok (n, t) \<and> 0 < n \<and> n \<le> length z \<and> NUL \<notin> set (take n z) \<and>
     shape t (take n z)))"
  using get_token [of z] get_token_end [of z] by (auto simp: readable_def)

text \<open>The witness: the first token of a query.\<close>

lemma every_token_has_its_shape_witness:
  "sqlite3GetToken ''SELECT ?;'' = Ok (6, TK_SELECT) \<and> shape TK_SELECT ''SELECT'' \<and> sqlite3GetToken [] = Ok (0, TK_ILLEGAL)"
proof -
  have "shape TK_SELECT ''SELECT''"
    using every_token_has_its_shape [of "''SELECT ?;''"] query_tokens(1) by (auto simp: z_at_def)
  then show ?thesis
    using every_token_has_its_shape [of "[]"] query_tokens(1) by (simp add: z_at_def)
qed

text \<open>
  C18. The types are those the loop of the parser asserts: a code of the grammar, with only five of them from \<open>TK_WINDOW\<close> on, and the keywords
  that the loop looks behind have the length it steps over.
\<close>

theorem token_types_as_asserted:
  assumes "sqlite3GetToken z = Ok (n, t)"
  shows "0 < t \<and> (TK_WINDOW \<le> t \<longrightarrow> t \<in> {TK_SPACE, TK_OVER, TK_FILTER, TK_ILLEGAL, TK_WINDOW}) \<and>
    (t = TK_WINDOW \<longrightarrow> n = 6) \<and> (t = TK_OVER \<longrightarrow> n = 4) \<and> (t = TK_FILTER \<longrightarrow> n = 6)"
proof (cases "z_at z 0 = NUL")
  case True
  then show ?thesis using assms get_token_end by (simp add: token_codes)
next
  case False
  have len: "length (take n z) = n" using get_token_Ok(1) [OF assms] by simp
  note codes = shape_codes [OF get_token_Ok(4) [OF assms False]]
  have "t = TK_WINDOW \<Longrightarrow> n = 6" "t = TK_OVER \<Longrightarrow> n = 4" "t = TK_FILTER \<Longrightarrow> n = 6"
    using codes(3-5) [THEN arg_cong, of length] len by simp_all
  then show ?thesis using codes(1,2) by blast
qed

text \<open>The witness: the keyword \<open>over\<close> in front of a parenthesis.\<close>

lemma token_types_as_asserted_witness:
  "sqlite3GetToken ''over(x)'' = Ok (4, TK_OVER) \<and> 0 < TK_OVER \<and> TK_OVER \<in> {TK_SPACE, TK_OVER, TK_FILTER, TK_ILLEGAL, TK_WINDOW}"
proof -
  have "sqlite3GetToken ''over(x)'' = Ok (4, TK_OVER)" by code_simp
  then show ?thesis using token_types_as_asserted [of "''over(x)''" 4 TK_OVER] by simp
qed

text \<open>
  C15. Whatever the parser does, every text is taken apart in finitely many turns and without undefined behaviour: the pieces taken are
  in order the front of the text, each one white space or a token that is fed to the parser under its type (or as an identifier, for
  the three keywords that need a look ahead), and what is fed behind them is a semicolon, if there was none, and the end mark.
  The loop ends as complete only at the end of the text, with the end mark fed.
\<close>

theorem statements_are_taken_apart:
  "\<exists>r zt s' L E. parse_text P mx z s = Ok (r, zt, s') \<and> z = concat (map (fst \<circ> snd) L) @ zt \<and>
    (\<forall>(t, w, u) \<in> set L. lexical t w u) \<and> s' = feed_end P E (feed_pieces P L s) \<and>
    E \<in> {[], [0], [TK_SEMI], [TK_SEMI, 0]} \<and> (r = Complete \<longrightarrow> z_at zt 0 = NUL \<and> E \<noteq> [] \<and> last E = 0)"
  using parser_loop_runs [of "-1" P z s 0 mx] by (simp add: parse_text_def run_of_def)

text \<open>The witness: a query whose pieces are collected.\<close>

lemma statements_are_taken_apart_witness:
  "\<exists>L E. ''SELECT ?;'' = concat (map (fst \<circ> snd) L) \<and> E \<noteq> [] \<and> last E = 0 \<and>
    feed_end collector E (feed_pieces collector L []) = [(TK_SELECT, ''SELECT''), (TK_VARIABLE, ''?''), (TK_SEMI, '';''), (0, [])]"
proof -
  obtain r zt s' L E where "parse_text collector 100 ''SELECT ?;'' [] = Ok (r, zt, s')"
    "''SELECT ?;'' = concat (map (fst \<circ> snd) L) @ zt" "s' = feed_end collector E (feed_pieces collector L [])"
    "r = Complete \<longrightarrow> E \<noteq> [] \<and> last E = 0"
    using statements_are_taken_apart [of collector 100 "''SELECT ?;''" "[]"] by blast
  then show ?thesis unfolding query_fed by (intro exI [of _ L] exI [of _ E]) simp
qed

text \<open>A vertical tab is white space behind a blank, but at the start of a token it is illegal.\<close>

lemma vertical_tab: "sqlite3GetToken [CHR 0x20, CHR 0x0B] = Ok (2, TK_SPACE)" "sqlite3GetToken [CHR 0x0B] = Ok (1, TK_ILLEGAL)"
  by code_simp+
end
