(* ===== verification/Bitvec.thy ===== *)
theory Bitvec
  imports Sqlite_Memory "HOL-Library.Word"
begin

text \<open>
  src/libs/sqlite3.c, the sets of page numbers (\<open>Bitvec\<close>) in which SQLite remembers what a transaction has
  journalled: a bitmap, a hash table with linear probing, or an array of smaller sets, chosen by
  size and load. The theory shows that all three are one finite set.
\<close>

unbundle bit_operations_syntax

section \<open>Data\<close>

text \<open>The sizes of a 64-bit build: \<open>sizeof(u32)\<close> is 4, \<open>sizeof(Bitvec *)\<close> is 8.\<close>

definition BITVEC_SZ :: nat where "BITVEC_SZ = 512"
definition BITVEC_USIZE :: nat where "BITVEC_USIZE = (BITVEC_SZ - 3 * 4) div 8 * 8"
definition BITVEC_SZELEM :: nat where "BITVEC_SZELEM = 8"
definition BITVEC_NELEM :: nat where "BITVEC_NELEM = BITVEC_USIZE"
definition BITVEC_NBIT :: nat where "BITVEC_NBIT = BITVEC_NELEM * BITVEC_SZELEM"
definition BITVEC_NINT :: nat where "BITVEC_NINT = BITVEC_USIZE div 4"
definition BITVEC_MXHASH :: nat where "BITVEC_MXHASH = BITVEC_NINT div 2"
definition BITVEC_HASH :: "nat \<Rightarrow> nat" where "BITVEC_HASH x = x * 1 mod BITVEC_NINT"
definition BITVEC_NPTR :: nat where "BITVEC_NPTR = BITVEC_USIZE div 8"

lemma sizes [simp]:
  "BITVEC_NBIT = 3968" "BITVEC_NELEM = 496" "BITVEC_NINT = 124" "BITVEC_MXHASH = 62" "BITVEC_NPTR = 62"
  "BITVEC_SZELEM = 8" "BITVEC_HASH x = x mod 124"
  by (simp_all add: BITVEC_NBIT_def BITVEC_NELEM_def BITVEC_USIZE_def BITVEC_SZ_def BITVEC_SZELEM_def
      BITVEC_NINT_def BITVEC_MXHASH_def BITVEC_NPTR_def BITVEC_HASH_def)

text \<open>
  The union holds the member that was written last; a vector owns its parts, so they are values. The
  numbers of type \<open>u32\<close> are \<open>nat\<close>, with their wrap-around written out.
\<close>

datatype bitvec =
  Bitvec (iSize: nat) (nSet: nat) (iDivisor: nat) (u_store: bitvec_union)
  and bitvec_union =
    aBitmap "8 word list"
  | aHash "nat list"
  | apSub "bitvec option list"

text \<open>Access to the members of the union, within the bounds of their arrays.\<close>

definition read_at :: "'a list \<Rightarrow> nat \<Rightarrow> 'a outcome" where
  "read_at xs k = (if k < length xs then Ok (xs ! k) else UB Buffer_Overread)"

definition bitmap_of :: "bitvec \<Rightarrow> 8 word list" where
  "bitmap_of p = (case u_store p of aBitmap b \<Rightarrow> b | _ \<Rightarrow> [])"

definition hash_of :: "bitvec \<Rightarrow> nat list" where
  "hash_of p = (case u_store p of aHash t \<Rightarrow> t | _ \<Rightarrow> [])"

definition subs_of :: "bitvec \<Rightarrow> bitvec option list" where
  "subs_of p = (case u_store p of apSub s \<Rightarrow> s | _ \<Rightarrow> [])"

definition u32_dec :: "nat \<Rightarrow> nat" where
  "u32_dec i = (i + 2 ^ 32 - 1) mod 2 ^ 32"

section \<open>Operations\<close>

text \<open>The zeroed memory of a new vector is an empty bitmap or an empty hash table.\<close>

definition new_bitvec :: "nat \<Rightarrow> bitvec" where
  "new_bitvec sz =
     Bitvec sz 0 0 (if sz \<le> BITVEC_NBIT then aBitmap (replicate BITVEC_NELEM 0) else aHash (replicate BITVEC_NINT 0))"

definition sqlite3BitvecCreate :: "nat \<Rightarrow> sqlite_memory \<Rightarrow> bitvec option \<times> sqlite_memory" where
  "sqlite3BitvecCreate sz m =
     (case sqlite3Malloc m of (ok, m1) \<Rightarrow> (if ok then Some (new_bitvec sz) else None, m1))"

text \<open>The loop over the hash table; a turn through the whole table that ends nowhere never ends.\<close>

fun hash_test :: "nat \<Rightarrow> nat list \<Rightarrow> nat \<Rightarrow> nat \<Rightarrow> bool outcome" where
  "hash_test 0 t i h = UB Endless_Loop"
| "hash_test (Suc fuel) t i h =
     obind (read_at t h)
       (\<lambda>v. if v = 0 then Ok False
            else if v = i then Ok True
            else hash_test fuel t i ((h + 1) mod BITVEC_NINT))"

lemma sub_smaller [termination_simp]:
  "read_at (subs_of p) k = Ok (Some q) \<Longrightarrow> size q < size p"
proof -
  assume a: "read_at (subs_of p) k = Ok (Some q)"
  then obtain s where s: "u_store p = apSub s" "k < length s" "s ! k = Some q"
    by (cases p; cases "u_store p") (auto simp: read_at_def subs_of_def split: if_splits)
  from s(2,3) have "Some q \<in> set s" by (metis nth_mem)
  then have "size_option size (Some q) \<le> size_list (size_option size) s" by (intro size_list_estimation') auto
  with s show ?thesis by (cases p) auto
qed

text \<open>The walk from a vector to the part that holds a value \<open>i\<close>, which counts from zero here.\<close>

function bitvec_test :: "bitvec \<Rightarrow> nat \<Rightarrow> bool outcome" where
  "bitvec_test p i =
     (if iDivisor p \<noteq> 0 then
        (case read_at (subs_of p) (i div iDivisor p) of
           UB e \<Rightarrow> UB e
         | Ok None \<Rightarrow> Ok False
         | Ok (Some q) \<Rightarrow> bitvec_test q (i mod iDivisor p))
      else if iSize p \<le> BITVEC_NBIT then
        obind (read_at (bitmap_of p) (i div BITVEC_SZELEM))
          (\<lambda>b. Ok ((b AND push_bit (i mod BITVEC_SZELEM) 1) \<noteq> 0))
      else hash_test (Suc BITVEC_NINT) (hash_of p) (i + 1) (BITVEC_HASH i))"
  by pat_completeness auto
termination by (relation "measure (\<lambda>(p, i). size p)") (auto simp: sub_smaller)

declare bitvec_test.simps [simp del]

definition sqlite3BitvecTestNotNull :: "bitvec \<Rightarrow> nat \<Rightarrow> bool outcome" where
  "sqlite3BitvecTestNotNull p i =
     (let i1 = u32_dec i in if iSize p \<le> i1 then Ok False else bitvec_test p i1)"

definition sqlite3BitvecTest :: "bitvec option \<Rightarrow> nat \<Rightarrow> bool outcome" where
  "sqlite3BitvecTest p i = (case p of None \<Rightarrow> Ok False | Some p \<Rightarrow> sqlite3BitvecTestNotNull p i)"

text \<open>
  The walk of \<open>sqlite3BitvecSet\<close> after a collision: None when the value is there, else the first
  free slot.
\<close>

fun hash_place :: "nat \<Rightarrow> nat list \<Rightarrow> nat \<Rightarrow> nat \<Rightarrow> nat option outcome" where
  "hash_place 0 t i h = UB Endless_Loop"
| "hash_place (Suc fuel) t i h =
     obind (read_at t h)
       (\<lambda>v. if v = i then Ok None
            else
              (let h1 = (if h + 1 \<ge> BITVEC_NINT then 0 else h + 1) in
               obind (read_at t h1)
                 (\<lambda>v1. if v1 = 0 then Ok (Some h1) else hash_place fuel t i h1)))"

definition put_hash :: "bitvec \<Rightarrow> nat \<Rightarrow> nat \<Rightarrow> bitvec" where
  "put_hash p h i = Bitvec (iSize p) (nSet p + 1) (iDivisor p) (aHash ((hash_of p)[h := i]))"

definition put_sub :: "bitvec \<Rightarrow> nat \<Rightarrow> bitvec \<Rightarrow> bitvec" where
  "put_sub p bin q = Bitvec (iSize p) (nSet p) (iDivisor p) (apSub ((subs_of p)[bin := Some q]))"

definition set_bit_at :: "bitvec \<Rightarrow> nat \<Rightarrow> bitvec outcome" where
  "set_bit_at p i =
     (let k = i div BITVEC_SZELEM in
      obind (read_at (bitmap_of p) k)
        (\<lambda>b. Ok (Bitvec (iSize p) (nSet p) (iDivisor p)
                   (aBitmap ((bitmap_of p)[k := b OR push_bit (i mod BITVEC_SZELEM) 1])))))"

text \<open>
  \<open>store_in\<close> is the code from \<open>bitvec_set_end\<close>, \<open>set_all\<close> the loop that enters the old values after the hash table became an array of
  smaller sets, and \<open>rehash\<close> the code from \<open>bitvec_set_rehash\<close>; \<open>enter\<close> stands for the recursive call.
\<close>

type_synonym set_result = "(int \<times> bitvec \<times> sqlite_memory) outcome"

definition store_in :: "bitvec \<Rightarrow> nat \<Rightarrow> nat \<Rightarrow> sqlite_memory \<Rightarrow> set_result" where
  "store_in p h i m =
     (if h < length (hash_of p) then Ok (SQLITE_OK, put_hash p h i, m) else UB Buffer_Overflow)"

fun set_all ::
    "(bitvec \<Rightarrow> nat \<Rightarrow> sqlite_memory \<Rightarrow> set_result) \<Rightarrow> nat list \<Rightarrow> int \<Rightarrow> bitvec \<Rightarrow> sqlite_memory \<Rightarrow> set_result" where
  "set_all enter [] rc p m = Ok (rc, p, m)"
| "set_all enter (v # vs) rc p m =
     (if v \<noteq> 0 then obind (enter p (u32_dec v) m) (\<lambda>(r, p1, m1). set_all enter vs (rc OR r) p1 m1)
      else set_all enter vs rc p m)"

definition divided :: "bitvec \<Rightarrow> bitvec" where
  "divided p =
     Bitvec (iSize p) (nSet p) ((iSize p + BITVEC_NPTR - 1) mod 2 ^ 32 div BITVEC_NPTR) (apSub (replicate BITVEC_NPTR None))"

definition rehash ::
    "(bitvec \<Rightarrow> nat \<Rightarrow> sqlite_memory \<Rightarrow> set_result) \<Rightarrow> bitvec \<Rightarrow> nat \<Rightarrow> nat \<Rightarrow> sqlite_memory \<Rightarrow> set_result" where
  "rehash enter p h i m =
     (if BITVEC_MXHASH \<le> nSet p then
        (case sqlite3Malloc m of
           (False, m1) \<Rightarrow> Ok (SQLITE_NOMEM, p, m1)
         | (True, m1) \<Rightarrow>
             obind (enter (divided p) (u32_dec i) m1)
               (\<lambda>(rc, p1, m2). obind (set_all enter (hash_of p) rc p1 m2)
                  (\<lambda>(rc1, p2, m3). Ok (rc1, p2, sqlite3_free m3))))
      else store_in p h i m)"

definition set_hash ::
    "(bitvec \<Rightarrow> nat \<Rightarrow> sqlite_memory \<Rightarrow> set_result) \<Rightarrow> bitvec \<Rightarrow> nat \<Rightarrow> sqlite_memory \<Rightarrow> set_result" where
  "set_hash enter p i m =
     (let h = BITVEC_HASH i; i1 = i + 1 in
      obind (read_at (hash_of p) h)
        (\<lambda>v. if v = 0 then (if nSet p < BITVEC_NINT - 1 then store_in p h i1 m else rehash enter p h i1 m)
             else
               obind (hash_place (Suc BITVEC_NINT) (hash_of p) i1 h)
                 (\<lambda>r. case r of None \<Rightarrow> Ok (SQLITE_OK, p, m) | Some h1 \<Rightarrow> rehash enter p h1 i1 m)))"

text \<open>
  \<open>set_walk\<close> descends and sets, with one unit of fuel for each descent and each division. Ten are
  enough for all sizes below \<open>2 ^ 32 - 61\<close>, and no number for the larger ones, where the divisor wraps to
  zero.
\<close>

primrec set_walk :: "nat \<Rightarrow> bitvec \<Rightarrow> nat \<Rightarrow> sqlite_memory \<Rightarrow> set_result" where
  "set_walk 0 p i m = UB Endless_Loop"
| "set_walk (Suc fuel) p i m =
     (if BITVEC_NBIT < iSize p \<and> iDivisor p \<noteq> 0 then
        (let bin = i div iDivisor p; j = i mod iDivisor p in
         obind (read_at (subs_of p) bin)
           (\<lambda>s. case s of
               Some q \<Rightarrow> obind (set_walk fuel q j m) (\<lambda>(rc, q1, m1). Ok (rc, put_sub p bin q1, m1))
             | None \<Rightarrow>
                 (case sqlite3BitvecCreate (iDivisor p) m of
                    (None, m1) \<Rightarrow> Ok (SQLITE_NOMEM, p, m1)
                  | (Some q, m1) \<Rightarrow> obind (set_walk fuel q j m1) (\<lambda>(rc, q1, m2). Ok (rc, put_sub p bin q1, m2)))))
      else if iSize p \<le> BITVEC_NBIT then obind (set_bit_at p i) (\<lambda>p1. Ok (SQLITE_OK, p1, m))
      else set_hash (set_walk fuel) p i m)"

definition set_fuel :: nat where "set_fuel = 10"

definition sqlite3BitvecSet :: "bitvec option \<Rightarrow> nat \<Rightarrow> sqlite_memory \<Rightarrow> (int \<times> bitvec option \<times> sqlite_memory) outcome" where
  "sqlite3BitvecSet p i m =
     (case p of
        None \<Rightarrow> Ok (SQLITE_OK, None, m)
      | Some p \<Rightarrow> obind (set_walk set_fuel p (u32_dec i) m) (\<lambda>(rc, p1, m1). Ok (rc, Some p1, m1)))"

text \<open>Clearing enters the values that stay into an empty table.\<close>

fun free_slot :: "nat \<Rightarrow> nat list \<Rightarrow> nat \<Rightarrow> nat outcome" where
  "free_slot 0 t h = UB Endless_Loop"
| "free_slot (Suc fuel) t h =
     obind (read_at t h)
       (\<lambda>v. if v = 0 then Ok h else free_slot fuel t (if h + 1 \<ge> BITVEC_NINT then 0 else h + 1))"

fun rebuild :: "nat list \<Rightarrow> nat \<Rightarrow> bitvec \<Rightarrow> bitvec outcome" where
  "rebuild [] i p = Ok p"
| "rebuild (v # vs) i p =
     (if v \<noteq> 0 \<and> v \<noteq> i then
        obind (free_slot (Suc BITVEC_NINT) (hash_of p) (BITVEC_HASH (u32_dec v)))
          (\<lambda>h. rebuild vs i (put_hash p h v))
      else rebuild vs i p)"

definition clear_bit_at :: "bitvec \<Rightarrow> nat \<Rightarrow> bitvec outcome" where
  "clear_bit_at p i =
     (let k = i div BITVEC_SZELEM in
      obind (read_at (bitmap_of p) k)
        (\<lambda>b. Ok (Bitvec (iSize p) (nSet p) (iDivisor p)
                   (aBitmap ((bitmap_of p)[k := b AND NOT (push_bit (i mod BITVEC_SZELEM) 1)])))))"

function clear_walk :: "bitvec \<Rightarrow> nat \<Rightarrow> bitvec outcome" where
  "clear_walk p i =
     (if iDivisor p \<noteq> 0 then
        (case read_at (subs_of p) (i div iDivisor p) of
           UB e \<Rightarrow> UB e
         | Ok None \<Rightarrow> Ok p
         | Ok (Some q) \<Rightarrow>
             obind (clear_walk q (i mod iDivisor p)) (\<lambda>q1. Ok (put_sub p (i div iDivisor p) q1)))
      else if iSize p \<le> BITVEC_NBIT then clear_bit_at p i
      else
        rebuild (hash_of p) (i + 1) (Bitvec (iSize p) 0 (iDivisor p) (aHash (replicate BITVEC_NINT 0))))"
  by pat_completeness auto
termination by (relation "measure (\<lambda>(p, i). size p)") (auto simp: sub_smaller)

declare clear_walk.simps [simp del]

definition sqlite3BitvecClear :: "bitvec option \<Rightarrow> nat \<Rightarrow> bitvec option outcome" where
  "sqlite3BitvecClear p i =
     (case p of None \<Rightarrow> Ok None | Some p \<Rightarrow> obind (clear_walk p (u32_dec i)) (\<lambda>p1. Ok (Some p1)))"

primrec destroy :: "bitvec \<Rightarrow> sqlite_memory \<Rightarrow> sqlite_memory"
  and destroy_union :: "bitvec_union \<Rightarrow> sqlite_memory \<Rightarrow> sqlite_memory"
  where
  "destroy (Bitvec sz n d u) m = sqlite3_free (if d \<noteq> 0 then destroy_union u m else m)"
| "destroy_union (aBitmap b) m = m"
| "destroy_union (aHash t) m = m"
| "destroy_union (apSub s) m = fold (\<lambda>q m1. case q of None \<Rightarrow> m1 | Some f \<Rightarrow> f m1) (map (map_option destroy) s) m"

definition sqlite3BitvecDestroy :: "bitvec option \<Rightarrow> sqlite_memory \<Rightarrow> sqlite_memory" where
  "sqlite3BitvecDestroy p m = (case p of None \<Rightarrow> m | Some p \<Rightarrow> destroy p m)"

definition sqlite3BitvecSize :: "bitvec \<Rightarrow> nat" where
  "sqlite3BitvecSize p = iSize p"

section \<open>Linear probing\<close>

text \<open>The values from a slot up to the next free one, cyclically: what the loops over the table see.\<close>

definition cluster :: "nat \<Rightarrow> nat list \<Rightarrow> nat list" where
  "cluster h t = takeWhile (\<lambda>v. v \<noteq> 0) (rotate h t)"

definition first_free :: "nat \<Rightarrow> nat list \<Rightarrow> nat" where
  "first_free h t = (h + length (cluster h t)) mod length t"

lemma cluster_step:
  assumes "h < length t" "0 \<in> set t"
  shows "cluster h t = (if t ! h = 0 then [] else t ! h # cluster ((h + 1) mod length t) t)"
proof -
  have "rotate h t \<noteq> []" using assms by auto
  then obtain y r where r: "rotate h t = y # r" by (cases "rotate h t") auto
  have "y = hd (rotate h t)" by (simp add: r)
  also have "\<dots> = t ! h" using assms(1) hd_rotate_conv_nth [of t h] by (cases t) auto
  finally have y: "y = t ! h" .
  have "rotate ((h + 1) mod length t) t = r @ [y]"
    using r rotate_conv_mod [of "Suc h" t] by simp
  moreover have "0 \<in> set (rotate h t)" using assms(2) by simp
  then have "0 \<in> set r" if "y \<noteq> 0" using r that by simp
  ultimately show ?thesis unfolding cluster_def r y [symmetric]
    by (auto simp: takeWhile_append1 [of 0])
qed

lemma cluster_length: "0 \<in> set t \<Longrightarrow> length (cluster h t) < length t"
proof -
  assume "0 \<in> set t"
  then have "cluster h t \<noteq> rotate h t" unfolding cluster_def using takeWhile_eq_all_conv [of _ "rotate h t"] by auto
  moreover have "length (cluster h t) \<le> length (rotate h t)" unfolding cluster_def by (rule length_takeWhile_le)
  ultimately show ?thesis unfolding cluster_def
    by (metis length_rotate le_neq_implies_less takeWhile_eq_take take_all_iff order_refl)
qed

lemma cluster_subset: "set (cluster h t) \<subseteq> set t - {0}"
  unfolding cluster_def by (auto dest: set_takeWhileD)

lemma free_empty: "h < length t \<Longrightarrow> t ! h = 0 \<Longrightarrow> first_free h t = h \<and> cluster h t = []"
  using cluster_step [of h t] nth_mem [of h t] by (auto simp: first_free_def)

lemma free_step:
  assumes "h < length t" "0 \<in> set t" "t ! h \<noteq> 0"
  shows "first_free h t = first_free ((h + 1) mod length t) t"
  using cluster_step [OF assms(1,2)] assms(3) by (simp add: first_free_def mod_simps)

lemma first_free_bound: "0 \<in> set t \<Longrightarrow> first_free h t < length t"
  unfolding first_free_def by (rule mod_less_divisor) (auto intro: length_pos_if_in_set)

lemma rotate_free:
  assumes "0 \<in> set t"
  shows "rotate h t ! length (cluster h t) = 0"
  using cluster_length [OF assms, of h] nth_length_takeWhile [of "\<lambda>v. v \<noteq> 0" "rotate h t"]
  unfolding cluster_def by simp

lemma first_free_zero: "0 \<in> set t \<Longrightarrow> t ! first_free h t = 0"
  using rotate_free [of t h] cluster_length [of t h] by (simp add: first_free_def nth_rotate)

lemma hash_test_cluster:
  assumes "length t = BITVEC_NINT" "0 \<in> set t" "h < BITVEC_NINT" "length (cluster h t) < fuel"
  shows "hash_test fuel t i h = Ok (i \<in> set (cluster h t))"
  using assms(3,4)
proof (induction fuel arbitrary: h)
  case (Suc fuel)
  then show ?case using cluster_step [of h t] assms(1,2)
    by (auto simp: read_at_def split: if_splits)
qed simp

lemma hash_place_cluster:
  assumes "length t = BITVEC_NINT" "0 \<in> set t" "h < BITVEC_NINT" "length (cluster h t) < fuel" "t ! h \<noteq> 0" "i \<noteq> 0"
  shows "hash_place fuel t i h = Ok (if i \<in> set (cluster h t) then None else Some (first_free h t))"
  using assms(3-5)
proof (induction fuel arbitrary: h)
  case (Suc fuel)
  have h1: "(if h + 1 \<ge> BITVEC_NINT then 0 else h + 1) = (h + 1) mod length t"
    using Suc.prems(1) assms(1) by (auto simp: mod_Suc)
  let ?h = "(h + 1) mod length t"
  have l: "h < length t" "?h < length t" using Suc.prems(1) assms(1) by simp_all
  show ?case
  proof (cases "t ! h = i")
    case True
    then show ?thesis using cluster_step [OF l(1) assms(2)] l assms(6) by (simp add: read_at_def)
  next
    case False
    then show ?thesis
      using cluster_step [OF l(1) assms(2)] l free_step [OF l(1) assms(2) Suc.prems(3)] free_empty [OF l(2)] Suc.IH [of ?h]
        Suc.prems assms(1,2) h1
      by (auto simp: read_at_def Let_def)
  qed
qed simp

lemma free_slot_cluster:
  assumes "length t = BITVEC_NINT" "0 \<in> set t" "h < BITVEC_NINT" "length (cluster h t) < fuel"
  shows "free_slot fuel t h = Ok (first_free h t)"
  using assms(3,4)
proof (induction fuel arbitrary: h)
  case (Suc fuel)
  have h1: "(if h + 1 \<ge> BITVEC_NINT then 0 else h + 1) = (h + 1) mod length t"
    using Suc.prems(1) assms(1) by (auto simp: mod_Suc)
  show ?case
    using cluster_step [of h t] free_step [of h t] free_empty [of h t] Suc assms(1,2) h1
    by (auto simp: read_at_def)
qed simp

text \<open>Every value can be found from its own slot.\<close>

definition reachable :: "nat list \<Rightarrow> bool" where
  "reachable t \<longleftrightarrow> (\<forall>v \<in> set t. v \<noteq> 0 \<longrightarrow> v \<in> set (cluster (BITVEC_HASH (v - 1)) t))"

lemma takeWhile_fill:
  "xs ! k = 0 \<Longrightarrow> k < length xs \<Longrightarrow> v \<noteq> 0 \<Longrightarrow>
   set (takeWhile (\<lambda>v. v \<noteq> 0) xs) \<subseteq> set (takeWhile (\<lambda>v. v \<noteq> (0::nat)) (xs[k := v]))"
  by (induction xs arbitrary: k) (auto split: nat.splits simp: nth_Cons)

lemma takeWhile_at:
  "k = length (takeWhile (\<lambda>v. v \<noteq> 0) xs) \<Longrightarrow> k < length xs \<Longrightarrow> v \<noteq> 0 \<Longrightarrow>
   v \<in> set (takeWhile (\<lambda>v. v \<noteq> (0::nat)) (xs[k := v]))"
  by (induction xs arbitrary: k) auto

lemma rotate_update:
  assumes "k < length xs"
  shows "rotate h (xs[(h + k) mod length xs := v]) = (rotate h xs)[k := v]"
proof (rule nth_equalityI)
  fix j assume "j < length (rotate h (xs[(h + k) mod length xs := v]))"
  then have j: "j < length xs" by simp
  have "(h + k) mod length xs = (h + j) mod length xs \<longleftrightarrow> j = k"
  proof
    assume "(h + k) mod length xs = (h + j) mod length xs"
    then have "k mod length xs = j mod length xs" by (simp add: nat_mod_eq_iff)
    with j assms show "j = k" by simp
  qed simp
  moreover have "(h + j) mod length xs < length xs" using j by (intro mod_less_divisor) linarith
  ultimately show "rotate h (xs[(h + k) mod length xs := v]) ! j = (rotate h xs)[k := v] ! j"
    using j assms by (simp add: nth_rotate nth_list_update)
qed simp

lemma cluster_fill:
  assumes "0 \<in> set t" "k < length t" "t ! k = 0" "v \<noteq> 0"
  shows "set (cluster h t) \<subseteq> set (cluster h (t[k := v]))"
proof -
  let ?n = "length t"
  define j where "j = (k + ?n - h mod ?n) mod ?n"
  have le: "h mod ?n \<le> k + ?n" using assms(2) mod_less_divisor [of ?n h] by linarith
  have "(h + j) mod ?n = (h mod ?n + (k + ?n - h mod ?n)) mod ?n" unfolding j_def by (simp add: mod_simps)
  also have "\<dots> = k" using le assms(2) by simp
  finally have "(h + j) mod ?n = k" .
  moreover have "j < ?n" unfolding j_def using assms(2) by (intro mod_less_divisor) linarith
  ultimately have j: "j < ?n" "(h + j) mod ?n = k" by simp_all
  have "rotate h t ! j = 0" using j assms(3) by (simp add: nth_rotate)
  then show ?thesis unfolding cluster_def j(2) [symmetric] rotate_update [OF j(1)]
    using takeWhile_fill [of "rotate h t" j v] j(1) assms(4) by simp
qed

lemma reachable_insert:
  assumes "reachable t" "0 \<in> set t" "v \<noteq> 0"
  shows "reachable (t[first_free (BITVEC_HASH (v - 1)) t := v])"
proof -
  let ?h = "BITVEC_HASH (v - 1)" let ?k = "first_free ?h t"
  have k: "?k < length t" "t ! ?k = 0" using first_free_bound first_free_zero assms(2) by auto
  have "v \<in> set (cluster ?h (t[?k := v]))"
    unfolding cluster_def first_free_def
    using rotate_update [OF cluster_length [OF assms(2), of ?h], of ?h v]
      takeWhile_at [of _ "rotate ?h t" v] cluster_length [OF assms(2), of ?h] assms(3)
    by (simp add: cluster_def)
  moreover have "w \<in> set (cluster (BITVEC_HASH (w - 1)) (t[?k := v]))" if "w \<in> set t" "w \<noteq> 0" for w
    using assms(1) that cluster_fill [OF assms(2) k assms(3)] unfolding reachable_def by blast
  ultimately show ?thesis
    using set_update_subset_insert [of t ?k v] unfolding reachable_def by blast
qed

section \<open>Well-formed vectors\<close>

definition hash_ok :: "nat \<Rightarrow> nat \<Rightarrow> nat list \<Rightarrow> bool" where
  "hash_ok sz n t \<longleftrightarrow>
     length t = BITVEC_NINT \<and> n = length (filter (\<lambda>v. v \<noteq> 0) t) \<and> n < BITVEC_NINT \<and>
     (\<forall>v \<in> set t. v \<le> sz) \<and> reachable t"

text \<open>The number of values handled by each part, and the sizes for which it is computed without wrap-around.\<close>

definition sub_size :: "nat \<Rightarrow> nat" where
  "sub_size sz = (sz + BITVEC_NPTR - 1) div BITVEC_NPTR"

definition size_ok :: "nat \<Rightarrow> bool" where
  "size_ok sz \<longleftrightarrow> 0 < sz \<and> sz + BITVEC_NPTR - 1 < 2 ^ 32"

fun wf_bitvec :: "bitvec \<Rightarrow> bool" where
  "wf_bitvec (Bitvec sz n d (aBitmap b)) \<longleftrightarrow> size_ok sz \<and> d = 0 \<and> sz \<le> BITVEC_NBIT \<and> length b = BITVEC_NELEM"
| "wf_bitvec (Bitvec sz n d (aHash t)) \<longleftrightarrow> size_ok sz \<and> d = 0 \<and> BITVEC_NBIT < sz \<and> hash_ok sz n t"
| "wf_bitvec (Bitvec sz n d (apSub s)) \<longleftrightarrow>
     size_ok sz \<and> d = sub_size sz \<and> BITVEC_NBIT < sz \<and> length s = BITVEC_NPTR \<and>
     (\<forall>x \<in> set s. case x of None \<Rightarrow> True | Some q \<Rightarrow> iSize q = d \<and> wf_bitvec q)"

fun blocks :: "bitvec \<Rightarrow> nat" where
  "blocks (Bitvec sz n d (apSub s)) = 1 + sum_list (map (\<lambda>x. case x of None \<Rightarrow> 0 | Some q \<Rightarrow> blocks q) s)"
| "blocks (Bitvec sz n d u) = 1"

text \<open>The values in a vector, counted from zero.\<close>

definition members :: "bitvec \<Rightarrow> nat set" where
  "members p = {i. i < iSize p \<and> bitvec_test p i = Ok True}"

lemma hash_ok_free: "hash_ok sz n t \<Longrightarrow> 0 \<in> set t"
proof (rule ccontr)
  assume h: "hash_ok sz n t" and "0 \<notin> set t"
  then have "filter (\<lambda>v. v \<noteq> 0) t = t" by (intro filter_True) metis
  with h show False by (auto simp: hash_ok_def)
qed

lemma bit_tested: "((b :: 8 word) AND push_bit k 1) \<noteq> 0 \<longleftrightarrow> bit b k"
  by (simp add: push_bit_of_1 and_exp_eq_0_iff_not_bit)

lemma test_bitmap:
  assumes "wf_bitvec p" "u_store p = aBitmap b" "i < iSize p"
  shows "bitvec_test p i = Ok (bit (b ! (i div 8)) (i mod 8))"
  unfolding bitvec_test.simps [of p i] using assms by (cases p) (auto simp: read_at_def bitmap_of_def and_exp_eq_0_iff_not_bit)

lemma test_hash:
  assumes "wf_bitvec p" "u_store p = aHash t" "i < iSize p"
  shows "bitvec_test p i = Ok (Suc i \<in> set t)"
proof -
  obtain sz n where p: "p = Bitvec sz n 0 (aHash t)" "hash_ok sz n t" "BITVEC_NBIT < sz"
    using assms by (cases p) auto
  note free = hash_ok_free [OF p(2)]
  have l: "length t = BITVEC_NINT" and r: "reachable t" using p(2) by (auto simp: hash_ok_def)
  have h: "BITVEC_HASH i < BITVEC_NINT" by simp
  have "hash_test (Suc BITVEC_NINT) t (i + 1) (BITVEC_HASH i) = Ok (i + 1 \<in> set (cluster (BITVEC_HASH i) t))"
    by (rule hash_test_cluster [OF l free h]) (use cluster_length [OF free, of "BITVEC_HASH i"] l in simp)
  moreover have "i + 1 \<in> set (cluster (BITVEC_HASH i) t) \<longleftrightarrow> Suc i \<in> set t"
    using r cluster_subset [of "BITVEC_HASH i" t] by (auto simp: reachable_def)
  ultimately show ?thesis using p(1,3) unfolding bitvec_test.simps [of p i] by (simp add: hash_of_def)
qed

lemma sub_size_facts:
  assumes "size_ok sz" "BITVEC_NBIT < sz"
  shows "0 < sub_size sz" "sub_size sz < sz" "size_ok (sub_size sz)" "i < sz \<Longrightarrow> i div sub_size sz < BITVEC_NPTR"
    "(sz + BITVEC_NPTR - 1) mod 2 ^ 32 div BITVEC_NPTR = sub_size sz"
proof -
  show *: "0 < sub_size sz" "sub_size sz < sz" "(sz + BITVEC_NPTR - 1) mod 2 ^ 32 div BITVEC_NPTR = sub_size sz"
    using assms by (auto simp: sub_size_def size_ok_def)
  then show "size_ok (sub_size sz)" using assms by (simp add: size_ok_def)
  have "sz \<le> sub_size sz * BITVEC_NPTR" unfolding sub_size_def sizes by presburger
  then show "i div sub_size sz < BITVEC_NPTR" if "i < sz"
    using that *(1) by (simp add: div_less_iff_less_mult mult.commute)
qed

lemma test_sub:
  assumes "wf_bitvec p" "u_store p = apSub s" "i < iSize p"
  shows "bitvec_test p i = (case s ! (i div sub_size (iSize p)) of None \<Rightarrow> Ok False | Some q \<Rightarrow> bitvec_test q (i mod sub_size (iSize p)))"
  unfolding bitvec_test.simps [of p i] using assms sub_size_facts [of "iSize p"]
  by (cases p) (auto simp: read_at_def subs_of_def split: option.split)

lemma wf_sub:
  assumes "wf_bitvec p" "u_store p = apSub s" "k < BITVEC_NPTR" "s ! k = Some q"
  shows "wf_bitvec q" "iSize q = sub_size (iSize p)"
proof -
  have "Some q \<in> set s" using assms by (cases p) (metis bitvec.sel(4) nth_mem wf_bitvec.simps(3))
  then show "wf_bitvec q" "iSize q = sub_size (iSize p)" using assms(1,2) by (cases p; force)+
qed

lemma test_total: "wf_bitvec p \<Longrightarrow> i < iSize p \<Longrightarrow> \<exists>b. bitvec_test p i = Ok b"
proof (induction "size p" arbitrary: p i rule: less_induct)
  case less
  show ?case
  proof (cases "u_store p")
    case (apSub s)
    note f = sub_size_facts [of "iSize p"]
    have sz: "size_ok (iSize p)" "BITVEC_NBIT < iSize p" using less.prems(1) apSub by (cases p; auto)+
    let ?k = "i div sub_size (iSize p)"
    show ?thesis
    proof (cases "s ! ?k")
      case (Some q)
      have k: "?k < BITVEC_NPTR" using f(4) [OF sz] less.prems(2) by simp
      have "read_at (subs_of p) ?k = Ok (Some q)"
        using less.prems(1) apSub Some k by (cases p) (auto simp: read_at_def subs_of_def)
      then show ?thesis using less.hyps [OF sub_smaller] wf_sub [OF less.prems(1) apSub k Some] Some f(1) [OF sz]
        by (simp add: test_sub [OF less.prems(1) apSub less.prems(2)])
    next
      case None
      then have "bitvec_test p i = Ok False" by (simp add: test_sub [OF less.prems(1) apSub less.prems(2)])
      then show ?thesis ..
    qed
  qed (use less.prems in \<open>auto simp: test_bitmap test_hash\<close>)
qed

section \<open>Setting a value\<close>

lemma members_bitmap: "wf_bitvec p \<Longrightarrow> u_store p = aBitmap b \<Longrightarrow> members p = {i. i < iSize p \<and> bit (b ! (i div 8)) (i mod 8)}"
  by (auto simp: members_def test_bitmap)

lemma members_hash: "wf_bitvec p \<Longrightarrow> u_store p = aHash t \<Longrightarrow> members p = {i. Suc i \<in> set t}"
proof -
  assume p: "wf_bitvec p" "u_store p = aHash t"
  then have "\<forall>v \<in> set t. v \<le> iSize p" by (cases p) (auto simp: hash_ok_def)
  then show ?thesis using p by (auto simp: members_def test_hash Suc_le_eq)
qed

lemma members_sub:
  "wf_bitvec p \<Longrightarrow> u_store p = apSub s \<Longrightarrow>
   members p = {i. i < iSize p \<and> (case s ! (i div sub_size (iSize p)) of None \<Rightarrow> False
                                 | Some q \<Rightarrow> i mod sub_size (iSize p) \<in> members q)}"
proof -
  assume p: "wf_bitvec p" "u_store p = apSub s"
  have sz: "size_ok (iSize p)" "BITVEC_NBIT < iSize p" using p by (cases p; auto)+
  show ?thesis
  proof (rule set_eqI)
    fix i
    let ?k = "i div sub_size (iSize p)"
    show "i \<in> members p \<longleftrightarrow> i \<in> {i. i < iSize p \<and> (case s ! (i div sub_size (iSize p)) of None \<Rightarrow> False
                                 | Some q \<Rightarrow> i mod sub_size (iSize p) \<in> members q)}"
    proof (cases "i < iSize p")
      case True
      have k: "?k < BITVEC_NPTR" by (rule sub_size_facts(4) [OF sz True])
      show ?thesis
      proof (cases "s ! ?k")
        case None
        then show ?thesis using True by (simp add: members_def test_sub [OF p True])
      next
        case (Some q)
        then show ?thesis using True sub_size_facts(1) [OF sz] wf_sub(2) [OF p k Some]
          by (simp add: members_def test_sub [OF p True])
      qed
    qed (simp add: members_def)
  qed
qed

lemma same_cell: "i div 8 = j div 8 \<Longrightarrow> i mod 8 = j mod 8 \<Longrightarrow> i = (j::nat)"
  by (metis div_mod_decomp)

lemma set_bit_at_spec:
  assumes "wf_bitvec p" "u_store p = aBitmap b" "i < iSize p"
  shows "\<exists>p1. set_bit_at p i = Ok p1 \<and> wf_bitvec p1 \<and> iSize p1 = iSize p \<and> iDivisor p1 = iDivisor p \<and> blocks p1 = blocks p \<and>
    members p1 = insert i (members p)"
proof -
  obtain sz n where p: "p = Bitvec sz n 0 (aBitmap b)" "sz \<le> BITVEC_NBIT" "length b = 496" "size_ok sz"
    using assms by (cases p) auto
  let ?b = "b[i div 8 := b ! (i div 8) OR push_bit (i mod 8) 1]" let ?p = "Bitvec sz n 0 (aBitmap ?b)"
  have k: "i div 8 < 496" using assms(3) p by simp
  have w: "wf_bitvec ?p" using p by simp
  have "set_bit_at p i = Ok ?p" using p k by (simp add: set_bit_at_def read_at_def bitmap_of_def Let_def)
  moreover have "bit (?b ! (j div 8)) (j mod 8) \<longleftrightarrow> j = i \<or> bit (b ! (j div 8)) (j mod 8)" if "j < sz" for j
    using k p(3) same_cell [of j i] by (cases "j div 8 = i div 8") (auto simp: bit_or_iff bit_exp_iff)
  then have "members ?p = insert i (members p)"
    using members_bitmap [OF w] members_bitmap [OF assms(1,2)] assms(3) p(1) by auto
  ultimately show ?thesis using w p(1) by auto
qed

lemma filter_update_zero:
  "t ! h = 0 \<Longrightarrow> h < length t \<Longrightarrow> v \<noteq> 0 \<Longrightarrow>
   length (filter (\<lambda>v. v \<noteq> 0) (t[h := v])) = Suc (length (filter (\<lambda>v. v \<noteq> (0::nat)) t))"
  by (induction t arbitrary: h) (auto split: nat.splits simp: nth_Cons)

lemma set_update_zero: "t ! h = 0 \<Longrightarrow> h < length t \<Longrightarrow> v \<noteq> 0 \<Longrightarrow> set (t[h := v]) - {0} = insert v (set t - {0 :: nat})"
  by (induction t arbitrary: h) (auto split: nat.splits simp: nth_Cons)

lemma hash_ok_insert:
  assumes "hash_ok sz n t" "Suc n < BITVEC_NINT" "v \<noteq> 0" "v \<le> sz"
  shows "hash_ok sz (Suc n) (t[first_free (BITVEC_HASH (v - 1)) t := v])"
proof -
  let ?h = "first_free (BITVEC_HASH (v - 1)) t"
  note free = hash_ok_free [OF assms(1)]
  have h: "?h < length t" "t ! ?h = 0" using first_free_bound [OF free] first_free_zero [OF free] by auto
  have "set (t[?h := v]) \<subseteq> insert v (set t)" by (rule set_update_subset_insert)
  then show ?thesis
    using assms reachable_insert [OF _ free assms(3)] filter_update_zero [OF h(2,1) assms(3)]
    by (auto simp: hash_ok_def)
qed

lemma put_hash_spec:
  assumes "wf_bitvec p" "u_store p = aHash t" "Suc (nSet p) < BITVEC_NINT" "i < iSize p"
    and "h = first_free (BITVEC_HASH i) t"
  shows "wf_bitvec (put_hash p h (Suc i))" "members (put_hash p h (Suc i)) = insert i (members p)" "h < length t"
    "u_store (put_hash p h (Suc i)) = aHash (t[h := Suc i])"
proof -
  obtain sz n where p: "p = Bitvec sz n 0 (aHash t)" "BITVEC_NBIT < sz" "hash_ok sz n t" "size_ok sz"
    using assms by (cases p) auto
  note free = hash_ok_free [OF p(3)]
  have h: "h < length t" "t ! h = 0" using first_free_bound [OF free] first_free_zero [OF free] assms(5) by auto
  have e: "put_hash p h (Suc i) = Bitvec sz (Suc n) 0 (aHash (t[h := Suc i]))" by (simp add: p(1) put_hash_def hash_of_def)
  show w: "wf_bitvec (put_hash p h (Suc i))"
    using hash_ok_insert [OF p(3), of "Suc i"] p assms(3-5) unfolding e by simp
  show u: "u_store (put_hash p h (Suc i)) = aHash (t[h := Suc i])" by (simp add: e)
  have "Suc j \<in> set (t[h := Suc i]) \<longleftrightarrow> j = i \<or> Suc j \<in> set t" for j
    using set_update_zero [OF h(2,1), of "Suc i"] by auto
  then show "members (put_hash p h (Suc i)) = insert i (members p)"
    using members_hash [OF w u] members_hash [OF assms(1,2)] by auto
  show "h < length t" by (rule h(1))
qed

text \<open>
  What an operation that sets \<open>i\<close> guarantees: on success exactly \<open>i\<close> is added. When an allocation was refused
  nothing else is added, but values may be lost.
\<close>

definition sets_value :: "bitvec \<Rightarrow> nat \<Rightarrow> sqlite_memory \<Rightarrow> set_result \<Rightarrow> bool" where
  "sets_value p i m r \<longleftrightarrow>
     (\<exists>rc p1 m1. r = Ok (rc, p1, m1) \<and> wf_bitvec p1 \<and> iSize p1 = iSize p \<and> (iDivisor p \<noteq> 0 \<longrightarrow> iDivisor p1 \<noteq> 0) \<and>
        (rc = SQLITE_OK \<and> members p1 = insert i (members p) \<or> rc = SQLITE_NOMEM \<and> members p1 \<subseteq> insert i (members p)) \<and>
        in_use m1 - in_use m = int (blocks p1) - int (blocks p) \<and> granted m1 = granted m \<and>
        (granted m = (\<lambda>_. True) \<longrightarrow> rc = SQLITE_OK))"

lemma sub_sum_update:
  "k < length s \<Longrightarrow> int (sum_list (map f (s[k := x]))) = int (sum_list (map f s)) + int (f x) - int (f (s ! k))" for f :: "_ \<Rightarrow> nat"
  by (induction s arbitrary: k) (auto split: nat.splits simp: nth_Cons)

lemma blocks_hash: "u_store p = aHash t \<Longrightarrow> blocks p = 1"
  by (cases p) auto

lemma mod_same: "i div d = j div d \<Longrightarrow> i mod d = j mod d \<Longrightarrow> i = (j::nat)"
  by (metis div_mod_decomp)

text \<open>Replacing one part of a divided vector.\<close>

definition part_members :: "bitvec option \<Rightarrow> nat set" where
  "part_members x = (case x of None \<Rightarrow> {} | Some q \<Rightarrow> members q)"

lemma put_sub_wf:
  assumes "wf_bitvec p" "u_store p = apSub s" "k < BITVEC_NPTR" "wf_bitvec q" "iSize q = sub_size (iSize p)"
  shows "wf_bitvec (put_sub p k q)" "iSize (put_sub p k q) = iSize p" "iDivisor (put_sub p k q) = iDivisor p"
    "u_store (put_sub p k q) = apSub (s[k := Some q])"
    "int (blocks (put_sub p k q)) - int (blocks p) = int (blocks q) - (case s ! k of None \<Rightarrow> 0 | Some q0 \<Rightarrow> int (blocks q0))"
proof -
  obtain sz n where p: "p = Bitvec sz n (sub_size sz) (apSub s)" "BITVEC_NBIT < sz" "size_ok sz" "length s = BITVEC_NPTR"
    "\<forall>x \<in> set s. case x of None \<Rightarrow> True | Some q \<Rightarrow> iSize q = sub_size sz \<and> wf_bitvec q"
    using assms by (cases p) auto
  have k: "k < length s" using assms(3) p by simp
  have e: "put_sub p k q = Bitvec sz n (sub_size sz) (apSub (s[k := Some q]))" by (simp add: p(1) put_sub_def subs_of_def)
  show "iSize (put_sub p k q) = iSize p" "iDivisor (put_sub p k q) = iDivisor p"
    "u_store (put_sub p k q) = apSub (s[k := Some q])" unfolding e by (simp_all add: p(1))
  have "\<forall>x \<in> insert (Some q) (set s). case x of None \<Rightarrow> True | Some q \<Rightarrow> iSize q = sub_size sz \<and> wf_bitvec q"
    using p assms(4,5) by simp
  then show "wf_bitvec (put_sub p k q)"
    unfolding e using p(2-4) set_update_subset_insert [of s k "Some q"] by auto
  show "int (blocks (put_sub p k q)) - int (blocks p) = int (blocks q) - (case s ! k of None \<Rightarrow> 0 | Some q0 \<Rightarrow> int (blocks q0))"
    unfolding e by (simp add: p(1) sub_sum_update [OF k] split: option.split)
qed

lemma members_part:
  assumes "wf_bitvec p" "u_store p = apSub s" "j < iSize p"
  shows "j \<in> members p \<longleftrightarrow> j mod sub_size (iSize p) \<in> part_members (s ! (j div sub_size (iSize p)))"
  using assms(3) by (simp add: members_sub [OF assms(1,2)] part_members_def split: option.split)

lemma members_bound: "j \<in> members p \<Longrightarrow> j < iSize p"
  by (simp add: members_def)

lemma put_sub_members:
  assumes "wf_bitvec p" "u_store p = apSub s" "k < BITVEC_NPTR" "wf_bitvec q" "iSize q = sub_size (iSize p)" "j < iSize p"
  shows "j \<in> members (put_sub p k q) \<longleftrightarrow>
    (if j div sub_size (iSize p) = k then j mod sub_size (iSize p) \<in> members q else j \<in> members p)"
proof -
  note w = put_sub_wf [OF assms(1-5)]
  have "length s = BITVEC_NPTR" using assms(1,2) by (cases p) auto
  then show ?thesis
    using members_part [OF w(1,4), of j] members_part [OF assms(1,2,6)] assms(3,6)
    by (auto simp: w(2) part_members_def nth_list_update)
qed

lemma put_sub_part:
  assumes "wf_bitvec p" "u_store p = apSub s" "i < iSize p" "wf_bitvec q" "iSize q = sub_size (iSize p)"
    and "k = i div sub_size (iSize p)" "e = i mod sub_size (iSize p)"
  shows "members q = insert e (part_members (s ! k)) \<Longrightarrow> members (put_sub p k q) = insert i (members p)"
    and "members q = part_members (s ! k) - {e} \<Longrightarrow> members (put_sub p k q) = members p - {i}"
    and "members q \<subseteq> insert e (part_members (s ! k)) \<Longrightarrow> members (put_sub p k q) \<subseteq> insert i (members p)"
proof -
  have sz: "size_ok (iSize p)" "BITVEC_NBIT < iSize p" using assms(1,2) by (cases p; auto)+
  have k: "k < BITVEC_NPTR" using sub_size_facts(4) [OF sz assms(3)] assms(6) by simp
  note w = put_sub_wf [OF assms(1,2) k assms(4,5)]
  note m = put_sub_members [OF assms(1,2) k assms(4,5)]
  have b: "j < iSize p" if "j \<in> members (put_sub p k q)" for j using members_bound [OF that] w(2) by simp
  have ij: "j = i \<longleftrightarrow> j mod sub_size (iSize p) = e" if "j div sub_size (iSize p) = k" for j
    using that assms(6,7) mod_same [of j _ i] by auto
  have part: "j \<in> members p \<longleftrightarrow> j mod sub_size (iSize p) \<in> part_members (s ! k)"
    if "j < iSize p" "j div sub_size (iSize p) = k" for j
    using members_part [OF assms(1,2) that(1)] that(2) by simp
  have out: "j \<noteq> i" if "j div sub_size (iSize p) \<noteq> k" for j using that assms(6) by auto
  have eq: "members (put_sub p k q) = S"
    if "S \<subseteq> insert i (members p)"
      and "\<And>j. j < iSize p \<Longrightarrow> (if j div sub_size (iSize p) = k then j mod sub_size (iSize p) \<in> members q else j \<in> members p) = (j \<in> S)"
    for S
  proof (rule set_eqI)
    fix j
    show "j \<in> members (put_sub p k q) \<longleftrightarrow> j \<in> S"
    proof (cases "j < iSize p")
      case True
      show ?thesis unfolding m [OF True] by (rule that(2) [OF True])
    next
      case False
      then show ?thesis using b [of j] that(1) members_bound [of j p] assms(3) by auto
    qed
  qed
  show "members (put_sub p k q) = insert i (members p)" if "members q = insert e (part_members (s ! k))"
    by (rule eq) (simp_all add: that part ij out)
  show "members (put_sub p k q) = members p - {i}" if "members q = part_members (s ! k) - {e}"
    by (rule eq) (auto simp: that part ij out)
  show "members (put_sub p k q) \<subseteq> insert i (members p)" if q: "members q \<subseteq> insert e (part_members (s ! k))"
  proof
    fix j assume j: "j \<in> members (put_sub p k q)"
    show "j \<in> insert i (members p)" using m [OF b [OF j]] j part [OF b [OF j]] ij [of j] q by (auto split: if_splits)
  qed
qed


lemma u32_dec_Suc: "i < 2 ^ 32 \<Longrightarrow> u32_dec (Suc i) = i"
  by (simp add: u32_dec_def)

lemma sets_valueI:
  assumes "r = Ok (SQLITE_OK, p1, m1)" "wf_bitvec p1" "iSize p1 = iSize p" "iDivisor p1 = iDivisor p" "members p1 = insert i (members p)"
    "in_use m1 - in_use m = int (blocks p1) - int (blocks p)" "granted m1 = granted m"
  shows "sets_value p i m r"
  using assms by (auto simp: sets_value_def)

lemma sets_value_refused:
  assumes "r = Ok (SQLITE_NOMEM, p, m1)" "wf_bitvec p" "in_use m1 = in_use m" "granted m1 = granted m" "granted m \<noteq> (\<lambda>_. True)"
  shows "sets_value p i m r"
  using assms by (auto simp: sets_value_def)

text \<open>The values of a table, entered one after the other.\<close>

definition entered :: "nat list \<Rightarrow> nat set" where
  "entered vs = {i. Suc i \<in> set vs}"

lemma entered_Cons: "entered (v # vs) = (if v = 0 then entered vs else insert (v - 1) (entered vs))"
  by (auto simp: entered_def gr0_conv_Suc)

lemma set_all_spec:
  assumes enter: "\<And>p i m. wf_bitvec p \<Longrightarrow> iSize p = sz \<Longrightarrow> iDivisor p \<noteq> 0 \<Longrightarrow> i < sz \<Longrightarrow> sets_value p i m (enter p i m)"
    and "sz < 2 ^ 32" and "\<forall>v \<in> set vs. v \<le> sz"
    and "wf_bitvec p" "iSize p = sz" "iDivisor p \<noteq> 0" "rc = SQLITE_OK \<or> rc = SQLITE_NOMEM" "granted m = (\<lambda>_. True) \<longrightarrow> rc = SQLITE_OK"
  shows "\<exists>rc1 p1 m1. set_all enter vs rc p m = Ok (rc1, p1, m1) \<and> wf_bitvec p1 \<and> iSize p1 = sz \<and> iDivisor p1 \<noteq> 0 \<and>
    (rc1 = SQLITE_OK \<and> rc = SQLITE_OK \<and> members p1 = members p \<union> entered vs \<or>
     rc1 = SQLITE_NOMEM \<and> members p1 \<subseteq> members p \<union> entered vs) \<and>
    in_use m1 - in_use m = int (blocks p1) - int (blocks p) \<and> granted m1 = granted m \<and> (granted m = (\<lambda>_. True) \<longrightarrow> rc1 = SQLITE_OK)"
  using assms(3-)
proof (induction vs arbitrary: p m rc)
  case Nil
  then show ?case by (auto simp: entered_def)
next
  case (Cons v vs)
  show ?case
  proof (cases "v = 0")
    case True
    then show ?thesis using Cons by (simp add: entered_Cons)
  next
    case False
    then obtain i where v: "v = Suc i" by (cases v) auto
    have i: "i < sz" "u32_dec v = i" using Cons.prems(1) assms(2) by (auto simp: v u32_dec_Suc)
    obtain r p1 m1 where e: "enter p i m = Ok (r, p1, m1)" "wf_bitvec p1" "iSize p1 = sz" "iDivisor p1 \<noteq> 0"
      "r = SQLITE_OK \<and> members p1 = insert i (members p) \<or> r = SQLITE_NOMEM \<and> members p1 \<subseteq> insert i (members p)"
      "in_use m1 - in_use m = int (blocks p1) - int (blocks p)" "granted m1 = granted m" "granted m = (\<lambda>_. True) \<longrightarrow> r = SQLITE_OK"
      using enter [OF Cons.prems(2-4) i(1), of m] Cons.prems(3,4) unfolding sets_value_def by auto
    have rc: "rc OR r = SQLITE_OK \<or> rc OR r = SQLITE_NOMEM" "granted m1 = (\<lambda>_. True) \<longrightarrow> rc OR r = SQLITE_OK"
      "rc OR r = SQLITE_OK \<longleftrightarrow> rc = SQLITE_OK \<and> r = SQLITE_OK"
      using e(5,7,8) Cons.prems(5,6) by auto
    obtain rc1 p2 m2 where s: "set_all enter vs (rc OR r) p1 m1 = Ok (rc1, p2, m2)" "wf_bitvec p2" "iSize p2 = sz" "iDivisor p2 \<noteq> 0"
      "rc1 = SQLITE_OK \<and> rc OR r = SQLITE_OK \<and> members p2 = members p1 \<union> entered vs \<or>
       rc1 = SQLITE_NOMEM \<and> members p2 \<subseteq> members p1 \<union> entered vs"
      "in_use m2 - in_use m1 = int (blocks p2) - int (blocks p1)" "granted m2 = granted m1" "granted m1 = (\<lambda>_. True) \<longrightarrow> rc1 = SQLITE_OK"
      using Cons.IH [of p1 "rc OR r" m1] Cons.prems(1) e(2-4) rc by auto
    have "members p2 \<subseteq> members p \<union> entered (v # vs)" using s(5) e(5) by (auto simp: entered_Cons v)
    moreover have "members p2 = members p \<union> entered (v # vs)" "rc = SQLITE_OK" if "rc1 = SQLITE_OK"
      using s(5) e(5) rc(3) that by (auto simp: entered_Cons v)
    ultimately show ?thesis using s e(1,6,7) False i(2) by (auto simp: v)
  qed
qed

lemma store_in_spec:
  assumes "wf_bitvec p" "u_store p = aHash t" "Suc (nSet p) < BITVEC_NINT" "i < iSize p" "h = first_free (BITVEC_HASH i) t"
  shows "sets_value p i m (store_in p h (Suc i) m)"
proof -
  note s = put_hash_spec [OF assms]
  have "hash_of p = t" using assms(2) by (simp add: hash_of_def)
  with s show ?thesis
    by (intro sets_valueI [of _ "put_hash p h (Suc i)" m])
      (simp_all add: store_in_def blocks_hash [OF s(4)] blocks_hash [OF assms(2)], simp_all add: put_hash_def)
qed

lemma members_new: "wf_bitvec (new_bitvec sz)" "members (new_bitvec sz) = {}" "iSize (new_bitvec sz) = sz" "iDivisor (new_bitvec sz) = 0"
  "blocks (new_bitvec sz) = 1" if "size_ok sz"
proof -
  show w: "wf_bitvec (new_bitvec sz)"
    using that by (simp add: new_bitvec_def hash_ok_def reachable_def)
  show "iSize (new_bitvec sz) = sz" "iDivisor (new_bitvec sz) = 0" "blocks (new_bitvec sz) = 1" by (simp_all add: new_bitvec_def)
  show "members (new_bitvec sz) = {}"
  proof (cases "sz \<le> BITVEC_NBIT")
    case True
    then have u: "u_store (new_bitvec sz) = aBitmap (replicate BITVEC_NELEM 0)" by (simp add: new_bitvec_def)
    have "\<not> bit (replicate BITVEC_NELEM (0 :: 8 word) ! (i div 8)) (i mod 8)" if "i < sz" for i
      using that True by simp
    then show ?thesis unfolding members_bitmap [OF w u] by (auto simp: new_bitvec_def)
  next
    case False
    then have u: "u_store (new_bitvec sz) = aHash (replicate BITVEC_NINT 0)" by (simp add: new_bitvec_def)
    show ?thesis unfolding members_hash [OF w u] by simp
  qed
qed

lemma divided_spec:
  assumes "wf_bitvec p" "BITVEC_NBIT < iSize p"
  shows "wf_bitvec (divided p)" "members (divided p) = {}" "iSize (divided p) = iSize p" "iDivisor (divided p) \<noteq> 0" "blocks (divided p) = 1"
proof -
  have sz: "size_ok (iSize p)" using assms(1) by (cases p rule: wf_bitvec.cases) auto
  note f = sub_size_facts [OF sz assms(2)]
  show w: "wf_bitvec (divided p)" using f(5) assms(2) sz by (simp add: divided_def)
  show "iSize (divided p) = iSize p" "iDivisor (divided p) \<noteq> 0" using f(1,5) by (simp_all add: divided_def)
  show "blocks (divided p) = 1" by (simp add: divided_def sum_list_replicate map_replicate)
  have u: "u_store (divided p) = apSub (replicate BITVEC_NPTR None)" "iSize (divided p) = iSize p" by (simp_all add: divided_def)
  show "members (divided p) = {}" unfolding members_sub [OF w u(1)] u(2) using f(4) by auto
qed

lemma rehash_spec:
  assumes enter: "\<And>q j m. wf_bitvec q \<Longrightarrow> iSize q = iSize p \<Longrightarrow> iDivisor q \<noteq> 0 \<Longrightarrow> j < iSize p \<Longrightarrow> sets_value q j m (enter q j m)"
    and "wf_bitvec p" "u_store p = aHash t" "i < iSize p" "h = first_free (BITVEC_HASH i) t"
  shows "sets_value p i m (rehash enter p h (Suc i) m)"
proof (cases "BITVEC_MXHASH \<le> nSet p")
  case False
  then show ?thesis using store_in_spec [OF assms(2,3) _ assms(4,5), of m] by (simp add: rehash_def)
next
  case True
  have big: "BITVEC_NBIT < iSize p" and d0: "iDivisor p = 0" and sz: "iSize p < 2 ^ 32" and le: "\<forall>v \<in> set t. v \<le> iSize p"
    using assms(2,3) by (cases p; auto simp: size_ok_def hash_ok_def)+
  note d = divided_spec [OF assms(2) big]
  have t: "hash_of p = t" using assms(3) by (simp add: hash_of_def)
  show ?thesis
  proof (cases m rule: malloc_cases)
    case (refused m1)
    then show ?thesis using True assms(2) by (intro sets_value_refused [of _ p m1]) (simp_all add: rehash_def)
  next
    case (granted m1)
    obtain r p1 m2 where e: "enter (divided p) i m1 = Ok (r, p1, m2)" "wf_bitvec p1" "iSize p1 = iSize p" "iDivisor p1 \<noteq> 0"
      "r = SQLITE_OK \<and> members p1 = {i} \<or> r = SQLITE_NOMEM \<and> members p1 \<subseteq> {i}"
      "in_use m2 - in_use m1 = int (blocks p1) - 1" "granted m2 = granted m1" "granted m1 = (\<lambda>_. True) \<longrightarrow> r = SQLITE_OK"
      using enter [OF d(1,3,4) assms(4), of m1] d unfolding sets_value_def by auto
    have r: "r = SQLITE_OK \<or> r = SQLITE_NOMEM" "granted m2 = (\<lambda>_. True) \<longrightarrow> r = SQLITE_OK" using e(5,7,8) by auto
    obtain rc p2 m3 where s: "set_all enter t r p1 m2 = Ok (rc, p2, m3)" "wf_bitvec p2" "iSize p2 = iSize p" "iDivisor p2 \<noteq> 0"
      "rc = SQLITE_OK \<and> r = SQLITE_OK \<and> members p2 = members p1 \<union> entered t \<or> rc = SQLITE_NOMEM \<and> members p2 \<subseteq> members p1 \<union> entered t"
      "in_use m3 - in_use m2 = int (blocks p2) - int (blocks p1)" "granted m3 = granted m2" "granted m2 = (\<lambda>_. True) \<longrightarrow> rc = SQLITE_OK"
      using set_all_spec [OF enter sz le e(2-4) r] by blast
    have "members p = entered t" unfolding members_hash [OF assms(2,3)] entered_def ..
    moreover have "rehash enter p h (Suc i) m = Ok (rc, p2, sqlite3_free m3)"
      using True granted(1) e(1) s(1) assms(4) sz by (simp add: rehash_def t u32_dec_Suc)
    ultimately show ?thesis
      using s(2-8) e(5-8) granted(2,3) d0 blocks_hash [OF assms(3)] unfolding sets_value_def by (auto simp: sqlite3_free_def)
  qed
qed

lemma set_hash_spec:
  assumes enter: "\<And>q j m. wf_bitvec q \<Longrightarrow> iSize q = iSize p \<Longrightarrow> iDivisor q \<noteq> 0 \<Longrightarrow> j < iSize p \<Longrightarrow> sets_value q j m (enter q j m)"
    and "wf_bitvec p" "u_store p = aHash t" "i < iSize p"
  shows "sets_value p i m (set_hash enter p i m)"
proof -
  obtain sz n where p: "p = Bitvec sz n 0 (aHash t)" "hash_ok sz n t" "BITVEC_NBIT < sz"
    using assms(2,3) by (cases p) auto
  note free = hash_ok_free [OF p(2)]
  let ?h = "BITVEC_HASH i"
  have l: "length t = BITVEC_NINT" and r: "reachable t" using p(2) by (auto simp: hash_ok_def)
  have h: "?h < length t" using l by simp
  have t: "hash_of p = t" "nSet p = n" by (simp_all add: p(1) hash_of_def)
  have n: "n < BITVEC_NINT" using p(2) by (simp add: hash_ok_def)
  show ?thesis
  proof (cases "t ! ?h = 0")
    case True
    then have f: "?h = first_free ?h t" using free_empty [OF h] by simp
    have "read_at (hash_of p) ?h = Ok 0" using h True by (simp add: t(1) read_at_def)
    then have e: "set_hash enter p i m = (if n < BITVEC_NINT - 1 then store_in p ?h (Suc i) m else rehash enter p ?h (Suc i) m)"
      by (simp add: set_hash_def Let_def t(2) del: sizes)
    show ?thesis
    proof (cases "n < BITVEC_NINT - 1")
      case True
      then show ?thesis using store_in_spec [OF assms(2,3) _ assms(4) f, of m] t(2) unfolding e by simp
    next
      case False
      then show ?thesis using rehash_spec [OF assms f, of m] unfolding e by (simp del: sizes)
    qed
  next
    case False
    have place: "hash_place (Suc BITVEC_NINT) t (Suc i) ?h = Ok (if Suc i \<in> set (cluster ?h t) then None else Some (first_free ?h t))"
      by (rule hash_place_cluster [OF l free _ _ False]) (use cluster_length [OF free, of ?h] l in auto)
    have "read_at (hash_of p) ?h = Ok (t ! ?h)" using h by (simp add: t(1) read_at_def)
    then have e: "set_hash enter p i m =
        (if Suc i \<in> set (cluster ?h t) then Ok (SQLITE_OK, p, m) else rehash enter p (first_free ?h t) (Suc i) m)"
      using False place by (simp add: set_hash_def Let_def t(1) del: sizes hash_place.simps)
    have "insert i (members p) = members p" if "Suc i \<in> set (cluster ?h t)"
      using that cluster_subset [of ?h t] members_hash [OF assms(2,3)] by auto
    then show ?thesis unfolding e
      using assms(2) rehash_spec [OF assms refl, of m] by (simp add: sets_valueI del: sizes)
  qed
qed

text \<open>The fuel a vector needs.\<close>

function need :: "nat \<Rightarrow> nat" where
  "need sz = (if sz \<le> BITVEC_NBIT then 1 else 2 + need (sub_size sz))"
  by pat_completeness auto
termination by (relation "measure id") (auto simp: sub_size_def)

declare need.simps [simp del]

definition need_of :: "bitvec \<Rightarrow> nat" where
  "need_of p = (if iDivisor p = 0 then need (iSize p) else 1 + need (sub_size (iSize p)))"

lemma need_le: "sz \<le> 3968 * 62 ^ k \<Longrightarrow> need sz \<le> 1 + 2 * k"
proof (induction k arbitrary: sz)
  case 0
  then show ?case by (simp add: need.simps)
next
  case (Suc k)
  have "sub_size sz \<le> 3968 * 62 ^ k" using Suc.prems by (simp add: sub_size_def)
  from Suc.IH [OF this] show ?case by (simp add: need.simps [of sz])
qed

lemma set_fuel_enough: "size_ok sz \<Longrightarrow> need sz \<le> set_fuel"
  using need_le [of sz 4] by (simp add: size_ok_def set_fuel_def)

lemma set_walk_spec:
  "wf_bitvec p \<Longrightarrow> i < iSize p \<Longrightarrow> need_of p \<le> fuel \<Longrightarrow> sets_value p i m (set_walk fuel p i m)"
proof (induction fuel arbitrary: p i m)
  case 0
  then show ?case by (cases "iSize p \<le> BITVEC_NBIT") (auto simp: need_of_def need.simps split: if_splits)
next
  case (Suc fuel)
  show ?case
  proof (cases "u_store p")
    case (aBitmap b)
    then have "iSize p \<le> BITVEC_NBIT" using Suc.prems(1) by (cases p) auto
    then show ?thesis using set_bit_at_spec [OF Suc.prems(1) aBitmap Suc.prems(2)]
      by (auto intro!: sets_valueI)
  next
    case (aHash t)
    then have p: "BITVEC_NBIT < iSize p" "iDivisor p = 0" using Suc.prems(1) by (cases p; auto)+
    have "sets_value q j m (set_walk fuel q j m)"
      if "wf_bitvec q" "iSize q = iSize p" "iDivisor q \<noteq> 0" "j < iSize p" for q j m
      using Suc.IH [of q j m] that Suc.prems(3) p by (simp add: need_of_def need.simps [of "iSize p"])
    from set_hash_spec [OF this Suc.prems(1) aHash Suc.prems(2)] show ?thesis using p by simp
  next
    case (apSub s)
    let ?d = "sub_size (iSize p)"
    have sz: "size_ok (iSize p)" "BITVEC_NBIT < iSize p" and d: "iDivisor p = ?d" "length s = BITVEC_NPTR"
      using Suc.prems(1) apSub by (cases p; auto)+
    note f = sub_size_facts [OF sz]
    let ?k = "i div ?d" let ?j = "i mod ?d"
    have k: "?k < BITVEC_NPTR" by (rule f(4) [OF Suc.prems(2)])
    have j: "?j < ?d" using f(1) by simp
    have subs: "read_at (subs_of p) ?k = Ok (s ! ?k)" using k d(2) apSub by (simp add: read_at_def subs_of_def)
    have step: "sets_value p i m (obind (set_walk fuel q ?j m1) (\<lambda>(rc, q1, m1). Ok (rc, put_sub p ?k q1, m1)))"
      if q: "wf_bitvec q" "iSize q = ?d" "members q = part_members (s ! ?k)" "granted m1 = granted m"
        "in_use m1 - in_use m = int (blocks q) - (case s ! ?k of None \<Rightarrow> 0 | Some q0 \<Rightarrow> int (blocks q0))" for q m1
    proof -
      have "need_of q \<le> fuel"
        using Suc.prems(3) f(1) q(1,2) d(1) by (cases q rule: wf_bitvec.cases) (auto simp: need_of_def need.simps [of ?d])
      then obtain rc q1 m2 where e: "set_walk fuel q ?j m1 = Ok (rc, q1, m2)" "wf_bitvec q1" "iSize q1 = ?d"
        "rc = SQLITE_OK \<and> members q1 = insert ?j (part_members (s ! ?k)) \<or> rc = SQLITE_NOMEM \<and> members q1 \<subseteq> insert ?j (part_members (s ! ?k))"
        "in_use m2 - in_use m1 = int (blocks q1) - int (blocks q)" "granted m2 = granted m1" "granted m1 = (\<lambda>_. True) \<longrightarrow> rc = SQLITE_OK"
        using Suc.IH [OF q(1), of ?j m1] j q(2,3) unfolding sets_value_def by auto
      note w = put_sub_wf [OF Suc.prems(1) apSub k e(2,3)]
      note m = put_sub_part [OF Suc.prems(1) apSub Suc.prems(2) e(2,3) refl refl]
      show ?thesis using w e m(1,3) q(4,5) unfolding sets_value_def by auto
    qed
    show ?thesis
    proof (cases "s ! ?k")
      case (Some q)
      then show ?thesis using step [of q m] wf_sub [OF Suc.prems(1) apSub k Some] sz f(1) d(1) subs
        by (simp add: Let_def part_members_def)
    next
      case None
      note new = members_new [OF f(3)]
      show ?thesis
      proof (cases m rule: malloc_cases)
        case (granted m1)
        then show ?thesis using step [of "new_bitvec ?d" m1] new None sz f(1) d(1) subs
          by (simp add: Let_def part_members_def sqlite3BitvecCreate_def)
      next
        case (refused m1)
        then show ?thesis using None sz f(1) d(1) subs Suc.prems(1)
          by (intro sets_value_refused [of _ p m1]) (simp_all add: Let_def sqlite3BitvecCreate_def)
      qed
    qed
  qed
qed

section \<open>Clearing a value\<close>

lemma clear_bit_at_spec:
  assumes "wf_bitvec p" "u_store p = aBitmap b" "i < iSize p"
  shows "\<exists>p1. clear_bit_at p i = Ok p1 \<and> wf_bitvec p1 \<and> iSize p1 = iSize p \<and> blocks p1 = blocks p \<and> members p1 = members p - {i}"
proof -
  obtain sz n where p: "p = Bitvec sz n 0 (aBitmap b)" "sz \<le> BITVEC_NBIT" "length b = 496" "size_ok sz"
    using assms by (cases p) auto
  let ?b = "b[i div 8 := b ! (i div 8) AND NOT (push_bit (i mod 8) 1)]" let ?p = "Bitvec sz n 0 (aBitmap ?b)"
  have k: "i div 8 < 496" using assms(3) p by simp
  have w: "wf_bitvec ?p" using p by simp
  have "clear_bit_at p i = Ok ?p" using p k by (simp add: clear_bit_at_def read_at_def bitmap_of_def Let_def)
  moreover have "bit (?b ! (j div 8)) (j mod 8) \<longleftrightarrow> j \<noteq> i \<and> bit (b ! (j div 8)) (j mod 8)" if "j < sz" for j
    using k p(3) same_cell [of j i] by (cases "j div 8 = i div 8") (auto simp: bit_and_iff bit_not_iff bit_exp_iff)
  then have "members ?p = members p - {i}"
    using members_bitmap [OF w] members_bitmap [OF assms(1,2)] assms(3) p(1) by auto
  ultimately show ?thesis using w p(1) by auto
qed

lemma rebuild_spec:
  assumes "sz < 2 ^ 32" and "\<forall>v \<in> set vs. v \<le> sz"
    and "wf_bitvec p" "u_store p = aHash t" "iSize p = sz" "nSet p + length (filter (\<lambda>v. v \<noteq> 0) vs) < BITVEC_NINT"
  shows "\<exists>p1. rebuild vs (Suc i) p = Ok p1 \<and> wf_bitvec p1 \<and> iSize p1 = sz \<and> blocks p1 = 1 \<and> members p1 = members p \<union> (entered vs - {i})"
  using assms(2-)
proof (induction vs arbitrary: p t)
  case Nil
  then show ?case by (auto simp: entered_def blocks_hash)
next
  case (Cons v vs)
  show ?case
  proof (cases "v = 0 \<or> v = Suc i")
    case True
    then have "rebuild (v # vs) (Suc i) p = rebuild vs (Suc i) p" by auto
    moreover have "entered (v # vs) - {i} = entered vs - {i}" using True by (auto simp: entered_Cons)
    moreover have "nSet p + length (filter (\<lambda>v. v \<noteq> 0) vs) < BITVEC_NINT" using Cons.prems(5) by (auto split: if_splits)
    ultimately show ?thesis using Cons.IH [OF _ Cons.prems(2,3,4)] Cons.prems(1) by simp
  next
    case False
    then obtain j where v: "v = Suc j" "j \<noteq> i" by (cases v) auto
    have j: "j < iSize p" "u32_dec v = j" using Cons.prems(1,4) assms(1) by (auto simp: v u32_dec_Suc)
    have hok: "hash_ok (iSize p) (nSet p) t" using Cons.prems(2,3) by (cases p) auto
    note free = hash_ok_free [OF hok]
    have l: "length t = BITVEC_NINT" using hok by (simp add: hash_ok_def)
    let ?h = "first_free (BITVEC_HASH j) t"
    have "free_slot (Suc BITVEC_NINT) t (BITVEC_HASH j) = Ok ?h"
      by (rule free_slot_cluster [OF l free]) (use cluster_length [OF free, of "BITVEC_HASH j"] l in auto)
    moreover have "hash_of p = t" using Cons.prems(3) by (simp add: hash_of_def)
    ultimately have r: "rebuild (v # vs) (Suc i) p = rebuild vs (Suc i) (put_hash p ?h (Suc j))"
      using v j(2) by (simp del: free_slot.simps sizes)
    have n: "Suc (nSet p) < BITVEC_NINT" using Cons.prems(5) by (simp add: v(1))
    note s = put_hash_spec [OF Cons.prems(2,3) n j(1) refl]
    have "nSet (put_hash p ?h (Suc j)) + length (filter (\<lambda>v. v \<noteq> 0) vs) < BITVEC_NINT" "iSize (put_hash p ?h (Suc j)) = sz"
      using Cons.prems(4,5) by (simp_all add: v(1) put_hash_def)
    from Cons.IH [OF _ s(1,4) this(2,1)] Cons.prems(1) show ?thesis unfolding r
      using s(2) v by (auto simp: entered_Cons)
  qed
qed

lemma clear_walk_spec:
  "wf_bitvec p \<Longrightarrow> i < iSize p \<Longrightarrow>
   \<exists>p1. clear_walk p i = Ok p1 \<and> wf_bitvec p1 \<and> iSize p1 = iSize p \<and> blocks p1 = blocks p \<and> members p1 = members p - {i}"
proof (induction "size p" arbitrary: p i rule: less_induct)
  case less
  note w = less.prems(1)
  show ?case
  proof (cases "u_store p")
    case (aBitmap b)
    then have "clear_walk p i = clear_bit_at p i"
      using w unfolding clear_walk.simps [of p i] by (cases p) auto
    then show ?thesis using clear_bit_at_spec [OF w aBitmap less.prems(2)] by simp
  next
    case (aHash t)
    obtain sz n where p: "p = Bitvec sz n 0 (aHash t)" "BITVEC_NBIT < sz" "hash_ok sz n t" "size_ok sz"
      using w aHash by (cases p) auto
    let ?q = "Bitvec sz 0 0 (aHash (replicate BITVEC_NINT 0))"
    have q: "?q = new_bitvec sz" using p(2) by (simp add: new_bitvec_def)
    note new = members_new [OF p(4)]
    have "clear_walk p i = rebuild t (Suc i) ?q"
      unfolding clear_walk.simps [of p i] using p(1,2) by (simp add: hash_of_def)
    moreover have "members p = entered t" unfolding members_hash [OF w aHash] entered_def ..
    moreover have "sz < 2 ^ 32" "\<forall>v \<in> set t. v \<le> sz" "0 + length (filter (\<lambda>v. v \<noteq> 0) t) < BITVEC_NINT"
      using p(3,4) by (auto simp: size_ok_def hash_ok_def)
    moreover note rebuild_spec [of sz t ?q "replicate BITVEC_NINT 0" i] blocks_hash [OF aHash]
    ultimately show ?thesis using new p(1) unfolding q [symmetric] by simp
  next
    case (apSub s)
    let ?d = "sub_size (iSize p)"
    have sz: "size_ok (iSize p)" "BITVEC_NBIT < iSize p" and d: "iDivisor p = ?d" "length s = BITVEC_NPTR"
      using w apSub by (cases p; auto)+
    note f = sub_size_facts [OF sz]
    let ?k = "i div ?d" let ?j = "i mod ?d"
    have k: "?k < BITVEC_NPTR" by (rule f(4) [OF less.prems(2)])
    have subs: "read_at (subs_of p) ?k = Ok (s ! ?k)" using k d(2) apSub by (simp add: read_at_def subs_of_def)
    show ?thesis
    proof (cases "s ! ?k")
      case None
      have "i \<notin> members p" by (simp add: members_part [OF w apSub less.prems(2)] None part_members_def)
      then show ?thesis unfolding clear_walk.simps [of p i] using None f(1) d(1) subs w by simp
    next
      case (Some q)
      note q = wf_sub [OF w apSub k Some]
      obtain q1 where q1: "clear_walk q ?j = Ok q1" "wf_bitvec q1" "iSize q1 = ?d" "blocks q1 = blocks q" "members q1 = members q - {?j}"
        using less.hyps [OF sub_smaller [OF subs [unfolded Some]] q(1), of ?j] f(1) q(2) by auto
      note w1 = put_sub_wf [OF w apSub k q1(2,3)]
      have "members (put_sub p ?k q1) = members p - {i}"
        using put_sub_part(2) [OF w apSub less.prems(2) q1(2,3) refl refl] q1(5) Some by (simp add: part_members_def)
      moreover have "clear_walk p i = Ok (put_sub p ?k q1)"
        unfolding clear_walk.simps [of p i] using Some f(1) d(1) subs q1(1) by simp
      ultimately show ?thesis using w1 q1(4) Some by simp
    qed
  qed
qed

section \<open>Destruction\<close>

lemma destroy_parts:
  "(\<And>q m. Some q \<in> set s \<Longrightarrow> in_use (destroy q m) = in_use m - int (blocks q)) \<Longrightarrow>
   in_use (fold (\<lambda>q m1. case q of None \<Rightarrow> m1 | Some f \<Rightarrow> f m1) (map (map_option destroy) s) m) =
   in_use m - int (sum_list (map (\<lambda>x. case x of None \<Rightarrow> 0 | Some q \<Rightarrow> blocks q) s))"
proof (induction s arbitrary: m)
  case (Cons x s)
  then show ?case by (cases x) simp_all
qed simp

lemma destroy_blocks: "wf_bitvec p \<Longrightarrow> in_use (destroy p m) = in_use m - int (blocks p)"
proof (induction p arbitrary: m rule: wf_bitvec.induct)
  case (3 sz n d s)
  then have "d \<noteq> 0" using sub_size_facts(1) [of sz] by simp
  moreover have "in_use (destroy q m) = in_use m - int (blocks q)" if "Some q \<in> set s" for q m
    using 3 that by force
  ultimately show ?case using destroy_parts [of s] by (simp add: sqlite3_free_def)
qed (simp_all add: sqlite3_free_def)

section \<open>A vector is a finite set\<close>

text \<open>The numbers a client finds in a vector; they count from one.\<close>

definition found :: "bitvec option \<Rightarrow> nat set" where
  "found p = {j. j < 2 ^ 32 \<and> sqlite3BitvecTest p j = Ok True}"

lemma u32_dec_cases: "j < 2 ^ 32 \<Longrightarrow> u32_dec j = (if j = 0 then 2 ^ 32 - 1 else j - 1)"
  by (cases j) (auto simp: u32_dec_def)

lemma tested:
  assumes "wf_bitvec p" "j < 2 ^ 32"
  shows "sqlite3BitvecTest (Some p) j = Ok (1 \<le> j \<and> j - 1 \<in> members p)"
proof -
  have "iSize p < 2 ^ 32" using assms(1) by (cases p rule: wf_bitvec.cases) (auto simp: size_ok_def)
  then show ?thesis
    using test_total [OF assms(1), of "j - 1"] assms(2)
    by (auto simp: sqlite3BitvecTest_def sqlite3BitvecTestNotNull_def u32_dec_cases Let_def members_def)
qed

lemma found_members: "wf_bitvec p \<Longrightarrow> found (Some p) = Suc ` members p"
proof (rule set_eqI)
  fix j
  assume w: "wf_bitvec p"
  have "iSize p < 2 ^ 32" using w by (cases p rule: wf_bitvec.cases) (auto simp: size_ok_def)
  then have "j < 2 ^ 32" if "j \<in> Suc ` members p" using that by (auto simp: members_def)
  moreover have "1 \<le> j \<and> j - 1 \<in> members p \<longleftrightarrow> j \<in> Suc ` members p"
    by (cases j) (auto simp: image_iff)
  ultimately show "j \<in> found (Some p) \<longleftrightarrow> j \<in> Suc ` members p"
    using tested [OF w, of j] by (auto simp: found_def)
qed

datatype bitvec_op = Set_Bit nat | Clear_Bit nat

fun bitvec_step :: "bitvec_op \<Rightarrow> bitvec option \<times> sqlite_memory \<Rightarrow> (bitvec option \<times> sqlite_memory) outcome" where
  "bitvec_step (Set_Bit i) (p, m) = obind (sqlite3BitvecSet p i m) (\<lambda>(rc, p1, m1). Ok (p1, m1))"
| "bitvec_step (Clear_Bit i) (p, m) = obind (sqlite3BitvecClear p i) (\<lambda>p1. Ok (p1, m))"

fun bitvec_effect :: "bitvec_op \<Rightarrow> nat set \<Rightarrow> nat set" where
  "bitvec_effect (Set_Bit i) S = insert i S"
| "bitvec_effect (Clear_Bit i) S = S - {i}"

fun op_legal :: "nat \<Rightarrow> bitvec_op \<Rightarrow> bool" where
  "op_legal sz (Set_Bit i) \<longleftrightarrow> 1 \<le> i \<and> i \<le> sz"
| "op_legal sz (Clear_Bit i) \<longleftrightarrow> 1 \<le> i \<and> i \<le> sz"

text \<open>The memory never refuses, and beside the vector \<open>base\<close> blocks are in use.\<close>

definition bitvec_inv :: "nat \<Rightarrow> int \<Rightarrow> bitvec option \<times> sqlite_memory \<Rightarrow> bool" where
  "bitvec_inv sz base s \<longleftrightarrow>
     (\<exists>p m. s = (Some p, m) \<and> wf_bitvec p \<and> iSize p = sz \<and> granted m = (\<lambda>_. True) \<and> in_use m = base + int (blocks p))"

lemma set_spec:
  assumes "wf_bitvec p" "1 \<le> i" "i \<le> iSize p"
  shows "sets_value p (i - 1) m (set_walk set_fuel p (u32_dec i) m)"
proof -
  have sz: "size_ok (iSize p)" using assms(1) by (cases p rule: wf_bitvec.cases) auto
  have "need_of p \<le> set_fuel"
  proof (cases "iDivisor p = 0")
    case False
    then have "BITVEC_NBIT < iSize p" using assms(1) by (cases p rule: wf_bitvec.cases) auto
    then show ?thesis using set_fuel_enough [OF sz] by (simp add: need_of_def False need.simps [of "iSize p"])
  qed (use set_fuel_enough [OF sz] in \<open>simp add: need_of_def\<close>)
  moreover have "u32_dec i = i - 1" using assms(2,3) sz by (simp add: u32_dec_cases size_ok_def)
  ultimately show ?thesis using set_walk_spec [OF assms(1), of "i - 1"] assms(2,3) by simp
qed

lemma image_Suc_diff: "1 \<le> i \<Longrightarrow> Suc ` (S - {i - 1}) = Suc ` S - {i}" "1 \<le> i \<Longrightarrow> Suc ` insert (i - 1) S = insert i (Suc ` S)"
  by (cases i; auto)+

interpretation bv: simulation bitvec_step "bitvec_inv sz base" "op_legal sz" "\<lambda>s. found (fst s)" bitvec_effect
  for sz base
proof
  fix s e
  assume "bitvec_inv sz base s" and l: "op_legal sz e"
  then obtain p m where s: "s = (Some p, m)" "wf_bitvec p" "iSize p = sz" "granted m = (\<lambda>_. True)" "in_use m = base + int (blocks p)"
    by (auto simp: bitvec_inv_def)
  show "\<exists>s'. bitvec_step e s = Ok s' \<and> bitvec_inv sz base s' \<and> found (fst s') = bitvec_effect e (found (fst s))"
  proof (cases e)
    case (Set_Bit i)
    have i: "1 \<le> i" "i \<le> iSize p" using l Set_Bit s(3) by auto
    obtain rc p1 m1 where r: "set_walk set_fuel p (u32_dec i) m = Ok (rc, p1, m1)" "wf_bitvec p1" "iSize p1 = iSize p"
      "rc = SQLITE_OK \<and> members p1 = insert (i - 1) (members p) \<or> rc = SQLITE_NOMEM \<and> members p1 \<subseteq> insert (i - 1) (members p)"
      "in_use m1 - in_use m = int (blocks p1) - int (blocks p)" "granted m1 = granted m" "granted m = (\<lambda>_. True) \<longrightarrow> rc = SQLITE_OK"
      using set_spec [OF s(2) i, of m] unfolding sets_value_def by blast
    have "members p1 = insert (i - 1) (members p)" using r(4,7) s(4) by auto
    then have f: "found (Some p1) = insert i (found (Some p))"
      by (simp only: found_members [OF r(2)] found_members [OF s(2)] image_Suc_diff(2) [OF i(1)])
    have "bitvec_inv sz base (Some p1, m1)" using r s(3-5) by (auto simp: bitvec_inv_def)
    then show ?thesis using Set_Bit f r(1) s(1) by (simp add: sqlite3BitvecSet_def)
  next
    case (Clear_Bit i)
    have "u32_dec i = i - 1"
      using l Clear_Bit s(2,3) by (cases p rule: wf_bitvec.cases) (auto simp: u32_dec_cases size_ok_def)
    have i: "1 \<le> i" "i - 1 < iSize p" using l Clear_Bit s(3) by auto
    obtain p1 where r: "clear_walk p (i - 1) = Ok p1" "wf_bitvec p1" "iSize p1 = iSize p" "blocks p1 = blocks p"
      "members p1 = members p - {i - 1}"
      using clear_walk_spec [OF s(2) i(2)] by blast
    have f: "found (Some p1) = found (Some p) - {i}"
      by (simp only: found_members [OF r(2)] found_members [OF s(2)] image_Suc_diff(1) [OF i(1)] r(5))
    have "bitvec_inv sz base (Some p1, m)" using r s(3-5) by (auto simp: bitvec_inv_def)
    then show ?thesis using Clear_Bit f r(1) s(1) \<open>u32_dec i = i - 1\<close> by (simp add: sqlite3BitvecClear_def)
  qed
qed

lemma create_spec: "size_ok sz \<Longrightarrow> sqlite3BitvecCreate sz plenty = (Some (new_bitvec sz), plenty\<lparr>requests := 1, in_use := 1\<rparr>)"
  by (simp add: sqlite3BitvecCreate_def sqlite3Malloc_def plenty_def)

text \<open>
  C19. A vector is a finite set: after it was created for the numbers up to \<open>sz\<close>, and whatever is set and cleared
  in whatever order, a test finds exactly the numbers that were set and not cleared since, through all
  changes from the hash table to arrays of smaller vectors; and destroying it gives back all memory.
\<close>

theorem bitvec_is_set:
  assumes "size_ok sz" and "\<forall>e \<in> set es. op_legal sz e"
  shows "\<exists>p m. run_steps bitvec_step es (sqlite3BitvecCreate sz plenty) = Ok (p, m) \<and>
    (\<forall>j < 2 ^ 32. sqlite3BitvecTest p j = Ok (j \<in> fold bitvec_effect es {})) \<and>
    in_use (sqlite3BitvecDestroy p m) = 0"
proof -
  note new = members_new [OF assms(1)]
  have "bitvec_inv sz 0 (sqlite3BitvecCreate sz plenty)"
    using new unfolding create_spec [OF assms(1)] by (auto simp: bitvec_inv_def plenty_def)
  from bv.run_simulates [OF this assms(2)] obtain p m where
    r: "run_steps bitvec_step es (sqlite3BitvecCreate sz plenty) = Ok (Some p, m)" "wf_bitvec p" "in_use m = int (blocks p)"
      "found (Some p) = fold bitvec_effect es (found (fst (sqlite3BitvecCreate sz plenty)))"
    by (auto simp: bitvec_inv_def)
  have "found (fst (sqlite3BitvecCreate sz plenty)) = {}" using new by (simp add: create_spec [OF assms(1)] found_members)
  then have f: "found (Some p) = fold bitvec_effect es {}" using r(4) by (simp only:)
  have "sqlite3BitvecTest (Some p) j = Ok (j \<in> fold bitvec_effect es {})" if "j < 2 ^ 32" for j
    unfolding f [symmetric] found_def using tested [OF r(2) that] that by simp
  then show ?thesis using r(1,3) destroy_blocks [OF r(2), of m] by (auto simp: sqlite3BitvecDestroy_def)
qed

lemma bitvec_is_set_witness:
  "\<exists>p m. run_steps bitvec_step [Set_Bit 7, Set_Bit 131, Clear_Bit 7] (sqlite3BitvecCreate 5000 plenty) = Ok (p, m) \<and>
    sqlite3BitvecTest p 131 = Ok True \<and> sqlite3BitvecTest p 7 = Ok False \<and> in_use (sqlite3BitvecDestroy p m) = 0"
proof -
  have "size_ok 5000" by (simp add: size_ok_def)
  from bitvec_is_set [OF this, of "[Set_Bit 7, Set_Bit 131, Clear_Bit 7]"] show ?thesis by force
qed

text \<open>
  When allocations are refused, setting a number still returns, keeps the vector well-formed and loses no
  block: it reports success exactly added, or \<open>SQLITE_NOMEM\<close>, and then no number appears but the one to
  be set, though numbers that were in the vector may be gone.
\<close>

lemma bitvec_set_refused:
  assumes "wf_bitvec p" "1 \<le> i" "i \<le> sqlite3BitvecSize p"
  shows "\<exists>rc p1 m1. sqlite3BitvecSet (Some p) i m = Ok (rc, Some p1, m1) \<and> wf_bitvec p1 \<and>
    (rc = SQLITE_OK \<and> found (Some p1) = insert i (found (Some p)) \<or> rc = SQLITE_NOMEM \<and> found (Some p1) \<subseteq> insert i (found (Some p))) \<and>
    in_use (sqlite3BitvecDestroy (Some p1) m1) = in_use (sqlite3BitvecDestroy (Some p) m)"
proof -
  have i: "i \<le> iSize p" using assms(3) by (simp add: sqlite3BitvecSize_def)
  obtain rc p1 m1 where r: "set_walk set_fuel p (u32_dec i) m = Ok (rc, p1, m1)" "wf_bitvec p1"
    "rc = SQLITE_OK \<and> members p1 = insert (i - 1) (members p) \<or> rc = SQLITE_NOMEM \<and> members p1 \<subseteq> insert (i - 1) (members p)"
    "in_use m1 - in_use m = int (blocks p1) - int (blocks p)"
    using set_spec [OF assms(1,2) i, of m] unfolding sets_value_def by blast
  have "Suc ` members p1 \<subseteq> insert i (Suc ` members p)" if "members p1 \<subseteq> insert (i - 1) (members p)"
    using image_mono [OF that, of Suc] image_Suc_diff(2) [OF assms(2)] by simp
  then show ?thesis
    using r destroy_blocks [OF assms(1), of m] destroy_blocks [OF r(2), of m1] image_Suc_diff(2) [OF assms(2)]
    by (auto simp: sqlite3BitvecSet_def found_members assms(1) sqlite3BitvecDestroy_def)
qed

lemma bitvec_set_refused_witness:
  "\<exists>rc p1 m1. sqlite3BitvecSet (Some (new_bitvec 100)) 5 (plenty\<lparr>granted := (\<lambda>_. False)\<rparr>) = Ok (rc, Some p1, m1) \<and> wf_bitvec p1"
proof -
  have "size_ok 100" by (simp add: size_ok_def)
  note new = members_new [OF this]
  from bitvec_set_refused [OF new(1), of 5 "plenty\<lparr>granted := (\<lambda>_. False)\<rparr>"] new(3) show ?thesis
    by (auto simp: sqlite3BitvecSize_def)
qed

end
