(* ===== verification/Rowset.thy ===== *)
theory Rowset
  imports Sqlite_Memory "HOL-Library.Tree"
begin

text \<open>
  src/libs/sqlite3.c, the sets of row numbers (\<open>RowSet\<close>): a list that grows at its end, is sorted by
  merging when the first number is taken out, and is turned into search trees when membership is
  tested. The theory shows both uses, taking the numbers out in order and testing by batches.
\<close>

section \<open>Lists of entries\<close>

text \<open>
  Entries linked by \<open>pRight\<close> are the list of their row numbers, NULL is the empty list; every list has one
  owner, so relinking is a change of the list. Trees use the same entries with \<open>pLeft\<close> and \<open>pRight\<close>.
\<close>

fun rowSetEntryMerge :: "int list \<Rightarrow> int list \<Rightarrow> int list outcome" where
  "rowSetEntryMerge (a # as) (b # bs) =
     (if a \<le> b then
        (let taken = (if a < b then [a] else []) in
         if as = [] then Ok (taken @ b # bs)
         else obind (rowSetEntryMerge as (b # bs)) (\<lambda>r. Ok (taken @ r)))
      else
        (if bs = [] then Ok (b # a # as)
         else obind (rowSetEntryMerge (a # as) bs) (\<lambda>r. Ok (b # r))))"
| "rowSetEntryMerge [] bs = UB Null_Deref"
| "rowSetEntryMerge as [] = UB Null_Deref"

text \<open>The sorter has 40 buckets; an entry is merged with the buckets in front of the first empty one.\<close>

definition aBucket :: "int list list" where
  "aBucket = replicate 40 []"

fun add_to_buckets :: "int list \<Rightarrow> int list list \<Rightarrow> int list list outcome" where
  "add_to_buckets pIn [] = UB Buffer_Overread"
| "add_to_buckets pIn (b # bs) =
     (if b = [] then Ok (pIn # bs)
      else obind (rowSetEntryMerge b pIn) (\<lambda>p1. obind (add_to_buckets p1 bs) (\<lambda>bs1. Ok ([] # bs1))))"

fun merge_buckets :: "int list \<Rightarrow> int list list \<Rightarrow> int list outcome" where
  "merge_buckets pIn [] = Ok pIn"
| "merge_buckets pIn (b # bs) =
     (if b = [] then merge_buckets pIn bs
      else if pIn = [] then merge_buckets b bs
      else obind (rowSetEntryMerge pIn b) (\<lambda>p1. merge_buckets p1 bs))"

definition rowSetEntrySort :: "int list \<Rightarrow> int list outcome" where
  "rowSetEntrySort pIn =
     obind (run_steps (\<lambda>v bs. add_to_buckets [v] bs) pIn aBucket)
       (\<lambda>bs. case bs of [] \<Rightarrow> UB Buffer_Overread | b # bs1 \<Rightarrow> merge_buckets b bs1)"

section \<open>Trees of entries\<close>

fun rowSetTreeToList :: "int tree \<Rightarrow> int list" where
  "rowSetTreeToList Leaf = []"
| "rowSetTreeToList (Node l v r) =
     (if l \<noteq> Leaf then rowSetTreeToList l else []) @ v # (if r \<noteq> Leaf then rowSetTreeToList r else [])"

fun rowSetNDeepTree :: "int list \<Rightarrow> nat \<Rightarrow> int tree \<times> int list" where
  "rowSetNDeepTree xs iDepth =
     (case xs of
        [] \<Rightarrow> (Leaf, [])
      | x # rest \<Rightarrow>
          if iDepth > 1 then
            (case rowSetNDeepTree xs (iDepth - 1) of
               (pLeft, []) \<Rightarrow> (pLeft, [])
             | (pLeft, p # xs1) \<Rightarrow>
                 (case rowSetNDeepTree xs1 (iDepth - 1) of (pRight, xs2) \<Rightarrow> (Node pLeft p pRight, xs2)))
          else (Node Leaf x Leaf, rest))"

declare rowSetNDeepTree.simps [simp del]

lemma deep_tree_simps:
  "rowSetNDeepTree [] d = (Leaf, [])"
  "d \<le> 1 \<Longrightarrow> rowSetNDeepTree (x # xs) d = (Node Leaf x Leaf, xs)"
  by (simp_all add: rowSetNDeepTree.simps)

lemma deep_tree_inorder: "rowSetNDeepTree xs d = (t, rest) \<Longrightarrow> xs = inorder t @ rest"
proof (induction xs d arbitrary: t rest rule: rowSetNDeepTree.induct)
  case (1 xs d)
  show ?case
  proof (cases xs)
    case (Cons x ys)
    show ?thesis
    proof (cases "d > 1")
      case True
      obtain l xs1 where l: "rowSetNDeepTree xs (d - 1) = (l, xs1)" by (cases "rowSetNDeepTree xs (d - 1)")
      note IH = "1.IH" [OF Cons True]
      show ?thesis
      proof (cases xs1)
        case Nil
        have "rowSetNDeepTree xs d = (l, [])"
          unfolding rowSetNDeepTree.simps [of xs d] using l Nil True Cons by simp
        then show ?thesis using IH(1) [OF l] Nil "1.prems" by simp
      next
        case c: (Cons p xs2)
        obtain r xs3 where r: "rowSetNDeepTree xs2 (d - 1) = (r, xs3)" by (cases "rowSetNDeepTree xs2 (d - 1)")
        have "rowSetNDeepTree xs d = (Node l p r, xs3)"
          unfolding rowSetNDeepTree.simps [of xs d] using l c r True Cons by simp
        then show ?thesis using IH(1) [OF l] IH(2) [OF l [symmetric] c r] c "1.prems" by auto
      qed
    qed (use Cons "1.prems" in \<open>auto simp: deep_tree_simps\<close>)
  qed (use "1.prems" in \<open>simp add: deep_tree_simps\<close>)
qed

text \<open>The loop of \<open>rowSetListToTree\<close>: \<open>p\<close> is the tree so far.\<close>

function grow_tree :: "nat \<Rightarrow> int tree \<Rightarrow> int list \<Rightarrow> int tree" where
  "grow_tree iDepth p [] = p"
| "grow_tree iDepth p (x # xs) =
     (case rowSetNDeepTree xs iDepth of (pRight, xs1) \<Rightarrow> grow_tree (iDepth + 1) (Node p x pRight) xs1)"
  by pat_completeness auto
termination
  by (relation "measure (\<lambda>(d, p, xs). length xs)") (auto dest!: deep_tree_inorder [OF sym])

definition rowSetListToTree :: "int list \<Rightarrow> int tree outcome" where
  "rowSetListToTree xs = (case xs of [] \<Rightarrow> UB Null_Deref | x # rest \<Rightarrow> Ok (grow_tree 1 (Node Leaf x Leaf) rest))"

section \<open>The row set\<close>

text \<open>
  \<open>pForest\<close> is the list of trees of earlier batches; \<open>chunks\<close> counts the allocated chunks of entries and \<open>nFresh\<close> the entries
  ready in the youngest one. \<open>pLast\<close> holds the value of the entry it points to, the last one
  of \<open>pEntry\<close>. The two bits of \<open>rsFlags\<close> are \<open>rs_sorted\<close> and \<open>rs_next\<close>.
\<close>

record rowset =
  chunks :: nat
  pEntry :: "int list"
  pLast :: "int option"
  pForest :: "int tree list"
  nFresh :: nat
  rs_sorted :: bool
  rs_next :: bool
  iBatch :: int

text \<open>Sizes of a 64-bit build: a row set takes 56 bytes, an entry 24, a chunk 8 and its entries.\<close>

definition ROWSET_ALLOCATION_SIZE :: nat where "ROWSET_ALLOCATION_SIZE = 1024"
definition rowset_bytes :: nat where "rowset_bytes = 56"
definition entry_bytes :: nat where "entry_bytes = 24"
definition ROWSET_ENTRY_PER_CHUNK :: nat where "ROWSET_ENTRY_PER_CHUNK = (ROWSET_ALLOCATION_SIZE - 8) div entry_bytes"

definition sqlite3RowSetInit :: "nat \<Rightarrow> rowset" where
  "sqlite3RowSetInit N =
     \<lparr>chunks = 0, pEntry = [], pLast = None, pForest = [], nFresh = (N - rowset_bytes) div entry_bytes mod 2 ^ 16,
      rs_sorted = True, rs_next = False, iBatch = 0\<rparr>"

type_synonym rowset_state = "rowset \<times> sqlite_memory"

definition sqlite3RowSetClear :: "rowset_state \<Rightarrow> rowset_state" where
  "sqlite3RowSetClear s =
     (case s of (p, m) \<Rightarrow>
        (p\<lparr>chunks := 0, nFresh := 0, pEntry := [], pLast := None, pForest := [], rs_sorted := True, rs_next := False\<rparr>,
         (sqlite3_free ^^ chunks p) m))"

text \<open>Whether there is a new entry.\<close>

definition rowSetEntryAlloc :: "rowset_state \<Rightarrow> bool \<times> rowset_state" where
  "rowSetEntryAlloc s =
     (case s of (p, m) \<Rightarrow>
        if nFresh p = 0 then
          (case sqlite3Malloc m of
             (False, m1) \<Rightarrow> (False, p, m1)
           | (True, m1) \<Rightarrow> (True, p\<lparr>chunks := chunks p + 1, nFresh := ROWSET_ENTRY_PER_CHUNK - 1\<rparr>, m1))
        else (True, p\<lparr>nFresh := nFresh p - 1\<rparr>, m))"

definition sqlite3RowSetInsert :: "int \<Rightarrow> rowset_state \<Rightarrow> rowset_state" where
  "sqlite3RowSetInsert rowid s =
     (case rowSetEntryAlloc s of
        (False, s1) \<Rightarrow> s1
      | (True, p, m) \<Rightarrow>
          (case pLast p of
             Some v \<Rightarrow>
               (p\<lparr>rs_sorted := (if rowid \<le> v then False else rs_sorted p), pEntry := pEntry p @ [rowid], pLast := Some rowid\<rparr>, m)
           | None \<Rightarrow> (p\<lparr>pEntry := [rowid], pLast := Some rowid\<rparr>, m)))"

text \<open>None is the return value 0, \<open>Some v\<close> is 1 with the row number \<open>v\<close>.\<close>

definition sqlite3RowSetNext :: "rowset_state \<Rightarrow> (int option \<times> rowset_state) outcome" where
  "sqlite3RowSetNext s =
     (case s of (p, m) \<Rightarrow>
        obind
          (if \<not> rs_next p then
             obind (if \<not> rs_sorted p then rowSetEntrySort (pEntry p) else Ok (pEntry p))
               (\<lambda>e. Ok (p\<lparr>pEntry := e, rs_sorted := True, rs_next := True\<rparr>))
           else Ok p)
          (\<lambda>p1. case pEntry p1 of
              [] \<Rightarrow> Ok (None, p1, m)
            | v # rest \<Rightarrow>
                Ok (Some v, if rest = [] then sqlite3RowSetClear (p1\<lparr>pEntry := rest\<rparr>, m) else (p1\<lparr>pEntry := rest\<rparr>, m))))"

text \<open>
  The loop over the forest on the first test of a batch: the first empty place takes the entries, the trees
  in front of it are emptied into them. The result tells what could not be placed.
\<close>

fun place_in_forest :: "int list \<Rightarrow> int tree list \<Rightarrow> (int list option \<times> int tree list) outcome" where
  "place_in_forest p [] = Ok (Some p, [])"
| "place_in_forest p (t # ts) =
     (if t = Leaf then obind (rowSetListToTree p) (\<lambda>t1. Ok (None, t1 # ts))
      else obind (rowSetEntryMerge (rowSetTreeToList t) p)
             (\<lambda>p1. obind (place_in_forest p1 ts) (\<lambda>(left, ts1). Ok (left, Leaf # ts1))))"

fun search_tree :: "int \<Rightarrow> int tree \<Rightarrow> bool" where
  "search_tree x Leaf = False"
| "search_tree x (Node l v r) = (if v < x then search_tree x r else if v > x then search_tree x l else True)"

definition new_batch :: "rowset_state \<Rightarrow> rowset_state outcome" where
  "new_batch s =
     (case s of (p, m) \<Rightarrow>
        if pEntry p = [] then Ok (p, m)
        else
          obind (if \<not> rs_sorted p then rowSetEntrySort (pEntry p) else Ok (pEntry p))
            (\<lambda>e. obind (place_in_forest e (pForest p))
               (\<lambda>(left, ts).
                  obind (case left of
                           None \<Rightarrow> Ok (p\<lparr>pForest := ts\<rparr>, m)
                         | Some e1 \<Rightarrow>
                             (case rowSetEntryAlloc (p\<lparr>pForest := ts\<rparr>, m) of
                                (False, s1) \<Rightarrow> Ok s1
                              | (True, p1, m1) \<Rightarrow>
                                  obind (rowSetListToTree e1) (\<lambda>t. Ok (p1\<lparr>pForest := ts @ [t]\<rparr>, m1))))
                    (\<lambda>(p2, m2). Ok (p2\<lparr>pEntry := [], pLast := None, rs_sorted := True\<rparr>, m2)))))"

definition sqlite3RowSetTest :: "int \<Rightarrow> int \<Rightarrow> rowset_state \<Rightarrow> (bool \<times> rowset_state) outcome" where
  "sqlite3RowSetTest batch rowid s =
     obind (if batch \<noteq> iBatch (fst s) then obind (new_batch s) (\<lambda>(p, m). Ok (p\<lparr>iBatch := batch\<rparr>, m)) else Ok s)
       (\<lambda>s1. Ok (\<exists>t \<in> set (pForest (fst s1)). search_tree rowid t, s1))"

section \<open>Merging and sorting\<close>

text \<open>Lists in strictly increasing order stand for sets.\<close>

abbreviation increasing :: "int list \<Rightarrow> bool" where
  "increasing xs \<equiv> sorted_wrt (<) xs"

lemma increasing_eq: "increasing xs \<Longrightarrow> sorted_list_of_set (set xs) = xs"
  by (simp add: strict_sorted_iff sorted_list_of_set.idem_if_sorted_distinct)

lemma merge_correct:
  "as \<noteq> [] \<Longrightarrow> bs \<noteq> [] \<Longrightarrow> increasing as \<Longrightarrow> increasing bs \<Longrightarrow>
   \<exists>r. rowSetEntryMerge as bs = Ok r \<and> increasing r \<and> set r = set as \<union> set bs \<and> r \<noteq> []"
proof (induction as bs rule: rowSetEntryMerge.induct)
  case (1 a as b bs)
  consider "a \<le> b" "as = []" | "a \<le> b" "as \<noteq> []" | "b < a" "bs = []" | "b < a" "bs \<noteq> []" by linarith
  then show ?case
  proof cases
    case 2
    then obtain r where "rowSetEntryMerge as (b # bs) = Ok r" "increasing r" "set r = set as \<union> set (b # bs)"
      using "1.IH"(1) [OF _ refl] "1.prems" by auto
    then show ?thesis using 2 "1.prems" by (auto simp: Let_def)
  next
    case 4
    then obtain r where "rowSetEntryMerge (a # as) bs = Ok r" "increasing r" "set r = set (a # as) \<union> set bs"
      using "1.IH"(2) "1.prems" by auto
    then show ?thesis using 4 "1.prems" by auto
  qed (use "1.prems" in auto)
qed simp_all

text \<open>The full buckets count the entries in binary.\<close>

fun entry_count :: "int list list \<Rightarrow> nat" where
  "entry_count [] = 0"
| "entry_count (b # bs) = (if b = [] then 0 else 1) + 2 * entry_count bs"

lemma buckets_correct:
  "pIn \<noteq> [] \<Longrightarrow> increasing pIn \<Longrightarrow> \<forall>b \<in> set bs. increasing b \<Longrightarrow> Suc (entry_count bs) < 2 ^ length bs \<Longrightarrow>
   \<exists>bs1. add_to_buckets pIn bs = Ok bs1 \<and> (\<forall>b \<in> set bs1. increasing b) \<and> length bs1 = length bs \<and>
     entry_count bs1 = Suc (entry_count bs) \<and> \<Union> (set ` set bs1) = set pIn \<union> \<Union> (set ` set bs)"
proof (induction pIn bs rule: add_to_buckets.induct)
  case (2 pIn b bs)
  show ?case
  proof (cases "b = []")
    case False
    obtain r where r: "rowSetEntryMerge b pIn = Ok r" "increasing r" "set r = set b \<union> set pIn" "r \<noteq> []"
      using merge_correct [OF False "2.prems"(1)] "2.prems"(2,3) by auto
    have "Suc (entry_count bs) < 2 ^ length bs" using "2.prems"(4) False by simp
    then show ?thesis using "2.IH" [OF False, of r] r "2.prems"(3) False by auto
  qed (use "2.prems" in auto)
qed simp

lemma merge_buckets_correct:
  "increasing pIn \<Longrightarrow> \<forall>b \<in> set bs. increasing b \<Longrightarrow>
   \<exists>r. merge_buckets pIn bs = Ok r \<and> increasing r \<and> set r = set pIn \<union> \<Union> (set ` set bs)"
proof (induction pIn bs rule: merge_buckets.induct)
  case (2 pIn b bs)
  show ?case
  proof (cases "b = [] \<or> pIn = []")
    case True
    then show ?thesis using 2 by auto
  next
    case False
    then obtain r where r: "rowSetEntryMerge pIn b = Ok r" "increasing r" "set r = set pIn \<union> set b"
      using merge_correct [of pIn b] "2.prems" by auto
    then show ?thesis using "2.IH"(3) [of r] False "2.prems" by auto
  qed
qed simp

lemma bucket_run:
  "\<forall>b \<in> set bs. increasing b \<Longrightarrow> entry_count bs + length vs < 2 ^ length bs \<Longrightarrow>
   \<exists>bs1. run_steps (\<lambda>v. add_to_buckets [v]) vs bs = Ok bs1 \<and> (\<forall>b \<in> set bs1. increasing b) \<and> length bs1 = length bs \<and>
     \<Union> (set ` set bs1) = set vs \<union> \<Union> (set ` set bs)"
proof (induction vs arbitrary: bs)
  case (Cons v vs)
  obtain bs1 where b: "add_to_buckets [v] bs = Ok bs1" "\<forall>b \<in> set bs1. increasing b" "length bs1 = length bs"
    "entry_count bs1 = Suc (entry_count bs)" "\<Union> (set ` set bs1) = set [v] \<union> \<Union> (set ` set bs)"
    using buckets_correct [of "[v]" bs] Cons.prems by auto
  then show ?case using Cons.IH [of bs1] Cons.prems(2) by auto
qed simp

lemma entry_count_empty: "entry_count (replicate n []) = 0"
  by (induction n) simp_all

lemma sort_correct:
  assumes "length vs < 2 ^ 40"
  shows "rowSetEntrySort vs = Ok (sorted_list_of_set (set vs))"
proof -
  obtain bs where b: "run_steps (\<lambda>v. add_to_buckets [v]) vs aBucket = Ok bs" "\<forall>b \<in> set bs. increasing b" "length bs = 40"
    "\<Union> (set ` set bs) = set vs"
    using bucket_run [of aBucket vs] assms by (auto simp: aBucket_def entry_count_empty)
  obtain b0 bs1 where bs: "bs = b0 # bs1" using b(3) by (cases bs) auto
  obtain r where "merge_buckets b0 bs1 = Ok r" "increasing r" "set r = set vs"
    using merge_buckets_correct [of b0 bs1] b(2,4) bs by auto
  then show ?thesis using b(1) bs increasing_eq [of r] by (simp add: rowSetEntrySort_def)
qed

section \<open>Trees\<close>

lemma tree_to_list: "rowSetTreeToList t = inorder t"
  by (induction t) auto

lemma search_correct: "increasing (inorder t) \<Longrightarrow> search_tree x t \<longleftrightarrow> x \<in> set_tree t"
proof (induction t)
  case (Node l v r)
  then show ?case by (auto simp: sorted_wrt_append dest: order.strict_trans)
qed simp

lemma grow_tree_inorder: "inorder (grow_tree d p xs) = inorder p @ xs"
proof (induction d p xs rule: grow_tree.induct)
  case (2 d p x xs)
  obtain r xs1 where r: "rowSetNDeepTree xs d = (r, xs1)" by (cases "rowSetNDeepTree xs d")
  then show ?case using "2.IH" [OF r [symmetric]] deep_tree_inorder [OF r] by simp
qed simp

lemma list_to_tree: "xs \<noteq> [] \<Longrightarrow> \<exists>t. rowSetListToTree xs = Ok t \<and> inorder t = xs \<and> t \<noteq> Leaf"
proof (cases xs)
  case (Cons x rest)
  have "inorder (grow_tree 1 (Node Leaf x Leaf) rest) = xs" using Cons by (simp add: grow_tree_inorder)
  moreover from this have "grow_tree 1 (Node Leaf x Leaf) rest \<noteq> Leaf" using Cons by auto
  ultimately show ?thesis using Cons by (simp add: rowSetListToTree_def)
qed simp

text \<open>A tree that leaves entries over is full.\<close>

lemma deep_tree_full:
  "rowSetNDeepTree xs d = (t, rest) \<Longrightarrow> 1 \<le> d \<Longrightarrow> height t \<le> d \<and> (rest \<noteq> [] \<longrightarrow> Suc (size t) = 2 ^ d)"
proof (induction xs d arbitrary: t rest rule: rowSetNDeepTree.induct)
  case (1 xs d)
  show ?case
  proof (cases xs)
    case (Cons x ys)
    show ?thesis
    proof (cases "d > 1")
      case True
      then obtain k where k: "d = Suc k" "1 \<le> k" by (cases d) auto
      obtain l xs1 where l: "rowSetNDeepTree xs (d - 1) = (l, xs1)" by (cases "rowSetNDeepTree xs (d - 1)")
      note IH = "1.IH" [OF Cons True]
      show ?thesis
      proof (cases xs1)
        case Nil
        have "rowSetNDeepTree xs d = (l, [])"
          unfolding rowSetNDeepTree.simps [of xs d] using l Nil True Cons by simp
        then show ?thesis using IH(1) [OF l] Nil "1.prems" k by auto
      next
        case c: (Cons p xs2)
        obtain r xs3 where r: "rowSetNDeepTree xs2 (d - 1) = (r, xs3)" by (cases "rowSetNDeepTree xs2 (d - 1)")
        have "rowSetNDeepTree xs d = (Node l p r, xs3)"
          unfolding rowSetNDeepTree.simps [of xs d] using l c r True Cons by simp
        then show ?thesis using IH(1) [OF l] IH(2) [OF l [symmetric] c r] c "1.prems" k by auto
      qed
    next
      case False
      then show ?thesis using Cons "1.prems" by (auto simp: deep_tree_simps)
    qed
  qed (use "1.prems" in \<open>auto simp: deep_tree_simps\<close>)
qed

lemma grow_tree_balanced:
  "1 \<le> d \<Longrightarrow> height p \<le> d \<Longrightarrow> Suc (size p) = 2 ^ d \<Longrightarrow>
   2 ^ (height (grow_tree d p xs) - 1) \<le> size (grow_tree d p xs)"
proof (induction d p xs rule: grow_tree.induct)
  case (1 d p)
  have "(2 :: nat) ^ (height p - 1) \<le> 2 ^ (d - 1)" using "1.prems" by (intro power_increasing) auto
  moreover have "(2 :: nat) ^ (d - 1) < 2 ^ d" using "1.prems"(1) by (intro power_strict_increasing) auto
  ultimately show ?case using "1.prems"(3) by (simp only: grow_tree.simps)
next
  case (2 d p x xs)
  obtain r xs1 where r: "rowSetNDeepTree xs d = (r, xs1)" by (cases "rowSetNDeepTree xs d")
  note full = deep_tree_full [OF r "2.prems"(1)]
  show ?case
  proof (cases xs1)
    case Nil
    have "(2 :: nat) ^ (max (height p) (height r)) \<le> 2 ^ d" using "2.prems"(2) full by (intro power_increasing) auto
    then have "(2 :: nat) ^ (max (height p) (height r)) \<le> Suc (size p + size r)" using "2.prems"(3) by linarith
    then show ?thesis using r Nil by simp
  next
    case (Cons y ys)
    then have "Suc (size (Node p x r)) = 2 ^ (d + 1)" "height (Node p x r) \<le> d + 1" using full "2.prems" by auto
    then show ?thesis using "2.IH" [OF r [symmetric]] r by simp
  qed
qed

section \<open>States of a row set\<close>

definition forest_values :: "rowset \<Rightarrow> int set" where
  "forest_values p = \<Union> (set_tree ` set (pForest p))"

definition rowset_ok :: "nat \<Rightarrow> int \<Rightarrow> rowset_state \<Rightarrow> bool" where
  "rowset_ok n base s \<longleftrightarrow> (case s of (p, m) \<Rightarrow>
     (\<forall>t \<in> set (pForest p). increasing (inorder t)) \<and> (rs_sorted p \<longrightarrow> increasing (pEntry p)) \<and> length (pEntry p) \<le> n \<and>
     pLast p = (if pEntry p = [] then None else Some (last (pEntry p))) \<and> \<not> rs_next p \<and> in_use m = base + int (chunks p))"

lemma alloc_cases:
  obtains (entry) c k m1 where "rowSetEntryAlloc (p, m) = (True, p\<lparr>chunks := c, nFresh := k\<rparr>, m1)"
      "in_use m1 - int c = in_use m - int (chunks p)" "granted m1 = granted m"
  | (refused) m1 where "rowSetEntryAlloc (p, m) = (False, p, m1)" "in_use m1 = in_use m" "granted m1 = granted m" "granted m \<noteq> (\<lambda>_. True)"
proof (cases "nFresh p = 0")
  case True
  show ?thesis
  proof (cases m rule: malloc_cases)
    case (granted m1)
    then show ?thesis using True
      by (intro that(1) [of "ROWSET_ENTRY_PER_CHUNK - 1" "chunks p + 1" m1]) (simp_all add: rowSetEntryAlloc_def)
  next
    case (refused m1)
    then show ?thesis using True by (intro that(2) [of m1]) (simp_all add: rowSetEntryAlloc_def)
  qed
next
  case False
  then show ?thesis by (intro that(1) [of "nFresh p - 1" "chunks p" m]) (simp_all add: rowSetEntryAlloc_def)
qed

lemma increasing_snoc: "increasing xs \<Longrightarrow> last xs < v \<Longrightarrow> xs \<noteq> [] \<Longrightarrow> increasing (xs @ [v])"
  by (cases xs rule: rev_cases) (auto simp: sorted_wrt_append)

lemma insert_spec:
  assumes "rowset_ok n base (p, m)"
  shows "\<exists>p1 m1. sqlite3RowSetInsert v (p, m) = (p1, m1) \<and> rowset_ok (Suc n) base (p1, m1) \<and> pForest p1 = pForest p \<and>
    iBatch p1 = iBatch p \<and> granted m1 = granted m \<and>
    (pEntry p1 = pEntry p @ [v] \<or> pEntry p1 = pEntry p \<and> granted m \<noteq> (\<lambda>_. True))"
proof (cases p m rule: alloc_cases)
  case (entry c k m1)
  then show ?thesis using assms
    by (cases "pEntry p = []")
      (auto simp: sqlite3RowSetInsert_def rowset_ok_def increasing_snoc split: if_splits)
next
  case (refused m1)
  then show ?thesis using assms by (auto simp: sqlite3RowSetInsert_def rowset_ok_def)
qed

text \<open>Inserting a list of numbers: those for which memory was found are in the list, in order.\<close>

lemma inserts_spec:
  assumes "rowset_ok n base (p, m)"
  shows "\<exists>p1 m1 acc. fold sqlite3RowSetInsert vs (p, m) = (p1, m1) \<and> rowset_ok (n + length vs) base (p1, m1) \<and>
    pForest p1 = pForest p \<and> pEntry p1 = pEntry p @ acc \<and> subseq acc vs \<and> (granted m = (\<lambda>_. True) \<longrightarrow> acc = vs)"
  using assms
proof (induction vs arbitrary: n p m)
  case (Cons v vs)
  obtain p1 m1 where i: "sqlite3RowSetInsert v (p, m) = (p1, m1)" "rowset_ok (Suc n) base (p1, m1)" "pForest p1 = pForest p"
    "granted m1 = granted m" "pEntry p1 = pEntry p @ [v] \<or> pEntry p1 = pEntry p \<and> granted m \<noteq> (\<lambda>_. True)"
    using insert_spec [OF Cons.prems, of v] by auto
  obtain p2 m2 acc where r: "fold sqlite3RowSetInsert vs (p1, m1) = (p2, m2)" "rowset_ok (Suc n + length vs) base (p2, m2)"
    "pForest p2 = pForest p1" "pEntry p2 = pEntry p1 @ acc" "subseq acc vs" "granted m1 = (\<lambda>_. True) \<longrightarrow> acc = vs"
    using Cons.IH [OF i(2)] by blast
  have f: "fold sqlite3RowSetInsert (v # vs) (p, m) = (p2, m2)" using i(1) r(1) by simp
  have ok: "rowset_ok (n + length (v # vs)) base (p2, m2)" using r(2) by simp
  show ?case
  proof (cases "pEntry p1 = pEntry p @ [v]")
    case True
    then show ?thesis using f ok r i by (intro exI [of _ p2] exI [of _ m2] exI [of _ "v # acc"]) auto
  next
    case False
    then show ?thesis using f ok r i by (intro exI [of _ p2] exI [of _ m2] exI [of _ acc]) auto
  qed
qed auto

lemma free_chunks: "in_use ((sqlite3_free ^^ k) m) = in_use m - int k"
  by (induction k) (simp_all add: sqlite3_free_def)

section \<open>Taking the numbers out\<close>

text \<open>A client's loop that takes numbers out until there is none, for at most the given number of calls.\<close>

fun drain :: "nat \<Rightarrow> rowset_state \<Rightarrow> (int list \<times> rowset_state) outcome" where
  "drain 0 s = Ok ([], s)"
| "drain (Suc k) s =
     obind (sqlite3RowSetNext s)
       (\<lambda>(r, s1). case r of None \<Rightarrow> Ok ([], s1) | Some v \<Rightarrow> obind (drain k s1) (\<lambda>(vs, s2). Ok (v # vs, s2)))"

text \<open>A row set whose entries are in order.\<close>

lemma drain_sorted:
  "rs_next p \<or> rs_sorted p \<Longrightarrow> length (pEntry p) < k \<Longrightarrow>
   \<exists>s. drain k (p, m) = Ok (pEntry p, s) \<and> in_use (snd (sqlite3RowSetClear s)) = in_use m - int (chunks p)"
proof (induction k arbitrary: p m)
  case (Suc k)
  let ?p = "p\<lparr>rs_sorted := True, rs_next := True\<rparr>"
  have p1: "(if \<not> rs_next p then obind (if \<not> rs_sorted p then rowSetEntrySort (pEntry p) else Ok (pEntry p))
                (\<lambda>e. Ok (p\<lparr>pEntry := e, rs_sorted := True, rs_next := True\<rparr>)) else Ok p) = Ok (if rs_next p then p else ?p)"
    using Suc.prems(1) by auto
  show ?case
  proof (cases "pEntry p")
    case Nil
    then show ?thesis using p1 by (simp add: sqlite3RowSetNext_def sqlite3RowSetClear_def free_chunks)
  next
    case (Cons v rest)
    let ?q = "(if rs_next p then p else ?p)\<lparr>pEntry := rest\<rparr>"
    have n: "sqlite3RowSetNext (p, m) = Ok (Some v, if rest = [] then sqlite3RowSetClear (?q, m) else (?q, m))"
      using p1 Cons by (simp add: sqlite3RowSetNext_def)
    show ?thesis
    proof (cases "rest = []")
      case True
      obtain j where "k = Suc j" using Suc.prems(2) Cons by (cases k) auto
      then show ?thesis using n True Cons
        by (auto simp: sqlite3RowSetClear_def sqlite3RowSetNext_def free_chunks)
    next
      case False
      have "rs_next ?q" "pEntry ?q = rest" "chunks ?q = chunks p" by auto
      then show ?thesis using Suc.IH [of ?q m] n False Cons Suc.prems(2) by auto
    qed
  qed
qed simp

lemma drain_unsorted:
  assumes "\<not> rs_next p" "\<not> rs_sorted p" "rowSetEntrySort (pEntry p) = Ok e"
  shows "drain (Suc k) (p, m) = drain (Suc k) (p\<lparr>pEntry := e, rs_sorted := True\<rparr>, m)"
  using assms by (simp add: sqlite3RowSetNext_def)

lemma drain_spec:
  assumes "rowset_ok n base (p, m)" "length (pEntry p) < 2 ^ 40" "length (pEntry p) \<le> k"
  shows "\<exists>s. drain (Suc k) (p, m) = Ok (sorted_list_of_set (set (pEntry p)), s) \<and> in_use (snd (sqlite3RowSetClear s)) = base"
proof -
  have p: "\<not> rs_next p" "in_use m = base + int (chunks p)" "rs_sorted p \<longrightarrow> increasing (pEntry p)"
    using assms(1) by (simp_all add: rowset_ok_def)
  show ?thesis
  proof (cases "rs_sorted p")
    case True
    then show ?thesis using drain_sorted [of p "Suc k" m] p assms(3) increasing_eq [of "pEntry p"] by simp
  next
    case False
    let ?e = "sorted_list_of_set (set (pEntry p))" let ?p = "p\<lparr>pEntry := ?e, rs_sorted := True\<rparr>"
    have "length ?e \<le> k" using card_length [of "pEntry p"] assms(3) by simp
    then show ?thesis
      using drain_unsorted [OF p(1) False sort_correct [OF assms(2)], of k m] drain_sorted [of ?p "Suc k" m] p(2) by simp
  qed
qed

lemma init_ok: "rowset_ok 0 (in_use m) (sqlite3RowSetInit N, m)"
  by (simp add: rowset_ok_def sqlite3RowSetInit_def)

lemma init_empty: "pEntry (sqlite3RowSetInit N) = []" "pForest (sqlite3RowSetInit N) = []"
  by (simp_all add: sqlite3RowSetInit_def)

text \<open>
  C22. Whatever numbers are inserted and however many allocations are refused meanwhile: taking numbers out
  yields each inserted number for which there was memory exactly once, in increasing order, then zero; no
  memory is left in use. If no allocation is refused, these are all numbers inserted.
\<close>

theorem rowset_drains_sorted:
  assumes "length vs < 2 ^ 40"
  shows "\<exists>acc s. drain (Suc (length vs)) (fold sqlite3RowSetInsert vs (sqlite3RowSetInit N, m)) = Ok (sorted_list_of_set (set acc), s) \<and>
    subseq acc vs \<and> (granted m = (\<lambda>_. True) \<longrightarrow> acc = vs) \<and> in_use (snd (sqlite3RowSetClear s)) = in_use m"
proof -
  obtain p1 m1 acc where i: "fold sqlite3RowSetInsert vs (sqlite3RowSetInit N, m) = (p1, m1)"
    "rowset_ok (length vs) (in_use m) (p1, m1)" "pEntry p1 = acc" "subseq acc vs" "granted m = (\<lambda>_. True) \<longrightarrow> acc = vs"
    using inserts_spec [OF init_ok [of m N], of vs] by (auto simp: init_empty)
  have "length acc \<le> length vs" using i(4) by (rule list_emb_length)
  then show ?thesis using drain_spec [OF i(2), of "length vs"] i assms by auto
qed

lemma rowset_drains_sorted_witness:
  "\<exists>s. drain 5 (fold sqlite3RowSetInsert [30, 7, 30, - 2] (sqlite3RowSetInit 200, plenty)) = Ok ([- 2, 7, 30], s)"
proof -
  have "set [30, 7, 30, - 2] = set [- 2, 7, 30 :: int]" by auto
  then have "sorted_list_of_set (set [30, 7, 30, - 2]) = [- 2, 7, 30 :: int]" by (simp only: increasing_eq) simp
  moreover have "granted plenty = (\<lambda>_. True)" by (simp add: plenty_def)
  moreover have "length [30, 7, 30, - 2 :: int] < 2 ^ 40" "5 = Suc (length [30, 7, 30, - 2 :: int])" by simp_all
  ultimately show ?thesis using rowset_drains_sorted [of "[30, 7, 30, - 2]" 200 plenty] by metis
qed

section \<open>Testing by batches\<close>

datatype rowset_op = Row_Insert int | Row_Test int int

text \<open>A row set with the answers given so far.\<close>

fun rowset_step :: "rowset_op \<Rightarrow> rowset_state \<times> bool list \<Rightarrow> (rowset_state \<times> bool list) outcome" where
  "rowset_step (Row_Insert v) (s, out) = Ok (sqlite3RowSetInsert v s, out)"
| "rowset_step (Row_Test batch v) (s, out) = obind (sqlite3RowSetTest batch v s) (\<lambda>(r, s1). Ok (s1, out @ [r]))"

text \<open>What is promised: a test sees what was inserted before the last change of the batch number.\<close>

record batches =
  current :: int
  seen :: "int set"
  pending :: "int set"
  answers :: "bool list"

fun batch_effect :: "rowset_op \<Rightarrow> batches \<Rightarrow> batches" where
  "batch_effect (Row_Insert v) b = b\<lparr>pending := insert v (pending b)\<rparr>"
| "batch_effect (Row_Test batch v) b =
     (let b1 = (if batch = current b then b else b\<lparr>current := batch, seen := seen b \<union> pending b, pending := {}\<rparr>)
      in b1\<lparr>answers := answers b1 @ [v \<in> seen b1]\<rparr>)"

definition batch_view :: "rowset_state \<times> bool list \<Rightarrow> batches" where
  "batch_view s =
     \<lparr>current = iBatch (fst (fst s)), seen = forest_values (fst (fst s)), pending = set (pEntry (fst (fst s))), answers = snd s\<rparr>"

lemma place_correct:
  "p \<noteq> [] \<Longrightarrow> increasing p \<Longrightarrow> \<forall>t \<in> set ts. increasing (inorder t) \<Longrightarrow>
   \<exists>left ts1. place_in_forest p ts = Ok (left, ts1) \<and> (\<forall>t \<in> set ts1. increasing (inorder t)) \<and>
     (case left of None \<Rightarrow> \<Union> (set_tree ` set ts1) = set p \<union> \<Union> (set_tree ` set ts)
      | Some e \<Rightarrow> e \<noteq> [] \<and> increasing e \<and> set e \<union> \<Union> (set_tree ` set ts1) = set p \<union> \<Union> (set_tree ` set ts))"
proof (induction p ts rule: place_in_forest.induct)
  case (2 p t ts)
  show ?case
  proof (cases "t = Leaf")
    case True
    obtain t1 where "rowSetListToTree p = Ok t1" "inorder t1 = p" using list_to_tree [OF "2.prems"(1)] by auto
    then show ?thesis using True "2.prems" by (auto simp flip: set_inorder)
  next
    case False
    have "inorder t \<noteq> []" "increasing (inorder t)" using False "2.prems"(3) by auto
    then obtain r where r: "rowSetEntryMerge (inorder t) p = Ok r" "increasing r" "set r = set_tree t \<union> set p" "r \<noteq> []"
      using merge_correct [of "inorder t" p] "2.prems"(1,2) by auto
    obtain left ts1 where l: "place_in_forest r ts = Ok (left, ts1)" "\<forall>t \<in> set ts1. increasing (inorder t)"
      "case left of None \<Rightarrow> \<Union> (set_tree ` set ts1) = set r \<union> \<Union> (set_tree ` set ts)
       | Some e \<Rightarrow> e \<noteq> [] \<and> increasing e \<and> set e \<union> \<Union> (set_tree ` set ts1) = set r \<union> \<Union> (set_tree ` set ts)"
      using "2.IH" [OF False, of r] r "2.prems"(3) by auto
    have "place_in_forest p (t # ts) = Ok (left, Leaf # ts1)" using False r(1) l(1) by (simp add: tree_to_list)
    then show ?thesis using l(2,3) r(3) by (intro exI [of _ left] exI [of _ "Leaf # ts1"]) (auto split: option.splits)
  qed
qed simp

lemma new_batch_spec:
  assumes "rowset_ok n base (p, m)" "length (pEntry p) < 2 ^ 40" "granted m = (\<lambda>_. True)"
  shows "\<exists>p1 m1. new_batch (p, m) = Ok (p1, m1) \<and> rowset_ok 0 base (p1, m1) \<and> granted m1 = granted m \<and>
    forest_values p1 = forest_values p \<union> set (pEntry p) \<and> pEntry p1 = []"
proof (cases "pEntry p = []")
  case True
  then show ?thesis using assms by (auto simp: new_batch_def rowset_ok_def)
next
  case False
  have p: "\<not> rs_next p" "in_use m = base + int (chunks p)" "rs_sorted p \<longrightarrow> increasing (pEntry p)"
    "\<forall>t \<in> set (pForest p). increasing (inorder t)" using assms(1) by (simp_all add: rowset_ok_def)
  obtain e where e: "(if \<not> rs_sorted p then rowSetEntrySort (pEntry p) else Ok (pEntry p)) = Ok e"
    "increasing e" "set e = set (pEntry p)" "e \<noteq> []"
    using sort_correct [OF assms(2)] p(3) False by (cases "rs_sorted p") auto
  obtain left ts where l: "place_in_forest e (pForest p) = Ok (left, ts)" "\<forall>t \<in> set ts. increasing (inorder t)"
    "case left of None \<Rightarrow> \<Union> (set_tree ` set ts) = set e \<union> \<Union> (set_tree ` set (pForest p))
     | Some f \<Rightarrow> f \<noteq> [] \<and> increasing f \<and> set f \<union> \<Union> (set_tree ` set ts) = set e \<union> \<Union> (set_tree ` set (pForest p))"
    using place_correct [OF e(4,2) p(4)] by blast
  show ?thesis
  proof (cases left)
    case None
    then show ?thesis using False e l p assms(3) by (auto simp: new_batch_def rowset_ok_def forest_values_def)
  next
    case (Some f)
    then obtain t where t: "rowSetListToTree f = Ok t" "inorder t = f" "set_tree t = set f"
      using list_to_tree [of f] l(3) by (auto simp flip: set_inorder)
    show ?thesis
    proof (cases "p\<lparr>pForest := ts\<rparr>" m rule: alloc_cases)
      case (entry c k m1)
      then show ?thesis using False e l p assms(3) Some t by (auto simp: new_batch_def rowset_ok_def forest_values_def)
    next
      case (refused m1)
      then show ?thesis using assms(3) by simp
    qed
  qed
qed

lemma search_forest:
  "rowset_ok n base (p, m) \<Longrightarrow> (\<exists>t \<in> set (pForest p). search_tree v t) \<longleftrightarrow> v \<in> forest_values p"
  by (auto simp: rowset_ok_def forest_values_def search_correct)

lemma rowset_step_spec:
  assumes "rowset_ok n base (p, m)" "n < 2 ^ 40" "granted m = (\<lambda>_. True)"
  shows "\<exists>p1 m1 out1. rowset_step e ((p, m), out) = Ok ((p1, m1), out1) \<and> rowset_ok (Suc n) base (p1, m1) \<and>
    granted m1 = granted m \<and> batch_view ((p1, m1), out1) = batch_effect e (batch_view ((p, m), out))"
proof (cases e)
  case (Row_Insert v)
  then show ?thesis using insert_spec [OF assms(1), of v] assms(3)
    by (auto simp: batch_view_def forest_values_def)
next
  case (Row_Test batch v)
  show ?thesis
  proof (cases "batch = iBatch p")
    case True
    then show ?thesis using Row_Test assms search_forest [OF assms(1), of v]
      by (auto simp: sqlite3RowSetTest_def batch_view_def rowset_ok_def)
  next
    case False
    have "length (pEntry p) < 2 ^ 40" using assms(1,2) by (simp add: rowset_ok_def)
    then obtain p1 m1 where n: "new_batch (p, m) = Ok (p1, m1)" "rowset_ok 0 base (p1, m1)" "granted m1 = granted m"
      "forest_values p1 = forest_values p \<union> set (pEntry p)" "pEntry p1 = []"
      using new_batch_spec [OF assms(1) _ assms(3)] by auto
    have ok: "rowset_ok (Suc n) base (p1\<lparr>iBatch := batch\<rparr>, m1)" using n(2) by (simp add: rowset_ok_def)
    have f: "forest_values (p1\<lparr>iBatch := batch\<rparr>) = forest_values p1" by (simp add: forest_values_def)
    have "sqlite3RowSetTest batch v (p, m) = Ok (v \<in> forest_values p1, p1\<lparr>iBatch := batch\<rparr>, m1)"
      using False n(1) search_forest [OF n(2), of v] by (simp add: sqlite3RowSetTest_def)
    then show ?thesis using Row_Test False ok n f by (simp add: batch_view_def)
  qed
qed

text \<open>
  C21. For every sequence of insertions and tests: each test answers whether the number was inserted before the
  batch number last changed, and clearing the row set at the end gives back all memory.
\<close>

theorem rowset_tests_batches:
  assumes "length es < 2 ^ 40"
  shows "\<exists>s out. run_steps rowset_step es ((sqlite3RowSetInit N, plenty), []) = Ok (s, out) \<and>
    out = answers (fold batch_effect es \<lparr>current = 0, seen = {}, pending = {}, answers = []\<rparr>) \<and>
    in_use (snd (sqlite3RowSetClear s)) = 0"
proof -
  have run: "\<exists>p1 m1 out1. run_steps rowset_step es ((p, m), out) = Ok ((p1, m1), out1) \<and> rowset_ok (n + length es) base (p1, m1) \<and>
      batch_view ((p1, m1), out1) = fold batch_effect es (batch_view ((p, m), out))"
    if "rowset_ok n base (p, m)" "n + length es < 2 ^ 40" "granted m = (\<lambda>_. True)" for n base p m out es
    using that
  proof (induction es arbitrary: n p m out)
    case (Cons e es)
    obtain p1 m1 out1 where "rowset_step e ((p, m), out) = Ok ((p1, m1), out1)" "rowset_ok (Suc n) base (p1, m1)"
      "granted m1 = granted m" "batch_view ((p1, m1), out1) = batch_effect e (batch_view ((p, m), out))"
      using rowset_step_spec [OF Cons.prems(1) _ Cons.prems(3), of e out] Cons.prems(2) by auto
    then show ?case using Cons.IH [of "Suc n" p1 m1 out1] Cons.prems(2,3) by simp
  qed auto
  have "batch_view ((sqlite3RowSetInit N, plenty), []) = \<lparr>current = 0, seen = {}, pending = {}, answers = []\<rparr>"
    by (simp add: batch_view_def sqlite3RowSetInit_def forest_values_def)
  with run [OF init_ok, of es plenty N "[]"] assms obtain p m out where
    r: "run_steps rowset_step es ((sqlite3RowSetInit N, plenty), []) = Ok ((p, m), out)" "rowset_ok (length es) 0 (p, m)"
      "batch_view ((p, m), out) = fold batch_effect es \<lparr>current = 0, seen = {}, pending = {}, answers = []\<rparr>"
    by (auto simp: plenty_def)
  have "out = answers (batch_view ((p, m), out))" by (simp add: batch_view_def)
  then show ?thesis using r by (auto simp: rowset_ok_def sqlite3RowSetClear_def free_chunks)
qed

lemma rowset_tests_batches_witness:
  "\<exists>s. run_steps rowset_step [Row_Insert 5, Row_Test 0 5, Row_Test 1 5, Row_Insert 9, Row_Test 1 9]
     ((sqlite3RowSetInit 80, plenty), []) = Ok (s, [False, True, False])"
  using rowset_tests_batches [of "[Row_Insert 5, Row_Test 0 5, Row_Test 1 5, Row_Insert 9, Row_Test 1 9]" 80]
  by (auto simp: Let_def)

text \<open>
  The trees that are searched hold the entries of the list in its order and are balanced: a search tree of
  height \<open>h\<close> has at least \<open>2 ^ (h - 1)\<close> entries.
\<close>

lemma rowset_trees_balanced:
  assumes "xs \<noteq> []"
  shows "\<exists>t. rowSetListToTree xs = Ok t \<and> rowSetTreeToList t = xs \<and> 2 ^ (height t - 1) \<le> length xs"
proof -
  obtain x rest where xs: "xs = x # rest" using assms by (cases xs) auto
  let ?t = "grow_tree 1 (Node Leaf x Leaf) rest"
  have "inorder ?t = xs" by (simp add: grow_tree_inorder xs)
  moreover have "2 ^ (height ?t - 1) \<le> size ?t" by (rule grow_tree_balanced) auto
  moreover have "size ?t = length (inorder ?t)" by simp
  ultimately show ?thesis using xs by (simp add: rowSetListToTree_def tree_to_list del: length_inorder)
qed

lemma rowset_trees_balanced_witness:
  "\<exists>t. rowSetListToTree [1, 2, 3, 4, 5] = Ok t \<and> 2 ^ (height t - 1) \<le> (5 :: nat)"
  using rowset_trees_balanced [of "[1, 2, 3, 4, 5]"] by auto

end
