(* ===== verification/Int64.thy ===== *)
theory Int64
  imports Prelude "HOL-Library.Signed_Division"
begin

text \<open>
  src/libs/sqlite3.c, addition, subtraction and multiplication of 64-bit signed integers with a check for
  overflow, in the portable form the file has beside the compiler's built-in functions. Every intermediate
  result is checked too: signed overflow is undefined behaviour.
\<close>

section \<open>Operations\<close>

definition LARGEST_INT64 :: int where "LARGEST_INT64 = 0xffffffff + 0x7fffffff * 2 ^ 32"
definition SMALLEST_INT64 :: int where "SMALLEST_INT64 = - 1 - LARGEST_INT64"

definition fits64 :: "int \<Rightarrow> bool" where
  "fits64 x \<longleftrightarrow> SMALLEST_INT64 \<le> x \<and> x \<le> LARGEST_INT64"

text \<open>The result of an operation on the type \<open>i64\<close>; \<open>over\<close> joins a test that may overflow.\<close>

definition i64 :: "int \<Rightarrow> int outcome" where
  "i64 x = (if fits64 x then Ok x else UB Signed_Overflow)"

text \<open>The functions return whether the operation overflows, and the new value of \<open>*pA\<close>.\<close>

definition sqlite3AddInt64 :: "int \<Rightarrow> int \<Rightarrow> (bool \<times> int) outcome" where
  "sqlite3AddInt64 iA iB =
     obind
       (if iB \<ge> 0 then
          (if iA > 0 then obind (i64 (LARGEST_INT64 - iA)) (\<lambda>d. Ok (d < iB)) else Ok False)
        else
          (if iA < 0 then
             obind (i64 (iA + LARGEST_INT64)) (\<lambda>d. obind (i64 (- d)) (\<lambda>n. obind (i64 (iB + 1)) (\<lambda>b. Ok (n > b))))
           else Ok False))
       (\<lambda>over. if over then Ok (True, iA) else obind (i64 (iA + iB)) (\<lambda>r. Ok (False, r)))"

definition sqlite3SubInt64 :: "int \<Rightarrow> int \<Rightarrow> (bool \<times> int) outcome" where
  "sqlite3SubInt64 iA iB =
     (if iB = SMALLEST_INT64 then
        (if iA \<ge> 0 then Ok (True, iA) else obind (i64 (iA - iB)) (\<lambda>r. Ok (False, r)))
      else obind (i64 (- iB)) (\<lambda>n. sqlite3AddInt64 iA n))"

definition sqlite3MulInt64 :: "int \<Rightarrow> int \<Rightarrow> (bool \<times> int) outcome" where
  "sqlite3MulInt64 iA iB =
     obind
       (if iB > 0 then
          (if iA > LARGEST_INT64 sdiv iB then Ok True else Ok (iA < SMALLEST_INT64 sdiv iB))
        else if iB < 0 then
          (if iA > 0 then Ok (iB < SMALLEST_INT64 sdiv iA)
           else if iA < 0 then
             (if iB = SMALLEST_INT64 then Ok True
              else if iA = SMALLEST_INT64 then Ok True
              else obind (i64 (- iA)) (\<lambda>a. obind (i64 (- iB)) (\<lambda>b. Ok (a > LARGEST_INT64 sdiv b))))
           else Ok False)
        else Ok False)
       (\<lambda>over. if over then Ok (True, iA) else obind (i64 (iA * iB)) (\<lambda>r. Ok (False, r)))"

definition sqlite3AbsInt32 :: "int \<Rightarrow> int outcome" where
  "sqlite3AbsInt32 x =
     (if x \<ge> 0 then Ok x
      else if x = - (2 ^ 31) then Ok 0x7fffffff
      else if - x < 2 ^ 31 then Ok (- x) else UB Signed_Overflow)"

section \<open>Exactness\<close>

lemma limits: "LARGEST_INT64 = 2 ^ 63 - 1" "SMALLEST_INT64 = - (2 ^ 63)"
  by (simp_all add: LARGEST_INT64_def SMALLEST_INT64_def)

text \<open>What each function promises.\<close>

definition checked :: "int \<Rightarrow> int \<Rightarrow> (bool \<times> int) outcome" where
  "checked iA r = Ok (if fits64 r then (False, r) else (True, iA))"

lemma add_exact: "fits64 a \<Longrightarrow> fits64 b \<Longrightarrow> sqlite3AddInt64 a b = checked a (a + b)"
  by (auto simp: sqlite3AddInt64_def checked_def i64_def fits64_def limits)

lemma sub_exact: "fits64 a \<Longrightarrow> fits64 b \<Longrightarrow> sqlite3SubInt64 a b = checked a (a - b)"
proof (cases "b = SMALLEST_INT64")
  case False
  assume a: "fits64 a" "fits64 b"
  then have n: "fits64 (- b)" using False by (simp add: fits64_def limits)
  then show ?thesis using add_exact [OF a(1) n] False by (simp add: sqlite3SubInt64_def i64_def)
qed (auto simp: sqlite3SubInt64_def checked_def i64_def fits64_def limits)

lemma le_div: "0 < d \<Longrightarrow> k \<le> i div d \<longleftrightarrow> k * d \<le> i" for d :: int
proof
  assume d: "0 < d" and k: "k \<le> i div d"
  have "k * d \<le> i div d * d" using d k by (intro mult_right_mono) auto
  also have "\<dots> \<le> i" using pos_mod_sign [OF d, of i] div_mult_mod_eq [of i d] by linarith
  finally show "k * d \<le> i" .
next
  assume d: "0 < d" and k: "k * d \<le> i"
  have "(k * d) div d \<le> i div d" by (rule zdiv_mono1 [OF k d])
  then show "k \<le> i div d" using d by simp
qed

lemma quotients: "0 < d \<Longrightarrow> LARGEST_INT64 sdiv d = LARGEST_INT64 div d" "0 < d \<Longrightarrow> SMALLEST_INT64 sdiv d = - (2 ^ 63 div d)" for d :: int
  by (simp_all add: signed_divide_int_def limits)

lemma over_pos: "k > LARGEST_INT64 sdiv d \<longleftrightarrow> k * d > LARGEST_INT64" if "0 < d"
  unfolding quotients(1) [OF that] using le_div [OF that, of k LARGEST_INT64] by linarith

lemma over_neg: "k < SMALLEST_INT64 sdiv d \<longleftrightarrow> k * d < SMALLEST_INT64" if "0 < d"
  unfolding quotients(2) [OF that] unfolding limits(2) using le_div [OF that, of "- k" "2 ^ 63"] mult_minus_left [of k d] by linarith

lemma mul_negative:
  assumes "fits64 a" "fits64 b" "a < 0" "b < 0"
  shows "sqlite3MulInt64 a b = checked a (a * b)"
proof (cases "a = SMALLEST_INT64 \<or> b = SMALLEST_INT64")
  case True
  have "- a \<le> a * b" "- b \<le> a * b"
    using assms(3,4) mult_left_mono_neg [of b "- 1" a] mult_right_mono_neg [of a "- 1" b] by simp_all
  then have "\<not> fits64 (a * b)" using True by (auto simp: fits64_def limits)
  then show ?thesis using True assms(3,4) by (auto simp: sqlite3MulInt64_def checked_def)
next
  case False
  have "0 < a * b" using assms(3,4) by (simp add: mult_neg_neg)
  then have "fits64 (a * b) \<longleftrightarrow> \<not> a * b > LARGEST_INT64" by (auto simp: fits64_def limits)
  moreover have "- a > LARGEST_INT64 sdiv (- b) \<longleftrightarrow> a * b > LARGEST_INT64" using over_pos [of "- b" "- a"] assms(4) by simp
  moreover have "fits64 (- a)" "fits64 (- b)" using assms False by (auto simp: fits64_def limits)
  ultimately show ?thesis using False assms(3,4) by (simp add: sqlite3MulInt64_def checked_def i64_def del: mult_minus_left)
qed

lemma mul_exact:
  assumes "fits64 a" "fits64 b"
  shows "sqlite3MulInt64 a b = checked a (a * b)"
proof -
  consider "b = 0" | "b < 0" "a = 0" | "0 < b" | "b < 0" "0 < a" | "b < 0" "a < 0" by linarith
  then show ?thesis
  proof cases
    case 3
    then show ?thesis using over_pos [of b a] over_neg [of b a]
      by (auto simp: sqlite3MulInt64_def checked_def i64_def fits64_def)
  next
    case 4
    have "a * b < 0" using 4 by (simp add: mult_pos_neg)
    then have "a * b \<le> LARGEST_INT64" by (simp add: limits)
    then show ?thesis using 4 over_neg [of a b]
      by (auto simp: sqlite3MulInt64_def checked_def i64_def fits64_def mult.commute)
  next
    case 5
    then show ?thesis using mul_negative assms by simp
  qed (simp_all add: sqlite3MulInt64_def checked_def i64_def fits64_def limits)
qed

text \<open>
  C38. Addition, subtraction and multiplication of 64-bit integers report an overflow exactly when the exact result
  does not fit, leave the operand alone then, and give the exact result otherwise; no intermediate result overflows.
\<close>

theorem int64_operations_exact:
  assumes "fits64 a" "fits64 b"
  shows "sqlite3AddInt64 a b = Ok (if fits64 (a + b) then (False, a + b) else (True, a)) \<and>
    sqlite3SubInt64 a b = Ok (if fits64 (a - b) then (False, a - b) else (True, a)) \<and>
    sqlite3MulInt64 a b = Ok (if fits64 (a * b) then (False, a * b) else (True, a))"
  using add_exact [OF assms] sub_exact [OF assms] mul_exact [OF assms] by (simp add: checked_def)

lemma int64_operations_exact_witness:
  "sqlite3AddInt64 LARGEST_INT64 1 = Ok (True, LARGEST_INT64) \<and> sqlite3SubInt64 (- 1) SMALLEST_INT64 = Ok (False, LARGEST_INT64) \<and>
   sqlite3MulInt64 (2 ^ 32) (2 ^ 31) = Ok (True, 2 ^ 32)"
  using int64_operations_exact [of LARGEST_INT64 1] int64_operations_exact [of "- 1" SMALLEST_INT64]
    int64_operations_exact [of "2 ^ 32" "2 ^ 31"] by (simp add: fits64_def limits)

end
