(* ===== verification/Spec2Isabelle.thy ===== *)
theory Spec2Isabelle
  imports Network Signals Json_Roundtrip Json_Copy Vdbe_Record Tokenizer Bitvec Rowset Int64
begin

text \<open>
  A verification development of hearthbeat: a daemon, \<^verbatim>\<open>beat\<close>, that answers every TCP connection and
  every UDP datagram with \<open>bip\<close>, and a program, \<^verbatim>\<open>monitor\<close>, that asks a list of targets for such an
  answer at every poll interval, tells the user over the Telegram bot API when a target goes down or
  comes up, and writes the round-trip times to an SQLite database.

  \<^bold>\<open>The parts of the program and their theories.\<close>

  \<^item> \<open>Prelude\<close>: the result type of a C function (\<open>Ok\<close>, or \<open>UB\<close> of the first undefined behaviour it
    commits), sequencing, the collections \<open>frame_simps\<close> and \<open>wf_intros\<close>, and two interfaces:
    \<open>named_array\<close>, an array that is searched by name, interpreted on the callbacks and registered pointers of
    the configuration reader and on the named clocks of the log, and \<open>simulation\<close>, steps that follow
    an abstract effect, interpreted on the operations of the page sets.
  \<^item> \<open>CString\<close> and \<open>CDouble\<close>: what the program uses of the C library: strings in arrays of a given size,
    \<open>strtol\<close>, \<open>strtod\<close>, \<open>sscanf\<close> and \<open>%g\<close> on the binary64 format, with integers only, so
    that the definitions can be evaluated.
  \<^item> \<open>Argparse\<close> (src/argparse.c): the reader of the configuration files. A client registers keys with a
    callback or with a pointer; \<open>argparse_read_properties\<close> reads lines of at most 255 bytes and calls
    the callback of each key. Pointers are addresses of a store that has cells of lists.
  \<^item> \<open>Logtime\<close> (src/logtime.c): named clocks and the rows written to the database. The step
    function of the database engine is a parameter with the interface \<open>sqlite_engine\<close>, a locale, and an
    engine that fulfils it is defined beside it.
  \<^item> \<open>Beat\<close> (src/beat.c): options, start-up, service loop and signal handler of the daemon. A turn of the loop is
    the list of its calls; a signal may cut it between any two of them, and a client that has gone ends the process by \<open>SIGPIPE\<close>.
  \<^item> \<open>Json_Data\<close>, \<open>Json_Parse\<close>, \<open>Json_Print\<close>, \<open>Json_Build\<close>, \<open>Json_Links\<close>, \<open>Json_Compare\<close>, \<open>Json_Copy\<close>
    (libs/cJSON.c): items and allocation hooks, the parser on its buffer, the printer on its growing
    memory, additions to objects, the operations on the links of items in a store of nodes,
    comparison, and duplication and minifying. \<open>Json_Roundtrip\<close> puts the printer and the parser together.
  \<^item> \<open>Telegram\<close> (src/telegram.c): requests to the bot API, built from the configuration reader and from cJSON.
    libcurl is a parameter: for each call what its functions return, and in which blocks the
    response is delivered to the write callback.
  \<^item> \<open>Monitor\<close> and \<open>Monitor_Runs\<close> (src/monitor.c): start-up, target definitions, and the handlers of
    libevent's events; \<open>dispatch\<close> is the event loop, an inductive relation over any order of
    ready events. \<open>Monitor\<close> composes \<open>Argparse\<close>, \<open>Logtime\<close> and \<open>Telegram\<close> the way the program does.
  \<^item> \<open>Signals\<close> (src/monitor.c): the handlers of the monitor as the sequences of their calls, which are shown to be the handlers of
    \<open>Monitor\<close>, and the stop signals that cut a sequence between any two calls, also that of the other stop signal.
  \<^item> \<open>Network\<close>: one monitor and daemons at socket addresses, on a network that may lose, repeat, delay and
    reorder datagrams. \<open>net_step\<close> ties the inputs of the handlers of \<open>Monitor\<close> and \<open>Beat\<close> to what the
    other side sent.
  \<^item> Pieces of the engine that writes the log (libs/sqlite3.c), each complete in itself: \<open>Varint\<close>, the variable-length integers of
    the rows; \<open>Vdbe_Record\<close>, the rows themselves: the serial types of cells, the end of the instruction that packs
    cells into a record, and the function that unpacks them; \<open>Bitvec\<close>, the sets of page numbers of a transaction; \<open>Rowset\<close>, the sets of row
    numbers, with their merge sort and search trees; \<open>Hash_Table\<close>, the tables in which the schema is
    looked up by name, on linked elements in a store, with the interface \<open>keyed_store\<close> their clients see;
    \<open>Keywords\<close> and \<open>Tokenizer\<close>, the generated hash of the keywords of SQL, the function that finds the first token of a
    text, and the loop that takes a statement apart for the parser, which is a parameter; \<open>Int64\<close>, checked arithmetic.
    \<open>Sqlite_Memory\<close> is what they use of the allocator.

  \<^bold>\<open>State.\<close> C structures are records, pointers into the program's own arrays are values,
  pointers that are shared and mutated are addresses of an explicit store (the variables and list cells of
  the configuration reader, the nodes of the linked items). In the parser, the printer and the creation functions of cJSON an
  item is a tree with the list of its children: no function there shares an item. Every allocation asks a parameter that may refuse it, and
  counts the live blocks, so that leaks and double releases show. Results of system calls are
  inputs of the steps.

  \<^bold>\<open>What the lemmas show.\<close> For each component: that its operations keep the well-formedness of the state and commit no undefined
  behaviour from it, or exactly when they do; that they refine an abstract description (the entries of a file
  and what they assign, the text of an item, the list of children of a node, one loop over groups of
  seven bits, a search in a list of keywords, a finite set, a map); that every token has the shape its type stands for; what happens on each refused allocation and failed call; and round trips of files, of
  JSON items, of integers and of rows. Over several components: a session of the monitor from its configuration
  files, where the messages of a run are one for each change of a target and the rows are the
  round trips, as long as every event is one of the usual ones (\<open>benign\<close>), and the end of such a run by a stop signal; and, of the monitor together with the daemons, that a target is only called up
  after its daemon replied, that a daemon that runs is noticed, and that neither program overflows the other.

  \<^bold>\<open>Fuel and bounds.\<close> \<open>parse_fuel\<close> is three units for each byte of the text and ten more: each
  call and each turn of a loop of the parser takes one unit and at most two are spent before a byte is consumed; the
  theorems on the parser say that it always returns. The walks along \<open>next\<close> in \<open>Json_Links\<close> and
  \<open>Json_Compare\<close> take the fuel as an argument and give \<open>Endless_Loop\<close> without; their theorems ask for a
  number of units that the nodes of the structure bound. The copy loops of \<open>Json_Copy\<close> take one unit for each byte of the buffer, the loops over the elements of a
  hash table one for each element and one more. \<open>set_fuel\<close>, 10, is more than the levels of a page set of any size below
  \<open>2 ^ 32 - 61\<close>, where the theorems on them hold; the 40 buckets of the sort of row sets hold fewer than \<open>2 ^ 40\<close> entries. The
  theorems on records hold for rows of fewer than \<open>2 ^ 15\<close> cells with texts below \<open>2 ^ 30\<close> bytes, which the limits of the engine imply. The loops of the tokenizer have no fuel: they
  stop in front of the terminator of the text, which their termination proofs use. Sizes are the code's: 256 bytes for a line and for a clock name, 128 for a datagram, 1024 for
  a URL, 1000 for the nesting of JSON. Integers of the varint functions and the hash are words at their width; a counter that could overflow is checked or wraps where the
  code does.

  \<^bold>\<open>Not modelled.\<close> The rest of the SQLite amalgamation (its pager, B-tree, virtual machine, and the tables and actions of its generated parser: 200,000 lines of
  third-party code that the program reaches through prepared statements), and of the checked arithmetic the branch that calls
  functions of the compiler; libcurl, libevent and the system calls, which are
  parameters. The texts of \<open>strerror\<close> and \<open>gai_strerror\<close> in lines on standard error, and
  \<open>cJSON_GetErrorPtr\<close> and \<open>cJSON_Version\<close>. \<open>logtime_close\<close> only closes the handle. When the configuration file of the monitor
  cannot be opened, \<open>init\<close> goes on without targets, and the registration of its local list is left behind: a \<open>target\<close> line in the
  file of the token is then stored in a variable that no longer exists. In the model its address stays valid; the theorems on the
  start-up are about files that can be opened. Of signals: one that arrives inside a call of a library (or, in the monitor, inside a call of another of its own
  modules), which makes the handler call functions that are not async-signal-safe, one that arrives
  during the start-up (of the monitor: it prints a NULL pointer, \<open>early_signal\<close>), and a second one
  while the handler of the daemon runs.
\<close>

end
